(* ===== verification/Prelude.thy ===== *)
theory Prelude
  imports Main "HOL-Library.Word"
begin

text \<open>
  Shared base of the development: the machine integers of \<open>src/src/utility.h\<close>, the ways
  kernel code can stop (\<open>assert\<close> and \<open>bsod\<close> of \<open>utility.h\<close>, accesses outside the memory
  a pointer designates), the result type that carries them, sequencing, and bounded
  \<open>for\<close> loops. Every component theory imports it.
\<close>

unbundle bit_operations_syntax

section \<open>Integers\<close>

text \<open>The fixed width typedefs of \<open>utility.h\<close>; \<open>size_t\<close> and \<open>uptr\<close> are \<open>u64\<close> in the kernel.\<close>

type_synonym u8 = "8 word"
type_synonym u16 = "16 word"
type_synonym u32 = "32 word"
type_synonym u64 = "64 word"

text \<open>
  A shift by a run-time count as the \<open>shl\<close>/\<open>shr\<close> instructions of x86-64 do it on a
  64 bit operand: only the low six bits of the count are used.
\<close>

definition shl64 :: "u64 \<Rightarrow> u64 \<Rightarrow> u64" where
  "shl64 x n = push_bit (unat n mod 64) x"

definition shr64 :: "u64 \<Rightarrow> u64 \<Rightarrow> u64" where
  "shr64 x n = drop_bit (unat n mod 64) x"

definition alignup :: "u64 \<Rightarrow> u64 \<Rightarrow> u64" where
  "alignup n multiple = ((n + multiple - 1) div multiple) * multiple"

section \<open>Results\<close>

text \<open>
  How a kernel function fails to return: a failed \<open>assert\<close> and an explicit \<open>bsod\<close> both
  end in the blue screen, which never returns; \<open>OutOfBounds\<close> is an access outside the
  object a pointer designates and \<open>NullAccess\<close> one through an inactive mapping or a null
  pointer (undefined behaviour or a page fault in the program); \<open>DivZero\<close> is a division by zero
  (the divisors in question are read from the disk); \<open>Shutdown\<close> is \<open>kend()\<close>, which stops the machine.
\<close>

datatype fault = Assertion | Bsod | OutOfBounds | NullAccess | DivZero | Shutdown

type_synonym 'a res = "fault + 'a"

fun bnd :: "'a res \<Rightarrow> ('a \<Rightarrow> 'b res) \<Rightarrow> 'b res" where
  "bnd (Inl e) f = Inl e"
| "bnd (Inr x) f = f x"

definition check :: "bool \<Rightarrow> fault \<Rightarrow> 'a res \<Rightarrow> 'a res" where
  "check c e k = (if c then k else Inl e)"

abbreviation assertk :: "bool \<Rightarrow> 'a res \<Rightarrow> 'a res" where
  "assertk c k \<equiv> check c Assertion k"

fun is_ok :: "'a res \<Rightarrow> bool" where
  "is_ok (Inl e) = False"
| "is_ok (Inr x) = True"

named_theorems res_simps \<open>rewriting of results of fallible operations\<close>

lemma bnd_eq_Inr [res_simps]: "bnd m f = Inr y \<longleftrightarrow> (\<exists>x. m = Inr x \<and> f x = Inr y)"
  by (cases m) auto

lemma bnd_eq_Inl: "bnd m f = Inl e \<longleftrightarrow> m = Inl e \<or> (\<exists>x. m = Inr x \<and> f x = Inl e)"
  by (cases m) auto

lemma bnd_assoc: "bnd (bnd m f) g = bnd m (\<lambda>x. bnd (f x) g)"
  by (cases m) auto

lemma bnd_cong [fundef_cong]:
  "m = m' \<Longrightarrow> (\<And>x. m' = Inr x \<Longrightarrow> f x = f' x) \<Longrightarrow> bnd m f = bnd m' f'"
  by (cases m') auto

lemma check_eq_Inr [res_simps]: "check c e k = Inr y \<longleftrightarrow> c \<and> k = Inr y"
  by (auto simp: check_def)

lemma check_True [simp]: "check True e k = k"
  and check_False [simp]: "check False e k = Inl e"
  by (simp_all add: check_def)

lemma check_cong [fundef_cong]:
  "c = c' \<Longrightarrow> (c' \<Longrightarrow> k = k') \<Longrightarrow> check c e k = check c' e k'"
  by (auto simp: check_def)

lemma is_ok_iff: "is_ok m \<longleftrightarrow> (\<exists>x. m = Inr x)"
  by (cases m) auto

section \<open>Loops\<close>

text \<open>
  \<open>for_list f xs s\<close> runs the body \<open>f\<close> for each element of \<open>xs\<close> in order on the state
  \<open>s\<close>; \<open>for_range f a b s\<close> is \<open>for (i = a; i < b; ++i)\<close>. The first fault stops the loop.
\<close>

fun for_list :: "('i \<Rightarrow> 's \<Rightarrow> 's res) \<Rightarrow> 'i list \<Rightarrow> 's \<Rightarrow> 's res" where
  "for_list f [] s = Inr s"
| "for_list f (x # xs) s = bnd (f x s) (for_list f xs)"

definition for_range :: "(nat \<Rightarrow> 's \<Rightarrow> 's res) \<Rightarrow> nat \<Rightarrow> nat \<Rightarrow> 's \<Rightarrow> 's res" where
  "for_range f a b s = for_list f [a..<b] s"

lemma for_list_append:
  "for_list f (xs @ ys) s = bnd (for_list f xs s) (for_list f ys)"
proof (induction xs arbitrary: s)
  case Nil
  show ?case by simp
next
  case (Cons x xs)
  then show ?case by (cases "f x s") simp_all
qed

lemma for_list_inv:
  assumes "for_list f xs s = Inr t" "P s"
    and "\<And>x s t. x \<in> set xs \<Longrightarrow> P s \<Longrightarrow> f x s = Inr t \<Longrightarrow> P t"
  shows "P t"
  using assms by (induction xs arbitrary: s) (auto simp: res_simps)

lemma for_range_inv:
  assumes "for_range f a b s = Inr t" "P s"
    and "\<And>i s t. a \<le> i \<Longrightarrow> i < b \<Longrightarrow> P s \<Longrightarrow> f i s = Inr t \<Longrightarrow> P t"
  shows "P t"
  using assms unfolding for_range_def by (elim for_list_inv) auto

lemma for_range_empty [simp]: "b \<le> a \<Longrightarrow> for_range f a b s = Inr s"
  by (simp add: for_range_def)

lemma for_range_step:
  "a < b \<Longrightarrow> for_range f a b s = bnd (f a s) (for_range f (Suc a) b)"
  by (cases "f a s") (simp_all add: for_range_def upt_conv_Cons)

lemma for_list_single [simp]: "for_list f [x] = f x"
proof
  fix s
  show "for_list f [x] s = f x s"
    by (cases "f x s") simp_all
qed

lemma for_range_last:
  "a \<le> b \<Longrightarrow> for_range f a (Suc b) s = bnd (for_range f a b s) (f b)"
  by (simp add: for_range_def for_list_append)

section \<open>Words as bit vectors\<close>

lemma unat_mod_64 [simp]: "unat (i mod 64 :: u64) = unat i mod 64"
  by (simp add: unat_mod)

lemma unat_div_64 [simp]: "unat (i div 64 :: u64) = unat i div 64"
  by (simp add: unat_div)

lemma unat_add_small: "unat (i::u64) + k < 2 ^ 64 \<Longrightarrow> k < 2^64 \<Longrightarrow> unat (i + of_nat k) = unat i + k"
  by (simp add: unat_add_lem[THEN iffD1] unat_of_nat)

lemma div64E:
  obtains q r where "x = 64 * q + r" "r < 64" "x div 64 = q" "x mod 64 = (r::nat)"
proof
  show "x = 64 * (x div 64) + x mod 64" by simp
qed simp_all

lemma div64_up:
  assumes "(x::nat) mod 64 \<noteq> 0"
  shows "(x + 63) div 64 = x div 64 + 1"
proof -
  obtain q r where x: "x = 64 * q + r" "r < 64" "x div 64 = q" "x mod 64 = r" by (rule div64E)
  have "r \<noteq> 0" using x(4) assms by simp
  with x(1,2) have "(x + 63) div 64 = q + 1"
    by (intro div_nat_eqI) auto
  then show ?thesis using x by simp
qed

lemma div64_same:
  assumes "(x::nat) mod 64 = 0"
  shows "(x + 63) div 64 = x div 64"
proof -
  obtain q r where x: "x = 64 * q + r" "r < 64" "x div 64 = q" "x mod 64 = r" by (rule div64E)
  have "r = 0" using x(4) assms by simp
  with x(1,2) have "(x + 63) div 64 = q"
    by (intro div_nat_eqI) auto
  then show ?thesis using x by simp
qed

lemma div64_block:
  assumes "(m::nat) mod 64 = 0"
  shows "n div 64 = m div 64 \<longleftrightarrow> m \<le> n \<and> n < m + 64"
proof -
  obtain q r where m: "m = 64 * q + r" "r < 64" "m div 64 = q" "m mod 64 = r" by (rule div64E)
  obtain q' r' where n: "n = 64 * q' + r'" "r' < 64" "n div 64 = q'" by (rule div64E)
  show ?thesis using m n assms by auto
qed

lemma alignup_64_up:
  assumes "unat i mod 64 \<noteq> 0" "unat i + 64 < 2 ^ 64"
  shows "unat (alignup i 64) = 64 * (unat i div 64 + 1)"
proof -
  have e: "unat (i + 63) = unat i + 63"
    using assms(2) unat_add_small[of i 63] by simp
  have d: "(unat i + 63) div 64 = unat i div 64 + 1" using assms(1) by (rule div64_up)
  have "unat (alignup i 64) = (unat ((i + 63) div 64) * 64) mod 2^64"
    by (simp add: alignup_def unat_word_ariths(2) add_diff_eq[symmetric])
  also have "\<dots> = ((unat i div 64 + 1) * 64) mod 2 ^ 64"
    by (simp only: unat_div_64 e d)
  also have "\<dots> = (unat i div 64 + 1) * 64"
    using assms mult_div_mod_eq[of 64 "unat i"] by (intro mod_less) simp
  finally show ?thesis by simp
qed

lemma alignup_64_same:
  assumes "unat i mod 64 = 0" "unat i + 64 < 2 ^ 64"
  shows "alignup i 64 = i"
proof -
  have e: "unat (i + 63) = unat i + 63"
    using assms(2) unat_add_small[of i 63] by simp
  have d: "(unat i + 63) div 64 = unat i div 64" using assms(1) by (rule div64_same)
  have "unat (alignup i 64) = (unat ((i + 63) div 64) * 64) mod 2^64"
    by (simp add: alignup_def unat_word_ariths(2) add_diff_eq[symmetric])
  also have "\<dots> = (unat i div 64 * 64) mod 2 ^ 64"
    by (simp only: unat_div_64 e d)
  also have "\<dots> = unat i"
    using assms mult_div_mod_eq[of 64 "unat i"] by simp
  finally show ?thesis by (rule word_unat_eq_iff[THEN iffD2])
qed

lemma word_has_bit:
  assumes "(w::u64) \<noteq> 0"
  shows "\<exists>n<64. bit w n"
proof (rule ccontr)
  assume "\<not> (\<exists>n<64. bit w n)"
  then have "w = 0" by (intro bit_word_eqI) auto
  with assms show False ..
qed

lemma find_upt_Some: "find P [0..<n] = Some k \<longleftrightarrow> k < n \<and> P k \<and> (\<forall>j<k. \<not> P j)"
  by (auto simp: find_Some_iff)

lemma unat_pos:
  assumes "64 * n < 2 ^ 64" "i < n" "k < 64"
  shows "unat (of_nat k + of_nat i * 64 :: u64) = 64 * i + k"
    and "(of_nat k + of_nat i * 64 :: u64) \<noteq> - 1"
    and "unat (of_nat i :: u64) = i"
proof -
  have lt: "64 * i + k < 2 ^ 64 - 1" using assms by simp
  have e: "(of_nat k + of_nat i * 64 :: u64) = of_nat (64 * i + k)" by simp
  show u: "unat (of_nat k + of_nat i * 64 :: u64) = 64 * i + k"
    unfolding e unat_of_nat using lt by simp
  show "(of_nat k + of_nat i * 64 :: u64) \<noteq> - 1"
  proof
    assume "(of_nat k + of_nat i * 64 :: u64) = - 1"
    then have "unat (of_nat k + of_nat i * 64 :: u64) = unat (- 1 :: u64)" by simp
    also have "\<dots> = 2 ^ 64 - 1" by (simp add: unsigned_minus_1_eq_mask mask_eq_exp_minus_1)
    finally show False using u lt by simp
  qed
  show "unat (of_nat i :: u64) = i"
    using lt by (simp add: unat_of_nat)
qed

text \<open>The range of the integer types, and conversions that keep the value.\<close>

lemma unat_lt8: "unat (w :: u8) < 2 ^ 8"
  and unat_lt16: "unat (x :: u16) < 2 ^ 16"
  and unat_lt32: "unat (y :: u32) < 2 ^ 32"
  and unat_lt64: "unat (z :: u64) < 2 ^ 64"
  using unsigned_less[where ?'a = nat and w = w] unsigned_less[where ?'a = nat and w = x]
    unsigned_less[where ?'a = nat and w = y] unsigned_less[where ?'a = nat and w = z] by simp_all

lemma unat_of_nat64: "n < 2 ^ 64 \<Longrightarrow> unat (of_nat n :: u64) = n"
  unfolding unat_of_nat by simp

lemma unat_of_nat32: "n < 2 ^ 32 \<Longrightarrow> unat (of_nat n :: u32) = n"
  unfolding unat_of_nat by simp

lemma unat_ucast_32_64 [simp]: "unat (ucast (x :: u32) :: u64) = unat x"
proof -
  have "unat x < 2 ^ 64" by (rule less_trans[OF unat_lt32]) simp
  then show ?thesis by (simp add: unsigned_ucast_eq take_bit_nat_eq_self)
qed

lemma unat_ucast_16_64 [simp]: "unat (ucast (x :: u16) :: u64) = unat x"
proof -
  have "unat x < 2 ^ 64" by (rule less_trans[OF unat_lt16]) simp
  then show ?thesis by (simp add: unsigned_ucast_eq take_bit_nat_eq_self)
qed

end
