(* ===== verification/Deque.thy ===== *)
theory Deque
  imports Prelude
begin

text \<open>
  The ring buffer \<open>Deque<T, N>\<close> of \<open>src/src/Deque.h\<close>, which buffers keyboard and mouse
  events between interrupts and readers. The template parameter \<open>N\<close> is the length of
  \<open>dq_array\<close>; the indices are below \<open>N\<close>, an \<open>unsigned int\<close>, so that only the index of
  \<open>operator[]\<close> can wrap around, and there the wrap is written out.

  The locale \<open>bounded_deque\<close> is what the event sources rely on: a list of bounded length
  that is extended and shortened at both ends. \<open>interpretation dq\<close> discharges it for the
  ring buffer.
\<close>

record 'a deque =
  dq_begin :: nat
  dq_end :: nat
  dq_size :: nat
  dq_array :: "'a list"

definition dq_N :: "'a deque \<Rightarrow> nat" where
  "dq_N d = length (dq_array d)"

text \<open>\<open>Deque()\<close>; the array is not initialised, its content is a parameter.\<close>

definition dq_new :: "'a list \<Rightarrow> 'a deque" where
  "dq_new arr = \<lparr>dq_begin = 0, dq_end = 0, dq_size = 0, dq_array = arr\<rparr>"

definition dq_push_back :: "'a \<Rightarrow> 'a deque \<Rightarrow> 'a deque res" where
  "dq_push_back v d = assertk (dq_size d < dq_N d)
     (Inr (d\<lparr>dq_array := (dq_array d)[dq_end d := v], dq_end := (dq_end d + 1) mod dq_N d,
             dq_size := dq_size d + 1\<rparr>))"

definition dq_push_front :: "'a \<Rightarrow> 'a deque \<Rightarrow> 'a deque res" where
  "dq_push_front v d = assertk (dq_size d < dq_N d)
     (let b = (dq_begin d + dq_N d - 1) mod dq_N d in
      Inr (d\<lparr>dq_begin := b, dq_array := (dq_array d)[b := v], dq_size := dq_size d + 1\<rparr>))"

definition dq_pop_back :: "'a deque \<Rightarrow> 'a deque res" where
  "dq_pop_back d = assertk (dq_size d > 0)
     (Inr (d\<lparr>dq_end := (dq_end d + dq_N d - 1) mod dq_N d, dq_size := dq_size d - 1\<rparr>))"

definition dq_pop_front :: "'a deque \<Rightarrow> 'a deque res" where
  "dq_pop_front d = assertk (dq_size d > 0)
     (Inr (d\<lparr>dq_begin := (dq_begin d + 1) mod dq_N d, dq_size := dq_size d - 1\<rparr>))"

definition dq_nth :: "'a deque \<Rightarrow> nat \<Rightarrow> 'a" where
  "dq_nth d n = dq_array d ! ((dq_begin d + n) mod 2 ^ 64 mod dq_N d)"

definition dq_at :: "'a deque \<Rightarrow> nat \<Rightarrow> 'a res" where
  "dq_at d n = assertk (n < dq_size d) (Inr (dq_array d ! ((dq_begin d + n) mod 2 ^ 64 mod dq_N d)))"

definition dq_front :: "'a deque \<Rightarrow> 'a" where
  "dq_front d = dq_array d ! dq_begin d"

definition dq_back :: "'a deque \<Rightarrow> 'a" where
  "dq_back d = dq_array d ! ((dq_end d + dq_N d - 1) mod dq_N d)"

definition dq_empty :: "'a deque \<Rightarrow> bool" where
  "dq_empty d = (dq_size d = 0)"

section \<open>The list a ring buffer stands for\<close>

definition dq_wf :: "'a deque \<Rightarrow> bool" where
  "dq_wf d \<longleftrightarrow> 0 < dq_N d \<and> dq_N d < 2 ^ 32 \<and> dq_begin d < dq_N d \<and> dq_size d \<le> dq_N d
     \<and> dq_end d = (dq_begin d + dq_size d) mod dq_N d"

definition dq_list :: "'a deque \<Rightarrow> 'a list" where
  "dq_list d = map (\<lambda>i. dq_array d ! ((dq_begin d + i) mod dq_N d)) [0..<dq_size d]"

lemma length_dq_list [simp]: "length (dq_list d) = dq_size d"
  by (simp add: dq_list_def)

lemma nth_dq_list: "i < dq_size d \<Longrightarrow> dq_list d ! i = dq_array d ! ((dq_begin d + i) mod dq_N d)"
  by (simp add: dq_list_def)

lemma ring_inj:
  assumes "i < n" "j < n" "(b + i) mod n = (b + j) mod (n :: nat)"
  shows "i = j"
proof -
  have "\<not> x < y" if "x < n" "y < n" "(b + x) mod n = (b + y) mod n" for x y
  proof
    assume l: "x < y"
    have "n dvd (b + y) - (b + x)" 
      using that(3) l mod_eq_dvd_iff_nat[of "b + x" "b + y" n] by simp
    then show False using l that(1,2) nat_dvd_not_less[of "y - x" n] by simp
  qed
  from this[of i j] this[of j i] show ?thesis using assms by linarith
qed

lemma ring_pred: "0 < n \<Longrightarrow> ((b + n - 1) mod n + (i + 1)) mod n = (b + i) mod (n :: nat)"
proof -
  assume "0 < n"
  have "((b + n - 1) mod n + (i + 1)) mod n = (b + n - 1 + (i + 1)) mod n" by (rule mod_add_left_eq)
  also have "b + n - 1 + (i + 1) = b + i + n" using \<open>0 < n\<close> by simp
  finally show ?thesis by simp
qed

lemma push_back_list:
  assumes "dq_wf d" "dq_push_back v d = Inr d'"
  shows "dq_wf d' \<and> dq_list d' = dq_list d @ [v] \<and> dq_N d' = dq_N d"
proof -
  have lt: "dq_size d < dq_N d" and d': "d' = d\<lparr>dq_array := (dq_array d)[dq_end d := v],
     dq_end := (dq_end d + 1) mod dq_N d, dq_size := dq_size d + 1\<rparr>"
    using assms(2) by (auto simp: dq_push_back_def res_simps)
  have N: "dq_N d' = dq_N d" by (simp add: d' dq_N_def)
  have wf: "dq_end d = (dq_begin d + dq_size d) mod dq_N d" "0 < dq_N d" using assms(1) by (simp_all add: dq_wf_def)
  have "dq_wf d'" using assms(1) lt N by (simp add: dq_wf_def d' mod_Suc_eq)
  moreover have "dq_list d' = dq_list d @ [v]"
  proof (rule nth_equalityI)
    show "length (dq_list d') = length (dq_list d @ [v])" by (simp add: d')
  next
    fix i assume "i < length (dq_list d')"
    then have i: "i \<le> dq_size d" by (simp add: d')
    have e: "(dq_begin d + i) mod dq_N d = dq_end d \<longleftrightarrow> i = dq_size d"
      using ring_inj[of i "dq_N d" "dq_size d" "dq_begin d"] lt i wf by auto
    have "dq_list d' ! i = (dq_array d)[dq_end d := v] ! ((dq_begin d + i) mod dq_N d)"
      using i N by (simp add: nth_dq_list d')
    also have "\<dots> = (dq_list d @ [v]) ! i"
      using e i wf by (auto simp: nth_append nth_dq_list dq_N_def nth_list_update)
    finally show "dq_list d' ! i = (dq_list d @ [v]) ! i" .
  qed
  ultimately show ?thesis using N by simp
qed

lemma push_front_list:
  assumes "dq_wf d" "dq_push_front v d = Inr d'"
  shows "dq_wf d' \<and> dq_list d' = v # dq_list d \<and> dq_N d' = dq_N d"
proof -
  define b where "b = (dq_begin d + dq_N d - 1) mod dq_N d"
  have lt: "dq_size d < dq_N d" and d': "d' = d\<lparr>dq_begin := b, dq_array := (dq_array d)[b := v], dq_size := dq_size d + 1\<rparr>"
    using assms(2) by (auto simp: dq_push_front_def res_simps Let_def b_def)
  have N: "dq_N d' = dq_N d" by (simp add: d' dq_N_def)
  have n: "0 < dq_N d" using assms(1) by (simp add: dq_wf_def)
  have s: "(b + Suc i) mod dq_N d = (dq_begin d + i) mod dq_N d" for i
    using ring_pred[OF n, of "dq_begin d" i] by (simp add: b_def)
  have bN: "b < dq_N d" using n by (simp add: b_def)
  have "dq_wf d'" using assms(1) lt N s bN by (simp add: dq_wf_def d')
  moreover have "dq_list d' = v # dq_list d"
  proof (rule nth_equalityI)
    show "length (dq_list d') = length (v # dq_list d)" by (simp add: d')
  next
    fix i assume "i < length (dq_list d')"
    then have i: "i \<le> dq_size d" by (simp add: d')
    have l: "dq_list d' ! i = (dq_array d)[b := v] ! ((b + i) mod dq_N d)"
      using i N by (simp add: nth_dq_list d')
    show "dq_list d' ! i = (v # dq_list d) ! i"
    proof (cases i)
      case 0
      then show ?thesis using l bN by (simp add: dq_N_def)
    next
      case (Suc j)
      have "(b + i) mod dq_N d \<noteq> b"
        using ring_inj[of i "dq_N d" 0 b] i lt bN Suc by auto
      then show ?thesis using l Suc s[of j] i by (simp add: nth_dq_list)
    qed
  qed
  ultimately show ?thesis using N by simp
qed

lemma pop_back_list:
  assumes "dq_wf d" "dq_pop_back d = Inr d'"
  shows "dq_list d \<noteq> [] \<and> dq_wf d' \<and> dq_list d' = butlast (dq_list d) \<and> dq_N d' = dq_N d"
proof -
  have gt: "0 < dq_size d" and d': "d' = d\<lparr>dq_end := (dq_end d + dq_N d - 1) mod dq_N d, dq_size := dq_size d - 1\<rparr>"
    using assms(2) by (auto simp: dq_pop_back_def res_simps)
  have N: "dq_N d' = dq_N d" by (simp add: d' dq_N_def)
  have n: "0 < dq_N d" and e: "dq_end d = (dq_begin d + dq_size d) mod dq_N d"
    using assms(1) by (simp_all add: dq_wf_def)
  have "(dq_end d + dq_N d - 1) mod dq_N d = (dq_end d + (dq_N d - 1)) mod dq_N d" using n by simp
  also have "\<dots> = (dq_begin d + dq_size d + (dq_N d - 1)) mod dq_N d" unfolding e by (rule mod_add_left_eq)
  also have "dq_begin d + dq_size d + (dq_N d - 1) = dq_begin d + (dq_size d - 1) + dq_N d" using gt n by simp
  finally have e': "(dq_end d + dq_N d - 1) mod dq_N d = (dq_begin d + (dq_size d - 1)) mod dq_N d" by simp
  have "dq_wf d'" using assms(1) N e' gt by (simp add: dq_wf_def d' le_diff_conv)
  moreover have "dq_list d' = butlast (dq_list d)"
    by (rule nth_equalityI) (simp_all add: d' nth_butlast nth_dq_list dq_N_def)
  moreover have "dq_list d \<noteq> []" using gt length_dq_list[of d] by (metis less_numeral_extra(3) list.size(3))
  ultimately show ?thesis using N by simp
qed

lemma pop_front_list:
  assumes "dq_wf d" "dq_pop_front d = Inr d'"
  shows "dq_list d \<noteq> [] \<and> dq_wf d' \<and> dq_list d' = tl (dq_list d) \<and> dq_N d' = dq_N d"
proof -
  have gt: "0 < dq_size d" and d': "d' = d\<lparr>dq_begin := (dq_begin d + 1) mod dq_N d, dq_size := dq_size d - 1\<rparr>"
    using assms(2) by (auto simp: dq_pop_front_def res_simps)
  have N: "dq_N d' = dq_N d" by (simp add: d' dq_N_def)
  have s: "(Suc (dq_begin d) mod dq_N d + i) mod dq_N d = (dq_begin d + Suc i) mod dq_N d" for i
    by (simp add: mod_add_left_eq)
  have "dq_wf d'" using assms(1) N gt s[of "dq_size d - 1"] by (auto simp: dq_wf_def d')
  moreover have "dq_list d' = tl (dq_list d)"
    by (rule nth_equalityI) (simp_all add: d' nth_tl nth_dq_list dq_N_def s[unfolded dq_N_def])
  moreover have "dq_list d \<noteq> []" using gt length_dq_list[of d] by (metis less_numeral_extra(3) list.size(3))
  ultimately show ?thesis using N by simp
qed

lemma dq_at_list:
  assumes "dq_wf d" "n < 2 ^ 32"
  shows "dq_at d n = (if n < length (dq_list d) then Inr (dq_list d ! n) else Inl Assertion)"
  using assms by (auto simp: dq_at_def nth_dq_list dq_wf_def)

lemma dq_front_list:
  assumes "dq_wf d" "dq_list d \<noteq> []"
  shows "dq_front d = hd (dq_list d)"
proof -
  have "0 < dq_size d" using assms(2) length_dq_list[of d] by (metis length_greater_0_conv)
  then show ?thesis using assms by (simp add: hd_conv_nth nth_dq_list dq_front_def dq_wf_def)
qed

section \<open>The contract of a bounded deque\<close>

text \<open>A reader that takes \<open>n\<close> elements, by \<open>first\<close> and \<open>drop_first\<close>.\<close>

fun take_n :: "('s \<Rightarrow> 's res) \<Rightarrow> ('s \<Rightarrow> 'a) \<Rightarrow> nat \<Rightarrow> 's \<Rightarrow> ('a list \<times> 's) res" where
  "take_n drp frst 0 s = Inr ([], s)"
| "take_n drp frst (Suc n) s = bnd (drp s) (\<lambda>s1. bnd (take_n drp frst n s1) (\<lambda>(xs, s2). Inr (frst s # xs, s2)))"

locale bounded_deque =
  fixes inv :: "'s \<Rightarrow> bool"
    and cap :: "'s \<Rightarrow> nat"
    and content :: "'s \<Rightarrow> 'a list"
    and put :: "'a \<Rightarrow> 's \<Rightarrow> 's res"
    and drop_first :: "'s \<Rightarrow> 's res"
    and first :: "'s \<Rightarrow> 'a"
  assumes put_ok: "inv s \<Longrightarrow> put v s = Inr s' \<Longrightarrow> inv s' \<and> content s' = content s @ [v] \<and> cap s' = cap s"
    and put_full: "inv s \<Longrightarrow> is_ok (put v s) \<longleftrightarrow> length (content s) < cap s"
    and drop_ok: "inv s \<Longrightarrow> drop_first s = Inr s' \<Longrightarrow>
      content s \<noteq> [] \<and> inv s' \<and> content s' = tl (content s) \<and> cap s' = cap s"
    and drop_empty: "inv s \<Longrightarrow> is_ok (drop_first s) \<longleftrightarrow> content s \<noteq> []"
    and first_ok: "inv s \<Longrightarrow> content s \<noteq> [] \<Longrightarrow> first s = hd (content s)"
begin

lemma put_list:
  assumes "inv s" "length (content s) + length xs \<le> cap s"
  shows "\<exists>s'. for_list put xs s = Inr s' \<and> inv s' \<and> content s' = content s @ xs \<and> cap s' = cap s"
  using assms
proof (induction xs arbitrary: s)
  case Nil
  then show ?case by simp
next
  case (Cons x xs)
  have "is_ok (put x s)" using put_full[OF Cons.prems(1)] Cons.prems(2) by simp
  then obtain s1 where s1: "put x s = Inr s1" by (auto simp: is_ok_iff)
  note 1 = put_ok[OF Cons.prems(1) s1]
  from Cons.IH[of s1] 1 Cons.prems(2) show ?case using s1 by auto
qed

lemma take_n_ok:
  assumes "inv s" "n \<le> length (content s)"
  shows "\<exists>s'. take_n drop_first first n s = Inr (take n (content s), s') \<and> inv s' \<and> content s' = drop n (content s)"
  using assms
proof (induction n arbitrary: s)
  case 0
  then show ?case by simp
next
  case (Suc n)
  have ne: "content s \<noteq> []" using Suc.prems(2) by auto
  then have "is_ok (drop_first s)" using drop_empty[OF Suc.prems(1)] by simp
  then obtain s1 where s1: "drop_first s = Inr s1" by (auto simp: is_ok_iff)
  note 1 = drop_ok[OF Suc.prems(1) s1]
  have "n \<le> length (content s1)" using 1 Suc.prems(2) by simp
  from Suc.IH[OF _ this] 1 obtain s' where s': "take_n drop_first first n s1 = Inr (take n (content s1), s')"
    "inv s'" "content s' = drop n (content s1)" by blast
  have "take (Suc n) (content s) = first s # take n (content s1)"
    using first_ok[OF Suc.prems(1) ne] ne 1 by (cases "content s") auto
  then show ?case using s1 s' 1 by (auto simp: drop_Suc)
qed

lemma fifo:
  assumes "inv s" "content s = []" "length xs \<le> cap s"
  shows "\<exists>s' s''. for_list put xs s = Inr s' \<and> take_n drop_first first (length xs) s' = Inr (xs, s'') \<and> content s'' = []"
proof -
  from put_list[OF assms(1), of xs] assms obtain s' where
    s': "for_list put xs s = Inr s'" "inv s'" "content s' = xs" by auto
  from take_n_ok[OF s'(2), of "length xs"] s'(3) show ?thesis using s'(1) by auto
qed

end

interpretation dq: bounded_deque dq_wf dq_N dq_list dq_push_back dq_pop_front dq_front
proof unfold_locales
  fix s s' :: "'a deque" and v
  assume wf: "dq_wf s"
  show "dq_push_back v s = Inr s' \<Longrightarrow> dq_wf s' \<and> dq_list s' = dq_list s @ [v] \<and> dq_N s' = dq_N s"
    by (rule push_back_list[OF wf])
  show "is_ok (dq_push_back v s) = (length (dq_list s) < dq_N s)"
    by (simp add: is_ok_iff dq_push_back_def check_def)
  show "dq_pop_front s = Inr s' \<Longrightarrow> dq_list s \<noteq> [] \<and> dq_wf s' \<and> dq_list s' = tl (dq_list s) \<and> dq_N s' = dq_N s"
    by (rule pop_front_list[OF wf])
  show "is_ok (dq_pop_front s) = (dq_list s \<noteq> [])"
    by (auto simp: is_ok_iff dq_pop_front_def check_def dq_list_def)
  show "dq_list s \<noteq> [] \<Longrightarrow> dq_front s = hd (dq_list s)"
    by (rule dq_front_list[OF wf])
qed

text \<open>
  C34. The ring buffer is a list: \<open>push_back\<close> appends, \<open>push_front\<close> prepends, \<open>pop_back\<close>
  and \<open>pop_front\<close> drop the last and the first element, \<open>at\<close> indexes, and each asserts
  exactly when the buffer is full, empty or the index too large.
\<close>

theorem deque_is_list:
  assumes "dq_wf d" "n < 2 ^ 32"
  shows "(if length (dq_list d) < dq_N d
       then (\<exists>d1 d2. dq_push_back v d = Inr d1 \<and> dq_wf d1 \<and> dq_list d1 = dq_list d @ [v]
          \<and> dq_push_front v d = Inr d2 \<and> dq_wf d2 \<and> dq_list d2 = v # dq_list d)
       else dq_push_back v d = Inl Assertion \<and> dq_push_front v d = Inl Assertion)
    \<and> (if dq_list d \<noteq> []
       then (\<exists>d1 d2. dq_pop_back d = Inr d1 \<and> dq_wf d1 \<and> dq_list d1 = butlast (dq_list d)
          \<and> dq_pop_front d = Inr d2 \<and> dq_wf d2 \<and> dq_list d2 = tl (dq_list d))
       else dq_pop_back d = Inl Assertion \<and> dq_pop_front d = Inl Assertion)
    \<and> dq_at d n = (if n < length (dq_list d) then Inr (dq_list d ! n) else Inl Assertion)"
proof (intro conjI)
  show "if length (dq_list d) < dq_N d
       then (\<exists>d1 d2. dq_push_back v d = Inr d1 \<and> dq_wf d1 \<and> dq_list d1 = dq_list d @ [v]
          \<and> dq_push_front v d = Inr d2 \<and> dq_wf d2 \<and> dq_list d2 = v # dq_list d)
       else dq_push_back v d = Inl Assertion \<and> dq_push_front v d = Inl Assertion"
  proof (cases "length (dq_list d) < dq_N d")
    case True
    then obtain d1 d2 where "dq_push_back v d = Inr d1" "dq_push_front v d = Inr d2"
      by (auto simp: dq_push_back_def dq_push_front_def Let_def)
    then show ?thesis using True push_back_list[OF assms(1)] push_front_list[OF assms(1)] by simp
  qed (simp add: dq_push_back_def dq_push_front_def)
  show "if dq_list d \<noteq> []
       then (\<exists>d1 d2. dq_pop_back d = Inr d1 \<and> dq_wf d1 \<and> dq_list d1 = butlast (dq_list d)
          \<and> dq_pop_front d = Inr d2 \<and> dq_wf d2 \<and> dq_list d2 = tl (dq_list d))
       else dq_pop_back d = Inl Assertion \<and> dq_pop_front d = Inl Assertion"
  proof (cases "dq_size d = 0")
    case False
    then obtain d1 d2 where "dq_pop_back d = Inr d1" "dq_pop_front d = Inr d2"
      by (auto simp: dq_pop_back_def dq_pop_front_def)
    then show ?thesis using pop_back_list[OF assms(1)] pop_front_list[OF assms(1)] by simp
  qed (simp add: dq_pop_back_def dq_pop_front_def dq_list_def)
  show "dq_at d n = (if n < length (dq_list d) then Inr (dq_list d ! n) else Inl Assertion)"
    by (rule dq_at_list[OF assms])
qed

lemma dq_new_wf: "arr \<noteq> [] \<Longrightarrow> length arr < 2 ^ 32 \<Longrightarrow> dq_wf (dq_new arr) \<and> dq_list (dq_new arr) = []"
  by (simp add: dq_wf_def dq_new_def dq_N_def dq_list_def)

theorem deque_is_list_witness:
  "\<exists>d1. dq_push_back (7 :: nat) (dq_new [0, 0, 0]) = Inr d1 \<and> dq_list d1 = [7]"
proof -
  have w: "dq_wf (dq_new [0, 0, 0 :: nat])" "dq_list (dq_new [0, 0, 0 :: nat]) = []"
    "dq_N (dq_new [0, 0, 0 :: nat]) = 3"
    using dq_new_wf[of "[0, 0, 0 :: nat]"] by (simp_all add: dq_N_def dq_new_def)
  show ?thesis using deque_is_list[OF w(1), of 0 7] unfolding w by auto
qed

text \<open>First in, first out: elements pushed at the back of an empty buffer with enough room
  come out at the front in the same order, all of them, and nothing else.
\<close>

theorem deque_fifo:
  assumes "dq_wf d" "dq_list d = []" "length xs \<le> dq_N d"
  shows "\<exists>d' d''. for_list dq_push_back xs d = Inr d' \<and> take_n dq_pop_front dq_front (length xs) d' = Inr (xs, d'')
    \<and> dq_list d'' = []"
  by (rule dq.fifo[OF assms])

theorem deque_fifo_witness:
  "\<exists>d' d''. for_list dq_push_back [1, 2, 3 :: nat] (dq_new [0, 0, 0]) = Inr d'
     \<and> take_n dq_pop_front dq_front 3 d' = Inr ([1, 2, 3], d'')"
proof -
  have w: "dq_wf (dq_new [0, 0, 0 :: nat])" "dq_list (dq_new [0, 0, 0 :: nat]) = []"
    "length [1, 2, 3 :: nat] \<le> dq_N (dq_new [0, 0, 0 :: nat])" "length [1, 2, 3 :: nat] = 3"
    using dq_new_wf[of "[0, 0, 0 :: nat]"] by (simp_all add: dq_N_def dq_new_def)
  show ?thesis using deque_fifo[OF w(1-3)] unfolding w(4) by blast
qed

end
