(* ===== verification/ByteStore.thy ===== *)
theory ByteStore
  imports Prelude
begin

text \<open>
  Byte sequences: the interface \<open>Bytes\<close> of \<open>src/src/Bytes.h\<close> (\<open>HDDBytes\<close> in \<open>Bytes.cpp\<close>),
  and fields of packed structures, which are read from and written to disk as they lie in
  memory (little endian).

  An implementation of the interface is a \<open>bytes_ops\<close> record, which the users of a device
  (partitions, file systems) take as an argument; the locale \<open>byte_store\<close> is the contract
  of \<open>readaddr\<close> and \<open>writeaddr\<close> for accesses inside the sequence.
\<close>

type_synonym bytes = "u8 list"

section \<open>Packed structures\<close>

definition le_word :: "nat \<Rightarrow> bytes \<Rightarrow> nat" where
  "le_word n b = foldr (\<lambda>x acc. unat x + 256 * acc) (take n b) 0"

definition le_bytes :: "nat \<Rightarrow> nat \<Rightarrow> bytes" where
  "le_bytes n v = map (\<lambda>i. of_nat (v div 256 ^ i mod 256)) [0..<n]"

definition ld8 :: "nat \<Rightarrow> bytes \<Rightarrow> u8" where
  "ld8 a b = of_nat (le_word 1 (drop a b))"

definition ld16 :: "nat \<Rightarrow> bytes \<Rightarrow> u16" where
  "ld16 a b = of_nat (le_word 2 (drop a b))"

definition ld32 :: "nat \<Rightarrow> bytes \<Rightarrow> u32" where
  "ld32 a b = of_nat (le_word 4 (drop a b))"

text \<open>\<open>overwrite a d b\<close>: the bytes \<open>b\<close> with \<open>d\<close> written at \<open>a\<close> (\<open>memcpy(b + a, d, |d|)\<close>).\<close>

definition overwrite :: "nat \<Rightarrow> bytes \<Rightarrow> bytes \<Rightarrow> bytes" where
  "overwrite a d b = take a b @ d @ drop (a + length d) b"

definition st8 :: "nat \<Rightarrow> u8 \<Rightarrow> bytes \<Rightarrow> bytes" where
  "st8 a v = overwrite a (le_bytes 1 (unat v))"

definition st16 :: "nat \<Rightarrow> u16 \<Rightarrow> bytes \<Rightarrow> bytes" where
  "st16 a v = overwrite a (le_bytes 2 (unat v))"

definition st32 :: "nat \<Rightarrow> u32 \<Rightarrow> bytes \<Rightarrow> bytes" where
  "st32 a v = overwrite a (le_bytes 4 (unat v))"

lemma length_overwrite [simp]: "a + length d \<le> length b \<Longrightarrow> length (overwrite a d b) = length b"
  by (simp add: overwrite_def)

lemma length_le_bytes [simp]: "length (le_bytes n v) = n"
  by (simp add: le_bytes_def)

lemma length_st [simp]:
  "a + 1 \<le> length b \<Longrightarrow> length (st8 a v1 b) = length b"
  "a + 2 \<le> length b \<Longrightarrow> length (st16 a v2 b) = length b"
  "a + 4 \<le> length b \<Longrightarrow> length (st32 a v4 b) = length b"
  by (simp_all add: st8_def st16_def st32_def)

lemma overwrite_same: "a + length d \<le> length b \<Longrightarrow> take (length d) (drop a (overwrite a d b)) = d"
  by (simp add: overwrite_def)

lemma overwrite_other:
  assumes "a + length d \<le> length b" "c + n \<le> a \<or> a + length d \<le> c"
  shows "take n (drop c (overwrite a d b)) = take n (drop c b)"
proof (cases "c + n \<le> a")
  case True
  then show ?thesis using assms(1) length_overwrite[OF assms(1)]
    by (intro nth_equalityI) (auto simp: overwrite_def nth_append)
next
  case False
  then have "a + length d \<le> c" using assms(2) by simp
  then obtain k where c: "c = a + length d + k" using le_Suc_ex by blast
  show ?thesis using assms(1) unfolding c by (simp add: overwrite_def ac_simps)
qed

lemma overwrite_inside: "a + length d \<le> length b \<Longrightarrow> take (length b) (overwrite a d b) = overwrite a d b"
  by simp

lemma le_word_take: "le_word n b = le_word n (take n b)"
  by (simp add: le_word_def)

lemma ld_other:
  assumes "a + length d \<le> length b" "c + n \<le> a \<or> a + length d \<le> c"
  shows "le_word n (drop c (overwrite a d b)) = le_word n (drop c b)"
  using arg_cong[OF overwrite_other[OF assms], of "le_word n"] unfolding le_word_take[symmetric] .

lemma foldr_le: "foldr (\<lambda>x acc. unat x + 256 * acc) (map (\<lambda>i. of_nat (v div 256 ^ i mod 256) :: u8) [k..<k+n]) 0
    = v div 256 ^ k mod 256 ^ n"
proof (induction n arbitrary: k)
  case 0
  then show ?case by simp
next
  case (Suc n)
  have u: "unat (of_nat (v div 256 ^ k mod 256) :: u8) = v div 256 ^ k mod 256"
    by (simp add: unat_of_nat)
  have l: "[k..<k + Suc n] = k # [Suc k..<Suc k + n]" by (simp add: upt_conv_Cons)
  have "foldr (\<lambda>x acc. unat x + 256 * acc) (map (\<lambda>i. of_nat (v div 256 ^ i mod 256) :: u8) [k..<k + Suc n]) 0
    = v div 256 ^ k mod 256 + 256 * (v div 256 ^ Suc k mod 256 ^ n)"
    unfolding l using Suc[of "Suc k"] u by simp
  also have "v div 256 ^ Suc k = v div 256 ^ k div 256" by (metis div_mult2_eq power_Suc2)
  also have "v div 256 ^ k mod 256 + 256 * (v div 256 ^ k div 256 mod 256 ^ n) = v div 256 ^ k mod (256 * 256 ^ n)"
    by (simp add: mod_mult2_eq)
  finally show ?case by simp
qed

lemma le_round: "v < 256 ^ n \<Longrightarrow> le_word n (le_bytes n v) = v"
  using foldr_le[of v 0 n] by (simp add: le_word_def le_bytes_def)

lemma le_same:
  assumes "a + n \<le> length b" "v < 256 ^ n"
  shows "le_word n (drop a (overwrite a (le_bytes n v) b)) = v"
proof -
  have "take n (drop a (overwrite a (le_bytes n v) b)) = le_bytes n v"
    using overwrite_same[of a "le_bytes n v" b] assms(1) by simp
  then show ?thesis using le_round[OF assms(2)] by (subst le_word_take) simp
qed

lemma ld_st_same [simp]:
  "a + 1 \<le> length b \<Longrightarrow> ld8 a (st8 a v1 b) = v1"
  "a + 2 \<le> length b \<Longrightarrow> ld16 a (st16 a v2 b) = v2"
  "a + 4 \<le> length b \<Longrightarrow> ld32 a (st32 a v4 b) = v4"
proof -
  have u: "unat v1 < 256 ^ 1" "unat v2 < 256 ^ 2" "unat v4 < 256 ^ 4"
    using unsigned_less[where ?'a = nat and w = v1] unsigned_less[where ?'a = nat and w = v2]
      unsigned_less[where ?'a = nat and w = v4] by simp_all
  show "a + 1 \<le> length b \<Longrightarrow> ld8 a (st8 a v1 b) = v1" "a + 2 \<le> length b \<Longrightarrow> ld16 a (st16 a v2 b) = v2"
    "a + 4 \<le> length b \<Longrightarrow> ld32 a (st32 a v4 b) = v4"
    unfolding ld8_def st8_def ld16_def st16_def ld32_def st32_def by (simp_all only: le_same u) simp_all
qed

lemma ld_st_other:
  "a + 2 \<le> length b \<Longrightarrow> c + 4 \<le> a \<or> a + 2 \<le> c \<Longrightarrow> ld32 c (st16 a v2 b) = ld32 c b"
  "a + 2 \<le> length b \<Longrightarrow> c + 2 \<le> a \<or> a + 2 \<le> c \<Longrightarrow> ld16 c (st16 a v2 b) = ld16 c b"
  "a + 4 \<le> length b \<Longrightarrow> c + 4 \<le> a \<or> a + 4 \<le> c \<Longrightarrow> ld32 c (st32 a v4 b) = ld32 c b"
  "a + 4 \<le> length b \<Longrightarrow> c + 2 \<le> a \<or> a + 4 \<le> c \<Longrightarrow> ld16 c (st32 a v4 b) = ld16 c b"
  by (simp_all add: ld32_def ld16_def st16_def st32_def ld_other)

text \<open>\<open>overwrite\<close> position by position, and its algebra.\<close>

lemma nth_overwrite:
  "a + length d \<le> length b \<Longrightarrow> i < length b \<Longrightarrow>
    overwrite a d b ! i = (if a \<le> i \<and> i < a + length d then d ! (i - a) else b ! i)"
  by (auto simp: overwrite_def nth_append)

lemma overwrite_append:
  assumes "p + length d + length e \<le> length b"
  shows "overwrite (p + length d) e (overwrite p d b) = overwrite p (d @ e) b"
proof (rule nth_equalityI)
  show "length (overwrite (p + length d) e (overwrite p d b)) = length (overwrite p (d @ e) b)" using assms by simp
  fix i assume "i < length (overwrite (p + length d) e (overwrite p d b))"
  then have i: "i < length b" using assms by simp
  show "overwrite (p + length d) e (overwrite p d b) ! i = overwrite p (d @ e) b ! i"
    using assms i by (auto simp: nth_overwrite nth_append)
qed

lemma overwrite_commute:
  assumes "a + length d \<le> length b" "c + length e \<le> length b"
    and "a + length d \<le> c \<or> c + length e \<le> a"
  shows "overwrite a d (overwrite c e b) = overwrite c e (overwrite a d b)"
  using assms by (intro nth_equalityI) (auto simp: nth_overwrite)

lemma overwrite_twice:
  assumes "a + length d \<le> length b" "length e = length d"
  shows "overwrite a d (overwrite a e b) = overwrite a d b"
  using assms by (intro nth_equalityI) (auto simp: nth_overwrite)

lemma overwrite_id:
  assumes "a + n \<le> length b"
  shows "overwrite a (take n (drop a b)) b = b"
  using assms by (intro nth_equalityI) (auto simp: nth_overwrite)

section \<open>The interface\<close>

record 'p bytes_ops =
  readaddr :: "u64 \<Rightarrow> u64 \<Rightarrow> 'p \<Rightarrow> bytes res"
  writeaddr :: "u64 \<Rightarrow> bytes \<Rightarrow> 'p \<Rightarrow> 'p res"
  bsize :: "'p \<Rightarrow> u64"

text \<open>
  \<open>HDDBytes::readlba\<close> and \<open>writelba\<close>: \<open>LBA*512\<close> and \<open>nbsector*512\<close> are computed in 32 bits.
\<close>

definition hb_readlba :: "'p bytes_ops \<Rightarrow> u32 \<Rightarrow> u32 \<Rightarrow> 'p \<Rightarrow> bytes res" where
  "hb_readlba D LBA nbsector p = readaddr D (ucast (LBA * 512)) (ucast (nbsector * 512)) p"

definition hb_writelba :: "'p bytes_ops \<Rightarrow> u32 \<Rightarrow> (nat \<Rightarrow> bytes) \<Rightarrow> u32 \<Rightarrow> 'p \<Rightarrow> 'p res" where
  "hb_writelba D LBA data nbsector p = writeaddr D (ucast (LBA * 512)) (data (unat (nbsector * 512))) p"

definition hb_getLBASize :: "'p bytes_ops \<Rightarrow> 'p \<Rightarrow> u32" where
  "hb_getLBASize D p = ucast ((bsize D p + 511) div 512)"

locale byte_store =
  fixes D :: "'p bytes_ops"
    and inv :: "'p \<Rightarrow> bool"
    and content :: "'p \<Rightarrow> bytes"
  assumes read_ok: "inv p \<Longrightarrow> 0 < n \<Longrightarrow> unat a + unat n < length (content p) \<Longrightarrow>
      readaddr D a n p = Inr (take (unat n) (drop (unat a) (content p)))"
    and write_ok: "inv p \<Longrightarrow> d \<noteq> [] \<Longrightarrow> unat a + length d < length (content p) \<Longrightarrow>
      \<exists>p'. writeaddr D a d p = Inr p' \<and> inv p' \<and> content p' = overwrite (unat a) d (content p)"
begin

text \<open>Reading what was just written, and elsewhere.\<close>

lemma read_written:
  assumes "inv p" "d \<noteq> []" "unat a + length d < length (content p)" "length d < 2 ^ 64" "writeaddr D a d p = Inr p'"
  shows "readaddr D a (of_nat (length d)) p' = Inr d"
proof -
  from write_ok[OF assms(1-3)] assms(5) have p': "inv p'" "content p' = overwrite (unat a) d (content p)" by auto
  have l: "length (content p') = length (content p)" using p' assms(3) by simp
  have u: "unat (of_nat (length d) :: u64) = length d" unfolding unat_of_nat using assms(4) by simp
  show ?thesis using read_ok[OF p'(1), of "of_nat (length d)" a] assms(2,3) p'(2) l u overwrite_same[of "unat a" d]
    by (simp add: word_less_nat_alt)
qed

lemma read_elsewhere:
  assumes "inv p" "d \<noteq> []" "unat a + length d < length (content p)" "writeaddr D a d p = Inr p'" "0 < n"
    and "unat c + unat n < length (content p)" "unat c + unat n \<le> unat a \<or> unat a + length d \<le> unat c"
  shows "readaddr D c n p' = readaddr D c n p"
proof -
  from write_ok[OF assms(1-3)] assms(4) have p': "inv p'" "content p' = overwrite (unat a) d (content p)" by auto
  have l: "length (content p') = length (content p)" using p' assms(3) by simp
  show ?thesis
    using read_ok[OF p'(1), of n c] read_ok[OF assms(1), of n c] assms(3,5-7) p'(2) l
      overwrite_other[of "unat a" d "content p" "unat c" "unat n"] by simp
qed

end

end
