(* ===== verification/Ports.thy ===== *)
theory Ports
  imports ByteStore
begin

text \<open>
  Port input and output (\<open>inb\<close>, \<open>outb\<close>, \<open>inw\<close>, \<open>outw\<close> of \<open>src/src/utility.h\<close>) and the drivers
  that only talk to ports: the interrupt controller (\<open>Pic.cpp\<close>), the interval timer (\<open>Pit.cpp\<close>)
  and the serial line (\<open>Serial.cpp\<close>). The hardware behind the ports is an argument: a state
  \<open>'io\<close> and what each access does to it. Code that polls a port may never return; its results
  are options, and \<open>None\<close> stands for a loop that never ends.
\<close>

record 'io ports =
  in8 :: "u16 \<Rightarrow> 'io \<Rightarrow> u8 \<times> 'io"
  out8 :: "u16 \<Rightarrow> u8 \<Rightarrow> 'io \<Rightarrow> 'io"
  in16 :: "u16 \<Rightarrow> 'io \<Rightarrow> u16 \<times> 'io"
  out16 :: "u16 \<Rightarrow> u16 \<Rightarrow> 'io \<Rightarrow> 'io"

section \<open>Sequencing of code that may not return\<close>

definition obnd :: "'a res option \<Rightarrow> ('a \<Rightarrow> 'b res option) \<Rightarrow> 'b res option" where
  "obnd m f = (case m of None \<Rightarrow> None | Some (Inl e) \<Rightarrow> Some (Inl e) | Some (Inr x) \<Rightarrow> f x)"

definition oassert :: "bool \<Rightarrow> 'a res option \<Rightarrow> 'a res option" where
  "oassert c k = (if c then k else Some (Inl Assertion))"

fun ofor :: "('i \<Rightarrow> 's \<Rightarrow> 's res option) \<Rightarrow> 'i list \<Rightarrow> 's \<Rightarrow> 's res option" where
  "ofor f [] s = Some (Inr s)"
| "ofor f (x # xs) s = obnd (f x s) (ofor f xs)"

lemma obnd_simps [simp]:
  "obnd None f = None" "obnd (Some (Inl e)) f = Some (Inl e)" "obnd (Some (Inr x)) f = f x"
  by (simp_all add: obnd_def)

lemma oassert_True [simp]: "oassert True k = k" and oassert_False [simp]: "oassert False k = Some (Inl Assertion)"
  by (simp_all add: oassert_def)

lemma ofor_append: "ofor f (xs @ ys) s = obnd (ofor f xs s) (ofor f ys)"
proof (induction xs arbitrary: s)
  case Nil
  show ?case by simp
next
  case (Cons x xs)
  then show ?case by (cases "f x s") (auto split: sum.splits simp: obnd_def)
qed

section \<open>The interrupt controller\<close>

definition PIC1_COMMAND :: u16 where "PIC1_COMMAND = 0x20"
definition PIC1_DATA :: u16 where "PIC1_DATA = 0x21"
definition PIC2_COMMAND :: u16 where "PIC2_COMMAND = 0xA0"
definition PIC2_DATA :: u16 where "PIC2_DATA = 0xA1"

text \<open>\<open>setMask\<close>: line 2 leads to the second controller; it is open while a line of the second one
  is masked out (\<open>(mask & 0xFF00) != 0\<close>). The mask is the state of the object.\<close>

definition pic_cascade :: "u16 \<Rightarrow> u16" where
  "pic_cascade msk = (if msk AND 0xFF00 \<noteq> 0 then msk AND NOT (push_bit 2 1) else msk OR push_bit 2 1)"

definition pic_setMask :: "'io ports \<Rightarrow> u16 \<Rightarrow> 'io \<Rightarrow> u16 \<times> 'io" where
  "pic_setMask P msk io =
    (let m = pic_cascade msk in
     (m, out8 P PIC2_DATA (ucast (drop_bit 8 (m AND 0xFF00))) (out8 P PIC1_DATA (ucast (m AND 0x00FF)) io)))"

definition pic_new :: "'io ports \<Rightarrow> 'io \<Rightarrow> u16 \<times> 'io" where
  "pic_new P io = pic_setMask P 0xFFFF
     (out8 P PIC2_DATA 0x01 (out8 P PIC1_DATA 0x01
     (out8 P PIC2_DATA 0x2 (out8 P PIC1_DATA 0x4
     (out8 P PIC2_DATA 0x28 (out8 P PIC1_DATA 0x20
     (out8 P PIC2_COMMAND 0x11 (out8 P PIC1_COMMAND 0x11 io))))))))"

definition pic_endOfInterrupt :: "'io ports \<Rightarrow> u8 \<Rightarrow> 'io \<Rightarrow> 'io" where
  "pic_endOfInterrupt P irq io =
    out8 P PIC1_COMMAND 0x20 (if 8 \<le> irq then out8 P PIC2_COMMAND 0x20 io else io)"

definition pic_activate :: "'io ports \<Rightarrow> u8 \<Rightarrow> u16 \<Rightarrow> 'io \<Rightarrow> u16 \<times> 'io" where
  "pic_activate P irq msk io = pic_setMask P (msk AND NOT (push_bit (unat irq) 1)) io"

definition pic_desactivate :: "'io ports \<Rightarrow> u8 \<Rightarrow> u16 \<Rightarrow> 'io \<Rightarrow> u16 \<times> 'io" where
  "pic_desactivate P irq msk io = pic_setMask P (msk OR push_bit (unat irq) 1) io"

section \<open>The interval timer\<close>

definition pit_command :: "u8 \<Rightarrow> u8 \<Rightarrow> u8" where
  "pit_command channel mode = push_bit 1 (mode AND 7) OR push_bit 4 3 OR push_bit 6 (channel AND 3)"

definition pit_set :: "'io ports \<Rightarrow> u8 \<Rightarrow> u16 \<Rightarrow> u8 \<Rightarrow> 'io \<Rightarrow> 'io" where
  "pit_set P channel divisor mode io =
    out8 P 0x40 (ucast (drop_bit 8 divisor)) (out8 P 0x40 (ucast divisor) (out8 P 0x43 (pit_command channel mode) io))"

section \<open>The serial line\<close>

definition serial_new :: "'io ports \<Rightarrow> 'io \<Rightarrow> 'io" where
  "serial_new P io =
    out8 P 0x3FC 0x3 (out8 P 0x3FA 0xC7 (out8 P 0x3FB 0x3 (out8 P 0x3F9 0 (out8 P 0x3F8 3 (out8 P 0x3FB 0x80 (out8 P 0x3F9 0 io))))))"

partial_function (option) serial_wait :: "'io ports \<Rightarrow> 'io \<Rightarrow> 'io option" where
  "serial_wait P io = (case in8 P 0x3FD io of (st, io') \<Rightarrow> if st AND 0x20 \<noteq> 0 then Some io' else serial_wait P io')"

definition serial_putc :: "'io ports \<Rightarrow> u8 \<Rightarrow> 'io \<Rightarrow> 'io option" where
  "serial_putc P data io = map_option (out8 P 0x3F8 data) (serial_wait P io)"

text \<open>\<open>write(const char*)\<close>: up to the terminating zero.\<close>

fun serial_puts :: "'io ports \<Rightarrow> bytes \<Rightarrow> 'io \<Rightarrow> 'io option" where
  "serial_puts P [] io = Some io"
| "serial_puts P (c # cs) io = (if c = 0 then Some io else Option.bind (serial_putc P c io) (serial_puts P cs))"

end
