(* ===== verification/Screen.thy ===== *)
theory Screen
  imports ByteStore
begin

text \<open>
  The screen (\<open>src/src/Graphics/Screen.cpp\<close>, \<open>Font.cpp\<close>, \<open>Vec2.h\<close>): a back buffer of
  \<open>Xsize * Ysize\<close> pixels of four bytes, where windows draw, and the video memory it is sent to.
  Both are byte sequences as long as the memory mapped for them; an access past the end is
  \<open>OutOfBounds\<close>, one that leaves the picture but not the mapped memory goes through, as in the program.
\<close>

section \<open>Vectors\<close>

text \<open>\<open>Vec2u\<close>; \<open>Vec2i\<close> has the same bits.\<close>

record vec2u =
  vx :: u32
  vy :: u32

definition vec :: "u32 \<Rightarrow> u32 \<Rightarrow> vec2u" where
  "vec x y = \<lparr>vx = x, vy = y\<rparr>"

definition v_of64 :: "u64 \<Rightarrow> vec2u" where
  "v_of64 u = vec (ucast (u AND (push_bit 32 1 - 1))) (ucast (drop_bit 32 u))"

definition v_to64 :: "vec2u \<Rightarrow> u64" where
  "v_to64 v = ucast (vx v) + push_bit 32 (ucast (vy v))"

definition v_add :: "vec2u \<Rightarrow> vec2u \<Rightarrow> vec2u" where
  "v_add v w = vec (vx v + vx w) (vy v + vy w)"

definition v_sub :: "vec2u \<Rightarrow> vec2u \<Rightarrow> vec2u" where
  "v_sub v w = vec (vx v - vx w) (vy v - vy w)"

definition v_area :: "vec2u \<Rightarrow> u32" where
  "v_area v = vx v * vy v"

lemma vec_simps [simp]: "vx (vec x y) = x" "vy (vec x y) = y"
  by (simp_all add: vec_def)

section \<open>Colors\<close>

record color24 =
  cB :: u8
  cG :: u8
  cR :: u8

definition color :: "u8 \<Rightarrow> u8 \<Rightarrow> u8 \<Rightarrow> color24" where
  "color b g r = \<lparr>cB = b, cG = g, cR = r\<rparr>"

definition white :: color24 where "white = color 255 255 255"
definition black :: color24 where "black = color 0 0 0"
definition red :: color24 where "red = color 0 0 255"
definition blue :: color24 where "blue = color 255 100 40"
definition green :: color24 where "green = color 0 255 0"
definition yellow :: color24 where "yellow = color 0 255 255"
definition magenta :: color24 where "magenta = color 255 0 255"
definition cyan :: color24 where "cyan = color 255 255 0"
definition lred :: color24 where "lred = color 0 0 187"
definition lblue :: color24 where "lblue = color 187 50 20"
definition lgreen :: color24 where "lgreen = color 0 128 0"
definition lyellow :: color24 where "lyellow = color 0 187 187"
definition lmagenta :: color24 where "lmagenta = color 187 30 187"
definition lcyan :: color24 where "lcyan = color 187 187 0"
definition lwhite :: color24 where "lwhite = color 187 187 187"

text \<open>A \<open>Color\<close> is a \<open>Color24\<close> and a zero byte.\<close>

definition color_bytes :: "color24 \<Rightarrow> bytes" where
  "color_bytes c = [cB c, cG c, cR c, 0]"

lemma length_color_bytes [simp]: "length (color_bytes c) = 4"
  by (simp add: color_bytes_def)

section \<open>Memory\<close>

definition put_bytes :: "nat \<Rightarrow> bytes \<Rightarrow> bytes \<Rightarrow> bytes res" where
  "put_bytes a d b = check (a + length d \<le> length b) OutOfBounds (Inr (overwrite a d b))"

definition copy_bytes :: "nat \<Rightarrow> bytes \<Rightarrow> nat \<Rightarrow> nat \<Rightarrow> bytes \<Rightarrow> bytes res" where
  "copy_bytes s src n d dst = check (s + n \<le> length src) OutOfBounds (put_bytes d (take n (drop s src)) dst)"

text \<open>\<open>memcpy_aligned\<close>: blocks of 64 bytes, then of 16; the first counter is compared with \<open>size - 63\<close>.\<close>

function copy_blocks :: "nat \<Rightarrow> nat \<Rightarrow> nat \<Rightarrow> nat \<Rightarrow> bytes \<Rightarrow> nat \<Rightarrow> bytes \<Rightarrow> (nat \<times> bytes) res" where
  "copy_blocks k lim i s src d dst =
    (if i < lim then bnd (copy_bytes (s + i) src (Suc k) (d + i) dst) (\<lambda>dst. copy_blocks k lim (i + Suc k) s src d dst)
     else Inr (i, dst))"
  by auto
termination by (relation "measure (\<lambda>(k, lim, i, _). lim - i)") auto

declare copy_blocks.simps [simp del]

definition memcpy_aligned :: "u64 \<Rightarrow> u64 \<Rightarrow> nat \<Rightarrow> bytes \<Rightarrow> nat \<Rightarrow> bytes \<Rightarrow> u64 \<Rightarrow> bytes res" where
  "memcpy_aligned dst_addr src_addr d dst s src sz =
    (if (src_addr OR dst_addr) AND 0xF \<noteq> 0 then copy_bytes s src (unat sz) d dst
     else bnd (copy_blocks 63 (unat (sz - 63)) 0 s src d dst) (\<lambda>(i, dst).
          bnd (copy_blocks 15 (unat sz) i s src d dst) (\<lambda>(i, dst). Inr dst)))"

section \<open>The screen\<close>

record screen =
  s_Xsize :: u16
  s_Ysize :: u16
  s_pitch :: u32
  s_buffer :: bytes
  s_vga :: bytes
  s_OK :: bool

definition VGAbuffer :: u64 where "VGAbuffer = - 0x140000000"
definition back_buffer :: u64 where "back_buffer = - 0x120000000"

definition s_getSize :: "screen \<Rightarrow> vec2u" where
  "s_getSize s = vec (ucast (s_Xsize s)) (ucast (s_Ysize s))"

definition s_poke :: "u32 \<Rightarrow> bytes \<Rightarrow> screen \<Rightarrow> screen res" where
  "s_poke pixel d s = bnd (put_bytes (4 * unat pixel) d (s_buffer s)) (\<lambda>b. Inr (s\<lparr>s_buffer := b\<rparr>))"

definition s_set :: "u32 \<Rightarrow> u32 \<Rightarrow> color24 \<Rightarrow> screen \<Rightarrow> screen res" where
  "s_set x y c s =
    check (x < ucast (s_Xsize s)) Bsod (check (y < ucast (s_Ysize s)) Bsod
      (s_poke (x + y * ucast (s_Xsize s)) (color_bytes c) s))"

definition s_send :: "screen \<Rightarrow> screen res" where
  "s_send s =
    bnd (for_range (\<lambda>i vga.
        let p = of_nat i * s_pitch s; q = of_nat i * ucast (s_Xsize s) :: u32 in
        memcpy_aligned (VGAbuffer + ucast p) (back_buffer + 4 * ucast q) (unat p) vga (4 * unat q) (s_buffer s)
          (ucast (s_Xsize s) * 4)) 0 (unat (s_Ysize s)) (s_vga s))
      (\<lambda>vga. Inr (s\<lparr>s_vga := vga\<rparr>))"

definition s_writeLine :: "u32 \<Rightarrow> u32 \<Rightarrow> u32 \<Rightarrow> nat \<Rightarrow> bytes \<Rightarrow> screen \<Rightarrow> screen res" where
  "s_writeLine nb offset sz at buf s =
    assertk (offset + sz \<le> ucast (s_Xsize s)) (assertk (nb \<le> ucast (s_Ysize s))
      (bnd (copy_bytes at buf (unat (sz * 4)) (4 * (unat (nb * ucast (s_Xsize s)) + unat offset)) (s_buffer s))
        (\<lambda>b. Inr (s\<lparr>s_buffer := b\<rparr>))))"

definition s_clear :: "screen \<Rightarrow> screen res" where
  "s_clear s =
    (let RAMsize = ucast (s_Ysize s) * ucast (s_Xsize s) * 4 :: u32 in
     s_poke 0 (replicate (unat RAMsize) 0) s)"

definition s_clear_rect :: "vec2u \<Rightarrow> vec2u \<Rightarrow> screen \<Rightarrow> screen res" where
  "s_clear_rect offset sz =
    for_range (\<lambda>y s. bnd (put_bytes (4 * (unat (ucast (s_Xsize s) * of_nat y :: u32) + unat (vx offset)))
        (replicate (unat (vx sz * 4)) 0) (s_buffer s)) (\<lambda>b. Inr (s\<lparr>s_buffer := b\<rparr>)))
      (unat (vy offset)) (unat (vy offset + vy sz))"

section \<open>The font\<close>

text \<open>The data of a font: 256 characters of 16 lines, one byte each.\<close>

type_synonym font = bytes

fun font_pixels :: "nat \<Rightarrow> u8 \<Rightarrow> color24 \<Rightarrow> color24 \<Rightarrow> bytes" where
  "font_pixels 0 bitset fg bg = []"
| "font_pixels (Suc n) bitset fg bg =
    color_bytes (if bitset AND 128 \<noteq> 0 then fg else bg) @ font_pixels n (push_bit 1 bitset) fg bg"

definition font_writeLine :: "font \<Rightarrow> u8 \<Rightarrow> nat \<Rightarrow> color24 \<Rightarrow> color24 \<Rightarrow> bytes" where
  "font_writeLine f c line fg bg = font_pixels 8 (f ! (16 * unat c + line)) fg bg"

definition s_putChar :: "u8 \<Rightarrow> u32 \<Rightarrow> u32 \<Rightarrow> font \<Rightarrow> color24 \<Rightarrow> color24 \<Rightarrow> screen \<Rightarrow> screen res" where
  "s_putChar c x y f fg bg s =
    assertk (x + 8 < ucast (s_Xsize s)) (assertk (y + 16 < ucast (s_Ysize s))
      (for_range (\<lambda>i s. s_poke (x + (y + of_nat i) * ucast (s_Xsize s)) (font_writeLine f c i fg bg) s) 0 16 s))"

lemma length_font_pixels [simp]: "length (font_pixels n b fg bg) = 4 * n"
  by (induction n arbitrary: b) auto

lemma length_font_writeLine [simp]: "length (font_writeLine f c l fg bg) = 32"
  by (simp add: font_writeLine_def)

section \<open>Drawing inside the screen\<close>

definition screen_wf :: "screen \<Rightarrow> bool" where
  "screen_wf s \<longleftrightarrow> 4 * (unat (s_Xsize s) * unat (s_Ysize s)) \<le> length (s_buffer s)"

text \<open>\<open>drawn s s'\<close>: \<open>s'\<close> is \<open>s\<close> after some drawing in the back buffer.\<close>

definition drawn :: "screen \<Rightarrow> screen \<Rightarrow> bool" where
  "drawn s s' \<longleftrightarrow> s_Xsize s' = s_Xsize s \<and> s_Ysize s' = s_Ysize s \<and> s_pitch s' = s_pitch s \<and> s_vga s' = s_vga s \<and>
     length (s_buffer s') = length (s_buffer s)"

lemma drawn_refl [simp, intro]: "drawn s s"
  by (simp add: drawn_def)

lemma drawn_trans: "drawn s t \<Longrightarrow> drawn t u \<Longrightarrow> drawn s u"
  by (simp add: drawn_def)

lemma drawn_wf: "drawn s t \<Longrightarrow> screen_wf s \<Longrightarrow> screen_wf t"
  by (simp add: drawn_def screen_wf_def)

definition draws :: "screen \<Rightarrow> screen res \<Rightarrow> bool" where
  "draws s r \<longleftrightarrow> (\<exists>t. r = Inr t \<and> drawn s t)"

lemma draws_Inr [simp]: "draws s (Inr t) \<longleftrightarrow> drawn s t"
  by (simp add: draws_def)

lemma draws_bnd: "draws s m \<Longrightarrow> (\<And>t. m = Inr t \<Longrightarrow> drawn s t \<Longrightarrow> draws t (f t)) \<Longrightarrow> draws s (bnd m f)"
  unfolding draws_def using drawn_trans by fastforce

lemma draws_for_list: "(\<And>x t. x \<in> set xs \<Longrightarrow> drawn s t \<Longrightarrow> draws t (f x t)) \<Longrightarrow> draws s (for_list f xs s)"
proof (induction xs arbitrary: s)
  case (Cons x xs)
  show ?case
  proof (simp, rule draws_bnd)
    show "draws s (f x s)" using Cons.prems by simp
    fix t assume "drawn s t"
    then show "draws t (for_list f xs t)" using Cons by (meson drawn_trans list.set_intros(2))
  qed
qed simp

lemma draws_for_range: "(\<And>i t. a \<le> i \<Longrightarrow> i < b \<Longrightarrow> drawn s t \<Longrightarrow> draws t (f i t)) \<Longrightarrow> draws s (for_range f a b s)"
  unfolding for_range_def by (intro draws_for_list) simp

lemma xy_bound: "x + n \<le> X \<Longrightarrow> y < Y \<Longrightarrow> x + n + X * y \<le> X * (Y :: nat)"
proof -
  assume "x + n \<le> X" "y < Y"
  then have "x + n + X * y \<le> X * (y + 1)" by simp
  also have "\<dots> \<le> X * Y" using \<open>y < Y\<close> by (intro mult_le_mono) simp_all
  finally show ?thesis .
qed

lemma unat_u16_32 [simp]: "unat (ucast (x :: u16) :: u32) = unat x"
proof -
  have "unat x < 2 ^ 32" by (rule less_trans[OF unat_lt16]) simp
  then show ?thesis by (simp add: unsigned_ucast_eq take_bit_nat_eq_self)
qed

lemma XY_lt: "unat (x :: u16) * unat (y :: u16) < 2 ^ 32"
proof -
  have "unat x * unat y < 2 ^ 16 * 2 ^ 16"
    using unat_lt16[of x] unat_lt16[of y] by (intro mult_strict_mono') simp_all
  then show ?thesis by simp
qed

lemma pixel_index:
  assumes "unat x + n \<le> unat X" "unat y < unat (Y :: u16)" "0 < n"
  shows "unat (x + y * ucast (X :: u16) :: u32) = unat x + unat X * unat y"
    and "unat (ucast X * y :: u32) = unat X * unat y"
    and "unat x + n + unat X * unat y \<le> unat X * unat Y"
proof -
  show b: "unat x + n + unat X * unat y \<le> unat X * unat Y" by (rule xy_bound[OF assms(1,2)])
  then have "unat x + unat X * unat y < unat X * unat Y" using assms(3) by linarith
  from less_trans[OF this XY_lt] have l: "unat x + unat X * unat y < 2 ^ 32" .
  then show p: "unat (ucast X * y :: u32) = unat X * unat y" by (simp add: unat_word_ariths)
  then have "unat (y * ucast X :: u32) = unat X * unat y" by (simp add: mult.commute)
  then show "unat (x + y * ucast X :: u32) = unat x + unat X * unat y" using l by (simp add: unat_word_ariths)
qed

lemma draws_put: "a + length d \<le> length (s_buffer s) \<Longrightarrow> draws s (bnd (put_bytes a d (s_buffer s)) (\<lambda>b. Inr (s\<lparr>s_buffer := b\<rparr>)))"
  by (simp add: put_bytes_def drawn_def)

lemma draws_poke: "4 * unat p + length d \<le> length (s_buffer s) \<Longrightarrow> draws s (s_poke p d s)"
  unfolding s_poke_def by (rule draws_put)

lemma draws_set:
  assumes "screen_wf s" "unat x < unat (s_Xsize s)" "unat y < unat (s_Ysize s)"
  shows "draws s (s_set x y c s)"
proof -
  have "unat x + 1 \<le> unat (s_Xsize s)" using assms(2) by simp
  note i = pixel_index[OF this assms(3), simplified]
  have "4 * unat (x + y * ucast (s_Xsize s)) + length (color_bytes c) \<le> length (s_buffer s)"
    using i assms(1) by (simp add: screen_wf_def mult.commute)
  then show ?thesis using assms(2,3) by (simp add: s_set_def draws_poke word_less_nat_alt)
qed

lemma draws_clear:
  assumes "screen_wf s" "4 * (unat (s_Xsize s) * unat (s_Ysize s)) < 2 ^ 32"
  shows "draws s (s_clear s)"
proof -
  have "unat (ucast (s_Ysize s) * ucast (s_Xsize s) * 4 :: u32) = 4 * (unat (s_Xsize s) * unat (s_Ysize s))"
    using assms(2) by (simp add: unat_word_ariths mult.commute)
  then show ?thesis using assms(1) by (simp add: s_clear_def Let_def draws_poke screen_wf_def)
qed

text \<open>A rectangle that lies on the screen.\<close>

definition on_screen :: "screen \<Rightarrow> vec2u \<Rightarrow> vec2u \<Rightarrow> bool" where
  "on_screen s off sz \<longleftrightarrow> unat (vx off) + unat (vx sz) \<le> unat (s_Xsize s) \<and> unat (vy off) + unat (vy sz) \<le> unat (s_Ysize s)"

lemma on_screen_drawn: "drawn s t \<Longrightarrow> on_screen t = on_screen s"
  by (intro ext) (simp add: drawn_def on_screen_def)

lemma on_screen_add:
  assumes "on_screen s off sz"
  shows "unat (vx off + vx sz) = unat (vx off) + unat (vx sz)" "unat (vy off + vy sz) = unat (vy off) + unat (vy sz)"
  using assms unat_lt16[of "s_Xsize s"] unat_lt16[of "s_Ysize s"] by (simp_all add: on_screen_def unat_word_ariths)

lemma size_times_4: "on_screen s off sz \<Longrightarrow> unat (vx sz * 4) = 4 * unat (vx sz)"
  using unat_lt16[of "s_Xsize s"] by (simp add: on_screen_def unat_word_ariths)

lemma draws_writeLine:
  assumes "screen_wf s" "on_screen s off sz" "unat (vy off) \<le> unat nb" "unat nb < unat (vy off) + unat (vy sz)"
    and "at + 4 * unat (vx sz) \<le> length buf"
  shows "draws s (s_writeLine nb (vx off) (vx sz) at buf s)"
proof (cases "vx sz = 0")
  case True
  have "unat (nb * ucast (s_Xsize s) :: u32) + unat (vx off) \<le> unat (s_Xsize s) * unat (s_Ysize s)"
  proof -
    have n: "unat nb < unat (s_Ysize s)" using assms(2,4) by (simp add: on_screen_def)
    have "unat (vx off) \<le> unat (s_Xsize s)" using assms(2) by (simp add: on_screen_def)
    then have "unat (vx off) + 0 + unat (s_Xsize s) * unat nb \<le> unat (s_Xsize s) * unat (s_Ysize s)"
      using xy_bound[OF _ n, of "unat (vx off)" 0] by simp
    moreover have "unat (s_Xsize s) * unat nb < 2 ^ 32"
    proof (rule le_less_trans[OF _ XY_lt[of "s_Xsize s" "s_Ysize s"]])
      show "unat (s_Xsize s) * unat nb \<le> unat (s_Xsize s) * unat (s_Ysize s)" using n by simp
    qed
    ultimately show ?thesis by (simp add: unat_word_ariths mult.commute)
  qed
  then show ?thesis using assms True
    by (simp add: s_writeLine_def copy_bytes_def draws_put word_le_nat_alt on_screen_def screen_wf_def)
next
  case False
  then have z: "0 < unat (vx sz)" by (simp add: unat_gt_0)
  have "unat nb < unat (s_Ysize s)" using assms(2,4) by (simp add: on_screen_def)
  from pixel_index(2,3)[OF _ this z, of "vx off" "s_Xsize s"] assms(2) have i: "unat (ucast (s_Xsize s) * nb) = unat (s_Xsize s) * unat nb"
    "unat (vx off) + unat (vx sz) + unat (s_Xsize s) * unat nb \<le> unat (s_Xsize s) * unat (s_Ysize s)" by (simp_all add: on_screen_def)
  have g: "vx off + vx sz \<le> ucast (s_Xsize s)" "nb \<le> ucast (s_Ysize s)"
    using assms(2,4) by (simp_all add: word_le_nat_alt on_screen_add[OF assms(2)]) (simp_all add: on_screen_def)
  show ?thesis unfolding s_writeLine_def copy_bytes_def
    using g i assms(1,5) by (simp add: draws_put size_times_4[OF assms(2)] screen_wf_def mult.commute)
qed

lemma draws_clear_rect:
  assumes "screen_wf s" "on_screen s off sz"
  shows "draws s (s_clear_rect off sz s)"
  unfolding s_clear_rect_def
proof (rule draws_for_range)
  fix i t assume i: "unat (vy off) \<le> i" "i < unat (vy off + vy sz)" and t: "drawn s t"
  have iY: "i < unat (s_Ysize t)" "unat (vx off) + unat (vx sz) \<le> unat (s_Xsize t)"
    using i(2) assms(2) on_screen_add[OF assms(2)] t by (simp_all add: on_screen_def drawn_def)
  then have u: "unat (of_nat i :: u32) = i" using unat_lt16[of "s_Ysize t"] by (simp add: unat_of_nat32)
  have b: "unat (vx off) + unat (vx sz) + unat (s_Xsize t) * i \<le> unat (s_Xsize t) * unat (s_Ysize t)" by (rule xy_bound[OF iY(2,1)])
  then have "unat (s_Xsize t) * i < 2 ^ 32" using XY_lt[of "s_Xsize t" "s_Ysize t"] by linarith
  then have p: "unat (ucast (s_Xsize t) * of_nat i :: u32) = unat (s_Xsize t) * i" using u by (simp add: unat_word_ariths)
  show "draws t (bnd (put_bytes (4 * (unat (ucast (s_Xsize t) * of_nat i :: u32) + unat (vx off))) (replicate (unat (vx sz * 4)) 0) (s_buffer t))
      (\<lambda>b. Inr (t\<lparr>s_buffer := b\<rparr>)))"
    using b p drawn_wf[OF t assms(1)] by (intro draws_put) (simp add: size_times_4[OF assms(2)] screen_wf_def)
qed

lemma draws_putChar:
  assumes "screen_wf s" "unat x + 8 < unat (s_Xsize s)" "unat y + 16 < unat (s_Ysize s)"
  shows "draws s (s_putChar c x y f fg bg s)"
proof -
  have g: "x + 8 < ucast (s_Xsize s)" "y + 16 < ucast (s_Ysize s)"
    using assms(2,3) unat_lt16[of "s_Xsize s"] unat_lt16[of "s_Ysize s"] by (simp_all add: word_less_nat_alt unat_word_ariths)
  have "draws s (for_range (\<lambda>i s. s_poke (x + (y + of_nat i) * ucast (s_Xsize s)) (font_writeLine f c i fg bg) s) 0 16 s)"
  proof (rule draws_for_range)
    fix i t assume i: "i < (16 :: nat)" and t: "drawn s t"
    have u: "unat (y + of_nat i) = unat y + i"
      using assms(3) i unat_lt16[of "s_Ysize s"] by (simp add: unat_word_ariths unat_of_nat)
    have "unat (y + of_nat i) < unat (s_Ysize t)" "unat x + 8 \<le> unat (s_Xsize t)" using assms(2,3) u i t by (simp_all add: drawn_def)
    note p = pixel_index[OF this(2,1)]
    show "draws t (s_poke (x + (y + of_nat i) * ucast (s_Xsize t)) (font_writeLine f c i fg bg) t)"
      using p drawn_wf[OF t assms(1)] by (intro draws_poke) (simp add: screen_wf_def)
  qed
  then show ?thesis using g by (simp add: s_putChar_def)
qed

section \<open>Sending the picture\<close>

lemma copy_blocks_ok:
  assumes "s + lim + k \<le> length src" "d + lim + k \<le> length dst" "i < lim + Suc k"
  shows "\<exists>j. copy_blocks k lim i s src d dst = Inr (j, overwrite (d + i) (take (j - i) (drop (s + i) src)) dst) \<and>
    i \<le> j \<and> lim \<le> j \<and> (j < lim + Suc k)"
  using assms(2,3)
proof (induction "lim - i" arbitrary: i dst rule: less_induct)
  case less
  show ?case
  proof (cases "i < lim")
    case False
    then show ?thesis using less.prems by (intro exI[of _ i]) (simp add: copy_blocks.simps overwrite_def)
  next
    case True
    let ?b = "take (Suc k) (drop (s + i) src)"
    let ?dst = "overwrite (d + i) ?b dst"
    have lb: "length ?b = Suc k" using assms(1) True by simp
    have fits: "d + i + Suc k \<le> length dst" using less.prems(1) True by simp
    then have ld: "length ?dst = length dst" using lb by simp
    have c: "copy_bytes (s + i) src (Suc k) (d + i) dst = Inr ?dst"
      using assms(1) True fits lb by (simp add: copy_bytes_def put_bytes_def del: take_Suc)
    have "lim - (i + Suc k) < lim - i" "d + lim + k \<le> length ?dst" "i + Suc k < lim + Suc k" using True less.prems(1) ld by simp_all
    from less.hyps[OF this] obtain j where
      j: "copy_blocks k lim (i + Suc k) s src d ?dst =
        Inr (j, overwrite (d + (i + Suc k)) (take (j - (i + Suc k)) (drop (s + (i + Suc k)) src)) ?dst)"
        "i + Suc k \<le> j" "lim \<le> j" "j < lim + Suc k" by blast
    have sp: "j - i = Suc k + (j - (i + Suc k))" using j(2) by simp
    have "take (j - i) (drop (s + i) src) = ?b @ take (j - (i + Suc k)) (drop (s + (i + Suc k)) src)"
      unfolding sp take_add by (simp add: add.commute add.left_commute)
    moreover have "overwrite (d + i + length ?b) (take (j - (i + Suc k)) (drop (s + (i + Suc k)) src)) ?dst =
      overwrite (d + i) (?b @ take (j - (i + Suc k)) (drop (s + (i + Suc k)) src)) dst"
    proof -
      have "length (take (j - (i + Suc k)) (drop (s + (i + Suc k)) src)) = j - (i + Suc k)" using j(4) assms(1) by simp
      then show ?thesis using j(4,2) less.prems(1) lb by (intro overwrite_append) simp
    qed
    ultimately show ?thesis using c j True lb by (subst copy_blocks.simps) (auto simp: add.assoc)
  qed
qed

text \<open>\<open>memcpy_aligned\<close> copies at least the bytes asked for and at most 15 more.\<close>

lemma memcpy_aligned_ok:
  assumes "63 \<le> unat sz" "s + unat sz + 15 \<le> length src" "d + unat sz + 15 \<le> length dst"
  shows "\<exists>n. memcpy_aligned da sa d dst s src sz = Inr (overwrite d (take n (drop s src)) dst) \<and> unat sz \<le> n \<and> n < unat sz + 16"
proof (cases "(sa OR da) AND 0xF \<noteq> 0")
  case True
  then show ?thesis using assms by (intro exI[of _ "unat sz"]) (simp add: memcpy_aligned_def copy_bytes_def put_bytes_def)
next
  case False
  have u: "unat (sz - 63) = unat sz - 63" using assms(1) by (simp add: unat_sub word_le_nat_alt)
  have "s + unat (sz - 63) + 63 \<le> length src" "d + unat (sz - 63) + 63 \<le> length dst" "0 < unat (sz - 63) + Suc 63"
    using u assms by simp_all
  from copy_blocks_ok[OF this] obtain j where j: "copy_blocks 63 (unat (sz - 63)) 0 s src d dst = Inr (j, overwrite d (take j (drop s src)) dst)"
    "j < unat sz - 63 + 64" using u by fastforce
  let ?dst = "overwrite d (take j (drop s src)) dst"
  have jl: "j \<le> unat sz" using j(2) assms(1) by linarith
  have lt: "length (take j (drop s src)) = j" using jl assms(2) by simp
  have ld: "length ?dst = length dst" using lt jl assms(3) by simp
  have "d + unat sz + 15 \<le> length ?dst" "j < unat sz + Suc 15" using ld assms(3) jl by simp_all
  from copy_blocks_ok[OF assms(2) this] obtain n where
    n: "copy_blocks 15 (unat sz) j s src d ?dst = Inr (n, overwrite (d + j) (take (n - j) (drop (s + j) src)) ?dst)"
      "j \<le> n" "unat sz \<le> n" "n < unat sz + 16" by auto
  have "overwrite (d + j) (take (n - j) (drop (s + j) src)) ?dst = overwrite d (take n (drop s src)) dst"
  proof -
    have "take n (drop s src) = take j (drop s src) @ take (n - j) (drop (s + j) src)"
      using n(2) take_add[of j "n - j" "drop s src"] by (simp add: add.commute)
    moreover have "length (take (n - j) (drop (s + j) src)) = n - j" using n(4) assms(2) by simp
    moreover have "d + length (take j (drop s src)) + length (take (n - j) (drop (s + j) src)) \<le> length dst"
      using calculation(2) lt n(2,4) assms(3) by simp
    ultimately show ?thesis using overwrite_append[of d "take j (drop s src)" "take (n - j) (drop (s + j) src)" dst] lt by simp
  qed
  then have "copy_blocks 15 (unat sz) j s src d ?dst = Inr (n, overwrite d (take n (drop s src)) dst)" using n(1) by (simp only:)
  then have "memcpy_aligned da sa d dst s src sz = Inr (overwrite d (take n (drop s src)) dst)"
    unfolding memcpy_aligned_def if_not_P[OF False] j(1) by simp
  then show ?thesis using n(3,4) by blast
qed

lemma for_range_build:
  assumes "P a s" "\<And>i s. a \<le> i \<Longrightarrow> i < b \<Longrightarrow> P i s \<Longrightarrow> \<exists>t. f i s = Inr t \<and> P (Suc i) t" "a \<le> b"
  shows "\<exists>t. for_range f a b s = Inr t \<and> P b t"
  using assms(3,1,2)
proof (induction b rule: dec_induct)
  case base
  then show ?case by simp
next
  case (step n)
  then obtain t where "for_range f a n s = Inr t" "P n t" by (metis less_Suc_eq)
  moreover from step.prems(2)[OF step.hyps(1) _ this(2)] obtain u where "f n t = Inr u" "P (Suc n) u" by auto
  ultimately show ?case using step.hyps(1) by (auto simp: for_range_last)
qed

lemma send_ok:
  assumes "16 \<le> unat (s_Xsize s)" "4 * unat (s_Xsize s) \<le> unat (s_pitch s)"
    and "unat (s_Ysize s) * unat (s_pitch s) < 2 ^ 32" "unat (s_Ysize s) * unat (s_pitch s) + 15 \<le> length (s_vga s)"
    and "4 * (unat (s_Xsize s) * unat (s_Ysize s)) + 15 \<le> length (s_buffer s)"
  shows "\<exists>vga. s_send s = Inr (s\<lparr>s_vga := vga\<rparr>) \<and> length vga = length (s_vga s) \<and>
    (\<forall>y < unat (s_Ysize s). take (4 * unat (s_Xsize s)) (drop (y * unat (s_pitch s)) vga) =
       take (4 * unat (s_Xsize s)) (drop (4 * (y * unat (s_Xsize s))) (s_buffer s)))"
proof -
  define X where "X = unat (s_Xsize s)"
  define Y where "Y = unat (s_Ysize s)"
  define p where "p = unat (s_pitch s)"
  let ?B = "s_buffer s"
  note a = assms[folded X_def Y_def p_def]
  define f where "f = (\<lambda>i vga. let p = of_nat i * s_pitch s; q = of_nat i * ucast (s_Xsize s) :: u32 in
        memcpy_aligned (VGAbuffer + ucast p) (back_buffer + 4 * ucast q) (unat p) vga (4 * unat q) (s_buffer s)
          (ucast (s_Xsize s) * 4))"
  define P where "P = (\<lambda>i vga. length vga = length (s_vga s) \<and>
    (\<forall>y < i. take (4 * X) (drop (y * p) vga) = take (4 * X) (drop (4 * (y * X)) ?B)))"
  have sz: "unat (ucast (s_Xsize s) * 4 :: u64) = 4 * X"
    using unat_lt16[of "s_Xsize s"] by (simp add: unat_word_ariths X_def)
  have step: "\<exists>t. f i v = Inr t \<and> P (Suc i) t" if i: "i < Y" and v: "P i v" for i v
  proof -
    have "i < 2 ^ 16" using i unat_lt16[of "s_Ysize s"] by (simp add: Y_def)
    then have u: "unat (of_nat i :: u32) = i" by (simp add: unat_of_nat)
    have e: "i * p + p \<le> Y * p" using mult_le_mono1[of "i + 1" Y p] i by simp
    have e2: "i * X + X \<le> Y * X" using mult_le_mono1[of "i + 1" Y X] i by simp
    have "i * p < 2 ^ 32" using e a(3) by linarith
    then have up: "unat (of_nat i * s_pitch s) = i * p" using u by (simp add: unat_word_ariths p_def)
    have "X * Y < 2 ^ 32" unfolding X_def Y_def by (rule XY_lt)
    then have "i * X < 2 ^ 32" using e2 by (simp add: mult.commute)
    then have uq: "unat (of_nat i * ucast (s_Xsize s) :: u32) = i * X" using u by (simp add: unat_word_ariths X_def)
    have lv: "length v = length (s_vga s)" using v by (simp add: P_def)
    have "63 \<le> unat (ucast (s_Xsize s) * 4 :: u64)" "4 * (i * X) + unat (ucast (s_Xsize s) * 4 :: u64) + 15 \<le> length ?B"
      "i * p + unat (ucast (s_Xsize s) * 4 :: u64) + 15 \<le> length v"
      using a e e2 lv unfolding sz by (simp_all add: mult.commute)
    from memcpy_aligned_ok[OF this] obtain n where
      n: "f i v = Inr (overwrite (i * p) (take n (drop (4 * (i * X)) ?B)) v)" "4 * X \<le> n" "n < 4 * X + 16"
      unfolding f_def Let_def up uq sz by blast
    let ?d = "take n (drop (4 * (i * X)) ?B)"
    have ld: "length ?d = n" using n(3) a(5) e2 by (simp add: mult.commute)
    have fit: "i * p + length ?d \<le> length v" using ld n(3) a(2,4) e lv by linarith
    have "take (4 * X) (drop (y * p) (overwrite (i * p) ?d v)) = take (4 * X) (drop (4 * (y * X)) ?B)" if "y < Suc i" for y
    proof (cases "y = i")
      case True
      have "take (4 * X) (take n (drop (i * p) (overwrite (i * p) ?d v))) = take (4 * X) ?d"
        using overwrite_same[OF fit] ld by simp
      then show ?thesis using True n(2) by (simp add: min_def)
    next
      case False
      then have "y < i" using that by simp
      then have "y * p + 4 * X \<le> i * p" using mult_le_mono1[of "y + 1" i p] a(2) by simp
      then show ?thesis using overwrite_other[OF fit, of "y * p" "4 * X"] v \<open>y < i\<close> by (simp add: P_def)
    qed
    then show ?thesis using n(1) fit lv by (auto simp: P_def)
  qed
  have "P 0 (s_vga s)" by (simp add: P_def)
  from for_range_build[of P, OF this, of Y f] step obtain vga where
    "for_range f 0 Y (s_vga s) = Inr vga" "P Y vga" by auto
  then show ?thesis by (intro exI[of _ vga]) (simp add: s_send_def f_def[symmetric] Y_def[symmetric] X_def[symmetric] p_def[symmetric] P_def)
qed

text \<open>Sending the back buffer. For every screen of at least 16 pixels a line whose lines do not
  overlap in the video memory, \<open>Screen::send\<close> succeeds, and every line of the video memory then
  holds the same line of the back buffer, although the copy in blocks of 16 bytes writes past the
  end of a line that is not a multiple of 16 bytes: the next line is sent after it. The back buffer
  and the video memory have to be mapped for 15 bytes more than the picture.
\<close>

theorem send_shows_buffer:
  assumes "16 \<le> unat (s_Xsize s)" "4 * unat (s_Xsize s) \<le> unat (s_pitch s)"
    and "unat (s_Ysize s) * unat (s_pitch s) < 2 ^ 32" "unat (s_Ysize s) * unat (s_pitch s) + 15 \<le> length (s_vga s)"
    and "4 * (unat (s_Xsize s) * unat (s_Ysize s)) + 15 \<le> length (s_buffer s)"
  shows "\<exists>vga. s_send s = Inr (s\<lparr>s_vga := vga\<rparr>) \<and> length vga = length (s_vga s) \<and>
    (\<forall>y < unat (s_Ysize s). take (4 * unat (s_Xsize s)) (drop (y * unat (s_pitch s)) vga) =
       take (4 * unat (s_Xsize s)) (drop (4 * (y * unat (s_Xsize s))) (s_buffer s)))"
  using assms by (rule send_ok)

definition demo_screen :: screen where
  "demo_screen = \<lparr>s_Xsize = 18, s_Ysize = 2, s_pitch = 72, s_buffer = replicate 159 7, s_vga = replicate 159 0, s_OK = True\<rparr>"

theorem send_shows_buffer_witness:
  "\<exists>vga. s_send demo_screen = Inr (demo_screen\<lparr>s_vga := vga\<rparr>) \<and> length vga = 159 \<and>
    (\<forall>y < 2. take 72 (drop (y * 72) vga) = replicate 72 7)"
proof -
  have b: "s_buffer demo_screen = replicate 159 7" by (simp add: demo_screen_def)
  have "y < 2 \<Longrightarrow> take 72 (drop (4 * (y * 18)) (replicate 159 (7 :: u8))) = replicate 72 7" for y :: nat
    by (simp add: take_replicate drop_replicate min_def)
  then show ?thesis using send_shows_buffer[of demo_screen] unfolding b
    by (simp add: demo_screen_def)
qed

end
