(* ===== verification/Events.thy ===== *)
theory Events
  imports Deque Ports Screen
begin

text \<open>
  Input: the keyboard (\<open>src/src/IO/Keyboard.cpp\<close>, the keymaps of \<open>Keymap.cpp\<close>), the mouse
  (\<open>Mouse.cpp\<close>) and the events that windows receive (\<open>Event.h\<close>, \<open>GraphEvent.h\<close>). Interrupts
  push bytes into the ring buffers of Deque.thy; \<open>poll\<close> takes them out.
\<close>

section \<open>The keyboard\<close>

text \<open>A byte of the keyboard: seven bits of code and the release bit.\<close>

record kbd_state =
  lShift :: bool
  rShift :: bool
  lCtrl :: bool
  rCtrl :: bool
  lAlt :: bool
  rAlt :: bool
  lWin :: bool
  rWin :: bool
  capsLock :: bool
  numLock :: bool

record escancode =
  sc_code :: u8
  sc_release :: bool
  sc_extended :: bool
  sc_valid :: bool

record keycode =
  kc_state :: kbd_state
  kc_symbol :: u8
  kc_scan :: escancode

record keymap =
  km_main :: bytes
  km_shift :: bytes
  km_shift56 :: u8
  km_altGr :: bytes
  km_pad :: bytes

record keyboard =
  k_deque :: "u8 deque"
  k_state :: kbd_state
  k_keymap :: keymap

definition k_TAB :: u8 where "k_TAB = 15"
definition k_CTRL :: u8 where "k_CTRL = 29"
definition k_LSHIFT :: u8 where "k_LSHIFT = 42"
definition k_RSHIFT :: u8 where "k_RSHIFT = 54"
definition k_ALT :: u8 where "k_ALT = 56"
definition k_SPACE :: u8 where "k_SPACE = 57"
definition k_CAPSLOCK :: u8 where "k_CAPSLOCK = 58"
definition k_F1 :: u8 where "k_F1 = 59"
definition k_F10 :: u8 where "k_F10 = 68"
definition k_NUMLOCK :: u8 where "k_NUMLOCK = 69"
definition k_LWIN :: u8 where "k_LWIN = 0x5b"
definition k_RWIN :: u8 where "k_RWIN = 0x5c"

definition no_keys :: kbd_state where
  "no_keys = \<lparr>lShift = False, rShift = False, lCtrl = False, rCtrl = False, lAlt = False, rAlt = False,
     lWin = False, rWin = False, capsLock = False, numLock = False\<rparr>"

definition escan :: "u8 \<Rightarrow> bool \<Rightarrow> bool \<Rightarrow> escancode" where
  "escan c extended valid =
    \<lparr>sc_code = c AND 127, sc_release = bit c 7, sc_extended = extended, sc_valid = valid\<rparr>"

definition no_scancode :: escancode where
  "no_scancode = escan (- 1) False False"

definition handleScanCode :: "u8 \<Rightarrow> keyboard \<Rightarrow> keyboard res" where
  "handleScanCode sc k = bnd (dq_push_back sc (k_deque k)) (\<lambda>d. Inr (k\<lparr>k_deque := d\<rparr>))"

definition pollSC :: "keyboard \<Rightarrow> (escancode \<times> keyboard) res" where
  "pollSC k =
    (let d = k_deque k in
     if dq_empty d then Inr (no_scancode, k)
     else let sc = dq_front d in
       if sc = 0xe0 then
         if dq_size d \<le> 1 then Inr (no_scancode, k)
         else let e = escan (dq_nth d 1) True True in
           bnd (dq_pop_front d) (\<lambda>d. bnd (dq_pop_front d) (\<lambda>d. Inr (e, k\<lparr>k_deque := d\<rparr>)))
       else bnd (dq_pop_front d) (\<lambda>d. Inr (escan sc False True, k\<lparr>k_deque := d\<rparr>)))"

definition setLeds :: "'io ports \<Rightarrow> u8 \<Rightarrow> 'io \<Rightarrow> 'io" where
  "setLeds P f io = snd (in8 P 0x60 (out8 P 0x60 f (out8 P 0x60 0xED io)))"

definition led_bits :: "kbd_state \<Rightarrow> u8" where
  "led_bits s = push_bit 2 (of_bool (capsLock s)) + push_bit 1 (of_bool (numLock s))"

text \<open>The \<open>switch\<close> of \<open>poll\<close>: how a key changes the modifiers.\<close>

definition kbd_modifiers :: "escancode \<Rightarrow> kbd_state \<Rightarrow> kbd_state" where
  "kbd_modifiers sc s =
    (let c = sc_code sc; down = \<not> sc_release sc in
     if c = k_CTRL then (if sc_extended sc then s\<lparr>rCtrl := down\<rparr> else s\<lparr>lCtrl := down\<rparr>)
     else if c = k_LSHIFT then s\<lparr>lShift := down\<rparr>
     else if c = k_RSHIFT then s\<lparr>rShift := down\<rparr>
     else if c = k_ALT then (if sc_extended sc then s\<lparr>rAlt := down\<rparr> else s\<lparr>lAlt := down\<rparr>)
     else if c = k_CAPSLOCK then (if down then s\<lparr>capsLock := \<not> capsLock s\<rparr> else s)
     else if c = k_NUMLOCK then (if down then s\<lparr>numLock := \<not> numLock s\<rparr> else s)
     else if c = k_LWIN then (if sc_extended sc then s\<lparr>lWin := down\<rparr> else s)
     else if c = k_RWIN then (if sc_extended sc then s\<lparr>rWin := down\<rparr> else s)
     else s)"

definition key_at :: "bytes \<Rightarrow> nat \<Rightarrow> u8 res" where
  "key_at t i = check (i < length t) OutOfBounds (Inr (t ! i))"

definition kbd_symbol :: "keymap \<Rightarrow> kbd_state \<Rightarrow> escancode \<Rightarrow> u8 res" where
  "kbd_symbol km s sc =
    (let c = sc_code sc; n = unat c in
     if 0x57 \<le> c then Inr 0
     else if sc_extended sc \<and> c = 0x35 then Inr 47
     else if sc_extended sc then Inr 0
     else if lShift s \<or> rShift s \<or> capsLock s then
       (if c = 0x56 then Inr (km_shift56 km)
        else if 0x47 \<le> c \<and> c < 0x54 then
          (if numLock s \<and> \<not> sc_extended sc then key_at (km_main km) (n - 0x47) else key_at (km_pad km) (n - 0x47))
        else if c < 0x38 then key_at (km_shift km) n else Inr 0)
     else if rAlt s then (if c < 0xe then key_at (km_altGr km) n else Inr 0)
     else if 0x47 \<le> c \<and> c < 0x54 \<and> numLock s \<and> \<not> sc_extended sc then key_at (km_pad km) (n - 0x47)
     else key_at (km_main km) n)"

definition kbd_poll :: "'io ports \<Rightarrow> keyboard \<Rightarrow> 'io \<Rightarrow> (keycode \<times> keyboard \<times> 'io) res" where
  "kbd_poll P k io =
    bnd (pollSC k) (\<lambda>(sc, k).
      if \<not> sc_valid sc then Inr (\<lparr>kc_state = k_state k, kc_symbol = - 1, kc_scan = sc\<rparr>, k, io)
      else
        let s = kbd_modifiers sc (k_state k);
            io = (if sc_code sc = k_CAPSLOCK \<or> sc_code sc = k_NUMLOCK then setLeds P (led_bits s) io else io) in
        bnd (kbd_symbol (k_keymap k) s sc) (\<lambda>symbol.
          Inr (\<lparr>kc_state = s, kc_symbol = symbol, kc_scan = sc\<rparr>, k\<lparr>k_state := s\<rparr>, io)))"

definition setKeymap :: "keymap \<Rightarrow> keyboard \<Rightarrow> keyboard" where
  "setKeymap km k = k\<lparr>k_keymap := km\<rparr>"

section \<open>The keymaps\<close>

definition qwertyKeymap :: keymap where
  "qwertyKeymap =
    \<lparr>km_main = [0, 0, 49, 50, 51, 52, 53, 54, 55, 56, 57, 48, 45, 61, 8, 9, 113, 119, 101, 114, 116, 121,
       117, 105, 111, 112, 91, 93, 10, 0, 97, 115, 100, 102, 103, 104, 106, 107, 108, 59, 39,
       96, 0, 92, 122, 120, 99, 118, 98, 110, 109, 44, 46, 47, 0, 42, 0, 32, 0, 0, 0, 0, 0, 0,
       0, 0, 0, 0, 0, 0, 0, 13, 0, 0, 45, 0, 0, 0, 43, 0, 0, 0, 0, 0, 0, 127, 0],
     km_shift = [0, 0, 33, 64, 35, 36, 37, 94, 38, 42, 40, 41, 95, 43, 8, 9, 81, 87, 69, 82, 84, 89, 85,
       73, 79, 80, 123, 125, 10, 0, 65, 83, 68, 70, 71, 72, 74, 75, 76, 58, 34, 126, 0, 124, 90,
       88, 67, 86, 66, 78, 77, 60, 62, 63, 0, 42],
     km_shift56 = 0,
     km_altGr = [0, 0, 0, 0, 0, 0, 0, 0, 0, 0, 0, 0, 0, 0],
     km_pad = [55, 56, 57, 45, 52, 53, 54, 43, 49, 50, 51, 48, 46]\<rparr>"

definition azertyKeymap :: keymap where
  "azertyKeymap =
    \<lparr>km_main = [0, 0, 38, 233, 34, 39, 40, 45, 232, 95, 231, 224, 41, 61, 8, 9, 97, 122, 101, 114, 116,
       121, 117, 105, 111, 112, 94, 36, 10, 0, 113, 115, 100, 102, 103, 104, 106, 107, 108, 109,
       249, 178, 0, 42, 119, 120, 99, 118, 98, 110, 44, 59, 58, 33, 0, 42, 0, 32, 0, 0, 0, 0, 0,
       0, 0, 0, 0, 0, 0, 0, 0, 13, 0, 0, 45, 0, 0, 0, 43, 0, 0, 0, 0, 0, 0, 127, 60],
     km_shift = [0, 0, 49, 50, 51, 52, 53, 54, 55, 56, 57, 48, 176, 43, 8, 9, 65, 90, 69, 82, 84, 89, 85,
       73, 79, 80, 34, 163, 10, 0, 81, 83, 68, 70, 71, 72, 74, 75, 76, 77, 37, 0, 0, 181, 87,
       88, 67, 86, 66, 78, 63, 46, 47, 167, 0, 42],
     km_shift56 = 0,
     km_altGr = [0, 0, 0, 126, 35, 123, 91, 124, 96, 92, 94, 64, 93, 125],
     km_pad = [55, 56, 57, 45, 52, 53, 54, 43, 49, 50, 51, 48, 46]\<rparr>"

definition dvorakKeymap :: keymap where
  "dvorakKeymap =
    \<lparr>km_main = [0, 0, 49, 50, 51, 52, 53, 54, 55, 56, 57, 48, 91, 93, 8, 9, 39, 44, 46, 112, 121, 102,
       103, 99, 114, 108, 47, 61, 10, 0, 97, 111, 101, 117, 105, 100, 104, 116, 110, 115, 45,
       96, 0, 92, 59, 113, 106, 107, 120, 98, 109, 119, 118, 122, 0, 42, 0, 32, 0, 0, 0, 0, 0,
       0, 0, 0, 0, 0, 0, 0, 0, 13, 0, 0, 45, 0, 0, 0, 43, 0, 0, 0, 0, 0, 0, 127, 0],
     km_shift = [0, 0, 33, 64, 35, 36, 37, 94, 38, 42, 40, 41, 123, 125, 8, 9, 34, 60, 62, 80, 89, 70, 71,
       67, 82, 76, 63, 43, 10, 0, 65, 79, 69, 85, 73, 68, 72, 84, 78, 83, 95, 126, 0, 124, 58,
       81, 74, 75, 88, 66, 77, 87, 86, 90, 0, 42],
     km_shift56 = 0,
     km_altGr = [0, 0, 0, 0, 0, 0, 0, 0, 0, 0, 0, 0, 0, 0],
     km_pad = [55, 56, 57, 45, 52, 53, 54, 43, 49, 50, 51, 48, 46]\<rparr>"

definition keymaps :: "keymap list" where
  "keymaps = [azertyKeymap, qwertyKeymap, dvorakKeymap]"

section \<open>The mouse\<close>

record mouse_event =
  me_x :: u16
  me_y :: u16
  me_pressed :: u8
  me_changed :: u8

definition me_invalid :: mouse_event where
  "me_invalid = \<lparr>me_x = 0, me_y = 0, me_pressed = 255, me_changed = 255\<rparr>"

definition me_new :: "u16 \<Rightarrow> u16 \<Rightarrow> u8 \<Rightarrow> u8 \<Rightarrow> mouse_event" where
  "me_new x y pressed before = \<lparr>me_x = x, me_y = y, me_pressed = pressed, me_changed = pressed XOR before\<rparr>"

definition me_isValid :: "mouse_event \<Rightarrow> bool" where
  "me_isValid e \<longleftrightarrow> me_pressed e \<noteq> 255 \<and> me_changed e \<noteq> 255"

datatype button = LEFT | RIGHT | MIDDLE
datatype button_state = PRESSED | CHANGED | JUSTPRESSED | JUSTRELEASED

definition button_bit :: "button \<Rightarrow> nat" where
  "button_bit b = (case b of LEFT \<Rightarrow> 0 | RIGHT \<Rightarrow> 1 | MIDDLE \<Rightarrow> 2)"

definition me_get :: "button \<Rightarrow> button_state \<Rightarrow> mouse_event \<Rightarrow> bool" where
  "me_get b s e =
    (let v = (case s of PRESSED \<Rightarrow> me_pressed e | CHANGED \<Rightarrow> me_changed e
        | JUSTPRESSED \<Rightarrow> me_pressed e AND me_changed e | JUSTRELEASED \<Rightarrow> NOT (me_pressed e) AND me_changed e) in
     v AND push_bit (button_bit b) 1 \<noteq> 0)"

text \<open>The coordinates stay between 0 and the size of the screen, far inside \<open>int\<close>.\<close>

record mouse =
  m_totalX :: int
  m_totalY :: int
  m_byte :: bytes
  m_cycle :: nat
  m_lastPressed :: u8
  m_deque :: "mouse_event deque"

definition mouse_new :: "mouse_event list \<Rightarrow> mouse" where
  "mouse_new arr = \<lparr>m_totalX = 0, m_totalY = 0, m_byte = [0, 0, 0], m_cycle = 0, m_lastPressed = 0, m_deque = dq_new arr\<rparr>"

text \<open>\<open>x\<close> and \<open>y\<close> of a packet: nine bits with the sign bits in the first byte.\<close>

definition packet_x :: "bytes \<Rightarrow> int" where
  "packet_x b = int (unat (b ! 1)) - int (unat ((push_bit 4 (ucast (b ! 0)) :: u32) AND 0x100))"

definition packet_y :: "bytes \<Rightarrow> int" where
  "packet_y b = int (unat (b ! 2)) - int (unat ((push_bit 3 (ucast (b ! 0)) :: u32) AND 0x100))"

definition mouse_move :: "screen \<Rightarrow> mouse \<Rightarrow> mouse" where
  "mouse_move s m =
    m\<lparr>m_totalX := min (max (m_totalX m + packet_x (m_byte m)) 0) (int (unat (s_Xsize s)) - 1),
      m_totalY := min (max (m_totalY m - packet_y (m_byte m)) 0) (int (unat (s_Ysize s)) - 1)\<rparr>"

definition mouse_handleByte :: "screen \<Rightarrow> u8 \<Rightarrow> mouse \<Rightarrow> mouse res" where
  "mouse_handleByte s b m =
    (if m_cycle m = 0 then
       if b AND push_bit 3 1 = 0 then Inr m else Inr (m\<lparr>m_byte := (m_byte m)[0 := b], m_cycle := 1\<rparr>)
     else if m_cycle m = 1 then Inr (m\<lparr>m_byte := (m_byte m)[1 := b], m_cycle := 2\<rparr>)
     else if m_cycle m = 2 then
       (let m = mouse_move s (m\<lparr>m_byte := (m_byte m)[2 := b]\<rparr>); p = m_byte m ! 0 AND 0x7 in
        bnd (if m_lastPressed m \<noteq> p
             then bnd (dq_push_back (me_new (of_int (m_totalX m)) (of_int (m_totalY m)) p (m_lastPressed m)) (m_deque m))
                    (\<lambda>d. Inr (m\<lparr>m_deque := d, m_lastPressed := p\<rparr>))
             else Inr m) (\<lambda>m. Inr (m\<lparr>m_cycle := 0\<rparr>)))
     else Inr m)"

definition mouse_poll :: "mouse \<Rightarrow> (mouse_event \<times> mouse) res" where
  "mouse_poll m =
    (if dq_empty (m_deque m) then Inr (me_invalid, m)
     else bnd (dq_pop_front (m_deque m)) (\<lambda>d. Inr (dq_front (m_deque m), m\<lparr>m_deque := d\<rparr>)))"

definition mouse_pollLast :: "mouse \<Rightarrow> mouse_event" where
  "mouse_pollLast m = me_new (of_int (m_totalX m)) (of_int (m_totalY m)) (m_lastPressed m) (m_lastPressed m)"

text \<open>The pointer: 28 lines of 16 pixels, the bit \<open>x\<close> being the column \<open>16 - x\<close>.\<close>

definition cursor_black :: "u16 list" where
  "cursor_black =
    [0x0000, 0x4000, 0x6000, 0x7000, 0x7e00, 0x6380, 0x6b7c, 0x62fe, 0x7efe, 0x7efe, 0x7f7e, 0x7f9e, 0x7fc0, 0x7ff8,
     0x7ff8, 0x7ff8, 0x7ff8, 0x7ff0, 0x7ff0, 0x3ff0, 0x3fe0, 0x1fc0, 0x0f80, 0x0400, 0x0400, 0x05f8, 0x0308, 0x0000]"

definition cursor_white :: "u16 list" where
  "cursor_white =
    [0xc000, 0xa000, 0x9000, 0x8e00, 0x8180, 0x9c7c, 0x9482, 0x9d01, 0x8101, 0x8101, 0x8081, 0x8061, 0x803e, 0x8004,
     0x8004, 0x8004, 0x8004, 0x8008, 0x8008, 0x4008, 0x4010, 0x2020, 0x1040, 0x0b80, 0x0bf8, 0x0a0c, 0x04f4, 0x0308]"

definition mouse_draw_line :: "mouse \<Rightarrow> u32 \<Rightarrow> nat \<Rightarrow> screen \<Rightarrow> screen res" where
  "mouse_draw_line m startx y s =
    (let X = of_int (m_totalX m) :: u32; Y = of_int (m_totalY m) + of_nat y :: u32 in
     for_range (\<lambda>x s.
       bnd (if drop_bit x (cursor_black ! y) AND 1 \<noteq> 0 then s_set (X + 16 - of_nat x) Y black s else Inr s) (\<lambda>s.
         if drop_bit x (cursor_white ! y) AND 1 \<noteq> 0 then s_set (X + 16 - of_nat x) Y white s else Inr s))
       (unat startx) 16 s)"

definition mouse_draw :: "mouse \<Rightarrow> screen \<Rightarrow> screen res" where
  "mouse_draw m s =
    (let sz = s_getSize s; X = of_int (m_totalX m) :: u32;
         startx = (if vx sz \<le> X + 16 then X + 16 - vx sz + 1 else 0) in
     for_range (\<lambda>y s. if vy sz \<le> of_int (m_totalY m) + of_nat y then Inr s else mouse_draw_line m startx y s) 0 28 s)"

text \<open>The set-up over the ports; a wait gives up after five million looks.\<close>

fun mouse_wait :: "'io ports \<Rightarrow> bool \<Rightarrow> nat \<Rightarrow> 'io \<Rightarrow> 'io" where
  "mouse_wait P to_write 0 io = io"
| "mouse_wait P to_write (Suc n) io =
    (case in8 P 0x64 io of (st, io) \<Rightarrow>
       if (if to_write then st AND 2 = 0 else st AND 1 = 1) then io else mouse_wait P to_write n io)"

definition mouse_timeout :: nat where "mouse_timeout = 5000000"

definition mouse_write :: "'io ports \<Rightarrow> u8 \<Rightarrow> 'io \<Rightarrow> 'io" where
  "mouse_write P b io =
    out8 P 0x60 b (mouse_wait P True mouse_timeout (out8 P 0x64 0xD4 (mouse_wait P True mouse_timeout io)))"

definition mouse_read :: "'io ports \<Rightarrow> 'io \<Rightarrow> u8 \<times> 'io" where
  "mouse_read P io = in8 P 0x60 (mouse_wait P False mouse_timeout io)"

definition mouse_expect :: "'io ports \<Rightarrow> u8 \<Rightarrow> 'io \<Rightarrow> 'io res" where
  "mouse_expect P b io = (case mouse_read P io of (v, io) \<Rightarrow> assertk (v = b) (Inr io))"

definition mouse_init :: "'io ports \<Rightarrow> mouse \<Rightarrow> 'io \<Rightarrow> (mouse \<times> 'io) res" where
  "mouse_init P m io =
    (let ready = mouse_wait P True mouse_timeout;
         io = out8 P 0x64 0x20 (ready (out8 P 0x64 0xA8 (ready io))) in
     case in8 P 0x60 (mouse_wait P False mouse_timeout io) of (st, io) \<Rightarrow>
       let io = out8 P 0x60 (st OR 2) (ready (out8 P 0x64 0x60 (ready io))) in
       bnd (mouse_expect P 0xfa (mouse_write P 0xFF io)) (\<lambda>io.
       bnd (mouse_expect P 0xaa io) (\<lambda>io.
       bnd (mouse_expect P 0x00 io) (\<lambda>io.
       bnd (mouse_expect P 0xfa (mouse_write P 0xF6 io)) (\<lambda>io.
       bnd (mouse_expect P 0xfa (mouse_write P 0xF4 io)) (\<lambda>io.
         Inr (m\<lparr>m_totalX := 0, m_totalY := 0\<rparr>, io)))))))"

section \<open>Events\<close>

datatype gtype = RESIZE | MOVE | FOCUS | WORKSPACE

record gevent =
  ge_x :: u16
  ge_y :: u16
  ge_value :: u8
  ge_type :: gtype

definition gevent_value :: "gtype \<Rightarrow> u8 \<Rightarrow> gevent res" where
  "gevent_value t v =
    assertk (t = FOCUS \<or> t = WORKSPACE) (assertk (t = FOCUS \<longrightarrow> v \<le> 1)
      (Inr \<lparr>ge_x = 0, ge_y = 0, ge_value = v, ge_type = t\<rparr>))"

definition gevent_xy :: "gtype \<Rightarrow> u16 \<Rightarrow> u16 \<Rightarrow> gevent res" where
  "gevent_xy t x y =
    assertk (t = RESIZE \<or> t = MOVE) (Inr \<lparr>ge_x = x, ge_y = y, ge_value = 0, ge_type = t\<rparr>)"

datatype event = EvKeyboard keycode | EvMouse mouse_event | EvWindow gevent | EvInvalid

section \<open>The keyboard decodes its byte stream\<close>

text \<open>The scan codes in a stream of bytes; an incomplete extended code stays in the buffer.\<close>

fun scan_codes :: "bytes \<Rightarrow> escancode list" where
  "scan_codes [] = []"
| "scan_codes (b # bs) =
    (if b = 0xe0 then (case bs of [] \<Rightarrow> [] | c # cs \<Rightarrow> escan c True True # scan_codes cs)
     else escan b False True # scan_codes bs)"

fun key_states :: "kbd_state \<Rightarrow> escancode list \<Rightarrow> kbd_state list" where
  "key_states s [] = []"
| "key_states s (c # cs) = (let s' = kbd_modifiers c s in s' # key_states s' cs)"

definition km_ok :: "keymap \<Rightarrow> bool" where
  "km_ok km \<longleftrightarrow> length (km_main km) = 0x57 \<and> length (km_shift km) = 0x38 \<and> length (km_altGr km) = 0xe \<and> length (km_pad km) = 0xd"

lemma keymaps_ok: "list_all km_ok keymaps"
  by (simp add: km_ok_def keymaps_def qwertyKeymap_def azertyKeymap_def dvorakKeymap_def)

lemma kbd_symbol_total:
  assumes "km_ok km"
  shows "\<exists>c. kbd_symbol km s sc = Inr c"
  using assms unfolding kbd_symbol_def Let_def key_at_def km_ok_def
  by (auto simp: word_le_nat_alt word_less_nat_alt check_def)

definition the_symbol :: "keymap \<Rightarrow> kbd_state \<Rightarrow> escancode \<Rightarrow> u8" where
  "the_symbol km s sc = (case kbd_symbol km s sc of Inr c \<Rightarrow> c | Inl _ \<Rightarrow> 0)"

lemma escan_valid [simp]: "sc_valid (escan c x v) = v" "sc_extended (escan c x v) = x"
  by (simp_all add: escan_def)

lemma dq_pop_front_ok:
  assumes "dq_wf d" "dq_list d \<noteq> []"
  shows "\<exists>d'. dq_pop_front d = Inr d' \<and> dq_wf d' \<and> dq_list d' = tl (dq_list d)"
proof -
  have "0 < dq_size d" using assms(2) length_dq_list[of d] by (metis length_greater_0_conv)
  then obtain d' where "dq_pop_front d = Inr d'" by (simp add: dq_pop_front_def)
  with pop_front_list[OF assms(1) this] show ?thesis by blast
qed

lemma dq_empty_list: "dq_empty d \<longleftrightarrow> dq_list d = []"
  by (metis dq_empty_def length_0_conv length_dq_list)

lemma pollSC_code:
  assumes "dq_wf (k_deque k)" "scan_codes (dq_list (k_deque k)) = sc # scs"
  shows "\<exists>d. pollSC k = Inr (sc, k\<lparr>k_deque := d\<rparr>) \<and> dq_wf d \<and> scan_codes (dq_list d) = scs \<and> sc_valid sc \<and>
    dq_size d < dq_size (k_deque k)"
proof -
  let ?d = "k_deque k"
  obtain b bs where bs: "dq_list ?d = b # bs" using assms(2) by (cases "dq_list ?d") auto
  then have f: "dq_front ?d = b" using dq_front_list[OF assms(1)] by simp
  from dq_pop_front_ok[OF assms(1)] bs obtain d1 where d1: "dq_pop_front ?d = Inr d1" "dq_wf d1" "dq_list d1 = bs" by auto
  have ne: "\<not> dq_empty ?d" by (simp add: dq_empty_list bs)
  have sz1: "dq_size d1 < dq_size ?d" using length_dq_list[of ?d] length_dq_list[of d1] bs d1(3) by simp
  show ?thesis
  proof (cases "b = 0xe0")
    case False
    then show ?thesis using assms(2) bs f ne d1 sz1 by (auto simp: pollSC_def)
  next
    case True
    then obtain c cs where c: "bs = c # cs" "sc = escan c True True" "scs = scan_codes cs"
      using assms(2) bs by (cases bs) auto
    have sz: "dq_size ?d = length bs + 1" using length_dq_list[of ?d] bs by simp
    have n1: "dq_nth ?d 1 = c"
    proof -
      have "dq_nth ?d 1 = dq_list ?d ! 1"
        using assms(1) sz c(1) by (simp add: dq_nth_def nth_dq_list dq_wf_def)
      then show ?thesis using bs c(1) by simp
    qed
    from dq_pop_front_ok[OF d1(2)] d1(3) c(1) obtain d2 where
      "dq_pop_front d1 = Inr d2" "dq_wf d2" "dq_list d2 = cs" by auto
    moreover have "dq_size d2 < dq_size ?d" using calculation(3) c(1) sz length_dq_list[of d2] by simp
    ultimately show ?thesis using True c f ne d1(1) sz n1 by (auto simp: pollSC_def)
  qed
qed

lemma pollSC_none:
  assumes "dq_wf (k_deque k)" "scan_codes (dq_list (k_deque k)) = []"
  shows "pollSC k = Inr (no_scancode, k)"
proof (cases "dq_list (k_deque k)")
  case Nil
  then show ?thesis by (simp add: pollSC_def dq_empty_list)
next
  case (Cons b bs)
  then have "b = 0xe0" "bs = []" using assms(2) by (auto split: if_splits list.splits)
  then show ?thesis using Cons dq_front_list[OF assms(1)] length_dq_list[of "k_deque k"]
    by (simp add: pollSC_def dq_empty_list)
qed

fun kbd_poll_n :: "'io ports \<Rightarrow> nat \<Rightarrow> keyboard \<Rightarrow> 'io \<Rightarrow> (keycode list \<times> keyboard \<times> 'io) res" where
  "kbd_poll_n P 0 k io = Inr ([], k, io)"
| "kbd_poll_n P (Suc n) k io = bnd (kbd_poll P k io) (\<lambda>(c, k, io). bnd (kbd_poll_n P n k io) (\<lambda>(cs, k, io). Inr (c # cs, k, io)))"

lemma kbd_poll_code:
  assumes "dq_wf (k_deque k)" "km_ok (k_keymap k)" "scan_codes (dq_list (k_deque k)) = sc # scs"
  shows "\<exists>d io'. kbd_poll P k io = Inr (\<lparr>kc_state = kbd_modifiers sc (k_state k),
      kc_symbol = the_symbol (k_keymap k) (kbd_modifiers sc (k_state k)) sc, kc_scan = sc\<rparr>,
      k\<lparr>k_deque := d, k_state := kbd_modifiers sc (k_state k)\<rparr>, io') \<and> dq_wf d \<and> scan_codes (dq_list d) = scs \<and> dq_size d < dq_size (k_deque k)"
proof -
  from pollSC_code[OF assms(1,3)] obtain d where d: "pollSC k = Inr (sc, k\<lparr>k_deque := d\<rparr>)" "dq_wf d" "scan_codes (dq_list d) = scs" "sc_valid sc"
    "dq_size d < dq_size (k_deque k)" by blast
  from kbd_symbol_total[OF assms(2)] obtain c where "kbd_symbol (k_keymap k) (kbd_modifiers sc (k_state k)) sc = Inr c" by blast
  then show ?thesis using d by (auto simp: kbd_poll_def Let_def the_symbol_def)
qed

text \<open>
  C31. The keyboard. Polling takes the scan codes out of the bytes that the interrupts queued, in order
  and with the two-byte extended ones whole; each event carries the modifiers as the codes up to it
  have left them and the symbol of the keymap in this state, found without ever leaving a table of
  the keymap; then the next poll says that there is nothing, and an extended code whose second byte
  has not arrived stays queued.
\<close>

theorem keyboard_decodes:
  assumes "dq_wf (k_deque k)" "km_ok (k_keymap k)"
  shows "\<exists>k' io'. kbd_poll_n P (length (scan_codes (dq_list (k_deque k)))) k io =
      Inr (map2 (\<lambda>sc s. \<lparr>kc_state = s, kc_symbol = the_symbol (k_keymap k) s sc, kc_scan = sc\<rparr>)
             (scan_codes (dq_list (k_deque k))) (key_states (k_state k) (scan_codes (dq_list (k_deque k)))), k', io') \<and>
    dq_wf (k_deque k') \<and> pollSC k' = Inr (no_scancode, k')"
proof -
  have "\<exists>k' io'. kbd_poll_n P (length scs) k io =
      Inr (map2 (\<lambda>sc s. \<lparr>kc_state = s, kc_symbol = the_symbol (k_keymap k) s sc, kc_scan = sc\<rparr>) scs (key_states (k_state k) scs), k', io') \<and>
    dq_wf (k_deque k') \<and> pollSC k' = Inr (no_scancode, k')"
    if "scan_codes (dq_list (k_deque k)) = scs" for scs
    using assms that
  proof (induction scs arbitrary: k io)
    case Nil
    then show ?case using pollSC_none by auto
  next
    case (Cons sc scs)
    from kbd_poll_code[OF Cons.prems, of P io] obtain d io1 where p: "kbd_poll P k io = Inr (\<lparr>kc_state = kbd_modifiers sc (k_state k),
      kc_symbol = the_symbol (k_keymap k) (kbd_modifiers sc (k_state k)) sc, kc_scan = sc\<rparr>,
      k\<lparr>k_deque := d, k_state := kbd_modifiers sc (k_state k)\<rparr>, io1)" "dq_wf d" "scan_codes (dq_list d) = scs" by blast
    let ?k = "k\<lparr>k_deque := d, k_state := kbd_modifiers sc (k_state k)\<rparr>"
    have "dq_wf (k_deque ?k)" "km_ok (k_keymap ?k)" "scan_codes (dq_list (k_deque ?k)) = scs" using p Cons.prems(2) by simp_all
    from Cons.IH[OF this, of io1] show ?case using p(1) by (auto simp: Let_def)
  qed
  then show ?thesis by blast
qed

definition demo_kbd :: keyboard where
  "demo_kbd = \<lparr>k_deque = \<lparr>dq_begin = 6, dq_end = 3, dq_size = 5, dq_array = [0x10, 0xe0, 0x1d, 0, 0, 0, 0x2a, 0x1e]\<rparr>,
     k_state = no_keys, k_keymap = qwertyKeymap\<rparr>"

definition null_ports :: "unit ports" where
  "null_ports = \<lparr>in8 = (\<lambda>_ s. (0, s)), out8 = (\<lambda>_ _ s. s), in16 = (\<lambda>_ s. (0, s)), out16 = (\<lambda>_ _ s. s)\<rparr>"

text \<open>Shift down, \<open>a\<close>, \<open>q\<close>, then the right control key, over the end of the ring: \<open>A\<close> and \<open>Q\<close>.\<close>

theorem keyboard_decodes_witness:
  "\<exists>cs k'. kbd_poll_n null_ports 4 demo_kbd () = Inr (cs, k', ()) \<and> map kc_symbol cs = [0, 65, 81, 0] \<and>
    map (lShift \<circ> kc_state) cs = [True, True, True, True] \<and> map (rCtrl \<circ> kc_state) cs = [False, False, False, True] \<and>
    pollSC k' = Inr (no_scancode, k')"
proof -
  have l: "dq_list (k_deque demo_kbd) = [0x2a, 0x1e, 0x10, 0xe0, 0x1d]"
    by (simp add: demo_kbd_def dq_list_def dq_N_def upt_conv_Cons)
  have c: "scan_codes (dq_list (k_deque demo_kbd)) = [escan 0x2a False True, escan 0x1e False True, escan 0x10 False True, escan 0x1d True True]"
    by (simp add: l)
  have k: "k_keymap demo_kbd = qwertyKeymap" "k_state demo_kbd = no_keys" by (simp_all add: demo_kbd_def)
  have w: "dq_wf (k_deque demo_kbd)" by (simp add: demo_kbd_def dq_wf_def dq_N_def)
  have m: "km_ok (k_keymap demo_kbd)" using keymaps_ok by (simp add: keymaps_def k(1))
  have s: "key_states no_keys [escan 0x2a False True, escan 0x1e False True, escan 0x10 False True, escan 0x1d True True] =
    [no_keys\<lparr>lShift := True\<rparr>, no_keys\<lparr>lShift := True\<rparr>, no_keys\<lparr>lShift := True\<rparr>, no_keys\<lparr>lShift := True, rCtrl := True\<rparr>]"
    by code_simp
  have y: "the_symbol qwertyKeymap (no_keys\<lparr>lShift := True\<rparr>) (escan 0x2a False True) = 0"
    "the_symbol qwertyKeymap (no_keys\<lparr>lShift := True\<rparr>) (escan 0x1e False True) = 65"
    "the_symbol qwertyKeymap (no_keys\<lparr>lShift := True\<rparr>) (escan 0x10 False True) = 81"
    "the_symbol qwertyKeymap (no_keys\<lparr>lShift := True, rCtrl := True\<rparr>) (escan 0x1d True True) = 0"
    by code_simp+
  have f: "lShift (no_keys\<lparr>lShift := True\<rparr>)" "\<not> rCtrl (no_keys\<lparr>lShift := True\<rparr>)" by (simp_all add: no_keys_def)
  from keyboard_decodes[OF w m, of null_ports "()"] obtain k' where
    "kbd_poll_n null_ports 4 demo_kbd () = Inr (map2 (\<lambda>sc s. \<lparr>kc_state = s, kc_symbol = the_symbol qwertyKeymap s sc, kc_scan = sc\<rparr>)
      [escan 0x2a False True, escan 0x1e False True, escan 0x10 False True, escan 0x1d True True]
      [no_keys\<lparr>lShift := True\<rparr>, no_keys\<lparr>lShift := True\<rparr>, no_keys\<lparr>lShift := True\<rparr>, no_keys\<lparr>lShift := True, rCtrl := True\<rparr>], k', ())"
    "pollSC k' = Inr (no_scancode, k')" unfolding c k s by (auto simp: numeral_eq_Suc)
  then show ?thesis by (simp add: y f)
qed

section \<open>The pointer stays on the screen\<close>

definition mouse_ok :: "screen \<Rightarrow> mouse \<Rightarrow> bool" where
  "mouse_ok s m \<longleftrightarrow> 0 \<le> m_totalX m \<and> m_totalX m < int (unat (s_Xsize s)) \<and> 0 \<le> m_totalY m \<and> m_totalY m < int (unat (s_Ysize s)) \<and>
     length (m_byte m) = 3 \<and> m_cycle m \<le> 2 \<and> dq_wf (m_deque m)"

fun mouse_bytes :: "screen \<Rightarrow> bytes \<Rightarrow> mouse \<Rightarrow> mouse res" where
  "mouse_bytes s [] m = Inr m"
| "mouse_bytes s (b # bs) m = bnd (mouse_handleByte s b m) (mouse_bytes s bs)"

lemma mouse_move_ok:
  assumes "mouse_ok s m" "length (m_byte m') = 3" "m_totalX m' = m_totalX m" "m_totalY m' = m_totalY m" "m_cycle m' \<le> 2" "dq_wf (m_deque m')"
  shows "mouse_ok s (mouse_move s m')"
proof -
  have "0 \<le> m_totalX m \<and> m_totalX m < int (unat (s_Xsize s))" "0 \<le> m_totalY m \<and> m_totalY m < int (unat (s_Ysize s))"
    using assms(1) by (simp_all only: mouse_ok_def)
  then have "0 < int (unat (s_Xsize s))" "0 < int (unat (s_Ysize s))" by linarith+
  then show ?thesis using assms by (auto simp: mouse_ok_def mouse_move_def)
qed

lemma mouse_handleByte_ok:
  assumes "mouse_ok s m" "mouse_handleByte s b m = Inr m'"
  shows "mouse_ok s m'"
proof -
  have c: "m_cycle m = 0 \<or> m_cycle m = 1 \<or> m_cycle m = 2" using assms(1) by (auto simp: mouse_ok_def)
  let ?m = "mouse_move s (m\<lparr>m_byte := (m_byte m)[2 := b]\<rparr>)"
  have mv: "mouse_ok s ?m" using assms(1) by (intro mouse_move_ok[OF assms(1)]) (simp_all add: mouse_ok_def)
  show ?thesis
  proof (cases "m_cycle m = 2")
    case False
    then show ?thesis using assms c by (auto simp: mouse_handleByte_def mouse_ok_def split: if_splits)
  next
    case True
    then obtain m1 where m1: "(if m_lastPressed ?m \<noteq> m_byte ?m ! 0 AND 0x7
        then bnd (dq_push_back (me_new (of_int (m_totalX ?m)) (of_int (m_totalY ?m)) (m_byte ?m ! 0 AND 0x7) (m_lastPressed ?m)) (m_deque ?m))
               (\<lambda>d. Inr (?m\<lparr>m_deque := d, m_lastPressed := m_byte ?m ! 0 AND 0x7\<rparr>))
        else Inr ?m) = Inr m1" "m' = m1\<lparr>m_cycle := 0\<rparr>"
      using assms(2) by (auto simp: mouse_handleByte_def Let_def res_simps)
    have "mouse_ok s m1"
    proof (cases "m_lastPressed ?m \<noteq> m_byte ?m ! 0 AND 0x7")
      case True
      then obtain d where d: "dq_push_back (me_new (of_int (m_totalX ?m)) (of_int (m_totalY ?m)) (m_byte ?m ! 0 AND 0x7) (m_lastPressed ?m)) (m_deque ?m) = Inr d"
        "m1 = ?m\<lparr>m_deque := d, m_lastPressed := m_byte ?m ! 0 AND 0x7\<rparr>" using m1(1) by (auto simp: res_simps)
      then show ?thesis using mv push_back_list[OF _ d(1)] by (simp add: mouse_ok_def)
    next
      case False
      then show ?thesis using mv m1(1) by (auto split: if_splits)
    qed
    then show ?thesis using m1(2) by (simp add: mouse_ok_def)
  qed
qed

lemma draws_pixel_if: "(c \<Longrightarrow> draws s (s_set x y k s)) \<Longrightarrow> draws s (if c then s_set x y k s else Inr s)"
  by auto

lemma draws_mouse_line:
  assumes "screen_wf s" "unat (of_int (m_totalY m) + of_nat y :: u32) < unat (s_Ysize s)"
    and x: "\<And>x. unat startx \<le> x \<Longrightarrow> x < 16 \<Longrightarrow> unat (of_int (m_totalX m) + 16 - of_nat x :: u32) < unat (s_Xsize s)"
  shows "draws s (mouse_draw_line m startx y s)"
  unfolding mouse_draw_line_def Let_def
proof (rule draws_for_range)
  fix x t assume i: "unat startx \<le> x" "x < (16 :: nat)" and t: "drawn s t"
  have p: "draws u (s_set (of_int (m_totalX m) + 16 - of_nat x) (of_int (m_totalY m) + of_nat y) c u)" if "drawn t u" for u c
    using assms(2) x[OF i] drawn_trans[OF t that] drawn_wf[OF _ assms(1)] by (intro draws_set) (simp_all add: drawn_def)
  show "draws t (bnd (if drop_bit x (cursor_black ! y) AND 1 \<noteq> 0 then s_set (of_int (m_totalX m) + 16 - of_nat x) (of_int (m_totalY m) + of_nat y) black t else Inr t)
     (\<lambda>s. if drop_bit x (cursor_white ! y) AND 1 \<noteq> 0 then s_set (of_int (m_totalX m) + 16 - of_nat x) (of_int (m_totalY m) + of_nat y) white s else Inr s))"
    by (rule draws_bnd; rule draws_pixel_if; rule p) simp_all
qed

lemma unat_of_small_int:
  assumes "0 \<le> k" "k < 2 ^ 16"
  shows "unat (of_int k :: u32) = nat k"
proof -
  obtain n where n: "k = int n" using assms(1) by (rule nonneg_int_cases)
  then have "n < 2 ^ 32" using assms(2) by simp
  then show ?thesis by (simp add: n unat_of_nat32)
qed

lemma unat_plus1: "unat w < 2 ^ 17 \<Longrightarrow> unat (w + 1 :: u32) = unat w + 1"
  by (simp add: unat_word_ariths)

lemma draws_mouse:
  assumes "screen_wf s" "mouse_ok s m"
  shows "draws s (mouse_draw m s)"
proof -
  let ?X = "of_int (m_totalX m) :: u32" and ?Y = "of_int (m_totalY m) :: u32"
  have l: "int (unat (s_Xsize s)) < 2 ^ 16" "int (unat (s_Ysize s)) < 2 ^ 16"
    using unat_lt16[of "s_Xsize s", THEN of_nat_less_iff[where 'a = int, THEN iffD2]]
      unat_lt16[of "s_Ysize s", THEN of_nat_less_iff[where 'a = int, THEN iffD2]]
    by (simp_all only: of_nat_power of_nat_numeral)
  have b: "0 \<le> m_totalX m" "m_totalX m < int (unat (s_Xsize s))" "0 \<le> m_totalY m" "m_totalY m < int (unat (s_Ysize s))"
    using assms(2) by (simp_all only: mouse_ok_def)
  have "m_totalX m < 2 ^ 16" "m_totalY m < 2 ^ 16" using b l by linarith+
  then have u: "unat ?X = nat (m_totalX m)" "unat ?Y = nat (m_totalY m)" using b unat_of_small_int by blast+
  then have X: "unat ?X < unat (s_Xsize s)" and Y: "unat ?Y < unat (s_Ysize s)" using b by linarith+
  have X16: "unat ?X + 16 < 2 ^ 32" "unat ?X < 2 ^ 16" using X unat_lt16[of "s_Xsize s"] by simp_all
  then have u16: "unat (?X + 16) = unat ?X + 16" by (simp add: unat_word_ariths)
  let ?sz = "s_getSize s"
  have sz: "unat (vx ?sz) = unat (s_Xsize s)" "unat (vy ?sz) = unat (s_Ysize s)" by (simp_all add: s_getSize_def)
  let ?st = "if vx ?sz \<le> ?X + 16 then ?X + 16 - vx ?sz + 1 else 0"
  have xs: "unat (?X + 16 - of_nat x :: u32) < unat (s_Xsize s)" if x: "unat ?st \<le> x" "x < 16" for x :: nat
  proof -
    have ux: "unat (of_nat x :: u32) = x" using x(2) by (simp add: unat_of_nat)
    then have e: "unat (?X + 16 - of_nat x :: u32) = unat ?X + 16 - x" using u16 x(2) by (subst unat_sub) (simp_all add: word_le_nat_alt)
    show ?thesis
    proof (cases "vx ?sz \<le> ?X + 16")
      case True
      then have "unat (?X + 16 - vx ?sz) = unat ?X + 16 - unat (s_Xsize s)" using u16 sz by (simp add: unat_sub)
      moreover have "unat (?X + 16 - vx ?sz) < 2 ^ 17" unfolding calculation using X16(2) by simp
      ultimately have "unat ?st = unat ?X + 16 - unat (s_Xsize s) + 1" unfolding if_P[OF True] by (simp only: unat_plus1)
      then show ?thesis using e x(1) True u16 sz X by (simp add: word_le_nat_alt)
    next
      case False
      then show ?thesis using e u16 sz by (simp add: word_le_nat_alt)
    qed
  qed
  show ?thesis unfolding mouse_draw_def Let_def
  proof (rule draws_for_range)
    fix y t assume y: "y < (28 :: nat)" and t: "drawn s t"
    show "draws t (if vy ?sz \<le> ?Y + of_nat y then Inr t else mouse_draw_line m ?st y t)"
    proof (cases "vy ?sz \<le> ?Y + of_nat y")
      case False
      then have "unat (?Y + of_nat y) < unat (s_Ysize t)" using sz t by (simp add: word_le_nat_alt drawn_def)
      then show ?thesis using False draws_mouse_line[OF drawn_wf[OF t assms(1)], of m y ?st] xs t by (simp add: drawn_def)
    qed simp
  qed
qed

text \<open>
  C39. The mouse. Whatever bytes the mouse sends, the pointer stays on the screen, the packet
  automaton and the ring of click events stay well formed, and drawing the pointer writes only pixels
  of the screen: \<open>Screen::set\<close> never stops the kernel, though the picture of the pointer is larger than
  what is left of the screen near its borders.
\<close>

theorem mouse_on_screen:
  assumes "mouse_ok s m" "screen_wf s" "mouse_bytes s bs m = Inr m'"
  shows "mouse_ok s m' \<and> (\<exists>s'. mouse_draw m' s = Inr s' \<and> drawn s s')"
proof -
  have "mouse_ok s m'" using assms(1,3)
    by (induction bs arbitrary: m) (auto simp: res_simps dest: mouse_handleByte_ok)
  then show ?thesis using draws_mouse[OF assms(2)] by (simp add: draws_def)
qed

definition demo_mouse :: mouse where
  "demo_mouse = mouse_new (replicate 4 me_invalid)"

definition mouse_screen :: screen where
  "mouse_screen = \<lparr>s_Xsize = 20, s_Ysize = 10, s_pitch = 80, s_buffer = replicate 800 0, s_vga = [], s_OK = True\<rparr>"

text \<open>A click and a move of 200 to the right and 100 up on a screen of 20 by 10.\<close>

theorem mouse_on_screen_witness:
  "\<exists>m' s'. mouse_bytes mouse_screen [9, 200, 100] demo_mouse = Inr m' \<and> m_totalX m' = 19 \<and> m_totalY m' = 0 \<and>
    dq_list (m_deque m') = [me_new 19 0 1 0] \<and> mouse_ok mouse_screen m' \<and>
    mouse_draw m' mouse_screen = Inr s' \<and> drawn mouse_screen s'"
proof -
  have "mouse_ok mouse_screen demo_mouse" by (simp add: mouse_ok_def mouse_screen_def demo_mouse_def mouse_new_def dq_new_wf)
  moreover have "screen_wf mouse_screen" by (simp add: screen_wf_def mouse_screen_def)
  moreover have "\<exists>m'. mouse_bytes mouse_screen [9, 200, 100] demo_mouse = Inr m' \<and> m_totalX m' = 19 \<and> m_totalY m' = 0 \<and>
    dq_list (m_deque m') = [me_new 19 0 1 0]"
    by (simp add: mouse_handleByte_def mouse_screen_def demo_mouse_def mouse_new_def mouse_move_def packet_x_def packet_y_def
        dq_new_def dq_push_back_def dq_N_def dq_list_def Let_def me_new_def)
  ultimately show ?thesis using mouse_on_screen by meson
qed

end
