(* ===== verification/Terminal.thy ===== *)
theory Terminal
  imports Events
begin

text \<open>
  Text windows (\<open>src/src/Graphics/TextWindow.cpp\<close>, \<open>TextWindow.h\<close>): a terminal of at most 256
  lines with escape sequences, a line discipline for the keyboard, and drawing. A character is a
  signed byte; the standard containers are lists. The counters of screen rows are natural numbers: a
  line would need \<open>2 ^ 32\<close> characters to wrap one around.
\<close>

section \<open>State\<close>

record format =
  f_fg :: color24
  f_underline :: bool
  f_bg :: color24

record fmchar =
  fc_fmt :: format
  fc_c :: u8

definition format0 :: format where
  "format0 = \<lparr>f_fg = lwhite, f_underline = False, f_bg = black\<rparr>"

definition fmchar0 :: fmchar where
  "fmchar0 = \<lparr>fc_fmt = format0, fc_c = 32\<rparr>"

type_synonym tline = "fmchar list"

text \<open>\<open>Line::write\<close>; \<open>resize\<close> fills with default characters.\<close>

definition line_write :: "nat \<Rightarrow> fmchar \<Rightarrow> tline \<Rightarrow> tline" where
  "line_write i fmc l = (l @ replicate (i + 1 - length l) fmchar0)[i := fmc]"

datatype tstate = NORMAL | WAITINGOB | ESCAPE

record textwin =
  t_offset :: vec2u
  t_size :: vec2u
  t_height :: u8
  t_width :: u8
  t_format :: format
  t_curs :: vec2u
  t_lines :: "tline list"
  t_state :: tstate
  t_stack :: "u32 list"
  t_bright :: bool
  t_input :: bytes
  t_kbd :: bytes
  t_allow :: bool

definition LineNum :: nat where "LineNum = 256"

definition tw_new :: "vec2u \<Rightarrow> vec2u \<Rightarrow> textwin" where
  "tw_new offset sz =
    \<lparr>t_offset = offset, t_size = sz, t_height = ucast ((vy sz - 2) div 16), t_width = ucast ((vx sz - 2) div 8),
     t_format = format0, t_curs = vec 0 0, t_lines = [[]], t_state = NORMAL, t_stack = [], t_bright = False,
     t_input = [], t_kbd = [], t_allow = True\<rparr>"

definition getByNum :: "bool \<Rightarrow> u32 \<Rightarrow> color24 res" where
  "getByNum bright val =
    (let colors = (if bright then [black, red, green, yellow, blue, magenta, cyan, white]
                   else [black, lred, lgreen, lyellow, lblue, lmagenta, lcyan, lwhite]) in
     assertk (val < 8) (Inr (colors ! unat val)))"

section \<open>Writing\<close>

definition tw_newLine :: "textwin \<Rightarrow> textwin" where
  "tw_newLine t =
    (let t = t\<lparr>t_curs := vec 0 (vy (t_curs t))\<rparr>; n = length (t_lines t) in
     if unat (vy (t_curs t) + 1) = n then
       (if n = LineNum then t\<lparr>t_lines := tl (t_lines t) @ [[]]\<rparr>
        else t\<lparr>t_curs := vec 0 (vy (t_curs t) + 1), t_lines := t_lines t @ [[]]\<rparr>)
     else t\<lparr>t_curs := vec 0 (vy (t_curs t) + 1)\<rparr>)"

definition tw_addPrintable :: "u8 \<Rightarrow> textwin \<Rightarrow> textwin res" where
  "tw_addPrintable c t =
    (let y = unat (vy (t_curs t)); x = vx (t_curs t) in
     assertk (y < length (t_lines t))
       (Inr (t\<lparr>t_lines := (t_lines t)[y := line_write (unat x) \<lparr>fc_fmt = t_format t, fc_c = c\<rparr> (t_lines t ! y)],
               t_curs := vec (x + 1) (vy (t_curs t))\<rparr>)))"

text \<open>\<open>error\<close>: the state is \<open>NORMAL\<close> when it calls \<open>putChar('~')\<close>, which is printable.\<close>

definition tw_error :: "textwin \<Rightarrow> textwin res" where
  "tw_error t = bnd (tw_addPrintable 126 (t\<lparr>t_state := NORMAL\<rparr>)) (tw_addPrintable 126)"

definition tw_backspace :: "textwin \<Rightarrow> textwin" where
  "tw_backspace t =
    (let x = vx (t_curs t); y = vy (t_curs t) in
     if x = 0 then t\<lparr>t_curs := vec (ucast (t_width t) - 1) (if 0 < y then y - 1 else y)\<rparr>
     else t\<lparr>t_curs := vec (x - 1) y\<rparr>)"

text \<open>\<open>putChar\<close> in the state \<open>NORMAL\<close>.\<close>

definition tw_normal :: "u8 \<Rightarrow> textwin \<Rightarrow> textwin res" where
  "tw_normal c t =
    (if c = 27 then Inr (t\<lparr>t_state := WAITINGOB\<rparr>)
     else if c = 10 then Inr (tw_newLine t)
     else if c = 9 then for_list (\<lambda>_. tw_addPrintable 32) [0..<unat (4 - vx (t_curs t) mod 4)] t
     else if c = 8 then Inr (tw_backspace t)
     else if c = 13 then Inr (t\<lparr>t_curs := vec 0 (vy (t_curs t))\<rparr>)
     else if c = 12 then
       (let u = tw_newLine t in Inr (u\<lparr>t_curs := vec (vx (t_curs t)) (vy (t_curs u))\<rparr>))
     else if sint c < 32 \<and> - 1 \<le> sint c then tw_error t
     else tw_addPrintable c t)"

text \<open>The escape sequences that end in \<open>m\<close>; the stack holds the numbers before it.\<close>

definition tw_SGR_color :: "(color24 \<Rightarrow> format \<Rightarrow> format) \<Rightarrow> textwin \<Rightarrow> textwin res" where
  "tw_SGR_color upd t =
    (let st = t_stack t in
     if length st < 5 then tw_error t
     else if st ! 1 \<noteq> 2 then tw_error t
     else check (5 < length st) OutOfBounds
       (Inr (t\<lparr>t_format := upd (color (ucast (st ! 5)) (ucast (st ! 4)) (ucast (st ! 3))) (t_format t)\<rparr>)))"

definition tw_SGR :: "textwin \<Rightarrow> textwin res" where
  "tw_SGR t =
    (if t_stack t = [] then Inr (t\<lparr>t_format := format0\<rparr>)
     else let command = t_stack t ! 0; f = t_format t in
       if command = 0 then Inr (t\<lparr>t_format := format0\<rparr>)
       else if command = 1 then Inr (t\<lparr>t_bright := True\<rparr>)
       else if command = 2 then Inr (t\<lparr>t_bright := False\<rparr>)
       else if command = 4 then Inr (t\<lparr>t_format := f\<lparr>f_underline := True\<rparr>\<rparr>)
       else if command = 7 then Inr (t\<lparr>t_format := f\<lparr>f_fg := f_bg f, f_bg := f_fg f\<rparr>\<rparr>)
       else if command = 24 then Inr (t\<lparr>t_format := f\<lparr>f_underline := False\<rparr>\<rparr>)
       else if 30 \<le> command \<and> command \<le> 37 then
         bnd (getByNum (t_bright t) (command - 30)) (\<lambda>c. Inr (t\<lparr>t_format := f\<lparr>f_fg := c\<rparr>\<rparr>))
       else if command = 38 then tw_SGR_color (\<lambda>c f. f\<lparr>f_fg := c\<rparr>) t
       else if command = 39 then Inr (t\<lparr>t_format := f\<lparr>f_fg := lwhite\<rparr>\<rparr>)
       else if 40 \<le> command \<and> command \<le> 47 then
         bnd (getByNum (t_bright t) (command - 40)) (\<lambda>c. Inr (t\<lparr>t_format := f\<lparr>f_bg := c\<rparr>\<rparr>))
       else if command = 48 then tw_SGR_color (\<lambda>c f. f\<lparr>f_bg := c\<rparr>) t
       else if command = 49 then Inr (t\<lparr>t_format := f\<lparr>f_bg := black\<rparr>\<rparr>)
       else Inr t)"

text \<open>After \<open>error\<close> the state is \<open>NORMAL\<close>, so that \<open>putChar(c)\<close> is the case of this state.\<close>

definition tw_putChar :: "u8 \<Rightarrow> textwin \<Rightarrow> textwin res" where
  "tw_putChar c t =
    (case t_state t of
       WAITINGOB \<Rightarrow> if c \<noteq> 91 then bnd (tw_error t) (tw_normal c) else Inr (t\<lparr>t_stack := [0], t_state := ESCAPE\<rparr>)
     | ESCAPE \<Rightarrow>
         if sint c < 32 \<or> 126 < sint c then bnd (tw_error t) (tw_normal c)
         else if 48 \<le> c \<and> c \<le> 57 then
           Inr (t\<lparr>t_stack := butlast (t_stack t) @ [last (t_stack t) * 10 + (ucast c - 48)]\<rparr>)
         else if c = 59 then Inr (t\<lparr>t_stack := t_stack t @ [0]\<rparr>)
         else if c = 109 then bnd (tw_SGR t) (\<lambda>t. Inr (t\<lparr>t_state := NORMAL\<rparr>))
         else bnd (tw_error t) (tw_normal c)
     | NORMAL \<Rightarrow> tw_normal c t)"

definition tw_write :: "bytes \<Rightarrow> textwin \<Rightarrow> (nat \<times> textwin) res" where
  "tw_write buf t =
    (let count = min (length buf) 1024 in
     bnd (for_list tw_putChar (take count buf) t) (\<lambda>t. Inr (count, t)))"

section \<open>The keyboard\<close>

text \<open>\<open>handleEvent\<close>; the boolean says whether it wakes the threads that wait for input (\<open>free()\<close>).\<close>

definition tw_handleEvent :: "event \<Rightarrow> textwin \<Rightarrow> (textwin \<times> bool) res" where
  "tw_handleEvent e t =
    (case e of
       EvKeyboard k \<Rightarrow>
         if kc_symbol k \<noteq> 0 \<and> \<not> sc_release (kc_scan k) \<and> t_allow t then
           (let sym = kc_symbol k in
            if sym = 8 then
              (if t_kbd t \<noteq> [] then
                 bnd (for_list tw_putChar [8, 32, 8] (t\<lparr>t_kbd := butlast (t_kbd t)\<rparr>)) (\<lambda>t. Inr (t, False))
               else Inr (t, False))
            else if sym = 10 then
              bnd (tw_putChar 10 (t\<lparr>t_input := t_input t @ t_kbd t @ [10], t_kbd := []\<rparr>)) (\<lambda>t. Inr (t, True))
            else bnd (tw_putChar sym (t\<lparr>t_kbd := t_kbd t @ [sym]\<rparr>)) (\<lambda>t. Inr (t, False)))
         else Inr (t, False)
     | _ \<Rightarrow> Inr (t, False))"

definition tw_read :: "nat \<Rightarrow> textwin \<Rightarrow> bytes \<times> textwin" where
  "tw_read count t =
    (let n = min (min count 1000) (length (t_input t)) in (take n (t_input t), t\<lparr>t_input := drop n (t_input t)\<rparr>))"

definition tw_setSize :: "vec2u \<Rightarrow> textwin \<Rightarrow> textwin" where
  "tw_setSize v t =
    t\<lparr>t_size := v, t_height := ucast ((vy v - 2) div 16), t_width := (if vx v < 2 then 0 else ucast ((vx v - 2) div 8))\<rparr>"

section \<open>Drawing\<close>

definition tw_rows :: "nat \<Rightarrow> tline \<Rightarrow> nat" where
  "tw_rows w l = (length l + w - 1) div w"

text \<open>The rows that are used, from the last line backwards, at most \<open>h\<close>.\<close>

fun tw_used :: "nat \<Rightarrow> nat \<Rightarrow> tline list \<Rightarrow> nat \<Rightarrow> nat" where
  "tw_used w h [] acc = acc"
| "tw_used w h (l # ls) acc = (let acc = acc + tw_rows w l in if h \<le> acc then h else tw_used w h ls acc)"

type_synonym cell = "nat \<times> nat \<times> fmchar"

text \<open>The rows of one line, the last one first, at the heights below \<open>height\<close>.\<close>

fun tw_line_cells :: "nat \<Rightarrow> tline \<Rightarrow> nat \<Rightarrow> nat \<Rightarrow> cell list \<times> nat" where
  "tw_line_cells w l 0 height = ([], height)"
| "tw_line_cells w l (Suc i) height =
    (if height = 0 then ([], 0)
     else let startx = i * w;
              row = map (\<lambda>x. (x, height - 1, l ! (startx + x))) [0..<min w (length l - startx)];
              (cs, h) = tw_line_cells w l i (height - 1) in (row @ cs, h))"

fun tw_lines_cells :: "nat \<Rightarrow> tline list \<Rightarrow> nat \<Rightarrow> cell list" where
  "tw_lines_cells w [] height = []"
| "tw_lines_cells w (l # ls) height =
    (let (cs, h) = tw_line_cells w l (tw_rows w l) height in cs @ tw_lines_cells w ls h)"

text \<open>The characters \<open>send\<close> draws, with their column and row in the window.\<close>

definition tw_cells :: "textwin \<Rightarrow> cell list" where
  "tw_cells t =
    (let w = unat (t_width t) in
     if w = 0 then [] else tw_lines_cells w (rev (t_lines t)) (tw_used w (unat (t_height t)) (rev (t_lines t)) 0))"

definition tw_drawFMC :: "font \<Rightarrow> vec2u \<Rightarrow> cell \<Rightarrow> screen \<Rightarrow> screen res" where
  "tw_drawFMC font offset cell s =
    (case cell of (px, py, fmc) \<Rightarrow>
       let x = vx offset + of_nat px * 8 + 1; y = vy offset + of_nat py * 16; f = fc_fmt fmc in
       bnd (s_putChar (fc_c fmc) x (y + 1) font (f_fg f) (f_bg f) s) (\<lambda>s.
         if f_underline f then for_range (\<lambda>k. s_set (x + of_nat k) (y + 16) (f_fg f)) 0 8 s else Inr s))"

definition tw_send :: "font \<Rightarrow> textwin \<Rightarrow> screen \<Rightarrow> screen res" where
  "tw_send font t s =
    bnd (s_clear_rect (t_offset t) (t_size t) s) (for_list (tw_drawFMC font (t_offset t)) (tw_cells t))"

section \<open>What a character can do\<close>

definition tw_inv :: "textwin \<Rightarrow> bool" where
  "tw_inv t \<longleftrightarrow> unat (vy (t_curs t)) < length (t_lines t) \<and> length (t_lines t) \<le> LineNum \<and> (t_state t = ESCAPE \<longrightarrow> t_stack t \<noteq> [])"

lemma length_line_write: "length (line_write i c l) = max (length l) (i + 1)"
  by (simp add: line_write_def)

lemma tw_newLine_inv: "tw_inv t \<Longrightarrow> tw_inv (tw_newLine t)"
proof -
  assume i: "tw_inv t"
  then have y: "unat (vy (t_curs t)) < length (t_lines t)" "length (t_lines t) \<le> 256" by (simp_all add: tw_inv_def LineNum_def)
  then have "unat (vy (t_curs t) + 1) = unat (vy (t_curs t)) + 1" by (simp add: unat_word_ariths)
  then show ?thesis using i y by (auto simp: tw_newLine_def tw_inv_def LineNum_def Let_def)
qed

lemma tw_addPrintable_ok:
  assumes "tw_inv t"
  shows "\<exists>u. tw_addPrintable c t = Inr u \<and> tw_inv u \<and> t_state u = t_state t \<and> t_stack u = t_stack t"
  using assms by (simp add: tw_addPrintable_def tw_inv_def Let_def)

lemma tw_error_ok:
  assumes "tw_inv t"
  shows "\<exists>u. tw_error t = Inr u \<and> tw_inv u \<and> t_state u = NORMAL"
proof -
  have "tw_inv (t\<lparr>t_state := NORMAL\<rparr>)" using assms by (simp add: tw_inv_def)
  from tw_addPrintable_ok[OF this] obtain u where u: "tw_addPrintable 126 (t\<lparr>t_state := NORMAL\<rparr>) = Inr u" "tw_inv u" "t_state u = NORMAL"
    by force
  from tw_addPrintable_ok[OF u(2)] u show ?thesis by (force simp: tw_error_def)
qed

lemma for_list_total:
  assumes "P s" "\<And>x s. P s \<Longrightarrow> \<exists>t. f x s = Inr t \<and> P t"
  shows "\<exists>t. for_list f xs s = Inr t \<and> P t"
  using assms(1)
proof (induction xs arbitrary: s)
  case (Cons x xs)
  from assms(2)[OF Cons.prems] obtain t where "f x s = Inr t" "P t" by blast
  with Cons.IH show ?case by auto
qed simp

lemma tw_normal_ok:
  assumes "tw_inv t" "t_state t = NORMAL"
  shows "\<exists>u. tw_normal c t = Inr u \<and> tw_inv u"
proof -
  have "\<exists>u. for_list (\<lambda>_. tw_addPrintable 32) xs t = Inr u \<and> tw_inv u" for xs :: "nat list"
    using tw_addPrintable_ok by (intro for_list_total) (use assms in auto)
  moreover have "tw_inv (tw_backspace t)"
  proof -
    have "unat (y - 1) \<le> unat y" if "0 < y" for y :: u32
      using that by (simp add: unat_minus_one word_gt_0)
    then show ?thesis using assms by (auto simp: tw_backspace_def tw_inv_def Let_def intro: le_less_trans)
  qed
  moreover have "tw_inv (t\<lparr>t_state := WAITINGOB\<rparr>)" "tw_inv (t\<lparr>t_curs := vec 0 (vy (t_curs t))\<rparr>)"
    using assms by (simp_all add: tw_inv_def)
  moreover have "tw_inv ((tw_newLine t)\<lparr>t_curs := vec (vx (t_curs t)) (vy (t_curs (tw_newLine t)))\<rparr>)"
    using tw_newLine_inv[OF assms(1)] by (simp add: tw_inv_def)
  moreover have "\<exists>u. tw_error t = Inr u \<and> tw_inv u" "\<exists>u. tw_addPrintable c t = Inr u \<and> tw_inv u"
    using tw_error_ok[OF assms(1)] tw_addPrintable_ok[OF assms(1)] by blast+
  ultimately show ?thesis using tw_newLine_inv[OF assms(1)] by (auto simp: tw_normal_def Let_def)
qed

text \<open>The stack accesses that leave the vector: a color command with five parameters.\<close>

definition sgr_overrun :: "u8 \<Rightarrow> textwin \<Rightarrow> bool" where
  "sgr_overrun c t \<longleftrightarrow> t_state t = ESCAPE \<and> c = 109 \<and> length (t_stack t) = 5 \<and> t_stack t ! 0 \<in> {38, 48} \<and> t_stack t ! 1 = 2"

lemma tw_SGR_color_ok:
  assumes "tw_inv t" "\<not> (length (t_stack t) = 5 \<and> t_stack t ! 1 = 2)"
  shows "\<exists>u. tw_SGR_color upd t = Inr u \<and> tw_inv u"
proof (cases "length (t_stack t) < 5 \<or> t_stack t ! 1 \<noteq> 2")
  case True
  then show ?thesis using tw_error_ok[OF assms(1)] by (auto simp: tw_SGR_color_def Let_def)
next
  case False
  then have "5 < length (t_stack t)" using assms(2) by simp
  then show ?thesis using False assms(1) by (simp add: tw_SGR_color_def Let_def tw_inv_def)
qed

lemma getByNum_ok: "30 \<le> c \<Longrightarrow> c \<le> 37 \<Longrightarrow> \<exists>k. getByNum b (c - 30) = Inr k"
  and getByNum_ok': "40 \<le> c \<Longrightarrow> c \<le> 47 \<Longrightarrow> \<exists>k. getByNum b (c - 40) = Inr k"
proof -
  have "\<exists>k. getByNum b v = Inr k" if "unat v < 8" for v using that by (simp add: getByNum_def Let_def word_less_nat_alt)
  then show "30 \<le> c \<Longrightarrow> c \<le> 37 \<Longrightarrow> \<exists>k. getByNum b (c - 30) = Inr k" "40 \<le> c \<Longrightarrow> c \<le> 47 \<Longrightarrow> \<exists>k. getByNum b (c - 40) = Inr k"
    by (auto simp: word_le_nat_alt unat_sub)
qed

lemma tw_SGR_ok:
  assumes "tw_inv t" "t_state t = ESCAPE" "\<not> (length (t_stack t) = 5 \<and> t_stack t ! 0 \<in> {38, 48} \<and> t_stack t ! 1 = 2)"
  shows "\<exists>u. tw_SGR t = Inr u \<and> tw_inv u"
proof -
  have f: "tw_inv (t\<lparr>t_format := f\<rparr>)" "tw_inv (t\<lparr>t_bright := b\<rparr>)" for f b using assms(1) by (simp_all add: tw_inv_def)
  show ?thesis
  proof (cases "t_stack t ! 0 \<in> {38, 48}")
    case True
    then have "\<exists>u. tw_SGR_color upd t = Inr u \<and> tw_inv u" for upd using tw_SGR_color_ok[OF assms(1)] assms(3) by blast
    moreover have "t_stack t \<noteq> []" using assms(1,2) by (simp add: tw_inv_def)
    ultimately show ?thesis using True by (auto simp: tw_SGR_def Let_def)
  next
    case False
    then show ?thesis using f assms(1) getByNum_ok[of "t_stack t ! 0" "t_bright t"] getByNum_ok'[of "t_stack t ! 0" "t_bright t"]
      unfolding tw_SGR_def Let_def by auto
  qed
qed

lemma tw_putChar_inv:
  assumes "tw_inv t" "\<not> sgr_overrun c t"
  shows "\<exists>u. tw_putChar c t = Inr u \<and> tw_inv u"
proof -
  from tw_error_ok[OF assms(1)] obtain u where u: "tw_error t = Inr u" "tw_inv u" "t_state u = NORMAL" by blast
  have e: "\<exists>v. bnd (tw_error t) (tw_normal c) = Inr v \<and> tw_inv v" using tw_normal_ok[OF u(2,3)] u(1) by simp
  show ?thesis
  proof (cases "t_state t")
    case NORMAL
    then show ?thesis using tw_normal_ok[OF assms(1)] by (simp add: tw_putChar_def)
  next
    case WAITINGOB
    then show ?thesis using e assms(1) by (simp add: tw_putChar_def tw_inv_def)
  next
    case ESCAPE
    have "\<exists>v. bnd (tw_SGR t) (\<lambda>t. Inr (t\<lparr>t_state := NORMAL\<rparr>)) = Inr v \<and> tw_inv v" if "c = 109"
      using tw_SGR_ok[OF assms(1) ESCAPE] assms(2) that ESCAPE by (force simp: sgr_overrun_def tw_inv_def)
    moreover have "tw_inv (t\<lparr>t_stack := xs @ [x]\<rparr>)" for xs x using assms(1) by (simp add: tw_inv_def)
    ultimately show ?thesis using e ESCAPE by (auto simp: tw_putChar_def)
  qed
qed

lemma putChar_overrun: "tw_inv t \<Longrightarrow> sgr_overrun c t \<Longrightarrow> tw_putChar c t = Inl OutOfBounds"
  by (auto simp: sgr_overrun_def tw_putChar_def tw_SGR_def tw_SGR_color_def Let_def)

text \<open>
  C29. Every byte written to a terminal is handled, whatever came before: \<open>putChar\<close> returns and keeps
  the cursor inside the lines and at most 256 lines, with one exception that is characterised
  exactly. When the byte is the \<open>m\<close> of a color command \<open>38;2;..m\<close> or \<open>48;2;..m\<close> with five
  numbers, the kernel reads past the end of the vector of numbers.
\<close>

theorem putChar_total:
  assumes "tw_inv t"
  shows "(if sgr_overrun c t then tw_putChar c t = Inl OutOfBounds else \<exists>u. tw_putChar c t = Inr u \<and> tw_inv u)"
  using assms tw_putChar_inv putChar_overrun by simp

text \<open>The standard form of the command, red text, has exactly five numbers.\<close>

theorem putChar_total_witness:
  "\<exists>t. for_list tw_putChar [27, 91, 51, 56, 59, 50, 59, 57, 59, 48, 59, 48] (tw_new (vec 0 0) (vec 82 34)) = Inr t \<and>
    tw_inv t \<and> tw_putChar 109 t = Inl OutOfBounds"
proof -
  let ?t = "(tw_new (vec 0 0) (vec 82 34))\<lparr>t_state := ESCAPE, t_stack := [38, 2, 9, 0, 0]\<rparr>"
  have r: "for_list tw_putChar [27, 91, 51, 56, 59, 50, 59, 57, 59, 48, 59, 48] (tw_new (vec 0 0) (vec 82 34)) = Inr ?t"
    by (simp add: tw_putChar_def tw_normal_def tw_new_def Let_def)
  have i: "tw_inv ?t" and o: "sgr_overrun 109 ?t" by (simp_all add: tw_inv_def sgr_overrun_def tw_new_def LineNum_def)
  from putChar_total[OF i, of 109] o have "tw_putChar 109 ?t = Inl OutOfBounds" by simp
  with r i show ?thesis by blast
qed

section \<open>Plain text\<close>

fun lines_of :: "bytes \<Rightarrow> bytes list" where
  "lines_of [] = [[]]"
| "lines_of (c # cs) = (if c = 10 then [] # lines_of cs else (c # hd (lines_of cs)) # tl (lines_of cs))"

definition last_n :: "nat \<Rightarrow> 'a list \<Rightarrow> 'a list" where
  "last_n n xs = drop (length xs - n) xs"

definition plain :: "u8 \<Rightarrow> bool" where
  "plain c \<longleftrightarrow> \<not> (sint c < 32 \<and> - 1 \<le> sint c)"

lemma lines_of_ne [simp]: "lines_of cs \<noteq> []"
  by (cases cs) auto

lemma lines_of_snoc:
  "lines_of (cs @ [c]) = (if c = 10 then lines_of cs @ [[]] else butlast (lines_of cs) @ [last (lines_of cs) @ [c]])"
proof (induction cs)
  case Nil
  then show ?case by simp
next
  case (Cons d cs)
  obtain l ls where l: "lines_of cs = l # ls" by (cases "lines_of cs") auto
  then show ?case using Cons by (auto simp: butlast_append)
qed

lemma lines_of_length: "\<forall>l \<in> set (lines_of cs). length l \<le> length cs"
proof (induction cs)
  case (Cons d cs)
  obtain l ls where "lines_of cs = l # ls" by (cases "lines_of cs") auto
  then show ?case using Cons by auto
qed simp

lemma last_n_snoc: "0 < n \<Longrightarrow> last_n n (xs @ [x]) = (if length xs < n then last_n n xs @ [x] else tl (last_n n xs) @ [x])"
proof (cases "length xs < n")
  case False
  then obtain k where k: "length xs = n + k" using le_Suc_ex by fastforce
  moreover assume "0 < n"
  ultimately show ?thesis using False by (simp add: last_n_def tl_drop drop_Suc)
qed (simp add: last_n_def)

lemma last_n_last: "0 < n \<Longrightarrow> xs \<noteq> [] \<Longrightarrow> last (last_n n xs) = last xs \<and> last_n n xs \<noteq> []"
  by (simp add: last_n_def not_le diff_less)

lemma last_n_change: "0 < n \<Longrightarrow> xs \<noteq> [] \<Longrightarrow> last_n n (butlast xs @ [x]) = butlast (last_n n xs) @ [x]"
  by (simp add: last_n_def butlast_drop)

lemma length_last_n [simp]: "length (last_n n xs) = min n (length xs)"
  by (auto simp: last_n_def)

definition in_format :: "format \<Rightarrow> bytes list \<Rightarrow> tline list" where
  "in_format f ls = map (map (\<lambda>c. \<lparr>fc_fmt = f, fc_c = c\<rparr>)) ls"

text \<open>The state after the text \<open>cs\<close>.\<close>

definition tw_text :: "textwin \<Rightarrow> bytes \<Rightarrow> textwin \<Rightarrow> bool" where
  "tw_text t0 cs t \<longleftrightarrow>
    t = t0\<lparr>t_lines := in_format (t_format t0) (last_n 256 (lines_of cs)),
      t_curs := vec (of_nat (length (last (lines_of cs)))) (of_nat (min 256 (length (lines_of cs)) - 1))\<rparr>"

lemma list_update_last: "xs \<noteq> [] \<Longrightarrow> xs[length xs - 1 := x] = butlast xs @ [x]"
  by (induction xs rule: rev_induct) auto

lemma tw_text_step:
  assumes "tw_text t0 cs t" "t_state t0 = NORMAL" "plain c \<or> c = 10" "length cs < 2 ^ 32"
  shows "\<exists>u. tw_putChar c t = Inr u \<and> tw_text t0 (cs @ [c]) u"
proof -
  let ?L = "last_n 256 (lines_of cs)" and ?n = "length (lines_of cs)"
  have n0: "0 < ?n" by simp
  have y: "unat (vy (t_curs t)) = min 256 ?n - 1" using assms(1) by (simp add: tw_text_def unat_of_nat32)
  have ll: "length (last (lines_of cs)) \<le> length cs" using lines_of_length[of cs] by (metis last_in_set lines_of_ne)
  then have x: "unat (vx (t_curs t)) = length (last (lines_of cs))" using assms(1,4) by (simp add: tw_text_def unat_of_nat32)
  have lens: "length (t_lines t) = min 256 ?n" using assms(1) by (simp add: tw_text_def in_format_def)
  have y1: "unat (vy (t_curs t) + 1) = min 256 ?n" using y n0 by (simp add: unat_word_ariths)
  have st: "t_state t = NORMAL" using assms(1,2) by (simp add: tw_text_def)
  show ?thesis
  proof (cases "c = 10")
    case True
    have vy1: "vy (t_curs t) + 1 = of_nat (min 256 ?n)" using y1 by (simp add: word_unat_eq_iff unat_of_nat32 min.strict_coboundedI1)
    have "tw_putChar c t = Inr (tw_newLine t)" using True st by (simp add: tw_putChar_def tw_normal_def)
    moreover have "tw_text t0 (cs @ [c]) (tw_newLine t)"
    proof (cases "?n < 256")
      case True
      then have m: "min 256 ?n = ?n" "min 256 (Suc ?n) = Suc ?n" by simp_all
      show ?thesis using True assms(1) y1 lens vy1 \<open>c = 10\<close>
        by (simp add: tw_newLine_def tw_text_def LineNum_def lines_of_snoc last_n_snoc in_format_def m)
    next
      case False
      then have "vy (t_curs t) = 255" using y by (simp add: word_unat_eq_iff)
      then show ?thesis using False assms(1) y1 lens \<open>c = 10\<close>
        by (simp add: tw_newLine_def tw_text_def LineNum_def lines_of_snoc last_n_snoc in_format_def min_def map_tl)
    qed
    ultimately show ?thesis by blast
  next
    case False
    then have p: "plain c" using assms(3) by simp
    have sp: "\<not> plain 27" "\<not> plain 9" "\<not> plain 8" "\<not> plain 13" "\<not> plain 12" by (simp_all add: plain_def)
    then have "c \<noteq> 27" "c \<noteq> 9" "c \<noteq> 8" "c \<noteq> 13" "c \<noteq> 12" using p by auto
    then have e: "tw_putChar c t = tw_addPrintable c t" using st p False by (auto simp: tw_putChar_def tw_normal_def plain_def)
    have lst: "t_lines t ! (min 256 ?n - 1) = map (\<lambda>c. \<lparr>fc_fmt = t_format t0, fc_c = c\<rparr>) (last (lines_of cs))"
    proof -
      have "t_lines t ! (length (t_lines t) - 1) = last (t_lines t)" using lens n0 by (metis last_conv_nth length_greater_0_conv min_less_iff_conj zero_less_numeral)
      then show ?thesis using assms(1) lens last_n_last[of 256 "lines_of cs"] by (simp add: tw_text_def in_format_def last_map)
    qed
    have w: "line_write (length l) f (map g l) = map g l @ [f]" for l :: bytes and g f
      by (simp add: line_write_def list_update_append)
    have fm: "t_format t = t_format t0" using assms(1) by (simp add: tw_text_def)
    have "tw_addPrintable c t = Inr (t\<lparr>t_lines := (t_lines t)[min 256 ?n - 1 := map (\<lambda>c. \<lparr>fc_fmt = t_format t0, fc_c = c\<rparr>) (last (lines_of cs) @ [c])],
        t_curs := vec (vx (t_curs t) + 1) (vy (t_curs t))\<rparr>)"
    proof -
      have "min 256 ?n - Suc 0 < 256" "min 256 ?n - Suc 0 < ?n" using n0 by linarith+
      then show ?thesis by (simp add: tw_addPrintable_def Let_def y x lens lst[unfolded One_nat_def] w fm)
    qed
    moreover have "(t_lines t)[min 256 ?n - 1 := map (\<lambda>c. \<lparr>fc_fmt = t_format t0, fc_c = c\<rparr>) (last (lines_of cs) @ [c])] =
      in_format (t_format t0) (last_n 256 (lines_of (cs @ [c])))"
    proof -
      have "t_lines t \<noteq> []" using lens n0 by (metis length_greater_0_conv min_less_iff_conj zero_less_numeral)
      from list_update_last[OF this] show ?thesis using assms(1) lens False
        by (simp add: tw_text_def in_format_def lines_of_snoc last_n_change map_butlast)
    qed
    moreover have "length (lines_of (cs @ [c])) = ?n" using False n0 by (simp add: lines_of_snoc)
    ultimately have "tw_addPrintable c t = Inr (t\<lparr>t_lines := in_format (t_format t0) (last_n 256 (lines_of (cs @ [c]))),
        t_curs := vec (of_nat (length (last (lines_of (cs @ [c]))))) (of_nat (min 256 (length (lines_of (cs @ [c]))) - 1))\<rparr>)"
      using False assms(1) by (simp add: lines_of_snoc tw_text_def)
    then show ?thesis using e assms(1) by (simp add: tw_text_def)
  qed
qed

lemma tw_text_run:
  assumes "tw_text t0 cs t" "t_state t0 = NORMAL" "\<forall>c \<in> set ds. plain c \<or> c = 10" "length cs + length ds \<le> 2 ^ 32"
  shows "\<exists>u. for_list tw_putChar ds t = Inr u \<and> tw_text t0 (cs @ ds) u"
  using assms
proof (induction ds arbitrary: cs t)
  case Nil
  then show ?case by simp
next
  case (Cons d ds)
  then have "length cs < 2 ^ 32" "plain d \<or> d = 10" by simp_all
  from tw_text_step[OF Cons.prems(1,2) this(2,1)] obtain u where u: "tw_putChar d t = Inr u" "tw_text t0 (cs @ [d]) u" by blast
  from Cons.IH[OF u(2)] Cons.prems u(1) show ?case by simp
qed

text \<open>
  C19. Text in a terminal. When a program writes plain text (printable characters and newlines) in
  any number of calls of at most 1024 bytes, every call takes all its bytes, and the lines of the window
  are the last 256 lines of the whole text, in the format in force, with the cursor behind the last
  character.
\<close>

theorem terminal_shows_text:
  assumes "\<forall>b \<in> set bufs. length b \<le> 1024 \<and> (\<forall>c \<in> set b. plain c \<or> c = 10)" "length (concat bufs) \<le> 2 ^ 32"
  shows "\<exists>t. for_list (\<lambda>b t. bnd (tw_write b t) (\<lambda>(n, t). check (n = length b) Bsod (Inr t))) bufs (tw_new offset sz) = Inr t \<and>
    map (map fc_c) (t_lines t) = last_n 256 (lines_of (concat bufs)) \<and> (\<forall>l \<in> set (t_lines t). \<forall>f \<in> set l. fc_fmt f = format0) \<and>
    t_curs t = vec (of_nat (length (last (lines_of (concat bufs))))) (of_nat (length (t_lines t) - 1))"
proof -
  let ?t0 = "tw_new offset sz"
  let ?f = "\<lambda>b t. bnd (tw_write b t) (\<lambda>(n, t). check (n = length b) Bsod (Inr t))"
  have run: "\<exists>u. for_list ?f bs t = Inr u \<and> tw_text ?t0 (cs @ concat bs) u"
    if "tw_text ?t0 cs t" "\<forall>b \<in> set bs. length b \<le> 1024 \<and> (\<forall>c \<in> set b. plain c \<or> c = 10)" "length cs + length (concat bs) \<le> 2 ^ 32" for cs bs t
    using that
  proof (induction bs arbitrary: cs t)
    case Nil
    then show ?case by simp
  next
    case (Cons b bs)
    then have "\<forall>c \<in> set b. plain c \<or> c = 10" "length cs + length b \<le> 2 ^ 32" by simp_all
    from tw_text_run[OF Cons.prems(1) _ this] obtain u where u: "for_list tw_putChar b t = Inr u" "tw_text ?t0 (cs @ b) u"
      by (auto simp: tw_new_def)
    have "?f b t = Inr u" using u(1) Cons.prems(2) by (simp add: tw_write_def Let_def)
    then show ?case using Cons.IH[OF u(2)] Cons.prems by simp
  qed
  have "tw_text ?t0 [] ?t0" by (simp add: tw_text_def tw_new_def in_format_def last_n_def)
  from run[OF this assms(1)] assms(2) obtain t where t: "for_list ?f bufs ?t0 = Inr t" "tw_text ?t0 (concat bufs) t" by auto
  have m: "map (\<lambda>x. map (\<lambda>c. c) x) xs = (xs :: bytes list)" for xs by simp
  have "map (map fc_c) (t_lines t) = last_n 256 (lines_of (concat bufs))"
    using t(2) by (simp add: tw_text_def in_format_def comp_def)
  moreover have "\<forall>l \<in> set (t_lines t). \<forall>f \<in> set l. fc_fmt f = format0"
    using t(2) by (auto simp: tw_text_def in_format_def tw_new_def)
  moreover have "t_curs t = vec (of_nat (length (last (lines_of (concat bufs))))) (of_nat (length (t_lines t) - 1))"
    using t(2) by (simp add: tw_text_def in_format_def)
  ultimately show ?thesis using t(1) by blast
qed

theorem terminal_shows_text_witness:
  "\<exists>t. for_list (\<lambda>b t. bnd (tw_write b t) (\<lambda>(n, t). check (n = length b) Bsod (Inr t))) [[72, 105, 10], [33]] (tw_new (vec 0 0) (vec 100 100)) = Inr t \<and>
    map (map fc_c) (t_lines t) = [[72, 105], [33]] \<and> t_curs t = vec 1 1"
proof -
  have p: "plain 72" "plain 105" "plain 33" by (simp_all add: plain_def)
  have l: "lines_of [72, 105, 10, 33] = [[72, 105], [33]]" by simp
  from terminal_shows_text[of "[[72, 105, 10], [33]]" "vec 0 0" "vec 100 100"] p obtain t where
    t: "for_list (\<lambda>b t. bnd (tw_write b t) (\<lambda>(n, t). check (n = length b) Bsod (Inr t))) [[72, 105, 10], [33]] (tw_new (vec 0 0) (vec 100 100)) = Inr t"
    "map (map fc_c) (t_lines t) = [[72, 105], [33]]" "t_curs t = vec 1 (of_nat (length (t_lines t) - 1))"
    by (auto simp: l last_n_def simp del: lines_of.simps for_list.simps)
  have "length (map (map fc_c) (t_lines t)) = 2" unfolding t(2) by simp
  then have "length (t_lines t) = 2" by simp
  then show ?thesis using t by auto
qed

section \<open>What the screen shows\<close>

definition chunks :: "nat \<Rightarrow> tline \<Rightarrow> tline list" where
  "chunks w l = map (\<lambda>i. take w (drop (i * w) l)) [0..<tw_rows w l]"

definition row_cells :: "tline \<Rightarrow> nat \<Rightarrow> cell list" where
  "row_cells row r = map (\<lambda>x. (x, r, row ! x)) [0..<length row]"

fun cells_down :: "tline list \<Rightarrow> nat \<Rightarrow> cell list" where
  "cells_down [] h = []"
| "cells_down (row # rows) h = (if h = 0 then [] else row_cells row (h - 1) @ cells_down rows (h - 1))"

lemma cells_down_0 [simp]: "cells_down rs 0 = []"
  by (cases rs) auto

lemma cells_down_append: "cells_down (rs @ rs') h = cells_down rs h @ cells_down rs' (h - length rs)"
  by (induction rs arbitrary: h) auto

lemma tw_line_cells_eq:
  "tw_line_cells w l n h = (cells_down (rev (map (\<lambda>i. take w (drop (i * w) l)) [0..<n])) h, h - n)"
proof (induction n arbitrary: h)
  case 0
  then show ?case by simp
next
  case (Suc n)
  have "map (\<lambda>x. (x, h - 1, l ! (n * w + x))) [0..<min w (length l - n * w)] = row_cells (take w (drop (n * w) l)) (h - 1)"
    unfolding row_cells_def by (intro map_cong) (auto simp: min.commute)
  then show ?case using Suc by (simp add: Let_def)
qed

lemma tw_lines_cells_eq: "tw_lines_cells w ls h = cells_down (concat (map (\<lambda>l. rev (chunks w l)) ls)) h"
proof (induction ls arbitrary: h)
  case (Cons l ls)
  then show ?case by (simp add: tw_line_cells_eq chunks_def cells_down_append)
qed simp

lemma tw_used_eq: "acc \<le> h \<Longrightarrow> tw_used w h ls acc = min h (acc + sum_list (map (tw_rows w) ls))"
  by (induction ls arbitrary: acc) (auto simp: Let_def)

lemma cells_down_upt: "k \<le> length rr \<Longrightarrow> cells_down rr k = concat (map (\<lambda>r. row_cells (rr ! (k - 1 - r)) r) (rev [0..<k]))"
proof (induction k arbitrary: rr)
  case (Suc k)
  then obtain row rs where rr: "rr = row # rs" by (cases rr) auto
  have "concat (map (\<lambda>r. row_cells ((row # rs) ! (k - r)) r) (rev [0..<k])) = concat (map (\<lambda>r. row_cells (rs ! (k - Suc r)) r) (rev [0..<k]))"
    by (intro arg_cong[of _ _ concat] map_cong refl) (auto simp: nth_Cons')
  then show ?case using Suc.IH[of rs] Suc.prems by (simp add: rr)
qed simp

text \<open>The rows of the text, wrapped at the width of the window, and those of them that fit.\<close>

definition text_rows :: "textwin \<Rightarrow> tline list" where
  "text_rows t = concat (map (chunks (unat (t_width t))) (t_lines t))"

definition visible_rows :: "textwin \<Rightarrow> tline list" where
  "visible_rows t = last_n (unat (t_height t)) (text_rows t)"

lemma length_text_rows: "length (text_rows t) = sum_list (map (tw_rows (unat (t_width t))) (t_lines t))"
  by (simp add: text_rows_def length_concat chunks_def comp_def)

text \<open>What a terminal shows. The characters that \<open>send\<close> draws are exactly those of the last rows of
  the text that fit into the window, each once and at its place: the row \<open>r\<close> of the window shows the
  row \<open>r\<close> of the visible part, wrapped at the width of the window, column by column. (An empty
  line has no row: it is not shown at all.)
\<close>

theorem send_shows_last_rows:
  assumes "t_width t \<noteq> 0"
  shows "tw_cells t = concat (map (\<lambda>r. map (\<lambda>x. (x, r, visible_rows t ! r ! x)) [0..<length (visible_rows t ! r)])
    (rev [0..<length (visible_rows t)]))"
proof -
  let ?w = "unat (t_width t)" and ?h = "unat (t_height t)"
  let ?k = "length (visible_rows t)"
  have w: "?w \<noteq> 0" using assms by (simp add: unat_eq_zero)
  have rr: "concat (map (\<lambda>l. rev (chunks ?w l)) (rev (t_lines t))) = rev (text_rows t)"
    by (simp add: text_rows_def rev_concat rev_map comp_def)
  have "tw_used ?w ?h (rev (t_lines t)) 0 = ?k"
    by (simp add: tw_used_eq visible_rows_def length_text_rows rev_map[symmetric] sum_list_rev)
  then have c: "tw_cells t = cells_down (rev (text_rows t)) ?k" using w by (simp add: tw_cells_def tw_lines_cells_eq rr)
  have "?k \<le> length (rev (text_rows t))" by (simp add: visible_rows_def)
  moreover have "rev (text_rows t) ! (?k - 1 - r) = visible_rows t ! r" if "r < ?k" for r
  proof -
    have k: "?k = min ?h (length (text_rows t))" by (simp add: visible_rows_def)
    have "length (text_rows t) - Suc (?k - 1 - r) = length (text_rows t) - ?k + r" using that k by simp
    then show ?thesis using that k by (simp add: rev_nth visible_rows_def last_n_def min_def split: if_splits)
  qed
  ultimately show ?thesis unfolding c
    by (subst cells_down_upt) (auto simp: row_cells_def intro!: arg_cong[of _ _ concat] map_cong)
qed

definition demo_tw :: textwin where
  "demo_tw = (tw_new (vec 0 0) (vec 26 34))\<lparr>t_lines := map (map (\<lambda>c. \<lparr>fc_fmt = format0, fc_c = c\<rparr>)) [[65], [66, 67, 68, 69], []]\<rparr>"

text \<open>A window of three columns and two rows.\<close>

theorem send_shows_last_rows_witness:
  "map (\<lambda>(x, y, f). (x, y, fc_c f)) (tw_cells demo_tw) = [(0, 1, 69), (0, 0, 66), (1, 0, 67), (2, 0, 68)]"
proof -
  have d: "t_width demo_tw = 3" "t_height demo_tw = 2" by (simp_all add: demo_tw_def tw_new_def)
  have v: "map (map fc_c) (visible_rows demo_tw) = [[66, 67, 68], [69]]"
    by (simp add: visible_rows_def text_rows_def d last_n_def) (simp add: demo_tw_def chunks_def tw_rows_def upt_conv_Cons)
  then obtain a b where ab: "visible_rows demo_tw = [a, b]" "map fc_c a = [66, 67, 68]" "map fc_c b = [69]" by auto
  then show ?thesis using send_shows_last_rows[of demo_tw] d by auto
qed

section \<open>Drawing a terminal\<close>

definition tw_fits :: "textwin \<Rightarrow> bool" where
  "tw_fits t \<longleftrightarrow> 8 * unat (t_width t) + 2 \<le> unat (vx (t_size t)) \<and> 16 * unat (t_height t) + 2 \<le> unat (vy (t_size t))"

lemma unat_ucast8_le: "unat (ucast (x :: u32) :: u8) \<le> unat x"
  by (simp add: unsigned_ucast_eq take_bit_nat_less_eq_self)

lemma tw_new_fits: "2 \<le> vx sz \<Longrightarrow> 2 \<le> vy sz \<Longrightarrow> tw_fits (tw_new off sz)"
proof -
  assume a: "2 \<le> vx sz" "2 \<le> vy sz"
  have "unat ((x - 2) div 8) = (unat x - 2) div 8" "unat ((x - 2) div 16) = (unat x - 2) div 16" if "2 \<le> x" for x :: u32
    using that by (simp_all add: unat_div unat_sub)
  note d = this(1)[OF a(1)] this(2)[OF a(2)]
  have "8 * unat (ucast ((vx sz - 2) div 8) :: u8) \<le> unat (vx sz) - 2" "16 * unat (ucast ((vy sz - 2) div 16) :: u8) \<le> unat (vy sz) - 2"
    using unat_ucast8_le[of "(vx sz - 2) div 8"] unat_ucast8_le[of "(vy sz - 2) div 16"] unfolding d by linarith+
  moreover have "2 \<le> unat (vx sz)" "2 \<le> unat (vy sz)" using a by (simp_all add: word_le_nat_alt)
  ultimately have "8 * unat (ucast ((vx sz - 2) div 8) :: u8) + 2 \<le> unat (vx sz)" "16 * unat (ucast ((vy sz - 2) div 16) :: u8) + 2 \<le> unat (vy sz)"
    by linarith+
  then show ?thesis by (simp add: tw_fits_def tw_new_def)
qed

lemma tw_cells_inside:
  assumes "(x, y, f) \<in> set (tw_cells t)"
  shows "x < unat (t_width t) \<and> y < unat (t_height t)"
proof -
  have w: "t_width t \<noteq> 0" using assms by (auto simp: tw_cells_def Let_def)
  let ?w = "unat (t_width t)" and ?h = "unat (t_height t)"
  have "?w \<noteq> 0" using w by (simp add: unat_eq_zero)
  then have m: "tw_cells t = cells_down (concat (map (\<lambda>l. rev (chunks ?w l)) (rev (t_lines t)))) (tw_used ?w ?h (rev (t_lines t)) 0)"
    by (simp add: tw_cells_def tw_lines_cells_eq Let_def)
  have c: "(x, y, f) \<in> set (cells_down rs h) \<Longrightarrow> \<forall>r \<in> set rs. length r \<le> ?w \<Longrightarrow> x < ?w \<and> y < h" for rs h
    by (induction rs arbitrary: h) (auto simp: row_cells_def split: if_splits, fastforce)
  have "\<forall>r \<in> set (concat (map (\<lambda>l. rev (chunks ?w l)) (rev (t_lines t)))). length r \<le> ?w" by (auto simp: chunks_def)
  from c[OF assms[unfolded m] this] show ?thesis using tw_used_eq[of 0 ?h ?w "rev (t_lines t)"] by simp
qed

lemma draws_FMC:
  assumes "screen_wf s" "on_screen s off sz" "8 * (px + 1) + 2 \<le> unat (vx sz)" "16 * (py + 1) + 2 \<le> unat (vy sz)"
  shows "draws s (tw_drawFMC font off (px, py, fmc) s)"
proof -
  let ?x = "vx off + of_nat px * 8 + 1 :: u32" and ?y = "vy off + of_nat py * 16 :: u32"
  have b: "unat (vx off) + 8 * (px + 1) + 2 \<le> unat (s_Xsize s)" "unat (vy off) + 16 * (py + 1) + 2 \<le> unat (s_Ysize s)"
    using assms(2-4) unfolding on_screen_def by linarith+
  have l: "unat (s_Xsize s) < 65536" "unat (s_Ysize s) < 65536" using unat_lt16[of "s_Xsize s"] unat_lt16[of "s_Ysize s"] by simp_all
  have p: "unat (of_nat px :: u32) = px" "unat (of_nat py :: u32) = py" using b l by (auto intro!: unat_of_nat32)
  have x: "unat ?x = unat (vx off) + px * 8 + 1" using b l p by (simp add: unat_word_ariths)
  have y: "unat ?y = unat (vy off) + py * 16" "unat (?y + 1) = unat (vy off) + py * 16 + 1" "unat (?y + 16) = unat (vy off) + py * 16 + 16"
    using b l p by (simp_all add: unat_word_ariths)
  have under: "draws t (for_range (\<lambda>k. s_set (?x + of_nat k) (?y + 16) c) 0 8 t)" if t: "drawn s t" for t c
  proof (rule draws_for_range)
    fix k u assume k: "k < (8 :: nat)" and u: "drawn t u"
    have su: "drawn s u" by (rule drawn_trans[OF t u])
    have "unat (of_nat k :: u32) = k" using k by (simp add: unat_of_nat)
    then have "unat (?x + of_nat k) = unat (vx off) + px * 8 + 1 + k" using x b l k by (simp add: unat_word_ariths)
    then show "draws u (s_set (?x + of_nat k) (?y + 16) c u)"
      using k b y(3) drawn_wf[OF su assms(1)] su by (intro draws_set) (simp_all add: drawn_def)
  qed
  have "draws s (s_putChar (fc_c fmc) ?x (?y + 1) font (f_fg (fc_fmt fmc)) (f_bg (fc_fmt fmc)) s)"
    using x y b by (intro draws_putChar[OF assms(1)]) simp_all
  then show ?thesis unfolding tw_drawFMC_def prod.case Let_def
    by (rule draws_bnd) (use under in auto)
qed

lemma draws_tw_send:
  assumes "screen_wf s" "on_screen s (t_offset t) (t_size t)" "tw_fits t"
  shows "draws s (tw_send font t s)"
  unfolding tw_send_def
proof (rule draws_bnd)
  show "draws s (s_clear_rect (t_offset t) (t_size t) s)" by (rule draws_clear_rect[OF assms(1,2)])
  fix u assume u: "drawn s u"
  show "draws u (for_list (tw_drawFMC font (t_offset t)) (tw_cells t) u)"
  proof (rule draws_for_list)
    fix c v assume c: "c \<in> set (tw_cells t)" and v: "drawn u v"
    obtain x y f where [simp]: "c = (x, y, f)" by (cases c)
    have "x < unat (t_width t)" "y < unat (t_height t)" using tw_cells_inside c by simp_all
    then have "8 * (x + 1) + 2 \<le> unat (vx (t_size t))" "16 * (y + 1) + 2 \<le> unat (vy (t_size t))"
      using assms(3) by (simp_all add: tw_fits_def)
    then show "draws v (tw_drawFMC font (t_offset t) c v)"
      using draws_FMC[OF drawn_wf[OF drawn_trans[OF u v] assms(1)]] on_screen_drawn[OF drawn_trans[OF u v]] assms(2) by simp
  qed
qed

section \<open>The line discipline\<close>

definition tw_echo :: "textwin \<Rightarrow> textwin \<Rightarrow> bool" where
  "tw_echo t u \<longleftrightarrow> tw_inv u \<and> t_state u = NORMAL \<and> t_input u = t_input t \<and> t_kbd u = t_kbd t \<and> t_allow u = t_allow t"

lemma tw_echo_trans: "tw_echo t u \<Longrightarrow> tw_echo u v \<Longrightarrow> tw_echo t v"
  by (simp add: tw_echo_def)

lemma tw_addPrintable_echo:
  assumes "tw_inv t" "t_state t = NORMAL"
  shows "\<exists>u. tw_addPrintable c t = Inr u \<and> tw_echo t u"
  using assms by (simp add: tw_addPrintable_def tw_inv_def tw_echo_def Let_def)

lemma tw_error_echo:
  assumes "tw_inv t" "t_state t = NORMAL"
  shows "\<exists>u. tw_error t = Inr u \<and> tw_echo t u"
proof -
  have "tw_echo t (t\<lparr>t_state := NORMAL\<rparr>)" "tw_inv (t\<lparr>t_state := NORMAL\<rparr>)" using assms by (simp_all add: tw_inv_def tw_echo_def)
  moreover from tw_addPrintable_echo[OF this(2)] obtain u where "tw_addPrintable 126 (t\<lparr>t_state := NORMAL\<rparr>) = Inr u" "tw_echo (t\<lparr>t_state := NORMAL\<rparr>) u" by auto
  moreover from tw_addPrintable_echo[of u] this(2) obtain v where "tw_addPrintable 126 u = Inr v" "tw_echo u v" by (auto simp: tw_echo_def)
  ultimately show ?thesis by (auto simp: tw_error_def intro: tw_echo_trans)
qed

lemma tw_putChar_echo:
  assumes "tw_inv t" "t_state t = NORMAL" "c \<noteq> 27"
  shows "\<exists>u. tw_putChar c t = Inr u \<and> tw_echo t u"
proof -
  have tab: "\<exists>u. for_list (\<lambda>_. tw_addPrintable 32) xs t = Inr u \<and> tw_echo t u" for xs :: "nat list"
  proof (rule for_list_total)
    show "tw_echo t t" using assms by (simp add: tw_echo_def)
    fix x :: nat and s assume "tw_echo t s"
    then show "\<exists>u. tw_addPrintable 32 s = Inr u \<and> tw_echo t u" using tw_addPrintable_echo[of s 32] tw_echo_trans
      by (metis tw_echo_def)
  qed
  from tw_normal_ok[OF assms(1,2), of c] obtain u where u: "tw_normal c t = Inr u" "tw_inv u" by blast
  have nl: "t_state (tw_newLine t) = NORMAL" "t_input (tw_newLine t) = t_input t" "t_kbd (tw_newLine t) = t_kbd t" "t_allow (tw_newLine t) = t_allow t"
    using assms(2) by (simp_all add: tw_newLine_def Let_def)
  have bs: "t_state (tw_backspace t) = NORMAL" "t_input (tw_backspace t) = t_input t" "t_kbd (tw_backspace t) = t_kbd t" "t_allow (tw_backspace t) = t_allow t"
    using assms(2) by (simp_all add: tw_backspace_def Let_def)
  have "tw_echo t u"
    using u tab[of "[0..<unat (4 - vx (t_curs t) mod 4)]"] tw_error_echo[OF assms(1,2)] tw_addPrintable_echo[OF assms(1,2), of c] nl bs assms(2,3)
    by (auto simp: tw_normal_def Let_def tw_echo_def split: if_splits)
  then show ?thesis using u(1) assms(2) by (simp add: tw_putChar_def)
qed

lemma tw_echo_list:
  assumes "tw_inv t" "t_state t = NORMAL" "27 \<notin> set cs"
  shows "\<exists>u. for_list tw_putChar cs t = Inr u \<and> tw_echo t u"
  using assms
proof (induction cs arbitrary: t)
  case Nil
  then show ?case by (simp add: tw_echo_def)
next
  case (Cons c cs)
  from tw_putChar_echo[OF Cons.prems(1,2), of c] Cons.prems(3) obtain u where u: "tw_putChar c t = Inr u" "tw_echo t u" by auto
  have "tw_inv u" "t_state u = NORMAL" using u(2) by (simp_all add: tw_echo_def)
  from Cons.IH[OF this] Cons.prems(3) obtain v where "for_list tw_putChar cs u = Inr v" "tw_echo u v" by auto
  then show ?case using u(1) tw_echo_trans[OF u(2)] by simp
qed

text \<open>The specification: the lines that are committed and the line being edited.\<close>

fun edit :: "u8 \<Rightarrow> bytes \<times> bytes \<Rightarrow> bytes \<times> bytes" where
  "edit c (inp, line) =
    (if c = 8 then (inp, butlast line) else if c = 10 then (inp @ line @ [10], []) else (inp, line @ [c]))"

definition typed :: "event \<Rightarrow> bytes" where
  "typed e = (case e of EvKeyboard k \<Rightarrow> if kc_symbol k \<noteq> 0 \<and> \<not> sc_release (kc_scan k) then [kc_symbol k] else [] | _ \<Rightarrow> [])"

fun tw_events :: "event list \<Rightarrow> textwin \<Rightarrow> (textwin \<times> bool) res" where
  "tw_events [] t = Inr (t, False)"
| "tw_events (e # es) t = bnd (tw_handleEvent e t) (\<lambda>(t, b). bnd (tw_events es t) (\<lambda>(t, b'). Inr (t, b \<or> b')))"

lemma tw_handleEvent_edit:
  assumes "tw_inv t" "t_state t = NORMAL" "t_allow t" "27 \<notin> set (typed e)"
  shows "\<exists>u. tw_handleEvent e t = Inr (u, 10 \<in> set (typed e)) \<and> tw_inv u \<and> t_state u = NORMAL \<and> t_allow u \<and>
    (t_input u, t_kbd u) = fold edit (typed e) (t_input t, t_kbd t)"
proof (cases "typed e")
  case Nil
  then show ?thesis using assms by (auto simp: tw_handleEvent_def typed_def split: event.splits if_splits)
next
  case (Cons c cs)
  then obtain k where k: "e = EvKeyboard k" "kc_symbol k \<noteq> 0" "\<not> sc_release (kc_scan k)" "c = kc_symbol k" "cs = []"
    by (auto simp: typed_def split: event.splits if_splits)
  then have c27: "c \<noteq> 27" using assms(4) Cons by simp
  have upd: "tw_inv (t\<lparr>t_kbd := kb\<rparr>)" "tw_inv (t\<lparr>t_input := i, t_kbd := kb\<rparr>)" for i kb using assms(1) by (simp_all add: tw_inv_def)
  consider "c = 8" "t_kbd t = []" | "c = 8" "t_kbd t \<noteq> []" | "c = 10" | "c \<noteq> 8" "c \<noteq> 10" by blast
  then show ?thesis
  proof cases
    case 1
    then show ?thesis using assms k Cons by (simp add: tw_handleEvent_def Let_def)
  next
    case 2
    from tw_echo_list[OF upd(1)[of "butlast (t_kbd t)"], of "[8, 32, 8]"] assms(2) obtain u where
      "for_list tw_putChar [8, 32, 8] (t\<lparr>t_kbd := butlast (t_kbd t)\<rparr>) = Inr u" "tw_echo (t\<lparr>t_kbd := butlast (t_kbd t)\<rparr>) u" by auto
    then show ?thesis using assms k Cons 2 by (simp add: tw_handleEvent_def Let_def tw_echo_def)
  next
    case 3
    from tw_putChar_echo[OF upd(2)[where i = "t_input t @ t_kbd t @ [10]" and kb = "[]"], of 10] assms(2) obtain u where
      "tw_putChar 10 (t\<lparr>t_input := t_input t @ t_kbd t @ [10], t_kbd := []\<rparr>) = Inr u"
      "tw_echo (t\<lparr>t_input := t_input t @ t_kbd t @ [10], t_kbd := []\<rparr>) u" by auto
    then show ?thesis using assms k Cons 3 by (simp add: tw_handleEvent_def Let_def tw_echo_def)
  next
    case 4
    from tw_putChar_echo[OF upd(1)[of "t_kbd t @ [c]"], of c] assms(2) c27 obtain u where
      "tw_putChar c (t\<lparr>t_kbd := t_kbd t @ [c]\<rparr>) = Inr u" "tw_echo (t\<lparr>t_kbd := t_kbd t @ [c]\<rparr>) u" by auto
    then show ?thesis using assms k Cons 4 by (simp add: tw_handleEvent_def Let_def tw_echo_def)
  qed
qed

text \<open>
  C30. Typing into a terminal. On any sequence of events the terminal edits its line as specified:
  characters are appended, backspace removes the last one of the line that is not committed (and
  nothing when the line is empty), the enter key commits the line with its newline and is the only
  key that wakes the readers; \<open>read\<close> then takes committed characters only, in order and at most
  1000 at once. The echo never fails.
\<close>

theorem terminal_edits_lines:
  assumes "tw_inv t" "t_state t = NORMAL" "t_allow t" "27 \<notin> set (concat (map typed es))"
  shows "\<exists>u. tw_events es t = Inr (u, 10 \<in> set (concat (map typed es))) \<and>
    (t_input u, t_kbd u) = fold edit (concat (map typed es)) (t_input t, t_kbd t) \<and>
    fst (tw_read n u) = take (min n 1000) (t_input u) \<and> t_input (snd (tw_read n u)) = drop (min n 1000) (t_input u)"
proof -
  have "\<exists>u. tw_events es t = Inr (u, 10 \<in> set (concat (map typed es))) \<and>
    (t_input u, t_kbd u) = fold edit (concat (map typed es)) (t_input t, t_kbd t)"
    using assms
  proof (induction es arbitrary: t)
    case (Cons e es)
    from tw_handleEvent_edit[OF Cons.prems(1-3), of e] Cons.prems(4) obtain u where
      u: "tw_handleEvent e t = Inr (u, 10 \<in> set (typed e))" "tw_inv u" "t_state u = NORMAL" "t_allow u"
        "(t_input u, t_kbd u) = fold edit (typed e) (t_input t, t_kbd t)" by auto
    from Cons.IH[OF u(2-4)] Cons.prems(4) obtain v where
      "tw_events es u = Inr (v, 10 \<in> set (concat (map typed es)))"
      "(t_input v, t_kbd v) = fold edit (concat (map typed es)) (t_input u, t_kbd u)" by auto
    then show ?case using u(1,5) by simp
  qed simp
  then show ?thesis by (auto simp: tw_read_def Let_def min_def)
qed

definition key :: "u8 \<Rightarrow> event" where
  "key c = EvKeyboard \<lparr>kc_state = no_keys, kc_symbol = c, kc_scan = escan 30 False True\<rparr>"

theorem terminal_edits_lines_witness:
  "\<exists>u. tw_events [key 97, key 98, key 8, key 99, key 10, key 100] (tw_new (vec 0 0) (vec 100 100)) = Inr (u, True) \<and>
    t_input u = [97, 99, 10] \<and> t_kbd u = [100] \<and> fst (tw_read 5 u) = [97, 99, 10]"
proof -
  let ?t = "tw_new (vec 0 0) (vec 100 100)"
  have k: "typed (key c) = (if c = 0 then [] else [c])" for c by (simp add: typed_def key_def escan_def)
  have i: "tw_inv ?t" "t_state ?t = NORMAL" "t_allow ?t" "t_input ?t = []" "t_kbd ?t = []"
    by (simp_all add: tw_inv_def tw_new_def LineNum_def)
  show ?thesis using terminal_edits_lines[OF i(1-3), of "[key 97, key 98, key 8, key 99, key 10, key 100]" 5]
    by (auto simp: k i(4,5) simp del: tw_events.simps)
qed

end
