(* ===== verification/Windows.thy ===== *)
theory Windows
  imports Terminal "HOL-Library.Multiset"
begin

text \<open>
  Windows and workspaces (\<open>src/src/Graphics/Window.cpp\<close>, \<open>GraphWindow.cpp\<close>, \<open>Workspace.cpp\<close>)
  and the part of \<open>kloop\<close> (\<open>kmain.cpp\<close>) that feeds them with input. A window is a pointer, a
  natural number; \<open>gu_win\<close> is the store of the windows that exist, so that a workspace and a file
  descriptor can refer to the same one. The virtual functions of \<open>Window\<close> are case distinctions
  over the two kinds of window.
\<close>

section \<open>Windows of pixels\<close>

record gwin =
  g_offset :: vec2u
  g_size :: vec2u
  g_buffer :: bytes
  g_events :: "event list"

definition gw_new :: "vec2u \<Rightarrow> vec2u \<Rightarrow> gwin" where
  "gw_new offset sz = \<lparr>g_offset = offset, g_size = sz, g_buffer = replicate (4 * unat (v_area sz)) 0, g_events = []\<rparr>"

definition gw_setSize :: "vec2u \<Rightarrow> gwin \<Rightarrow> gwin res" where
  "gw_setSize v g =
    (if v_area (g_size g) < v_area v then Inr (g\<lparr>g_size := v, g_buffer := replicate (4 * unat (v_area v)) 0\<rparr>)
     else bnd (put_bytes 0 (replicate (unat (4 * v_area v)) 0) (g_buffer g)) (\<lambda>b. Inr (g\<lparr>g_size := v, g_buffer := b\<rparr>)))"

definition gw_send :: "gwin \<Rightarrow> screen \<Rightarrow> screen res" where
  "gw_send g =
    (let o' = g_offset g; z = g_size g in
     for_range (\<lambda>i. s_writeLine (of_nat i) (vx o') (vx z) (4 * unat ((of_nat i - vy o') * vx z)) (g_buffer g))
       (unat (vy o')) (unat (vy z + vy o')))"

text \<open>\<open>draw\<close> copies \<open>size.x\<close> bytes of every line, a quarter of its pixels.\<close>

definition gw_draw :: "vec2u \<Rightarrow> vec2u \<Rightarrow> bytes \<Rightarrow> gwin \<Rightarrow> gwin res" where
  "gw_draw offset sz buf g =
    bnd (for_range (\<lambda>i b. copy_bytes (4 * unat (of_nat i * vx sz :: u32)) buf (unat (vx sz))
        (4 * (unat ((of_nat i + vy offset) * vx (g_size g)) + unat (vx offset))) b) 0 (unat (vy sz)) (g_buffer g))
      (\<lambda>b. Inr (g\<lparr>g_buffer := b\<rparr>))"

definition gw_getEvent :: "gwin \<Rightarrow> event \<times> gwin" where
  "gw_getEvent g = (case g_events g of [] \<Rightarrow> (EvInvalid, g) | e # es \<Rightarrow> (e, g\<lparr>g_events := es\<rparr>))"

definition gw_getSize :: "gwin \<Rightarrow> u64" where
  "gw_getSize g = ucast (4 * v_area (g_size g))"

definition gw_writeaddr :: "u64 \<Rightarrow> bytes \<Rightarrow> gwin \<Rightarrow> gwin res" where
  "gw_writeaddr addr data g =
    assertk (addr + of_nat (length data) \<le> ucast (v_area (g_size g) * 4))
      (bnd (put_bytes (unat addr) data (g_buffer g)) (\<lambda>b. Inr (g\<lparr>g_buffer := b\<rparr>)))"

definition gw_readaddr :: "u64 \<Rightarrow> nat \<Rightarrow> gwin \<Rightarrow> bytes res" where
  "gw_readaddr addr n g =
    assertk (addr + of_nat n \<le> ucast (v_area (g_size g) * 4))
      (check (unat addr + n \<le> length (g_buffer g)) OutOfBounds (Inr (take n (drop (unat addr) (g_buffer g)))))"

section \<open>Windows\<close>

datatype wkind = TextW textwin | GraphW gwin

text \<open>\<open>w_ws\<close> is \<open>-1\<close> until the window is in a workspace.\<close>

record window =
  w_wid :: u32
  w_ws :: u32
  w_kind :: wkind

definition w_getOffset :: "window \<Rightarrow> vec2u" where
  "w_getOffset w = (case w_kind w of TextW t \<Rightarrow> t_offset t | GraphW g \<Rightarrow> g_offset g)"

definition w_getSize :: "window \<Rightarrow> vec2u" where
  "w_getSize w = (case w_kind w of TextW t \<Rightarrow> t_size t | GraphW g \<Rightarrow> g_size g)"

definition w_setOffset :: "vec2u \<Rightarrow> window \<Rightarrow> window" where
  "w_setOffset v w =
    w\<lparr>w_kind := (case w_kind w of TextW t \<Rightarrow> TextW (t\<lparr>t_offset := v\<rparr>) | GraphW g \<Rightarrow> GraphW (g\<lparr>g_offset := v\<rparr>))\<rparr>"

definition w_setSize :: "vec2u \<Rightarrow> window \<Rightarrow> window res" where
  "w_setSize v w =
    (case w_kind w of
       TextW t \<Rightarrow> Inr (w\<lparr>w_kind := TextW (tw_setSize v t)\<rparr>)
     | GraphW g \<Rightarrow> bnd (gw_setSize v g) (\<lambda>g. Inr (w\<lparr>w_kind := GraphW g\<rparr>)))"

definition w_isInside :: "vec2u \<Rightarrow> window \<Rightarrow> bool" where
  "w_isInside p w \<longleftrightarrow>
    vx (w_getOffset w) \<le> vx p \<and> vy (w_getOffset w) \<le> vy p \<and>
    vx p < vx (w_getOffset w) + vx (w_getSize w) \<and> vy p < vy (w_getOffset w) + vy (w_getSize w)"

definition w_send :: "font \<Rightarrow> window \<Rightarrow> screen \<Rightarrow> screen res" where
  "w_send font w = (case w_kind w of TextW t \<Rightarrow> tw_send font t | GraphW g \<Rightarrow> gw_send g)"

definition w_handleEvent :: "event \<Rightarrow> window \<Rightarrow> (window \<times> bool) res" where
  "w_handleEvent e w =
    (case w_kind w of
       TextW t \<Rightarrow> bnd (tw_handleEvent e t) (\<lambda>(t, b). Inr (w\<lparr>w_kind := TextW t\<rparr>, b))
     | GraphW g \<Rightarrow> Inr (w\<lparr>w_kind := GraphW (g\<lparr>g_events := g_events g @ [e]\<rparr>)\<rparr>, False))"

definition w_drawEdge :: "color24 \<Rightarrow> window \<Rightarrow> screen \<Rightarrow> screen res" where
  "w_drawEdge c w s =
    (let o' = w_getOffset w; z = w_getSize w in
     if vx z < 2 \<or> vy z < 2 then Inr s
     else bnd (for_range (\<lambda>i s. bnd (s_set (vx o' + of_nat i) (vy o') c s)
                 (s_set (vx o' + of_nat i) (vy o' + vy z - 1) c)) 0 (unat (vx z)) s)
            (for_range (\<lambda>i s. bnd (s_set (vx o') (vy o' + of_nat i) c s)
                 (s_set (vx o' + vx z - 1) (vy o' + of_nat i) c)) 1 (unat (vy z))))"

section \<open>Workspaces\<close>

type_synonym wptr = nat

datatype wsstate = WNORMAL | MOVING | RESIZING

record workspace =
  ws_number :: nat
  ws_wins :: "wptr list"
  ws_superState :: bool
  ws_state :: wsstate
  ws_current :: "wptr option"
  ws_startMouse :: vec2u
  ws_startWindow :: vec2u

record gui =
  gu_wss :: "workspace list"
  gu_active :: nat
  gu_keymap :: nat
  gu_win :: "wptr \<Rightarrow> window option"
  gu_globWid :: u32
  gu_kbd :: keyboard
  gu_mouse :: mouse
  gu_screen :: screen
  gu_font :: font
  gu_woken :: "wptr list"

definition totalNumber :: nat where "totalNumber = 10"

definition ws_new :: workspace where
  "ws_new = \<lparr>ws_number = 0, ws_wins = [], ws_superState = False, ws_state = WNORMAL, ws_current = None,
     ws_startMouse = vec 0 0, ws_startWindow = vec 0 0\<rparr>"

definition ws_init :: "gui \<Rightarrow> gui" where
  "ws_init u = u\<lparr>gu_wss := map (\<lambda>i. (gu_wss u ! i)\<lparr>ws_number := i\<rparr>) [0..<totalNumber],
     gu_kbd := setKeymap (keymaps ! gu_keymap u) (gu_kbd u)\<rparr>"

definition upd_ws :: "nat \<Rightarrow> (workspace \<Rightarrow> workspace) \<Rightarrow> gui \<Rightarrow> gui" where
  "upd_ws i f u = u\<lparr>gu_wss := (gu_wss u)[i := f (gu_wss u ! i)]\<rparr>"

definition the_win :: "wptr \<Rightarrow> gui \<Rightarrow> (window \<Rightarrow> 'a res) \<Rightarrow> 'a res" where
  "the_win p u f = (case gu_win u p of None \<Rightarrow> Inl NullAccess | Some w \<Rightarrow> f w)"

definition put_win :: "wptr \<Rightarrow> window \<Rightarrow> gui \<Rightarrow> gui" where
  "put_win p w u = u\<lparr>gu_win := (gu_win u)(p \<mapsto> w)\<rparr>"

definition win_event :: "event \<Rightarrow> wptr \<Rightarrow> gui \<Rightarrow> gui res" where
  "win_event e p u =
    the_win p u (\<lambda>w. bnd (w_handleEvent e w) (\<lambda>(w, b).
      Inr ((put_win p w u)\<lparr>gu_woken := (if b then gu_woken u @ [p] else gu_woken u)\<rparr>)))"

definition win_gevent :: "gevent res \<Rightarrow> wptr \<Rightarrow> gui \<Rightarrow> gui res" where
  "win_gevent g p u = bnd g (\<lambda>g. win_event (EvWindow g) p u)"

definition ws_cycle :: "nat \<Rightarrow> gui \<Rightarrow> gui res" where
  "ws_cycle i u =
    (case ws_wins (gu_wss u ! i) of
       [] \<Rightarrow> Inr u
     | tmp # ps \<Rightarrow>
         let u = upd_ws i (\<lambda>ws. ws\<lparr>ws_wins := ps @ [tmp]\<rparr>) u in
         if 1 < length (ps @ [tmp]) then
           bnd (win_gevent (gevent_value FOCUS 1) (hd (ps @ [tmp])) u) (win_gevent (gevent_value FOCUS 0) tmp)
         else Inr u)"

text \<open>\<open>while(_wins.front() != win)\<close>, each turn moving the front to the back; \<open>seen\<close> was moved.\<close>

fun to_front :: "wptr \<Rightarrow> wptr list \<Rightarrow> wptr list \<Rightarrow> wptr list" where
  "to_front p [] seen = seen"
| "to_front p (q # qs) seen = (if q = p then q # qs @ seen else to_front p qs (seen @ [q]))"

definition smin :: "u32 \<Rightarrow> u32 \<Rightarrow> u32" where
  "smin a b = (if sint a < sint b then a else b)"

definition smax :: "u32 \<Rightarrow> u32 \<Rightarrow> u32" where
  "smax a b = (if sint a < sint b then b else a)"

definition mouse_vec :: "mouse_event \<Rightarrow> vec2u" where
  "mouse_vec m = vec (ucast (me_x m)) (ucast (me_y m))"

text \<open>The keyboard part of \<open>handleEventOnMe\<close>.\<close>

definition kc_win :: "keycode \<Rightarrow> bool" where
  "kc_win k \<longleftrightarrow> lWin (kc_state k) \<or> rWin (kc_state k)"

definition ws_keyboard :: "nat \<Rightarrow> keycode \<Rightarrow> gui \<Rightarrow> gui res" where
  "ws_keyboard i k u =
    bnd (if kc_win k \<and> sc_code (kc_scan k) = k_TAB \<and> \<not> sc_release (kc_scan k) then ws_cycle i u else Inr u) (\<lambda>u.
      Inr (upd_ws i (\<lambda>ws. if kc_win k then ws\<lparr>ws_superState := True\<rparr> else ws\<lparr>ws_superState := False, ws_state := WNORMAL\<rparr>) u))"

text \<open>The mouse part: a button pressed together with the super key starts moving or resizing.\<close>

definition ws_press :: "nat \<Rightarrow> mouse_event \<Rightarrow> gui \<Rightarrow> gui res" where
  "ws_press i m u =
    (case ws_wins (gu_wss u ! i) of
       [] \<Rightarrow> Inr u
     | front # _ \<Rightarrow>
         if \<not> ws_superState (gu_wss u ! i) then Inr u
         else if me_get LEFT JUSTPRESSED m then
           the_win front u (\<lambda>w. Inr (upd_ws i (\<lambda>ws. ws\<lparr>ws_state := MOVING, ws_current := Some front,
             ws_startMouse := mouse_vec m, ws_startWindow := w_getOffset w\<rparr>) u))
         else if me_get RIGHT JUSTPRESSED m then
           the_win front u (\<lambda>w. Inr (upd_ws i (\<lambda>ws. ws\<lparr>ws_state := RESIZING, ws_current := Some front,
             ws_startMouse := mouse_vec m, ws_startWindow := w_getSize w\<rparr>) u))
         else if \<not> me_get LEFT PRESSED m \<and> \<not> me_get RIGHT PRESSED m then
           Inr (upd_ws i (\<lambda>ws. ws\<lparr>ws_state := WNORMAL, ws_current := None\<rparr>) u)
         else Inr u)"

definition ws_move :: "nat \<Rightarrow> wptr \<Rightarrow> mouse_event \<Rightarrow> gui \<Rightarrow> gui res" where
  "ws_move i p m u =
    the_win p u (\<lambda>w.
      let ws = gu_wss u ! i; pos = v_add (v_sub (ws_startWindow ws) (ws_startMouse ws)) (mouse_vec m);
          sz = w_getSize w; scr = s_getSize (gu_screen u);
          pos = vec (smax 0 (smin (vx pos) (vx scr - vx sz))) (smax 0 (smin (vy pos) (vy scr - vy sz))) in
      win_gevent (gevent_xy MOVE (ucast (vx pos)) (ucast (vy pos))) p (put_win p (w_setOffset pos w) u))"

definition ws_resize :: "nat \<Rightarrow> wptr \<Rightarrow> mouse_event \<Rightarrow> gui \<Rightarrow> gui res" where
  "ws_resize i p m u =
    the_win p u (\<lambda>w.
      let ws = gu_wss u ! i; sz = v_add (v_sub (ws_startWindow ws) (ws_startMouse ws)) (mouse_vec m);
          off = w_getOffset w; scr = s_getSize (gu_screen u);
          sz = vec (smax 10 (smin (vx sz) (vx scr - vx off))) (smax 10 (smin (vy sz) (vy scr - vy off))) in
      bnd (w_setSize sz w) (\<lambda>w.
        win_gevent (gevent_xy RESIZE (ucast (vx sz)) (ucast (vy sz))) p (put_win p w u)))"

definition ws_drag :: "nat \<Rightarrow> mouse_event \<Rightarrow> gui \<Rightarrow> gui res" where
  "ws_drag i m u =
    (let ws = gu_wss u ! i; stop = upd_ws i (\<lambda>ws. ws\<lparr>ws_state := WNORMAL\<rparr>) u in
     case ws_wins ws of
       [] \<Rightarrow> Inr stop
     | front # _ \<Rightarrow>
         if ws_current ws \<noteq> Some front then Inr stop
         else if \<not> ws_superState ws then Inr stop
         else (case ws_state ws of MOVING \<Rightarrow> ws_move i front m u | RESIZING \<Rightarrow> ws_resize i front m u | WNORMAL \<Rightarrow> Inr u))"

text \<open>\<open>isInside\<close> of every window in turn, until one contains the pointer.\<close>

fun win_under :: "vec2u \<Rightarrow> gui \<Rightarrow> wptr list \<Rightarrow> wptr option res" where
  "win_under v u [] = Inr None"
| "win_under v u (p # ps) = the_win p u (\<lambda>w. if w_isInside v w then Inr (Some p) else win_under v u ps)"

definition ws_click :: "nat \<Rightarrow> mouse_event \<Rightarrow> gui \<Rightarrow> gui res" where
  "ws_click i m u =
    bnd (win_under (mouse_vec m) u (ws_wins (gu_wss u ! i))) (\<lambda>r. case r of None \<Rightarrow> Inr u | Some p \<Rightarrow>
      let u = (if me_pressed m AND me_changed m \<noteq> 0
               then upd_ws i (\<lambda>ws. ws\<lparr>ws_wins := to_front p (ws_wins ws) []\<rparr>) u else u) in
      the_win p u (\<lambda>w. win_event (EvMouse (m\<lparr>me_x := me_x m - ucast (vx (w_getOffset w)),
        me_y := me_y m - ucast (vy (w_getOffset w))\<rparr>)) p u))"

definition ws_handleEventOnMe :: "nat \<Rightarrow> event \<Rightarrow> gui \<Rightarrow> gui res" where
  "ws_handleEventOnMe i e u =
    (case e of
       EvKeyboard k \<Rightarrow> bnd (ws_keyboard i k u) (\<lambda>u.
         case ws_wins (gu_wss u ! i) of [] \<Rightarrow> Inr u | front # _ \<Rightarrow> win_event e front u)
     | EvMouse m \<Rightarrow> bnd (ws_press i m u) (\<lambda>u. bnd (ws_drag i m u) (ws_click i m))
     | _ \<Rightarrow> Inr u)"

definition win_to_ws :: "nat \<Rightarrow> gui \<Rightarrow> gui res" where
  "win_to_ws n u =
    (case ws_wins (gu_wss u ! gu_active u) of
       [] \<Rightarrow> Inr u
     | p # ps \<Rightarrow>
         let u = upd_ws (gu_active u) (\<lambda>ws. ws\<lparr>ws_wins := ps\<rparr>) u;
             u = upd_ws n (\<lambda>ws. ws\<lparr>ws_wins := p # ws_wins ws\<rparr>) u in
         the_win p u (\<lambda>w.
           win_gevent (gevent_value WORKSPACE (of_nat n)) p (put_win p (w\<lparr>w_ws := of_nat n\<rparr>) u)))"

definition ws_handleEvent :: "event \<Rightarrow> gui \<Rightarrow> gui res" where
  "ws_handleEvent e u =
    (let me = (\<lambda>u. assertk (gu_active u < totalNumber) (ws_handleEventOnMe (gu_active u) e u)) in
     case e of
       EvKeyboard k \<Rightarrow>
         let c = sc_code (kc_scan k) in
         if kc_win k \<and> \<not> sc_release (kc_scan k) \<and> k_F1 \<le> c \<and> c \<le> k_F10 then
           (let n = (unat c - unat k_F1 + 1) mod 10 in
            if lShift (kc_state k) \<or> rShift (kc_state k) then win_to_ws n u else Inr (u\<lparr>gu_active := n\<rparr>))
         else if kc_win k \<and> \<not> sc_release (kc_scan k) \<and> c = k_SPACE then
           (let km = (gu_keymap u + 1) mod length keymaps in
            Inr (u\<lparr>gu_keymap := km, gu_kbd := setKeymap (keymaps ! km) (gu_kbd u)\<rparr>))
         else me u
     | _ \<Rightarrow> me u)"

definition ws_addWin :: "nat \<Rightarrow> wptr \<Rightarrow> gui \<Rightarrow> gui res" where
  "ws_addWin i p u =
    the_win p u (\<lambda>w.
      let br = v_add (w_getOffset w) (w_getSize w); scr = s_getSize (gu_screen u) in
      check (vx br \<le> vx scr \<and> vy br \<le> vy scr) Shutdown
        (Inr (put_win p (w\<lparr>w_ws := of_nat (ws_number (gu_wss u ! i))\<rparr>)
          (upd_ws i (\<lambda>ws. ws\<lparr>ws_wins := p # ws_wins ws\<rparr>) u))))"

definition ws_remWin :: "nat \<Rightarrow> wptr \<Rightarrow> gui \<Rightarrow> gui res" where
  "ws_remWin i p u =
    assertk (p \<in> set (ws_wins (gu_wss u ! i))) (Inr (upd_ws i (\<lambda>ws. ws\<lparr>ws_wins := remove1 p (ws_wins ws)\<rparr>) u))"

text \<open>Creation and deletion of a window at the address \<open>p\<close>.\<close>

definition win_create :: "wptr \<Rightarrow> wkind \<Rightarrow> gui \<Rightarrow> gui" where
  "win_create p k u =
    (put_win p \<lparr>w_wid = gu_globWid u, w_ws = - 1, w_kind = k\<rparr> u)\<lparr>gu_globWid := gu_globWid u + 1\<rparr>"

definition win_delete :: "wptr \<Rightarrow> gui \<Rightarrow> gui res" where
  "win_delete p u =
    the_win p u (\<lambda>w. assertk (w_ws w \<noteq> - 1) (assertk (unat (w_ws w) < totalNumber)
      (bnd (ws_remWin (unat (w_ws w)) p u) (\<lambda>u. Inr (u\<lparr>gu_win := (gu_win u)(p := None)\<rparr>)))))"

section \<open>Drawing\<close>

definition edge_color :: color24 where "edge_color = color 0 50 150"

definition draw_win :: "gui \<Rightarrow> wptr \<Rightarrow> screen \<Rightarrow> screen res" where
  "draw_win u p s = the_win p u (\<lambda>w. bnd (w_send (gu_font u) w s) (w_drawEdge edge_color w))"

definition ws_drawMe :: "nat \<Rightarrow> gui \<Rightarrow> gui res" where
  "ws_drawMe i u =
    bnd (bnd (s_clear (gu_screen u)) (\<lambda>s.
      assertk (ws_number (gu_wss u ! i) = gu_active u)
        (case ws_wins (gu_wss u ! i) of
           [] \<Rightarrow> s_send s
         | front # ps \<Rightarrow>
             bnd (for_list (draw_win u) (rev (front # ps)) s) (\<lambda>s.
             bnd (the_win front u (\<lambda>w. w_drawEdge red w s)) (\<lambda>s.
             bnd (mouse_draw (gu_mouse u) s) s_send)))))
      (\<lambda>s. Inr (u\<lparr>gu_screen := s\<rparr>))"

definition ws_draw :: "gui \<Rightarrow> gui res" where
  "ws_draw u = assertk (gu_active u < totalNumber) (ws_drawMe (gu_active u) u)"

section \<open>The input part of the kernel loop\<close>

text \<open>\<open>while((kc = kbd.poll()).scanCode.valid)\<close>: every turn takes a byte out of the ring buffer, so that
its size bounds the number of turns. Running out of turns is \<open>Bsod\<close>, which is shown not to happen.\<close>

fun poll_keys :: "'io ports \<Rightarrow> nat \<Rightarrow> gui \<times> 'io \<Rightarrow> (gui \<times> 'io) res" where
  "poll_keys P 0 s = Inl Bsod"
| "poll_keys P (Suc n) (u, io) =
    bnd (kbd_poll P (gu_kbd u) io) (\<lambda>(kc, k, io).
      let u = u\<lparr>gu_kbd := k\<rparr> in
      if sc_valid (kc_scan kc) then bnd (ws_handleEvent (EvKeyboard kc) u) (\<lambda>u. poll_keys P n (u, io)) else Inr (u, io))"

fun poll_clicks :: "nat \<Rightarrow> gui \<Rightarrow> gui res" where
  "poll_clicks 0 u = Inl Bsod"
| "poll_clicks (Suc n) u =
    bnd (mouse_poll (gu_mouse u)) (\<lambda>(me, m).
      let u = u\<lparr>gu_mouse := m\<rparr> in
      if me_isValid me then bnd (ws_handleEvent (EvMouse me) u) (poll_clicks n) else Inr u)"

definition kloop_gui :: "'io ports \<Rightarrow> gui \<times> 'io \<Rightarrow> (gui \<times> 'io) res" where
  "kloop_gui P = (\<lambda>(u, io).
    bnd (poll_keys P (Suc (dq_size (k_deque (gu_kbd u)))) (u, io)) (\<lambda>(u, io).
    bnd (poll_clicks (Suc (dq_size (m_deque (gu_mouse u)))) u) (\<lambda>u.
    bnd (ws_handleEvent (EvMouse (mouse_pollLast (gu_mouse u))) u) (\<lambda>u.
    bnd (ws_draw u) (\<lambda>u. Inr (u, io))))))"

section \<open>Well-formed windows\<close>

definition scr_ok :: "screen \<Rightarrow> bool" where
  "scr_ok s \<longleftrightarrow> 16 \<le> unat (s_Xsize s) \<and> 10 \<le> unat (s_Ysize s) \<and> 4 * unat (s_Xsize s) \<le> unat (s_pitch s) \<and>
     unat (s_Ysize s) * unat (s_pitch s) < 2 ^ 32 \<and> unat (s_Ysize s) * unat (s_pitch s) + 15 \<le> length (s_vga s) \<and>
     4 * (unat (s_Xsize s) * unat (s_Ysize s)) + 15 \<le> length (s_buffer s)"

lemma scr_ok_wf: "scr_ok s \<Longrightarrow> screen_wf s"
  by (simp add: scr_ok_def screen_wf_def)

lemma scr_ok_area: "scr_ok s \<Longrightarrow> 4 * (unat (s_Xsize s) * unat (s_Ysize s)) < 2 ^ 32"
proof -
  assume s: "scr_ok s"
  have "4 * (unat (s_Xsize s) * unat (s_Ysize s)) \<le> unat (s_Ysize s) * unat (s_pitch s)"
    using s mult_le_mono2[of "4 * unat (s_Xsize s)" "unat (s_pitch s)" "unat (s_Ysize s)"] by (simp add: scr_ok_def ac_simps)
  moreover have "unat (s_Ysize s) * unat (s_pitch s) < 2 ^ 32" using s by (simp only: scr_ok_def)
  ultimately show ?thesis by (rule le_less_trans)
qed

definition kind_ok :: "wkind \<Rightarrow> bool" where
  "kind_ok k = (case k of TextW t \<Rightarrow> tw_fits t \<and> tw_inv t | GraphW g \<Rightarrow> 4 * unat (v_area (g_size g)) \<le> length (g_buffer g))"

definition win_ok :: "screen \<Rightarrow> window \<Rightarrow> bool" where
  "win_ok s w \<longleftrightarrow> on_screen s (w_getOffset w) (w_getSize w) \<and> 10 \<le> unat (vx (w_getSize w)) \<and> 10 \<le> unat (vy (w_getSize w)) \<and>
     kind_ok (w_kind w)"

text \<open>What a terminal needs for drawing is not changed by its input and output.\<close>

definition tw_geo :: "textwin \<Rightarrow> vec2u \<times> vec2u \<times> u8 \<times> u8" where
  "tw_geo t = (t_offset t, t_size t, t_width t, t_height t)"

lemma tw_addPrintable_geo: "tw_addPrintable c t = Inr u \<Longrightarrow> tw_geo u = tw_geo t"
  by (auto simp: tw_addPrintable_def tw_geo_def Let_def res_simps)

lemma tw_error_geo: "tw_error t = Inr u \<Longrightarrow> tw_geo u = tw_geo t"
proof -
  assume "tw_error t = Inr u"
  then obtain v where "tw_addPrintable 126 (t\<lparr>t_state := NORMAL\<rparr>) = Inr v" "tw_addPrintable 126 v = Inr u" by (auto simp: tw_error_def res_simps)
  from tw_addPrintable_geo[OF this(1)] tw_addPrintable_geo[OF this(2)] show ?thesis by (simp add: tw_geo_def)
qed

lemma tw_newLine_geo: "tw_geo (tw_newLine t) = tw_geo t"
  by (simp add: tw_newLine_def tw_geo_def Let_def)

lemma tw_normal_geo:
  assumes "tw_normal c t = Inr u"
  shows "tw_geo u = tw_geo t"
proof -
  have "for_list (\<lambda>_. tw_addPrintable 32) xs t = Inr u \<Longrightarrow> tw_geo u = tw_geo t" for xs :: "nat list"
    by (erule for_list_inv[where P = "\<lambda>v. tw_geo v = tw_geo t"]) (auto dest: tw_addPrintable_geo)
  moreover have "tw_geo (tw_backspace t) = tw_geo t" by (simp add: tw_backspace_def tw_geo_def Let_def)
  moreover have "tw_geo (t\<lparr>t_state := x\<rparr>) = tw_geo t" "tw_geo (t\<lparr>t_curs := y\<rparr>) = tw_geo t"
    "tw_geo ((tw_newLine t)\<lparr>t_curs := y\<rparr>) = tw_geo (tw_newLine t)" for x y by (simp_all add: tw_geo_def)
  ultimately show ?thesis using assms tw_error_geo tw_addPrintable_geo tw_newLine_geo
    by (auto simp: tw_normal_def Let_def split: if_splits)
qed

lemma tw_SGR_geo:
  assumes "tw_SGR t = Inr u"
  shows "tw_geo u = tw_geo t"
proof -
  have "tw_geo (t\<lparr>t_format := x\<rparr>) = tw_geo t" "tw_geo (t\<lparr>t_bright := y\<rparr>) = tw_geo t" for x y by (simp_all add: tw_geo_def)
  moreover from this have "tw_SGR_color upd t = Inr u \<Longrightarrow> tw_geo u = tw_geo t" for upd
    by (auto simp: tw_SGR_color_def Let_def res_simps dest: tw_error_geo split: if_splits)
  ultimately show ?thesis using assms by (auto simp: tw_SGR_def Let_def res_simps split: if_splits)
qed

lemma tw_putChar_geo:
  assumes "tw_putChar c t = Inr u"
  shows "tw_geo u = tw_geo t"
proof -
  have "bnd (tw_error t) (tw_normal c) = Inr u \<Longrightarrow> tw_geo u = tw_geo t" using tw_error_geo tw_normal_geo
    by (fastforce simp: res_simps)
  moreover have "bnd (tw_SGR t) (\<lambda>t. Inr (t\<lparr>t_state := NORMAL\<rparr>)) = Inr u \<Longrightarrow> tw_geo u = tw_geo t"
    by (auto simp: res_simps dest!: tw_SGR_geo) (simp add: tw_geo_def)
  moreover have "tw_geo (t\<lparr>t_stack := y\<rparr>) = tw_geo t" "tw_geo (t\<lparr>t_stack := y, t_state := x\<rparr>) = tw_geo t" for x y by (simp_all add: tw_geo_def)
  ultimately show ?thesis using assms tw_normal_geo
    by (auto simp: tw_putChar_def split: tstate.splits if_splits)
qed

definition tw_good :: "textwin \<Rightarrow> textwin \<Rightarrow> bool" where
  "tw_good t u \<longleftrightarrow> tw_inv u \<and> tw_geo u = tw_geo t"

lemma tw_putChar_good: "tw_inv t \<Longrightarrow> (\<exists>u. tw_putChar c t = Inr u \<and> tw_good t u) \<or> tw_putChar c t = Inl OutOfBounds"
  unfolding tw_good_def using tw_putChar_inv[of t c] tw_putChar_geo[of c t] putChar_overrun[of t c] by blast

lemma tw_good_list: "tw_inv t \<Longrightarrow> (\<exists>u. for_list tw_putChar cs t = Inr u \<and> tw_good t u) \<or> for_list tw_putChar cs t = Inl OutOfBounds"
proof (induction cs arbitrary: t)
  case Nil
  then show ?case by (simp add: tw_good_def)
next
  case (Cons c cs)
  from tw_putChar_good[OF Cons.prems, of c] show ?case
  proof
    assume "\<exists>u. tw_putChar c t = Inr u \<and> tw_good t u"
    then obtain u where u: "tw_putChar c t = Inr u" "tw_inv u" "tw_geo u = tw_geo t" by (auto simp: tw_good_def)
    from Cons.IH[OF u(2)] u(1,3) show ?thesis by (auto simp: tw_good_def)
  qed simp
qed

lemma tw_handleEvent_good:
  assumes "tw_inv t"
  shows "(\<exists>u b. tw_handleEvent e t = Inr (u, b) \<and> tw_good t u) \<or> tw_handleEvent e t = Inl OutOfBounds"
proof (cases e)
  case (EvKeyboard k)
  have u: "tw_inv (t\<lparr>t_kbd := kb\<rparr>)" "tw_inv (t\<lparr>t_input := i, t_kbd := kb\<rparr>)"
    "tw_good (t\<lparr>t_kbd := kb\<rparr>) v = tw_good t v" "tw_good (t\<lparr>t_input := i, t_kbd := kb\<rparr>) v = tw_good t v" for i kb v
    using assms by (simp_all add: tw_inv_def tw_good_def tw_geo_def)
  show ?thesis
    using EvKeyboard assms tw_good_list[OF u(1), of "[8, 32, 8]" "butlast (t_kbd t)"]
      tw_putChar_good[OF u(1), of "kc_symbol k" "t_kbd t @ [kc_symbol k]"]
      tw_putChar_good[OF u(2)[where i = "t_input t @ t_kbd t @ [10]" and kb = "[]"], of 10]
    by (auto simp: tw_handleEvent_def Let_def u(3,4) tw_good_def[of t t] simp del: for_list.simps split: if_splits)
qed (use assms in \<open>auto simp: tw_handleEvent_def tw_good_def\<close>)

lemma w_handleEvent_ok:
  assumes "win_ok s w"
  shows "(\<exists>w' b. w_handleEvent e w = Inr (w', b) \<and> win_ok s w' \<and> w_ws w' = w_ws w) \<or> w_handleEvent e w = Inl OutOfBounds"
proof (cases "w_kind w")
  case (TextW t)
  then have "tw_inv t" using assms by (simp add: win_ok_def kind_ok_def)
  from tw_handleEvent_good[OF this, of e] show ?thesis
  proof
    assume "\<exists>u b. tw_handleEvent e t = Inr (u, b) \<and> tw_good t u"
    then obtain u b where u: "tw_handleEvent e t = Inr (u, b)" "tw_inv u" "tw_geo u = tw_geo t" by (auto simp: tw_good_def)
    then have "win_ok s (w\<lparr>w_kind := TextW u\<rparr>)" using assms TextW
      by (simp add: win_ok_def kind_ok_def w_getOffset_def w_getSize_def tw_fits_def tw_geo_def)
    then show ?thesis using u(1) TextW by (simp add: w_handleEvent_def)
  qed (simp add: w_handleEvent_def TextW)
next
  case (GraphW g)
  then have "win_ok s (w\<lparr>w_kind := GraphW (g\<lparr>g_events := g_events g @ [e]\<rparr>)\<rparr>)" using assms
    by (simp add: win_ok_def kind_ok_def w_getOffset_def w_getSize_def)
  moreover have "w_handleEvent e w = Inr (w\<lparr>w_kind := GraphW (g\<lparr>g_events := g_events g @ [e]\<rparr>)\<rparr>, False)"
    by (simp add: w_handleEvent_def GraphW)
  ultimately show ?thesis by fastforce
qed

section \<open>Moving and resizing\<close>

lemma sint_u32: "sint (x :: u32) = (if uint x < 2 ^ 31 then uint x else uint x - 2 ^ 32)"
proof -
  have l: "uint x < 2 ^ 32" "0 \<le> uint x" using uint_lt2p[of x] by simp_all
  have "bit (uint x) 31 \<longleftrightarrow> 2 ^ 31 \<le> uint x"
  proof (cases "2 ^ 31 \<le> uint x")
    case True
    then have "uint x div 2 ^ 31 = 1" using l by (intro int_div_pos_eq[where r = "uint x - 2 ^ 31"]) simp_all
    then show ?thesis using True by (simp add: bit_iff_odd)
  next
    case False
    then show ?thesis using l by (simp add: bit_iff_odd)
  qed
  moreover have "take_bit 32 (uint x) = uint x" using l by (simp add: take_bit_int_eq_self)
  ultimately show ?thesis using l by (simp add: sint_uint signed_take_bit_eq_take_bit_minus)
qed

lemma smax_smin:
  assumes "unat l \<le> unat d" "unat d < 2 ^ 31"
  shows "unat l \<le> unat (smax l (smin a d)) \<and> unat (smax l (smin a d)) \<le> unat d"
proof -
  have "uint l \<le> uint d" using assms(1) by (simp only: word_le_nat_alt[symmetric] word_le_def)
  moreover have "d < 2 ^ 31" using assms(2) by (simp add: word_less_nat_alt)
  then have "uint d < 2 ^ 31" by (simp add: word_less_def)
  moreover obtain L where L: "uint l = L" "0 \<le> L" by simp
  moreover have "uint a < 2 ^ 32" using uint_lt2p[of a] by simp
  ultimately have "uint l \<le> uint (smax l (smin a d)) \<and> uint (smax l (smin a d)) \<le> uint d"
    by (auto simp: smax_def smin_def sint_u32 L(1))
  then show ?thesis by (simp only: word_le_nat_alt[symmetric] word_le_def)
qed

lemma s_getSize_simps [simp]: "unat (vx (s_getSize s)) = unat (s_Xsize s)" "unat (vy (s_getSize s)) = unat (s_Ysize s)"
  by (simp_all add: s_getSize_def)

lemma room:
  assumes "unat a \<le> unat (X :: u32)" "unat X < 2 ^ 16"
  shows "unat (X - a) = unat X - unat a" "unat (X - a) < 2 ^ 31"
  using assms by (simp_all add: unat_sub word_le_nat_alt)

lemma win_move_ok:
  assumes "win_ok s w"
  shows "win_ok s (w_setOffset (vec (smax 0 (smin a (vx (s_getSize s) - vx (w_getSize w)))) (smax 0 (smin b (vy (s_getSize s) - vy (w_getSize w))))) w)"
proof -
  let ?X = "vx (s_getSize s)" and ?Y = "vy (s_getSize s)" and ?z = "w_getSize w"
  have z: "unat (vx ?z) \<le> unat ?X" "unat (vy ?z) \<le> unat ?Y" "unat ?X < 2 ^ 16" "unat ?Y < 2 ^ 16"
    using assms unat_lt16[of "s_Xsize s"] unat_lt16[of "s_Ysize s"] by (simp_all add: win_ok_def on_screen_def)
  note x = room[OF z(1,3)] and y = room[OF z(2,4)]
  have 0: "unat (0 :: u32) \<le> unat d" for d :: u32 by simp
  have "unat (smax 0 (smin a (?X - vx ?z))) + unat (vx ?z) \<le> unat (s_Xsize s)"
    using smax_smin[OF 0 x(2), of a] x(1) z(1) unfolding s_getSize_simps by linarith
  moreover have "unat (smax 0 (smin b (?Y - vy ?z))) + unat (vy ?z) \<le> unat (s_Ysize s)"
    using smax_smin[OF 0 y(2), of b] y(1) z(2) unfolding s_getSize_simps by linarith
  ultimately show ?thesis using assms
    by (cases "w_kind w") (simp_all add: win_ok_def w_setOffset_def w_getOffset_def w_getSize_def on_screen_def kind_ok_def tw_fits_def tw_inv_def)
qed

lemma tw_setSize_ok:
  assumes "tw_inv t" "2 \<le> vx z" "2 \<le> vy z"
  shows "tw_inv (tw_setSize z t) \<and> tw_fits (tw_setSize z t)"
proof -
  have "tw_fits (tw_new (vec 0 0) z)" by (rule tw_new_fits[OF assms(2,3)])
  then show ?thesis using assms by (simp add: tw_fits_def tw_new_def tw_setSize_def tw_inv_def word_le_nat_alt word_less_nat_alt)
qed

lemma area_on_screen:
  assumes "scr_ok s" "on_screen s off z"
  shows "4 * unat (v_area z) < 2 ^ 32" "unat (v_area z) = unat (vx z) * unat (vy z)"
proof -
  have "unat (vx z) * unat (vy z) \<le> unat (s_Xsize s) * unat (s_Ysize s)"
    using assms(2) by (intro mult_le_mono) (simp_all add: on_screen_def)
  then have l: "4 * (unat (vx z) * unat (vy z)) < 2 ^ 32" using scr_ok_area[OF assms(1)] by linarith
  then show "unat (v_area z) = unat (vx z) * unat (vy z)" by (simp add: v_area_def unat_word_ariths)
  then show "4 * unat (v_area z) < 2 ^ 32" using l by simp
qed

lemma gw_setSize_ok:
  assumes "scr_ok s" "on_screen s off z" "4 * unat (v_area (g_size g)) \<le> length (g_buffer g)"
  shows "\<exists>h. gw_setSize z g = Inr h \<and> g_size h = z \<and> g_offset h = g_offset g \<and> 4 * unat (v_area z) \<le> length (g_buffer h)"
proof (cases "v_area (g_size g) < v_area z")
  case True
  then show ?thesis by (simp add: gw_setSize_def)
next
  case False
  have "unat (4 * v_area z) = 4 * unat (v_area z)" using area_on_screen(1)[OF assms(1,2)] by (simp add: unat_word_ariths)
  moreover have "4 * unat (v_area z) \<le> length (g_buffer g)" using False assms(3) by (simp add: word_less_nat_alt)
  ultimately show ?thesis using False by (simp add: gw_setSize_def put_bytes_def)
qed

lemma win_resize_ok:
  assumes "win_ok s w" "scr_ok s"
  shows "\<exists>w'. w_setSize (vec (smax 10 (smin a (vx (s_getSize s) - vx (w_getOffset w)))) (smax 10 (smin b (vy (s_getSize s) - vy (w_getOffset w))))) w = Inr w' \<and>
    win_ok s w' \<and> w_ws w' = w_ws w"
proof -
  let ?X = "vx (s_getSize s)" and ?Y = "vy (s_getSize s)" and ?o = "w_getOffset w"
  have z: "unat (vx ?o) + 10 \<le> unat ?X" "unat (vy ?o) + 10 \<le> unat ?Y" "unat ?X < 2 ^ 16" "unat ?Y < 2 ^ 16"
    using assms unat_lt16[of "s_Xsize s"] unat_lt16[of "s_Ysize s"] by (simp_all add: win_ok_def on_screen_def)
  then have x: "unat (?X - vx ?o) = unat ?X - unat (vx ?o)" "unat (?X - vx ?o) < 2 ^ 31" "unat (?Y - vy ?o) = unat ?Y - unat (vy ?o)" "unat (?Y - vy ?o) < 2 ^ 31"
    by (simp_all add: room)
  let ?a = "smax 10 (smin a (?X - vx ?o))" and ?b = "smax 10 (smin b (?Y - vy ?o))"
  have 10: "unat (10 :: u32) = 10" by simp
  have A: "10 \<le> unat ?a" "unat ?a \<le> unat ?X - unat (vx ?o)"
    using smax_smin[OF _ x(2), of 10 a] z(1) x(1) by auto
  have B: "10 \<le> unat ?b" "unat ?b \<le> unat ?Y - unat (vy ?o)"
    using smax_smin[OF _ x(4), of 10 b] z(2) x(3) by auto
  have "unat (vx ?o) + unat ?a \<le> unat ?X" "unat (vy ?o) + unat ?b \<le> unat ?Y" using A(2) B(2) z(1,2) by linarith+
  then have on: "on_screen s ?o (vec ?a ?b)" by (simp add: on_screen_def)
  have ge: "2 \<le> ?a" "2 \<le> ?b" using A(1) B(1) by (simp_all add: word_le_nat_alt)
  show ?thesis
  proof (cases "w_kind w")
    case (TextW t)
    then have "tw_inv t" using assms(1) by (simp add: win_ok_def kind_ok_def)
    from tw_setSize_ok[OF this, of "vec ?a ?b"] ge on A B show ?thesis
      by (simp add: w_setSize_def TextW win_ok_def w_getOffset_def w_getSize_def kind_ok_def) (simp add: tw_setSize_def)
  next
    case (GraphW g)
    then have "4 * unat (v_area (g_size g)) \<le> length (g_buffer g)" using assms(1) by (simp add: win_ok_def kind_ok_def)
    from gw_setSize_ok[OF assms(2) on this] obtain h where "gw_setSize (vec ?a ?b) g = Inr h" "g_size h = vec ?a ?b" "g_offset h = g_offset g"
      "4 * unat (v_area (vec ?a ?b)) \<le> length (g_buffer h)" by blast
    then show ?thesis using on A B by (simp add: w_setSize_def GraphW win_ok_def w_getOffset_def w_getSize_def kind_ok_def)
  qed
qed

section \<open>Well-formed graphics\<close>

text \<open>Every window is in the list of exactly one workspace, the one it names, and there once.\<close>

definition wins_ok :: "gui \<Rightarrow> bool" where
  "wins_ok u \<longleftrightarrow> length (gu_wss u) = totalNumber \<and> gu_active u < totalNumber \<and>
     (\<forall>i < totalNumber. ws_number (gu_wss u ! i) = i \<and> distinct (ws_wins (gu_wss u ! i)) \<and>
        (\<forall>p. p \<in> set (ws_wins (gu_wss u ! i)) \<longleftrightarrow> (\<exists>w. gu_win u p = Some w \<and> unat (w_ws w) = i))) \<and>
     (\<forall>p w. gu_win u p = Some w \<longrightarrow> unat (w_ws w) < totalNumber)"

definition gui_ok :: "gui \<Rightarrow> bool" where
  "gui_ok u \<longleftrightarrow> wins_ok u \<and> scr_ok (gu_screen u) \<and> (\<forall>p w. gu_win u p = Some w \<longrightarrow> win_ok (gu_screen u) w) \<and>
     gu_keymap u < length keymaps \<and> km_ok (k_keymap (gu_kbd u)) \<and> dq_wf (k_deque (gu_kbd u)) \<and>
     mouse_ok (gu_screen u) (gu_mouse u)"

text \<open>What handling an event does to the rest of the state; and its possible results.\<close>

definition gui_step :: "gui \<Rightarrow> gui \<Rightarrow> bool" where
  "gui_step u v \<longleftrightarrow> gui_ok v \<and> k_deque (gu_kbd v) = k_deque (gu_kbd u) \<and> gu_mouse v = gu_mouse u \<and> gu_screen v = gu_screen u"

definition steps :: "gui \<Rightarrow> gui res \<Rightarrow> bool" where
  "steps u m \<longleftrightarrow> (\<exists>v. m = Inr v \<and> gui_step u v) \<or> m = Inl OutOfBounds"

lemma steps_Inr [simp]: "steps u (Inr v) = gui_step u v"
  by (simp add: steps_def)

lemma gui_step_refl: "gui_ok u \<Longrightarrow> gui_step u u"
  by (simp add: gui_step_def)

lemma gui_step_trans: "gui_step u v \<Longrightarrow> gui_step v w \<Longrightarrow> gui_step u w"
  by (simp add: gui_step_def)

lemma steps_trans: "gui_step u v \<Longrightarrow> steps v m \<Longrightarrow> steps u m"
  unfolding steps_def using gui_step_trans by blast

lemma steps_bnd: "steps u m \<Longrightarrow> (\<And>v. gui_step u v \<Longrightarrow> steps v (f v)) \<Longrightarrow> steps u (bnd m f)"
  unfolding steps_def using gui_step_trans by fastforce

lemma gui_okD:
  assumes "gui_ok u" "i < totalNumber"
  shows "ws_number (gu_wss u ! i) = i" "distinct (ws_wins (gu_wss u ! i))" "length (gu_wss u) = totalNumber"
    "p \<in> set (ws_wins (gu_wss u ! i)) \<Longrightarrow> \<exists>w. gu_win u p = Some w \<and> unat (w_ws w) = i \<and> win_ok (gu_screen u) w"
  using assms by (auto simp: gui_ok_def wins_ok_def)

lemma put_win_step:
  assumes "gui_ok u" "gu_win u p = Some w" "win_ok (gu_screen u) w'" "w_ws w' = w_ws w"
  shows "gui_step u (put_win p w' u)"
proof -
  have "(\<exists>v. (if q = p then Some w' else gu_win u q) = Some v \<and> unat (w_ws v) = i) \<longleftrightarrow> (\<exists>v. gu_win u q = Some v \<and> unat (w_ws v) = i)" for q i
    using assms(2,4) by auto
  then show ?thesis using assms by (auto simp: gui_step_def gui_ok_def wins_ok_def put_win_def)
qed

lemma upd_ws_step:
  assumes "gui_ok u" "i < totalNumber" "ws_number (f (gu_wss u ! i)) = ws_number (gu_wss u ! i)"
    "mset (ws_wins (f (gu_wss u ! i))) = mset (ws_wins (gu_wss u ! i))"
  shows "gui_step u (upd_ws i f u)"
proof -
  have d: "set (ws_wins (f (gu_wss u ! i))) = set (ws_wins (gu_wss u ! i))" using assms(4) by (metis set_mset_mset)
  have e: "distinct (ws_wins (f (gu_wss u ! i)))" using assms(4) gui_okD(2)[OF assms(1,2)] by (metis distinct_count_atmost_1 mset_eq_imp_distinct_iff)
  show ?thesis using assms(1-3) d e
    by (auto simp: gui_step_def gui_ok_def wins_ok_def upd_ws_def nth_list_update)
qed

lemma win_event_steps:
  assumes "gui_ok u" "gu_win u p = Some w"
  shows "steps u (win_event e p u)"
proof -
  have "win_ok (gu_screen u) w" using assms by (simp add: gui_ok_def)
  from w_handleEvent_ok[OF this, of e] show ?thesis
  proof
    assume "\<exists>w' b. w_handleEvent e w = Inr (w', b) \<and> win_ok (gu_screen u) w' \<and> w_ws w' = w_ws w"
    then obtain w' b where w': "w_handleEvent e w = Inr (w', b)" "win_ok (gu_screen u) w'" "w_ws w' = w_ws w" by blast
    have "gui_step v (v\<lparr>gu_woken := x\<rparr>)" if "gui_ok v" for v x
      using that by (simp add: gui_step_def gui_ok_def wins_ok_def)
    moreover have "gui_step u (put_win p w' u)" by (rule put_win_step[OF assms w'(2,3)])
    ultimately have "gui_step u ((put_win p w' u)\<lparr>gu_woken := x\<rparr>)" for x using gui_step_trans by (metis gui_step_def)
    then show ?thesis using w'(1) assms(2) by (simp add: win_event_def the_win_def)
  qed (use assms(2) in \<open>simp add: win_event_def the_win_def steps_def\<close>)
qed

lemma gui_step_ok: "gui_step u v \<Longrightarrow> gui_ok v"
  by (simp add: gui_step_def)

lemma gui_step_screen: "gui_step u v \<Longrightarrow> gu_screen v = gu_screen u"
  by (simp add: gui_step_def)

lemma front_win:
  assumes "gui_ok u" "i < totalNumber" "p \<in> set (ws_wins (gu_wss u ! i))"
  obtains w where "gu_win u p = Some w" "unat (w_ws w) = i" "win_ok (gu_screen u) w" "the_win p u = (\<lambda>f. f w)"
proof -
  from gui_okD(4)[OF assms] obtain w where "gu_win u p = Some w" "unat (w_ws w) = i" "win_ok (gu_screen u) w" by blast
  then show ?thesis using that by (simp add: the_win_def fun_eq_iff)
qed

lemma win_gevent_steps:
  assumes "gui_ok u" "gu_win u p \<noteq> None" "\<exists>x. g = Inr x"
  shows "steps u (win_gevent g p u)"
  using assms win_event_steps[OF assms(1)] by (auto simp: win_gevent_def)

lemma gui_step_win: "gui_step u v \<Longrightarrow> gui_ok u \<Longrightarrow> i < totalNumber \<Longrightarrow> p \<in> set (ws_wins (gu_wss v ! i)) \<Longrightarrow> gu_win v p \<noteq> None"
  using gui_okD(4)[OF gui_step_ok] by blast

lemma win_event_wss: "win_event e p u = Inr v \<Longrightarrow> gu_wss v = gu_wss u \<and> (\<forall>q. gu_win u q \<noteq> None \<longrightarrow> gu_win v q \<noteq> None)"
  by (auto simp: win_event_def the_win_def res_simps put_win_def split: option.splits)

lemma win_gevent_wss: "win_gevent g p u = Inr v \<Longrightarrow> gu_wss v = gu_wss u \<and> (\<forall>q. gu_win u q \<noteq> None \<longrightarrow> gu_win v q \<noteq> None)"
  unfolding win_gevent_def by (auto simp: res_simps dest: win_event_wss)

lemma ws_cycle_steps:
  assumes "gui_ok u" "i < totalNumber"
  shows "steps u (ws_cycle i u)"
proof (cases "ws_wins (gu_wss u ! i)")
  case Nil
  then show ?thesis using assms by (simp add: ws_cycle_def gui_step_refl)
next
  case (Cons tmp ps)
  let ?v = "upd_ws i (\<lambda>ws. ws\<lparr>ws_wins := ps @ [tmp]\<rparr>) u"
  have s: "gui_step u ?v" using Cons by (intro upd_ws_step[OF assms]) simp_all
  have m: "gu_win ?v p \<noteq> None" if "p \<in> set (ps @ [tmp])" for p
    using gui_okD(4)[OF assms, of p] Cons that by (auto simp: upd_ws_def)
  have h: "hd (ps @ [tmp]) \<in> set (ps @ [tmp])" by (rule hd_in_set) simp
  have "steps ?v (bnd (win_gevent (gevent_value FOCUS 1) (hd (ps @ [tmp])) ?v) (win_gevent (gevent_value FOCUS 0) tmp))"
  proof (cases "win_gevent (gevent_value FOCUS 1) (hd (ps @ [tmp])) ?v")
    case (Inl e)
    then show ?thesis using win_gevent_steps[OF gui_step_ok[OF s] m[OF h], of "gevent_value FOCUS 1"] by (simp add: gevent_value_def steps_def)
  next
    case (Inr w)
    then have w: "gui_step ?v w" using win_gevent_steps[OF gui_step_ok[OF s] m[OF h], of "gevent_value FOCUS 1"] by (simp add: gevent_value_def)
    have "gu_win w tmp \<noteq> None" using win_gevent_wss[OF Inr] m[of tmp] by simp
    from win_gevent_steps[OF gui_step_ok[OF w] this, of "gevent_value FOCUS 0"] have "steps w (win_gevent (gevent_value FOCUS 0) tmp w)"
      by (simp add: gevent_value_def)
    then show ?thesis using Inr steps_trans[OF w] by simp
  qed
  from steps_trans[OF s this] show ?thesis using s Cons by (cases ps) (simp_all add: ws_cycle_def Let_def)
qed

lemma ws_keyboard_steps:
  assumes "gui_ok u" "i < totalNumber"
  shows "steps u (ws_keyboard i k u)"
  unfolding ws_keyboard_def
proof (rule steps_bnd)
  show "steps u (if kc_win k \<and> sc_code (kc_scan k) = k_TAB \<and> \<not> sc_release (kc_scan k) then ws_cycle i u else Inr u)"
    using ws_cycle_steps[OF assms] gui_step_refl[OF assms(1)] by simp
  fix v assume "gui_step u v"
  from upd_ws_step[OF gui_step_ok[OF this] assms(2)]
  show "steps v (Inr (upd_ws i (\<lambda>ws. if kc_win k then ws\<lparr>ws_superState := True\<rparr> else ws\<lparr>ws_superState := False, ws_state := WNORMAL\<rparr>) v))"
    by simp
qed

lemma ws_press_steps:
  assumes "gui_ok u" "i < totalNumber"
  shows "steps u (ws_press i m u)"
proof (cases "ws_wins (gu_wss u ! i)")
  case Nil
  then show ?thesis using gui_step_refl[OF assms(1)] by (simp add: ws_press_def)
next
  case (Cons front ps)
  then obtain w where "the_win front u = (\<lambda>f. f w :: gui res)" using front_win[OF assms, of front] by auto
  then show ?thesis using Cons gui_step_refl[OF assms(1)] by (auto simp: ws_press_def intro!: upd_ws_step[OF assms])
qed

lemma ws_move_steps:
  assumes "gui_ok u" "i < totalNumber" "p \<in> set (ws_wins (gu_wss u ! i))"
  shows "steps u (ws_move i p m u)"
proof -
  from front_win[OF assms] obtain w where w: "gu_win u p = Some w" "win_ok (gu_screen u) w" "the_win p u = (\<lambda>f. f w :: gui res)" by metis
  define P where "P = v_add (v_sub (ws_startWindow (gu_wss u ! i)) (ws_startMouse (gu_wss u ! i))) (mouse_vec m)"
  define v where "v = w_setOffset (vec (smax 0 (smin (vx P) (vx (s_getSize (gu_screen u)) - vx (w_getSize w))))
    (smax 0 (smin (vy P) (vy (s_getSize (gu_screen u)) - vy (w_getSize w))))) w"
  have "win_ok (gu_screen u) v" "w_ws v = w_ws w" unfolding v_def by (rule win_move_ok[OF w(2)]) (simp add: w_setOffset_def)
  then have s: "gui_step u (put_win p v u)" by (rule put_win_step[OF assms(1) w(1)])
  moreover have "gu_win (put_win p v u) p \<noteq> None" by (simp add: put_win_def)
  ultimately have "steps u (win_gevent (gevent_xy MOVE x y) p (put_win p v u))" for x y
    by (intro steps_trans[OF s] win_gevent_steps[OF gui_step_ok[OF s]]) (simp_all add: gevent_xy_def)
  then show ?thesis by (simp add: ws_move_def w(3) Let_def v_def P_def)
qed

lemma ws_resize_steps:
  assumes "gui_ok u" "i < totalNumber" "p \<in> set (ws_wins (gu_wss u ! i))"
  shows "steps u (ws_resize i p m u)"
proof -
  from front_win[OF assms] obtain w where w: "gu_win u p = Some w" "win_ok (gu_screen u) w" "the_win p u = (\<lambda>f. f w :: gui res)" by metis
  define P where "P = v_add (v_sub (ws_startWindow (gu_wss u ! i)) (ws_startMouse (gu_wss u ! i))) (mouse_vec m)"
  define z where "z = vec (smax 10 (smin (vx P) (vx (s_getSize (gu_screen u)) - vx (w_getOffset w))))
    (smax 10 (smin (vy P) (vy (s_getSize (gu_screen u)) - vy (w_getOffset w))))"
  have "scr_ok (gu_screen u)" using assms(1) by (simp add: gui_ok_def)
  from win_resize_ok[OF w(2) this, of "vx P" "vy P", folded z_def] obtain v where
    v: "w_setSize z w = Inr v" "win_ok (gu_screen u) v" "w_ws v = w_ws w" by blast
  have s: "gui_step u (put_win p v u)" by (rule put_win_step[OF assms(1) w(1) v(2,3)])
  have "steps u (win_gevent (gevent_xy RESIZE x y) p (put_win p v u))" for x y
    by (intro steps_trans[OF s] win_gevent_steps[OF gui_step_ok[OF s]]) (simp_all add: gevent_xy_def put_win_def)
  then show ?thesis using v(1) by (simp add: ws_resize_def w(3) Let_def z_def P_def)
qed

lemma ws_drag_steps:
  assumes "gui_ok u" "i < totalNumber"
  shows "steps u (ws_drag i m u)"
proof -
  have stop: "gui_step u (upd_ws i (\<lambda>ws. ws\<lparr>ws_state := WNORMAL\<rparr>) u)" by (rule upd_ws_step[OF assms]) simp_all
  show ?thesis
  proof (cases "ws_wins (gu_wss u ! i)")
    case Nil
    then show ?thesis using stop by (simp add: ws_drag_def Let_def)
  next
    case (Cons front ps)
    then have "front \<in> set (ws_wins (gu_wss u ! i))" by simp
    from ws_move_steps[OF assms this] ws_resize_steps[OF assms this] show ?thesis
      using Cons stop gui_step_refl[OF assms(1)] by (simp add: ws_drag_def Let_def split: wsstate.split)
  qed
qed

lemma to_front_mset: "mset (to_front p qs seen) = mset qs + mset seen"
  by (induction p qs seen rule: to_front.induct) auto

lemma to_front_front: "p \<in> set qs \<Longrightarrow> to_front p qs seen \<noteq> [] \<and> hd (to_front p qs seen) = p"
  by (induction p qs seen rule: to_front.induct) auto

lemma win_under_ok:
  assumes "\<forall>p \<in> set ps. gu_win u p \<noteq> None"
  shows "\<exists>r. win_under v u ps = Inr r \<and> (\<forall>p. r = Some p \<longrightarrow> p \<in> set ps)"
  using assms by (induction ps) (auto simp: the_win_def)

lemma ws_click_steps:
  assumes "gui_ok u" "i < totalNumber"
  shows "steps u (ws_click i m u)"
proof -
  have "\<forall>p \<in> set (ws_wins (gu_wss u ! i)). gu_win u p \<noteq> None" using gui_okD(4)[OF assms] by blast
  from win_under_ok[OF this, of "mouse_vec m"] obtain r where
    r: "win_under (mouse_vec m) u (ws_wins (gu_wss u ! i)) = Inr r" "\<And>p. r = Some p \<Longrightarrow> p \<in> set (ws_wins (gu_wss u ! i))" by blast
  show ?thesis
  proof (cases r)
    case None
    then show ?thesis using r(1) gui_step_refl[OF assms(1)] by (simp add: ws_click_def)
  next
    case (Some p)
    define v where "v = (if me_pressed m AND me_changed m \<noteq> 0 then upd_ws i (\<lambda>ws. ws\<lparr>ws_wins := to_front p (ws_wins ws) []\<rparr>) u else u)"
    have s: "gui_step u v" unfolding v_def using gui_step_refl[OF assms(1)] upd_ws_step[OF assms] by (simp add: to_front_mset)
    from front_win[OF assms r(2)[OF Some]] obtain w where "gu_win u p = Some w" by metis
    then have w: "gu_win v p = Some w" by (simp add: v_def upd_ws_def)
    have "steps u (win_event e p v)" for e using steps_trans[OF s] win_event_steps[OF gui_step_ok[OF s] w] by blast
    then show ?thesis using r(1) Some w by (simp add: ws_click_def v_def[symmetric] Let_def the_win_def)
  qed
qed

lemma ws_handleEventOnMe_steps:
  assumes "gui_ok u" "i < totalNumber"
  shows "steps u (ws_handleEventOnMe i e u)"
proof (cases e)
  case (EvKeyboard k)
  have "steps v (case ws_wins (gu_wss v ! i) of [] \<Rightarrow> Inr v | front # x \<Rightarrow> win_event e front v)" if v: "gui_step u v" for v
  proof (cases "ws_wins (gu_wss v ! i)")
    case Nil
    then show ?thesis using gui_step_refl[OF gui_step_ok[OF v]] by simp
  next
    case (Cons front ps)
    then obtain w where "gu_win v front = Some w" using front_win[OF gui_step_ok[OF v] assms(2), of front] by auto
    then show ?thesis using Cons win_event_steps[OF gui_step_ok[OF v]] by simp
  qed
  moreover have "ws_handleEventOnMe i e u = bnd (ws_keyboard i k u) (\<lambda>v. case ws_wins (gu_wss v ! i) of [] \<Rightarrow> Inr v | front # x \<Rightarrow> win_event e front v)"
    unfolding EvKeyboard by (simp add: ws_handleEventOnMe_def)
  ultimately show ?thesis by (simp only: steps_bnd[OF ws_keyboard_steps[OF assms]])
next
  case (EvMouse m)
  have "steps v (bnd (ws_drag i m v) (ws_click i m))" if v: "gui_step u v" for v
    using ws_click_steps[OF gui_step_ok assms(2)] by (intro steps_bnd[OF ws_drag_steps[OF gui_step_ok[OF v] assms(2)]])
  from steps_bnd[OF ws_press_steps[OF assms] this] show ?thesis by (simp add: ws_handleEventOnMe_def EvMouse)
qed (simp_all add: ws_handleEventOnMe_def gui_step_refl[OF assms(1)])

lemma win_to_ws_steps:
  assumes "gui_ok u" "n < totalNumber"
  shows "steps u (win_to_ws n u)"
proof (cases "ws_wins (gu_wss u ! gu_active u)")
  case Nil
  then show ?thesis using gui_step_refl[OF assms(1)] by (simp add: win_to_ws_def)
next
  case (Cons p ps)
  let ?a = "gu_active u"
  have a: "?a < totalNumber" using assms(1) by (simp add: gui_ok_def wins_ok_def)
  from front_win[OF assms(1) a, of p] Cons obtain w where w: "gu_win u p = Some w" "unat (w_ws w) = ?a" "win_ok (gu_screen u) w" by auto
  let ?v = "upd_ws n (\<lambda>ws. ws\<lparr>ws_wins := p # ws_wins ws\<rparr>) (upd_ws ?a (\<lambda>ws. ws\<lparr>ws_wins := ps\<rparr>) u)"
  let ?w = "w\<lparr>w_ws := of_nat n\<rparr>"
  have un: "unat (of_nat n :: u32) = n" using assms(2) by (simp add: totalNumber_def unat_of_nat)
  have len: "length (gu_wss u) = totalNumber" by (rule gui_okD(3)[OF assms(1) a])
  have wins: "ws_wins (gu_wss ?v ! i) = (if i = n then p # (if n = ?a then ps else ws_wins (gu_wss u ! n)) else if i = ?a then ps else ws_wins (gu_wss u ! i))"
    if "i < totalNumber" for i using that len a assms(2) by (auto simp: upd_ws_def nth_list_update)
  have num: "ws_number (gu_wss ?v ! i) = i" if "i < totalNumber" for i
    using that len a assms(2) gui_okD(1)[OF assms(1)] by (auto simp: upd_ws_def nth_list_update)
  have mem: "q \<in> set (ws_wins (gu_wss u ! i)) \<longleftrightarrow> (\<exists>w. gu_win u q = Some w \<and> unat (w_ws w) = i)" if "i < totalNumber" for q i
    using assms(1) that by (simp add: gui_ok_def wins_ok_def)
  have d: "distinct (p # ps)" using gui_okD(2)[OF assms(1) a] Cons by simp
  have pn: "p \<in> set (ws_wins (gu_wss u ! i)) \<longleftrightarrow> i = ?a" if "i < totalNumber" for i using mem[OF that] w(1,2) by auto
  have dist: "distinct (ws_wins (gu_wss ?v ! i))" if "i < totalNumber" for i
    using wins[OF that] gui_okD(2)[OF assms(1)] d pn assms(2) that by auto
  have set: "q \<in> set (ws_wins (gu_wss ?v ! i)) \<longleftrightarrow> (\<exists>x. (if q = p then Some ?w else gu_win u q) = Some x \<and> unat (w_ws x) = i)"
    if "i < totalNumber" for q i
  proof (cases "q = p")
    case True
    then show ?thesis using wins[OF that] un d pn[OF that] by auto
  next
    case False
    have "q \<in> set ps \<longleftrightarrow> q \<in> set (ws_wins (gu_wss u ! ?a))" using Cons False by auto
    then show ?thesis using wins[OF that] False mem[OF that, of q] mem[OF a, of q] mem[OF assms(2), of q] by auto
  qed
  have "win_ok (gu_screen u) ?w" using w(3) by (simp add: win_ok_def w_getOffset_def w_getSize_def)
  then have s: "gui_step u (put_win p ?w ?v)"
    using assms a len num dist set un
    by (auto simp: gui_step_def gui_ok_def wins_ok_def put_win_def simp del: upd_ws_def) (auto simp: upd_ws_def)
  have "steps u (win_gevent (gevent_value WORKSPACE (of_nat n)) p (put_win p ?w ?v))"
    by (intro steps_trans[OF s] win_gevent_steps[OF gui_step_ok[OF s]]) (simp_all add: gevent_value_def put_win_def)
  moreover have "gu_win ?v p = Some w" using w(1) by (simp add: upd_ws_def)
  ultimately show ?thesis using Cons by (simp add: win_to_ws_def Let_def the_win_def)
qed

lemma ws_handleEvent_steps:
  assumes "gui_ok u"
  shows "steps u (ws_handleEvent e u)"
proof -
  have a: "gu_active u < totalNumber" using assms by (simp add: gui_ok_def wins_ok_def)
  have me: "steps u (assertk (gu_active u < totalNumber) (ws_handleEventOnMe (gu_active u) e u))"
    using ws_handleEventOnMe_steps[OF assms a] a by simp
  have act: "gui_step u (u\<lparr>gu_active := n\<rparr>)" if "n < totalNumber" for n
    using assms that by (simp add: gui_step_def gui_ok_def wins_ok_def)
  have ten: "x mod 10 < totalNumber" for x by (simp add: totalNumber_def)
  have km: "gui_step u (u\<lparr>gu_keymap := j, gu_kbd := setKeymap (keymaps ! j) (gu_kbd u)\<rparr>)" if "j < length keymaps" for j
    using assms that keymaps_ok by (simp add: gui_step_def gui_ok_def wins_ok_def setKeymap_def list_all_length)
  have "(gu_keymap u + 1) mod length keymaps < length keymaps" by (simp add: keymaps_def)
  then show ?thesis using me act[OF ten] km win_to_ws_steps[OF assms ten]
    by (cases e) (simp_all add: ws_handleEvent_def Let_def)
qed

section \<open>Drawing never stops the kernel\<close>

lemma draws_edge:
  assumes "screen_wf s" "on_screen s (w_getOffset w) (w_getSize w)"
  shows "draws s (w_drawEdge c w s)"
proof (cases "vx (w_getSize w) < 2 \<or> vy (w_getSize w) < 2")
  case True
  then show ?thesis by (simp add: w_drawEdge_def Let_def)
next
  case False
  let ?o = "w_getOffset w" and ?z = "w_getSize w"
  have z: "2 \<le> unat (vx ?z)" "2 \<le> unat (vy ?z)" using False by (simp_all add: word_less_nat_alt not_less)
  have b: "unat (vx ?o) + unat (vx ?z) \<le> unat (s_Xsize s)" "unat (vy ?o) + unat (vy ?z) \<le> unat (s_Ysize s)"
    using assms(2) by (simp_all add: on_screen_def)
  have l: "unat (s_Xsize s) < 65536" "unat (s_Ysize s) < 65536" using unat_lt16[of "s_Xsize s"] unat_lt16[of "s_Ysize s"] by simp_all
  have e: "unat (vx ?o + vx ?z - 1) = unat (vx ?o) + unat (vx ?z) - 1" "unat (vy ?o + vy ?z - 1) = unat (vy ?o) + unat (vy ?z) - 1"
    using on_screen_add[OF assms(2)] z by (simp_all add: unat_sub word_le_nat_alt)
  have px: "unat (vx ?o + of_nat i) = unat (vx ?o) + i" if "i < unat (vx ?z)" for i
    using b(1) l(1) that by (simp add: unat_word_ariths unat_of_nat)
  have py: "unat (vy ?o + of_nat i) = unat (vy ?o) + i" if "i < unat (vy ?z)" for i
    using b(2) l(2) that by (simp add: unat_word_ariths unat_of_nat)
  have pix: "draws t (s_set x y c t)" if "drawn s t" "unat x < unat (s_Xsize s)" "unat y < unat (s_Ysize s)" for t x y
    using that drawn_wf[OF that(1) assms(1)] by (intro draws_set) (simp_all add: drawn_def)
  have two: "draws t (bnd (s_set x y c t) (s_set x' y' c))"
    if "drawn s t" "unat x < unat (s_Xsize s)" "unat y < unat (s_Ysize s)" "unat x' < unat (s_Xsize s)" "unat y' < unat (s_Ysize s)" for t x y x' y'
    using pix[OF that(1-3)] by (rule draws_bnd) (use pix that drawn_trans in blast)
  have h: "draws s (for_range (\<lambda>i s. bnd (s_set (vx ?o + of_nat i) (vy ?o) c s) (s_set (vx ?o + of_nat i) (vy ?o + vy ?z - 1) c)) 0 (unat (vx ?z)) s)"
    by (rule draws_for_range, rule two) (use b z e px in auto)
  have v: "draws t (for_range (\<lambda>i s. bnd (s_set (vx ?o) (vy ?o + of_nat i) c s) (s_set (vx ?o + vx ?z - 1) (vy ?o + of_nat i) c)) 1 (unat (vy ?z)) t)"
    if "drawn s t" for t
    by (rule draws_for_range, rule two) (use b z e py that drawn_trans in auto)
  show ?thesis unfolding w_drawEdge_def Let_def if_not_P[OF False] by (rule draws_bnd[OF h v])
qed

lemma draws_gw_send:
  assumes "screen_wf s" "scr_ok s" "on_screen s (g_offset g) (g_size g)" "4 * unat (v_area (g_size g)) \<le> length (g_buffer g)"
  shows "draws s (gw_send g s)"
  unfolding gw_send_def Let_def
proof (rule draws_for_range)
  let ?o = "g_offset g" and ?z = "g_size g"
  fix i t assume i: "unat (vy ?o) \<le> i" "i < unat (vy ?z + vy ?o)" and t: "drawn s t"
  have lim: "unat (vy ?z + vy ?o) = unat (vy ?o) + unat (vy ?z)" using on_screen_add(2)[OF assms(3)] by (simp add: add.commute)
  have Y: "i < unat (s_Ysize s)" using i lim assms(3) by (simp add: on_screen_def)
  then have u: "unat (of_nat i :: u32) = i" using unat_lt16[of "s_Ysize s"] by (simp add: unat_of_nat)
  have d: "unat (of_nat i - vy ?o) = i - unat (vy ?o)" using u i(1) by (simp add: unat_sub word_le_nat_alt)
  have r: "i - unat (vy ?o) + 1 \<le> unat (vy ?z)" using i lim by simp
  have a: "unat (v_area ?z) = unat (vx ?z) * unat (vy ?z)" by (rule area_on_screen(2)[OF assms(2,3)])
  have m: "(i - unat (vy ?o)) * unat (vx ?z) + unat (vx ?z) \<le> unat (v_area ?z)"
    using mult_le_mono1[OF r, of "unat (vx ?z)"] by (simp add: a mult.commute)
  have "unat ((of_nat i - vy ?o) * vx ?z) = (i - unat (vy ?o)) * unat (vx ?z)"
    using m area_on_screen(1)[OF assms(2,3)] d by (simp add: unat_word_ariths)
  then have "4 * unat ((of_nat i - vy ?o) * vx ?z) + 4 * unat (vx ?z) \<le> length (g_buffer g)" using m assms(4) by linarith
  moreover have "on_screen t ?o ?z" using on_screen_drawn[OF t] assms(3) by simp
  ultimately show "draws t (s_writeLine (of_nat i) (vx ?o) (vx ?z) (4 * unat ((of_nat i - vy ?o) * vx ?z)) (g_buffer g) t)"
    using i lim u by (intro draws_writeLine[OF drawn_wf[OF t assms(1)]]) simp_all
qed

lemma scr_ok_drawn: "drawn s t \<Longrightarrow> scr_ok s \<Longrightarrow> scr_ok t"
  by (simp add: drawn_def scr_ok_def)

lemma win_ok_drawn: "drawn s t \<Longrightarrow> win_ok t = win_ok s"
  by (intro ext) (simp add: win_ok_def on_screen_drawn)

lemma draws_window:
  assumes "scr_ok s" "win_ok s w"
  shows "draws s (w_send f w s)"
  using assms scr_ok_wf[OF assms(1)]
  by (cases "w_kind w") (auto simp: w_send_def win_ok_def kind_ok_def w_getOffset_def w_getSize_def intro!: draws_tw_send draws_gw_send)

lemma draws_draw_win:
  assumes "scr_ok s" "gu_win u p = Some w" "win_ok s w"
  shows "draws s (draw_win u p s)"
proof -
  have "draws s (bnd (w_send (gu_font u) w s) (w_drawEdge edge_color w))"
    by (rule draws_bnd[OF draws_window[OF assms(1,3)]], rule draws_edge)
      (use assms in \<open>auto simp: win_ok_def on_screen_drawn intro: drawn_wf scr_ok_wf\<close>)
  then show ?thesis using assms(2) by (simp add: draw_win_def the_win_def)
qed

lemma send_steps: "scr_ok s \<Longrightarrow> \<exists>t. s_send s = Inr t \<and> s_Xsize t = s_Xsize s \<and> s_Ysize t = s_Ysize s \<and> scr_ok t"
proof -
  assume s: "scr_ok s"
  from send_ok[of s] s obtain vga where "s_send s = Inr (s\<lparr>s_vga := vga\<rparr>)" "length vga = length (s_vga s)" by (auto simp: scr_ok_def)
  then show ?thesis using s by (auto simp: scr_ok_def)
qed

definition same_size :: "screen \<Rightarrow> screen \<Rightarrow> bool" where
  "same_size s t \<longleftrightarrow> s_Xsize t = s_Xsize s \<and> s_Ysize t = s_Ysize s"

lemma gui_ok_screen:
  assumes "gui_ok u" "scr_ok t" "same_size (gu_screen u) t"
  shows "gui_ok (u\<lparr>gu_screen := t\<rparr>)"
proof -
  have "win_ok t w = win_ok (gu_screen u) w" for w using assms(3) by (simp add: win_ok_def on_screen_def same_size_def)
  moreover have "mouse_ok t = mouse_ok (gu_screen u)" using assms(3) by (intro ext) (simp add: mouse_ok_def same_size_def)
  ultimately show ?thesis using assms by (simp add: gui_ok_def wins_ok_def)
qed

lemma ws_draw_ok:
  assumes "gui_ok u"
  shows "\<exists>t. ws_draw u = Inr (u\<lparr>gu_screen := t\<rparr>) \<and> gui_ok (u\<lparr>gu_screen := t\<rparr>)"
proof -
  let ?i = "gu_active u" and ?s = "gu_screen u"
  have a: "?i < totalNumber" and s: "scr_ok ?s" using assms by (simp_all add: gui_ok_def wins_ok_def)
  have num: "ws_number (gu_wss u ! ?i) = ?i" by (rule gui_okD(1)[OF assms a])
  have c: "draws ?s (s_clear ?s)" by (rule draws_clear[OF scr_ok_wf[OF s] scr_ok_area[OF s]])
  have win: "\<exists>w. gu_win u p = Some w \<and> win_ok t w" if "p \<in> set (ws_wins (gu_wss u ! ?i))" "drawn ?s t" for p t
    using gui_okD(4)[OF assms a that(1)] win_ok_drawn[OF that(2)] by auto
  have list: "draws t (for_list (draw_win u) ps t)" if "set ps \<subseteq> set (ws_wins (gu_wss u ! ?i))" "drawn ?s t" for ps t
  proof (rule draws_for_list)
    fix p v assume "p \<in> set ps" and v: "drawn t v"
    then have "p \<in> set (ws_wins (gu_wss u ! ?i))" using that(1) by blast
    from win[OF this drawn_trans[OF that(2) v]] obtain w where "gu_win u p = Some w" "win_ok v w" by blast
    from draws_draw_win[OF scr_ok_drawn[OF drawn_trans[OF that(2) v] s] this] show "draws v (draw_win u p v)" .
  qed
  have front: "draws t (the_win p u (\<lambda>w. w_drawEdge red w t))" if "p \<in> set (ws_wins (gu_wss u ! ?i))" "drawn ?s t" for p t
  proof -
    from win[OF that] obtain w where "gu_win u p = Some w" "win_ok t w" by blast
    then show ?thesis using draws_edge[OF drawn_wf[OF that(2) scr_ok_wf[OF s]]] by (simp add: the_win_def win_ok_def)
  qed
  have mouse: "draws t (mouse_draw (gu_mouse u) t)" if "drawn ?s t" for t
    using draws_mouse[OF drawn_wf[OF that scr_ok_wf[OF s]]] assms that by (simp add: gui_ok_def mouse_ok_def drawn_def)
  have "\<exists>t. bnd (s_clear ?s) (\<lambda>s. case ws_wins (gu_wss u ! ?i) of [] \<Rightarrow> s_send s
         | front # ps \<Rightarrow> bnd (for_list (draw_win u) (rev (front # ps)) s) (\<lambda>s.
             bnd (the_win front u (\<lambda>w. w_drawEdge red w s)) (\<lambda>s. bnd (mouse_draw (gu_mouse u) s) s_send))) = Inr t \<and> scr_ok t \<and> same_size ?s t"
  proof -
    have send: "\<exists>t. s_send v = Inr t \<and> scr_ok t \<and> same_size ?s t" if "drawn ?s v" for v
      using send_steps[OF scr_ok_drawn[OF that s]] that by (auto simp: drawn_def same_size_def)
    from c obtain s1 where s1: "s_clear ?s = Inr s1" "drawn ?s s1" by (auto simp: draws_def)
    show ?thesis
    proof (cases "ws_wins (gu_wss u ! ?i)")
      case Nil
      then show ?thesis using send[OF s1(2)] s1(1) by simp
    next
      case (Cons p ps)
      from list[of "rev (p # ps)" s1] s1(2) Cons obtain s2 where s2: "for_list (draw_win u) (rev (p # ps)) s1 = Inr s2" "drawn ?s s2"
        by (auto simp: draws_def intro: drawn_trans)
      from front[of p s2] s2(2) Cons obtain s3 where s3: "the_win p u (\<lambda>w. w_drawEdge red w s2) = Inr s3" "drawn ?s s3"
        by (auto simp: draws_def intro: drawn_trans)
      from mouse[OF s3(2)] obtain s4 where s4: "mouse_draw (gu_mouse u) s3 = Inr s4" "drawn ?s s4"
        by (auto simp: draws_def intro: drawn_trans[OF s3(2)])
      from send[OF s4(2)] show ?thesis using Cons s1(1) s2(1) s3(1) s4(1) by simp
    qed
  qed
  then show ?thesis using num a gui_ok_screen[OF assms] by (auto simp: ws_draw_def ws_drawMe_def)
qed

section \<open>The kernel loop\<close>

lemma poll_keys_ok:
  assumes "gui_ok u" "dq_size (k_deque (gu_kbd u)) < n"
  shows "(\<exists>v io'. poll_keys P n (u, io) = Inr (v, io') \<and> gui_ok v) \<or> poll_keys P n (u, io) = Inl OutOfBounds"
  using assms
proof (induction n arbitrary: u io)
  case (Suc n)
  let ?k = "gu_kbd u"
  have k: "dq_wf (k_deque ?k)" "km_ok (k_keymap ?k)" using Suc.prems(1) by (simp_all add: gui_ok_def)
  show ?case
  proof (cases "scan_codes (dq_list (k_deque ?k))")
    case Nil
    from pollSC_none[OF k(1) this] have "kbd_poll P ?k io = Inr (\<lparr>kc_state = k_state ?k, kc_symbol = - 1, kc_scan = no_scancode\<rparr>, ?k, io)"
      by (simp add: kbd_poll_def no_scancode_def)
    then show ?thesis using Suc.prems(1) by (simp add: no_scancode_def)
  next
    case (Cons sc scs)
    from kbd_poll_code[OF k Cons, of P io] obtain d io1 where p: "kbd_poll P ?k io = Inr (\<lparr>kc_state = kbd_modifiers sc (k_state ?k),
      kc_symbol = the_symbol (k_keymap ?k) (kbd_modifiers sc (k_state ?k)) sc, kc_scan = sc\<rparr>,
      ?k\<lparr>k_deque := d, k_state := kbd_modifiers sc (k_state ?k)\<rparr>, io1)" "dq_wf d" "dq_size d < dq_size (k_deque ?k)" by blast
    from pollSC_code[OF k(1) Cons] have v: "sc_valid sc" by blast
    let ?u = "u\<lparr>gu_kbd := ?k\<lparr>k_deque := d, k_state := kbd_modifiers sc (k_state ?k)\<rparr>\<rparr>"
    let ?kc = "\<lparr>kc_state = kbd_modifiers sc (k_state ?k), kc_symbol = the_symbol (k_keymap ?k) (kbd_modifiers sc (k_state ?k)) sc, kc_scan = sc\<rparr>"
    have "gui_ok ?u" using Suc.prems(1) p(2) by (simp add: gui_ok_def wins_ok_def)
    from ws_handleEvent_steps[OF this, of "EvKeyboard ?kc"] show ?thesis
      unfolding steps_def
    proof
      assume "\<exists>w. ws_handleEvent (EvKeyboard ?kc) ?u = Inr w \<and> gui_step ?u w"
      then obtain w where w: "ws_handleEvent (EvKeyboard ?kc) ?u = Inr w" "gui_step ?u w" by blast
      then have "gui_ok w" "dq_size (k_deque (gu_kbd w)) < n"
        using \<open>dq_size d < dq_size (k_deque ?k)\<close> Suc.prems(2) by (simp_all add: gui_step_def)
      from Suc.IH[OF this, of io1] show ?thesis using p(1) v w(1) by simp
    qed (use p(1) v in simp)
  qed
qed simp

lemma mouse_poll_ok:
  assumes "mouse_ok s m"
  shows "\<exists>e m'. mouse_poll m = Inr (e, m') \<and> mouse_ok s m' \<and> (me_isValid e \<longrightarrow> dq_size (m_deque m') < dq_size (m_deque m))"
proof (cases "dq_empty (m_deque m)")
  case True
  then show ?thesis using assms by (simp add: mouse_poll_def me_isValid_def me_invalid_def)
next
  case False
  have "dq_wf (m_deque m)" using assms by (simp add: mouse_ok_def)
  from dq_pop_front_ok[OF this] False obtain d where d: "dq_pop_front (m_deque m) = Inr d" "dq_wf d" by (auto simp: dq_empty_list)
  then have "dq_size d < dq_size (m_deque m)" by (auto simp: dq_pop_front_def res_simps)
  then show ?thesis using False d assms by (simp add: mouse_poll_def mouse_ok_def)
qed

lemma poll_clicks_ok:
  assumes "gui_ok u" "dq_size (m_deque (gu_mouse u)) < n"
  shows "(\<exists>v. poll_clicks n u = Inr v \<and> gui_ok v) \<or> poll_clicks n u = Inl OutOfBounds"
  using assms
proof (induction n arbitrary: u)
  case (Suc n)
  have "mouse_ok (gu_screen u) (gu_mouse u)" using Suc.prems(1) by (simp add: gui_ok_def)
  from mouse_poll_ok[OF this] obtain e m where
    m: "mouse_poll (gu_mouse u) = Inr (e, m)" "mouse_ok (gu_screen u) m" "me_isValid e \<longrightarrow> dq_size (m_deque m) < dq_size (m_deque (gu_mouse u))" by blast
  let ?u = "u\<lparr>gu_mouse := m\<rparr>"
  have ok: "gui_ok ?u" using Suc.prems(1) m(2) by (simp add: gui_ok_def wins_ok_def)
  show ?case
  proof (cases "me_isValid e")
    case False
    then show ?thesis using m(1) ok by simp
  next
    case True
    from ws_handleEvent_steps[OF ok, of "EvMouse e"] show ?thesis
      unfolding steps_def
    proof
      assume "\<exists>w. ws_handleEvent (EvMouse e) ?u = Inr w \<and> gui_step ?u w"
      then obtain w where w: "ws_handleEvent (EvMouse e) ?u = Inr w" "gui_step ?u w" by blast
      then have "gui_ok w" "dq_size (m_deque (gu_mouse w)) < n" using True m(3) Suc.prems(2) by (simp_all add: gui_step_def)
      from Suc.IH[OF this] show ?thesis using m(1) True w(1) by simp
    qed (use m(1) True in simp)
  qed
qed simp

lemma kloop_gui_ok:
  assumes "gui_ok u"
  shows "(\<exists>v io'. kloop_gui P (u, io) = Inr (v, io') \<and> gui_ok v) \<or> kloop_gui P (u, io) = Inl OutOfBounds"
proof -
  from poll_keys_ok[OF assms lessI, of P io] show ?thesis
  proof
    assume "\<exists>v io'. poll_keys P (Suc (dq_size (k_deque (gu_kbd u)))) (u, io) = Inr (v, io') \<and> gui_ok v"
    then obtain v io1 where v: "poll_keys P (Suc (dq_size (k_deque (gu_kbd u)))) (u, io) = Inr (v, io1)" "gui_ok v" by blast
    from poll_clicks_ok[OF v(2) lessI] show ?thesis
    proof
      assume "\<exists>w. poll_clicks (Suc (dq_size (m_deque (gu_mouse v)))) v = Inr w \<and> gui_ok w"
      then obtain w where w: "poll_clicks (Suc (dq_size (m_deque (gu_mouse v)))) v = Inr w" "gui_ok w" by blast
      from ws_handleEvent_steps[OF w(2), of "EvMouse (mouse_pollLast (gu_mouse w))"] show ?thesis
        unfolding steps_def
      proof
        assume "\<exists>x. ws_handleEvent (EvMouse (mouse_pollLast (gu_mouse w))) w = Inr x \<and> gui_step w x"
        then obtain x where x: "ws_handleEvent (EvMouse (mouse_pollLast (gu_mouse w))) w = Inr x" "gui_ok x" by (auto simp: gui_step_def)
        from ws_draw_ok[OF x(2)] show ?thesis using v(1) w(1) x(1) by (auto simp: kloop_gui_def)
      qed (use v(1) w(1) in \<open>simp add: kloop_gui_def\<close>)
    qed (use v(1) in \<open>simp add: kloop_gui_def\<close>)
  qed (simp add: kloop_gui_def)
qed


text \<open>A screen of 40 by 20 with one window of pixels in the workspace 0, and the super and the F2 key pressed.\<close>

definition demo_gui :: gui where
  "demo_gui = \<lparr>gu_wss = (ws_new\<lparr>ws_wins := [7]\<rparr>) # map (\<lambda>i. ws_new\<lparr>ws_number := i\<rparr>) [1..<10], gu_active = 0, gu_keymap = 0,
     gu_win = [7 \<mapsto> \<lparr>w_wid = 0, w_ws = 0, w_kind = GraphW (gw_new (vec 2 1) (vec 12 10))\<rparr>], gu_globWid = 1,
     gu_kbd = \<lparr>k_deque = \<lparr>dq_begin = 0, dq_end = 3, dq_size = 3, dq_array = [0xe0, 0x5b, 60, 0]\<rparr>, k_state = no_keys, k_keymap = azertyKeymap\<rparr>,
     gu_mouse = demo_mouse,
     gu_screen = \<lparr>s_Xsize = 40, s_Ysize = 20, s_pitch = 160, s_buffer = replicate 3215 0, s_vga = replicate 3215 0, s_OK = True\<rparr>,
     gu_font = [], gu_woken = []\<rparr>"

lemma demo_gui_ok: "gui_ok demo_gui"
proof -
  have w: "ws_wins (gu_wss demo_gui ! i) = (if i = 0 then [7] else []) \<and> ws_number (gu_wss demo_gui ! i) = i" if "i < totalNumber" for i
    using that by (cases i) (simp_all add: demo_gui_def ws_new_def totalNumber_def)
  have "wins_ok demo_gui" unfolding wins_ok_def using w
    by (auto simp: demo_gui_def totalNumber_def)
  moreover have "win_ok (gu_screen demo_gui) \<lparr>w_wid = 0, w_ws = 0, w_kind = GraphW (gw_new (vec 2 1) (vec 12 10))\<rparr>"
    by (simp add: win_ok_def demo_gui_def on_screen_def w_getOffset_def w_getSize_def gw_new_def kind_ok_def v_area_def)
  moreover have "scr_ok (gu_screen demo_gui)" by (simp add: demo_gui_def scr_ok_def)
  moreover have "mouse_ok (gu_screen demo_gui) (gu_mouse demo_gui)"
    by (simp add: demo_gui_def mouse_ok_def demo_mouse_def mouse_new_def dq_new_wf)
  moreover have "km_ok azertyKeymap" using keymaps_ok by (simp add: keymaps_def)
  ultimately show ?thesis by (auto simp: gui_ok_def demo_gui_def keymaps_def dq_wf_def dq_N_def)
qed


section \<open>Opening and closing windows\<close>

text \<open>\<open>sysopenwin\<close> and \<open>sysopentwin\<close> create the window and add it to a workspace.\<close>

definition win_open :: "nat \<Rightarrow> wptr \<Rightarrow> wkind \<Rightarrow> gui \<Rightarrow> gui res" where
  "win_open i p k u = ws_addWin i p (win_create p k u)"

lemma win_open_ok:
  assumes "gui_ok u" "i < totalNumber" "gu_win u p = None" "win_ok (gu_screen u) \<lparr>w_wid = gu_globWid u, w_ws = - 1, w_kind = k\<rparr>"
  shows "\<exists>v. win_open i p k u = Inr v \<and> gui_ok v \<and> ws_wins (gu_wss v ! i) = p # ws_wins (gu_wss u ! i)"
proof -
  let ?w = "\<lparr>w_wid = gu_globWid u, w_ws = - 1, w_kind = k\<rparr>"
  have on: "on_screen (gu_screen u) (w_getOffset ?w) (w_getSize ?w)" using assms(4) by (simp add: win_ok_def)
  have g: "vx (v_add (w_getOffset ?w) (w_getSize ?w)) \<le> vx (s_getSize (gu_screen u))" "vy (v_add (w_getOffset ?w) (w_getSize ?w)) \<le> vy (s_getSize (gu_screen u))"
    using on on_screen_add[OF on] by (simp_all add: v_add_def word_le_nat_alt on_screen_def)
  have un: "unat (of_nat i :: u32) = i" using assms(2) by (simp add: totalNumber_def unat_of_nat)
  have num: "ws_number (gu_wss u ! i) = i" and len: "length (gu_wss u) = totalNumber" using gui_okD[OF assms(1,2)] by simp_all
  let ?v = "put_win p (?w\<lparr>w_ws := of_nat i\<rparr>) (upd_ws i (\<lambda>ws. ws\<lparr>ws_wins := p # ws_wins ws\<rparr>) (win_create p k u))"
  have o: "win_open i p k u = Inr ?v"
    using g num by (simp add: win_open_def ws_addWin_def win_create_def the_win_def put_win_def Let_def)
  have mem: "q \<in> set (ws_wins (gu_wss u ! j)) \<longleftrightarrow> (\<exists>w. gu_win u q = Some w \<and> unat (w_ws w) = j)" if "j < totalNumber" for q j
    using assms(1) that by (simp add: gui_ok_def wins_ok_def)
  have wins: "ws_wins (gu_wss ?v ! j) = (if j = i then p # ws_wins (gu_wss u ! j) else ws_wins (gu_wss u ! j))"
    "ws_number (gu_wss ?v ! j) = j" if "j < totalNumber" for j
    using that len assms(2) gui_okD(1)[OF assms(1)] by (auto simp: put_win_def upd_ws_def win_create_def nth_list_update)
  have dist: "distinct (ws_wins (gu_wss ?v ! j))" if "j < totalNumber" for j
    using wins(1)[OF that] gui_okD(2)[OF assms(1) that] mem[OF that, of p] assms(3) by auto
  have set: "q \<in> set (ws_wins (gu_wss ?v ! j)) \<longleftrightarrow> (\<exists>w. gu_win ?v q = Some w \<and> unat (w_ws w) = j)" if "j < totalNumber" for q j
    using wins(1)[OF that] mem[OF that] assms(3) un by (auto simp: put_win_def upd_ws_def win_create_def)
  have "win_ok (gu_screen u) (?w\<lparr>w_ws := of_nat i\<rparr>)" using assms(4) by (simp add: win_ok_def w_getOffset_def w_getSize_def)
  moreover have "length (gu_wss ?v) = totalNumber" "gu_active ?v = gu_active u" "gu_screen ?v = gu_screen u"
    "gu_kbd ?v = gu_kbd u" "gu_mouse ?v = gu_mouse u" "gu_keymap ?v = gu_keymap u"
    "gu_win ?v = (gu_win u)(p \<mapsto> ?w\<lparr>w_ws := of_nat i\<rparr>)"
    using len by (simp_all add: put_win_def upd_ws_def win_create_def)
  ultimately have "gui_ok ?v" using assms(1,2) un wins(2) dist set unfolding gui_ok_def wins_ok_def by auto
  then show ?thesis using o wins(1)[OF assms(2)] by simp
qed

lemma win_delete_ok:
  assumes "gui_ok u" "gu_win u p \<noteq> None"
  shows "\<exists>v. win_delete p u = Inr v \<and> gui_ok v \<and> gu_win v = (gu_win u)(p := None)"
proof -
  obtain w where w: "gu_win u p = Some w" using assms(2) by auto
  let ?i = "unat (w_ws w)"
  have i: "?i < totalNumber" using assms(1) w by (auto simp: gui_ok_def wins_ok_def)
  have m1: "w_ws w \<noteq> - 1"
  proof
    assume "w_ws w = - 1"
    then have "unat (w_ws w) = 2 ^ 32 - 1" by (simp add: unsigned_minus_1_eq_mask mask_eq_exp_minus_1)
    then show False using i by (simp add: totalNumber_def)
  qed
  have mem: "q \<in> set (ws_wins (gu_wss u ! j)) \<longleftrightarrow> (\<exists>w. gu_win u q = Some w \<and> unat (w_ws w) = j)" if "j < totalNumber" for q j
    using assms(1) that by (simp add: gui_ok_def wins_ok_def)
  have pin: "p \<in> set (ws_wins (gu_wss u ! ?i))" using mem[OF i] w by blast
  let ?v = "(upd_ws ?i (\<lambda>ws. ws\<lparr>ws_wins := remove1 p (ws_wins ws)\<rparr>) u)\<lparr>gu_win := (gu_win u)(p := None)\<rparr>"
  have d: "win_delete p u = Inr ?v" using m1 i pin w by (simp add: win_delete_def ws_remWin_def the_win_def upd_ws_def)
  have len: "length (gu_wss u) = totalNumber" by (rule gui_okD(3)[OF assms(1) i])
  have wins: "ws_wins (gu_wss ?v ! j) = (if j = ?i then remove1 p (ws_wins (gu_wss u ! j)) else ws_wins (gu_wss u ! j))"
    "ws_number (gu_wss ?v ! j) = j" if "j < totalNumber" for j
    using that len i gui_okD(1)[OF assms(1)] by (auto simp: upd_ws_def nth_list_update)
  have "distinct (ws_wins (gu_wss ?v ! j))" if "j < totalNumber" for j
    using wins(1)[OF that] gui_okD(2)[OF assms(1) that] by (cases "j = ?i") auto
  moreover have "q \<in> set (ws_wins (gu_wss ?v ! j)) \<longleftrightarrow> (\<exists>w. gu_win ?v q = Some w \<and> unat (w_ws w) = j)" if "j < totalNumber" for q j
    using wins(1)[OF that] mem[OF that, of q] gui_okD(2)[OF assms(1) that] w by (auto simp: set_remove1_eq)
  moreover have "length (gu_wss ?v) = totalNumber" using len by (simp add: upd_ws_def)
  moreover have "gu_active ?v = gu_active u" "gu_screen ?v = gu_screen u" "gu_kbd ?v = gu_kbd u" "gu_mouse ?v = gu_mouse u" "gu_keymap ?v = gu_keymap u"
    "gu_win ?v = (gu_win u)(p := None)" by (simp_all add: upd_ws_def)
  ultimately have "gui_ok ?v" using assms(1) wins(2) unfolding gui_ok_def wins_ok_def by auto
  then show ?thesis using d by auto
qed

end
