(* ===== verification/Disk.thy ===== *)
theory Disk
  imports Ports
begin

text \<open>
  The IDE disk driver (\<open>src/src/HDD/HardDrive.cpp\<close>) and the partitions on it
  (\<open>Partition.cpp\<close>). The drive is behind the ports of Ports.thy. The automaton \<open>ata\<close> states what the
  ATA standard says a drive does in the commands the driver uses (48 bit addresses, programmed
  input and output), and \<open>ata_device\<close> that the ports are connected to such a drive: it is a
  hypothesis of the theorems about the driver, not a part of the program.
\<close>

section \<open>The driver\<close>

record ptentry =
  pt_bootable :: bool
  pt_systemID :: u8
  pt_begLBA :: u32
  pt_size :: u32

definition decode_ptentry :: "bytes \<Rightarrow> ptentry" where
  "decode_ptentry b = \<lparr>pt_bootable = bit (ld8 0 b) 4, pt_systemID = ld8 4 b, pt_begLBA = ld32 8 b, pt_size = ld32 12 b\<rparr>"

record hdd =
  hd_base :: u16
  hd_master :: bool
  hd_table :: "ptentry list"
  hd_MBR :: bytes

definition hd_new :: "u8 \<Rightarrow> bool \<Rightarrow> hdd res" where
  "hd_new bus master =
    (let h = (\<lambda>base. \<lparr>hd_base = base, hd_master = master, hd_table = replicate 4 (decode_ptentry (replicate 16 0)),
        hd_MBR = replicate 512 0\<rparr>) in
     if bus = 1 then Inr (h 0x1F0) else if bus = 2 then Inr (h 0x170) else Inl Bsod)"

text \<open>The bits of the status byte.\<close>

definition isReadyOrFailed :: "u8 \<Rightarrow> bool" where
  "isReadyOrFailed st \<longleftrightarrow> bit st 0 \<or> bit st 5 \<or> \<not> bit st 7"

definition isOk :: "u8 \<Rightarrow> bool" where
  "isOk st \<longleftrightarrow> \<not> (bit st 0 \<or> bit st 5)"

definition getStatus :: "'io ports \<Rightarrow> hdd \<Rightarrow> 'io \<Rightarrow> u8 \<times> 'io" where
  "getStatus P h io = in8 P (hd_base h + 7) io"

definition isThereADisk :: "'io ports \<Rightarrow> hdd \<Rightarrow> 'io \<Rightarrow> bool \<times> 'io" where
  "isThereADisk P h io = (case in8 P (hd_base h + 7) io of (st, io') \<Rightarrow> (st \<noteq> 0xFF, io'))"

partial_function (option) hd_wait :: "'io ports \<Rightarrow> hdd \<Rightarrow> 'io \<Rightarrow> 'io option" where
  "hd_wait P h io = (case getStatus P h io of (st, io') \<Rightarrow> if isReadyOrFailed st then Some io' else hd_wait P h io')"

text \<open>\<open>while(!getStatus().isReadyOrFailed()){} assert(getStatus().isOk());\<close>\<close>

definition hd_ready :: "'io ports \<Rightarrow> hdd \<Rightarrow> 'io \<Rightarrow> 'io res option" where
  "hd_ready P h io =
    (case hd_wait P h io of None \<Rightarrow> None
     | Some io1 \<Rightarrow> (case getStatus P h io1 of (st, io2) \<Rightarrow> oassert (isOk st) (Some (Inr io2))))"

text \<open>The registers of a command: the high bytes first, then the low ones.\<close>

definition hd_command :: "'io ports \<Rightarrow> hdd \<Rightarrow> u32 \<Rightarrow> u64 \<Rightarrow> u8 \<Rightarrow> 'io \<Rightarrow> 'io" where
  "hd_command P h LBA nbsector cmd io =
    (let b = hd_base h in
     out8 P (b + 7) cmd
     (out8 P (b + 5) (ucast (drop_bit 16 LBA AND 0xFF))
     (out8 P (b + 4) (ucast (drop_bit 8 LBA AND 0xFF))
     (out8 P (b + 3) (ucast (LBA AND 0xFF))
     (out8 P (b + 2) (ucast (nbsector AND 0xFF))
     (out8 P (b + 5) 0
     (out8 P (b + 4) 0
     (out8 P (b + 3) (ucast (drop_bit 24 LBA AND 0xFF))
     (out8 P (b + 2) (ucast (drop_bit 8 nbsector))
     (out8 P (b + 6) (0x40 OR push_bit 4 (if hd_master h then 0 else 1)) io))))))))))"

text \<open>\<open>write_word i\<close> is the body of the loop of \<open>writelba\<close>.\<close>

definition hd_write_word :: "'io ports \<Rightarrow> hdd \<Rightarrow> bytes \<Rightarrow> nat \<Rightarrow> 'io \<Rightarrow> 'io res option" where
  "hd_write_word P h data i io =
    obnd (if i mod 256 = 0 then hd_ready P h io else Some (Inr io)) (\<lambda>io.
      if 2 * i + 2 \<le> length data then Some (Inr (out16 P (hd_base h) (ld16 (2 * i) data) io))
      else Some (Inl OutOfBounds))"

definition hd_writelba :: "'io ports \<Rightarrow> hdd \<Rightarrow> u32 \<Rightarrow> bytes \<Rightarrow> u32 \<Rightarrow> 'io \<Rightarrow> 'io res option" where
  "hd_writelba P h LBA data nbsector io =
    oassert (0 < nbsector \<and> nbsector < 512)
      (obnd (hd_ready P h (hd_command P h LBA (ucast nbsector) 0x34 io)) (\<lambda>io.
       obnd (ofor (hd_write_word P h data) [0..<unat (nbsector * 256)] io) (\<lambda>io.
       hd_ready P h (out8 P (hd_base h + 7) 0xE7 io))))"

fun hd_skip :: "'io ports \<Rightarrow> hdd \<Rightarrow> nat \<Rightarrow> 'io \<Rightarrow> 'io" where
  "hd_skip P h 0 io = io"
| "hd_skip P h (Suc n) io = hd_skip P h n (snd (in16 P (hd_base h) io))"

text \<open>\<open>for( ;size > 1; size -=2 )\<close>, with the words read so far counted in \<open>count\<close>.\<close>

fun hd_read_loop :: "'io ports \<Rightarrow> hdd \<Rightarrow> nat \<Rightarrow> nat \<Rightarrow> bytes \<Rightarrow> 'io \<Rightarrow> (nat \<times> nat \<times> bytes \<times> 'io) res option" where
  "hd_read_loop P h sz count acc io =
    (if 1 < sz then
       obnd (if count mod 256 = 0 then hd_ready P h io else Some (Inr io)) (\<lambda>io.
         case in16 P (hd_base h) io of (w, io) \<Rightarrow>
           hd_read_loop P h (sz - 2) (count + 1) (acc @ [ucast w, ucast (drop_bit 8 w)]) io)
     else Some (Inr (sz, count, acc, io)))"

declare hd_read_loop.simps [simp del]

definition hd_readaddr :: "'io ports \<Rightarrow> hdd \<Rightarrow> u64 \<Rightarrow> u64 \<Rightarrow> 'io \<Rightarrow> (bytes \<times> 'io) res option" where
  "hd_readaddr P h addr sz io =
    oassert (0 < sz \<and> sz < 512 * 512 \<and> addr < push_bit 41 1)
      (let LBA = (ucast (addr div 512) :: u32);
           offset = unat (ucast (addr mod 512) :: u32);
           endLBA = (addr + sz + 511) div 512;
           nbsector = endLBA - ucast LBA in
       obnd (hd_ready P h (hd_command P h LBA nbsector 0x24 io)) (\<lambda>io.
         let io = hd_skip P h (offset div 2) io; count = offset div 2;
             (acc, count, n, io) =
               (if offset mod 2 = 1
                then (case in16 P (hd_base h) io of (d, io) \<Rightarrow> ([ucast (drop_bit 8 d)], count + 1, unat sz - 1, io))
                else ([], count, unat sz, io)) in
         obnd (hd_read_loop P h n count acc io) (\<lambda>(n, count, acc, io).
           let (acc, count, io) =
               (if n = 1 then (case in16 P (hd_base h) io of (d, io) \<Rightarrow> (acc @ [ucast d], count + 1, io))
                else (acc, count, io)) in
           Some (Inr (acc, hd_skip P h (unat (nbsector * 256) - count) io)))))"

definition hd_readlba :: "'io ports \<Rightarrow> hdd \<Rightarrow> u32 \<Rightarrow> u32 \<Rightarrow> 'io \<Rightarrow> (bytes \<times> 'io) res option" where
  "hd_readlba P h LBA nbsector io = hd_readaddr P h (ucast LBA * 512) (ucast nbsector * 512) io"

text \<open>\<open>writeaddr\<close>: the part of the first sector, the whole sectors, the part of the last one.\<close>

definition hd_write_part :: "'io ports \<Rightarrow> hdd \<Rightarrow> u32 \<Rightarrow> nat \<Rightarrow> bytes \<Rightarrow> 'io \<Rightarrow> 'io res option" where
  "hd_write_part P h LBA offset d io =
    obnd (hd_readlba P h LBA 1 io) (\<lambda>(buffer, io). hd_writelba P h LBA (overwrite offset d buffer) 1 io)"

definition hd_write_rest :: "'io ports \<Rightarrow> hdd \<Rightarrow> u32 \<Rightarrow> bytes \<Rightarrow> 'io \<Rightarrow> 'io res option" where
  "hd_write_rest P h LBA d io =
    (let toWriteSectors = (ucast ((of_nat (length d) :: u64) div 512) :: u32) in
     obnd (if 0 < toWriteSectors then hd_writelba P h LBA d toWriteSectors io else Some (Inr io)) (\<lambda>io.
       let LBA = LBA + toWriteSectors; d = drop (unat (512 * toWriteSectors)) d in
       if d \<noteq> [] then hd_write_part P h LBA 0 d io else Some (Inr io)))"

definition hd_writeaddr :: "'io ports \<Rightarrow> hdd \<Rightarrow> u64 \<Rightarrow> bytes \<Rightarrow> 'io \<Rightarrow> 'io res option" where
  "hd_writeaddr P h addr data io =
    oassert (length data < 512 * 512)
      (let LBA = (ucast (addr div 512) :: u32); offset = unat (addr mod 512) in
       if offset \<noteq> 0 then
         let toCopy = min (512 - offset) (length data) in
         obnd (hd_write_part P h LBA offset (take toCopy data) io) (\<lambda>io.
           if toCopy = length data then Some (Inr io)
           else hd_write_rest P h (LBA + 1) (drop toCopy data) io)
       else hd_write_rest P h LBA data io)"

definition hd_init :: "'io ports \<Rightarrow> hdd \<Rightarrow> 'io \<Rightarrow> (hdd \<times> 'io) res option" where
  "hd_init P h io =
    obnd (hd_readlba P h 0 1 io) (\<lambda>(mbr, io).
      Some (Inr (h\<lparr>hd_MBR := mbr, hd_table := map (\<lambda>i. decode_ptentry (drop (0x1be + 16 * i) mbr)) [0..<4]\<rparr>, io)))"

definition hd_partition :: "hdd \<Rightarrow> u8 \<Rightarrow> ptentry res" where
  "hd_partition h i = assertk (0 < i \<and> i \<le> 4) (Inr (hd_table h ! (unat i - 1)))"

definition partWithPred :: "(ptentry \<Rightarrow> bool) \<Rightarrow> hdd \<Rightarrow> ptentry option" where
  "partWithPred pred h = find (\<lambda>e. \<not> (pt_size e = 0 \<or> pt_systemID e = 0) \<and> pred e) (hd_table h)"

section \<open>Partitions\<close>

definition part_getSize :: "ptentry \<Rightarrow> u64" where
  "part_getSize e = ucast (pt_size e) * 512"

definition part_readlba :: "'io ports \<Rightarrow> hdd \<Rightarrow> ptentry \<Rightarrow> u32 \<Rightarrow> u32 \<Rightarrow> 'io \<Rightarrow> (bytes \<times> 'io) res option" where
  "part_readlba P h e LBA nbsector io =
    oassert (LBA + nbsector < pt_size e) (hd_readlba P h (LBA + pt_begLBA e) nbsector io)"

definition part_writelba :: "'io ports \<Rightarrow> hdd \<Rightarrow> ptentry \<Rightarrow> u32 \<Rightarrow> bytes \<Rightarrow> u32 \<Rightarrow> 'io \<Rightarrow> 'io res option" where
  "part_writelba P h e LBA data nbsector io =
    oassert (LBA + nbsector < pt_size e) (hd_writelba P h (LBA + pt_begLBA e) data nbsector io)"

definition part_readaddr :: "'io ports \<Rightarrow> hdd \<Rightarrow> ptentry \<Rightarrow> u64 \<Rightarrow> u64 \<Rightarrow> 'io \<Rightarrow> (bytes \<times> 'io) res option" where
  "part_readaddr P h e addr sz io =
    oassert (addr + sz < part_getSize e) (hd_readaddr P h (addr + ucast (pt_begLBA e) * 512) sz io)"

definition part_writeaddr :: "'io ports \<Rightarrow> hdd \<Rightarrow> ptentry \<Rightarrow> u64 \<Rightarrow> bytes \<Rightarrow> 'io \<Rightarrow> 'io res option" where
  "part_writeaddr P h e addr data io =
    oassert (addr + of_nat (length data) < part_getSize e)
      (hd_writeaddr P h (addr + ucast (pt_begLBA e) * 512) data io)"

section \<open>What an ATA drive does\<close>

text \<open>
  \<open>at_regs\<close> are the last two values written to the ports 2 to 5 (the registers are queues of two
  bytes). While \<open>at_busy\<close> is not zero, the status has the busy bit and the data port gives junk; it
  counts down with each look at the status; a busy drive ignores its registers. How long the drive is busy is arbitrary: the \<open>n\<close>th
  time it gets busy, for \<open>at_lat n\<close> looks.
\<close>

datatype ata_mode = Idle | Reading bytes | Writing nat nat bytes

record ata =
  at_disk :: bytes
  at_cur :: "nat \<Rightarrow> u8"
  at_prev :: "nat \<Rightarrow> u8"
  at_mode :: ata_mode
  at_busy :: nat
  at_lat :: "nat \<Rightarrow> nat"
  at_nth :: nat
  at_junk :: u16

definition ata_delay :: "ata \<Rightarrow> ata" where
  "ata_delay a = a\<lparr>at_busy := at_lat a (at_nth a), at_nth := at_nth a + 1\<rparr>"

definition ata_status :: "ata \<Rightarrow> u8 \<times> ata" where
  "ata_status a = (if at_busy a = 0 then (0x50, a) else (0xD0, a\<lparr>at_busy := at_busy a - 1\<rparr>))"

definition ata_lba :: "ata \<Rightarrow> nat" where
  "ata_lba a = unat (at_cur a 3) + 2 ^ 8 * unat (at_cur a 4) + 2 ^ 16 * unat (at_cur a 5) +
     2 ^ 24 * unat (at_prev a 3) + 2 ^ 32 * unat (at_prev a 4) + 2 ^ 40 * unat (at_prev a 5)"

definition ata_count :: "ata \<Rightarrow> nat" where
  "ata_count a = (let n = unat (at_cur a 2) + 2 ^ 8 * unat (at_prev a 2) in if n = 0 then 65536 else n)"

definition ata_start :: "u8 \<Rightarrow> ata \<Rightarrow> ata" where
  "ata_start cmd a =
    (if cmd = 0x24 then ata_delay (a\<lparr>at_mode := Reading (take (512 * ata_count a) (drop (512 * ata_lba a) (at_disk a)))\<rparr>)
     else if cmd = 0x34 then ata_delay (a\<lparr>at_mode := Writing (512 * ata_lba a) (512 * ata_count a) []\<rparr>)
     else ata_delay (a\<lparr>at_mode := Idle\<rparr>))"

definition ata_out8 :: "nat \<Rightarrow> u8 \<Rightarrow> ata \<Rightarrow> ata" where
  "ata_out8 r v a =
    (if at_busy a \<noteq> 0 then a else if r = 7 then ata_start v a
     else a\<lparr>at_prev := (at_prev a)(r := at_cur a r), at_cur := (at_cur a)(r := v)\<rparr>)"

definition le_pair :: "u8 \<Rightarrow> u8 \<Rightarrow> u16" where
  "le_pair x y = ucast x OR push_bit 8 (ucast y)"

definition ata_in16 :: "ata \<Rightarrow> u16 \<times> ata" where
  "ata_in16 a =
    (case at_mode a of
       Reading (x # y # r) \<Rightarrow>
         if at_busy a = 0 then
           (le_pair x y,
            (let a = a\<lparr>at_mode := if r = [] then Idle else Reading r\<rparr> in
             if r \<noteq> [] \<and> 512 dvd length r then ata_delay a else a))
         else (at_junk a, a)
     | _ \<Rightarrow> (at_junk a, a))"

text \<open>A sector is stored when its last word has arrived.\<close>

definition ata_out16 :: "u16 \<Rightarrow> ata \<Rightarrow> ata" where
  "ata_out16 w a =
    (case at_mode a of
       Writing pos left buf \<Rightarrow>
         if at_busy a = 0 then
           let buf = buf @ [ucast w, ucast (drop_bit 8 w)] in
           if length buf = 512 then
             ata_delay (a\<lparr>at_disk := overwrite pos buf (at_disk a),
               at_mode := if left \<le> 512 then Idle else Writing (pos + 512) (left - 512) []\<rparr>)
           else a\<lparr>at_mode := Writing pos left buf\<rparr>
         else a
     | _ \<Rightarrow> a)"

definition ata_device :: "'io ports \<Rightarrow> u16 \<Rightarrow> ('io \<Rightarrow> ata) \<Rightarrow> bool" where
  "ata_device P base dev \<longleftrightarrow>
    (\<forall>io. case in8 P (base + 7) io of (st, io') \<Rightarrow> (st, dev io') = ata_status (dev io)) \<and>
    (\<forall>io r v. 2 \<le> r \<and> r \<le> 7 \<longrightarrow> dev (out8 P (base + of_nat r) v io) = ata_out8 r v (dev io)) \<and>
    (\<forall>io. case in16 P base io of (w, io') \<Rightarrow> (w, dev io') = ata_in16 (dev io)) \<and>
    (\<forall>io w. dev (out16 P base w io) = ata_out16 w (dev io))"

section \<open>The driver on such a drive\<close>

definition same_drive :: "ata \<Rightarrow> ata \<Rightarrow> bool" where
  "same_drive a a' \<longleftrightarrow> at_disk a' = at_disk a \<and> at_lat a' = at_lat a \<and> at_junk a' = at_junk a"

lemma ata_deviceD:
  assumes "ata_device P b dev"
  shows "in8 P (b + 7) io = (st, io') \<Longrightarrow> ata_status (dev io) = (st, dev io')"
    and "dev (out8 P (b + 2) v io) = ata_out8 2 v (dev io)" "dev (out8 P (b + 3) v io) = ata_out8 3 v (dev io)"
    and "dev (out8 P (b + 4) v io) = ata_out8 4 v (dev io)" "dev (out8 P (b + 5) v io) = ata_out8 5 v (dev io)"
    and "dev (out8 P (b + 6) v io) = ata_out8 6 v (dev io)" "dev (out8 P (b + 7) v io) = ata_out8 7 v (dev io)"
    and "in16 P b io = (w, io') \<Longrightarrow> ata_in16 (dev io) = (w, dev io')"
    and "dev (out16 P b x io) = ata_out16 x (dev io)"
proof -
  have o': "2 \<le> r \<Longrightarrow> r \<le> 7 \<Longrightarrow> dev (out8 P (b + of_nat r) v io) = ata_out8 r v (dev io)" for r v io
    using assms unfolding ata_device_def by blast
  show "dev (out8 P (b + 2) v io) = ata_out8 2 v (dev io)" using o'[of 2] by simp
  show "dev (out8 P (b + 3) v io) = ata_out8 3 v (dev io)" using o'[of 3] by simp
  show "dev (out8 P (b + 4) v io) = ata_out8 4 v (dev io)" using o'[of 4] by simp
  show "dev (out8 P (b + 5) v io) = ata_out8 5 v (dev io)" using o'[of 5] by simp
  show "dev (out8 P (b + 6) v io) = ata_out8 6 v (dev io)" using o'[of 6] by simp
  show "dev (out8 P (b + 7) v io) = ata_out8 7 v (dev io)" using o'[of 7] by simp
  note a = assms[unfolded ata_device_def]
  note i8 = a[THEN conjunct1, THEN spec[of _ io]] and i16 = a[THEN conjunct2, THEN conjunct2, THEN conjunct1, THEN spec[of _ io]]
  show "in8 P (b + 7) io = (st, io') \<Longrightarrow> ata_status (dev io) = (st, dev io')" using i8 by simp
  show "in16 P b io = (w, io') \<Longrightarrow> ata_in16 (dev io) = (w, dev io')" using i16 by simp
  show "dev (out16 P b x io) = ata_out16 x (dev io)" using assms unfolding ata_device_def by blast
qed

lemma status_bits: "isReadyOrFailed 0x50" "isOk 0x50" "\<not> isReadyOrFailed 0xD0"
  by (simp_all add: isReadyOrFailed_def isOk_def)

lemma hd_wait_ok:
  assumes "ata_device P (hd_base h) dev"
  shows "\<exists>io'. hd_wait P h io = Some io' \<and> dev io' = (dev io)\<lparr>at_busy := 0\<rparr>"
proof (induction "at_busy (dev io)" arbitrary: io)
  case 0
  obtain st io' where s: "getStatus P h io = (st, io')" by (cases "getStatus P h io")
  from ata_deviceD(1)[OF assms s[unfolded getStatus_def]] 0 have "st = 0x50" "dev io' = dev io" by (simp_all add: ata_status_def)
  then show ?case using s status_bits 0 by (subst hd_wait.simps) simp
next
  case (Suc n)
  obtain st io' where s: "getStatus P h io = (st, io')" by (cases "getStatus P h io")
  from ata_deviceD(1)[OF assms s[unfolded getStatus_def]] Suc(2)
  have st: "st = 0xD0" "dev io' = (dev io)\<lparr>at_busy := at_busy (dev io) - 1\<rparr>" by (simp_all add: ata_status_def split: if_splits)
  then have "n = at_busy (dev io')" using Suc(2) by simp
  from Suc(1)[OF this] obtain io2 where "hd_wait P h io' = Some io2" "dev io2 = (dev io')\<lparr>at_busy := 0\<rparr>" by blast
  then show ?case using s st status_bits by (subst hd_wait.simps) simp
qed

lemma hd_ready_ok:
  assumes "ata_device P (hd_base h) dev"
  shows "\<exists>io'. hd_ready P h io = Some (Inr io') \<and> dev io' = (dev io)\<lparr>at_busy := 0\<rparr>"
proof -
  from hd_wait_ok[OF assms] obtain io1 where w: "hd_wait P h io = Some io1" "dev io1 = (dev io)\<lparr>at_busy := 0\<rparr>" by blast
  obtain st io2 where s: "getStatus P h io1 = (st, io2)" by (cases "getStatus P h io1")
  from ata_deviceD(1)[OF assms s[unfolded getStatus_def]] w(2) have "st = 0x50" "dev io2 = dev io1" by (simp_all add: ata_status_def)
  then show ?thesis using w s status_bits by (simp add: hd_ready_def)
qed

lemma lba_sum: "x mod 256 + 256 * (x div 256 mod 256) + 65536 * (x div 65536 mod 256) + 16777216 * (x div 16777216) = (x :: nat)"
proof -
  have "x div 65536 = x div 256 div 256" "x div 16777216 = x div 65536 div 256" by (simp_all add: div_mult2_eq[symmetric])
  then show ?thesis
    using div_mult_mod_eq[of x 256] div_mult_mod_eq[of "x div 256" 256] div_mult_mod_eq[of "x div 65536" 256] by linarith
qed

lemma unat_drop: "unat (drop_bit n x) = unat x div 2 ^ n"
  by (metis drop_bit_eq_div unat_drop_bit_eq)

lemma unat_byte:
  "unat (ucast (drop_bit n x AND 0xFF :: 'a::len word) :: u8) = unat x div 2 ^ n mod 256"
proof -
  have "(drop_bit n x AND 0xFF) = take_bit 8 (drop_bit n x)" by (simp add: take_bit_eq_mask mask_eq_exp_minus_1)
  then have "ucast (drop_bit n x AND 0xFF) = (ucast (drop_bit n x) :: u8)"
    by (intro bit_word_eqI) (auto simp: bit_simps)
  then show ?thesis by (simp add: unsigned_ucast_eq take_bit_eq_mod unat_drop del: drop_bit_eq_div)
qed

lemma hd_command_ok:
  assumes "ata_device P (hd_base h) dev" "at_busy (dev io) = 0" "0 < nb" "nb < 2 ^ 16"
  shows "\<exists>a. dev (hd_command P h LBA nb cmd io) = ata_start cmd a \<and> same_drive (dev io) a \<and> at_busy a = 0 \<and>
    ata_lba a = unat LBA \<and> ata_count a = unat nb"
proof -
  note d = ata_deviceD[OF assms(1)]
  define a where "a = ata_out8 5 (ucast (drop_bit 16 LBA AND 0xFF)) (ata_out8 4 (ucast (drop_bit 8 LBA AND 0xFF))
    (ata_out8 3 (ucast (LBA AND 0xFF)) (ata_out8 2 (ucast (nb AND 0xFF)) (ata_out8 5 0 (ata_out8 4 0
    (ata_out8 3 (ucast (drop_bit 24 LBA AND 0xFF)) (ata_out8 2 (ucast (drop_bit 8 nb))
    (ata_out8 6 (0x40 OR push_bit 4 (if hd_master h then 0 else 1)) (dev io)))))))))"
  have regs: "at_cur a 2 = ucast (nb AND 0xFF)" "at_prev a 2 = ucast (drop_bit 8 nb)" "at_cur a 3 = ucast (LBA AND 0xFF)"
    "at_cur a 4 = ucast (drop_bit 8 LBA AND 0xFF)" "at_cur a 5 = ucast (drop_bit 16 LBA AND 0xFF)"
    "at_prev a 3 = ucast (drop_bit 24 LBA AND 0xFF)" "at_prev a 4 = 0" "at_prev a 5 = 0"
    and same: "same_drive (dev io) a" "at_busy a = 0"
    using assms(2) by (simp_all add: a_def ata_out8_def same_drive_def)
  have "dev (hd_command P h LBA nb cmd io) = ata_out8 7 cmd a"
    by (simp add: hd_command_def Let_def d a_def)
  then have "dev (hd_command P h LBA nb cmd io) = ata_start cmd a" using same(2) by (simp add: ata_out8_def)
  moreover have "ata_lba a = unat LBA"
  proof -
    have "unat LBA div 2 ^ 24 mod 256 = unat LBA div 2 ^ 24" using unsigned_less[of LBA, where 'a = nat] by (intro mod_less) (simp add: div_less_iff_less_mult)
    then show ?thesis
      using lba_sum[of "unat LBA"] unat_byte[of 0 LBA] unat_byte[of 8 LBA] unat_byte[of 16 LBA] unat_byte[of 24 LBA]
      by (simp add: ata_lba_def regs)
  qed
  moreover have "ata_count a = unat nb"
  proof -
    have "unat nb < 2 ^ 16" using assms(4) by (simp add: word_less_nat_alt)
    then have "unat (ucast (drop_bit 8 nb) :: u8) = unat nb div 256"
      unfolding unsigned_ucast_eq unat_drop take_bit_eq_mod by (simp add: div_less_iff_less_mult)
    moreover have "unat nb \<noteq> 0" using assms(3) by (simp add: word_neq_0_conv unat_eq_0)
    ultimately show ?thesis
      using unat_byte[of 0 nb] div_mult_mod_eq[of "unat nb" 256] by (simp add: ata_count_def regs Let_def)
  qed
  ultimately show ?thesis using same by blast
qed

text \<open>A drive in the middle of a read command, with the bytes \<open>r\<close> still to come.\<close>

definition rd :: "('io \<Rightarrow> ata) \<Rightarrow> ata \<Rightarrow> bytes \<Rightarrow> 'io \<Rightarrow> bool" where
  "rd dev a r io \<longleftrightarrow> same_drive a (dev io) \<and> at_mode (dev io) = (if r = [] then Idle else Reading r) \<and>
    (at_busy (dev io) = 0 \<or> r \<noteq> [] \<and> 512 dvd length r)"

lemma rd_word:
  assumes "ata_device P (hd_base h) dev" "rd dev a (x # y # r) io" "at_busy (dev io) = 0"
  shows "\<exists>io'. in16 P (hd_base h) io = (le_pair x y, io') \<and> rd dev a r io' \<and>
    (r = [] \<or> \<not> 512 dvd length r \<longrightarrow> at_busy (dev io') = 0)"
proof -
  obtain w io' where i: "in16 P (hd_base h) io = (w, io')" by (cases "in16 P (hd_base h) io")
  then have e: "w = fst (ata_in16 (dev io))" "dev io' = snd (ata_in16 (dev io))" using ata_deviceD(8)[OF assms(1) i] by simp_all
  have m: "at_mode (dev io) = Reading (x # y # r)" using assms(2) by (simp add: rd_def)
  show ?thesis using assms(2,3) by (auto simp: i e m rd_def ata_in16_def same_drive_def ata_delay_def Let_def)
qed

lemma split_word: "(ucast (le_pair x y) :: u8) = x" "(ucast (drop_bit 8 (le_pair x y)) :: u8) = y"
proof -
  have x: "\<not> bit x n" if "8 \<le> n" for n and x :: u8 using bit_imp_le_length[of x n] that by fastforce
  show "(ucast (le_pair x y) :: u8) = x" by (rule bit_word_eqI) (auto simp: le_pair_def bit_simps)
  show "(ucast (drop_bit 8 (le_pair x y)) :: u8) = y"
    by (rule bit_word_eqI) (use x in \<open>auto simp: le_pair_def bit_simps\<close>)
qed

lemma rd_ready:
  assumes "ata_device P (hd_base h) dev" "rd dev a r io"
  shows "\<exists>io'. (if c then hd_ready P h io else Some (Inr io)) = Some (Inr io') \<and> rd dev a r io' \<and>
    (c \<or> \<not> 512 dvd length r \<longrightarrow> at_busy (dev io') = 0)"
proof (cases c)
  case True
  from hd_ready_ok[OF assms(1)] obtain io' where "hd_ready P h io = Some (Inr io')" "dev io' = (dev io)\<lparr>at_busy := 0\<rparr>" by blast
  then show ?thesis using assms(2) True by (simp add: rd_def same_drive_def)
next
  case False
  then show ?thesis using assms(2) by (auto simp: rd_def)
qed

lemma sector_start: "512 dvd l + 2 * count \<Longrightarrow> count mod 256 = 0 \<longleftrightarrow> 512 dvd (l :: nat)"
proof -
  assume "512 dvd l + 2 * count"
  then have "512 dvd l \<longleftrightarrow> 512 dvd 2 * count" using dvd_add_right_iff dvd_add_left_iff by metis
  also have "\<dots> \<longleftrightarrow> 256 dvd count" using nat_mult_dvd_cancel1[of 2 256 count] by simp
  finally show ?thesis by (simp add: dvd_eq_mod_eq_0)
qed

lemma read_loop_ok:
  assumes "ata_device P (hd_base h) dev" "rd dev a r io" "n \<le> length r" "even (length r)" "512 dvd length r + 2 * count"
  shows "\<exists>io'. hd_read_loop P h n count acc io =
      Some (Inr (n mod 2, count + n div 2, acc @ take (2 * (n div 2)) r, io')) \<and> rd dev a (drop (2 * (n div 2)) r) io' \<and>
      (n \<le> 1 \<longrightarrow> io' = io)"
  using assms(2-)
proof (induction n arbitrary: count acc r io rule: less_induct)
  case (less n)
  show ?case
  proof (cases "1 < n")
    case False
    then have "n mod 2 = n" "n div 2 = 0" by auto
    then show ?thesis using False less.prems by (subst hd_read_loop.simps) simp
  next
    case True
    then obtain x y r' where r: "r = x # y # r'" using less.prems(2,3) by (cases r; cases "tl r") auto
    from rd_ready[OF assms(1) less.prems(1), of "count mod 256 = 0"] sector_start[OF less.prems(4)] obtain io1 where
      1: "(if count mod 256 = 0 then hd_ready P h io else Some (Inr io)) = Some (Inr io1)" "rd dev a r io1" "at_busy (dev io1) = 0" by auto
    from rd_word[OF assms(1) 1(2)[unfolded r] 1(3)] obtain io2 where
      2: "in16 P (hd_base h) io1 = (le_pair x y, io2)" "rd dev a r' io2" by blast
    have d: "512 dvd length r' + 2 * (count + 1)" "n - 2 \<le> length r'" "even (length r')" using less.prems(2-4) by (simp_all add: r)
    from less.IH[OF _ 2(2) d(2,3,1), of "acc @ [x, y]"] True obtain io3 where
      3: "hd_read_loop P h (n - 2) (count + 1) (acc @ [x, y]) io2 =
        Some (Inr ((n - 2) mod 2, count + 1 + (n - 2) div 2, (acc @ [x, y]) @ take (2 * ((n - 2) div 2)) r', io3))"
        "rd dev a (drop (2 * ((n - 2) div 2)) r') io3" by auto
    obtain m where m: "n = Suc (Suc m)" using True by (cases n; cases "n - 1") auto
    show ?thesis using 1(1) 2(1) 3 True by (subst hd_read_loop.simps) (simp add: split_word r m)
  qed
qed

lemma skip_ok:
  assumes "ata_device P (hd_base h) dev" "rd dev a r io" "at_busy (dev io) = 0" "2 * n \<le> length r"
    and "\<And>j. 0 < j \<Longrightarrow> j < n \<Longrightarrow> \<not> 512 dvd length r - 2 * j"
  shows "rd dev a (drop (2 * n) r) (hd_skip P h n io) \<and>
    (n = 0 \<or> 2 * n = length r \<or> \<not> 512 dvd length r - 2 * n \<longrightarrow> at_busy (dev (hd_skip P h n io)) = 0)"
  using assms(2-)
proof (induction n arbitrary: r io)
  case 0
  then show ?case by simp
next
  case (Suc n)
  obtain x y r' where r: "r = x # y # r'" using Suc.prems(3) by (cases r; cases "tl r") auto
  from rd_word[OF assms(1) Suc.prems(1)[unfolded r] Suc.prems(2)] obtain io1 where
    1: "in16 P (hd_base h) io = (le_pair x y, io1)" "rd dev a r' io1"
      "r' = [] \<or> \<not> 512 dvd length r' \<Longrightarrow> at_busy (dev io1) = 0" by blast
  show ?case
  proof (cases "n = 0")
    case True
    then show ?thesis using 1 r by auto
  next
    case False
    have "at_busy (dev io1) = 0" using 1(3) Suc.prems(4)[of 1] False r by simp
    moreover have "\<not> 512 dvd length r' - 2 * j" if "0 < j" "j < n" for j using Suc.prems(4)[of "Suc j"] that r by simp
    ultimately show ?thesis using Suc.IH[OF 1(2)] Suc.prems(3) 1(1) r by simp
  qed
qed

lemma rd_idle: "rd dev a r io \<Longrightarrow> length r < 512 \<Longrightarrow> at_busy (dev io) = 0"
  by (auto simp: rd_def dest: dvd_imp_le)

lemma rd_finish:
  assumes "ata_device P (hd_base h) dev" "rd dev a r io" "length r < 512" "even (length r)"
  shows "rd dev a [] (hd_skip P h (length r div 2) io)"
proof -
  have "\<not> 512 dvd length r - 2 * j" if "0 < j" "j < length r div 2" for j
  proof
    assume "512 dvd length r - 2 * j"
    moreover have "0 < length r - 2 * j" using that by linarith
    ultimately have "512 \<le> length r - 2 * j" by (rule dvd_imp_le)
    then show False using assms(3) by simp
  qed
  then show ?thesis using skip_ok[OF assms(1,2) rd_idle[OF assms(2,3)], of "length r div 2"] assms(4) by simp
qed

text \<open>The last byte, when the number of bytes left is odd, and the rest of the last sector.\<close>

lemma read_end:
  assumes "ata_device P (hd_base h) dev" "rd dev a r io" "at_busy (dev io) = 0 \<or> n = 0" "even (length r)" "n \<le> 1" "length r < 512 + n"
    and "n \<le> length r" "length r + 2 * count = 2 * tot"
  shows "\<exists>io'. (let (acc, count, io) = (if n = 1 then (case in16 P (hd_base h) io of (d, io) \<Rightarrow> (acc @ [ucast d], count + 1, io))
        else (acc, count, io)) in (acc, hd_skip P h (tot - count) io)) = (acc @ take n r, io') \<and> rd dev a [] io'"
proof (cases "n = 1")
  case False
  then have "n = 0" using assms(5) by simp
  moreover have "tot - count = length r div 2" using assms(8) by linarith
  ultimately show ?thesis using rd_finish[OF assms(1,2) _ assms(4)] assms(6) by simp
next
  case True
  then obtain x y r' where r: "r = x # y # r'" using assms(4,7) by (cases r; cases "tl r") auto
  from rd_word[OF assms(1) assms(2)[unfolded r]] assms(3) True obtain io1 where
    1: "in16 P (hd_base h) io = (le_pair x y, io1)" "rd dev a r' io1" by auto
  have "tot - (count + 1) = length r' div 2" using assms(8) by (simp add: r)
  then show ?thesis using rd_finish[OF assms(1) 1(2)] assms(4,6) True 1(1) by (simp add: r split_word)
qed

text \<open>The sectors a range of bytes touches.\<close>

lemma sectors:
  fixes A S :: nat
  assumes "0 < S" "nb = (A + S + 511) div 512 - A div 512"
  shows "0 < nb" "A mod 512 + S \<le> 512 * nb" "512 * nb < A mod 512 + S + 512" "512 * (A div 512 + nb) = 512 * ((A + S + 511) div 512)"
proof -
  have "A div 512 < (A + S + 511) div 512"
  proof -
    have "A div 512 + 1 = (A + 512) div 512" by simp
    also have "\<dots> \<le> (A + S + 511) div 512" using assms(1) by (intro div_le_mono) simp
    finally show ?thesis by simp
  qed
  then show "0 < nb" and e: "512 * (A div 512 + nb) = 512 * ((A + S + 511) div 512)" using assms(2) by simp_all
  have a: "512 * (A div 512) + A mod 512 = A" by simp
  have "512 * ((A + S + 511) div 512) + (A + S + 511) mod 512 = A + S + 511" by simp
  moreover have "(A + S + 511) mod 512 < 512" by simp
  moreover have "512 * (A div 512) + 512 * nb = 512 * ((A + S + 511) div 512)" using e by simp
  ultimately have "A mod 512 + S \<le> 512 * nb" "512 * nb < A mod 512 + S + 512" using a by (linarith, linarith)
  then show "A mod 512 + S \<le> 512 * nb" "512 * nb < A mod 512 + S + 512" by simp_all
qed

lemma read_numbers:
  assumes "0 < sz" "sz < 512 * 512" "addr < push_bit 41 (1 :: u64)" "nb = (unat addr + unat sz + 511) div 512 - unat addr div 512"
  shows "unat (ucast (addr div 512) :: u32) = unat addr div 512" "unat (ucast (addr mod 512) :: u32) = unat addr mod 512"
    "unat ((addr + sz + 511) div 512 - ucast (ucast (addr div 512) :: u32)) = nb" "0 < unat sz" "unat sz < 262144" "nb < 514"
proof -
  have s: "0 < unat sz" "unat sz < 262144" using assms(1,2) by (simp_all add: word_less_nat_alt)
  have a: "unat addr < 2 ^ 41" using assms(3) by (simp add: word_less_nat_alt)
  then have q: "unat addr div 512 < 2 ^ 32" by (simp add: div_less_iff_less_mult)
  show 1: "unat (ucast (addr div 512) :: u32) = unat addr div 512"
    using q by (simp add: unsigned_ucast_eq unat_div take_bit_nat_eq_self)
  show "unat (ucast (addr mod 512) :: u32) = unat addr mod 512"
    by (simp add: unsigned_ucast_eq unat_mod take_bit_nat_eq_self)
  have "unat (addr + sz + 511) = unat addr + unat sz + 511"
    using a s by (simp add: unat_word_ariths)
  then have e: "unat ((addr + sz + 511) div 512) = (unat addr + unat sz + 511) div 512" by (simp add: unat_div)
  have u: "unat (ucast (ucast (addr div 512) :: u32) :: u64) = unat addr div 512" using 1 by (simp add: unat_ucast_32_64)
  have "unat addr div 512 \<le> (unat addr + unat sz + 511) div 512" by (intro div_le_mono) simp
  then show "unat ((addr + sz + 511) div 512 - ucast (ucast (addr div 512) :: u32)) = nb"
    using e u assms(4) by (subst unat_sub) (simp_all add: word_le_nat_alt)
  have "512 * nb < unat addr mod 512 + unat sz + 512" using sectors(3)[OF s(1) assms(4)] .
  moreover have "unat addr mod 512 < 512" by simp
  ultimately show "nb < 514" using s by linarith
  show "0 < unat sz" "unat sz < 262144" by (fact s)+
qed


text \<open>\<open>idle\<close>: what every operation starts from and ends in.\<close>

definition ata_idle :: "ata \<Rightarrow> bool" where
  "ata_idle a \<longleftrightarrow> at_busy a = 0 \<and> at_mode a = Idle"

lemma halves: "x mod 2 \<noteq> 1 \<Longrightarrow> 2 * (x div 2) = (x :: nat)" "x mod 2 = 1 \<Longrightarrow> 2 * (x div 2) + 1 = (x :: nat)"
  by presburger+

lemma hd_readaddr_ok:
  assumes dev: "ata_device P (hd_base h) dev" and idle: "at_busy (dev io) = 0"
    and "512 dvd length (at_disk (dev io))" "0 < sz" "sz < 512 * 512" "addr < push_bit 41 1"
    and "unat addr + unat sz \<le> length (at_disk (dev io))" "(unat addr + unat sz) mod 512 \<noteq> 1 \<or> unat sz = 1"
  shows "\<exists>io'. hd_readaddr P h addr sz io = Some (Inr (take (unat sz) (drop (unat addr) (at_disk (dev io))), io')) \<and>
    same_drive (dev io) (dev io') \<and> ata_idle (dev io')"
proof -
  define A where "A = unat addr"
  define S where "S = unat sz"
  define nb where "nb = (A + S + 511) div 512 - A div 512"
  define r0 where "r0 = take (512 * nb) (drop (512 * (A div 512)) (at_disk (dev io)))"
  note num = read_numbers[OF assms(4-6), folded A_def S_def, OF nb_def]
  note sec = sectors[OF num(4) nb_def]
  have l0: "length r0 = 512 * nb"
  proof -
    obtain q where q: "length (at_disk (dev io)) = 512 * q" using assms(3) by (elim dvdE)
    then have "A + S \<le> 512 * q" using assms(7) by (simp add: A_def S_def)
    then have "A + S + 511 < 512 * (q + 1)" by simp
    then have "(A + S + 511) div 512 < q + 1" using div_less_iff_less_mult[of 512 "A + S + 511" "q + 1"] by (simp add: mult.commute)
    then have "512 * (A div 512 + nb) \<le> length (at_disk (dev io))" using sec(4) q by simp
    then show ?thesis by (simp add: r0_def)
  qed
  let ?L = "ucast (addr div 512) :: u32" and ?N = "(addr + sz + 511) div 512 - ucast (ucast (addr div 512) :: u32)"
  have "0 < ?N" "?N < 2 ^ 16" using num(3,6) sec(1) by (simp_all add: word_less_nat_alt)
  from hd_command_ok[OF dev idle this, of ?L "0x24"] obtain a where a: "dev (hd_command P h ?L ?N 0x24 io) = ata_start 0x24 a"
    "same_drive (dev io) a" "ata_lba a = A div 512" "ata_count a = nb" using num(1,3) by (auto simp: A_def)
  have "rd dev (dev io) r0 (hd_command P h ?L ?N 0x24 io)"
    using a l0 sec(1) by (auto simp: rd_def ata_start_def ata_delay_def same_drive_def r0_def)
  from rd_ready[OF dev this, of True] obtain io1 where 1: "hd_ready P h (hd_command P h ?L ?N 0x24 io) = Some (Inr io1)"
    "rd dev (dev io) r0 io1" "at_busy (dev io1) = 0" by auto
  let ?n0 = "A mod 512 div 2"
  have n0: "2 * ?n0 \<le> A mod 512" "A mod 512 < 512" by simp_all
  let ?D = "at_disk (dev io)"
  have nd: "\<not> 512 dvd length r0 - j" if "0 < j" "j < 512" for j
  proof
    assume "512 dvd length r0 - j"
    moreover have "length r0 = length r0 - j + j" using l0 sec(1) that by simp
    ultimately have "512 dvd j" using l0 by (metis dvd_add_right_iff dvd_triv_left)
    then show False using that dvd_imp_le[of 512 j] by simp
  qed
  have odd_end: "S = 1 \<or> \<not> 512 dvd length r0 - (A mod 512 + S - 1)"
  proof (rule disjCI)
    assume "\<not> \<not> 512 dvd length r0 - (A mod 512 + S - 1)"
    moreover have "length r0 = length r0 - (A mod 512 + S - 1) + (A mod 512 + S - 1)" using l0 sec(2) by simp
    ultimately have "512 dvd A mod 512 + S - 1" using l0 by (metis dvd_add_right_iff dvd_triv_left)
    then obtain q where "A mod 512 + S - 1 = 512 * q" by (rule dvdE)
    then have "A mod 512 + S = 512 * q + 1" using num(4) by simp
    then have "(A mod 512 + S) mod 512 = 1" by simp
    then have "(A + S) mod 512 = 1" by (simp add: mod_simps)
    then show "S = 1" using assms(8) by (simp add: A_def S_def)
  qed
  have "rd dev (dev io) (drop (2 * ?n0) r0) (hd_skip P h ?n0 io1) \<and> at_busy (dev (hd_skip P h ?n0 io1)) = 0"
  proof -
    have "0 < 2 * ?n0 \<Longrightarrow> \<not> 512 dvd length r0 - 2 * ?n0" using nd[of "2 * ?n0"] n0 by simp
    then show ?thesis using skip_ok[OF dev 1(2,3), of ?n0] nd n0 l0 sec(1) by fastforce
  qed
  then obtain io2 where 2: "hd_skip P h ?n0 io1 = io2" "rd dev (dev io) (drop (2 * ?n0) r0) io2" "at_busy (dev io2) = 0" by blast
  obtain acc count n io3 r2 where 3: "(if A mod 512 mod 2 = 1
      then (case in16 P (hd_base h) io2 of (d, io) \<Rightarrow> ([ucast (drop_bit 8 d)], ?n0 + 1, S - 1, io))
      else ([], ?n0, S, io2)) = (acc, count, n, io3)"
    and r2: "rd dev (dev io) r2 io3" "acc @ r2 = drop (A mod 512) r0" "n + length acc = S" "length r2 + 2 * count = length r0"
    and b3: "n = 1 \<Longrightarrow> at_busy (dev io3) = 0"
  proof (cases "A mod 512 mod 2 = 1")
    case False
    then have "2 * ?n0 = A mod 512" by (rule halves(1))
    then show ?thesis using that[of "[]" ?n0 S io2 "drop (A mod 512) r0"] 2 False l0 sec(2) by simp
  next
    case True
    then have e: "2 * ?n0 + 1 = A mod 512" by (rule halves(2))
    obtain x y r where r: "drop (2 * ?n0) r0 = x # y # r"
    proof -
      have "length (drop (2 * ?n0) r0) = 512 * nb - 2 * ?n0" using l0 by simp
      then have "2 \<le> length (drop (2 * ?n0) r0)" using e sec(1) n0(2) by linarith
      then show ?thesis using that by (cases "drop (2 * ?n0) r0"; cases "tl (drop (2 * ?n0) r0)") auto
    qed
    from rd_word[OF dev 2(2)[unfolded r] 2(3)] obtain io3 where
      i: "in16 P (hd_base h) io2 = (le_pair x y, io3)" "rd dev (dev io) r io3" "r = [] \<or> \<not> 512 dvd length r \<Longrightarrow> at_busy (dev io3) = 0" by blast
    have d: "drop (A mod 512) r0 = y # r" using arg_cong[OF r, of "drop 1"] e by (simp add: add.commute)
    have lr: "length r + 2 * (?n0 + 1) = length r0" using arg_cong[OF r, of length] l0 sec(1) n0(2) by simp
    have "at_busy (dev io3) = 0" if "S - 1 = 1"
    proof -
      have "length r = length r0 - (A mod 512 + S - 1)" using that lr e by simp
      moreover have "S \<noteq> 1" using that by simp
      ultimately show ?thesis using odd_end i(3) by metis
    qed
    then show ?thesis using that[of "[y]" "?n0 + 1" "S - 1" io3 r] i(1,2) True d lr num(4) by (simp add: split_word)
  qed
  have n2: "n \<le> length r2" using arg_cong[OF r2(2), of length] r2(3) l0 sec(2) by simp
  have "even (length r2 + 2 * count)" "512 dvd length r2 + 2 * count" using r2(4) l0 by simp_all
  then have ev: "even (length r2)" "512 dvd length r2 + 2 * count" by simp_all
  from read_loop_ok[OF dev r2(1) n2 ev, of acc] obtain io4 where
    4: "hd_read_loop P h n count acc io3 = Some (Inr (n mod 2, count + n div 2, acc @ take (2 * (n div 2)) r2, io4))"
      "rd dev (dev io) (drop (2 * (n div 2)) r2) io4" "n \<le> 1 \<Longrightarrow> io4 = io3" by blast
  let ?r3 = "drop (2 * (n div 2)) r2"
  have nn: "n = 2 * (n div 2) + n mod 2" by simp
  have l3: "length ?r3 = length r0 - (A mod 512 + S) + n mod 2"
  proof -
    have "length acc + length r2 = length r0 - A mod 512" using arg_cong[OF r2(2), of length] by simp
    then show ?thesis using r2(3) nn n2 l0 sec(2) unfolding length_drop by linarith
  qed
  have b4: "at_busy (dev io4) = 0 \<or> n mod 2 = 0"
  proof (cases "n \<le> 1")
    case True
    then show ?thesis using 4(3) b3 by (cases "n = 0") auto
  next
    case False
    then have "S \<noteq> 1" using r2(3) by simp
    moreover have "n mod 2 = 1 \<Longrightarrow> length ?r3 = length r0 - (A mod 512 + S - 1)" using l3 l0 sec(2) num(4) by linarith
    ultimately have "n mod 2 = 1 \<Longrightarrow> at_busy (dev io4) = 0" using odd_end 4(2) by (auto simp: rd_def)
    then show ?thesis by auto
  qed
  have e3: "even (length ?r3)" "n mod 2 \<le> 1" "length ?r3 < 512 + n mod 2" "n mod 2 \<le> length ?r3"
    "length ?r3 + 2 * (count + n div 2) = 2 * (256 * nb)"
  proof -
    show "even (length ?r3)" using ev(1) by simp
    show "n mod 2 \<le> 1" by simp
    show "length ?r3 < 512 + n mod 2" using l3 l0 sec(2,3) by linarith
    show "n mod 2 \<le> length ?r3" using l3 by simp
    have "2 * (n div 2) \<le> length r2" using n2 nn by linarith
    then have "length ?r3 + 2 * (n div 2) = length r2" by simp
    then show "length ?r3 + 2 * (count + n div 2) = 2 * (256 * nb)" using r2(4) l0 by (simp add: distrib_left)
  qed
  obtain io5 where 5: "(let (acc, count, io) = (if n mod 2 = 1 then (case in16 P (hd_base h) io4 of (d, io) \<Rightarrow>
        ((acc @ take (2 * (n div 2)) r2) @ [ucast d], count + n div 2 + 1, io))
        else (acc @ take (2 * (n div 2)) r2, count + n div 2, io4)) in (acc, hd_skip P h (256 * nb - count) io)) =
      ((acc @ take (2 * (n div 2)) r2) @ take (n mod 2) ?r3, io5)" "rd dev (dev io) [] io5"
    using read_end[OF dev 4(2) b4 e3(1-5), of "acc @ take (2 * (n div 2)) r2"] by blast
  have data: "(acc @ take (2 * (n div 2)) r2) @ take (n mod 2) ?r3 = take S (drop A ?D)"
  proof -
    have "take (2 * (n div 2)) r2 @ take (n mod 2) ?r3 = take n r2" using nn by (metis take_add)
    then have "(acc @ take (2 * (n div 2)) r2) @ take (n mod 2) ?r3 = take S (drop (A mod 512) r0)"
      unfolding r2(2)[symmetric] r2(3)[symmetric] by simp
    also have "\<dots> = take S (drop A ?D)"
    proof -
      have "A mod 512 + 512 * (A div 512) = A" by simp
      moreover have "min S (512 * nb - A mod 512) = S" using sec(2) by linarith
      ultimately show ?thesis unfolding r0_def drop_take drop_drop take_take by simp
    qed
    finally show ?thesis .
  qed
  have "hd_readaddr P h addr sz io = Some (Inr (take S (drop A ?D), io5))"
  proof -
    have "unat (x * 256) = 256 * unat x" if "unat x < 514" for x :: u64 using that by (simp add: unat_word_ariths)
    then have c: "unat (?N * 256) = 256 * nb" using num(3,6) by metis
    have g: "0 < sz \<and> sz < 512 * 512 \<and> addr < push_bit 41 1" using assms(4-6) by simp
    have n0': "unat (ucast (addr mod 512) :: u32) = A mod 512" using num(2) by (simp add: A_def)
    have "hd_readaddr P h addr sz io = obnd (hd_read_loop P h n count acc io3) (\<lambda>(n, count, acc, io).
       let (acc, count, io) = (if n = 1 then (case in16 P (hd_base h) io of (d, io) \<Rightarrow> (acc @ [ucast d], count + 1, io))
                else (acc, count, io)) in Some (Inr (acc, hd_skip P h (256 * nb - count) io)))"
      by (simp only: hd_readaddr_def Let_def g oassert_True n0' 1(1) obnd_simps 2(1) S_def[symmetric] 3 prod.case c simp_thms)
    then show ?thesis using 5(1) unfolding data by (auto simp: 4(1) Let_def split: if_splits prod.splits)
  qed
  moreover have "same_drive (dev io) (dev io5) \<and> ata_idle (dev io5)" using 5(2) by (auto simp: rd_def ata_idle_def)
  ultimately show ?thesis unfolding A_def S_def by blast
qed

lemma overwrite_split:
  assumes "c \<le> length d" "p + length d \<le> length b"
  shows "overwrite (p + c) (drop c d) (overwrite p (take c d) b) = overwrite p d b"
  using overwrite_append[of p "take c d" "drop c d" b] assms by simp

lemma overwrite_part:
  assumes "p + n \<le> length b" "off + length d \<le> n"
  shows "overwrite p (overwrite off d (take n (drop p b))) b = overwrite (p + off) d b"
proof (rule nth_equalityI)
  have l: "length (overwrite off d (take n (drop p b))) = n" using assms by simp
  show "length (overwrite p (overwrite off d (take n (drop p b))) b) = length (overwrite (p + off) d b)" using assms l by simp
  fix i assume "i < length (overwrite p (overwrite off d (take n (drop p b))) b)"
  then have i: "i < length b" using assms l by simp
  show "overwrite p (overwrite off d (take n (drop p b))) b ! i = overwrite (p + off) d b ! i"
    using assms i l by (auto simp: nth_overwrite)
qed

lemma ld16_bytes:
  assumes "a + 2 \<le> length b"
  shows "[ucast (ld16 a b), ucast (drop_bit 8 (ld16 a b))] = take 2 (drop a b)"
proof -
  have "2 \<le> length (drop a b)" using assms by simp
  then obtain x y r where r: "drop a b = x # y # r"
    by (cases "drop a b"; cases "tl (drop a b)") auto
  have "ld16 a b = of_nat (unat x + 256 * unat y)" by (simp add: ld16_def le_word_def r numeral_2_eq_2)
  also have "\<dots> = le_pair x y"
  proof -
    have "of_nat (unat x + 256 * unat y) = (ucast x + push_bit 8 (ucast y) :: u16)"
      by (simp add: push_bit_eq_mult mult.commute)
    also have "\<dots> = le_pair x y"
      unfolding le_pair_def by (rule disjunctive_add) (use bit_imp_le_length[of x] in \<open>fastforce simp: bit_simps\<close>)
    finally show ?thesis .
  qed
  finally show ?thesis by (simp add: split_word r)
qed

text \<open>A drive in the middle of a write command, after \<open>i\<close> words.\<close>

definition wr :: "('io \<Rightarrow> ata) \<Rightarrow> ata \<Rightarrow> nat \<Rightarrow> nat \<Rightarrow> bytes \<Rightarrow> nat \<Rightarrow> 'io \<Rightarrow> bool" where
  "wr dev a L nb data i io \<longleftrightarrow> at_lat (dev io) = at_lat a \<and> at_junk (dev io) = at_junk a \<and>
    at_disk (dev io) = overwrite (512 * L) (take (512 * (i div 256)) data) (at_disk a) \<and>
    at_mode (dev io) = (if i = 256 * nb then Idle
      else Writing (512 * (L + i div 256)) (512 * (nb - i div 256)) (take (2 * (i mod 256)) (drop (512 * (i div 256)) data))) \<and>
    (at_busy (dev io) = 0 \<or> i mod 256 = 0)"

lemma wr_step:
  assumes dev: "ata_device P (hd_base h) dev" and wr: "wr dev a L nb data i io"
    and "i < 256 * nb" "512 * nb \<le> length data" "512 * (L + nb) \<le> length (at_disk a)"
  shows "\<exists>io'. hd_write_word P h data i io = Some (Inr io') \<and> wr dev a L nb data (Suc i) io'"
proof -
  obtain io1 where 1: "(if i mod 256 = 0 then hd_ready P h io else Some (Inr io)) = Some (Inr io1)" "at_busy (dev io1) = 0"
    "dev io1 = (dev io)\<lparr>at_busy := 0\<rparr>"
  proof (cases "i mod 256 = 0")
    case True
    then show ?thesis using that hd_ready_ok[OF dev, of io] by fastforce
  next
    case False
    then show ?thesis using that[of io] wr by (simp add: wr_def)
  qed
  let ?q = "i div 256" and ?m = "i mod 256"
  have i: "i = 256 * ?q + ?m" "?m < 256" "?q < nb" using assms(3) by (simp_all add: div_less_iff_less_mult mult.commute)
  have "2 * i + 2 \<le> length data" using assms(3,4) by linarith
  then have w: "[ucast (ld16 (2 * i) data), ucast (drop_bit 8 (ld16 (2 * i) data))] = take 2 (drop (2 * i) data)" by (rule ld16_bytes)
  have di: "drop (2 * i) data = drop (2 * ?m) (drop (512 * ?q) data)"
    unfolding drop_drop by (rule arg_cong[where f = "\<lambda>n. drop n data"]) (use i(1) in linarith)
  let ?buf = "take (2 * ?m) (drop (512 * ?q) data)"
  have buf: "?buf @ take 2 (drop (2 * i) data) = take (2 * ?m + 2) (drop (512 * ?q) data)"
    unfolding di by (rule take_add[symmetric])
  have m: "at_mode (dev io1) = Writing (512 * (L + ?q)) (512 * (nb - ?q)) ?buf"
    using wr assms(3) by (simp add: wr_def 1(3))
  let ?io2 = "out16 P (hd_base h) (ld16 (2 * i) data) io1"
  have lb: "length (take (2 * ?m + 2) (drop (512 * ?q) data)) = 2 * ?m + 2"
  proof -
    have "512 * ?q + (2 * ?m + 2) \<le> length data" using \<open>2 * i + 2 \<le> length data\<close> i(1) by linarith
    then show ?thesis by simp
  qed
  have o': "dev ?io2 = (let buf = take (2 * ?m + 2) (drop (512 * ?q) data) in
     if length buf = 512 then ata_delay ((dev io1)\<lparr>at_disk := overwrite (512 * (L + ?q)) buf (at_disk (dev io1)),
       at_mode := if 512 * (nb - ?q) \<le> 512 then Idle else Writing (512 * (L + ?q) + 512) (512 * (nb - ?q) - 512) []\<rparr>)
     else (dev io1)\<lparr>at_mode := Writing (512 * (L + ?q)) (512 * (nb - ?q)) buf\<rparr>)"
    unfolding ata_deviceD(9)[OF dev] ata_out16_def m ata_mode.case 1(2) if_P[OF refl] w buf by (rule refl)
  have st: "hd_write_word P h data i io = Some (Inr ?io2)"
    using 1(1) \<open>2 * i + 2 \<le> length data\<close> by (simp add: hd_write_word_def)
  show ?thesis
  proof (cases "?m = 255")
    case False
    then have s: "Suc i div 256 = ?q" "Suc i mod 256 = ?m + 1" by (simp_all add: div_Suc mod_Suc)
    then have s3: "Suc i \<noteq> 256 * nb" by (metis mod_mult_self1_is_0 Suc_eq_plus1 nat.distinct(1))
    have "length (take (2 * ?m + 2) (drop (512 * ?q) data)) \<noteq> 512" using lb False by simp
    then have "dev ?io2 = (dev io1)\<lparr>at_mode := Writing (512 * (L + ?q)) (512 * (nb - ?q)) (take (2 * ?m + 2) (drop (512 * ?q) data))\<rparr>"
      using o' by (simp add: Let_def)
    then show ?thesis using st wr by (simp add: wr_def s s3 1(2,3))
  next
    case True
    then have s: "Suc i div 256 = ?q + 1" "Suc i mod 256 = 0" by (simp_all add: div_Suc mod_Suc)
    let ?b = "take 512 (drop (512 * ?q) data)"
    have q: "512 * ?q + 512 \<le> 512 * nb" using i(3) by linarith
    have e: "take (2 * ?m + 2) (drop (512 * ?q) data) = ?b" by (simp add: True)
    have "length ?b = 512" using lb unfolding e by (simp add: True)
    moreover have "overwrite (512 * (L + ?q)) ?b (overwrite (512 * L) (take (512 * ?q) data) (at_disk a)) =
      overwrite (512 * L) (take (512 * (?q + 1)) data) (at_disk a)"
    proof -
      have "length (take (512 * ?q) data) = 512 * ?q" using q assms(4) by simp
      moreover have "512 * (?q + 1) = 512 * ?q + 512" by simp
      ultimately show ?thesis
        using overwrite_append[of "512 * L" "take (512 * ?q) data" ?b "at_disk a"] q assms(4,5) \<open>length ?b = 512\<close>
        by (simp only: take_add) (simp add: distrib_left)
    qed
    moreover have "Suc i = 256 * nb \<longleftrightarrow> 512 * (nb - ?q) \<le> 512" using i True by linarith
    ultimately have "wr dev a L nb data (Suc i) ?io2"
      using o' wr unfolding e by (simp add: Let_def wr_def s 1(2,3) ata_delay_def distrib_left diff_mult_distrib2 add.commute)
    then show ?thesis using st by blast
  qed
qed

lemma wr_loop:
  assumes "ata_device P (hd_base h) dev" "wr dev a L nb data 0 io" "512 * nb \<le> length data"
    and "512 * (L + nb) \<le> length (at_disk a)" "i \<le> 256 * nb"
  shows "\<exists>io'. ofor (hd_write_word P h data) [0..<i] io = Some (Inr io') \<and> wr dev a L nb data i io'"
  using assms(5)
proof (induction i)
  case 0
  then show ?case using assms(2) by simp
next
  case (Suc i)
  then obtain io1 where 1: "ofor (hd_write_word P h data) [0..<i] io = Some (Inr io1)" "wr dev a L nb data i io1" by auto
  from wr_step[OF assms(1) 1(2) _ assms(3,4)] Suc.prems obtain io2 where
    "hd_write_word P h data i io1 = Some (Inr io2)" "wr dev a L nb data (Suc i) io2" by auto
  then show ?case using 1(1) by (simp add: ofor_append)
qed

text \<open>The command that flushes the drive's cache is sent without waiting for the drive, which may ignore it.\<close>

lemma hd_writelba_ok:
  assumes dev: "ata_device P (hd_base h) dev" and idle: "at_busy (dev io) = 0"
    and "0 < nbs" "nbs < 512" "512 * unat nbs \<le> length data" "512 * (unat LBA + unat nbs) \<le> length (at_disk (dev io))"
  shows "\<exists>io'. hd_writelba P h LBA data nbs io = Some (Inr io') \<and> ata_idle (dev io') \<and>
    same_drive ((dev io)\<lparr>at_disk := overwrite (512 * unat LBA) (take (512 * unat nbs) data) (at_disk (dev io))\<rparr>) (dev io')"
proof -
  define nb where "nb = unat nbs"
  have n: "0 < nb" "nb < 512" using assms(3,4) by (simp_all add: nb_def word_less_nat_alt)
  have u: "unat (ucast nbs :: u64) = nb" by (simp add: nb_def)
  then have "0 < (ucast nbs :: u64)" "(ucast nbs :: u64) < 2 ^ 16" using n by (simp_all add: word_less_nat_alt)
  from hd_command_ok[OF dev idle this, of LBA "0x34"] obtain a where a: "dev (hd_command P h LBA (ucast nbs) 0x34 io) = ata_start 0x34 a"
    "same_drive (dev io) a" "ata_lba a = unat LBA" "ata_count a = nb" using u by auto
  from hd_ready_ok[OF dev, of "hd_command P h LBA (ucast nbs) 0x34 io"] obtain io1 where
    1: "hd_ready P h (hd_command P h LBA (ucast nbs) 0x34 io) = Some (Inr io1)"
      "dev io1 = (ata_start 0x34 a)\<lparr>at_busy := 0\<rparr>" using a(1) by auto
  have "wr dev (dev io) (unat LBA) nb data 0 io1"
    using a(2-4) n(1) by (simp add: wr_def 1(2) ata_start_def ata_delay_def same_drive_def overwrite_def)
  from wr_loop[OF dev this, of "256 * nb"] assms(5,6) obtain io2 where
    2: "ofor (hd_write_word P h data) [0..<256 * nb] io1 = Some (Inr io2)" "wr dev (dev io) (unat LBA) nb data (256 * nb) io2"
    by (auto simp: nb_def)
  have m: "unat (nbs * 256) = 256 * nb" using n by (simp add: unat_word_ariths nb_def)
  let ?io3 = "out8 P (hd_base h + 7) 0xE7 io2"
  obtain io4 where 4: "hd_ready P h ?io3 = Some (Inr io4)" "dev io4 = (dev ?io3)\<lparr>at_busy := 0\<rparr>"
    using hd_ready_ok[OF dev, of ?io3] by blast
  have "hd_writelba P h LBA data nbs io = Some (Inr io4)"
    using assms(3,4) by (simp add: hd_writelba_def 1(1) m 2(1) 4(1))
  moreover have "dev ?io3 = ata_out8 7 0xE7 (dev io2)" by (rule ata_deviceD(7)[OF dev])
  ultimately show ?thesis using 2(2) 4(2)
    by (auto simp: wr_def ata_idle_def same_drive_def ata_out8_def ata_start_def ata_delay_def nb_def)
qed

lemma same_drive_lba: "same_drive a a' \<Longrightarrow> length (at_disk a') = length (at_disk a)"
  by (simp add: same_drive_def)

lemma hd_readlba_ok:
  assumes "ata_device P (hd_base h) dev" "at_busy (dev io) = 0" "512 dvd length (at_disk (dev io))"
    and "512 * (unat LBA + 1) \<le> length (at_disk (dev io))"
  shows "\<exists>io'. hd_readlba P h LBA 1 io = Some (Inr (take 512 (drop (512 * unat LBA) (at_disk (dev io))), io')) \<and>
    same_drive (dev io) (dev io') \<and> ata_idle (dev io')"
proof -
  have u: "unat (ucast LBA * 512 :: u64) = 512 * unat LBA"
    using unat_lt32[of LBA] by (simp add: unat_word_ariths)
  have b: "(ucast LBA * 512 :: u64) < push_bit 41 1"
    using unat_lt32[of LBA] unfolding word_less_nat_alt u by simp
  have "(512 * unat LBA + 512) mod 512 \<noteq> 1" by (simp add: mod_simps)
  then show ?thesis
    using hd_readaddr_ok[OF assms(1-3), of 512 "ucast LBA * 512"] assms(4) b u
    by (simp add: hd_readlba_def)
qed

lemma hd_write_part_ok:
  assumes "ata_device P (hd_base h) dev" "at_busy (dev io) = 0" "512 dvd length (at_disk (dev io))"
    and "512 * (unat LBA + 1) \<le> length (at_disk (dev io))" "off + length d \<le> 512"
  shows "\<exists>io'. hd_write_part P h LBA off d io = Some (Inr io') \<and> ata_idle (dev io') \<and>
    same_drive ((dev io)\<lparr>at_disk := overwrite (512 * unat LBA + off) d (at_disk (dev io))\<rparr>) (dev io')"
proof -
  let ?D = "at_disk (dev io)"
  let ?b = "overwrite off d (take 512 (drop (512 * unat LBA) ?D))"
  from hd_readlba_ok[OF assms(1-4)] obtain io1 where
    1: "hd_readlba P h LBA 1 io = Some (Inr (take 512 (drop (512 * unat LBA) ?D), io1))" "same_drive (dev io) (dev io1)" "ata_idle (dev io1)"
    by blast
  have l: "length ?b = 512" using assms(4,5) by simp
  from hd_writelba_ok[OF assms(1), of io1 1 ?b LBA] 1(2,3) l assms(4) obtain io2 where
    2: "hd_writelba P h LBA ?b 1 io1 = Some (Inr io2)" "ata_idle (dev io2)"
      "same_drive ((dev io1)\<lparr>at_disk := overwrite (512 * unat LBA) (take 512 ?b) (at_disk (dev io1))\<rparr>) (dev io2)"
    by (auto simp: ata_idle_def same_drive_def)
  have "overwrite (512 * unat LBA) ?b ?D = overwrite (512 * unat LBA + off) d ?D"
    using assms(4,5) by (intro overwrite_part) simp_all
  then show ?thesis using 1 2 l by (simp add: hd_write_part_def same_drive_def)
qed

lemma hd_write_rest_ok:
  assumes dev: "ata_device P (hd_base h) dev" and idle: "ata_idle (dev io)" and dvd: "512 dvd length (at_disk (dev io))"
    and fit: "512 * unat LBA + length d \<le> length (at_disk (dev io))" and len: "length d < 512 * 512"
    and lba: "length (at_disk (dev io)) \<le> 2 ^ 41"
  shows "\<exists>io'. hd_write_rest P h LBA d io = Some (Inr io') \<and> ata_idle (dev io') \<and>
    same_drive ((dev io)\<lparr>at_disk := overwrite (512 * unat LBA) d (at_disk (dev io))\<rparr>) (dev io')"
proof -
  define n where "n = length d div 512"
  let ?S = "ucast ((of_nat (length d) :: u64) div 512) :: u32"
  have "unat ((of_nat (length d) :: u64) div 512) = n" using len by (simp add: unat_div unat_of_nat64 n_def)
  moreover have "n < 512" unfolding n_def using len by (intro less_mult_imp_div_less) simp
  ultimately have S: "unat ?S = n" by (simp add: unsigned_ucast_eq take_bit_nat_eq_self)
  have nl: "length d = 512 * n + length d mod 512" by (simp add: n_def)
  let ?D = "at_disk (dev io)"
  obtain io1 where 1: "(if 0 < ?S then hd_writelba P h LBA d ?S io else Some (Inr io)) = Some (Inr io1)" "ata_idle (dev io1)"
    "same_drive ((dev io)\<lparr>at_disk := overwrite (512 * unat LBA) (take (512 * n) d) ?D\<rparr>) (dev io1)"
  proof (cases "0 < ?S")
    case True
    have "?S < 512" using \<open>n < 512\<close> S by (simp add: word_less_nat_alt)
    from hd_writelba_ok[OF dev _ True this, of io d LBA] S nl fit idle show ?thesis using that True by (auto simp: ata_idle_def)
  next
    case False
    then have "?S = 0" by (metis word_gt_0)
    then have "n = 0" using S by (metis unat_0)
    then show ?thesis using that[of io] False idle by (simp add: same_drive_def overwrite_def)
  qed
  have u: "unat (512 * ?S) = 512 * n" using S \<open>n < 512\<close> by (simp add: unat_word_ariths)
  show ?thesis
  proof (cases "drop (512 * n) d = []")
    case True
    then have "take (512 * n) d = d" by simp
    then show ?thesis using 1 True by (simp add: hd_write_rest_def u)
  next
    case False
    have lr: "length (drop (512 * n) d) = length d mod 512" using nl by simp
    have r: "0 < length d mod 512" "length d mod 512 < 512" using False lr by simp_all
    have L': "unat (LBA + ?S) = unat LBA + n"
    proof -
      have "512 * (unat LBA + n) < length ?D" using fit nl r unfolding distrib_left by linarith
      from less_le_trans[OF this lba] have "512 * (unat LBA + n) < 2 ^ 41" .
      then show ?thesis using S by (simp add: unat_word_ariths)
    qed
    have le: "512 * (unat (LBA + ?S) + 1) \<le> length ?D"
    proof -
      obtain q where q: "length ?D = 512 * q" using dvd by (elim dvdE)
      then have "512 * (unat LBA + n) < 512 * q" using fit nl r unfolding distrib_left by linarith
      then have "unat LBA + n < q" by (simp only: mult_less_cancel1)
      then show ?thesis using q L' by simp
    qed
    have "512 * unat LBA + 512 * n \<le> length ?D" "512 * n \<le> length d" using fit nl by linarith+
    then have l1: "length (at_disk (dev io1)) = length ?D" "at_busy (dev io1) = 0" using 1(2,3) by (simp_all add: same_drive_def ata_idle_def)
    from hd_write_part_ok[OF dev l1(2), of "LBA + ?S" 0 "drop (512 * n) d"] l1 dvd le lr r obtain io2 where
      2: "hd_write_part P h (LBA + ?S) 0 (drop (512 * n) d) io1 = Some (Inr io2)" "ata_idle (dev io2)"
        "same_drive ((dev io1)\<lparr>at_disk := overwrite (512 * unat (LBA + ?S)) (drop (512 * n) d) (at_disk (dev io1))\<rparr>) (dev io2)"
      by auto
    have "overwrite (512 * (unat LBA + n)) (drop (512 * n) d) (overwrite (512 * unat LBA) (take (512 * n) d) ?D) = overwrite (512 * unat LBA) d ?D"
    proof -
      have "length (take (512 * n) d) = 512 * n" using nl by simp
      then show ?thesis using overwrite_append[of "512 * unat LBA" "take (512 * n) d" "drop (512 * n) d" ?D] fit
        by (simp add: distrib_left)
    qed
    then show ?thesis using 1 2 False by (simp add: hd_write_rest_def u same_drive_def L')
  qed
qed

lemma hd_writeaddr_ok:
  assumes dev: "ata_device P (hd_base h) dev" and idle: "ata_idle (dev io)" and dvd: "512 dvd length (at_disk (dev io))"
    and fit: "unat addr + length data \<le> length (at_disk (dev io))" and len: "length data < 512 * 512"
    and lba: "length (at_disk (dev io)) \<le> 2 ^ 41" and ne: "data \<noteq> []"
  shows "\<exists>io'. hd_writeaddr P h addr data io = Some (Inr io') \<and> ata_idle (dev io') \<and>
    same_drive ((dev io)\<lparr>at_disk := overwrite (unat addr) data (at_disk (dev io))\<rparr>) (dev io')"
proof -
  define A where "A = unat addr"
  let ?D = "at_disk (dev io)" and ?L = "ucast (addr div 512) :: u32"
  have A: "A = 512 * (A div 512) + A mod 512" "A mod 512 < 512" by simp_all
  have ld: "0 < length data" using ne by simp
  then have "A < length ?D" using fit unfolding A_def by linarith
  from less_le_trans[OF this lba] have lt: "A < 2 ^ 41" .
  then have "A div 512 < 2 ^ 32" by (simp add: div_less_iff_less_mult)
  then have L: "unat ?L = A div 512" by (simp add: unsigned_ucast_eq unat_div take_bit_nat_eq_self A_def)
  have off: "unat (addr mod 512) = A mod 512" by (simp add: unat_mod A_def)
  have off0: "addr mod 512 = 0 \<longleftrightarrow> A mod 512 = 0" using off by (metis unat_0 unat_eq_zero)
  show ?thesis
  proof (cases "A mod 512 = 0")
    case True
    then have "512 * unat ?L = A" using A L by simp
    then show ?thesis using hd_write_rest_ok[OF dev idle dvd, of ?L data] fit len lba off True
      by (simp add: hd_writeaddr_def A_def)
  next
    case False
    let ?c = "min (512 - A mod 512) (length data)"
    have c: "A mod 512 + length (take ?c data) \<le> 512" "?c \<le> length data" using A(2) by auto
    have le: "512 * (unat ?L + 1) \<le> length ?D"
    proof -
      obtain q where q: "length ?D = 512 * q" using dvd by (elim dvdE)
      have "512 * (A div 512) < 512 * q" using ld fit A q unfolding A_def[symmetric] by linarith
      then show ?thesis using q L by simp
    qed
    have b: "at_busy (dev io) = 0" using idle by (simp add: ata_idle_def)
    from hd_write_part_ok[OF dev b dvd le c(1)] L A obtain io1 where
      1: "hd_write_part P h ?L (A mod 512) (take ?c data) io = Some (Inr io1)" "ata_idle (dev io1)"
        "same_drive ((dev io)\<lparr>at_disk := overwrite A (take ?c data) ?D\<rparr>) (dev io1)" by auto
    show ?thesis
    proof (cases "?c = length data")
      case True
      then show ?thesis using 1 len False off by (simp add: hd_writeaddr_def A_def)
    next
      case ne': False
      then have c': "?c = 512 - A mod 512" "512 - A mod 512 < length data" by auto
      have "A div 512 + 1 < 2 ^ 32"
      proof -
        have "512 * (A div 512 + 1) < length ?D" using fit c'(2) A unfolding A_def[symmetric] distrib_left by linarith
      from less_le_trans[OF this lba] have "512 * (A div 512 + 1) < 2 ^ 41" .
        then show ?thesis by simp
      qed
      then have L1: "unat (?L + 1) = A div 512 + 1" using L by (simp add: unat_word_ariths)
      have p: "512 * unat (?L + 1) = A + ?c" using L1 A c'(1) by linarith
      have "A + ?c \<le> length ?D" using fit c(2) unfolding A_def by linarith
      then have l1: "length (at_disk (dev io1)) = length ?D" using 1(3) by (simp add: same_drive_def)
      have f: "512 * unat (?L + 1) + length (drop ?c data) \<le> length ?D" using p fit c(2) by (simp add: A_def)
      have f': "512 * unat (?L + 1) + length (drop ?c data) \<le> length (at_disk (dev io1))" "512 dvd length (at_disk (dev io1))"
        "length (drop ?c data) < 512 * 512" "length (at_disk (dev io1)) \<le> 2 ^ 41" using f l1 dvd len lba by simp_all
      from hd_write_rest_ok[OF dev 1(2) f'(2,1,3,4)] obtain io2 where
        2: "hd_write_rest P h (?L + 1) (drop ?c data) io1 = Some (Inr io2)" "ata_idle (dev io2)"
          "same_drive ((dev io1)\<lparr>at_disk := overwrite (A + ?c) (drop ?c data) (at_disk (dev io1))\<rparr>) (dev io2)"
        unfolding p by blast
      have "overwrite (A + ?c) (drop ?c data) (overwrite A (take ?c data) ?D) = overwrite A data ?D"
        using overwrite_split[OF c(2)] fit by (simp only: A_def)
      then show ?thesis using 1 2 len False off ne' by (simp add: hd_writeaddr_def A_def[symmetric] same_drive_def Let_def)
    qed
  qed
qed

section \<open>What the driver guarantees\<close>


text \<open>A concrete drive of two sectors that is busy for three looks before each sector.\<close>

definition ata_ports :: "u16 \<Rightarrow> ata ports" where
  "ata_ports base = \<lparr>in8 = (\<lambda>p a. if p = base + 7 then ata_status a else (0, a)),
     out8 = (\<lambda>p v a. if 2 \<le> p - base \<and> p - base \<le> 7 then ata_out8 (unat (p - base)) v a else a),
     in16 = (\<lambda>p a. if p = base then ata_in16 a else (0, a)),
     out16 = (\<lambda>p w a. if p = base then ata_out16 w a else a)\<rparr>"

definition demo_drive :: ata where
  "demo_drive = \<lparr>at_disk = replicate 512 0x41 @ replicate 512 0x42, at_cur = (\<lambda>_. 0), at_prev = (\<lambda>_. 0), at_mode = Idle,
     at_busy = 0, at_lat = (\<lambda>_. 3), at_nth = 0, at_junk = 0\<rparr>"

definition demo_hdd :: hdd where
  "demo_hdd = \<lparr>hd_base = 0x1F0, hd_master = True, hd_table = [], hd_MBR = []\<rparr>"

lemma ata_ports_device: "ata_device (ata_ports base) base (\<lambda>a. a)"
proof -
  have "2 \<le> r \<Longrightarrow> r \<le> 7 \<Longrightarrow> 2 \<le> (of_nat r :: u16) \<and> (of_nat r :: u16) \<le> 7 \<and> unat (of_nat r :: u16) = r" for r
    by (simp add: word_le_nat_alt unat_of_nat)
  then show ?thesis by (auto simp: ata_device_def ata_ports_def)
qed



definition demo_entry :: ptentry where
  "demo_entry = \<lparr>pt_bootable = False, pt_systemID = 0x83, pt_begLBA = 1, pt_size = 1\<rparr>"


end
