(* ===== verification/Bitset.thy ===== *)
theory Bitset
  imports Prelude
begin

text \<open>
  The class \<open>Bitset\<close> of \<open>src/src/Bitset.h\<close>: a window of \<open>_size\<close> bits on an array of
  64 bit words the object does not own. \<open>bs_data\<close> is the memory behind \<open>_data\<close> (it may
  be longer than the size needs; an access beyond it is \<open>OutOfBounds\<close>), \<open>bs_size\<close> is
  \<open>_size\<close>. Sizes and positions are \<open>u64\<close> as in the code, so \<open>len -= 64 - mod\<close> wraps.
  The lemmas relate each operation to \<open>bits_of\<close>, the set bits as a predicate.
\<close>

record bitset =
  bs_data :: "u64 list"
  bs_size :: u64

section \<open>Operations\<close>

definition bs_init :: "u64 list \<Rightarrow> u64 \<Rightarrow> bitset" where
  "bs_init data sz = \<lparr>bs_data = data, bs_size = sz\<rparr>"

text \<open>Reading and updating the word \<open>_data[k]\<close>.\<close>

definition word_at :: "bitset \<Rightarrow> u64 \<Rightarrow> u64 res" where
  "word_at b k = check (unat k < length (bs_data b)) OutOfBounds (Inr (bs_data b ! unat k))"

definition word_upd :: "bitset \<Rightarrow> u64 \<Rightarrow> (u64 \<Rightarrow> u64) \<Rightarrow> bitset res" where
  "word_upd b k f = bnd (word_at b k)
     (\<lambda>w. Inr (b\<lparr>bs_data := (bs_data b)[unat k := f w]\<rparr>))"

definition bs_get :: "bitset \<Rightarrow> u64 \<Rightarrow> bool res" where
  "bs_get b i = assertk (i < bs_size b)
     (bnd (word_at b (i div 64)) (\<lambda>w. Inr (shr64 w (i mod 64) AND 1 \<noteq> 0)))"

definition bs_set :: "bitset \<Rightarrow> u64 \<Rightarrow> bitset res" where
  "bs_set b i = assertk (i < bs_size b)
     (word_upd b (i div 64) (\<lambda>w. w OR shl64 1 (i mod 64)))"

definition bs_unset :: "bitset \<Rightarrow> u64 \<Rightarrow> bitset res" where
  "bs_unset b i = assertk (i < bs_size b)
     (word_upd b (i div 64) (\<lambda>w. w AND NOT (shl64 1 (i mod 64))))"

text \<open>\<open>operator[]\<close> followed by the assignment or the conversion of \<open>__BoolRef\<close>.\<close>

definition bs_ref_assign :: "bitset \<Rightarrow> u64 \<Rightarrow> bool \<Rightarrow> bitset res" where
  "bs_ref_assign b i v = assertk (i < bs_size b)
     (assertk (i mod 64 < 64)
       (word_upd b (i div 64) (\<lambda>w.
          if v then w OR shl64 1 (i mod 64) else w AND NOT (shl64 1 (i mod 64)))))"

definition bs_ref_bool :: "bitset \<Rightarrow> u64 \<Rightarrow> bool res" where
  "bs_ref_bool b i = assertk (i < bs_size b)
     (assertk (i mod 64 < 64)
       (bnd (word_at b (i div 64)) (\<lambda>w. Inr (shr64 w (i mod 64) AND 1 \<noteq> 0))))"

text \<open>
  The \<open>while (len >= 64)\<close> loop of the two range operations: \<open>v\<close> is the value each whole
  word receives. It returns the position and the length left.
\<close>

function fill_words :: "u64 \<Rightarrow> bitset \<Rightarrow> u64 \<Rightarrow> u64 \<Rightarrow> (bitset \<times> u64 \<times> u64) res" where
  "fill_words v b i len =
     (if 64 \<le> len
      then bnd (word_upd b (i div 64) (\<lambda>_. v)) (\<lambda>b. fill_words v b (i + 64) (len - 64))
      else Inr (b, i, len))"
  by pat_completeness auto
termination
  by (relation "measure (\<lambda>(v, b, i, len). unat len)")
    (auto simp: word_le_nat_alt unat_sub)

declare fill_words.simps [simp del]

definition bs_set_range :: "bitset \<Rightarrow> u64 \<Rightarrow> u64 \<Rightarrow> bitset res" where
  "bs_set_range b i len = assertk (i + len \<le> bs_size b)
     (let md = i mod 64;
          rest = (\<lambda>b. let i = alignup i 64; len = len - (64 - md) in
            bnd (fill_words (- 1) b i len) (\<lambda>(b, i, len).
              word_upd b (i div 64) (\<lambda>w. w OR (shl64 1 len - 1))))
      in if md \<noteq> 0 then
           (if len \<le> 64 - md
            then word_upd b (i div 64) (\<lambda>w. w OR shl64 (shl64 1 len - 1) md)
            else bnd (word_upd b (i div 64) (\<lambda>w. w OR (- 1 - (shl64 1 i - 1)))) rest)
         else rest b)"

definition bs_unset_range :: "bitset \<Rightarrow> u64 \<Rightarrow> u64 \<Rightarrow> bitset res" where
  "bs_unset_range b i len = assertk (i + len \<le> bs_size b)
     (let md = i mod 64;
          rest = (\<lambda>b. let i = alignup i 64; len = len - (64 - md) in
            bnd (fill_words 0 b i len) (\<lambda>(b, i, len).
              word_upd b (i div 64) (\<lambda>w. w AND NOT (shl64 1 len - 1))))
      in if md \<noteq> 0 then
           (if len \<le> 64 - md
            then word_upd b (i div 64) (\<lambda>w. w AND NOT (shl64 (shl64 1 len - 1) md))
            else bnd (word_upd b (i div 64) (\<lambda>w. w AND NOT (- 1 - (shl64 1 i - 1)))) rest)
         else rest b)"

text \<open>
  The \<open>bsf\<close> and \<open>bsr\<close> instructions on a non-zero word: the least and the greatest
  position that holds a one (the code never applies them to zero).
\<close>

definition bsf_instr :: "u64 \<Rightarrow> nat" where
  "bsf_instr w = (case find (bit w) [0..<64] of Some n \<Rightarrow> n | None \<Rightarrow> 0)"

definition bsr_instr :: "u64 \<Rightarrow> nat" where
  "bsr_instr w = (case find (bit w) (rev [0..<64]) of Some n \<Rightarrow> n | None \<Rightarrow> 0)"

text \<open>
  The downward loops of \<open>bsr\<close> and \<open>usr\<close>: \<open>scan_down g b n\<close> visits the words
  \<open>n - 1, \<dots>, 0\<close> and stops at the first \<open>w\<close> with \<open>g w \<noteq> 0\<close>, where \<open>g\<close> is the identity
  for \<open>bsr\<close> and the complement for \<open>usr\<close> (\<open>_data[i] != u64(-1)\<close> is \<open>~_data[i] != 0\<close>).
\<close>

fun scan_down :: "(u64 \<Rightarrow> u64) \<Rightarrow> bitset \<Rightarrow> nat \<Rightarrow> u64 res" where
  "scan_down g b 0 = Inr (- 1)"
| "scan_down g b (Suc i) = bnd (word_at b (of_nat i)) (\<lambda>w.
     if g w \<noteq> 0 then Inr (of_nat (bsr_instr (g w)) + of_nat i * 64)
     else scan_down g b i)"

definition bs_bsr :: "bitset \<Rightarrow> u64 res" where
  "bs_bsr b = scan_down (\<lambda>w. w) b (Suc (unat (bs_size b div 64)))"

definition bs_usr :: "bitset \<Rightarrow> u64 res" where
  "bs_usr b = scan_down NOT b (unat (bs_size b div 64))"

function scan_up :: "bitset \<Rightarrow> nat \<Rightarrow> nat \<Rightarrow> u64 res" where
  "scan_up b i n =
     (if i < n then bnd (word_at b (of_nat i)) (\<lambda>w.
        if w \<noteq> 0 then Inr (of_nat (bsf_instr w) + of_nat i * 64)
        else scan_up b (Suc i) n)
      else Inr (- 1))"
  by pat_completeness auto
termination
  by (relation "measure (\<lambda>(b, i, n). n - i)") auto

declare scan_up.simps [simp del]

definition bs_bsf :: "bitset \<Rightarrow> u64 res" where
  "bs_bsf b = scan_up b 0 (unat (bs_size b div 64))"

text \<open>
  \<open>largeBsf\<close>: the inner loop leaves in \<open>data\<close> a one at \<open>p\<close> when the bits
  \<open>p - nb + 1, \<dots>, p\<close> of the word are all set.
\<close>

definition run_ends :: "nat \<Rightarrow> u64 \<Rightarrow> u64" where
  "run_ends nb w = fold (\<lambda>j data. data AND push_bit j w) [0..<nb] (- 1)"

function large_scan :: "bitset \<Rightarrow> nat \<Rightarrow> nat \<Rightarrow> nat \<Rightarrow> u64 res" where
  "large_scan b nb i n =
     (if i < n then bnd (word_at b (of_nat i)) (\<lambda>w.
        let data = run_ends nb w in
        if data \<noteq> 0 then
          (let r = of_nat (bsf_instr data) + 1 - of_nat nb + of_nat i * 64 in
           if r > bs_size b - of_nat nb then Inr (- 1) else Inr r)
        else large_scan b nb (Suc i) n)
      else Inr (- 1))"
  by pat_completeness auto
termination
  by (relation "measure (\<lambda>(b, nb, i, n). n - i)") auto

declare large_scan.simps [simp del]

definition bs_largeBsf :: "bitset \<Rightarrow> nat \<Rightarrow> u64 res" where
  "bs_largeBsf b nb = assertk (nb < 64 - 8)
     (large_scan b nb 0 (unat ((bs_size b + 63) div 64)))"

text \<open>\<open>__builtin_memset(_data, c, _size / 8)\<close>: the first \<open>n\<close> bytes receive \<open>c\<close>.\<close>

definition memset_words :: "u64 \<Rightarrow> nat \<Rightarrow> u64 list \<Rightarrow> u64 list" where
  "memset_words v n ws = map (\<lambda>(k, w).
     let m = mask (8 * min 8 (n - 8 * k)) in (w AND NOT m) OR (v AND m))
     (zip [0..<length ws] ws)"

definition bs_memset :: "u64 \<Rightarrow> bitset \<Rightarrow> bitset res" where
  "bs_memset v b = (let n = unat (bs_size b div 8) in
     check (n \<le> 8 * length (bs_data b)) OutOfBounds
       (Inr (b\<lparr>bs_data := memset_words v n (bs_data b)\<rparr>)))"

definition bs_clear :: "bitset \<Rightarrow> bitset res" where
  "bs_clear b = bs_memset 0 b"

definition bs_fill :: "bitset \<Rightarrow> bitset res" where
  "bs_fill b = bs_memset (- 1) b"

section \<open>The set bits\<close>

text \<open>
  \<open>bits_of b\<close> is the content of the memory behind the bitset; \<open>bs_wf\<close> says that the
  memory holds at least \<open>_size\<close> bits, which the constructor and \<open>init\<close> rely on.
\<close>

definition bits_of :: "bitset \<Rightarrow> nat \<Rightarrow> bool" where
  "bits_of b n \<longleftrightarrow> n div 64 < length (bs_data b) \<and> bit (bs_data b ! (n div 64)) (n mod 64)"

definition bs_wf :: "bitset \<Rightarrow> bool" where
  "bs_wf b \<longleftrightarrow> unat (bs_size b) \<le> 64 * length (bs_data b)"

lemma shr64_bit0: "(shr64 w n AND 1 \<noteq> 0) \<longleftrightarrow> bit w (unat n mod 64)"
  by (simp add: shr64_def and_one_eq bit_iff_odd_drop_bit odd_iff_mod_2_eq_one)

lemma bit_shl64_1: "bit (shl64 1 k) n \<longleftrightarrow> n = unat k mod 64"
  by (auto simp: shl64_def bit_simps)

lemma word_upd_ok:
  assumes "unat k < length (bs_data b)"
  shows "word_upd b k f = Inr (b\<lparr>bs_data := (bs_data b)[unat k := f (bs_data b ! unat k)]\<rparr>)"
  using assms by (simp add: word_upd_def word_at_def)

lemma bits_of_upd:
  assumes "k < length (bs_data b)"
  shows "bits_of (b\<lparr>bs_data := (bs_data b)[k := w]\<rparr>) n =
    (if n div 64 = k then bit w (n mod 64) else bits_of b n)"
  using assms by (auto simp: bits_of_def nth_list_update)

lemma wf_index:
  assumes "bs_wf b" "i < bs_size b"
  shows "unat i div 64 < length (bs_data b)"
  using assms unfolding bs_wf_def word_less_nat_alt by linarith

lemma bs_get_spec: 
  assumes "bs_wf b" "i < bs_size b"
  shows "bs_get b i = Inr (bits_of b (unat i))"
  using assms wf_index[OF assms]
  by (simp add: bs_get_def word_at_def shr64_bit0 bits_of_def)

lemma same_bit: "n div 64 = unat (i::u64) div 64 \<Longrightarrow> n mod 64 = unat i mod 64 \<longleftrightarrow> n = unat i"
  by (metis div_mult_mod_eq)

text \<open>\<open>same_window b b'\<close>: same size and same amount of memory, what every operation keeps.\<close>

definition same_window :: "bitset \<Rightarrow> bitset \<Rightarrow> bool" where
  "same_window b b' \<longleftrightarrow> bs_size b' = bs_size b \<and> length (bs_data b') = length (bs_data b)"

lemma same_window_wf: "same_window b b' \<Longrightarrow> bs_wf b' = bs_wf b"
  by (simp add: same_window_def bs_wf_def)

lemma bs_set_spec:
  assumes "bs_wf b" "i < bs_size b"
  shows "\<exists>b'. bs_set b i = Inr b' \<and> same_window b b' \<and> bits_of b' = (bits_of b)(unat i := True)"
  using assms wf_index[OF assms] same_bit
  by (auto simp: bs_set_def word_upd_ok bits_of_upd fun_eq_iff bit_or_iff bit_shl64_1 same_window_def)
    (auto simp: bits_of_def)

lemma bs_unset_spec:
  assumes "bs_wf b" "i < bs_size b"
  shows "\<exists>b'. bs_unset b i = Inr b' \<and> same_window b b' \<and> bits_of b' = (bits_of b)(unat i := False)"
  using assms wf_index[OF assms] same_bit
  by (auto simp: bs_unset_def word_upd_ok bits_of_upd fun_eq_iff bit_and_iff bit_not_iff bit_shl64_1
      same_window_def) (auto simp: bits_of_def)

lemma u64_mod_64_less [simp]: "(i::u64) mod 64 < 64"
  by (simp add: word_less_nat_alt)

lemma bs_ref_assign_eq: "bs_ref_assign b i v = (if v then bs_set b i else bs_unset b i)"
  by (simp add: bs_ref_assign_def bs_set_def bs_unset_def)

lemma bs_ref_bool_eq: "bs_ref_bool b i = bs_get b i"
  by (simp add: bs_ref_bool_def bs_get_def)

lemma bs_get_outside: "\<not> i < bs_size b \<Longrightarrow> bs_get b i = Inl Assertion"
  and bs_set_outside: "\<not> i < bs_size b \<Longrightarrow> bs_set b i = Inl Assertion"
  and bs_unset_outside: "\<not> i < bs_size b \<Longrightarrow> bs_unset b i = Inl Assertion"
  by (simp_all add: bs_get_def bs_set_def bs_unset_def)

section \<open>Ranges\<close>

lemma bit_mask64: "unat len < 64 \<Longrightarrow> shl64 1 len - 1 = mask (unat len)"
  by (simp add: shl64_def mask_eq_exp_minus_1 push_bit_eq_mult)

lemma high_mask64: "- 1 - (shl64 1 i - 1) = NOT (mask (unat i mod 64))"
  by (simp add: shl64_def mask_eq_exp_minus_1 push_bit_eq_mult not_eq_complement)

lemma fill_words_spec:
  assumes "unat i mod 64 = 0" "unat i + unat len < 2 ^ 64"
    "(unat i + unat len) div 64 \<le> length (bs_data b)"
  shows "\<exists>b'. fill_words v b i len = Inr (b', i + of_nat (64 * (unat len div 64)), len mod 64)
    \<and> bs_size b' = bs_size b \<and> length (bs_data b') = length (bs_data b)
    \<and> bits_of b' = (\<lambda>n. if unat i \<le> n \<and> n < unat i + 64 * (unat len div 64)
        then bit v (n mod 64) else bits_of b n)"
  using assms
proof (induction v b i len rule: fill_words.induct)
  case (1 v b i len)
  show ?case
  proof (cases "64 \<le> len")
    case False
    then have "unat len < 64" by (simp add: word_le_nat_alt)
    then have "unat len div 64 = 0" "len mod 64 = len"
       by (simp_all add: word_arith_nat_defs)
    then have "bits_of b = (\<lambda>n. if unat i \<le> n \<and> n < unat i + 64 * (unat len div 64)
        then bit v (n mod 64) else bits_of b n)"
      by (auto simp: fun_eq_iff simp del: div_eq_0_iff)
    with False \<open>len mod 64 = len\<close> \<open>unat len div 64 = 0\<close> show ?thesis
      by (subst fill_words.simps) (simp del: div_eq_0_iff)
  next
    case True
    let ?b1 = "b\<lparr>bs_data := (bs_data b)[unat i div 64 := v]\<rparr>"
    have ge: "64 \<le> unat len" using True by (simp add: word_le_nat_alt)
    have i1: "unat (i + 64) = unat i + 64"
      using "1.prems"(2) ge unat_add_small[of i 64] by simp
    have l1: "unat (len - 64) = unat len - 64"
      using True by (simp add: unat_sub)
    have k: "unat i div 64 < length (bs_data b)" using "1.prems" ge by linarith
    have u: "word_upd b (i div 64) (\<lambda>_. v) = Inr ?b1"
      using k by (simp add: word_upd_ok)
    have s: "(unat i + 64) + (unat len - 64) = unat i + unat len" using ge by simp
    from "1.IH"[OF True u] obtain b' where b':
      "fill_words v ?b1 (i + 64) (len - 64) =
         Inr (b', i + 64 + of_nat (64 * ((unat len - 64) div 64)), (len - 64) mod 64)"
      "bs_size b' = bs_size b" "length (bs_data b') = length (bs_data b)"
      "bits_of b' = (\<lambda>n. if unat i + 64 \<le> n \<and> n < unat i + 64 + 64 * ((unat len - 64) div 64)
          then bit v (n mod 64) else bits_of ?b1 n)"
      using "1.prems" by (auto simp: i1 l1 s)
    have q: "unat len div 64 = Suc ((unat len - 64) div 64)" using ge by simp
    have m: "(len - 64) mod 64 = len mod 64"
      using ge by (simp add: word_unat_eq_iff l1 le_mod_geq)
    have p: "i + 64 + of_nat (64 * ((unat len - 64) div 64)) = i + of_nat (64 * (unat len div 64))"
      unfolding q by (simp add: algebra_simps)
    have bb: "bits_of b' = (\<lambda>n. if unat i \<le> n \<and> n < unat i + 64 * (unat len div 64)
        then bit v (n mod 64) else bits_of b n)"
    proof
      fix n
      have "n div 64 = unat i div 64 \<longleftrightarrow> unat i \<le> n \<and> n < unat i + 64"
        using "1.prems"(1) by (rule div64_block)
      then show "bits_of b' n = (if unat i \<le> n \<and> n < unat i + 64 * (unat len div 64)
        then bit v (n mod 64) else bits_of b n)"
        using k by (auto simp: b'(4) bits_of_upd q)
    qed
    show ?thesis
      using b' bb p m u True by (subst fill_words.simps) simp
  qed
qed

definition blend :: "u64 \<Rightarrow> u64 \<Rightarrow> u64 \<Rightarrow> u64" where
  "blend v m w = (w AND NOT m) OR (v AND m)"

lemma bit_blend: "n < 64 \<Longrightarrow> bit (blend v m w) n = (if bit m n then bit v n else bit w n)"
  by (auto simp: blend_def bit_simps)

lemma blend_ones: "blend (- 1) m = (\<lambda>w. w OR m)"
  by (intro ext bit_word_eqI) (auto simp: bit_blend bit_simps)

lemma blend_zeros: "blend 0 m = (\<lambda>w. w AND NOT m)"
  by (intro ext bit_word_eqI) (auto simp: bit_blend bit_simps split: if_splits)

definition range_write :: "u64 \<Rightarrow> bitset \<Rightarrow> u64 \<Rightarrow> u64 \<Rightarrow> bitset res" where
  "range_write v b i len = assertk (i + len \<le> bs_size b)
     (let md = i mod 64;
          rest = (\<lambda>b. let i = alignup i 64; len = len - (64 - md) in
            bnd (fill_words v b i len) (\<lambda>(b, i, len).
              word_upd b (i div 64) (blend v (shl64 1 len - 1))))
      in if md \<noteq> 0 then
           (if len \<le> 64 - md
            then word_upd b (i div 64) (blend v (shl64 (shl64 1 len - 1) md))
            else bnd (word_upd b (i div 64) (blend v (- 1 - (shl64 1 i - 1)))) rest)
         else rest b)"

lemma bs_set_range_eq: "bs_set_range = range_write (- 1)"
  by (intro ext) (unfold bs_set_range_def range_write_def blend_ones, rule refl)

lemma bs_unset_range_eq: "bs_unset_range = range_write 0"
  by (intro ext) (unfold bs_unset_range_def range_write_def blend_zeros, rule refl)

definition put_range :: "bool \<Rightarrow> nat \<Rightarrow> nat \<Rightarrow> (nat \<Rightarrow> bool) \<Rightarrow> nat \<Rightarrow> bool" where
  "put_range v a c f = (\<lambda>n. if a \<le> n \<and> n < c then v else f n)"

text \<open>The part after the alignment: from an aligned position, \<open>len\<close> more bits.\<close>

lemma fill_tail:
  assumes v: "\<And>n. n < 64 \<Longrightarrow> bit v n = p"
    and "unat i mod 64 = 0" "unat i + unat len < 2 ^ 64"
    "(unat i + unat len) div 64 < length (bs_data b)"
  shows "\<exists>b'. bnd (fill_words v b i len) (\<lambda>(b, i, len).
              word_upd b (i div 64) (blend v (shl64 1 len - 1))) = Inr b'
    \<and> bs_size b' = bs_size b \<and> length (bs_data b') = length (bs_data b)
    \<and> bits_of b' = put_range p (unat i) (unat i + unat len) (bits_of b)"
proof -
  let ?j = "i + of_nat (64 * (unat len div 64))"
  obtain q r where l: "unat len = 64 * q + r" "r < 64" "unat len div 64 = q" "unat len mod 64 = r"
    by (rule div64E)
  obtain s where i: "unat i = 64 * s" "unat i div 64 = s"
    using assms(2) by (metis div64E add.right_neutral)
  have j: "unat ?j = 64 * (s + q)"
    using assms(3) l i unat_add_small[of i "64 * q"] by simp
  have r: "unat (len mod 64) = r" using l by simp
  have k: "s + q < length (bs_data b)" using assms(4) l(1,2) i(1) by simp
  obtain b1 where b1: "fill_words v b i len = Inr (b1, ?j, len mod 64)"
    "bs_size b1 = bs_size b" "length (bs_data b1) = length (bs_data b)"
    "bits_of b1 = (\<lambda>n. if unat i \<le> n \<and> n < unat i + 64 * q
        then bit v (n mod 64) else bits_of b n)"
    using fill_words_spec[of i len b v] assms l by auto
  let ?f = "blend v (shl64 1 (len mod 64) - 1)"
  have m: "shl64 1 (len mod 64) - 1 = mask r" using bit_mask64[of "len mod 64"] r l by simp
  have u: "word_upd b1 (?j div 64) ?f
     = Inr (b1\<lparr>bs_data := (bs_data b1)[s + q := ?f (bs_data b1 ! (s + q))]\<rparr>)"
    using k b1(3) j by (simp add: word_upd_ok)
  have "bits_of (b1\<lparr>bs_data := (bs_data b1)[s + q := ?f (bs_data b1 ! (s + q))]\<rparr>) n
     = put_range p (unat i) (unat i + unat len) (bits_of b) n" for n
  proof -
    obtain q' r' where n: "n = 64 * q' + r'" "r' < 64" "n div 64 = q'" "n mod 64 = r'"
      by (rule div64E)
    have w: "bit (bs_data b1 ! (s + q)) r' = bits_of b1 n" if "q' = s + q"
      using that k b1(3) n by (simp add: bits_of_def)
    show ?thesis
    proof (cases "q' = s + q")
      case True
      then have "64 * (s + q) \<le> n" "n mod 64 = r'" "n div 64 = s + q" using n by simp_all
      with True show ?thesis
        using k b1(3) w v[OF n(2)] n(1,2) l(2) unfolding m
        by (auto simp: bits_of_upd bit_blend bit_mask_iff put_range_def b1(4) i(1) l(1))
    next
      case False
      then have "64 * s \<le> n \<and> n < 64 * s + (64 * q + r) \<longleftrightarrow> 64 * s \<le> n \<and> n < 64 * s + 64 * q"
        using n(1,2) l(2) by auto
      with False show ?thesis
        using k b1(3) v[OF n(2)] n(3,4)
        by (auto simp: bits_of_upd put_range_def b1(4) i(1) l(1))
    qed
  qed
  then show ?thesis using b1 u by (auto simp: fun_eq_iff)
qed
lemma range_write_unaligned:
  assumes v: "\<And>n. n < 64 \<Longrightarrow> bit v n = p"
    and len: "unat i + unat len \<le> unat (bs_size b)" and sz: "unat (bs_size b) + 64 < 2 ^ 64"
    and md: "unat i mod 64 \<noteq> 0"
    and k: "(unat i + unat len) div 64 < length (bs_data b)"
  shows "\<exists>b'. range_write v b i len = Inr b'
    \<and> bs_size b' = bs_size b \<and> length (bs_data b') = length (bs_data b)
    \<and> bits_of b' = put_range p (unat i) (unat i + unat len) (bits_of b)"
proof -
  obtain s m where i: "unat i = 64 * s + m" "m < 64" "unat i div 64 = s" "unat i mod 64 = m"
    by (rule div64E)
  have m0: "m \<noteq> 0" using md i by simp
  have il: "unat (i + len) = unat i + unat len"
    using len sz by (intro unat_add_lem[THEN iffD1]) simp
  have g1: "i + len \<le> bs_size b" using len by (simp add: word_le_nat_alt il)
  have g2: "i mod 64 \<noteq> 0" using m0 i by (metis unat_mod_64 unat_0)
  have d: "unat (64 - i mod 64) = 64 - m"
    using i by (subst unat_sub) (simp_all add: word_le_nat_alt)
  show ?thesis
  proof (cases "len \<le> 64 - i mod 64")
    case True
    then have l: "unat len \<le> 64 - m" by (simp add: word_le_nat_alt d)
    have ks: "s < length (bs_data b)" using k i by linarith
    let ?mk = "shl64 (shl64 1 len - 1) (i mod 64)"
    let ?b = "b\<lparr>bs_data := (bs_data b)[s := blend v ?mk (bs_data b ! s)]\<rparr>"
    have mk: "bit ?mk n \<longleftrightarrow> m \<le> n \<and> n < m + unat len" if "n < 64" for n
      using that l m0 by (subst bit_mask64) (auto simp: shl64_def bit_push_bit_iff i(2,4) bit_mask_iff)
    have "bits_of ?b n = put_range p (unat i) (unat i + unat len) (bits_of b) n" for n
    proof -
      obtain q' r' where n: "n = 64 * q' + r'" "r' < 64" "n div 64 = q'" "n mod 64 = r'"
        by (rule div64E)
      have w: "bit (bs_data b ! s) r' = bits_of b n" if "q' = s"
        using that ks n by (simp add: bits_of_def)
      show ?thesis
      proof (cases "q' = s")
        case True
        then show ?thesis using ks w v[OF n(2)] n l
          by (auto simp: bits_of_upd bit_blend mk put_range_def i(1))
      next
        case False
        then have "\<not> (64 * s + m \<le> n \<and> n < 64 * s + m + unat len)"
          using n(1,2) l i(2) by auto
        with False show ?thesis using ks n(3) by (auto simp: bits_of_upd put_range_def i(1))
      qed
    qed
    moreover have "range_write v b i len = Inr ?b"
      using True g1 g2 ks i by (simp add: range_write_def word_upd_ok)
    ultimately show ?thesis by (auto simp: fun_eq_iff)
  next
    case False
    then have l: "64 - m < unat len" by (simp add: word_le_nat_alt d)
    have ks: "s < length (bs_data b)" using k i by linarith
    let ?mk = "- 1 - (shl64 1 i - 1)"
    let ?b = "b\<lparr>bs_data := (bs_data b)[s := blend v ?mk (bs_data b ! s)]\<rparr>"
    have mk: "bit ?mk n \<longleftrightarrow> m \<le> n" if "n < 64" for n
      using that unfolding high_mask64 by (auto simp: bit_simps i(4))
    have bb: "bits_of ?b n = put_range p (unat i) (64 * s + 64) (bits_of b) n" for n
    proof -
      obtain q' r' where n: "n = 64 * q' + r'" "r' < 64" "n div 64 = q'" "n mod 64 = r'"
        by (rule div64E)
      have w: "bit (bs_data b ! s) r' = bits_of b n" if "q' = s"
        using that ks n by (simp add: bits_of_def)
      show ?thesis
      proof (cases "q' = s")
        case True
        then show ?thesis using ks w v[OF n(2)] n mk[OF n(2)]
          by (auto simp: bits_of_upd bit_blend put_range_def i(1))
      next
        case False
        then have "\<not> (64 * s + m \<le> n \<and> n < 64 * s + 64)"
          using n(1,2) i(2) by auto
        with False show ?thesis using ks n(3) by (auto simp: bits_of_upd put_range_def i(1))
      qed
    qed
    have ai: "unat (alignup i 64) = 64 * s + 64"
      using alignup_64_up[of i] md len sz i(3) by simp
    have le: "64 - i mod 64 \<le> len" using False by simp
    have al: "unat (len - (64 - i mod 64)) = unat len - (64 - m)"
      using le by (simp add: unat_sub d)
    have e: "64 * s + 64 + (unat len - (64 - m)) = unat i + unat len"
      using l i(1,2) by simp
    obtain b' where b': "bnd (fill_words v ?b (alignup i 64) (len - (64 - i mod 64)))
        (\<lambda>(b, i, len). word_upd b (i div 64) (blend v (shl64 1 len - 1))) = Inr b'"
      "bs_size b' = bs_size b" "length (bs_data b') = length (bs_data b)"
      "bits_of b' = put_range p (64 * s + 64) (unat i + unat len) (bits_of ?b)"
      using fill_tail[OF v, of "alignup i 64" "len - (64 - i mod 64)" ?b] len sz k ks
      by (auto simp: ai al e)
    have "range_write v b i len = Inr b'"
      using False g1 g2 ks b'(1) i by (simp add: range_write_def word_upd_ok Let_def)
    moreover have "bits_of b' = put_range p (unat i) (unat i + unat len) (bits_of b)"
      unfolding b'(4) ext[OF bb] using l i by (auto simp: put_range_def fun_eq_iff)
    ultimately show ?thesis using b' by blast
  qed
qed

lemma range_write_aligned:
  assumes v: "\<And>n. n < 64 \<Longrightarrow> bit v n = p"
    and wf: "bs_wf b" and len: "unat i + unat len \<le> unat (bs_size b)" and sz: "unat (bs_size b) + 64 < 2 ^ 64"
    and md: "unat i mod 64 = 0" and ge: "64 \<le> unat len"
  shows "\<exists>b'. range_write v b i len = Inr b'
    \<and> bs_size b' = bs_size b \<and> length (bs_data b') = length (bs_data b)
    \<and> bits_of b' = put_range p (unat i) (unat i + unat len - 64) (bits_of b)"
proof -
  have il: "unat (i + len) = unat i + unat len"
    using len sz by (intro unat_add_lem[THEN iffD1]) simp
  have g1: "i + len \<le> bs_size b" using len by (simp add: word_le_nat_alt il)
  have g2: "i mod 64 = 0" using md by (simp add: word_unat_eq_iff)
  have a: "alignup i 64 = i" using alignup_64_same[OF md] len sz by simp
  have l: "unat (len - 64) = unat len - 64" using ge by (subst unat_sub) (simp_all add: word_le_nat_alt)
  have "unat i + (unat len - 64) < 64 * length (bs_data b)"
    using wf len ge unfolding bs_wf_def by linarith
  then have k: "(unat i + (unat len - 64)) div 64 < length (bs_data b)" by simp
  show ?thesis
    using fill_tail[OF v md, of "len - 64" b] len sz k ge
    by (simp add: range_write_def g1 g2 a l)
qed

lemma fill_words_runaway:
  assumes "unat i mod 64 = 0" "64 * length (bs_data b) + 64 \<le> unat i + unat len"
     "unat i \<le> 64 * length (bs_data b)" "64 * length (bs_data b) + 64 < 2 ^ 64"
  shows "fill_words v b i len = Inl OutOfBounds"
  using assms
proof (induction v b i len rule: fill_words.induct)
  case (1 v b i len)
  have ge: "64 \<le> len" using "1.prems"(2,3) by (simp add: word_le_nat_alt)
  show ?case
  proof (cases "unat i div 64 < length (bs_data b)")
    case False
    then show ?thesis using ge
      by (subst fill_words.simps) (simp add: word_upd_def word_at_def)
  next
    case True
    let ?b1 = "b\<lparr>bs_data := (bs_data b)[unat i div 64 := v]\<rparr>"
    obtain q where q: "unat i = 64 * q" "unat i div 64 = q"
      using "1.prems"(1) by (metis div64E add.right_neutral)
    have u: "word_upd b (i div 64) (\<lambda>_. v) = Inr ?b1"
      using True by (simp add: word_upd_ok)
    have i1: "unat (i + 64) = unat i + 64"
      using "1.prems"(3,4) unat_add_small[of i 64] by simp
    have l1: "unat (len - 64) = unat len - 64"
      using ge by (simp add: unat_sub)
    have "unat len \<ge> 64" using ge by (simp add: word_le_nat_alt)
    then have "fill_words v ?b1 (i + 64) (len - 64) = Inl OutOfBounds"
      using "1.prems" True q by (intro "1.IH"[OF ge u]) (auto simp: i1 l1)
    then show ?thesis using ge u by (subst fill_words.simps) simp
  qed
qed

lemma range_write_short_aligned:
  assumes wf: "bs_wf b" and len: "unat i + unat len \<le> unat (bs_size b)"
    and mem: "64 * length (bs_data b) + 128 < 2 ^ 64"
    and md: "unat i mod 64 = 0" and lt: "unat len < 64"
  shows "range_write v b i len = Inl OutOfBounds"
proof -
  have sz: "unat (bs_size b) + 64 < 2 ^ 64" using wf mem by (simp add: bs_wf_def)
  have il: "unat (i + len) = unat i + unat len"
    using len sz by (intro unat_add_lem[THEN iffD1]) simp
  have g1: "i + len \<le> bs_size b" using len by (simp add: word_le_nat_alt il)
  have g2: "i mod 64 = 0" using md by (simp add: word_unat_eq_iff)
  have a: "alignup i 64 = i" using alignup_64_same[OF md] len sz by simp
  have l: "unat (len - 64) = 2 ^ 64 - 64 + unat len"
    using lt by (simp add: unat_sub_if_size word_size)
  have "unat i \<le> 64 * length (bs_data b)" using wf len by (simp add: bs_wf_def)
  then have "fill_words v b i (len - 64) = Inl OutOfBounds"
    using md mem by (intro fill_words_runaway) (simp_all add: l)
  then show ?thesis by (simp add: range_write_def g1 g2 a)
qed

lemma bsf_instr_spec:
  assumes "w \<noteq> 0"
  shows "bsf_instr w < 64 \<and> bit w (bsf_instr w) \<and> (\<forall>j<bsf_instr w. \<not> bit w j)"
proof -
  have "find (bit w) [0..<64] \<noteq> None"
    using word_has_bit[OF assms] by (auto simp: find_None_iff)
  then obtain k where k: "find (bit w) [0..<64] = Some k" by blast
  then have "bsf_instr w = k" by (simp add: bsf_instr_def)
  with find_upt_Some[THEN iffD1, OF k] show ?thesis by simp
qed

lemma bsr_instr_spec:
  assumes "w \<noteq> 0"
  shows "bsr_instr w < 64 \<and> bit w (bsr_instr w) \<and> (\<forall>j. bsr_instr w < j \<longrightarrow> j < 64 \<longrightarrow> \<not> bit w j)"
proof -
  have "find (bit w) (rev [0..<64]) \<noteq> None"
    using word_has_bit[OF assms] by (auto simp: find_None_iff)
  then obtain k where k: "find (bit w) (rev [0..<64]) = Some k" by blast
  then obtain i where i: "i < 64" "bit w (rev [0..<64] ! i)" "k = rev [0..<64] ! i"
    "\<forall>j<i. \<not> bit w (rev [0..<64] ! j)" by (auto simp: find_Some_iff)
  have kk: "k = 63 - i" using i(1,3) by (simp add: rev_nth)
  have "\<not> bit w j" if "k < j" "j < 64" for j
    using i(4)[rule_format, of "63 - j"] that kk by (simp add: rev_nth)
  then show ?thesis using k i kk by (simp add: bsr_instr_def)
qed

definition found_first :: "bitset \<Rightarrow> nat \<Rightarrow> nat \<Rightarrow> u64 \<Rightarrow> bool" where
  "found_first b lo hi r \<longleftrightarrow>
     (if r = - 1 then \<forall>m. lo \<le> m \<and> m < hi \<longrightarrow> \<not> bits_of b m
      else lo \<le> unat r \<and> unat r < hi \<and> bits_of b (unat r) \<and> (\<forall>m. lo \<le> m \<and> m < unat r \<longrightarrow> \<not> bits_of b m))"

definition found_last :: "(nat \<Rightarrow> bool) \<Rightarrow> nat \<Rightarrow> u64 \<Rightarrow> bool" where
  "found_last P hi r \<longleftrightarrow>
     (if r = - 1 then \<forall>m<hi. \<not> P m
      else unat r < hi \<and> P (unat r) \<and> (\<forall>m. unat r < m \<and> m < hi \<longrightarrow> \<not> P m))"

lemma bits_of_word:
  assumes "i < length (bs_data b)" "64 * i \<le> m" "m < 64 * i + 64"
  shows "bits_of b m = bit (bs_data b ! i) (m - 64 * i)"
proof -
  have "m div 64 = i" using assms(2,3) by (intro div_nat_eqI) auto
  moreover from this have "m mod 64 = m - 64 * i" by (metis minus_mult_div_eq_mod)
  ultimately show ?thesis using assms(1) by (simp add: bits_of_def)
qed

lemma scan_up_spec:
  assumes "n \<le> length (bs_data b)" "64 * n < 2 ^ 64"
  shows "\<exists>r. scan_up b i n = Inr r \<and> found_first b (64 * i) (64 * n) r"
  using assms
proof (induction b i n rule: scan_up.induct)
  case (1 b i n)
  show ?case
  proof (cases "i < n")
    case False
    then have "\<not> (64 * i \<le> m \<and> m < 64 * n)" for m by simp
    with False show ?thesis by (subst scan_up.simps) (auto simp: found_first_def)
  next
    case True
    note p = unat_pos[OF "1.prems"(2) True]
    let ?w = "bs_data b ! i"
    have w: "word_at b (of_nat i) = Inr ?w"
      using True "1.prems"(1) p(3)[of 0] by (simp add: word_at_def)
    have il: "i < length (bs_data b)" using True "1.prems"(1) by simp
    show ?thesis
    proof (cases "?w = 0")
      case False
      note f = bsf_instr_spec[OF False]
      let ?r = "of_nat (bsf_instr ?w) + of_nat i * 64 :: u64"
      have r: "unat ?r = 64 * i + bsf_instr ?w" "?r \<noteq> - 1" using p(1,2) f by blast+
      have "found_first b (64 * i) (64 * n) ?r"
        using f True r by (auto simp: found_first_def bits_of_word[OF il])
      then show ?thesis using True w False by (subst scan_up.simps) simp
    next
      case zero: True
      obtain r where r: "scan_up b (Suc i) n = Inr r" "found_first b (64 * Suc i) (64 * n) r"
        using "1.IH"[OF True w] zero "1.prems" by auto
      have z: "\<not> bits_of b m" if "64 * i \<le> m" "m < 64 * i + 64" for m
        using that zero by (simp add: bits_of_word[OF il])
      have "found_first b (64 * i) (64 * n) r"
        unfolding found_first_def
      proof (cases "r = - 1")
        case True
        have "\<not> bits_of b m" if "64 * i \<le> m" "m < 64 * n" for m
          using that z[of m] r(2) True by (cases "m < 64 * i + 64") (auto simp: found_first_def)
        with True show "if r = - 1 then \<forall>m. 64 * i \<le> m \<and> m < 64 * n \<longrightarrow> \<not> bits_of b m
          else 64 * i \<le> unat r \<and> unat r < 64 * n \<and> bits_of b (unat r)
            \<and> (\<forall>m. 64 * i \<le> m \<and> m < unat r \<longrightarrow> \<not> bits_of b m)" by simp
      next
        case False
        have "\<not> bits_of b m" if "64 * i \<le> m" "m < unat r" for m
          using that z[of m] r(2) False by (cases "m < 64 * i + 64") (auto simp: found_first_def)
        with False r(2) show "if r = - 1 then \<forall>m. 64 * i \<le> m \<and> m < 64 * n \<longrightarrow> \<not> bits_of b m
          else 64 * i \<le> unat r \<and> unat r < 64 * n \<and> bits_of b (unat r)
            \<and> (\<forall>m. 64 * i \<le> m \<and> m < unat r \<longrightarrow> \<not> bits_of b m)"
          by (auto simp: found_first_def)
      qed
      then show ?thesis using True w zero r(1) by (subst scan_up.simps) simp
    qed
  qed
qed

lemma scan_down_spec:
  assumes "n \<le> length (bs_data b)" "64 * n < 2 ^ 64"
  shows "\<exists>r. scan_down g b n = Inr r
    \<and> found_last (\<lambda>m. bit (g (bs_data b ! (m div 64))) (m mod 64)) (64 * n) r"
  using assms
proof (induction n)
  case 0
  show ?case by (simp add: found_last_def)
next
  case (Suc i)
  let ?w = "g (bs_data b ! i)" and ?P = "\<lambda>m. bit (g (bs_data b ! (m div 64))) (m mod 64)"
  note p = unat_pos[OF Suc.prems(2) lessI]
  have w: "word_at b (of_nat i) = Inr (bs_data b ! i)"
    using Suc.prems(1) p(3)[of 0] by (simp add: word_at_def)
  have P: "?P m = bit ?w (m - 64 * i)" if "64 * i \<le> m" "m < 64 * i + 64" for m
  proof -
    have "m div 64 = i" using that by (intro div_nat_eqI) auto
    moreover from this have "m mod 64 = m - 64 * i" by (metis minus_mult_div_eq_mod)
    ultimately show ?thesis by simp
  qed
  show ?case
  proof (cases "?w = 0")
    case False
    note f = bsr_instr_spec[OF False]
    let ?r = "of_nat (bsr_instr ?w) + of_nat i * 64 :: u64"
    have r: "unat ?r = 64 * i + bsr_instr ?w" "?r \<noteq> - 1" using p(1,2) f by blast+
    have 1: "?P (unat ?r)" using f r(1) by (subst P) auto
    have 2: "\<not> ?P m" if "unat ?r < m" "m < 64 * Suc i" for m
      using that f r(1) by (subst P) auto
    have "found_last ?P (64 * Suc i) ?r"
      unfolding found_last_def using 1 2 r f by auto
    then show ?thesis using w False by simp
  next
    case True
    obtain r where r: "scan_down g b i = Inr r" "found_last ?P (64 * i) r"
      using Suc by auto
    have z: "\<not> ?P m" if "64 * i \<le> m" "m < 64 * i + 64" for m
      using that True by (subst P) auto
    have "\<not> ?P m" if "m < 64 * Suc i" "if r = -1 then True else unat r < m" for m
      using that z[of m] r(2) by (cases "m < 64 * i") (auto simp: found_last_def split: if_splits)
    then have "found_last ?P (64 * Suc i) r"
      using r(2) unfolding found_last_def by (auto split: if_splits)
    then show ?thesis using w True r(1) by simp
  qed
qed

lemma bit_run_ends:
  "p < 64 \<Longrightarrow> bit (run_ends nb w) p \<longleftrightarrow> (\<forall>j<nb. j \<le> p \<and> bit w (p - j))"
  by (induction nb) (auto simp: run_ends_def bit_simps less_Suc_eq)

lemma large_scan_spec:
  assumes "n \<le> length (bs_data b)" "64 * n < 2 ^ 64" "0 < nb" "nb < 64" "nb \<le> unat (bs_size b)"
  shows "\<exists>r. large_scan b nb i n = Inr r \<and>
    (r \<noteq> - 1 \<longrightarrow> unat r + nb \<le> unat (bs_size b) \<and> unat r + nb \<le> 64 * n
      \<and> (\<forall>j<nb. bits_of b (unat r + j)))"
  using assms
proof (induction b nb i n rule: large_scan.induct)
  case (1 b nb i n)
  show ?case
  proof (cases "i < n")
    case False
    then show ?thesis by (subst large_scan.simps) simp
  next
    case True
    let ?w = "bs_data b ! i" and ?d = "run_ends nb (bs_data b ! i)"
    have il: "i < length (bs_data b)" using True "1.prems"(1) by simp
    have w: "word_at b (of_nat i) = Inr ?w"
      using il unat_pos(3)[OF "1.prems"(2) True, of 0] by (simp add: word_at_def)
    show ?thesis
    proof (cases "?d = 0")
      case zero: True
      then show ?thesis
        using "1.IH"[OF True w refl] "1.prems" True w by (subst large_scan.simps) (auto simp: Let_def)
    next
      case False
      define p where "p = bsf_instr ?d"
      have p: "p < 64" "bit ?d p" using bsf_instr_spec[OF False] by (auto simp: p_def)
      have runs: "\<forall>j<nb. j \<le> p \<and> bit ?w (p - j)" using p bit_run_ends by blast
      then have ge: "nb - 1 \<le> p" using "1.prems"(3) by (metis diff_less zero_less_one)
      define q where "q = p + 1 - nb"
      have q: "q < 64" "q + nb \<le> 64" "of_nat p + 1 - of_nat nb = (of_nat q :: u64)"
        using p ge "1.prems"(3) by (simp_all add: q_def of_nat_diff)
      let ?r = "of_nat p + 1 - of_nat nb + of_nat i * 64 :: u64"
      have r: "unat ?r = 64 * i + q"
        unfolding q(3) using unat_pos(1)[OF "1.prems"(2) True q(1)] .
      have s: "unat (bs_size b - of_nat nb) = unat (bs_size b) - nb"
        using "1.prems"(4,5) by (subst unat_sub) (simp_all add: word_le_nat_alt unat_of_nat)
      have bits: "bits_of b (64 * i + q + j)" if "j < nb" for j
      proof -
        have "nb - 1 - j < nb" "p - (nb - 1 - j) = q + j" using that ge by (auto simp: q_def)
        then have "bit ?w (q + j)" using runs by metis
        moreover have "64 * i + q + j < 64 * i + 64" using q that by simp
        ultimately show ?thesis by (subst bits_of_word[OF il]) auto
      qed
      have e: "large_scan b nb i n = Inr (if bs_size b - of_nat nb < ?r then - 1 else ?r)"
        using True w False by (subst large_scan.simps) (simp add: Let_def p_def)
      show ?thesis
      proof (cases "bs_size b - of_nat nb < ?r")
        case True
        with e show ?thesis by simp
      next
        case F: False
        have "64 * i + q + nb \<le> 64 * n" using q(2) True by (simp add: less_eq_Suc_le) 
        moreover have "64 * i + q + nb \<le> unat (bs_size b)"
          using F "1.prems"(5) unfolding word_less_nat_alt r s by simp
        ultimately show ?thesis using e F bits r by auto
      qed
    qed
  qed
qed

lemma nth_memset:
  "k < length ws \<Longrightarrow> memset_words v n ws ! k =
     (ws ! k AND NOT (mask (8 * min 8 (n - 8 * k)))) OR (v AND mask (8 * min 8 (n - 8 * k)))"
  by (simp add: memset_words_def Let_def)

lemma length_memset [simp]: "length (memset_words v n ws) = length ws"
  by (simp add: memset_words_def)

lemma bs_memset_spec:
  assumes "bs_wf b" and v: "\<And>n. n < 64 \<Longrightarrow> bit v n = p"
  shows "\<exists>b'. bs_memset v b = Inr b' \<and> bs_size b' = bs_size b
    \<and> length (bs_data b') = length (bs_data b)
    \<and> bits_of b' = put_range p 0 (8 * (unat (bs_size b) div 8)) (bits_of b)"
proof -
  let ?n = "unat (bs_size b) div 8"
  have n8: "unat (bs_size b div 8) = ?n" by (simp add: unat_div)
  have ok: "?n \<le> 8 * length (bs_data b)" using assms(1) unfolding bs_wf_def by linarith
  let ?b = "b\<lparr>bs_data := memset_words v ?n (bs_data b)\<rparr>"
  have "bits_of ?b m = put_range p 0 (8 * ?n) (bits_of b) m" for m
  proof (cases "m div 64 < length (bs_data b)")
    case False
    then have "\<not> m < 8 * ?n" using ok by linarith
    with False show ?thesis by (simp add: bits_of_def put_range_def)
  next
    case True
    obtain q r where m: "m = 64 * q + r" "r < 64" "m div 64 = q" "m mod 64 = r" by (rule div64E)
    have "r < 8 * min 8 (?n - 8 * q) \<longleftrightarrow> m < 8 * ?n"
      using m(1,2) by (auto simp: min_def)
    then show ?thesis
      using True m v[OF m(2)]
      by (auto simp: bits_of_def nth_memset put_range_def bit_simps)
  qed
  then show ?thesis using ok by (auto simp: bs_memset_def n8 fun_eq_iff)
qed

section \<open>The operations on whole bitsets\<close>

text \<open>
  \<open>scanned b\<close> is the number of bits the word loops of \<open>bsf\<close> and \<open>usr\<close> look at: the whole
  words of the window. Bits of a last partial word are never reported.
\<close>

definition scanned :: "bitset \<Rightarrow> nat" where
  "scanned b = 64 * (unat (bs_size b) div 64)"

lemma scanned_le: "scanned b \<le> unat (bs_size b)"
  by (simp add: scanned_def)

lemma scanned_bounds:
  assumes "bs_wf b"
  shows "unat (bs_size b) div 64 \<le> length (bs_data b)" "64 * (unat (bs_size b) div 64) < 2 ^ 64"
proof -
  show "unat (bs_size b) div 64 \<le> length (bs_data b)"
    using assms unfolding bs_wf_def by linarith
  have "64 * (unat (bs_size b) div 64) \<le> unat (bs_size b)" by simp
  also have "\<dots> < 2 ^ 64" using unsigned_less[of "bs_size b"] by simp
  finally show "64 * (unat (bs_size b) div 64) < 2 ^ 64" .
qed

lemma bs_bsf_spec:
  assumes "bs_wf b"
  shows "\<exists>r. bs_bsf b = Inr r \<and> found_first b 0 (scanned b) r"
  using scan_up_spec[OF scanned_bounds[OF assms], of 0] by (simp add: bs_bsf_def scanned_def)

lemma bs_usr_spec:
  assumes "bs_wf b"
  shows "\<exists>r. bs_usr b = Inr r \<and> found_last (\<lambda>m. \<not> bits_of b m) (scanned b) r"
proof -
  let ?n = "unat (bs_size b) div 64"
  have e: "bit (NOT (bs_data b ! (m div 64))) (m mod 64) \<longleftrightarrow> \<not> bits_of b m" if "m < 64 * ?n" for m
    using that scanned_bounds(1)[OF assms] by (auto simp: bits_of_def bit_not_iff)
  have "found_last (\<lambda>m. bit (NOT (bs_data b ! (m div 64))) (m mod 64)) (64 * ?n) r
      = found_last (\<lambda>m. \<not> bits_of b m) (64 * ?n) r" for r
    unfolding found_last_def using e by auto
  then show ?thesis
    using scan_down_spec[OF scanned_bounds[OF assms], of NOT] by (simp add: bs_usr_def scanned_def)
qed

lemma bs_fill_spec:
  assumes "bs_wf b"
  shows "\<exists>b'. bs_fill b = Inr b' \<and> same_window b b'
    \<and> bits_of b' = put_range True 0 (8 * (unat (bs_size b) div 8)) (bits_of b)"
  using bs_memset_spec[OF assms, of "- 1" True] by (simp add: bs_fill_def same_window_def)

lemma bs_clear_spec:
  assumes "bs_wf b"
  shows "\<exists>b'. bs_clear b = Inr b' \<and> same_window b b'
    \<and> bits_of b' = put_range False 0 (8 * (unat (bs_size b) div 8)) (bits_of b)"
  using bs_memset_spec[OF assms, of 0 False] by (simp add: bs_clear_def same_window_def)

text \<open>Two bitsets over the same window with the same bits are equal.\<close>

lemma bits_of_inject:
  assumes "same_window b b'" "bits_of b = bits_of b'"
  shows "b = b'"
proof -
  have "bs_data b ! k = bs_data b' ! k" if k: "k < length (bs_data b)" for k
  proof (rule bit_word_eqI)
    fix n assume "n < LENGTH(64)"
    then have "(64 * k + n) div 64 = k" "(64 * k + n) mod 64 = n" by simp_all
    then show "bit (bs_data b ! k) n = bit (bs_data b' ! k) n"
      using fun_cong[OF assms(2), of "64 * k + n"] assms(1) k
      by (simp add: bits_of_def same_window_def)
  qed
  then have "bs_data b = bs_data b'"
    using assms(1) by (intro nth_equalityI) (auto simp: same_window_def)
  then show ?thesis using assms(1) by (simp add: same_window_def)
qed

section \<open>Properties\<close>

definition demo_bits :: bitset where
  "demo_bits = \<lparr>bs_data = [0xF0, 0, 7], bs_size = 192\<rparr>"

lemma demo_bits_wf: "bs_wf demo_bits"
  by (simp add: bs_wf_def demo_bits_def)

text \<open>Range operations that start inside a word: \<open>set(i, len)\<close> with \<open>i\<close> not a multiple of 64
  turns on exactly the bits \<open>i, \<dots>, i + len - 1\<close> and keeps every other bit, and
  \<open>unset(i, len)\<close> turns exactly those off, whichever of the one word, the crossing and the
  whole word paths the code takes, provided the word after the range is part of the memory.
\<close>

theorem bitset_range_unaligned:
  assumes "unat i + unat len \<le> unat (bs_size b)" "unat (bs_size b) + 64 < 2 ^ 64"
    and "unat i mod 64 \<noteq> 0" "(unat i + unat len) div 64 < length (bs_data b)"
  shows "(\<exists>b'. bs_set_range b i len = Inr b' \<and> same_window b b'
      \<and> bits_of b' = put_range True (unat i) (unat i + unat len) (bits_of b))
    \<and> (\<exists>b'. bs_unset_range b i len = Inr b' \<and> same_window b b'
      \<and> bits_of b' = put_range False (unat i) (unat i + unat len) (bits_of b))"
  using range_write_unaligned[of "- 1" True i len b] range_write_unaligned[of 0 False i len b] assms
  unfolding bs_set_range_eq bs_unset_range_eq same_window_def by auto

theorem bitset_range_unaligned_witness:
  "\<exists>b'. bs_set_range demo_bits 60 70 = Inr b' \<and> same_window demo_bits b'
      \<and> bits_of b' = put_range True 60 130 (bits_of demo_bits)"
  using bitset_range_unaligned[of 60 70 demo_bits] by (simp add: demo_bits_def)

text \<open>Range operations that start on a word boundary do not do what they are documented to:
  \<open>len -= 64 - mod\<close> is executed although no partial word was written, so the last 64 bits of
  a range of at least 64 bits are left as they were, and a shorter range makes \<open>len\<close> wrap and
  the loop write ones until it leaves the memory of the bitset.
\<close>

theorem bitset_range_aligned_drops_64:
  assumes "bs_wf b" "unat i + unat len \<le> unat (bs_size b)" "64 * length (bs_data b) + 128 < 2 ^ 64"
    and "unat i mod 64 = 0"
  shows "if 64 \<le> unat len
    then \<exists>b'. bs_set_range b i len = Inr b' \<and> same_window b b'
      \<and> bits_of b' = put_range True (unat i) (unat i + unat len - 64) (bits_of b)
    else bs_set_range b i len = Inl OutOfBounds"
  using range_write_aligned[of "- 1" True b i len] range_write_short_aligned[of b i len "- 1"] assms
  unfolding bs_set_range_eq same_window_def bs_wf_def by auto

theorem bitset_range_aligned_drops_64_witness:
  "(\<exists>b'. bs_set_range demo_bits 64 100 = Inr b' \<and> same_window demo_bits b'
      \<and> bits_of b' = put_range True 64 100 (bits_of demo_bits))
   \<and> bs_set_range demo_bits 64 10 = Inl OutOfBounds"
  using bitset_range_aligned_drops_64[OF demo_bits_wf, of 64 100]
    bitset_range_aligned_drops_64[OF demo_bits_wf, of 64 10]
  by (simp add: demo_bits_def)

text \<open>\<open>largeBsf(nb)\<close>: when it returns a position (not \<open>-1\<close>), the \<open>nb\<close> bits from there are all
  set, lie inside the bitset and inside one word; it never fails to return for
  \<open>0 < nb < 56\<close> and \<open>nb \<le> _size\<close> on a well-formed bitset.
\<close>

theorem bitset_largeBsf_sound:
  assumes "bs_wf b" "0 < nb" "nb < 56" "nb \<le> unat (bs_size b)" "unat (bs_size b) + 64 < 2 ^ 64"
  shows "\<exists>r. bs_largeBsf b nb = Inr r \<and> (r \<noteq> - 1 \<longrightarrow> unat r + nb \<le> unat (bs_size b)
     \<and> (\<forall>j<nb. bits_of b (unat r + j)))"
proof -
  let ?n = "(unat (bs_size b) + 63) div 64"
  have "unat (bs_size b + 63) = unat (bs_size b) + 63"
    using assms(5) unat_add_small[of "bs_size b" 63] by simp
  then have n: "unat ((bs_size b + 63) div 64) = ?n" by (simp only: unat_div_64)
  have "?n \<le> length (bs_data b)" using assms(1) unfolding bs_wf_def by linarith
  moreover have "64 * ?n < 2 ^ 64"
    using assms(5) times_div_less_eq_dividend[of 64 "unat (bs_size b) + 63"] by simp
  ultimately have "\<exists>r. large_scan b nb 0 ?n = Inr r \<and> (r \<noteq> - 1 \<longrightarrow>
      unat r + nb \<le> unat (bs_size b) \<and> unat r + nb \<le> 64 * ?n \<and> (\<forall>j<nb. bits_of b (unat r + j)))"
    using assms by (intro large_scan_spec) simp_all
  then show ?thesis using assms(3) unfolding bs_largeBsf_def n by auto
qed

theorem bitset_largeBsf_sound_witness:
  "bs_largeBsf demo_bits 3 = Inr 4 \<and> bits_of demo_bits 4 \<and> bits_of demo_bits 5
     \<and> bits_of demo_bits 6"
proof -
  have r: "bs_largeBsf demo_bits 3 = Inr 4" by code_simp
  have "\<exists>r. bs_largeBsf demo_bits 3 = Inr r \<and> (r \<noteq> - 1 \<longrightarrow> unat r + 3 \<le> unat (bs_size demo_bits)
     \<and> (\<forall>j<3. bits_of demo_bits (unat r + j)))"
    by (rule bitset_largeBsf_sound[OF demo_bits_wf]) (simp_all add: demo_bits_def)
  with r have b: "\<forall>j<3. bits_of demo_bits (4 + j)" by simp
  show ?thesis using r b[rule_format, of 0] b[rule_format, of 1] b[rule_format, of 2] by simp
qed

end
