(* ===== verification/PhysMem.thy ===== *)
theory PhysMem
  imports Bitset
begin

text \<open>
  The class \<open>PhysicalMemoryAllocator\<close> (\<open>src/src/Memory/PhysicalMemoryAllocator.cpp\<close>):
  4K and 2M physical pages handed out from a bitset in which a one means free; bit \<open>k\<close>
  stands for the page at \<open>0x100000 + 4096 k\<close>. The state holds the bitset and the address
  where it lives (\<open>Bitset::getAddr\<close>). Logging is left out.
\<close>

record physmem =
  pm_bitset :: bitset
  pm_where :: u64

text \<open>\<open>OccupArea\<close> of \<open>src32/KArgs.h\<close>.\<close>

record occup_area =
  oa_addr :: u32
  oa_nbPages :: u32

section \<open>Operations\<close>

definition pm_switchVirt :: "u64 \<Rightarrow> physmem \<Rightarrow> physmem" where
  "pm_switchVirt virtBitset pm = pm\<lparr>pm_where := virtBitset\<rparr>"

definition getPageSize :: "physmem \<Rightarrow> u64" where
  "getPageSize pm = ((bs_size (pm_bitset pm) + 7) div 8 + 0x1000 - 1) div 0x1000"

definition frame_index :: "u64 \<Rightarrow> u64" where
  "frame_index addr = (addr - 0x100000) div 0x1000"

definition pm_get :: "u64 \<Rightarrow> physmem \<Rightarrow> bool res" where
  "pm_get addr pm = assertk (addr AND (0x1000 - 1) = 0)
     (bs_get (pm_bitset pm) (frame_index addr))"

definition pm_set :: "u64 \<Rightarrow> physmem \<Rightarrow> physmem res" where
  "pm_set addr pm = assertk (addr AND (0x1000 - 1) = 0)
     (bnd (bs_set (pm_bitset pm) (frame_index addr)) (\<lambda>b. Inr (pm\<lparr>pm_bitset := b\<rparr>)))"

definition pm_unset :: "u64 \<Rightarrow> physmem \<Rightarrow> physmem res" where
  "pm_unset addr pm = assertk (addr AND (0x1000 - 1) = 0)
     (bnd (bs_unset (pm_bitset pm) (frame_index addr)) (\<lambda>b. Inr (pm\<lparr>pm_bitset := b\<rparr>)))"

text \<open>
  \<open>init\<close>: \<open>mem\<close> is the memory found at \<open>phyBitset\<close>. The two loops over pages and areas
  are the lists of addresses they visit.
\<close>

definition area_pages :: "occup_area \<Rightarrow> u64 list" where
  "area_pages a = map (\<lambda>j. ucast (oa_addr a) + of_nat j * 0x1000) [0..<unat (oa_nbPages a)]"

definition pm_init :: "u64 list \<Rightarrow> u64 \<Rightarrow> u64 \<Rightarrow> occup_area list \<Rightarrow> physmem res" where
  "pm_init mem phyBitset RAMSize occupArea =
     assertk (phyBitset AND (0x1000 - 1) = 0)
     (bnd (bs_fill (bs_init mem (RAMSize div 0x1000))) (\<lambda>b.
      let pm = \<lparr>pm_bitset = b, pm_where = phyBitset\<rparr> in
      bnd (for_list pm_unset
             (map (\<lambda>i. pm_where pm + 0x1000 * of_nat i) [0..<unat (getPageSize pm)]) pm)
        (for_list (\<lambda>a. for_list pm_unset (area_pages a)) occupArea)))"

definition pm_alloc :: "physmem \<Rightarrow> (u64 \<times> physmem) res" where
  "pm_alloc pm = bnd (bs_bsf (pm_bitset pm)) (\<lambda>bsf.
     assertk (bsf \<noteq> - 1)
       (bnd (bs_ref_assign (pm_bitset pm) bsf False) (\<lambda>b.
         Inr (0x100000 + push_bit 12 bsf, pm\<lparr>pm_bitset := b\<rparr>))))"

definition pm_free :: "u64 \<Rightarrow> physmem \<Rightarrow> physmem res" where
  "pm_free page pm =
     (let index = page - 0x100000 in
      assertk (index AND (push_bit 12 1 - 1) = 0)
       (let index = drop_bit 12 index in
        bnd (bs_ref_bool (pm_bitset pm) index) (\<lambda>isfree.
          if isfree then Inl Bsod
          else bnd (bs_ref_assign (pm_bitset pm) index True)
                 (\<lambda>b. Inr (pm\<lparr>pm_bitset := b\<rparr>)))))"

definition pm_alloc2M :: "physmem \<Rightarrow> (u64 \<times> physmem) res" where
  "pm_alloc2M pm = bnd (bs_usr (pm_bitset pm)) (\<lambda>usr.
     assertk (usr \<noteq> - 1)
       (let usr = alignup (usr + 1) 256;
            usr = (if usr mod 512 = 0 then usr + 256 else usr) in
        assertk (usr + 512 \<le> bs_size (pm_bitset pm))
          (bnd (bs_unset_range (pm_bitset pm) usr 512) (\<lambda>b.
            Inr (0x100000 + push_bit 12 usr, pm\<lparr>pm_bitset := b\<rparr>)))))"

definition pm_free2M :: "u64 \<Rightarrow> physmem \<Rightarrow> physmem res" where
  "pm_free2M page pm =
     (let index = page - 0x100000 in
      assertk (index AND (push_bit 12 1 - 1) = 0)
       (let index = drop_bit 12 index in
        bnd (bs_set_range (pm_bitset pm) index 512) (\<lambda>b. Inr (pm\<lparr>pm_bitset := b\<rparr>))))"

section \<open>Pages and frames\<close>

text \<open>\<open>frame_addr k\<close> is the address of the page bit \<open>k\<close> stands for.\<close>

lemma and_fff: "(x::u64) AND (0x1000 - 1) = take_bit 12 x"
proof -
  have "(mask 12 :: u64) = 0x1000 - 1" by (simp add: mask_eq_exp_minus_1)
  then show ?thesis by (simp add: take_bit_eq_mask)
qed

lemma and_fff_push: "(x::u64) AND (push_bit 12 1 - 1) = take_bit 12 x"
  using and_fff[of x] by (simp add: push_bit_eq_mult)

lemma page_aligned_iff: "take_bit 12 (x::u64) = 0 \<longleftrightarrow> unat x mod 0x1000 = 0"
proof -
  have "unat (take_bit 12 x) = unat x mod 0x1000"
    by (simp add: unsigned_take_bit_eq) (simp add: take_bit_eq_mod)
  then show ?thesis by (metis unat_eq_zero)
qed

definition frame_addr :: "nat \<Rightarrow> u64" where
  "frame_addr k = 0x100000 + of_nat k * 0x1000"

lemma unat_frame_addr:
  assumes "k < 2 ^ 40"
  shows "unat (frame_addr k) = 0x100000 + 0x1000 * k"
proof -
  have e: "frame_addr k = of_nat (0x100000 + 0x1000 * k)" by (simp add: frame_addr_def)
  show ?thesis unfolding e unat_of_nat using assms by simp
qed

lemma frame_aligned: 
  assumes "k < 2 ^ 40"
  shows "take_bit 12 (frame_addr k) = 0"
proof -
  have "unat (frame_addr k) = 0x1000 * (0x100 + k)"
    using unat_frame_addr[OF assms] by simp
  then show ?thesis by (simp only: page_aligned_iff mod_mult_self1_is_0)
qed

lemma frame_sub: "frame_addr k - 0x100000 = of_nat k * 0x1000"
  by (simp add: frame_addr_def)

lemma unat_frame_sub:
  assumes "k < 2 ^ 40"
  shows "unat (frame_addr k - 0x100000) = 0x1000 * k"
proof -
  have e: "of_nat k * 0x1000 = (of_nat (0x1000 * k) :: u64)" by simp
  show ?thesis unfolding frame_sub e unat_of_nat using assms by simp
qed

lemma frame_sub_aligned:
  assumes "k < 2 ^ 40"
  shows "take_bit 12 (frame_addr k - 0x100000) = 0"
  unfolding page_aligned_iff unat_frame_sub[OF assms] by simp

lemma unat_of_nat_small [simp]: "k < 2 ^ 40 \<Longrightarrow> unat (of_nat k :: u64) = k"
  unfolding unat_of_nat by simp

lemma frame_index_addr:
  assumes "k < 2 ^ 40"
  shows "frame_index (frame_addr k) = of_nat k"
proof (rule word_unat_eq_iff[THEN iffD2])
  have "unat (frame_index (frame_addr k)) = unat (frame_addr k - 0x100000) div unat (0x1000 :: u64)"
    by (simp only: frame_index_def unat_div)
  also have "\<dots> = k" unfolding unat_frame_sub[OF assms] by simp
  also have "\<dots> = unat (of_nat k :: u64)" using assms by simp
  finally show "unat (frame_index (frame_addr k)) = unat (of_nat k :: u64)" .
qed

lemma frame_drop:
  assumes "k < 2 ^ 40"
  shows "drop_bit 12 (frame_addr k - 0x100000) = of_nat k"
proof (rule word_unat_eq_iff[THEN iffD2])
  have "unat (drop_bit 12 (frame_addr k - 0x100000)) = drop_bit 12 (0x1000 * k)"
    by (simp only: unat_drop_bit_eq unat_frame_sub[OF assms])
  also have "\<dots> = unat (of_nat k :: u64)" using assms by (simp add: drop_bit_eq_div)
  finally show "unat (drop_bit 12 (frame_addr k - 0x100000)) = unat (of_nat k :: u64)" .
qed

lemma frame_push: "0x100000 + push_bit 12 r = frame_addr (unat r)"
  by (simp add: frame_addr_def push_bit_eq_mult)

definition pm_wf :: "physmem \<Rightarrow> bool" where
  "pm_wf pm \<longleftrightarrow> bs_wf (pm_bitset pm) \<and> unat (bs_size (pm_bitset pm)) \<le> 2 ^ 36"

definition free_frames :: "physmem \<Rightarrow> nat set" where
  "free_frames pm = {k. k < unat (bs_size (pm_bitset pm)) \<and> bits_of (pm_bitset pm) k}"

definition pm_frames :: "physmem \<Rightarrow> nat" where
  "pm_frames pm = unat (bs_size (pm_bitset pm))"

definition pm_visible :: "physmem \<Rightarrow> nat" where
  "pm_visible pm = scanned (pm_bitset pm)"

lemma word_less_of_nat: "k < unat (s::u64) \<Longrightarrow> k < 2^40 \<Longrightarrow> of_nat k < s"
  by (simp add: word_less_nat_alt)

definition alloc_frame :: "physmem \<Rightarrow> nat \<Rightarrow> physmem \<Rightarrow> bool" where
  "alloc_frame pm k pm' \<longleftrightarrow> same_window (pm_bitset pm) (pm_bitset pm') \<and> pm_where pm' = pm_where pm
    \<and> bits_of (pm_bitset pm') = (bits_of (pm_bitset pm))(k := False)"

lemma pm_alloc_spec:
  assumes "pm_wf pm"
  shows "if \<exists>k<pm_visible pm. bits_of (pm_bitset pm) k
    then \<exists>k pm'. pm_alloc pm = Inr (frame_addr k, pm') \<and> k < pm_visible pm
      \<and> bits_of (pm_bitset pm) k \<and> (\<forall>j<k. \<not> bits_of (pm_bitset pm) j)
      \<and> alloc_frame pm k pm'
    else pm_alloc pm = Inl Assertion"
proof -
  let ?b = "pm_bitset pm"
  have wf: "bs_wf ?b" using assms by (simp add: pm_wf_def)
  obtain r where r: "bs_bsf ?b = Inr r" "found_first ?b 0 (scanned ?b) r"
    using bs_bsf_spec[OF wf] by auto
  show ?thesis
  proof (cases "r = - 1")
    case True
    then have "\<not> (\<exists>k<pm_visible pm. bits_of ?b k)"
      using r(2) by (auto simp: found_first_def pm_visible_def)
    then show ?thesis using r(1) True by (simp add: pm_alloc_def)
  next
    case False
    then have f: "unat r < scanned ?b" "bits_of ?b (unat r)" "\<forall>j<unat r. \<not> bits_of ?b j"
      using r(2) by (auto simp: found_first_def)
    have "r < bs_size ?b" using f(1) scanned_le[of ?b] by (simp add: word_less_nat_alt)
    then obtain b' where b': "bs_unset ?b r = Inr b'" "same_window ?b b'"
      "bits_of b' = (bits_of ?b)(unat r := False)"
      using bs_unset_spec[OF wf] by blast
    have "pm_alloc pm = Inr (frame_addr (unat r), pm\<lparr>pm_bitset := b'\<rparr>)"
      using r(1) False b'(1) by (simp add: pm_alloc_def bs_ref_assign_eq frame_push)
    moreover have "\<exists>k<pm_visible pm. bits_of ?b k" using f by (auto simp: pm_visible_def)
    moreover have "alloc_frame pm (unat r) (pm\<lparr>pm_bitset := b'\<rparr>)"
      using b' by (simp add: alloc_frame_def)
    ultimately show ?thesis using f by (auto simp: pm_visible_def)
  qed
qed

lemma pm_free_spec:
  assumes "pm_wf pm" "k < pm_frames pm"
  shows "if bits_of (pm_bitset pm) k then pm_free (frame_addr k) pm = Inl Bsod
    else \<exists>pm'. pm_free (frame_addr k) pm = Inr pm'
      \<and> same_window (pm_bitset pm) (pm_bitset pm') \<and> pm_where pm' = pm_where pm
      \<and> bits_of (pm_bitset pm') = (bits_of (pm_bitset pm))(k := True)"
proof -
  let ?b = "pm_bitset pm"
  have wf: "bs_wf ?b" and k: "k < 2 ^ 40"
    using assms by (simp_all add: pm_wf_def pm_frames_def)
  have i: "of_nat k < bs_size ?b"
    using assms(2) k by (intro word_less_of_nat) (auto simp: pm_frames_def)
  obtain b' where b': "bs_set ?b (of_nat k) = Inr b'" "same_window ?b b'"
      "bits_of b' = (bits_of ?b)(k := True)"
    using bs_set_spec[OF wf i] k by auto
  have "bs_get ?b (of_nat k) = Inr (bits_of ?b k)"
    using bs_get_spec[OF wf i] k by simp
  then show ?thesis
    using b' k frame_sub_aligned[OF k] unfolding pm_free_def and_fff_push Let_def frame_drop[OF k]
    by (simp add: bs_ref_assign_eq bs_ref_bool_eq)
qed

lemma unat_alignup:
  assumes "0 < unat m" "unat n + unat m < 2 ^ 64"
  shows "unat (alignup n m) = (unat n + unat m - 1) div unat m * unat m"
proof -
  have m0: "0 < m" using assms(1) by (simp add: word_neq_0_conv[symmetric] unat_gt_0)
  have e: "unat (n + m - 1) = unat n + unat m - 1"
  proof -
    have s: "unat (n + m) = unat n + unat m"
      using assms(2) by (intro unat_add_lem[THEN iffD1]) simp
    then have "n + m \<noteq> 0" using assms(1) by (metis add_is_0 less_numeral_extra(3) unat_0)
    then show ?thesis using s by (simp add: unat_minus_one)
  qed
  have "(unat n + unat m - 1) div unat m * unat m \<le> unat n + unat m - 1" by simp
  also have "\<dots> < 2 ^ 64" using assms by simp
  finally have lt: "(unat n + unat m - 1) div unat m * unat m < 2 ^ 64" .
  have "unat (alignup n m) = unat ((n + m - 1) div m) * unat m mod 2 ^ 64"
    by (simp add: alignup_def unat_word_ariths(2))
  also have "\<dots> = (unat n + unat m - 1) div unat m * unat m mod 2 ^ 64"
    by (simp only: unat_div e)
  also have "\<dots> = (unat n + unat m - 1) div unat m * unat m"
    using lt by (rule mod_less)
  finally show ?thesis .
qed

definition target2M :: "nat \<Rightarrow> nat" where
  "target2M h = (let u = (h + 256) div 256 * 256 in if u mod 512 = 0 then u + 256 else u)"

lemma target2M_props: "h < target2M h" "target2M h \<le> h + 512" "target2M h mod 512 = 256"
    "target2M h mod 64 = 0"
proof -
  define q where "q = (h + 256) div 256"
  have q: "256 * q \<le> h + 256" "h + 256 < 256 * q + 256"
    unfolding q_def using dividend_less_times_div[of 256 "h + 256"] by simp_all
  have e: "q * 256 mod 512 = q mod 2 * 256"
    using mod_mult_mult2[of q 256 2] by simp
  obtain j where t: "target2M h = 512 * j + 256" "256 * q \<le> target2M h" "target2M h \<le> 256 * q + 256"
  proof (cases "even q")
    case True
    then obtain j where "q = 2 * j" by (elim evenE)
    then show ?thesis
      using that[of j] e by (simp add: target2M_def q_def[symmetric])
  next
    case False
    then obtain j where "q = 2 * j + 1" by (elim oddE)
    then show ?thesis
      using that[of j] e by (simp add: target2M_def q_def[symmetric])
  qed
  show "h < target2M h" "target2M h \<le> h + 512" using q t(2,3) by simp_all
  show "target2M h mod 512 = 256" unfolding t(1) by simp
  have "512 * j + 256 = 64 * (8 * j + 4)" by simp
  then show "target2M h mod 64 = 0" unfolding t(1) by (metis mod_mult_self1_is_0)
qed

lemma pm_alloc2M_spec:
  assumes wf: "pm_wf pm"
  shows "if \<forall>k<pm_visible pm. bits_of (pm_bitset pm) k then pm_alloc2M pm = Inl Assertion
    else \<exists>h<pm_visible pm. \<not> bits_of (pm_bitset pm) h
      \<and> (\<forall>j. h < j \<and> j < pm_visible pm \<longrightarrow> bits_of (pm_bitset pm) j)
      \<and> (let k = target2M h in
         if k + 512 \<le> pm_frames pm
         then \<exists>pm'. pm_alloc2M pm = Inr (frame_addr k, pm')
           \<and> same_window (pm_bitset pm) (pm_bitset pm') \<and> pm_where pm' = pm_where pm
           \<and> bits_of (pm_bitset pm') = put_range False k (k + 448) (bits_of (pm_bitset pm))
         else pm_alloc2M pm = Inl Assertion)"
proof -
  let ?b = "pm_bitset pm"
  have bwf: "bs_wf ?b" and sz: "unat (bs_size ?b) \<le> 2 ^ 36" using wf by (simp_all add: pm_wf_def)
  obtain r where r: "bs_usr ?b = Inr r" "found_last (\<lambda>m. \<not> bits_of ?b m) (scanned ?b) r"
    using bs_usr_spec[OF bwf] by auto
  show ?thesis
  proof (cases "r = - 1")
    case True
    then have "\<forall>k<pm_visible pm. bits_of ?b k"
      using r(2) by (auto simp: found_last_def pm_visible_def)
    then show ?thesis using r(1) True by (simp add: pm_alloc2M_def)
  next
    case False
    define h where "h = unat r"
    have f: "h < pm_visible pm" "\<not> bits_of ?b h"
       "\<forall>j. h < j \<and> j < pm_visible pm \<longrightarrow> bits_of ?b j"
      using r(2) False by (auto simp: found_last_def pm_visible_def h_def)
    have hlt: "h < 2 ^ 36" using f(1) scanned_le[of ?b] sz by (simp add: pm_visible_def)
    have r1: "unat (r + 1) = h + 1"
      using hlt unat_add_small[of r 1] by (simp add: h_def)
    let ?u = "alignup (r + 1) 256"
    have u: "unat ?u = (h + 256) div 256 * 256"
      using unat_alignup[of 256 "r + 1"] hlt by (simp add: r1)
    let ?v = "if ?u mod 512 = 0 then ?u + 256 else ?u"
    let ?k = "target2M h"
    have um: "?u mod 512 = 0 \<longleftrightarrow> unat ?u mod 512 = 0"
      by (simp add: word_unat_eq_iff unat_mod)
    have "unat ?u + 256 < 2 ^ 64" unfolding u using hlt by (simp add: div_times_less_eq_dividend le_less_trans)
    then have v: "unat ?v = ?k"
      using unat_add_small[of ?u 256] u by (simp add: um target2M_def Let_def)
    note t = target2M_props[of h]
    have v5: "unat (?v + 512) = ?k + 512"
      using unat_add_small[of ?v 512] hlt t(2) by (simp only: v) simp
    have g: "?v + 512 \<le> bs_size ?b \<longleftrightarrow> ?k + 512 \<le> pm_frames pm"
      unfolding word_le_nat_alt v5 pm_frames_def ..
    have ft: "frame_addr (unat ?v) = frame_addr ?k" by (simp only: v)
    show ?thesis
    proof (cases "?k + 512 \<le> pm_frames pm")
      case F: False
      then have "pm_alloc2M pm = Inl Assertion"
        using r(1) False g by (simp add: pm_alloc2M_def Let_def)
      then show ?thesis using f F by (auto simp: Let_def)
    next
      case T: True
      have "\<exists>b'. range_write 0 ?b ?v 512 = Inr b' \<and> bs_size b' = bs_size ?b
        \<and> length (bs_data b') = length (bs_data ?b)
        \<and> bits_of b' = put_range False ?k (?k + 512 - 64) (bits_of ?b)"
        using range_write_aligned[of 0 False ?b ?v 512] T sz bwf t(4)
        unfolding v by (simp add: pm_frames_def)
      then obtain b' where b': "bs_unset_range ?b ?v 512 = Inr b'" "same_window ?b b'"
         "bits_of b' = put_range False ?k (?k + 448) (bits_of ?b)"
        unfolding bs_unset_range_eq same_window_def by (auto simp: add.commute)
      have "pm_alloc2M pm = Inr (frame_addr ?k, pm\<lparr>pm_bitset := b'\<rparr>)"
        using r(1) False g T b'(1) unfolding pm_alloc2M_def frame_push
        by (simp only: bnd.simps check_True Let_def v) simp
      then show ?thesis using f T b' by (auto simp: Let_def)
    qed
  qed
qed

lemma pm_wf_same: "same_window (pm_bitset pm) (pm_bitset pm') \<Longrightarrow> pm_wf pm' = pm_wf pm"
  by (auto simp: pm_wf_def same_window_wf) (simp_all add: same_window_def)

lemma pm_eqI:
  assumes "same_window (pm_bitset pm) (pm_bitset pm')" "pm_where pm = pm_where pm'"
    "bits_of (pm_bitset pm) = bits_of (pm_bitset pm')"
  shows "pm = (pm' :: physmem)"
  using bits_of_inject[OF assms(1,3)] assms(2) by simp

lemma pm_free2M_spec:
  assumes wf: "pm_wf pm" and k: "k + 512 \<le> pm_frames pm" "k mod 64 = 0"
  shows "\<exists>pm'. pm_free2M (frame_addr k) pm = Inr pm'
    \<and> same_window (pm_bitset pm) (pm_bitset pm') \<and> pm_where pm' = pm_where pm
    \<and> bits_of (pm_bitset pm') = put_range True k (k + 448) (bits_of (pm_bitset pm))"
proof -
  let ?b = "pm_bitset pm"
  have bwf: "bs_wf ?b" and sz: "unat (bs_size ?b) \<le> 2 ^ 36" using wf by (simp_all add: pm_wf_def)
  have k40: "k < 2 ^ 40" using sz k(1) by (simp add: pm_frames_def)
  have "\<exists>b'. range_write (- 1) ?b (of_nat k) 512 = Inr b' \<and> bs_size b' = bs_size ?b
        \<and> length (bs_data b') = length (bs_data ?b)
        \<and> bits_of b' = put_range True k (k + 512 - 64) (bits_of ?b)"
    using range_write_aligned[of "- 1" True ?b "of_nat k" 512] k sz bwf k40
    by (simp add: pm_frames_def)
  then obtain b' where b': "bs_set_range ?b (of_nat k) 512 = Inr b'" "same_window ?b b'"
         "bits_of b' = put_range True k (k + 448) (bits_of ?b)"
    unfolding bs_set_range_eq same_window_def by (auto simp: add.commute)
  then show ?thesis
    using frame_sub_aligned[OF k40] unfolding pm_free2M_def and_fff_push Let_def frame_drop[OF k40]
    by simp
qed

definition clear_bits :: "nat set \<Rightarrow> (nat \<Rightarrow> bool) \<Rightarrow> nat \<Rightarrow> bool" where
  "clear_bits S f = (\<lambda>n. f n \<and> n \<notin> S)"

lemma pm_unset_spec:
  assumes "bs_wf (pm_bitset pm)" "pm_unset a pm = Inr pm'"
  shows "same_window (pm_bitset pm) (pm_bitset pm') \<and> pm_where pm' = pm_where pm
    \<and> bits_of (pm_bitset pm') = clear_bits {unat (frame_index a)} (bits_of (pm_bitset pm))
    \<and> take_bit 12 a = 0 \<and> unat (frame_index a) < pm_frames pm"
proof -
  have i: "frame_index a < bs_size (pm_bitset pm)"
    using assms(2) bs_unset_outside by (fastforce simp: pm_unset_def res_simps)
  obtain b' where b': "bs_unset (pm_bitset pm) (frame_index a) = Inr b'"
    "same_window (pm_bitset pm) b'"
    "bits_of b' = (bits_of (pm_bitset pm))(unat (frame_index a) := False)"
    using bs_unset_spec[OF assms(1) i] by blast
  have "take_bit 12 a = 0" "pm' = pm\<lparr>pm_bitset := b'\<rparr>"
    using assms(2) b'(1) unfolding pm_unset_def and_fff by (auto simp: res_simps)
  moreover have "bits_of b' = clear_bits {unat (frame_index a)} (bits_of (pm_bitset pm))"
    using b'(3) by (auto simp: clear_bits_def fun_eq_iff)
  ultimately show ?thesis using b'(2) i by (simp add: pm_frames_def word_less_nat_alt)
qed

lemma pm_unset_list:
  assumes "for_list pm_unset as pm = Inr pm'" "bs_wf (pm_bitset pm)"
  shows "same_window (pm_bitset pm) (pm_bitset pm') \<and> pm_where pm' = pm_where pm
    \<and> bits_of (pm_bitset pm')
      = clear_bits ((\<lambda>a. unat (frame_index a)) ` set as) (bits_of (pm_bitset pm))
    \<and> (\<forall>a\<in>set as. take_bit 12 a = 0 \<and> unat (frame_index a) < pm_frames pm)"
  using assms
proof (induction as arbitrary: pm)
  case Nil
  then show ?case by (simp add: same_window_def clear_bits_def)
next
  case (Cons a as)
  from Cons.prems(1) obtain pm1 where 1: "pm_unset a pm = Inr pm1" "for_list pm_unset as pm1 = Inr pm'"
    by (auto simp: res_simps)
  note u = pm_unset_spec[OF Cons.prems(2) 1(1)]
  then have "bs_wf (pm_bitset pm1)" using same_window_wf Cons.prems(2) by blast
  from Cons.IH[OF 1(2) this] u show ?case
    by (auto simp: same_window_def clear_bits_def fun_eq_iff pm_frames_def)
qed

lemma pm_unset_areas:
  assumes "for_list (\<lambda>a. for_list pm_unset (area_pages a)) areas pm = Inr pm'" "bs_wf (pm_bitset pm)"
  shows "same_window (pm_bitset pm) (pm_bitset pm') \<and> pm_where pm' = pm_where pm
    \<and> bits_of (pm_bitset pm') = clear_bits
       ((\<lambda>a. unat (frame_index a)) ` (\<Union>a\<in>set areas. set (area_pages a))) (bits_of (pm_bitset pm))
    \<and> (\<forall>a\<in>set areas. \<forall>p\<in>set (area_pages a). take_bit 12 p = 0 \<and> unat (frame_index p) < pm_frames pm)"
  using assms
proof (induction areas arbitrary: pm)
  case Nil
  then show ?case by (simp add: same_window_def clear_bits_def)
next
  case (Cons a areas)
  from Cons.prems(1) obtain pm1 where 1: "for_list pm_unset (area_pages a) pm = Inr pm1"
    "for_list (\<lambda>a. for_list pm_unset (area_pages a)) areas pm1 = Inr pm'"
    by (auto simp: res_simps)
  note u = pm_unset_list[OF 1(1) Cons.prems(2)]
  then have "bs_wf (pm_bitset pm1)" using same_window_wf Cons.prems(2) by blast
  from Cons.IH[OF 1(2) this] u show ?case
    by (auto simp: same_window_def clear_bits_def fun_eq_iff pm_frames_def)
qed

definition own_pages :: "physmem \<Rightarrow> u64 set" where
  "own_pages pm = {pm_where pm + 0x1000 * of_nat i | i. i < unat (getPageSize pm)}"

lemma pm_init_spec:
  assumes "pm_init mem phy RAMSize areas = Inr pm" "unat RAMSize div 0x1000 \<le> 64 * length mem"
  shows "bs_size (pm_bitset pm) = RAMSize div 0x1000 \<and> pm_where pm = phy
    \<and> length (bs_data (pm_bitset pm)) = length mem
    \<and> (\<forall>n < 8 * (unat RAMSize div 0x1000 div 8). bits_of (pm_bitset pm) n \<longleftrightarrow>
        n \<notin> (\<lambda>a. unat (frame_index a)) ` (own_pages pm \<union> (\<Union>a\<in>set areas. set (area_pages a))))"
proof -
  let ?b0 = "bs_init mem (RAMSize div 0x1000)"
  have s: "unat (RAMSize div 0x1000) = unat RAMSize div 0x1000" by (simp add: unat_div)
  have wf: "bs_wf ?b0" using assms(2) s by (simp add: bs_wf_def bs_init_def)
  from bs_fill_spec[OF wf] obtain b where b: "bs_fill ?b0 = Inr b" "same_window ?b0 b"
    "bits_of b = put_range True 0 (8 * (unat (bs_size ?b0) div 8)) (bits_of ?b0)" by blast
  let ?pm0 = "\<lparr>pm_bitset = b, pm_where = phy\<rparr>"
  from assms(1) b(1) obtain pm1 where
    1: "for_list pm_unset (map (\<lambda>i. pm_where ?pm0 + 0x1000 * of_nat i) [0..<unat (getPageSize ?pm0)]) ?pm0 = Inr pm1"
    and 2: "for_list (\<lambda>a. for_list pm_unset (area_pages a)) areas pm1 = Inr pm"
    by (auto simp: pm_init_def res_simps Let_def)
  have wf0: "bs_wf (pm_bitset ?pm0)" using b(2) same_window_wf wf by simp
  note u1 = pm_unset_list[OF 1 wf0]
  then have "bs_wf (pm_bitset pm1)" using same_window_wf wf0 by blast
  note u2 = pm_unset_areas[OF 2 this]
  have sz: "bs_size (pm_bitset pm) = RAMSize div 0x1000" "pm_where pm = phy"
    "length (bs_data (pm_bitset pm)) = length mem"
    using u1 u2 b(2) by (simp_all add: same_window_def bs_init_def)
  have own: "own_pages pm = set (map (\<lambda>i. pm_where ?pm0 + 0x1000 * of_nat i) [0..<unat (getPageSize ?pm0)])"
    using sz b(2) by (auto simp: own_pages_def getPageSize_def same_window_def bs_init_def)
  show ?thesis
    using sz u1 u2 b(3) s unfolding own
    by (auto simp: clear_bits_def put_range_def bs_init_def)
qed

section \<open>The allocator as an interface\<close>

text \<open>
  What the paging code relies on: pages are handed out from a set of available frames,
  one at a time and never twice, and only an unavailable frame is taken back.
\<close>

fun alloc_many :: "('s \<Rightarrow> (u64 \<times> 's) res) \<Rightarrow> nat \<Rightarrow> 's \<Rightarrow> (u64 list \<times> 's) res" where
  "alloc_many al 0 s = Inr ([], s)"
| "alloc_many al (Suc n) s = bnd (al s) (\<lambda>(p, s).
     bnd (alloc_many al n s) (\<lambda>(ps, s). Inr (p # ps, s)))"

locale frame_allocator =
  fixes alloc :: "'s \<Rightarrow> (u64 \<times> 's) res"
    and release :: "u64 \<Rightarrow> 's \<Rightarrow> 's res"
    and avail :: "'s \<Rightarrow> nat set"
    and limit :: "'s \<Rightarrow> nat"
    and inv :: "'s \<Rightarrow> bool"
  assumes alloc_ok: "inv s \<Longrightarrow> alloc s = Inr (p, s') \<Longrightarrow>
      \<exists>k\<in>avail s. p = frame_addr k \<and> avail s' = avail s - {k} \<and> limit s' = limit s \<and> inv s'"
    and release_ok: "inv s \<Longrightarrow> k < limit s \<Longrightarrow> k \<notin> avail s \<Longrightarrow>
      \<exists>s'. release (frame_addr k) s = Inr s' \<and> avail s' = insert k (avail s)
        \<and> limit s' = limit s \<and> inv s'"
    and release_twice: "inv s \<Longrightarrow> k \<in> avail s \<Longrightarrow> release (frame_addr k) s = Inl Bsod"
    and avail_bound: "inv s \<Longrightarrow> avail s \<subseteq> {..<limit s}"
    and limit_bound: "inv s \<Longrightarrow> limit s \<le> 2 ^ 36"
begin

lemma frame_addr_inj_on: "inv s \<Longrightarrow> inj_on frame_addr {..<limit s}"
proof (rule inj_onI)
  fix j k assume i: "inv s" "j \<in> {..<limit s}" "k \<in> {..<limit s}"
    and e: "frame_addr j = frame_addr k"
  have "j < 2 ^ 40" "k < 2 ^ 40" using i limit_bound[OF i(1)] by simp_all
  from this[THEN unat_frame_addr] have "0x100000 + 0x1000 * j = 0x100000 + 0x1000 * k"
    by (simp only: e)
  then show "j = k" by simp
qed

lemma alloc_many_ok:
  assumes "inv s" "alloc_many alloc n s = Inr (ps, s')"
  shows "\<exists>ks. ps = map frame_addr ks \<and> length ks = n \<and> distinct ks \<and> set ks \<subseteq> avail s
    \<and> avail s' = avail s - set ks \<and> limit s' = limit s \<and> inv s'"
  using assms
proof (induction n arbitrary: s ps)
  case 0
  then show ?case by simp
next
  case (Suc n)
  then obtain p s1 qs where 1: "alloc s = Inr (p, s1)" "alloc_many alloc n s1 = Inr (qs, s')"
    "ps = p # qs" by (auto simp: res_simps)
  from alloc_ok[OF Suc.prems(1) 1(1)] obtain k where
    k: "k \<in> avail s" "p = frame_addr k" "avail s1 = avail s - {k}" "limit s1 = limit s" "inv s1" by blast
  from Suc.IH[OF k(5) 1(2)] obtain ks where
    "qs = map frame_addr ks" "length ks = n" "distinct ks" "set ks \<subseteq> avail s1"
    "avail s' = avail s1 - set ks" "limit s' = limit s1" "inv s'" by blast
  with k 1(3) show ?case by (intro exI[of _ "k # ks"]) auto
qed

lemma alloc_many_distinct:
  assumes "inv s" "alloc_many alloc n s = Inr (ps, s')"
  shows "distinct ps"
proof -
  from alloc_many_ok[OF assms] obtain ks where
    ks: "ps = map frame_addr ks" "distinct ks" "set ks \<subseteq> avail s" by blast
  have "inj_on frame_addr (set ks)"
    using frame_addr_inj_on[OF assms(1)] ks(3) avail_bound[OF assms(1)] by (meson inj_on_subset order_trans)
  then show ?thesis using ks by (simp add: distinct_map)
qed

lemma alloc_release:
  assumes "inv s" "alloc s = Inr (p, s')"
  shows "\<exists>s''. release p s' = Inr s'' \<and> avail s'' = avail s \<and> inv s''"
proof -
  from alloc_ok[OF assms] obtain k where
    k: "k \<in> avail s" "p = frame_addr k" "avail s' = avail s - {k}" "limit s' = limit s" "inv s'" by blast
  have "k < limit s'" using k(1,4) avail_bound[OF assms(1)] by auto
  from release_ok[OF k(5) this] k show ?thesis by (auto simp: insert_absorb)
qed

end

lemma free_frames_upd:
  assumes "same_window (pm_bitset pm) (pm_bitset pm')"
    "bits_of (pm_bitset pm') = (bits_of (pm_bitset pm))(k := v)" "k < pm_frames pm"
  shows "free_frames pm' = (if v then insert k (free_frames pm) else free_frames pm - {k})"
  using assms by (auto simp: free_frames_def same_window_def pm_frames_def)

interpretation pma: frame_allocator pm_alloc pm_free free_frames pm_frames pm_wf
proof unfold_locales
  fix s p s' assume wf: "pm_wf s" and a: "pm_alloc s = Inr (p, s')"
  have "\<exists>k<pm_visible s. bits_of (pm_bitset s) k"
    using pm_alloc_spec[OF wf] a by (auto split: if_splits)
  then obtain k where k: "p = frame_addr k" "k < pm_visible s" "bits_of (pm_bitset s) k" "alloc_frame s k s'"
    using pm_alloc_spec[OF wf] a by auto
  have lt: "k < pm_frames s" using k(2) scanned_le[of "pm_bitset s"] by (simp add: pm_visible_def pm_frames_def)
  have "free_frames s' = free_frames s - {k}"
    using free_frames_upd[of s s' k False] k(4) lt by (simp add: alloc_frame_def)
  moreover have "pm_frames s' = pm_frames s" "pm_wf s'"
    using k(4) pm_wf_same[of s s'] wf by (auto simp: alloc_frame_def same_window_def pm_frames_def)
  ultimately show "\<exists>k\<in>free_frames s. p = frame_addr k \<and> free_frames s' = free_frames s - {k}
     \<and> pm_frames s' = pm_frames s \<and> pm_wf s'"
    using k lt by (auto simp: free_frames_def pm_frames_def)
next
  fix s k assume wf: "pm_wf s" and k: "k < pm_frames s" "k \<notin> free_frames s"
  then have "\<not> bits_of (pm_bitset s) k" by (simp add: free_frames_def pm_frames_def)
  then obtain s' where s': "pm_free (frame_addr k) s = Inr s'" "same_window (pm_bitset s) (pm_bitset s')"
    "bits_of (pm_bitset s') = (bits_of (pm_bitset s))(k := True)"
    using pm_free_spec[OF wf k(1)] by auto
  moreover have "free_frames s' = insert k (free_frames s)"
    using free_frames_upd[of s s' k True] s' k(1) by simp
  moreover have "pm_frames s' = pm_frames s" "pm_wf s'"
    using s'(2) pm_wf_same[of s s'] wf by (auto simp: same_window_def pm_frames_def)
  ultimately show "\<exists>s'. pm_free (frame_addr k) s = Inr s' \<and> free_frames s' = insert k (free_frames s)
     \<and> pm_frames s' = pm_frames s \<and> pm_wf s'" by blast
next
  fix s k assume wf: "pm_wf s" and k: "k \<in> free_frames s"
  then show "pm_free (frame_addr k) s = Inl Bsod"
    using pm_free_spec[OF wf, of k] by (simp add: free_frames_def pm_frames_def)
next
  show "pm_wf s \<Longrightarrow> free_frames s \<subseteq> {..<pm_frames s}" for s
    by (auto simp: free_frames_def pm_frames_def)
  show "pm_wf s \<Longrightarrow> pm_frames s \<le> 2 ^ 36" for s
    by (simp add: pm_wf_def pm_frames_def)
qed

section \<open>Allocation and release\<close>

lemma pm_alloc_free_roundtrip:
  assumes "pm_wf pm" "pm_alloc pm = Inr (p, pm')"
  shows "pm_free p pm' = Inr pm"
proof -
  have "\<exists>k<pm_visible pm. bits_of (pm_bitset pm) k"
    using pm_alloc_spec[OF assms(1)] assms(2) by (auto split: if_splits)
  then obtain k where k: "p = frame_addr k" "k < pm_visible pm" "bits_of (pm_bitset pm) k"
    "alloc_frame pm k pm'"
    using pm_alloc_spec[OF assms(1)] assms(2) by auto
  have wf': "pm_wf pm'" using k(4) pm_wf_same[of pm pm'] assms(1) by (simp add: alloc_frame_def)
  have lt: "k < pm_frames pm'" using k(2,4) scanned_le[of "pm_bitset pm"]
    by (simp add: pm_visible_def pm_frames_def alloc_frame_def same_window_def)
  obtain pm'' where f: "pm_free (frame_addr k) pm' = Inr pm''"
      "same_window (pm_bitset pm') (pm_bitset pm'')" "pm_where pm'' = pm_where pm'"
      "bits_of (pm_bitset pm'') = (bits_of (pm_bitset pm'))(k := True)"
    using pm_free_spec[OF wf' lt] k(4) by (auto simp: alloc_frame_def)
  have "pm'' = pm"
    using f k(3,4) by (intro pm_eqI) (auto simp: alloc_frame_def same_window_def fun_eq_iff)
  then show ?thesis using f(1) k(1) by simp
qed

lemma pm_alloc2M_ok:
  assumes "pm_wf pm" "pm_alloc2M pm = Inr (p, pm')"
  obtains k where "p = frame_addr k" "k mod 512 = 256" "k + 512 \<le> pm_frames pm"
    "\<forall>j. k \<le> j \<and> j < pm_visible pm \<longrightarrow> bits_of (pm_bitset pm) j"
    "same_window (pm_bitset pm) (pm_bitset pm')" "pm_where pm' = pm_where pm"
    "bits_of (pm_bitset pm') = put_range False k (k + 448) (bits_of (pm_bitset pm))"
proof -
  have "\<not> (\<forall>k<pm_visible pm. bits_of (pm_bitset pm) k)"
    using pm_alloc2M_spec[OF assms(1)] assms(2) by (auto split: if_splits)
  then obtain h where h: "\<forall>j. h < j \<and> j < pm_visible pm \<longrightarrow> bits_of (pm_bitset pm) j"
    and k: "if target2M h + 512 \<le> pm_frames pm
         then \<exists>pm'. pm_alloc2M pm = Inr (frame_addr (target2M h), pm')
           \<and> same_window (pm_bitset pm) (pm_bitset pm') \<and> pm_where pm' = pm_where pm
           \<and> bits_of (pm_bitset pm') = put_range False (target2M h) (target2M h + 448) (bits_of (pm_bitset pm))
         else pm_alloc2M pm = Inl Assertion"
    using pm_alloc2M_spec[OF assms(1)] unfolding Let_def by (meson)
  have f: "target2M h + 512 \<le> pm_frames pm" using k assms(2) by (auto split: if_splits)
  show ?thesis
    using that[of "target2M h"] k f assms(2) h target2M_props[of h] by auto
qed

lemma target_visible:
  assumes "k mod 64 = 0" "k + 512 \<le> pm_frames pm"
  shows "k + 512 \<le> pm_visible pm"
proof -
  have "(k + 512) div 64 \<le> pm_frames pm div 64" using assms(2) by (rule div_le_mono)
  then have "64 * ((k + 512) div 64) \<le> pm_visible pm"
    by (simp add: pm_visible_def scanned_def pm_frames_def)
  moreover have "64 * ((k + 512) div 64) = k + 512" using assms(1) by (simp add: mod_eq_0_iff_dvd)
  ultimately show ?thesis by simp
qed

lemma mod_512_64: "(k::nat) mod 512 = 256 \<Longrightarrow> k mod 64 = 0"
  using mod_mod_cancel[of 64 512 k] by simp

lemma pm_alloc2M_free2M:
  assumes "pm_wf pm" "pm_alloc2M pm = Inr (p, pm')"
  shows "pm_free2M p pm' = Inr pm"
proof -
  obtain k where k: "p = frame_addr k" "k mod 512 = 256" "k + 512 \<le> pm_frames pm"
    "\<forall>j. k \<le> j \<and> j < pm_visible pm \<longrightarrow> bits_of (pm_bitset pm) j"
    "same_window (pm_bitset pm) (pm_bitset pm')" "pm_where pm' = pm_where pm"
    "bits_of (pm_bitset pm') = put_range False k (k + 448) (bits_of (pm_bitset pm))"
    using assms by (rule pm_alloc2M_ok)
  have wf': "pm_wf pm'" using pm_wf_same[OF k(5)] assms(1) by simp
  have m: "k mod 64 = 0" using k(2) by (rule mod_512_64)
  have k': "k + 512 \<le> pm_frames pm'" using k(3,5) by (simp add: same_window_def pm_frames_def)
  obtain pm'' where f: "pm_free2M (frame_addr k) pm' = Inr pm''"
      "same_window (pm_bitset pm') (pm_bitset pm'')" "pm_where pm'' = pm_where pm'"
      "bits_of (pm_bitset pm'') = put_range True k (k + 448) (bits_of (pm_bitset pm'))"
    using pm_free2M_spec[OF wf' k' m] by auto
  have "bits_of (pm_bitset pm'') = bits_of (pm_bitset pm)"
    unfolding f(4) k(7) using k(4) target_visible[OF m k(3)] by (auto simp: put_range_def fun_eq_iff)
  then have "pm'' = pm"
    using f k(5,6) by (intro pm_eqI) (auto simp: same_window_def)
  then show ?thesis using f(1) k(1) by simp
qed

lemma pm_alloc2M_tail:
  assumes "pm_wf pm" "pm_alloc2M pm = Inr (p, pm')"
  obtains k where "p = frame_addr k" "unat p mod 0x200000 = 0" "k + 512 \<le> pm_frames pm"
    "{k ..< k + 512} \<subseteq> free_frames pm" "free_frames pm' = free_frames pm - {k ..< k + 448}"
proof -
  obtain k where k: "p = frame_addr k" "k mod 512 = 256" "k + 512 \<le> pm_frames pm"
    "\<forall>j. k \<le> j \<and> j < pm_visible pm \<longrightarrow> bits_of (pm_bitset pm) j"
    "same_window (pm_bitset pm) (pm_bitset pm')" "pm_where pm' = pm_where pm"
    "bits_of (pm_bitset pm') = put_range False k (k + 448) (bits_of (pm_bitset pm))"
    using assms by (rule pm_alloc2M_ok)
  have v: "k + 512 \<le> pm_visible pm" using target_visible[OF mod_512_64[OF k(2)] k(3)] .
  have k40: "k < 2 ^ 40" using k(3) assms(1) by (simp add: pm_wf_def pm_frames_def)
  have kd: "k = k div 512 * 512 + 256" using div_mult_mod_eq[of k 512] k(2) by simp
  have "unat p = 0x100000 + 0x1000 * k" unfolding k(1) using k40 by (rule unat_frame_addr)
  also have "\<dots> = 0x200000 * (k div 512 + 1)" by (subst kd) simp
  finally have al: "unat p mod 0x200000 = 0" by (metis mod_mult_self1_is_0)
  show ?thesis
    by (rule that[OF k(1) al k(3)])
      (use k(3,4,5,7) v in \<open>auto simp: free_frames_def pm_frames_def put_range_def same_window_def\<close>)
qed

section \<open>Properties\<close>

definition demo_pm :: physmem where
  "demo_pm = \<lparr>pm_bitset = \<lparr>bs_data = replicate 4 0 @ replicate 12 (- 1), bs_size = 1024\<rparr>,
     pm_where = 0x100000\<rparr>"

lemma demo_pm_wf: "pm_wf demo_pm"
  by (simp add: demo_pm_def pm_wf_def bs_wf_def)

lemma pm_alloc_lowest:
  assumes "pm_wf pm"
  shows "if \<exists>k<pm_visible pm. k \<in> free_frames pm
    then \<exists>pm'. pm_alloc pm = Inr (frame_addr (LEAST k. k \<in> free_frames pm), pm')
      \<and> free_frames pm' = free_frames pm - {LEAST k. k \<in> free_frames pm} \<and> pm_wf pm'
    else pm_alloc pm = Inl Assertion"
proof (cases "\<exists>k<pm_visible pm. k \<in> free_frames pm")
  case False
  then have "\<not> (\<exists>k<pm_visible pm. bits_of (pm_bitset pm) k)"
    using scanned_le[of "pm_bitset pm"] by (auto simp: free_frames_def pm_visible_def)
  with False show ?thesis using pm_alloc_spec[OF assms] by simp
next
  case True
  then have "\<exists>k<pm_visible pm. bits_of (pm_bitset pm) k" by (auto simp: free_frames_def)
  then obtain k pm' where k: "pm_alloc pm = Inr (frame_addr k, pm')" "k < pm_visible pm"
      "bits_of (pm_bitset pm) k" "\<forall>j<k. \<not> bits_of (pm_bitset pm) j" "alloc_frame pm k pm'"
    using pm_alloc_spec[OF assms] by auto
  have lt: "k < pm_frames pm" using k(2) scanned_le[of "pm_bitset pm"]
    by (simp add: pm_visible_def pm_frames_def)
  have l: "(LEAST k. k \<in> free_frames pm) = k"
    using k(3,4) lt by (intro Least_equality) (auto simp: free_frames_def pm_frames_def not_less[symmetric])
  have "free_frames pm' = free_frames pm - {k}"
    using free_frames_upd[of pm pm' k False] k(5) lt by (simp add: alloc_frame_def)
  moreover have "pm_wf pm'" using pm_wf_same[of pm pm'] k(5) assms by (simp add: alloc_frame_def)
  ultimately show ?thesis using True k(1) l by auto
qed

text \<open>
  C20. \<open>alloc\<close> returns the lowest free page of the part of RAM its scan covers, marks exactly
  that page used, and stops with its out of memory assertion exactly when the scan finds
  no free page.
\<close>

theorem alloc_takes_lowest_free:
  assumes "pm_wf pm"
  shows "if \<exists>k<pm_visible pm. k \<in> free_frames pm
    then \<exists>pm'. pm_alloc pm = Inr (frame_addr (LEAST k. k \<in> free_frames pm), pm')
      \<and> free_frames pm' = free_frames pm - {LEAST k. k \<in> free_frames pm} \<and> pm_wf pm'
    else pm_alloc pm = Inl Assertion"
  by (rule pm_alloc_lowest[OF assms])

theorem alloc_takes_lowest_free_witness:
  "\<exists>pm'. pm_alloc demo_pm = Inr (0x200000, pm') \<and> pm_wf pm'"
proof -
  have a: "map_sum id fst (pm_alloc demo_pm) = Inr 0x200000" by code_simp
  show ?thesis using alloc_takes_lowest_free[OF demo_pm_wf] a by (auto split: if_splits)
qed

text \<open>
  C32. A page that \<open>alloc\<close> returned can be given back to \<open>free\<close>, which restores the allocator
  to exactly the state before, the same holds for \<open>alloc2M\<close> and \<open>free2M\<close>, and giving a page
  back twice ends in the blue screen.
\<close>

theorem alloc_free_roundtrip:
  assumes "pm_wf pm"
  shows "(\<forall>p pm'. pm_alloc pm = Inr (p, pm') \<longrightarrow> pm_free p pm' = Inr pm \<and> pm_free p pm = Inl Bsod)
    \<and> (\<forall>p pm'. pm_alloc2M pm = Inr (p, pm') \<longrightarrow> pm_free2M p pm' = Inr pm)"
proof (intro conjI allI impI)
  fix p pm' assume a: "pm_alloc pm = Inr (p, pm')"
  show "pm_free p pm' = Inr pm" by (rule pm_alloc_free_roundtrip[OF assms a])
  show "pm_free p pm = Inl Bsod"
    using pma.alloc_ok[OF assms a] pma.release_twice[OF assms] by auto
next
  fix p pm' assume "pm_alloc2M pm = Inr (p, pm')"
  then show "pm_free2M p pm' = Inr pm" by (rule pm_alloc2M_free2M[OF assms])
qed

theorem alloc_free_roundtrip_witness:
  "\<exists>p pm'. pm_alloc demo_pm = Inr (p, pm') \<and> pm_free p pm' = Inr demo_pm"
proof -
  have "map_sum id fst (pm_alloc demo_pm) = Inr 0x200000" by code_simp
  then obtain p pm' where a: "pm_alloc demo_pm = Inr (p, pm')"
    by (cases "pm_alloc demo_pm") auto
  then show ?thesis using alloc_free_roundtrip[OF demo_pm_wf] a by blast
qed

text \<open>\<open>alloc2M\<close> returns an address aligned on 2M whose 512 pages were all free, but because
  of the range operation it marks only the first 448 of them used: the last 64 pages of
  the 2M page stay in the pool, and when everything below is taken the next \<open>alloc\<close>
  returns a page inside the 2M page just handed out.
\<close>

theorem alloc2M_leaves_tail_free:
  assumes "pm_wf pm" "pm_alloc2M pm = Inr (p, pm')"
  shows "\<exists>k. p = frame_addr k \<and> unat p mod 0x200000 = 0 \<and> {k ..< k + 512} \<subseteq> free_frames pm
    \<and> free_frames pm' = free_frames pm - {k ..< k + 448}
    \<and> {k + 448 ..< k + 512} \<subseteq> free_frames pm'
    \<and> (free_frames pm \<inter> {..<k} = {} \<longrightarrow>
        (\<exists>pm''. pm_alloc pm' = Inr (frame_addr (k + 448), pm'')))"
proof -
  obtain k where k: "p = frame_addr k" "unat p mod 0x200000 = 0" "k + 512 \<le> pm_frames pm"
    "{k ..< k + 512} \<subseteq> free_frames pm" "free_frames pm' = free_frames pm - {k ..< k + 448}"
    using assms by (rule pm_alloc2M_tail)
  obtain h where h: "h mod 512 = 256" "h + 512 \<le> pm_frames pm"
      "same_window (pm_bitset pm) (pm_bitset pm')" "p = frame_addr h"
    using assms by (rule pm_alloc2M_ok)
  have hk: "h = k" using h(2,4) k(1,3) assms(1) pma.frame_addr_inj_on[OF assms(1)]
    by (auto simp: inj_on_def)
  have wf': "pm_wf pm'" using pm_wf_same[OF h(3)] assms(1) by simp
  have v: "k + 512 \<le> pm_visible pm'"
    using target_visible[OF mod_512_64[OF h(1)] h(2)] h(3) hk
    by (simp add: pm_visible_def scanned_def same_window_def)
  have nxt: "\<exists>pm''. pm_alloc pm' = Inr (frame_addr (k + 448), pm'')" if e: "free_frames pm \<inter> {..<k} = {}"
  proof -
    have "(LEAST j. j \<in> free_frames pm') = k + 448"
      using e k(4,5) by (intro Least_equality) (auto simp: subset_iff not_less[symmetric])
    moreover have "\<exists>j<pm_visible pm'. j \<in> free_frames pm'"
      using v k(4,5) by (intro exI[of _ "k + 448"]) auto
    ultimately show ?thesis using pm_alloc_lowest[OF wf'] by auto
  qed
  show ?thesis using k nxt by (intro exI[of _ k]) auto
qed

theorem alloc2M_leaves_tail_free_witness:
  "\<exists>p pm'. pm_alloc2M demo_pm = Inr (p, pm')
    \<and> (\<exists>k. p = frame_addr k \<and> {k + 448 ..< k + 512} \<subseteq> free_frames pm')"
proof -
  have "map_sum id fst (pm_alloc2M demo_pm) = Inr 0x200000" by code_simp
  then obtain p pm' where a: "pm_alloc2M demo_pm = Inr (p, pm')"
    by (cases "pm_alloc2M demo_pm") auto
  then show ?thesis using alloc2M_leaves_tail_free[OF demo_pm_wf a] by blast
qed

text \<open>\<open>init\<close>: when it returns, the free pages among the whole bytes of the bitset are
  exactly those that belong neither to the bitset itself nor to an occupied area.
\<close>

theorem init_frees_the_rest:
  assumes "pm_init mem phy RAMSize areas = Inr pm" "unat RAMSize div 0x1000 \<le> 64 * length mem"
    and "n < 8 * (unat RAMSize div 0x1000 div 8)"
  shows "n \<in> free_frames pm \<longleftrightarrow>
    n \<notin> (\<lambda>a. unat (frame_index a)) ` (own_pages pm \<union> (\<Union>a\<in>set areas. set (area_pages a)))"
proof -
  have "8 * (unat RAMSize div 0x1000 div 8) \<le> unat RAMSize div 0x1000" by simp
  then have "n < unat (bs_size (pm_bitset pm))"
    using pm_init_spec[OF assms(1,2)] assms(3) by (simp add: unat_div)
  then show ?thesis using pm_init_spec[OF assms(1,2)] assms(3) by (auto simp: free_frames_def)
qed

theorem init_frees_the_rest_witness:
  "\<exists>pm. pm_init [0, 0] 0x100000 0x80000 [\<lparr>oa_addr = 0x110000, oa_nbPages = 2\<rparr>] = Inr pm
     \<and> 16 \<notin> free_frames pm"
proof -
  let ?r = "pm_init [0, 0] 0x100000 0x80000 [\<lparr>oa_addr = 0x110000, oa_nbPages = 2\<rparr>]"
  have "map_sum id pm_where ?r = Inr 0x100000" by code_simp
  then obtain pm where r: "?r = Inr pm" by (cases ?r) auto
  have "(0x110000 :: u64) \<in> set (area_pages \<lparr>oa_addr = 0x110000, oa_nbPages = 2\<rparr>)"
    by (auto simp: area_pages_def intro!: image_eqI[of _ _ 0])
  moreover have "unat (frame_index 0x110000) = 16" by (simp add: frame_index_def)
  ultimately have "16 \<in> (\<lambda>a. unat (frame_index a)) `
      (own_pages pm \<union> (\<Union>a\<in>set [\<lparr>oa_addr = 0x110000, oa_nbPages = 2\<rparr>]. set (area_pages a)))"
    by force
  then show ?thesis using init_frees_the_rest[OF r, of 16] r by simp
qed

end
