(* ===== verification/Paging.thy ===== *)
theory Paging
  imports PhysMem
begin

text \<open>
  The class \<open>Paging\<close> (\<open>src/src/Memory/Paging.cpp\<close>, \<open>Paging.h\<close>): the four level page
  tables of the kernel, edited through the fixed virtual windows of \<open>Paging.cpp\<close>.

  \<open>m_mem p i\<close> is the \<open>i\<close>-th 64 bit entry of the physical page at address \<open>p\<close>; entries are
  kept as the packed words the processor reads, with one accessor for each bit field of
  \<open>PageEntry\<close> and \<open>PageTable\<close>. \<open>m_pPT\<close> is the physical address of the page table behind
  \<open>pagePT\<close>: its entry \<open>k\<close> decides which page the window \<open>virtTables + 512 k\<close> shows
  (\<open>PML4\<close> is window 0, \<open>tmpPDP\<close>, \<open>tmpPD\<close>, \<open>tmpPT\<close> are windows 0xA to 0xC). An access
  through a window whose entry is not present is a page fault (\<open>NullAccess\<close>). \<open>m_cr3\<close> is
  the page map the processor walks. The TLB (\<open>invlpg\<close>, \<open>TLBflush\<close>), logging and the
  \<open>print\<close> functions are not modelled: the processor is taken to see the tables at once.
\<close>

section \<open>Entries\<close>

definition set_flag :: "nat \<Rightarrow> bool \<Rightarrow> u64 \<Rightarrow> u64" where
  "set_flag n v e = (if v then e OR push_bit n 1 else e AND NOT (push_bit n 1))"

definition present :: "u64 \<Rightarrow> bool" where
  "present e = bit e 0"

definition set_present :: "bool \<Rightarrow> u64 \<Rightarrow> u64" where
  "set_present = set_flag 0"

definition set_user :: "bool \<Rightarrow> u64 \<Rightarrow> u64" where
  "set_user = set_flag 2"

definition set_writeThrough :: "bool \<Rightarrow> u64 \<Rightarrow> u64" where
  "set_writeThrough = set_flag 3"

definition isSizeMega :: "u64 \<Rightarrow> bool" where
  "isSizeMega e = bit e 7"

definition set_isSizeMega :: "bool \<Rightarrow> u64 \<Rightarrow> u64" where
  "set_isSizeMega = set_flag 7"

definition set_global :: "bool \<Rightarrow> u64 \<Rightarrow> u64" where
  "set_global = set_flag 8"

definition addr_mask :: u64 where
  "addr_mask = 0x000FFFFFFFFFF000"

text \<open>\<open>addr << 12\<close> for the 40 bit field at bit 12.\<close>

definition getAddr :: "u64 \<Rightarrow> u64" where
  "getAddr e = e AND addr_mask"

definition setAddr :: "u64 \<Rightarrow> u64 \<Rightarrow> u64 res" where
  "setAddr a e = assertk (a AND (push_bit 12 1 - 1) = 0 \<and> drop_bit 52 a = 0)
     (Inr ((e AND NOT addr_mask) OR a))"

definition activeAddr :: "u64 \<Rightarrow> u64 \<Rightarrow> u64 res" where
  "activeAddr a e = setAddr a (set_present True e)"

text \<open>The constructors \<open>PageEntry()\<close> and \<open>PageTable()\<close>: writable, user, everything else off.\<close>

definition new_entry :: u64 where
  "new_entry = set_flag 1 True (set_flag 2 True 0)"

definition getPML4index :: "u64 \<Rightarrow> nat" where
  "getPML4index a = unat (drop_bit 39 a AND (push_bit 9 1 - 1))"

definition getPDPindex :: "u64 \<Rightarrow> nat" where
  "getPDPindex a = unat (drop_bit 30 a AND (push_bit 9 1 - 1))"

definition getPDindex :: "u64 \<Rightarrow> nat" where
  "getPDindex a = unat (drop_bit 21 a AND (push_bit 9 1 - 1))"

definition getPTindex :: "u64 \<Rightarrow> nat" where
  "getPTindex a = unat (drop_bit 12 a AND (push_bit 9 1 - 1))"

section \<open>State and windows\<close>

record machine =
  m_mem :: "u64 \<Rightarrow> nat \<Rightarrow> u64"
  m_pPT :: u64
  m_cr3 :: u64
  m_phys :: physmem

definition page_upd :: "u64 \<Rightarrow> nat \<Rightarrow> u64 \<Rightarrow> machine \<Rightarrow> machine" where
  "page_upd p i e s = s\<lparr>m_mem := (m_mem s)(p := (m_mem s p)(i := e))\<rparr>"

text \<open>\<open>new(\<dots>) PageEntry[512]\<close> on a whole page.\<close>

definition page_clear :: "u64 \<Rightarrow> machine \<Rightarrow> machine" where
  "page_clear p s = s\<lparr>m_mem := (m_mem s)(p := (\<lambda>i. if i < 512 then new_entry else m_mem s p i))\<rparr>"

definition phys_get :: "u64 \<Rightarrow> nat \<Rightarrow> machine \<Rightarrow> u64" where
  "phys_get p i s = m_mem s p i"

definition phys_modify :: "u64 \<Rightarrow> nat \<Rightarrow> (u64 \<Rightarrow> u64 res) \<Rightarrow> machine \<Rightarrow> machine res" where
  "phys_modify p i f s = bnd (f (m_mem s p i)) (\<lambda>e. Inr (page_upd p i e s))"

definition slot :: "machine \<Rightarrow> nat \<Rightarrow> u64" where
  "slot s k = m_mem s (m_pPT s) k"

definition window :: "nat \<Rightarrow> machine \<Rightarrow> u64 res" where
  "window k s = check (present (slot s k)) NullAccess (Inr (getAddr (slot s k)))"

definition win_get :: "nat \<Rightarrow> nat \<Rightarrow> machine \<Rightarrow> u64 res" where
  "win_get k i s = bnd (window k s) (\<lambda>p. check (i < 512) OutOfBounds (Inr (m_mem s p i)))"

definition win_modify :: "nat \<Rightarrow> nat \<Rightarrow> (u64 \<Rightarrow> u64 res) \<Rightarrow> machine \<Rightarrow> machine res" where
  "win_modify k i f s = bnd (window k s) (\<lambda>p. check (i < 512) OutOfBounds (phys_modify p i f s))"

definition win_clear :: "nat \<Rightarrow> machine \<Rightarrow> machine res" where
  "win_clear k s = bnd (window k s) (\<lambda>p. Inr (page_clear p s))"

abbreviation (input) "PML4 \<equiv> (0 :: nat)"
abbreviation (input) "kernelPDP \<equiv> (1 :: nat)"
abbreviation (input) "stackPD \<equiv> (3 :: nat)"
abbreviation (input) "pagePD \<equiv> (4 :: nat)"
abbreviation (input) "userPDP \<equiv> (6 :: nat)"
abbreviation (input) "firstPD \<equiv> (7 :: nat)"
abbreviation (input) "firstPT \<equiv> (8 :: nat)"
abbreviation (input) "bitsetPT \<equiv> (9 :: nat)"
abbreviation (input) "tmpPDP \<equiv> (0xA :: nat)"
abbreviation (input) "tmpPD \<equiv> (0xB :: nat)"
abbreviation (input) "tmpPT \<equiv> (0xC :: nat)"

text \<open>\<open>physmemalloc.alloc()\<close> on the machine.\<close>

definition palloc :: "machine \<Rightarrow> (u64 \<times> machine) res" where
  "palloc s = bnd (pm_alloc (m_phys s)) (\<lambda>(p, pm). Inr (p, s\<lparr>m_phys := pm\<rparr>))"

definition pfree :: "u64 \<Rightarrow> machine \<Rightarrow> machine res" where
  "pfree p s = bnd (pm_free p (m_phys s)) (\<lambda>pm. Inr (s\<lparr>m_phys := pm\<rparr>))"

text \<open>\<open>actTmpPDP\<close>, \<open>actTmpPD\<close>, \<open>actTmpPT\<close> and \<open>freeTmpPDP\<close>, \<open>freeTmpPD\<close>, \<open>freeTmpPT\<close>.\<close>

definition actTmp :: "nat \<Rightarrow> u64 \<Rightarrow> machine \<Rightarrow> machine res" where
  "actTmp k phyAddr s = assertk (\<not> present (slot s k)) (phys_modify (m_pPT s) k (activeAddr phyAddr) s)"

definition freeTmp :: "nat \<Rightarrow> machine \<Rightarrow> machine" where
  "freeTmp k s = page_upd (m_pPT s) k (set_present False (slot s k)) s"

section \<open>Walking and extending the tables\<close>

definition getPDPphyu :: "u64 \<Rightarrow> machine \<Rightarrow> u64 res" where
  "getPDPphyu virt s = bnd (win_get PML4 (getPML4index virt) s) (\<lambda>e. Inr (getAddr e))"

definition getPDPphy :: "u64 \<Rightarrow> machine \<Rightarrow> u64 res" where
  "getPDPphy virt s = bnd (getPDPphyu virt s) (\<lambda>PDP. if PDP \<noteq> 0 then Inr PDP else Inl Bsod)"

definition getPDphyu :: "u64 \<Rightarrow> machine \<Rightarrow> (u64 \<times> machine) res" where
  "getPDphyu virt s =
     bnd (getPDPphyu virt s) (\<lambda>PDP.
     bnd (actTmp tmpPDP PDP s) (\<lambda>s.
     bnd (win_get tmpPDP (getPDPindex virt) s) (\<lambda>e.
     Inr (getAddr e, freeTmp tmpPDP s))))"

definition getPDphy :: "u64 \<Rightarrow> machine \<Rightarrow> (u64 \<times> machine) res" where
  "getPDphy virt s =
     bnd (getPDPphy virt s) (\<lambda>PDP.
     bnd (actTmp tmpPDP PDP s) (\<lambda>s.
     bnd (win_get tmpPDP (getPDPindex virt) s) (\<lambda>e.
       if present e then assertk (getAddr e \<noteq> 0) (Inr (getAddr e, freeTmp tmpPDP s))
       else
         bnd (palloc s) (\<lambda>(PD, s).
         bnd (actTmp tmpPD PD s) (\<lambda>s.
         bnd (win_clear tmpPD s) (\<lambda>s.
         bnd (win_get tmpPD 2 s) (\<lambda>e2. assertk (\<not> present e2)
         (bnd (win_modify tmpPDP (getPDPindex virt) (activeAddr PD) (freeTmp tmpPD s)) (\<lambda>s.
         Inr (PD, freeTmp tmpPDP s)))))))))
     )"

definition getPTphyu :: "u64 \<Rightarrow> machine \<Rightarrow> (u64 \<times> machine) res" where
  "getPTphyu virt s =
     bnd (getPDphyu virt s) (\<lambda>(PD, s).
     bnd (actTmp tmpPD PD s) (\<lambda>s.
     bnd (win_get tmpPD (getPDindex virt) s) (\<lambda>e.
     Inr (getAddr e, freeTmp tmpPD s))))"

definition getPTphy :: "u64 \<Rightarrow> machine \<Rightarrow> (u64 \<times> machine) res" where
  "getPTphy virt s =
     bnd (getPDphy virt s) (\<lambda>(PD, s).
     bnd (actTmp tmpPD PD s) (\<lambda>s.
     bnd (win_get tmpPD (getPDindex virt) s) (\<lambda>e.
       if present e then assertk (getAddr e \<noteq> 0) (Inr (getAddr e, freeTmp tmpPD s))
       else
         bnd (palloc s) (\<lambda>(PT, s).
         bnd (actTmp tmpPT PT s) (\<lambda>s.
         bnd (win_clear tmpPT s) (\<lambda>s.
         bnd (win_modify tmpPD (getPDindex virt) (activeAddr PT) (freeTmp tmpPT s)) (\<lambda>s.
         Inr (PT, freeTmp tmpPD s))))))))"

definition getphyu :: "u64 \<Rightarrow> machine \<Rightarrow> (u64 \<times> machine) res" where
  "getphyu virt s =
     bnd (getPTphyu virt s) (\<lambda>(PT, s).
     bnd (actTmp tmpPT PT s) (\<lambda>s.
     bnd (win_get tmpPT (getPTindex virt) s) (\<lambda>e.
     Inr (getAddr e, freeTmp tmpPT s))))"

section \<open>Mapping and unmapping\<close>

definition createMapping :: "u64 \<Rightarrow> u64 \<Rightarrow> bool \<Rightarrow> machine \<Rightarrow> machine res" where
  "createMapping phy virt wt s =
     (if phy AND (push_bit 12 1 - 1) \<noteq> 0 then Inl Bsod
      else if virt AND (push_bit 12 1 - 1) \<noteq> 0 then Inl Bsod
      else if drop_bit 52 phy \<noteq> 0 then Inl Bsod
      else
        bnd (getPTphy virt s) (\<lambda>(PT, s).
        bnd (actTmp tmpPT PT s) (\<lambda>s.
        bnd (win_get tmpPT (getPTindex virt) s) (\<lambda>e.
          if present e then Inl Bsod
          else
            bnd (win_modify tmpPT (getPTindex virt) (activeAddr phy) s) (\<lambda>s.
            bnd (win_modify tmpPT (getPTindex virt) (\<lambda>e. Inr (set_writeThrough wt e)) s) (\<lambda>s.
            bnd (if sint virt < 0
                 then win_modify tmpPT (getPTindex virt) (\<lambda>e. Inr (set_global True e)) s
                 else Inr s) (\<lambda>s.
            Inr (freeTmp tmpPT s))))))))"

definition createMappings :: "u64 \<Rightarrow> u64 \<Rightarrow> nat \<Rightarrow> bool \<Rightarrow> machine \<Rightarrow> machine res" where
  "createMappings phy virt numPg wt =
     for_range (\<lambda>i. createMapping (phy + of_nat i * 0x1000) (virt + of_nat i * 0x1000) wt) 0 numPg"

definition freeMapping1 :: "u64 \<Rightarrow> machine \<Rightarrow> machine res" where
  "freeMapping1 virt s =
     bnd (getPTphy virt s) (\<lambda>(PT, s).
     bnd (actTmp tmpPT PT s) (\<lambda>s.
     bnd (win_get tmpPT (getPTindex virt) s) (\<lambda>e. assertk (present e)
     (bnd (win_modify tmpPT (getPTindex virt) (\<lambda>e. Inr (set_present False e)) s) (\<lambda>s.
     Inr (freeTmp tmpPT s))))))"

definition freeMapping :: "u64 \<Rightarrow> nat \<Rightarrow> machine \<Rightarrow> machine res" where
  "freeMapping virt nbPages =
     for_range (\<lambda>i. freeMapping1 (virt + of_nat i * 0x1000)) 0 nbPages"

definition createMapping2M :: "u64 \<Rightarrow> u64 \<Rightarrow> bool \<Rightarrow> machine \<Rightarrow> machine res" where
  "createMapping2M phy virt wt s =
     (if phy AND (push_bit 20 1 - 1) \<noteq> 0 then Inl Bsod
      else if virt AND (push_bit 20 1 - 1) \<noteq> 0 then Inl Bsod
      else if drop_bit 52 phy \<noteq> 0 then Inl Bsod
      else
        bnd (getPDphy virt s) (\<lambda>(PD, s).
        bnd (actTmp tmpPD PD s) (\<lambda>s.
        bnd (win_get tmpPD (getPDindex virt) s) (\<lambda>e.
          if present e then Inl Bsod
          else
            bnd (win_modify tmpPD (getPDindex virt) (activeAddr phy) s) (\<lambda>s.
            bnd (win_modify tmpPD (getPDindex virt) (\<lambda>e. Inr (set_writeThrough wt e)) s) (\<lambda>s.
            bnd (win_modify tmpPD (getPDindex virt) (\<lambda>e. Inr (set_isSizeMega True e)) s) (\<lambda>s.
            Inr (freeTmp tmpPD s))))))))"

definition createMappings2M :: "u64 \<Rightarrow> u64 \<Rightarrow> nat \<Rightarrow> bool \<Rightarrow> machine \<Rightarrow> machine res" where
  "createMappings2M phy virt numPg wt =
     for_range (\<lambda>i. createMapping2M (phy + of_nat i * 0x200000) (virt + of_nat i * 0x200000) wt) 0 numPg"

text \<open>
  One round of \<open>freeMapping2M\<close>; the entry that is cleared is the one at \<open>virt + i * 0x1000\<close>,
  while the asserts look at \<open>virt + i * 0x200000\<close>, as in the code.
\<close>

definition freeMapping2M_step :: "u64 \<Rightarrow> nat \<Rightarrow> machine \<Rightarrow> machine res" where
  "freeMapping2M_step virt i s =
     (let v = virt + of_nat i * 0x200000; w = virt + of_nat i * 0x1000 in
     bnd (getPDphy v s) (\<lambda>(PD, s).
     bnd (actTmp tmpPD PD s) (\<lambda>s.
     bnd (win_get tmpPD (getPDindex v) s) (\<lambda>e. assertk (present e) (assertk (isSizeMega e)
     (bnd (win_modify tmpPD (getPDindex w) (\<lambda>e. Inr (set_present False e)) s) (\<lambda>s.
      bnd (win_modify tmpPD (getPDindex w) (\<lambda>e. Inr (set_isSizeMega False e)) s) (\<lambda>s.
      Inr (freeTmp tmpPD s)))))))))"

definition freeMapping2M :: "u64 \<Rightarrow> nat \<Rightarrow> machine \<Rightarrow> machine res" where
  "freeMapping2M virt nbPages = for_range (freeMapping2M_step virt) 0 nbPages"

definition freeMappingAndPhy :: "u64 \<Rightarrow> nat \<Rightarrow> machine \<Rightarrow> machine res" where
  "freeMappingAndPhy virt nbPages s =
     bnd (for_range (\<lambda>i s. bnd (getphyu (virt + of_nat i * 0x1000) s) (\<lambda>(p, s). pfree p s)) 0 nbPages s)
       (freeMapping virt nbPages)"

definition switchUser :: "u64 \<Rightarrow> machine \<Rightarrow> machine res" where
  "switchUser usPDP s =
     bnd (win_get PML4 0 s) (\<lambda>e.
       if usPDP = getAddr e then Inr s else win_modify PML4 0 (activeAddr usPDP) s)"

section \<open>Initialisation\<close>

text \<open>
  \<open>init\<close>: until the windows exist, tables are reached through the identity map, that is by
  physical address (\<open>phys_get\<close>, \<open>phys_modify\<close>); afterwards through the windows. The
  processor already runs on \<open>pPML4\<close>.
\<close>

definition bitset_virt :: u64 where
  "bitset_virt = - 0xA0000000"

definition init_tables :: "u64 \<Rightarrow> machine \<Rightarrow> machine res" where
  "init_tables pPML4 s =
     assertk (getAddr (phys_get pPML4 511 s) \<noteq> 0)
     (bnd (phys_modify pPML4 511 (\<lambda>e. Inr (set_user False e)) s) (\<lambda>s.
      let KPDP = getAddr (phys_get pPML4 511 s) in assertk (KPDP \<noteq> 0)
     (bnd (palloc s) (\<lambda>(PPD, s).
      bnd (phys_modify KPDP 509 (activeAddr PPD) (page_clear PPD s)) (\<lambda>s.
      bnd (palloc s) (\<lambda>(firstPPT, s).
      bnd (phys_modify PPD 0 (activeAddr firstPPT) (page_clear firstPPT s)) (\<lambda>s.
      bnd (phys_modify firstPPT 5 (activeAddr firstPPT) (s\<lparr>m_pPT := firstPPT\<rparr>)) (\<lambda>s.
      bnd (phys_modify firstPPT 0 (activeAddr pPML4) s) (\<lambda>s.
      bnd (phys_modify firstPPT 1 (activeAddr KPDP) s) (\<lambda>s.
      assertk (getAddr (phys_get KPDP 510 s) \<noteq> 0)
     (bnd (phys_modify firstPPT 2 (activeAddr (getAddr (phys_get KPDP 510 s))) s) (\<lambda>s.
      bnd (palloc s) (\<lambda>(stackPDphy, s).
      bnd (phys_modify firstPPT 3 (activeAddr stackPDphy) (page_clear stackPDphy s)) (\<lambda>s.
      bnd (win_modify kernelPDP 511 (activeAddr stackPDphy) s) (\<lambda>s.
      phys_modify firstPPT 4 (activeAddr PPD) s)))))))))))))))"

definition init_bitset :: "machine \<Rightarrow> machine res" where
  "init_bitset s =
     bnd (palloc s) (\<lambda>(pbitsetPT, s).
     bnd (phys_modify (m_pPT s) 9 (activeAddr pbitsetPT) (page_clear pbitsetPT s)) (\<lambda>s.
     bnd (win_modify pagePD 256 (activeAddr pbitsetPT) s) (\<lambda>s.
     let pbitset = pm_where (m_phys s) in
     bnd (for_range (\<lambda>i s.
            bnd (win_modify bitsetPT i (activeAddr (pbitset + of_nat i * 0x1000)) s) (\<lambda>s.
            win_modify bitsetPT i (\<lambda>e. Inr (set_global True e)) s))
          0 (unat (getPageSize (m_phys s))) s) (\<lambda>s.
     Inr (s\<lparr>m_phys := pm_switchVirt bitset_virt (m_phys s)\<rparr>)))))"

definition init_user :: "machine \<Rightarrow> machine res" where
  "init_user s =
     bnd (win_get PML4 0 s) (\<lambda>e. assertk (getAddr e \<noteq> 0)
    (bnd (phys_modify (m_pPT s) 6 (activeAddr (getAddr e)) s) (\<lambda>s.
     bnd (win_get userPDP 0 s) (\<lambda>e. assertk (getAddr e \<noteq> 0)
    (bnd (phys_modify (m_pPT s) 7 (activeAddr (getAddr e)) s) (\<lambda>s.
     bnd (palloc s) (\<lambda>(p, s).
     bnd (phys_modify (m_pPT s) 8 (activeAddr p) (page_clear p s)) (\<lambda>s.
     for_range (\<lambda>i s.
       bnd (win_modify firstPT i (activeAddr (of_nat i * 0x1000)) s) (\<lambda>s.
       bnd (win_modify firstPT i (\<lambda>e. Inr (set_writeThrough True e)) s) (\<lambda>s.
       bnd (win_modify firstPT i (\<lambda>e. Inr (set_global True e)) s) (\<lambda>s.
       win_modify firstPT i (\<lambda>e. Inr (set_user False e)) s)))) 1 256 s))))))))"

definition paging_init :: "u64 \<Rightarrow> machine \<Rightarrow> machine res" where
  "paging_init pPML4 s =
     bnd (init_tables pPML4 s) (\<lambda>s.
     bnd (init_bitset s) (\<lambda>s.
     bnd (init_user s) (\<lambda>s.
     for_range (\<lambda>i s. phys_modify (m_pPT s) i (\<lambda>e. Inr (set_global True e)) s) 0 10 s)))"

definition allocStack :: "u64 \<Rightarrow> nat \<Rightarrow> machine \<Rightarrow> machine res" where
  "allocStack stackPos nbPages s = assertk (nbPages < 512)
     (bnd (palloc s) (\<lambda>(p, s).
      bnd (win_modify stackPD 511 (activeAddr p) (page_clear p s)) (\<lambda>s.
      bnd (win_get stackPD 511 s) (\<lambda>e.
      bnd (actTmp tmpPT (getAddr e) s) (\<lambda>s.
      bnd (win_modify tmpPT 511 (activeAddr stackPos) s) (\<lambda>s.
      bnd (for_range (\<lambda>i s. bnd (palloc s) (\<lambda>(p, s).
             win_modify tmpPT (511 - i) (activeAddr p) s)) 1 nbPages s) (\<lambda>s.
      Inr (freeTmp tmpPT s))))))))"

definition removeIdent :: "machine \<Rightarrow> machine res" where
  "removeIdent s =
     bnd (win_modify firstPD 0 (activeAddr (getAddr (slot s 8))) s) (\<lambda>s.
     bnd (win_modify firstPD 0 (\<lambda>e. Inr (set_isSizeMega False e)) s) (\<lambda>s.
     bnd (win_modify firstPD 1 (\<lambda>e. Inr (set_present False e)) s) (\<lambda>s.
     win_modify firstPD 2 (\<lambda>e. Inr (set_present False e)) s)))"

lemma addr_mask_eq: "addr_mask = push_bit 12 (mask 40)"
  by (simp add: addr_mask_def mask_eq_exp_minus_1 push_bit_eq_mult)

lemma bit_addr_mask: "bit addr_mask n \<longleftrightarrow> 12 \<le> n \<and> n < 52"
  unfolding addr_mask_eq by (auto simp: bit_simps)

lemma bit_set_flag: "n < 64 \<Longrightarrow> bit (set_flag k v e) n = (if n = k then v else bit e n)"
  by (auto simp: set_flag_def bit_simps)

lemma bit_getAddr: "bit (getAddr e) n \<longleftrightarrow> 12 \<le> n \<and> n < 52 \<and> bit e n"
  by (auto simp: getAddr_def bit_simps bit_addr_mask)

lemma getAddr_set_flag: "k < 12 \<Longrightarrow> getAddr (set_flag k v e) = getAddr e"
  by (intro bit_word_eqI) (auto simp: bit_getAddr bit_set_flag)

lemma page_addr_bits: 
  "a AND (push_bit 12 1 - 1) = 0 \<and> drop_bit 52 a = (0 :: u64) \<longleftrightarrow> a AND NOT addr_mask = 0"
proof -
  have "a AND (push_bit 12 1 - 1) = 0 \<and> drop_bit 52 a = 0 \<longleftrightarrow>
      (\<forall>n<64. bit a n \<longrightarrow> 12 \<le> n \<and> n < 52)"
    unfolding and_fff_push
  proof (intro iffI allI impI conjI)
    fix n assume a: "take_bit 12 a = 0 \<and> drop_bit 52 a = 0" and n: "n < 64" "bit a n"
    show "12 \<le> n"
    proof (rule ccontr)
      assume "\<not> 12 \<le> n"
      then have "bit (take_bit 12 a) n" using n by (simp add: bit_take_bit_iff)
      then show False using a by simp
    qed
    show "n < 52"
    proof (rule ccontr)
      assume "\<not> n < 52"
      then have "bit (drop_bit 52 a) (n - 52)" using n by (simp add: bit_drop_bit_eq)
      then show False using a by simp
    qed
  next
    assume b: "\<forall>n<64. bit a n \<longrightarrow> 12 \<le> n \<and> n < 52"
    show "take_bit 12 a = 0" using b by (intro bit_word_eqI) (auto simp: bit_take_bit_iff)
    show "drop_bit 52 a = 0"
      using b bit_imp_le_length[of a] by (intro bit_word_eqI) (fastforce simp: bit_drop_bit_eq)
  qed
  also have "\<dots> \<longleftrightarrow> a AND NOT addr_mask = 0"
    unfolding bit_eq_iff[of _ 0] by (auto simp: bit_simps bit_addr_mask possible_bit_def)
  finally show ?thesis .
qed

lemma activeAddr_ok:
  assumes "activeAddr a e = Inr e'"
  shows "present e'" "getAddr e' = a"
    "\<And>n. n < 64 \<Longrightarrow> n < 12 \<or> 52 \<le> n \<Longrightarrow> bit e' n = (n = 0 \<or> bit e n)"
proof -
  have a: "a AND NOT addr_mask = 0" and e: "e' = (set_present True e AND NOT addr_mask) OR a"
    using assms unfolding activeAddr_def setAddr_def page_addr_bits by (auto simp: res_simps)
  have b: "\<not> bit a n" if "n < 64" "n < 12 \<or> 52 \<le> n" for n
    using a that unfolding bit_eq_iff[of _ 0] by (auto simp: bit_simps bit_addr_mask)
  have c: "12 \<le> n \<and> n < 52" if "bit a n" "n < 64" for n
    using b[of n] that by (meson not_less)
  show "getAddr e' = a"
    unfolding e using c by (intro bit_word_eqI) (auto simp: bit_getAddr bit_simps bit_addr_mask)
  show b': "bit e' n = (n = 0 \<or> bit e n)" if "n < 64" "n < 12 \<or> 52 \<le> n" for n
    unfolding e using that b[OF that] by (auto simp: bit_simps bit_addr_mask bit_set_flag set_present_def)
  show "present e'" unfolding present_def using b'[of 0] by simp
qed

lemma activeAddr_total: "a AND NOT addr_mask = 0 \<Longrightarrow> \<exists>e'. activeAddr a e = Inr e'"
  unfolding activeAddr_def setAddr_def page_addr_bits by simp

lemma present_set_present [simp]: "present (set_present v e) = v"
  by (simp add: present_def set_present_def bit_set_flag)

lemma present_flags [simp]:
  "present (set_writeThrough v e) = present e" "present (set_global v e) = present e"
  "present (set_user v e) = present e" "present (set_isSizeMega v e) = present e"
  by (simp_all add: present_def set_writeThrough_def set_global_def set_user_def set_isSizeMega_def bit_set_flag)

lemma getAddr_flags [simp]:
  "getAddr (set_writeThrough v e) = getAddr e" "getAddr (set_global v e) = getAddr e"
  "getAddr (set_user v e) = getAddr e" "getAddr (set_isSizeMega v e) = getAddr e"
  "getAddr (set_present v e) = getAddr e"
  by (simp_all add: set_writeThrough_def set_global_def set_user_def set_isSizeMega_def
      set_present_def getAddr_set_flag)

lemma mega_flags [simp]:
  "isSizeMega (set_writeThrough v e) = isSizeMega e" "isSizeMega (set_global v e) = isSizeMega e"
  "isSizeMega (set_user v e) = isSizeMega e" "isSizeMega (set_isSizeMega v e) = v"
  "isSizeMega (set_present v e) = isSizeMega e"
  by (simp_all add: isSizeMega_def set_writeThrough_def set_global_def set_user_def set_isSizeMega_def
      set_present_def bit_set_flag)

lemma not_present_new [simp]: "\<not> present new_entry"
  by (simp add: present_def new_entry_def bit_set_flag)

lemma new_entry_eq: "new_entry = 6"
  by (simp add: new_entry_def set_flag_def)

lemma index_bound:
  "getPML4index a < 512" "getPDPindex a < 512" "getPDindex a < 512" "getPTindex a < 512"
proof -
  have "unat (x AND (push_bit 9 1 - 1)) < 512" for x :: u64
  proof -
    have "(push_bit 9 1 - 1 :: u64) = mask 9" by (simp add: mask_eq_exp_minus_1 push_bit_eq_mult)
    then have "x AND (push_bit 9 1 - 1) = take_bit 9 x" by (simp add: take_bit_eq_mask)
    then show ?thesis using take_bit_nat_less_exp[of 9 "unat x"] by (simp add: unsigned_take_bit_eq)
  qed
  then show "getPML4index a < 512" "getPDPindex a < 512" "getPDindex a < 512" "getPTindex a < 512"
    by (simp_all add: getPML4index_def getPDPindex_def getPDindex_def getPTindex_def)
qed

definition tmp_slots :: "nat set" where
  "tmp_slots = {tmpPDP, tmpPD, tmpPT}"

definition slots_free :: "machine \<Rightarrow> bool" where
  "slots_free s \<longleftrightarrow> (\<forall>k\<in>tmp_slots. \<not> present (slot s k))"

definition slots_eq :: "machine \<Rightarrow> machine \<Rightarrow> bool" where
  "slots_eq s s' \<longleftrightarrow> m_pPT s' = m_pPT s \<and> m_cr3 s' = m_cr3 s \<and> m_phys s' = m_phys s
    \<and> (\<forall>p i. p \<noteq> m_pPT s \<or> i \<notin> tmp_slots \<longrightarrow> m_mem s' p i = m_mem s p i)"

lemma page_upd_simps [simp]:
  "m_pPT (page_upd p i e s) = m_pPT s" "m_cr3 (page_upd p i e s) = m_cr3 s"
  "m_phys (page_upd p i e s) = m_phys s"
  "m_mem (page_upd p i e s) q j = (if q = p \<and> j = i then e else m_mem s q j)"
  by (simp_all add: page_upd_def)

lemma page_clear_simps [simp]:
  "m_pPT (page_clear p s) = m_pPT s" "m_cr3 (page_clear p s) = m_cr3 s"
  "m_phys (page_clear p s) = m_phys s"
  "m_mem (page_clear p s) q j = (if q = p \<and> j < 512 then new_entry else m_mem s q j)"
  by (simp_all add: page_clear_def)

lemma slot_upd [simp]:
  "slot (page_upd p i e s) k = (if p = m_pPT s \<and> k = i then e else slot s k)"
  by (auto simp: slot_def)

lemma slot_clear [simp]:
  "slot (page_clear p s) k = (if p = m_pPT s \<and> k < 512 then new_entry else slot s k)"
  by (auto simp: slot_def)

lemma slot_phys [simp]: "slot (s\<lparr>m_phys := pm\<rparr>) k = slot s k"
  by (simp add: slot_def)

lemma actTmp_ok:
  "actTmp k a s = Inr s1 \<longleftrightarrow> \<not> present (slot s k)
     \<and> (\<exists>e. activeAddr a (slot s k) = Inr e \<and> s1 = page_upd (m_pPT s) k e s)"
  by (auto simp: actTmp_def phys_modify_def res_simps slot_def)

lemma win_get_ok:
  "win_get k i s = Inr e \<longleftrightarrow> present (slot s k) \<and> i < 512 \<and> e = m_mem s (getAddr (slot s k)) i"
  by (auto simp: win_get_def window_def res_simps)

lemma win_modify_ok:
  "win_modify k i f s = Inr s1 \<longleftrightarrow> present (slot s k) \<and> i < 512
     \<and> (\<exists>e. f (m_mem s (getAddr (slot s k)) i) = Inr e \<and> s1 = page_upd (getAddr (slot s k)) i e s)"
  by (auto simp: win_modify_def window_def phys_modify_def res_simps)

lemma win_clear_ok:
  "win_clear k s = Inr s1 \<longleftrightarrow> present (slot s k) \<and> s1 = page_clear (getAddr (slot s k)) s"
  by (auto simp: win_clear_def window_def res_simps)

lemma palloc_ok:
  "palloc s = Inr (p, s1) \<longleftrightarrow> (\<exists>pm. pm_alloc (m_phys s) = Inr (p, pm) \<and> s1 = s\<lparr>m_phys := pm\<rparr>)"
  by (auto simp: palloc_def res_simps)

lemma freeTmp_eq: "freeTmp k s = page_upd (m_pPT s) k (set_present False (slot s k)) s"
  by (simp add: freeTmp_def)

lemmas machine_ok = actTmp_ok win_get_ok win_modify_ok win_clear_ok palloc_ok freeTmp_eq

lemma slots_eq_refl [simp]: "slots_eq s s"
  by (simp add: slots_eq_def)

lemma slots_eq_trans: "slots_eq s t \<Longrightarrow> slots_eq t u \<Longrightarrow> slots_eq s u"
  by (auto simp: slots_eq_def)

lemma slots_eq_act: "k \<in> tmp_slots \<Longrightarrow> slots_eq s (page_upd (m_pPT s) k e s)"
  by (auto simp: slots_eq_def)

definition windows_ok :: "machine \<Rightarrow> bool" where
  "windows_ok s \<longleftrightarrow> slots_free s \<and> present (slot s PML4) \<and> getAddr (slot s PML4) = m_cr3 s
     \<and> m_cr3 s \<noteq> m_pPT s"

text \<open>The addresses of the tables on the way to \<open>v\<close>, as far as the entries go.\<close>

definition pdp_of :: "machine \<Rightarrow> u64 \<Rightarrow> u64" where
  "pdp_of s v = getAddr (m_mem s (m_cr3 s) (getPML4index v))"

definition add_table :: "u64 \<Rightarrow> u64 \<Rightarrow> nat \<Rightarrow> u64 \<Rightarrow> physmem \<Rightarrow> machine \<Rightarrow> machine" where
  "add_table new parent i e pm s = page_upd parent i e (page_clear new (s\<lparr>m_phys := pm\<rparr>))"

lemma getPDphy_ok:
  assumes w: "windows_ok s" and ne: "pdp_of s v \<noteq> m_pPT s"
    and fresh: "\<And>p pm. pm_alloc (m_phys s) = Inr (p, pm) \<Longrightarrow> p \<noteq> m_pPT s \<and> p \<noteq> pdp_of s v"
    and g: "getPDphy v s = Inr (PD, s')"
  shows "let e = m_mem s (pdp_of s v) (getPDPindex v) in
      if present e then PD = getAddr e \<and> slots_eq s s' \<and> slots_free s'
      else \<exists>pm e'. pm_alloc (m_phys s) = Inr (PD, pm) \<and> activeAddr PD e = Inr e'
        \<and> slots_eq (add_table PD (pdp_of s v) (getPDPindex v) e' pm s) s' \<and> slots_free s'"
proof -
  have i: "getPML4index v < 512" "getPDPindex v < 512" by (rule index_bound)+
  let ?p = "pdp_of s v"
  have p: "getPDPphy v s = (if ?p \<noteq> 0 then Inr ?p else Inl Bsod)"
    using w i by (simp add: getPDPphy_def getPDPphyu_def pdp_of_def windows_ok_def win_get_def window_def)
  let ?e = "m_mem s ?p (getPDPindex v)" and ?i = "getPDPindex v"
  from g obtain e1 where e1: "activeAddr ?p (slot s tmpPDP) = Inr e1"
    and g1: "bnd (win_get tmpPDP ?i (page_upd (m_pPT s) tmpPDP e1 s)) (\<lambda>e.
       if present e then assertk (getAddr e \<noteq> 0) (Inr (getAddr e, freeTmp tmpPDP (page_upd (m_pPT s) tmpPDP e1 s)))
       else bnd (palloc (page_upd (m_pPT s) tmpPDP e1 s)) (\<lambda>(PD, s).
         bnd (actTmp tmpPD PD s) (\<lambda>s.
         bnd (win_clear tmpPD s) (\<lambda>s.
         bnd (win_get tmpPD 2 s) (\<lambda>e2. assertk (\<not> present e2)
         (bnd (win_modify tmpPDP ?i (activeAddr PD) (freeTmp tmpPD s)) (\<lambda>s.
         Inr (PD, freeTmp tmpPDP s)))))))) = Inr (PD, s')"
    unfolding getPDphy_def p by (auto simp: res_simps actTmp_ok split: if_splits)
  note a1 = activeAddr_ok(1,2)[OF e1]
  have r: "win_get tmpPDP ?i (page_upd (m_pPT s) tmpPDP e1 s) = Inr ?e"
    using a1 i ne by (simp add: win_get_ok)
  have fr: "slots_free s" using w by (simp add: windows_ok_def)
  show ?thesis
  proof (cases "present ?e")
    case True
    with g1 r have "PD = getAddr ?e \<and> s' = freeTmp tmpPDP (page_upd (m_pPT s) tmpPDP e1 s)"
      by (simp add: res_simps)
    then show ?thesis using True fr
      by (auto simp: Let_def freeTmp_eq slots_free_def tmp_slots_def slots_eq_def)
  next
    case False
    with g1 r obtain s2 s3 s4 s5 where "palloc (page_upd (m_pPT s) tmpPDP e1 s) = Inr (PD, s2)"
        "actTmp tmpPD PD s2 = Inr s3" "win_clear tmpPD s3 = Inr s4"
      and 4: "win_modify tmpPDP ?i (activeAddr PD) (freeTmp tmpPD s4) = Inr s5" "s' = freeTmp tmpPDP s5"
      by (auto simp: res_simps)
    then obtain pm e2 where al: "pm_alloc (m_phys s) = Inr (PD, pm)"
      and s2: "s2 = (page_upd (m_pPT s) tmpPDP e1 s)\<lparr>m_phys := pm\<rparr>"
      and e2: "activeAddr PD (slot s2 tmpPD) = Inr e2"
      and s3: "s3 = page_upd (m_pPT s2) tmpPD e2 s2" and s4: "s4 = page_clear (getAddr (slot s3 tmpPD)) s3"
      by (auto simp: machine_ok)
    note a2 = activeAddr_ok(1,2)[OF e2]
    have ne2: "PD \<noteq> m_pPT s" "PD \<noteq> ?p" using fresh[OF al] by simp_all
    have c: "m_pPT s4 = m_pPT s" "m_cr3 s4 = m_cr3 s" "m_phys s4 = pm"
       "slot s4 tmpPD = e2" "slot s4 tmpPDP = e1" "slot s4 tmpPT = slot s tmpPT"
       "\<And>q j. m_mem s4 q j = (if q = PD \<and> j < 512 then new_entry
          else if q = m_pPT s \<and> j = tmpPD then e2 else if q = m_pPT s \<and> j = tmpPDP then e1
          else m_mem s q j)"
      using ne2 a2 by (simp_all add: s4 s3 s2 slot_def)
    from 4 ne ne2 a1 obtain e3 where e3: "activeAddr PD ?e = Inr e3"
      and s5: "s5 = page_upd ?p ?i e3 (freeTmp tmpPD s4)"
      by (auto simp: win_modify_ok freeTmp_eq c)
    have "slots_eq (add_table PD ?p ?i e3 pm s) s'" "slots_free s'"
      using ne ne2 fr unfolding 4(2) s5
      by (auto simp: slots_eq_def add_table_def freeTmp_eq c slots_free_def tmp_slots_def)
    then show ?thesis using al e3 False by (auto simp: Let_def)
  qed
qed

text \<open>The second half of \<open>getPTphy\<close>, after the call of \<open>getPDphy\<close>.\<close>

definition pt_step :: "u64 \<Rightarrow> u64 \<Rightarrow> machine \<Rightarrow> (u64 \<times> machine) res" where
  "pt_step virt PD s =
     bnd (actTmp tmpPD PD s) (\<lambda>s.
     bnd (win_get tmpPD (getPDindex virt) s) (\<lambda>e.
       if present e then assertk (getAddr e \<noteq> 0) (Inr (getAddr e, freeTmp tmpPD s))
       else
         bnd (palloc s) (\<lambda>(PT, s).
         bnd (actTmp tmpPT PT s) (\<lambda>s.
         bnd (win_clear tmpPT s) (\<lambda>s.
         bnd (win_modify tmpPD (getPDindex virt) (activeAddr PT) (freeTmp tmpPT s)) (\<lambda>s.
         Inr (PT, freeTmp tmpPD s)))))))"

lemma getPTphy_eq: "getPTphy virt s = bnd (getPDphy virt s) (\<lambda>(PD, s). pt_step virt PD s)"
  by (simp add: getPTphy_def pt_step_def)

lemma pt_step_ok:
  assumes fr: "slots_free s" and ne: "PD \<noteq> m_pPT s"
    and fresh: "\<And>p pm. pm_alloc (m_phys s) = Inr (p, pm) \<Longrightarrow> p \<noteq> m_pPT s \<and> p \<noteq> PD"
    and g: "pt_step v PD s = Inr (PT, s')"
  shows "let e = m_mem s PD (getPDindex v) in
      if present e then PT = getAddr e \<and> slots_eq s s' \<and> slots_free s'
      else \<exists>pm e'. pm_alloc (m_phys s) = Inr (PT, pm) \<and> activeAddr PT e = Inr e'
        \<and> slots_eq (add_table PT PD (getPDindex v) e' pm s) s' \<and> slots_free s'"
proof -
  let ?e = "m_mem s PD (getPDindex v)" and ?i = "getPDindex v"
  have i: "?i < 512" by (rule index_bound)
  from g obtain e1 where e1: "activeAddr PD (slot s tmpPD) = Inr e1"
    and g1: "bnd (win_get tmpPD ?i (page_upd (m_pPT s) tmpPD e1 s)) (\<lambda>e.
       if present e then assertk (getAddr e \<noteq> 0) (Inr (getAddr e, freeTmp tmpPD (page_upd (m_pPT s) tmpPD e1 s)))
       else bnd (palloc (page_upd (m_pPT s) tmpPD e1 s)) (\<lambda>(PT, s).
         bnd (actTmp tmpPT PT s) (\<lambda>s.
         bnd (win_clear tmpPT s) (\<lambda>s.
         bnd (win_modify tmpPD ?i (activeAddr PT) (freeTmp tmpPT s)) (\<lambda>s.
         Inr (PT, freeTmp tmpPD s)))))) = Inr (PT, s')"
    unfolding pt_step_def by (auto simp: res_simps actTmp_ok split: if_splits)
  note a1 = activeAddr_ok(1,2)[OF e1]
  have r: "win_get tmpPD ?i (page_upd (m_pPT s) tmpPD e1 s) = Inr ?e"
    using a1 i ne by (simp add: win_get_ok)
  show ?thesis
  proof (cases "present ?e")
    case True
    with g1 r have "PT = getAddr ?e \<and> s' = freeTmp tmpPD (page_upd (m_pPT s) tmpPD e1 s)"
      by (simp add: res_simps)
    then show ?thesis using True fr
      by (auto simp: Let_def freeTmp_eq slots_free_def tmp_slots_def slots_eq_def)
  next
    case False
    with g1 r obtain s2 s3 s4 s5 where "palloc (page_upd (m_pPT s) tmpPD e1 s) = Inr (PT, s2)"
        "actTmp tmpPT PT s2 = Inr s3" "win_clear tmpPT s3 = Inr s4"
      and 4: "win_modify tmpPD ?i (activeAddr PT) (freeTmp tmpPT s4) = Inr s5" "s' = freeTmp tmpPD s5"
      by (auto simp: res_simps)
    then obtain pm e2 where al: "pm_alloc (m_phys s) = Inr (PT, pm)"
      and s2: "s2 = (page_upd (m_pPT s) tmpPD e1 s)\<lparr>m_phys := pm\<rparr>"
      and e2: "activeAddr PT (slot s2 tmpPT) = Inr e2"
      and s3: "s3 = page_upd (m_pPT s2) tmpPT e2 s2" and s4: "s4 = page_clear (getAddr (slot s3 tmpPT)) s3"
      by (auto simp: machine_ok)
    note a2 = activeAddr_ok(1,2)[OF e2]
    have ne2: "PT \<noteq> m_pPT s" "PT \<noteq> PD" using fresh[OF al] by simp_all
    have c: "m_pPT s4 = m_pPT s" "m_cr3 s4 = m_cr3 s" "m_phys s4 = pm"
       "slot s4 tmpPT = e2" "slot s4 tmpPD = e1" "slot s4 tmpPDP = slot s tmpPDP"
       "\<And>q j. m_mem s4 q j = (if q = PT \<and> j < 512 then new_entry
          else if q = m_pPT s \<and> j = tmpPT then e2 else if q = m_pPT s \<and> j = tmpPD then e1
          else m_mem s q j)"
      using ne2 a2 by (simp_all add: s4 s3 s2 slot_def)
    from 4 ne ne2 a1 obtain e3 where e3: "activeAddr PT ?e = Inr e3"
      and s5: "s5 = page_upd PD ?i e3 (freeTmp tmpPT s4)"
      by (auto simp: win_modify_ok freeTmp_eq c)
    have "slots_eq (add_table PT PD ?i e3 pm s) s'" "slots_free s'"
      using ne ne2 fr unfolding 4(2) s5
      by (auto simp: slots_eq_def add_table_def freeTmp_eq c slots_free_def tmp_slots_def)
    then show ?thesis using al e3 False by (auto simp: Let_def)
  qed
qed

definition map_step :: "u64 \<Rightarrow> u64 \<Rightarrow> bool \<Rightarrow> u64 \<Rightarrow> machine \<Rightarrow> machine res" where
  "map_step phy virt wt PT s =
     bnd (actTmp tmpPT PT s) (\<lambda>s.
        bnd (win_get tmpPT (getPTindex virt) s) (\<lambda>e.
          if present e then Inl Bsod
          else
            bnd (win_modify tmpPT (getPTindex virt) (activeAddr phy) s) (\<lambda>s.
            bnd (win_modify tmpPT (getPTindex virt) (\<lambda>e. Inr (set_writeThrough wt e)) s) (\<lambda>s.
            bnd (if sint virt < 0
                 then win_modify tmpPT (getPTindex virt) (\<lambda>e. Inr (set_global True e)) s
                 else Inr s) (\<lambda>s.
            Inr (freeTmp tmpPT s))))))"

lemma createMapping_eq:
  "createMapping phy virt wt s =
     (if phy AND (push_bit 12 1 - 1) \<noteq> 0 then Inl Bsod
      else if virt AND (push_bit 12 1 - 1) \<noteq> 0 then Inl Bsod
      else if drop_bit 52 phy \<noteq> 0 then Inl Bsod
      else bnd (getPTphy virt s) (\<lambda>(PT, s). map_step phy virt wt PT s))"
  unfolding createMapping_def map_step_def by (rule refl)

lemma page_upd_same: "m_mem s p i = e \<Longrightarrow> page_upd p i e s = s"
  by (simp add: page_upd_def fun_upd_idem)

definition leaf_entry :: "u64 \<Rightarrow> bool \<Rightarrow> u64 \<Rightarrow> u64 \<Rightarrow> bool" where
  "leaf_entry virt wt phy e \<longleftrightarrow> present e \<and> getAddr e = phy \<and> bit e 3 = wt \<and> (sint virt < 0 \<longrightarrow> bit e 8)"

lemma map_step_ok:
  assumes fr: "slots_free s" and ne: "PT \<noteq> m_pPT s" and g: "map_step phy v wt PT s = Inr s'"
  shows "\<not> present (m_mem s PT (getPTindex v)) \<and> slots_free s'
    \<and> (\<exists>e. leaf_entry v wt phy e \<and> slots_eq (page_upd PT (getPTindex v) e s) s')"
proof -
  let ?i = "getPTindex v" and ?e = "m_mem s PT (getPTindex v)"
  from g obtain s1 where s1: "actTmp tmpPT PT s = Inr s1" 
    and g1: "bnd (win_get tmpPT ?i s1) (\<lambda>e.
          if present e then Inl Bsod
          else
            bnd (win_modify tmpPT ?i (activeAddr phy) s1) (\<lambda>s.
            bnd (win_modify tmpPT ?i (\<lambda>e. Inr (set_writeThrough wt e)) s) (\<lambda>s.
            bnd (if sint v < 0
                 then win_modify tmpPT ?i (\<lambda>e. Inr (set_global True e)) s
                 else Inr s) (\<lambda>s.
            Inr (freeTmp tmpPT s))))) = Inr s'"
    unfolding map_step_def by (auto simp: res_simps)
  from s1 obtain e1 where e1: "activeAddr PT (slot s tmpPT) = Inr e1" "s1 = page_upd (m_pPT s) tmpPT e1 s"
    by (auto simp: actTmp_ok)
  note a1 = activeAddr_ok(1,2)[OF e1(1)]
  have c1: "slot s1 tmpPT = e1" "m_mem s1 PT ?i = ?e" "m_pPT s1 = m_pPT s" using e1 ne by (simp_all add: slot_def)
  have r: "win_get tmpPT ?i s1 = Inr ?e"
    using a1 c1 index_bound(4)[of v] by (simp add: win_get_ok)
  have np: "\<not> present ?e" using g1 r by auto
  with g1 r obtain s2 s3 s4 where
    2: "win_modify tmpPT ?i (activeAddr phy) s1 = Inr s2"
    and 3: "win_modify tmpPT ?i (\<lambda>e. Inr (set_writeThrough wt e)) s2 = Inr s3"
    and 4: "(if sint v < 0 then win_modify tmpPT ?i (\<lambda>e. Inr (set_global True e)) s3 else Inr s3) = Inr s4"
    and s': "s' = freeTmp tmpPT s4"
    by (auto simp: res_simps split del: if_split)
  from 2 a1 c1 ne obtain e2 where e2: "activeAddr phy ?e = Inr e2" "s2 = page_upd PT ?i e2 s1"
    by (auto simp: win_modify_ok)
  note a2 = activeAddr_ok(1,2)[OF e2(1)]
  have c2: "slot s2 tmpPT = e1" "m_mem s2 PT ?i = e2" using c1 e2 ne by (simp_all add: slot_def)
  have s3: "s3 = page_upd PT ?i (set_writeThrough wt e2) s2"
    using 3 a1 c2 by (auto simp: win_modify_ok)
  have c3: "slot s3 tmpPT = e1" "m_mem s3 PT ?i = set_writeThrough wt e2"
    using c2 s3 ne e2 c1 by (simp_all add: slot_def)
  define e where "e = (if sint v < 0 then set_global True (set_writeThrough wt e2) else set_writeThrough wt e2)"
  have s4: "s4 = page_upd PT ?i e s3"
    using 4 a1 c3 page_upd_same[of s3 PT ?i] by (auto simp: win_modify_ok e_def split: if_splits)
  have l: "leaf_entry v wt phy e"
    using a2 by (auto simp: leaf_entry_def e_def set_global_def set_writeThrough_def bit_set_flag present_def
      getAddr_set_flag)
  have "slots_eq (page_upd PT ?i e s) s'" "slots_free s'"
    using fr ne e1 e2 s3 s4 s' by (auto simp: slots_eq_def freeTmp_eq slots_free_def tmp_slots_def)
  then show ?thesis using np l by blast
qed

section \<open>The page walk of the processor\<close>

text \<open>
  \<open>tbl s xs\<close>: the table the processor reaches from \<open>cr3\<close> by the indices \<open>xs\<close>, the last one
  first; an entry with \<open>isSizeMega\<close> in a page directory maps a 2M page and leads to no
  table. \<open>walk s v\<close> is the page table entry that translates \<open>v\<close> by a 4K page.
\<close>

fun tbl :: "machine \<Rightarrow> nat list \<Rightarrow> u64 option" where
  "tbl s [] = Some (m_cr3 s)"
| "tbl s (i # xs) = (case tbl s xs of None \<Rightarrow> None | Some p \<Rightarrow>
     (let e = m_mem s p i in
      if present e \<and> \<not> (length xs = 2 \<and> isSizeMega e) then Some (getAddr e) else None))"

definition path :: "u64 \<Rightarrow> nat list" where
  "path v = [getPDindex v, getPDPindex v, getPML4index v]"

definition walk :: "machine \<Rightarrow> u64 \<Rightarrow> u64 option" where
  "walk s v = (case tbl s (path v) of None \<Rightarrow> None | Some p \<Rightarrow>
     (let e = m_mem s p (getPTindex v) in if present e then Some e else None))"

text \<open>Whether the processor finds a 2M page for \<open>v\<close>.\<close>

definition large_mapped :: "machine \<Rightarrow> u64 \<Rightarrow> bool" where
  "large_mapped s v = (case tbl s (tl (path v)) of None \<Rightarrow> False | Some p \<Rightarrow>
     (let e = m_mem s p (getPDindex v) in present e \<and> isSizeMega e))"

definition vpath :: "nat list \<Rightarrow> bool" where
  "vpath xs \<longleftrightarrow> length xs \<le> 3 \<and> (\<forall>i\<in>set xs. i < 512)"

lemma vpath_path [simp]: "vpath (path v)" "vpath (tl (path v))" "vpath (tl (tl (path v)))"
  using index_bound[of v] by (simp_all add: vpath_def path_def)

lemma vpath_Cons: "vpath (i # xs) \<Longrightarrow> vpath xs \<and> i < 512"
  by (simp add: vpath_def)

definition used_page :: "machine \<Rightarrow> u64 \<Rightarrow> bool" where
  "used_page s p \<longleftrightarrow> p \<notin> frame_addr ` free_frames (m_phys s)"

text \<open>
  The invariant of the kernel's tables: they form a tree whose pages are in use and are not
  shared, the page table of the windows has its one place in it, unused page directory
  entries have no stale \<open>isSizeMega\<close> bit, the page map is present where it is set, and no
  table lies at address 0.
\<close>

definition tables_ok :: "machine \<Rightarrow> bool" where
  "tables_ok s \<longleftrightarrow> windows_ok s \<and> pm_wf (m_phys s) \<and> used_page s (m_pPT s)
    \<and> (\<forall>xs ys p. vpath xs \<and> vpath ys \<and> tbl s xs = Some p \<and> tbl s ys = Some p \<longrightarrow> xs = ys)
    \<and> (\<forall>xs p. vpath xs \<and> tbl s xs = Some p \<longrightarrow> used_page s p)
    \<and> (\<forall>xs. vpath xs \<and> tbl s xs = Some (m_pPT s) \<longrightarrow> xs = [0, 509, 511])
    \<and> (\<forall>xs p i. vpath xs \<and> length xs = 2 \<and> tbl s xs = Some p \<and> i < 512
          \<and> \<not> present (m_mem s p i) \<longrightarrow> \<not> isSizeMega (m_mem s p i))
    \<and> (\<forall>i<512. getAddr (m_mem s (m_cr3 s) i) \<noteq> 0 \<longrightarrow> present (m_mem s (m_cr3 s) i))
    \<and> (\<forall>xs. vpath xs \<longrightarrow> tbl s xs \<noteq> Some 0)"

lemma tables_okD:
  assumes "tables_ok s"
  shows "windows_ok s" "pm_wf (m_phys s)" "used_page s (m_pPT s)"
    "\<And>xs ys p. vpath xs \<Longrightarrow> vpath ys \<Longrightarrow> tbl s xs = Some p \<Longrightarrow> tbl s ys = Some p \<Longrightarrow> xs = ys"
    "\<And>xs p. vpath xs \<Longrightarrow> tbl s xs = Some p \<Longrightarrow> used_page s p"
    "\<And>xs. vpath xs \<Longrightarrow> tbl s xs = Some (m_pPT s) \<Longrightarrow> xs = [0, 509, 511]"
    "\<And>xs p i. vpath xs \<Longrightarrow> length xs = 2 \<Longrightarrow> tbl s xs = Some p \<Longrightarrow> i < 512 \<Longrightarrow>
       \<not> present (m_mem s p i) \<Longrightarrow> \<not> isSizeMega (m_mem s p i)"
    "\<And>i. i < 512 \<Longrightarrow> getAddr (m_mem s (m_cr3 s) i) \<noteq> 0 \<Longrightarrow> present (m_mem s (m_cr3 s) i)"
    "\<And>xs. vpath xs \<Longrightarrow> tbl s xs \<noteq> Some 0"
  using assms unfolding tables_ok_def by blast+

subsection \<open>Changes that the walk does not see\<close>

text \<open>\<open>same_entry\<close>: both unused, or equal; \<open>seen_eq\<close>: all entries so.\<close>

definition seen_eq :: "machine \<Rightarrow> machine \<Rightarrow> bool" where
  "seen_eq s s' \<longleftrightarrow> m_cr3 s' = m_cr3 s \<and> (\<forall>p i. m_mem s' p i = m_mem s p i
      \<or> \<not> present (m_mem s p i) \<and> \<not> present (m_mem s' p i))"

lemma tbl_seen_eq:
  assumes "seen_eq s s'"
  shows "tbl s' xs = tbl s xs"
proof (induction xs)
  case Nil
  then show ?case using assms by (simp add: seen_eq_def)
next
  case (Cons i xs)
  have "m_mem s' p i = m_mem s p i \<or> \<not> present (m_mem s p i) \<and> \<not> present (m_mem s' p i)" for p
    using assms by (simp add: seen_eq_def)
  then show ?case using Cons by (auto simp: Let_def split: option.splits) metis+
qed

lemma walk_seen_eq:
  assumes "seen_eq s s'"
  shows "walk s' v = walk s v"
proof -
  have "m_mem s' p i = m_mem s p i \<or> \<not> present (m_mem s p i) \<and> \<not> present (m_mem s' p i)" for p i
    using assms by (simp add: seen_eq_def)
  then show ?thesis
    using tbl_seen_eq[OF assms] by (auto simp: walk_def Let_def split: option.splits) metis+
qed

lemma slots_seen_eq:
  assumes "slots_eq s s'" "slots_free s" "slots_free s'"
  shows "seen_eq s s'"
  using assms unfolding seen_eq_def slots_eq_def slots_free_def slot_def by metis

subsection \<open>A new table\<close>

lemma tbl_add_table:
  assumes ok: "tables_ok s" and xs: "vpath xs" "length xs \<le> 2" "tbl s xs = Some p" and i: "i < 512"
    and np: "\<not> present (m_mem s p i)"
    and new: "\<not> used_page s new" and e: "present e" "getAddr e = new" "length xs = 2 \<longrightarrow> \<not> isSizeMega e"
    and ys: "vpath ys"
  shows "tbl (add_table new p i e pm s) ys = (if ys = i # xs then Some new else tbl s ys)"
  using ys
proof (induction ys)
  case Nil
  then show ?case by (simp add: add_table_def)
next
  case (Cons j ys)
  let ?s = "add_table new p i e pm s"
  have v: "vpath ys" "j < 512" using vpath_Cons[OF Cons.prems] by auto
  note IH = Cons.IH[OF v(1)]
  have pn: "p \<noteq> new" using tables_okD(5)[OF ok xs(1,3)] new by auto
  have mem: "m_mem ?s q j = (if q = p \<and> j = i then e else if q = new then new_entry else m_mem s q j)" for q
    using v(2) pn by (simp add: add_table_def)
  show ?case
  proof (cases "ys = i # xs")
    case True
    then have "tbl ?s ys = Some new" using IH by simp
    then have "tbl ?s (j # ys) = None" using mem[of new] pn by simp
    moreover have "tbl s ys = None" using True np xs(3) by simp
    moreover have "j # ys \<noteq> i # xs" using True by auto
    ultimately show ?thesis by simp
  next
    case False
    then have t: "tbl ?s ys = tbl s ys" using IH by simp
    show ?thesis
    proof (cases "tbl s ys")
      case None
      then show ?thesis using t xs(3) by auto
    next
      case (Some q)
      have qn: "q \<noteq> new" using tables_okD(5)[OF ok v(1) Some] new by auto
      have qp: "q = p \<longleftrightarrow> ys = xs" using tables_okD(4)[OF ok v(1) xs(1) Some] xs(3) Some by auto
      show ?thesis
        using t Some mem[of q] qn qp e np xs(2) by (auto simp: Let_def)
    qed
  qed
qed

lemma walk_add_table:
  assumes ok: "tables_ok s" and xs: "vpath xs" "length xs \<le> 2" "tbl s xs = Some p" and i: "i < 512"
    and np: "\<not> present (m_mem s p i)"
    and new: "\<not> used_page s new" and e: "present e" "getAddr e = new" "length xs = 2 \<longrightarrow> \<not> isSizeMega e"
  shows "walk (add_table new p i e pm s) v = walk s v"
proof -
  let ?s = "add_table new p i e pm s"
  note t = tbl_add_table[OF assms vpath_path(1)[of v], of pm]
  have pn: "p \<noteq> new" using tables_okD(5)[OF ok xs(1,3)] new by auto
  show ?thesis
  proof (cases "path v = i # xs")
    case True
    have "tbl s (i # xs) = None" using np xs(3) by simp
    then show ?thesis using t True pn index_bound(4)[of v]
      by (simp add: walk_def add_table_def)
  next
    case False
    show ?thesis
    proof (cases "tbl s (path v)")
      case None
      then show ?thesis using t False by (simp add: walk_def)
    next
      case (Some q)
      have "q \<noteq> new" using tables_okD(5)[OF ok vpath_path(1) Some] new by auto
      moreover have "q \<noteq> p"
        using tables_okD(4)[OF ok vpath_path(1) xs(1) Some] xs(2,3) by (auto simp: path_def)
      ultimately show ?thesis using t False Some by (simp add: walk_def add_table_def)
    qed
  qed
qed

lemma tbl_leaf_upd:
  assumes ok: "tables_ok s" and xs: "vpath xs" "length xs = 3" "tbl s xs = Some p" and ys: "vpath ys"
  shows "tbl (page_upd p i e s) ys = tbl s ys"
  using ys
proof (induction ys)
  case Nil
  then show ?case by simp
next
  case (Cons j ys)
  have v: "vpath ys" "length ys \<le> 2" using Cons.prems by (auto simp: vpath_def)
  show ?case
  proof (cases "tbl s ys")
    case None
    then show ?thesis using Cons.IH[OF v(1)] by simp
  next
    case (Some q)
    then have "q \<noteq> p" using tables_okD(4)[OF ok v(1) xs(1)] xs(2,3) v(2) by auto
    then show ?thesis using Cons.IH[OF v(1)] Some by simp
  qed
qed

lemma walk_leaf_upd:
  assumes ok: "tables_ok s" and xs: "vpath xs" "length xs = 3" "tbl s xs = Some p"
  shows "walk (page_upd p i e s) v =
    (if path v = xs \<and> getPTindex v = i then (if present e then Some e else None) else walk s v)"
proof (cases "tbl s (path v)")
  case None
  then show ?thesis using tbl_leaf_upd[OF assms vpath_path(1)] xs(3) by (auto simp: walk_def)
next
  case (Some q)
  have "q = p \<longleftrightarrow> path v = xs" using tables_okD(4)[OF ok vpath_path(1) xs(1) Some] xs(3) Some by auto
  then show ?thesis using tbl_leaf_upd[OF assms vpath_path(1)] Some by (auto simp: walk_def Let_def)
qed

subsection \<open>Preservation of the invariant\<close>

lemma used_page_cong: "m_phys s' = m_phys s \<Longrightarrow> used_page s' = used_page s"
  by (simp add: used_page_def fun_eq_iff)

lemma slots_ok:
  assumes ok: "tables_ok s" and eq: "slots_eq s s'" and fr: "slots_free s'"
  shows "tables_ok s'" "tbl s' = tbl s" "walk s' = walk s" "windows_ok s'"
proof -
  have frs: "slots_free s" using tables_okD(1)[OF ok] by (simp add: windows_ok_def)
  note se = slots_seen_eq[OF eq frs fr]
  show t: "tbl s' = tbl s" using tbl_seen_eq[OF se] by (simp add: fun_eq_iff)
  show "walk s' = walk s" using walk_seen_eq[OF se] by (simp add: fun_eq_iff)
  have f: "m_pPT s' = m_pPT s" "m_cr3 s' = m_cr3 s" "m_phys s' = m_phys s"
    "\<And>p i. p \<noteq> m_pPT s \<or> i \<notin> tmp_slots \<Longrightarrow> m_mem s' p i = m_mem s p i"
    using eq by (auto simp: slots_eq_def)
  have z: "slot s' PML4 = slot s PML4" using f(1,4) by (simp add: slot_def tmp_slots_def)
  show w: "windows_ok s'" using tables_okD(1)[OF ok] fr z f by (simp add: windows_ok_def)
  have c: "m_mem s' (m_cr3 s) i = m_mem s (m_cr3 s) i" for i
    using f(4) tables_okD(1)[OF ok] by (simp add: windows_ok_def)
  have np: "m_mem s' p i = m_mem s p i" if "vpath xs" "length xs = 2" "tbl s xs = Some p" for xs p i
  proof -
    have "p \<noteq> m_pPT s" using tables_okD(6)[OF ok that(1)] that(2,3) by auto
    then show ?thesis using f(4) by simp
  qed
  show "tables_ok s'"
    unfolding tables_ok_def t f(1,2,3) c used_page_cong[OF f(3)]
  proof (intro conjI)
    show "\<forall>xs p i. vpath xs \<and> length xs = 2 \<and> tbl s xs = Some p \<and> i < 512 \<and>
       \<not> present (m_mem s' p i) \<longrightarrow> \<not> isSizeMega (m_mem s' p i)"
      using np tables_okD(7)[OF ok] by auto
  qed (use w ok in \<open>auto simp: tables_ok_def\<close>)
qed

lemma alloc_used:
  assumes "pm_wf (m_phys s)" "pm_alloc (m_phys s) = Inr (p, pm)"
  shows "\<not> used_page s p" "\<And>q t. m_phys t = pm \<Longrightarrow> used_page t q \<longleftrightarrow> q = p \<or> used_page s q" "pm_wf pm"
proof -
  from pma.alloc_ok[OF assms] obtain k where
    k: "k \<in> free_frames (m_phys s)" "p = frame_addr k" "free_frames pm = free_frames (m_phys s) - {k}" "pm_wf pm"
    by blast
  show "\<not> used_page s p" "pm_wf pm" using k by (simp_all add: used_page_def)
  have inj: "inj_on frame_addr (free_frames (m_phys s))"
    using pma.frame_addr_inj_on[OF assms(1)] pma.avail_bound[OF assms(1)] by (rule inj_on_subset)
  show "m_phys t = pm \<Longrightarrow> used_page t q \<longleftrightarrow> q = p \<or> used_page s q" for t q
    using inj k(1-3) by (auto simp: used_page_def inj_on_def)
qed

lemma alloc_page:
  assumes "pm_wf (m_phys s)" "pm_alloc (m_phys s) = Inr (p, pm)"
  shows "p \<noteq> 0" "p AND NOT addr_mask = 0"
proof -
  from pma.alloc_ok[OF assms] pma.avail_bound[OF assms(1)] pma.limit_bound[OF assms(1)] obtain k where
    k: "p = frame_addr k" "k < 2 ^ 36" by fastforce
  have u: "unat p = 0x100000 + 0x1000 * k" using unat_frame_addr[of k] k by simp
  then show "p \<noteq> 0" by auto
  have "unat (drop_bit 52 p) = unat p div 2 ^ 52" by (simp only: unat_drop_bit_eq drop_bit_nat_def)
  also have "\<dots> = 0" unfolding u using k(2) by simp
  finally have "unat (drop_bit 52 p) = 0" .
  then have "drop_bit 52 p = 0" by (simp only: unat_eq_0)
  moreover have "take_bit 12 p = 0" using frame_aligned[of k] k by simp
  ultimately show "p AND NOT addr_mask = 0" unfolding page_addr_bits[symmetric] and_fff_push by simp
qed

lemma add_table_simps [simp]:
  "m_pPT (add_table new p i e pm s) = m_pPT s" "m_cr3 (add_table new p i e pm s) = m_cr3 s"
  "m_phys (add_table new p i e pm s) = pm"
  "m_mem (add_table new p i e pm s) q j =
     (if q = p \<and> j = i then e else if q = new \<and> j < 512 then new_entry else m_mem s q j)"
  by (simp_all add: add_table_def)

lemma add_table_ok:
  assumes ok: "tables_ok s" and xs: "vpath xs" "length xs \<le> 2" "tbl s xs = Some p" and i: "i < 512"
    and np: "\<not> present (m_mem s p i)"
    and al: "pm_alloc (m_phys s) = Inr (new, pm)" and e: "activeAddr new (m_mem s p i) = Inr e"
    and out: "i # xs \<noteq> [0, 509, 511]" and len: "0 < length xs"
  shows "tables_ok (add_table new p i e pm s)"
    "tbl (add_table new p i e pm s) (i # xs) = Some new"
    "\<And>v. walk (add_table new p i e pm s) v = walk s v"
    "\<And>j. j < 512 \<Longrightarrow> m_mem (add_table new p i e pm s) new j = new_entry"
proof -
  let ?s = "add_table new p i e pm s"
  note wf = tables_okD(2)[OF ok] and ae = activeAddr_ok[OF e]
  note au = alloc_used[OF wf al]
  have mega: "length xs = 2 \<longrightarrow> \<not> isSizeMega e"
    using tables_okD(7)[OF ok xs(1) _ xs(3) i np] ae(3)[of 7] by (auto simp: isSizeMega_def)
  have vi: "vpath (i # xs)" using xs(1,2) i by (simp add: vpath_def)
  note t = tbl_add_table[OF ok xs i np au(1) ae(1,2) mega, of _ pm]
  show tn: "tbl ?s (i # xs) = Some new" using t[OF vi] by simp
  show "walk ?s v = walk s v" for v by (rule walk_add_table[OF ok xs i np au(1) ae(1,2) mega])
  have pn: "p \<noteq> new" using tables_okD(5)[OF ok xs(1,3)] au(1) by auto
  then show "m_mem ?s new j = new_entry" if "j < 512" for j using that by simp
  have ppn: "m_pPT s \<noteq> new" using tables_okD(3)[OF ok] au(1) by auto
  have cn: "m_cr3 s \<noteq> new" using tables_okD(5)[OF ok, of "[]"] au(1) by (auto simp: vpath_def)
  have cp: "m_cr3 s \<noteq> p" using tables_okD(4)[OF ok, of "[]" xs "m_cr3 s"] xs(1,3) len by (auto simp: vpath_def)
  have pp: "p \<noteq> m_pPT s" using tables_okD(6)[OF ok xs(1)] xs(2,3) by auto
  have sl: "slot ?s k = slot s k" for k using ppn pp by (simp add: slot_def)
  show "tables_ok ?s" unfolding tables_ok_def
  proof (intro conjI allI impI)
    show "windows_ok ?s" using tables_okD(1)[OF ok] by (simp add: windows_ok_def slots_free_def sl)
    show "pm_wf (m_phys ?s)" using au(3) by simp
    show "used_page ?s (m_pPT ?s)" using au(2)[of ?s] tables_okD(3)[OF ok] by simp
  next
    fix xs' ys q assume a: "vpath xs' \<and> vpath ys \<and> tbl ?s xs' = Some q \<and> tbl ?s ys = Some q"
    show "xs' = ys"
      using a t[of xs'] t[of ys] tables_okD(4)[OF ok, of xs' ys q] tables_okD(5)[OF ok, of xs' new]
        tables_okD(5)[OF ok, of ys new] au(1) by (auto split: if_splits)
  next
    fix ys q assume "vpath ys \<and> tbl ?s ys = Some q"
    then show "used_page ?s q"
      using t[of ys] au(2)[of ?s q] tables_okD(5)[OF ok, of ys q] by (auto split: if_splits)
  next
    fix ys assume "vpath ys \<and> tbl ?s ys = Some (m_pPT ?s)"
    then show "ys = [0, 509, 511]"
      using t[of ys] tables_okD(6)[OF ok, of ys] ppn by (auto split: if_splits)
  next
    fix ys q j assume a: "vpath ys \<and> length ys = 2 \<and> tbl ?s ys = Some q \<and> j < 512 \<and> \<not> present (m_mem ?s q j)"
    show "\<not> isSizeMega (m_mem ?s q j)"
      using a t[of ys] tables_okD(7)[OF ok, of ys q j] mega ae(1) pn
      by (auto simp: new_entry_eq isSizeMega_def split: if_splits)
  next
    fix j assume "j < (512 :: nat)" "getAddr (m_mem ?s (m_cr3 ?s) j) \<noteq> 0"
    then show "present (m_mem ?s (m_cr3 ?s) j)"
      using tables_okD(8)[OF ok, of j] cp cn by simp
  next
    fix ys assume "vpath ys"
    then show "tbl ?s ys \<noteq> Some 0"
      using t[of ys] tables_okD(9)[OF ok, of ys] alloc_page(1)[OF wf al] by auto
  qed
qed

lemma leaf_upd_ok:
  assumes ok: "tables_ok s" and xs: "vpath xs" "length xs = 3" "tbl s xs = Some p" and pp: "p \<noteq> m_pPT s"
  shows "tables_ok (page_upd p i e s)"
proof -
  let ?s = "page_upd p i e s"
  note t = tbl_leaf_upd[OF ok xs, of _ i e]
  have cp: "m_cr3 s \<noteq> p" using tables_okD(4)[OF ok, of "[]" xs "m_cr3 s"] xs by (auto simp: vpath_def)
  have np: "q \<noteq> p" if "vpath ys" "length ys = 2" "tbl s ys = Some q" for ys q
    using tables_okD(4)[OF ok that(1) xs(1)] that xs by auto
  show ?thesis unfolding tables_ok_def
  proof (intro conjI allI impI)
    show "windows_ok ?s" using tables_okD(1)[OF ok] using pp by (simp add: windows_ok_def slots_free_def)
    show "pm_wf (m_phys ?s)" using tables_okD(2)[OF ok] by simp
    show "used_page ?s (m_pPT ?s)" using tables_okD(3)[OF ok] by (simp add: used_page_def)
  next
    fix xs' ys q assume "vpath xs' \<and> vpath ys \<and> tbl ?s xs' = Some q \<and> tbl ?s ys = Some q"
    then show "xs' = ys" using t tables_okD(4)[OF ok] by metis
  next
    fix ys q assume "vpath ys \<and> tbl ?s ys = Some q"
    then show "used_page ?s q" using t[of ys] tables_okD(5)[OF ok, of ys q] by (simp add: used_page_def)
  next
    fix ys assume "vpath ys \<and> tbl ?s ys = Some (m_pPT ?s)"
    then show "ys = [0, 509, 511]" using t[of ys] tables_okD(6)[OF ok, of ys] by simp
  next
    fix ys q j assume a: "vpath ys \<and> length ys = 2 \<and> tbl ?s ys = Some q \<and> j < 512 \<and> \<not> present (m_mem ?s q j)"
    then show "\<not> isSizeMega (m_mem ?s q j)"
      using t[of ys] np[of ys q] tables_okD(7)[OF ok, of ys q j] by auto
  next
    fix j assume "j < (512 :: nat)" "getAddr (m_mem ?s (m_cr3 ?s) j) \<noteq> 0"
    then show "present (m_mem ?s (m_cr3 ?s) j)" using tables_okD(8)[OF ok, of j] cp by simp
  next
    fix ys assume "vpath ys"
    then show "tbl ?s ys \<noteq> Some 0" using t[of ys] tables_okD(9)[OF ok, of ys] by simp
  qed
qed

section \<open>What mapping and unmapping do to the walk\<close>

lemma fresh_page:
  assumes "tables_ok s" "pm_alloc (m_phys s) = Inr (p, pm)"
  shows "p \<noteq> m_pPT s" "\<And>xs q. vpath xs \<Longrightarrow> tbl s xs = Some q \<Longrightarrow> p \<noteq> q"
  using alloc_used(1)[OF tables_okD(2)[OF assms(1)] assms(2)] tables_okD(3)[OF assms(1)]
    tables_okD(5)[OF assms(1)] by auto

lemma new_entry_walk [simp]: "\<not> isSizeMega new_entry"
  by (simp add: new_entry_eq isSizeMega_def)

lemma getPDphy_walk:
  assumes ok: "tables_ok s" and g: "getPDphy v s = Inr (PD, s')"
  shows "tables_ok s' \<and> tbl s' (tl (path v)) = Some PD \<and> walk s' = walk s
    \<and> m_pPT s' = m_pPT s \<and> large_mapped s' v = large_mapped s v
    \<and> free_frames (m_phys s') \<subseteq> free_frames (m_phys s)
    \<and> (m_phys s' = m_phys s \<or> (\<exists>p. pm_alloc (m_phys s) = Inr (p, m_phys s')))"
proof -
  let ?p = "pdp_of s v" and ?i = "getPDPindex v"
  note w = tables_okD(1)[OF ok]
  have i: "getPML4index v < 512" "?i < 512" by (rule index_bound)+
  have p: "getPDPphy v s = (if ?p \<noteq> 0 then Inr ?p else Inl Bsod)"
    using w i by (simp add: getPDPphy_def getPDPphyu_def pdp_of_def windows_ok_def win_get_def window_def)
  have p0: "?p \<noteq> 0" using g unfolding getPDphy_def p by (auto split: if_splits)
  then have pr: "present (m_mem s (m_cr3 s) (getPML4index v))"
    using tables_okD(8)[OF ok i(1)] by (simp add: pdp_of_def)
  have vx: "vpath [getPML4index v]" using i by (simp add: vpath_def)
  have t3: "tbl s [getPML4index v] = Some ?p" using pr by (simp add: pdp_of_def)
  have pp: "?p \<noteq> m_pPT s" using tables_okD(6)[OF ok vx] t3 by auto
  have fresh: "q \<noteq> m_pPT s \<and> q \<noteq> ?p" if "pm_alloc (m_phys s) = Inr (q, pm)" for q pm
    using fresh_page[OF ok that] vx t3 by blast
  have r: "let e = m_mem s ?p ?i in
      if present e then PD = getAddr e \<and> slots_eq s s' \<and> slots_free s'
      else \<exists>pm e'. pm_alloc (m_phys s) = Inr (PD, pm) \<and> activeAddr PD e = Inr e'
        \<and> slots_eq (add_table PD ?p ?i e' pm s) s' \<and> slots_free s'"
    by (rule getPDphy_ok[OF w pp _ g]) (rule fresh)
  show ?thesis
  proof (cases "present (m_mem s ?p ?i)")
    case True
    then have a: "PD = getAddr (m_mem s ?p ?i)" "slots_eq s s'" "slots_free s'"
      using r by (auto simp: Let_def)
    have tp: "tbl s (tl (path v)) = Some PD" using True t3 a(1) by (simp add: path_def)
    have "PD \<noteq> m_pPT s"
    proof
      assume "PD = m_pPT s"
      then have "tl (path v) = [0, 509, 511]" using tables_okD(6)[OF ok vpath_path(2)[of v]] tp by simp
      then show False by (simp add: path_def)
    qed
    then have "m_mem s' PD = m_mem s PD" using a(2) by (auto simp: slots_eq_def fun_eq_iff)
    then show ?thesis
      using slots_ok[OF ok a(2,3)] a(2) tp by (simp add: large_mapped_def slots_eq_def)
  next
    case False
    obtain pm e where b: "pm_alloc (m_phys s) = Inr (PD, pm)" "activeAddr PD (m_mem s ?p ?i) = Inr e"
      "slots_eq (add_table PD ?p ?i e pm s) s'" "slots_free s'"
      using r False by (auto simp: Let_def)
    let ?t = "add_table PD ?p ?i e pm s"
    have ok1: "tables_ok ?t" and t1: "tbl ?t (?i # [getPML4index v]) = Some PD"
      and w1: "\<And>v. walk ?t v = walk s v" and m1: "\<And>j. j < 512 \<Longrightarrow> m_mem ?t PD j = new_entry"
      using add_table_ok[OF ok vx _ t3 i(2) False b(1,2)] by simp_all
    have ne: "PD \<noteq> m_pPT ?t" using fresh[OF b(1)] by simp
    have nl: "\<not> large_mapped s v" using False t3 by (simp add: large_mapped_def path_def)
    have "m_mem s' PD (getPDindex v) = new_entry"
      using b(3) ne m1[OF index_bound(3)] by (simp add: slots_eq_def)
    then have nl': "\<not> large_mapped s' v"
      using slots_ok(2)[OF ok1 b(3,4)] t1 by (simp add: large_mapped_def path_def)
    have "free_frames pm \<subseteq> free_frames (m_phys s)"
      using pma.alloc_ok[OF tables_okD(2)[OF ok] b(1)] by auto
    moreover have "m_phys s' = pm" "m_pPT s' = m_pPT s" using b(3) by (simp_all add: slots_eq_def)
    ultimately show ?thesis
      using slots_ok[OF ok1 b(3,4)] t1 w1 nl nl' b(1)
      by (auto simp: path_def fun_eq_iff simp del: tbl.simps)
  qed
qed

lemma pt_step_walk:
  assumes ok: "tables_ok s" and t: "tbl s (tl (path v)) = Some PD"
    and nl: "\<not> large_mapped s v" and out: "path v \<noteq> [0, 509, 511]"
    and g: "pt_step v PD s = Inr (PT, s')"
  shows "tables_ok s' \<and> tbl s' (path v) = Some PT \<and> walk s' = walk s \<and> m_pPT s' = m_pPT s
    \<and> free_frames (m_phys s') \<subseteq> free_frames (m_phys s)"
proof -
  let ?i = "getPDindex v"
  note w = tables_okD(1)[OF ok]
  have i: "?i < 512" by (rule index_bound)
  have vx: "vpath (tl (path v))" "length (tl (path v)) = 2" by simp (simp add: path_def)
  have pv: "path v = ?i # tl (path v)" by (simp add: path_def)
  have pp: "PD \<noteq> m_pPT s"
  proof
    assume "PD = m_pPT s"
    then have "tl (path v) = [0, 509, 511]" using tables_okD(6)[OF ok vx(1)] t by simp
    then show False by (simp add: path_def)
  qed
  have fr: "slots_free s" using w by (simp add: windows_ok_def)
  have fresh: "q \<noteq> m_pPT s \<and> q \<noteq> PD" if "pm_alloc (m_phys s) = Inr (q, pm)" for q pm
    using fresh_page[OF ok that] vx(1) t by blast
  have r: "let e = m_mem s PD ?i in
      if present e then PT = getAddr e \<and> slots_eq s s' \<and> slots_free s'
      else \<exists>pm e'. pm_alloc (m_phys s) = Inr (PT, pm) \<and> activeAddr PT e = Inr e'
        \<and> slots_eq (add_table PT PD ?i e' pm s) s' \<and> slots_free s'"
    by (rule pt_step_ok[OF fr pp _ g]) (rule fresh)
  show ?thesis
  proof (cases "present (m_mem s PD ?i)")
    case True
    then have a: "PT = getAddr (m_mem s PD ?i)" "slots_eq s s'" "slots_free s'"
      using r by (auto simp: Let_def)
    have "\<not> isSizeMega (m_mem s PD ?i)" using nl t True by (simp add: large_mapped_def)
    then have "tbl s (path v) = Some PT" using True t a(1) by (subst pv) simp
    then show ?thesis using slots_ok[OF ok a(2,3)] a(2) by (simp add: slots_eq_def)
  next
    case False
    obtain pm e where b: "pm_alloc (m_phys s) = Inr (PT, pm)" "activeAddr PT (m_mem s PD ?i) = Inr e"
      "slots_eq (add_table PT PD ?i e pm s) s'" "slots_free s'"
      using r False by (auto simp: Let_def)
    let ?t = "add_table PT PD ?i e pm s"
    have ok1: "tables_ok ?t" and t1: "tbl ?t (path v) = Some PT" and w1: "\<And>v. walk ?t v = walk s v"
      using add_table_ok[OF ok vx(1) _ t i False b(1,2)] vx(2) out pv by simp_all
    have "free_frames pm \<subseteq> free_frames (m_phys s)"
      using pma.alloc_ok[OF tables_okD(2)[OF ok] b(1)] by auto
    then show ?thesis
      using slots_ok[OF ok1 b(3,4)] t1 w1 b(3) by (auto simp: slots_eq_def fun_eq_iff)
  qed
qed

text \<open>\<open>vpage v\<close>: the indices that decide how \<open>v\<close> is translated.\<close>

definition vpage :: "u64 \<Rightarrow> nat list" where
  "vpage v = getPTindex v # path v"

lemma createMapping_walk:
  assumes ok: "tables_ok s" and nl: "\<not> large_mapped s v" and out: "path v \<noteq> [0, 509, 511]"
    and g: "createMapping phy v wt s = Inr s'"
  shows "tables_ok s' \<and> walk s v = None \<and> (\<exists>e. walk s' v = Some e \<and> leaf_entry v wt phy e)
    \<and> (\<forall>u. vpage u \<noteq> vpage v \<longrightarrow> walk s' u = walk s u)
    \<and> free_frames (m_phys s') \<subseteq> free_frames (m_phys s)"
proof -
  from g obtain PD s1 PT s2 where g1: "getPDphy v s = Inr (PD, s1)" and g2: "pt_step v PD s1 = Inr (PT, s2)"
    and g3: "map_step phy v wt PT s2 = Inr s'"
    by (auto simp: createMapping_eq getPTphy_eq res_simps split: if_splits)
  note 1 = getPDphy_walk[OF ok g1]
  have ok1: "tables_ok s1" and t1: "tbl s1 (tl (path v)) = Some PD" and nl1: "\<not> large_mapped s1 v"
    using 1 nl by auto
  note 2 = pt_step_walk[OF ok1 t1 nl1 out g2]
  have ok2: "tables_ok s2" and t2: "tbl s2 (path v) = Some PT" using 2 by auto
  have pp: "PT \<noteq> m_pPT s2" using tables_okD(6)[OF ok2 vpath_path(1)] t2 out by auto
  have fr: "slots_free s2" using tables_okD(1)[OF ok2] by (simp add: windows_ok_def)
  from map_step_ok[OF fr pp g3] obtain e where np: "\<not> present (m_mem s2 PT (getPTindex v))"
    and fr': "slots_free s'" and e: "leaf_entry v wt phy e"
    and eq: "slots_eq (page_upd PT (getPTindex v) e s2) s'" by blast
  have l3: "length (path v) = 3" by (simp add: path_def)
  note ok3 = leaf_upd_ok[OF ok2 vpath_path(1) l3 t2 pp, of "getPTindex v" e]
  note so = slots_ok[OF ok3 eq fr']
  have w: "walk s' u = (if vpage u = vpage v then Some e else walk s u)" for u
    using so(3) walk_leaf_upd[OF ok2 vpath_path(1) l3 t2, of "getPTindex v" e u] e 1 2
    by (auto simp: vpage_def leaf_entry_def)
  have "walk s2 v = None" using np t2 by (simp add: walk_def)
  then have "walk s v = None" using 1 2 by simp
  moreover have "m_phys s' = m_phys s2" using eq by (simp add: slots_eq_def)
  ultimately show ?thesis using so(1) w e 1 2 by auto
qed

definition unmap_step :: "u64 \<Rightarrow> u64 \<Rightarrow> machine \<Rightarrow> machine res" where
  "unmap_step virt PT s =
     bnd (actTmp tmpPT PT s) (\<lambda>s.
     bnd (win_get tmpPT (getPTindex virt) s) (\<lambda>e. assertk (present e)
     (bnd (win_modify tmpPT (getPTindex virt) (\<lambda>e. Inr (set_present False e)) s) (\<lambda>s.
     Inr (freeTmp tmpPT s)))))"

lemma freeMapping1_eq: "freeMapping1 v s = bnd (getPTphy v s) (\<lambda>(PT, s). unmap_step v PT s)"
  unfolding freeMapping1_def unmap_step_def by (rule refl)

lemma getAddr_page: "getAddr e AND NOT addr_mask = 0"
  by (intro bit_word_eqI) (auto simp: bit_simps bit_addr_mask bit_getAddr)

text \<open>A window that is opened on a table and closed again.\<close>

lemma act_page:
  assumes "slots_free s" "k \<in> tmp_slots" "p AND NOT addr_mask = 0"
  obtains e where "actTmp k p s = Inr (page_upd (m_pPT s) k e s)" "present e" "getAddr e = p"
proof -
  from activeAddr_total[OF assms(3)] obtain e where e: "activeAddr p (slot s k) = Inr e" by blast
  show ?thesis
    by (rule that[OF _ activeAddr_ok(1,2)[OF e]]) (use assms e in \<open>auto simp: actTmp_ok slots_free_def\<close>)
qed

lemma unmap_step_ok:
  assumes fr: "slots_free s" and ne: "PT \<noteq> m_pPT s" and pg: "PT AND NOT addr_mask = 0"
    and pr: "present (m_mem s PT (getPTindex v))"
  shows "\<exists>s' e. unmap_step v PT s = Inr s' \<and> \<not> present e \<and> slots_free s'
     \<and> slots_eq (page_upd PT (getPTindex v) e s) s'"
proof -
  let ?i = "getPTindex v"
  obtain e where e: "actTmp tmpPT PT s = Inr (page_upd (m_pPT s) tmpPT e s)" "present e" "getAddr e = PT"
    using act_page[OF fr _ pg] by (auto simp: tmp_slots_def)
  let ?s1 = "page_upd (m_pPT s) tmpPT e s"
  have g: "win_get tmpPT ?i ?s1 = Inr (m_mem s PT ?i)"
    using e ne index_bound(4)[of v] by (simp add: win_get_ok)
  let ?e = "set_present False (m_mem s PT ?i)"
  have m: "win_modify tmpPT ?i (\<lambda>e. Inr (set_present False e)) ?s1 = Inr (page_upd PT ?i ?e ?s1)"
    using e ne index_bound(4)[of v] by (simp add: win_modify_ok)
  have r: "unmap_step v PT s = Inr (freeTmp tmpPT (page_upd PT ?i ?e ?s1))"
    unfolding unmap_step_def e(1) using g m pr by simp
  have "slots_free (freeTmp tmpPT (page_upd PT ?i ?e ?s1))"
    "slots_eq (page_upd PT ?i ?e s) (freeTmp tmpPT (page_upd PT ?i ?e ?s1))"
    using fr ne by (auto simp: slots_eq_def freeTmp_eq slots_free_def tmp_slots_def)
  then show ?thesis unfolding r by (intro exI[of _ ?e] exI conjI refl) auto
qed

lemma tbl_page: "tbl s xs = Some p \<Longrightarrow> xs \<noteq> [] \<Longrightarrow> p AND NOT addr_mask = 0"
  by (cases xs) (auto simp: Let_def getAddr_page split: option.splits if_splits)

lemma getPDphy_present:
  assumes ok: "tables_ok s" and t: "tbl s (tl (path v)) = Some PD"
  shows "\<exists>s'. getPDphy v s = Inr (PD, s')"
proof -
  let ?p = "pdp_of s v" and ?i = "getPDPindex v"
  note w = tables_okD(1)[OF ok]
  have i: "getPML4index v < 512" "?i < 512" by (rule index_bound)+
  have vx: "vpath [getPML4index v]" using i by (simp add: vpath_def)
  have t3: "tbl s [getPML4index v] = Some ?p" and e: "present (m_mem s ?p ?i)" "PD = getAddr (m_mem s ?p ?i)"
    using t by (auto simp: path_def Let_def pdp_of_def split: option.splits if_splits)
  have p0: "?p \<noteq> 0" using tables_okD(9)[OF ok vx] t3 by auto
  have d0: "PD \<noteq> 0" using tables_okD(9)[OF ok vpath_path(2)[of v]] t by auto
  have pp: "?p \<noteq> m_pPT s" using tables_okD(6)[OF ok vx] t3 by auto
  have p: "getPDPphy v s = Inr ?p"
    using w i p0 by (simp add: getPDPphy_def getPDPphyu_def pdp_of_def windows_ok_def win_get_def window_def)
  have fr: "slots_free s" using w by (simp add: windows_ok_def)
  obtain e1 where a: "actTmp tmpPDP ?p s = Inr (page_upd (m_pPT s) tmpPDP e1 s)" "present e1" "getAddr e1 = ?p"
    using act_page[OF fr _ tbl_page[OF t3]] by (auto simp: tmp_slots_def)
  have "win_get tmpPDP ?i (page_upd (m_pPT s) tmpPDP e1 s) = Inr (m_mem s ?p ?i)"
    using a i pp by (simp add: win_get_ok)
  then show ?thesis unfolding getPDphy_def p using a(1) e d0 by simp
qed

lemma pt_step_present:
  assumes ok: "tables_ok s" and t: "tbl s (path v) = Some PT"
  shows "\<exists>PD. tbl s (tl (path v)) = Some PD \<and> (\<exists>s'. pt_step v PD s = Inr (PT, s'))"
proof -
  let ?i = "getPDindex v"
  have pv: "path v = ?i # tl (path v)" by (simp add: path_def)
  have l: "length (tl (path v)) = 2" by (simp add: path_def)
  from t obtain PD where d: "tbl s (tl (path v)) = Some PD" 
    and e: "present (m_mem s PD ?i)" "PT = getAddr (m_mem s PD ?i)"
    by (subst (asm) pv) (auto simp: Let_def split: option.splits if_splits)
  have pp: "PD \<noteq> m_pPT s"
  proof
    assume "PD = m_pPT s"
    then have "tl (path v) = [0, 509, 511]" using tables_okD(6)[OF ok vpath_path(2)[of v]] d by simp
    then show False by (simp add: path_def)
  qed
  have t0: "PT \<noteq> 0" using tables_okD(9)[OF ok vpath_path(1)[of v]] t by auto
  have fr: "slots_free s" using tables_okD(1)[OF ok] by (simp add: windows_ok_def)
  have pg: "PD AND NOT addr_mask = 0" by (rule tbl_page[OF d]) (simp add: path_def)
  obtain e1 where a: "actTmp tmpPD PD s = Inr (page_upd (m_pPT s) tmpPD e1 s)" "present e1" "getAddr e1 = PD"
    using act_page[OF fr _ pg] by (auto simp: tmp_slots_def)
  have "win_get tmpPD ?i (page_upd (m_pPT s) tmpPD e1 s) = Inr (m_mem s PD ?i)"
    using a index_bound(3)[of v] pp by (simp add: win_get_ok)
  then have "\<exists>s'. pt_step v PD s = Inr (PT, s')" unfolding pt_step_def using a(1) e t0 by simp
  then show ?thesis using d by blast
qed

lemma walk_not_large:
  assumes "walk s v = Some e"
  shows "\<not> large_mapped s v"
proof -
  have pv: "path v = getPDindex v # tl (path v)" by (simp add: path_def)
  have l: "length (tl (path v)) = 2" by (simp add: path_def)
  have "tbl s (getPDindex v # tl (path v)) \<noteq> None"
    using assms pv by (auto simp: walk_def simp del: tbl.simps split: option.splits)
  then show ?thesis using l by (auto simp: large_mapped_def Let_def split: if_splits option.splits)
qed

lemma freeMapping1_walk:
  assumes ok: "tables_ok s" and out: "path v \<noteq> [0, 509, 511]" and m: "walk s v = Some e"
  shows "\<exists>s'. freeMapping1 v s = Inr s' \<and> tables_ok s' \<and> walk s' v = None
    \<and> (\<forall>u. vpage u \<noteq> vpage v \<longrightarrow> walk s' u = walk s u)
    \<and> free_frames (m_phys s') \<subseteq> free_frames (m_phys s)"
proof -
  from m obtain PT where t: "tbl s (path v) = Some PT" 
    by (auto simp: walk_def split: option.splits)
  from pt_step_present[OF ok t] obtain PD where d: "tbl s (tl (path v)) = Some PD" by blast
  obtain s1 where g1: "getPDphy v s = Inr (PD, s1)" using getPDphy_present[OF ok d] by blast
  note 1 = getPDphy_walk[OF ok g1]
  have nl: "\<not> large_mapped s v" by (rule walk_not_large[OF m])
  have ok1: "tables_ok s1" and t1: "tbl s1 (tl (path v)) = Some PD" and nl1: "\<not> large_mapped s1 v"
    using 1 nl by auto
  have m1: "walk s1 v = Some e" using 1 m by simp
  then obtain PT1 where t1': "tbl s1 (path v) = Some PT1" by (auto simp: walk_def split: option.splits)
  obtain s2 where g2: "pt_step v PD s1 = Inr (PT1, s2)" using pt_step_present[OF ok1 t1'] t1 by auto
  note 2 = pt_step_walk[OF ok1 t1 nl1 out g2]
  have ok2: "tables_ok s2" and t2: "tbl s2 (path v) = Some PT1" and m2: "walk s2 v = Some e" using 2 m1 by auto
  have pr: "present (m_mem s2 PT1 (getPTindex v))"
    using m2 t2 by (auto simp: walk_def Let_def split: if_splits)
  have pp: "PT1 \<noteq> m_pPT s2" using tables_okD(6)[OF ok2 vpath_path(1)] t2 out by auto
  have fr: "slots_free s2" using tables_okD(1)[OF ok2] by (simp add: windows_ok_def)
  have pg: "PT1 AND NOT addr_mask = 0" by (rule tbl_page[OF t2]) (simp add: path_def)
  from unmap_step_ok[OF fr pp pg pr] obtain s' e' where g3: "unmap_step v PT1 s2 = Inr s'"
    and np: "\<not> present e'" and fr': "slots_free s'" 
    and eq: "slots_eq (page_upd PT1 (getPTindex v) e' s2) s'" by blast
  have l3: "length (path v) = 3" by (simp add: path_def)
  note ok3 = leaf_upd_ok[OF ok2 vpath_path(1) l3 t2 pp, of "getPTindex v" e']
  note so = slots_ok[OF ok3 eq fr']
  have w: "walk s' u = (if vpage u = vpage v then None else walk s u)" for u
    using so(3) walk_leaf_upd[OF ok2 vpath_path(1) l3 t2, of "getPTindex v" e' u] np 1 2
    by (auto simp: vpage_def)
  have "freeMapping1 v s = Inr s'" unfolding freeMapping1_eq getPTphy_eq using g1 g2 g3 by simp
  moreover have "m_phys s' = m_phys s2" using eq by (simp add: slots_eq_def)
  ultimately show ?thesis using so(1) w 1 2 by auto
qed

lemma walk_vpage:
  assumes "vpage u = vpage v"
  shows "walk s u = walk s v"
proof -
  have "path u = path v" "getPTindex u = getPTindex v" using assms by (simp_all add: vpage_def)
  then show ?thesis by (simp add: walk_def split: option.splits)
qed

text \<open>Mapping and then unmapping.\<close>

lemma map_unmap_walk:
  assumes ok: "tables_ok s" and nl: "\<not> large_mapped s v" and out: "path v \<noteq> [0, 509, 511]"
    and g: "createMapping phy v wt s = Inr s1"
  shows "\<exists>s2. freeMapping1 v s1 = Inr s2 \<and> tables_ok s2 \<and> walk s2 = walk s"
proof -
  note 1 = createMapping_walk[OF assms]
  then obtain e where "walk s1 v = Some e" "tables_ok s1" by blast
  from freeMapping1_walk[OF this(2) out this(1)] obtain s2 where
    2: "freeMapping1 v s1 = Inr s2" "tables_ok s2" "walk s2 v = None"
      "\<And>u. vpage u \<noteq> vpage v \<Longrightarrow> walk s2 u = walk s1 u" by blast
  have "walk s2 u = walk s u" for u
  proof (cases "vpage u = vpage v")
    case True
    have "walk s2 u = walk s2 v" "walk s u = walk s v" by (rule walk_vpage[OF True])+
    then show ?thesis using 1 2(3) by simp
  next
    case False
    then show ?thesis using 1 2(4) by simp
  qed
  then have "walk s2 = walk s" by (rule ext)
  then show ?thesis using 2 by blast
qed

subsection \<open>When mapping succeeds\<close>

text \<open>The new table of \<open>getPDphy\<close> and \<open>getPTphy\<close>: allocated, shown in window \<open>k\<close>, cleared.\<close>

lemma new_table_total:
  assumes fr: "\<not> present (slot s k)" and wf: "pm_wf (m_phys s)" and k: "k < 512"
    and al: "pm_alloc (m_phys s) = Inr (p, pm)" and ne: "p \<noteq> m_pPT s"
  obtains s1 s2 s3 where "palloc s = Inr (p, s1)" "actTmp k p s1 = Inr s2" "win_clear k s2 = Inr s3"
    "win_get k 2 s3 = Inr new_entry" "m_pPT s3 = m_pPT s" "m_phys s3 = pm"
    "\<And>j. j \<noteq> k \<Longrightarrow> slot s3 j = slot s j" "getAddr (slot s3 k) = p"
    "\<And>q i. q \<noteq> p \<Longrightarrow> q \<noteq> m_pPT s \<Longrightarrow> m_mem s3 q i = m_mem s q i"
proof -
  from activeAddr_total[OF alloc_page(2)[OF wf al]] obtain e where e: "activeAddr p (slot s k) = Inr e" by blast
  note ae = activeAddr_ok(1,2)[OF e]
  let ?s1 = "s\<lparr>m_phys := pm\<rparr>"
  let ?s2 = "page_upd (m_pPT s) k e ?s1"
  let ?s3 = "page_clear p ?s2"
  have "palloc s = Inr (p, ?s1)" using al by (simp add: palloc_ok)
  moreover have "actTmp k p ?s1 = Inr ?s2" using fr e by (simp add: actTmp_ok)
  moreover have "win_clear k ?s2 = Inr ?s3" using ae by (simp add: win_clear_ok)
  moreover have "win_get k 2 ?s3 = Inr new_entry" using ae ne by (simp add: win_get_ok)
  moreover have "\<And>j. j \<noteq> k \<Longrightarrow> slot ?s3 j = slot s j" "getAddr (slot ?s3 k) = p"
    "\<And>q i. q \<noteq> p \<Longrightarrow> q \<noteq> m_pPT s \<Longrightarrow> m_mem ?s3 q i = m_mem s q i" using ne ae by simp_all
  ultimately show ?thesis using that[of ?s1 ?s2 ?s3] by simp
qed

lemma win_modify_total:
  assumes "present (slot s k)" "i < 512" "a AND NOT addr_mask = 0"
  shows "\<exists>s'. win_modify k i (activeAddr a) s = Inr s'"
  using activeAddr_total[OF assms(3)] assms(1,2) by (auto simp: win_modify_ok)

lemma pt_step_total:
  assumes fr: "slots_free s" and wf: "pm_wf (m_phys s)" and ne: "PD \<noteq> m_pPT s"
    and pg: "PD AND NOT addr_mask = 0" and nz: "getAddr (m_mem s PD (getPDindex v)) \<noteq> 0 
      \<or> \<not> present (m_mem s PD (getPDindex v))"
    and al: "pm_alloc (m_phys s) = Inr (p, pm)" and np: "p \<noteq> m_pPT s"
  shows "\<exists>PT s'. pt_step v PD s = Inr (PT, s')"
proof -
  let ?i = "getPDindex v"
  have i: "?i < 512" by (rule index_bound)
  obtain e1 where a: "actTmp tmpPD PD s = Inr (page_upd (m_pPT s) tmpPD e1 s)" "present e1" "getAddr e1 = PD"
    using act_page[OF fr _ pg] by (auto simp: tmp_slots_def)
  let ?t = "page_upd (m_pPT s) tmpPD e1 s"
  have g: "win_get tmpPD ?i ?t = Inr (m_mem s PD ?i)" using a i ne by (simp add: win_get_ok)
  show ?thesis
  proof (cases "present (m_mem s PD ?i)")
    case True
    then show ?thesis unfolding pt_step_def using a(1) g nz by simp
  next
    case False
    obtain s1 s2 s3 where n: "palloc ?t = Inr (p, s1)" "actTmp tmpPT p s1 = Inr s2" "win_clear tmpPT s2 = Inr s3"
        "win_get tmpPT 2 s3 = Inr new_entry" "m_pPT s3 = m_pPT ?t" "m_phys s3 = pm"
        "\<And>j. j \<noteq> tmpPT \<Longrightarrow> slot s3 j = slot ?t j"
      by (rule new_table_total[of ?t tmpPT p pm]) (use fr wf al np in \<open>simp_all add: slots_free_def tmp_slots_def\<close>)
    have "present (slot (freeTmp tmpPT s3) tmpPD)" using n(5,7) a(2) by (simp add: freeTmp_eq)
    from win_modify_total[OF this i alloc_page(2)[OF wf al]] obtain s4 where
      "win_modify tmpPD ?i (activeAddr p) (freeTmp tmpPT s3) = Inr s4" by blast
    then show ?thesis unfolding pt_step_def using a(1) g False n(1-3) by simp
  qed
qed

lemma getPDphy_total:
  assumes ok: "tables_ok s" and nz: "pdp_of s v \<noteq> 0" and al: "pm_alloc (m_phys s) = Inr (q, pm)"
  shows "\<exists>PD s'. getPDphy v s = Inr (PD, s')"
proof -
  let ?p = "pdp_of s v" and ?i = "getPDPindex v"
  note w = tables_okD(1)[OF ok]
  have i: "getPML4index v < 512" "?i < 512" by (rule index_bound)+
  have pr: "present (m_mem s (m_cr3 s) (getPML4index v))"
    using tables_okD(8)[OF ok i(1)] nz by (simp add: pdp_of_def)
  have vx: "vpath [getPML4index v]" using i by (simp add: vpath_def)
  have t3: "tbl s [getPML4index v] = Some ?p" using pr by (simp add: pdp_of_def)
  have pp: "?p \<noteq> m_pPT s" using tables_okD(6)[OF ok vx] t3 by auto
  have p: "getPDPphy v s = Inr ?p"
    using w i nz by (simp add: getPDPphy_def getPDPphyu_def pdp_of_def windows_ok_def win_get_def window_def)
  have fr: "slots_free s" using w by (simp add: windows_ok_def)
  obtain e1 where a: "actTmp tmpPDP ?p s = Inr (page_upd (m_pPT s) tmpPDP e1 s)" "present e1" "getAddr e1 = ?p"
    using act_page[OF fr _ tbl_page[OF t3]] by (auto simp: tmp_slots_def)
  let ?t = "page_upd (m_pPT s) tmpPDP e1 s"
  have g: "win_get tmpPDP ?i ?t = Inr (m_mem s ?p ?i)" using a i pp by (simp add: win_get_ok)
  show ?thesis
  proof (cases "present (m_mem s ?p ?i)")
    case True
    then have "tbl s (tl (path v)) = Some (getAddr (m_mem s ?p ?i))" using t3 by (simp add: path_def)
    then have "getAddr (m_mem s ?p ?i) \<noteq> 0" using tables_okD(9)[OF ok vpath_path(2)[of v]] by auto
    then show ?thesis unfolding getPDphy_def p using a(1) g True by simp
  next
    case False
    note wf = tables_okD(2)[OF ok]
    obtain s1 s2 s3 where n: "palloc ?t = Inr (q, s1)" "actTmp tmpPD q s1 = Inr s2" "win_clear tmpPD s2 = Inr s3"
        "win_get tmpPD 2 s3 = Inr new_entry" "m_pPT s3 = m_pPT ?t" "m_phys s3 = pm"
        "\<And>j. j \<noteq> tmpPD \<Longrightarrow> slot s3 j = slot ?t j"
      by (rule new_table_total[of ?t tmpPD q pm])
        (use fr wf al fresh_page(1)[OF ok al] in \<open>simp_all add: slots_free_def tmp_slots_def\<close>)
    have "present (slot (freeTmp tmpPD s3) tmpPDP)" using n(5,7) a(2) by (simp add: freeTmp_eq)
    from win_modify_total[OF this i(2) alloc_page(2)[OF wf al]] obtain s4 where
      "win_modify tmpPDP ?i (activeAddr q) (freeTmp tmpPD s3) = Inr s4" by blast
    then show ?thesis unfolding getPDphy_def p using a(1) g False n(1-4) by simp
  qed
qed

lemma map_step_total:
  assumes fr: "slots_free s" and ne: "PT \<noteq> m_pPT s" and pg: "PT AND NOT addr_mask = 0"
    and np: "\<not> present (m_mem s PT (getPTindex v))" and phy: "phy AND NOT addr_mask = 0"
  shows "\<exists>s'. map_step phy v wt PT s = Inr s'"
proof -
  let ?i = "getPTindex v"
  have i: "?i < 512" by (rule index_bound)
  obtain e where e: "actTmp tmpPT PT s = Inr (page_upd (m_pPT s) tmpPT e s)" "present e" "getAddr e = PT"
    using act_page[OF fr _ pg] by (auto simp: tmp_slots_def)
  let ?s1 = "page_upd (m_pPT s) tmpPT e s"
  have g: "win_get tmpPT ?i ?s1 = Inr (m_mem s PT ?i)" using e ne i by (simp add: win_get_ok)
  have p1: "present (slot ?s1 tmpPT)" using e by simp
  from win_modify_total[OF p1 i phy] obtain s2 where 2: "win_modify tmpPT ?i (activeAddr phy) ?s1 = Inr s2" by blast
  have s2: "present (slot s2 tmpPT)" "getAddr (slot s2 tmpPT) = PT" "m_pPT s2 = m_pPT s"
    using 2 e ne by (auto simp: win_modify_ok)
  obtain s3 where 3: "win_modify tmpPT ?i (\<lambda>e. Inr (set_writeThrough wt e)) s2 = Inr s3"
    and p3: "present (slot s3 tmpPT)"
    using s2 i ne by (auto simp: win_modify_ok)
  have "\<exists>s4. (if sint v < 0 then win_modify tmpPT ?i (\<lambda>e. Inr (set_global True e)) s3 else Inr s3) = Inr s4"
    using p3 i by (auto simp: win_modify_ok)
  then show ?thesis unfolding map_step_def using e(1) g np 2 3 by auto
qed

definition visible_free :: "physmem \<Rightarrow> nat set" where
  "visible_free pm = {k\<in>free_frames pm. k < pm_visible pm}"

lemma alloc_visible:
  assumes "pm_wf pm" "visible_free pm \<noteq> {}"
  shows "\<exists>k pm'. pm_alloc pm = Inr (frame_addr k, pm') \<and> pm_wf pm' \<and> visible_free pm - {k} \<subseteq> visible_free pm'"
proof -
  have "\<exists>k<pm_visible pm. bits_of (pm_bitset pm) k"
    using assms(2) by (auto simp: visible_free_def free_frames_def)
  then obtain k pm' where k: "pm_alloc pm = Inr (frame_addr k, pm')" "k < pm_visible pm" "alloc_frame pm k pm'"
    using pm_alloc_spec[OF assms(1)] by auto
  have lt: "k < pm_frames pm" using k(2) scanned_le[of "pm_bitset pm"]
    by (simp add: pm_visible_def pm_frames_def)
  have "free_frames pm' = free_frames pm - {k}"
    using free_frames_upd[of pm pm' k False] k(3) lt by (simp add: alloc_frame_def)
  moreover have "pm_wf pm'" using pm_wf_same[of pm pm'] k(3) assms by (simp add: alloc_frame_def)
  moreover have "pm_visible pm' = pm_visible pm"
    using k(3) by (simp add: alloc_frame_def pm_visible_def scanned_def same_window_def)
  ultimately show ?thesis using k(1) by (intro exI[of _ k] exI[of _ pm']) (auto simp: visible_free_def)
qed

lemma createMapping_total:
  assumes ok: "tables_ok s" and nl: "\<not> large_mapped s v" and out: "path v \<noteq> [0, 509, 511]"
    and phy: "phy AND NOT addr_mask = 0" and v: "v AND (push_bit 12 1 - 1) = 0"
    and nz: "pdp_of s v \<noteq> 0" and free: "2 \<le> card (visible_free (m_phys s))"
    and un: "walk s v = None"
  shows "\<exists>s'. createMapping phy v wt s = Inr s'"
proof -
  have fin: "finite (visible_free pm)" for pm by (rule finite_subset[of _ "{..< pm_visible pm}"]) (auto simp: visible_free_def)
  from free have "visible_free (m_phys s) \<noteq> {}" by auto
  from alloc_visible[OF tables_okD(2)[OF ok] this] obtain k pm where
    k: "pm_alloc (m_phys s) = Inr (frame_addr k, pm)" "pm_wf pm" "visible_free (m_phys s) - {k} \<subseteq> visible_free pm" by blast
  from getPDphy_total[OF ok nz k(1)] obtain PD s1 where g1: "getPDphy v s = Inr (PD, s1)" by blast
  note 1 = getPDphy_walk[OF ok g1]
  have ok1: "tables_ok s1" and t1: "tbl s1 (tl (path v)) = Some PD" and nl1: "\<not> large_mapped s1 v"
    and w1: "walk s1 v = None" using 1 nl un by auto
  have fr1: "slots_free s1" using tables_okD(1)[OF ok1] by (simp add: windows_ok_def)
  have ne1: "PD \<noteq> m_pPT s1"
  proof
    assume "PD = m_pPT s1"
    then have "tl (path v) = [0, 509, 511]" using tables_okD(6)[OF ok1 vpath_path(2)[of v]] t1 by simp
    then show False by (simp add: path_def)
  qed
  have pg1: "PD AND NOT addr_mask = 0" by (rule tbl_page[OF t1]) (simp add: path_def)
  have nz1: "getAddr (m_mem s1 PD (getPDindex v)) \<noteq> 0 \<or> \<not> present (m_mem s1 PD (getPDindex v))"
  proof (rule ccontr)
    assume a: "\<not> ?thesis"
    have pv: "path v = getPDindex v # tl (path v)" by (simp add: path_def)
    have "tbl s1 (path v) = Some 0" using a nl1 t1 by (subst pv) (simp add: large_mapped_def)
    then show False using tables_okD(9)[OF ok1 vpath_path(1)[of v]] by simp
  qed
  have "visible_free (m_phys s1) \<noteq> {}"
  proof (cases "m_phys s1 = m_phys s")
    case True
    then show ?thesis using free by auto
  next
    case False
    then have "m_phys s1 = pm" using 1 k(1) by auto
    moreover have "visible_free (m_phys s) - {k} \<noteq> {}"
      using free fin[of "m_phys s"] by (metis card_Diff_singleton_if card.empty card_le_Suc0_iff_eq
          insert_iff not_less_eq_eq numeral_2_eq_2 Diff_eq_empty_iff subset_singletonD card_1_singleton_iff One_nat_def le_Suc_eq)
    ultimately show ?thesis using k(3) by auto
  qed
  from alloc_visible[OF tables_okD(2)[OF ok1] this] obtain k1 pm1 where
    k1: "pm_alloc (m_phys s1) = Inr (frame_addr k1, pm1)" by blast
  from pt_step_total[OF fr1 tables_okD(2)[OF ok1] ne1 pg1 nz1 k1 fresh_page(1)[OF ok1 k1]] obtain PT s2
    where g2: "pt_step v PD s1 = Inr (PT, s2)" by blast
  note 2 = pt_step_walk[OF ok1 t1 nl1 out g2]
  have ok2: "tables_ok s2" and t2: "tbl s2 (path v) = Some PT" and w2: "walk s2 v = None" using 2 w1 by auto
  have pp: "PT \<noteq> m_pPT s2" using tables_okD(6)[OF ok2 vpath_path(1)] t2 out by auto
  have fr2: "slots_free s2" using tables_okD(1)[OF ok2] by (simp add: windows_ok_def)
  have pg2: "PT AND NOT addr_mask = 0" by (rule tbl_page[OF t2]) (simp add: path_def)
  have np: "\<not> present (m_mem s2 PT (getPTindex v))" using w2 t2 by (auto simp: walk_def Let_def split: if_splits)
  from map_step_total[OF fr2 pp pg2 np phy] obtain s' where "map_step phy v wt PT s2 = Inr s'" by blast
  then show ?thesis
    using phy v g1 g2 unfolding createMapping_eq getPTphy_eq page_addr_bits[symmetric] by auto
qed

subsection \<open>Unmapping several pages\<close>

lemma freeMapping_walk:
  assumes "tables_ok s" "inj_on (\<lambda>i. vpage (v + of_nat i * 0x1000)) {..<n}"
    and "\<forall>i<n. walk s (v + of_nat i * 0x1000) \<noteq> None \<and> path (v + of_nat i * 0x1000) \<noteq> [0, 509, 511]"
  shows "\<exists>s'. freeMapping v n s = Inr s' \<and> tables_ok s'
    \<and> (\<forall>u. walk s' u = (if vpage u \<in> (\<lambda>i. vpage (v + of_nat i * 0x1000)) ` {..<n} then None else walk s u))"
  using assms(2,3)
proof (induction n)
  case 0
  then show ?case using assms(1) by (simp add: freeMapping_def)
next
  case (Suc n)
  let ?v = "v + of_nat n * 0x1000" and ?V = "(\<lambda>i. vpage (v + of_nat i * 0x1000)) ` {..<n}"
  have "inj_on (\<lambda>i. vpage (v + of_nat i * 0x1000)) {..<n}" using Suc.prems(1) by (rule inj_on_subset) auto
  with Suc obtain s1 where s1: "freeMapping v n s = Inr s1" "tables_ok s1"
    "\<And>u. walk s1 u = (if vpage u \<in> ?V then None else walk s u)" by auto
  have new: "vpage ?v \<notin> ?V" using inj_onD[OF Suc.prems(1), of n] by fastforce
  obtain e where "walk s ?v = Some e" using Suc.prems(2) by auto
  then have "walk s1 ?v = Some e" using s1(3)[of ?v] new by simp
  from freeMapping1_walk[OF s1(2) _ this] Suc.prems(2) obtain s2 where
    s2: "freeMapping1 ?v s1 = Inr s2" "tables_ok s2" "walk s2 ?v = None"
      "\<And>u. vpage u \<noteq> vpage ?v \<Longrightarrow> walk s2 u = walk s1 u" by auto
  have "walk s2 u = (if vpage u \<in> insert (vpage ?v) ?V then None else walk s u)" for u
  proof (cases "vpage u = vpage ?v")
    case True
    have "walk s2 u = walk s2 ?v" by (rule walk_vpage[OF True])
    then show ?thesis using True s2(3) by simp
  next
    case False
    then show ?thesis using s2(4)[OF False] s1(3)[of u] by simp
  qed
  moreover have "freeMapping v (Suc n) s = Inr s2"
    using s1(1) s2(1) by (simp add: freeMapping_def for_range_last)
  ultimately show ?case using s2(2) by (simp add: lessThan_Suc)
qed

subsection \<open>2M pages\<close>

lemma tbl_entry_upd:
  assumes ok: "tables_ok s" and xs: "vpath xs" "tbl s xs = Some p" and ys: "vpath ys" "length ys \<le> length xs"
  shows "tbl (page_upd p i e s) ys = tbl s ys"
  using ys
proof (induction ys)
  case Nil
  then show ?case by simp
next
  case (Cons j ys)
  have v: "vpath ys" using Cons.prems by (auto simp: vpath_def)
  show ?case
  proof (cases "tbl s ys")
    case None
    then show ?thesis using Cons.IH[OF v] Cons.prems(2) by simp
  next
    case (Some q)
    then have "q \<noteq> p" using tables_okD(4)[OF ok v xs(1)] xs(2) Cons.prems(2) by auto
    then show ?thesis using Cons.IH[OF v] Cons.prems(2) Some by simp
  qed
qed

lemma freeMapping2M_step_keeps:
  assumes ok: "tables_ok s" and g: "freeMapping2M_step v i s = Inr s'"
    and ne: "getPDindex (v + of_nat i * 0x1000) \<noteq> getPDindex (v + of_nat i * 0x200000)"
  shows "large_mapped s' (v + of_nat i * 0x200000)"
proof -
  let ?v = "v + of_nat i * 0x200000" and ?w = "v + of_nat i * 0x1000"
  let ?i = "getPDindex ?v" and ?j = "getPDindex ?w"
  from g obtain PD s1 s2 e s3 s4 where g1: "getPDphy ?v s = Inr (PD, s1)"
    and a: "actTmp tmpPD PD s1 = Inr s2" and e: "win_get tmpPD ?i s2 = Inr e" "present e" "isSizeMega e"
    and m: "win_modify tmpPD ?j (\<lambda>e. Inr (set_present False e)) s2 = Inr s3"
      "win_modify tmpPD ?j (\<lambda>e. Inr (set_isSizeMega False e)) s3 = Inr s4"
    and s': "s' = freeTmp tmpPD s4"
    unfolding freeMapping2M_step_def Let_def by (auto simp: res_simps)
  note 1 = getPDphy_walk[OF ok g1]
  have ok1: "tables_ok s1" and t1: "tbl s1 (tl (path ?v)) = Some PD" using 1 by auto
  have ne1: "PD \<noteq> m_pPT s1"
  proof
    assume "PD = m_pPT s1"
    then have "tl (path ?v) = [0, 509, 511]" using tables_okD(6)[OF ok1 vpath_path(2)[of ?v]] t1 by simp
    then show False by (simp add: path_def)
  qed
  have fr: "slots_free s1" using tables_okD(1)[OF ok1] by (simp add: windows_ok_def)
  obtain e1 where e1: "activeAddr PD (slot s1 tmpPD) = Inr e1" "s2 = page_upd (m_pPT s1) tmpPD e1 s1"
    using a by (auto simp: actTmp_ok)
  note a1 = activeAddr_ok(1,2)[OF e1(1)]
  have e': "e = m_mem s1 PD ?i" using e(1) e1 a1 ne1 by (simp add: win_get_ok)
  obtain x where s3: "s3 = page_upd PD ?j x s2" using m(1) e1 a1 by (auto simp: win_modify_ok)
  obtain y where s4: "s4 = page_upd PD ?j y s3" using m(2) e1 a1 s3 ne1 by (auto simp: win_modify_ok)
  have "slots_eq (page_upd PD ?j y s1) s'" "slots_free s'"
    using fr ne1 e1 s3 s4 s' by (auto simp: slots_eq_def freeTmp_eq slots_free_def tmp_slots_def)
  then have se: "seen_eq (page_upd PD ?j y s1) s'"
    using fr ne1 by (intro slots_seen_eq) (simp_all add: slots_free_def)
  have "tbl (page_upd PD ?j y s1) (tl (path ?v)) = Some PD"
    using tbl_entry_upd[OF ok1 _ t1, of "tl (path ?v)"] t1 by simp
  then have "tbl s' (tl (path ?v)) = Some PD" using tbl_seen_eq[OF se] by simp
  moreover have "m_mem s' PD ?i = e"
    using ne ne1 e1 s3 s4 s' e' by (simp add: freeTmp_eq)
  ultimately show ?thesis using e by (simp add: large_mapped_def)
qed

lemma getPDindex_nat: "getPDindex a = unat a div 0x200000 mod 512"
proof -
  have "(push_bit 9 1 - 1 :: u64) = mask 9" by (simp add: mask_eq_exp_minus_1 push_bit_eq_mult)
  then have "drop_bit 21 a AND (push_bit 9 1 - 1) = take_bit 9 (drop_bit 21 a)" by (simp add: take_bit_eq_mask)
  then have "getPDindex a = take_bit 9 (unat (drop_bit 21 a))"
    by (simp only: getPDindex_def unsigned_take_bit_eq)
  also have "unat (drop_bit 21 a) = unat a div 2 ^ 21" by (simp only: unat_drop_bit_eq drop_bit_eq_div[where ?'a = nat])
  finally show ?thesis by (simp add: take_bit_eq_mod)
qed

lemma getPDindex_2M:
  assumes "v AND (push_bit 21 1 - 1) = 0" "0 < i" "i < 512"
  shows "getPDindex (v + of_nat i * 0x1000) \<noteq> getPDindex (v + of_nat i * 0x200000)"
proof -
  have "(push_bit 21 1 - 1 :: u64) = mask 21" by (simp add: mask_eq_exp_minus_1 push_bit_eq_mult)
  then have "take_bit 21 v = 0" using assms(1) by (simp add: take_bit_eq_mask)
  then have "take_bit 21 (unat v) = 0" by (metis unsigned_take_bit_eq unsigned_0)
  then have "unat v mod 2 ^ 21 = 0" by (simp only: take_bit_eq_mod)
  then have "unat v mod 0x200000 = 0" by simp
  then obtain q where q: "unat v = 0x200000 * q" using mod_0_imp_dvd by blast
  have q2: "q < 2 ^ 43" using unsigned_less[where ?'a = nat and w = v] q by simp
  have e1: "of_nat i * 0x1000 = (of_nat (i * 0x1000) :: u64)" by simp
  have e2: "of_nat i * 0x200000 = (of_nat (i * 0x200000) :: u64)" by simp
  have "unat (v + of_nat i * 0x1000) = 0x200000 * q + i * 0x1000"
    unfolding e1 using q q2 assms(3) unat_add_small[of v "i * 0x1000"] by simp
  moreover have "(0x200000 * q + i * 0x1000) div 0x200000 = q"
    using assms(3) by (intro div_nat_eqI) simp_all
  ultimately have l: "getPDindex (v + of_nat i * 0x1000) = q mod 512" by (simp add: getPDindex_nat)
  have "unat (v + of_nat i * 0x200000) = (0x200000 * (q + i)) mod 2 ^ 64"
  proof -
    have len_64: "LENGTH(64) = 64" by simp
    have "unat (v + of_nat (i * 0x200000)) = (unat v + i * 0x200000 mod 2 ^ 64) mod 2 ^ 64"
      by (simp only: unat_word_ariths(1) unat_of_nat len_64)
    also have "\<dots> = (0x200000 * (q + i)) mod 2 ^ 64"
      unfolding mod_add_right_eq q by (simp only: add_mult_distrib mult.commute)
    finally show ?thesis unfolding e2 .
  qed
  also have "(2 ^ 64 :: nat) = 0x200000 * 2 ^ 43" by simp
  also have "0x200000 * (q + i) mod (0x200000 * 2 ^ 43) = 0x200000 * ((q + i) mod 2 ^ 43)"
    by (simp only: mult_mod_right)
  finally have "unat (v + of_nat i * 0x200000) div 0x200000 = (q + i) mod 2 ^ 43" by simp
  then have "getPDindex (v + of_nat i * 0x200000) = (q + i) mod 2 ^ 43 mod 512"
    by (simp only: getPDindex_nat)
  also have "\<dots> = (q + i) mod 512"
  proof -
    have "(2 ^ 43 :: nat) = 512 * 2 ^ 34" by simp
    then show ?thesis by (metis mod_mod_cancel dvd_triv_left)
  qed
  finally have r: "getPDindex (v + of_nat i * 0x200000) = (q + i) mod 512" .
  have "\<not> 512 dvd i" using assms(2,3) by (rule nat_dvd_not_less)
  then have "(q + i) mod 512 \<noteq> q mod 512" by (simp add: mod_eq_dvd_iff_nat)
  then show ?thesis unfolding l r by simp
qed

subsection \<open>An example\<close>

text \<open>The 2M region of the windows.\<close>

definition virtTables :: u64 where
  "virtTables = - 0xC0000000"


definition demo_mem :: "u64 \<Rightarrow> nat \<Rightarrow> u64" where
  "demo_mem p i =
     (if p = 0x101000 \<and> i = 511 then 0x102007 else if p = 0x101000 \<and> i = 0 then 0x105007
      else if p = 0x102000 \<and> i = 509 then 0x103007 else if p = 0x103000 \<and> i = 0 then 0x104007
      else if p = 0x104000 \<and> i = 0 then 0x101007 else if p = 0x105000 \<and> i = 0 then 0x106007
      else if p = 0x104000 \<and> i = 6 then 0x105007 else if p = 0x104000 \<and> i = 7 then 0x106007
      else if p = 0x106000 \<and> i = 0 then 0x107007 else if p = 0x106000 \<and> i = 1 then 0x200087
      else if p = 0x106000 \<and> i = 2 then 0x400087 else new_entry)"

definition demo_m :: machine where
  "demo_m = \<lparr>m_mem = demo_mem, m_pPT = 0x104000, m_cr3 = 0x101000, m_phys = demo_pm\<rparr>"

lemma demo_bits:
  "present (6 :: u64) = False" "present (0x101007 :: u64)" "present (0x102007 :: u64)" "present (0x103007 :: u64)"
  "present (0x104007 :: u64)" "present (0x105007 :: u64)"
  "present (0x106007 :: u64)" "present (0x107007 :: u64)" "present (0x200087 :: u64)" "present (0x400087 :: u64)"
  "getAddr 0x101007 = 0x101000" "getAddr 0x102007 = 0x102000" "getAddr 0x103007 = 0x103000"
  "getAddr 0x104007 = 0x104000" "getAddr 0x105007 = 0x105000"
  "getAddr 0x106007 = 0x106000" "getAddr 0x107007 = 0x107000" "getAddr 6 = 0"
  "\<not> isSizeMega 6" "\<not> isSizeMega 0x104007" "\<not> isSizeMega 0x107007" "isSizeMega 0x200087" "isSizeMega 0x400087"
  by code_simp+

lemma demo_tbl:
  "length xs \<le> 3 \<Longrightarrow> tbl demo_m xs = (if xs = [] then Some 0x101000 else if xs = [0] then Some 0x105000
     else if xs = [511] then Some 0x102000 else if xs = [509, 511] then Some 0x103000
     else if xs = [0, 0] then Some 0x106000 else if xs = [0, 0, 0] then Some 0x107000
     else if xs = [0, 509, 511] then Some 0x104000 else None)"
proof (induction xs)
  case Nil
  then show ?case by (simp add: demo_m_def)
next
  case (Cons i xs)
  then have "length xs \<le> 3" by simp
  note IH = Cons.IH[OF this]
  show ?case using IH Cons.prems
    by (auto simp: demo_m_def demo_mem_def Let_def new_entry_eq demo_bits)
qed

lemma demo_pPT: "m_pPT demo_m = 0x104000"
  by (simp add: demo_m_def)

lemma demo_free: "free_frames demo_pm \<subseteq> {256..<1024}"
proof
  fix k assume "k \<in> free_frames demo_pm"
  then have "k < 1024" "bits_of (pm_bitset demo_pm) k" by (simp_all add: free_frames_def demo_pm_def)
  then show "k \<in> {256..<1024}"
    by (cases "k < 256") (simp_all add: bits_of_def demo_pm_def nth_append div_less_iff_less_mult)
qed

lemma demo_used: "p \<in> {0x101000, 0x102000, 0x103000, 0x104000, 0x105000, 0x106000, 0x107000} \<Longrightarrow> used_page demo_m p"
proof -
  assume p: "p \<in> {0x101000, 0x102000, 0x103000, 0x104000, 0x105000, 0x106000, 0x107000}"
  have "p \<noteq> frame_addr k" if "k \<in> free_frames demo_pm" for k
  proof
    assume e: "p = frame_addr k"
    have k: "256 \<le> k" "k < 1024" using that demo_free by auto
    have "unat (frame_addr k) = 0x100000 + 0x1000 * k" using k by (intro unat_frame_addr) simp
    then have "0x200000 \<le> unat p" unfolding e using k by simp
    moreover have "unat p < 0x200000" using p by auto
    ultimately show False by simp
  qed
  then show "used_page demo_m p" by (auto simp: used_page_def demo_m_def)
qed

lemma demo_ok: "tables_ok demo_m"
  unfolding tables_ok_def
proof (intro conjI allI impI)
  show "windows_ok demo_m"
    by (simp add: windows_ok_def slots_free_def tmp_slots_def slot_def demo_m_def demo_mem_def new_entry_eq demo_bits)
  show "pm_wf (m_phys demo_m)" using demo_pm_wf by (simp add: demo_m_def)
  show "used_page demo_m (m_pPT demo_m)" using demo_used by (simp add: demo_m_def)
next
  fix xs ys p assume "vpath xs \<and> vpath ys \<and> tbl demo_m xs = Some p \<and> tbl demo_m ys = Some p"
  then show "xs = ys" by (auto simp: demo_tbl vpath_def split: if_splits)
next
  fix xs p assume "vpath xs \<and> tbl demo_m xs = Some p"
  then show "used_page demo_m p" using demo_used[of p] by (auto simp: demo_tbl vpath_def split: if_splits)
next
  fix xs assume "vpath xs \<and> tbl demo_m xs = Some (m_pPT demo_m)"
  then show "xs = [0, 509, 511]" by (auto simp: demo_tbl vpath_def demo_pPT split: if_splits)
next
  fix xs p i assume "vpath xs \<and> length xs = 2 \<and> tbl demo_m xs = Some p \<and> i < 512 \<and> \<not> present (m_mem demo_m p i)"
  then show "\<not> isSizeMega (m_mem demo_m p i)"
    by (auto simp: demo_tbl vpath_def demo_m_def demo_mem_def new_entry_eq demo_bits split: if_splits)
next
  fix i assume "i < (512 :: nat)" "getAddr (m_mem demo_m (m_cr3 demo_m) i) \<noteq> 0"
  then show "present (m_mem demo_m (m_cr3 demo_m) i)"
    by (auto simp: demo_m_def demo_mem_def new_entry_eq demo_bits split: if_splits)
next
  fix xs assume "vpath xs"
  then show "tbl demo_m xs \<noteq> Some 0" by (auto simp: demo_tbl vpath_def)
qed

lemma path_windows: "path virtTables = [0, 509, 511]"
  by code_simp

lemma not_windows: "path v \<noteq> path virtTables \<Longrightarrow> path v \<noteq> [0, 509, 511]"
  by (simp add: path_windows)

lemma createMapping_no_table:
  assumes ok: "tables_ok s" and nz: "pdp_of s v = 0"
  shows "getPDphy v s = Inl Bsod"
  using tables_okD(1)[OF ok] nz index_bound(1)[of v]
  by (simp add: getPDphy_def getPDPphy_def getPDPphyu_def pdp_of_def windows_ok_def win_get_def window_def)

lemma createMapping_twice:
  assumes ok: "tables_ok s" and out: "path v \<noteq> [0, 509, 511]" and m: "walk s v = Some e"
  shows "bnd (getPTphy v s) (\<lambda>(PT, s). map_step phy v wt PT s) = Inl Bsod"
proof -
  from m obtain PT where t: "tbl s (path v) = Some PT" 
    by (auto simp: walk_def split: option.splits)
  from pt_step_present[OF ok t] obtain PD where d: "tbl s (tl (path v)) = Some PD" by blast
  obtain s1 where g1: "getPDphy v s = Inr (PD, s1)" using getPDphy_present[OF ok d] by blast
  note 1 = getPDphy_walk[OF ok g1]
  have nl: "\<not> large_mapped s v" by (rule walk_not_large[OF m])
  have ok1: "tables_ok s1" and t1: "tbl s1 (tl (path v)) = Some PD" and nl1: "\<not> large_mapped s1 v"
    using 1 nl by auto
  have m1: "walk s1 v = Some e" using 1 m by simp
  then obtain PT1 where t1': "tbl s1 (path v) = Some PT1" by (auto simp: walk_def split: option.splits)
  obtain s2 where g2: "pt_step v PD s1 = Inr (PT1, s2)" using pt_step_present[OF ok1 t1'] t1 by auto
  note 2 = pt_step_walk[OF ok1 t1 nl1 out g2]
  have ok2: "tables_ok s2" and t2: "tbl s2 (path v) = Some PT1" and m2: "walk s2 v = Some e" using 2 m1 by auto
  have pr: "present (m_mem s2 PT1 (getPTindex v))"
    using m2 t2 by (auto simp: walk_def Let_def split: if_splits)
  have pp: "PT1 \<noteq> m_pPT s2" using tables_okD(6)[OF ok2 vpath_path(1)] t2 out by auto
  have fr: "slots_free s2" using tables_okD(1)[OF ok2] by (simp add: windows_ok_def)
  have pg: "PT1 AND NOT addr_mask = 0" by (rule tbl_page[OF t2]) (simp add: path_def)
  obtain e1 where a: "actTmp tmpPT PT1 s2 = Inr (page_upd (m_pPT s2) tmpPT e1 s2)" "present e1" "getAddr e1 = PT1"
    using act_page[OF fr _ pg] by (auto simp: tmp_slots_def)
  have "win_get tmpPT (getPTindex v) (page_upd (m_pPT s2) tmpPT e1 s2) = Inr (m_mem s2 PT1 (getPTindex v))"
    using a pp index_bound(4)[of v] by (simp add: win_get_ok)
  then have "map_step phy v wt PT1 s2 = Inl Bsod" unfolding map_step_def a(1) using pr by simp
  then show ?thesis using g1 g2 by (simp add: getPTphy_eq)
qed

lemma freeMapping2M_step_total:
  assumes ok: "tables_ok s" and m: "large_mapped s (v + of_nat i * 0x200000)"
  shows "\<exists>s'. freeMapping2M_step v i s = Inr s'"
proof -
  let ?v = "v + of_nat i * 0x200000" and ?w = "v + of_nat i * 0x1000"
  let ?i = "getPDindex ?v" and ?j = "getPDindex ?w"
  from m obtain PD where t: "tbl s (tl (path ?v)) = Some PD" by (auto simp: large_mapped_def split: option.splits)
  obtain s1 where g1: "getPDphy ?v s = Inr (PD, s1)" using getPDphy_present[OF ok t] by blast
  note 1 = getPDphy_walk[OF ok g1]
  have ok1: "tables_ok s1" and t1: "tbl s1 (tl (path ?v)) = Some PD" and m1: "large_mapped s1 ?v" using 1 m by auto
  have e: "present (m_mem s1 PD ?i)" "isSizeMega (m_mem s1 PD ?i)" using t1 m1 by (auto simp: large_mapped_def Let_def)
  have ne1: "PD \<noteq> m_pPT s1"
  proof
    assume "PD = m_pPT s1"
    then have "tl (path ?v) = [0, 509, 511]" using tables_okD(6)[OF ok1 vpath_path(2)[of ?v]] t1 by simp
    then show False by (simp add: path_def)
  qed
  have fr: "slots_free s1" using tables_okD(1)[OF ok1] by (simp add: windows_ok_def)
  have pg: "PD AND NOT addr_mask = 0" by (rule tbl_page[OF t1]) (simp add: path_def)
  obtain e1 where a: "actTmp tmpPD PD s1 = Inr (page_upd (m_pPT s1) tmpPD e1 s1)" "present e1" "getAddr e1 = PD"
    using act_page[OF fr _ pg] by (auto simp: tmp_slots_def)
  let ?s2 = "page_upd (m_pPT s1) tmpPD e1 s1"
  have g: "win_get tmpPD ?i ?s2 = Inr (m_mem s1 PD ?i)"
    using a ne1 index_bound(3)[of ?v] by (simp add: win_get_ok)
  obtain s3 where 3: "win_modify tmpPD ?j (\<lambda>e. Inr (set_present False e)) ?s2 = Inr s3"
    and p3: "present (slot s3 tmpPD)"
    using a ne1 index_bound(3)[of ?w] by (auto simp: win_modify_ok)
  obtain s4 where "win_modify tmpPD ?j (\<lambda>e. Inr (set_isSizeMega False e)) s3 = Inr s4"
    using p3 index_bound(3)[of ?w] by (auto simp: win_modify_ok)
  then show ?thesis unfolding freeMapping2M_step_def Let_def using g1 a(1) g e 3 by simp
qed

lemma demo_visible: "2 \<le> card (visible_free (m_phys demo_m))"
proof -
  have "{256, 257} \<subseteq> visible_free (m_phys demo_m)"
    by (auto simp: visible_free_def free_frames_def pm_visible_def scanned_def demo_m_def demo_pm_def bits_of_def nth_append)
  moreover have "finite (visible_free (m_phys demo_m))"
    by (rule finite_subset[of _ "{..< pm_visible (m_phys demo_m)}"]) (auto simp: visible_free_def)
  ultimately have "card {256, 257 :: nat} \<le> card (visible_free (m_phys demo_m))" by (rule card_mono[rotated])
  then show ?thesis by simp
qed

lemma demo_map: "\<exists>s'. createMapping 0xB8000 0x40000000 wt demo_m = Inr s'"
  by (rule createMapping_total[OF demo_ok _ not_windows _ _ _ demo_visible]; code_simp)

section \<open>The properties\<close>



text \<open>\<open>createMapping\<close> refuses with the blue screen a physical or virtual address that is not
  page aligned, a physical address of more than 52 bits, a top level entry without table,
  and a virtual page that is mapped already.
\<close>

theorem createMapping_rejects:
  assumes "tables_ok s" "path virt \<noteq> path virtTables"
    and "phy AND (push_bit 12 1 - 1) \<noteq> 0 \<or> virt AND (push_bit 12 1 - 1) \<noteq> 0 \<or> drop_bit 52 phy \<noteq> 0
      \<or> pdp_of s virt = 0 \<or> walk s virt \<noteq> None"
  shows "createMapping phy virt wt s = Inl Bsod"
proof (cases "phy AND (push_bit 12 1 - 1) \<noteq> 0 \<or> virt AND (push_bit 12 1 - 1) \<noteq> 0 \<or> drop_bit 52 phy \<noteq> 0")
  case True
  then show ?thesis by (auto simp: createMapping_def)
next
  case False
  then have "pdp_of s virt = 0 \<or> walk s virt \<noteq> None" using assms(3) by simp
  then show ?thesis
    using createMapping_no_table[OF assms(1)] createMapping_twice[OF assms(1)] assms(2) False
    by (auto simp: createMapping_eq path_windows getPTphy_eq)
qed

theorem createMapping_rejects_witness:
  "createMapping 0xB8001 0x40000000 False demo_m = Inl Bsod"
  by (rule createMapping_rejects[OF demo_ok]) code_simp+





text \<open>\<open>freeMapping2M\<close> checks the entry of \<open>virt + i * 0x200000\<close> but clears the one of
  \<open>virt + i * 0x1000\<close>: after a round with \<open>0 < i < 512\<close> the 2M page it was to free is still
  mapped.
\<close>

theorem freeMapping2M_keeps_page:
  assumes "tables_ok s" "virt AND (push_bit 21 1 - 1) = 0" "0 < i" "i < 512"
    and "large_mapped s (virt + of_nat i * 0x200000)"
  shows "\<exists>s'. freeMapping2M_step virt i s = Inr s' \<and> large_mapped s' (virt + of_nat i * 0x200000)"
  using freeMapping2M_step_total[OF assms(1,5)]
    freeMapping2M_step_keeps[OF assms(1) _ getPDindex_2M[OF assms(2-4)]] by blast

theorem freeMapping2M_keeps_page_witness:
  "\<exists>s'. freeMapping2M_step 0x200000 1 demo_m = Inr s' \<and> large_mapped s' 0x400000"
proof -
  have "large_mapped demo_m (0x200000 + of_nat 1 * 0x200000)" "0x200000 AND (push_bit 21 1 - 1) = (0 :: u64)"
    by code_simp+
  then show ?thesis using freeMapping2M_keeps_page[OF demo_ok, of "0x200000" 1] by simp
qed

end
