(* ===== verification/UserMem.thy ===== *)
theory UserMem
  imports Paging
begin

text \<open>
  What is built on \<open>Paging\<close>: the page heap (\<open>src/src/Memory/PageHeap.cpp\<close>), the heaps of the
  kernel and of processes (\<open>Heap.cpp\<close>) and user address spaces (\<open>UserMemory.cpp\<close>).

  The state \<open>kmem\<close> adds the bitset of the page heap to the machine of \<open>Paging\<close>. A page that
  the page heap mapped is read and written through its virtual address: \<open>vget\<close> and \<open>vset\<close>
  translate it by \<open>walk\<close>, and an unmapped address is a fault. \<open>DumpTree\<close> returns at once
  under the log levels of \<open>log.h\<close> (\<open>serLvls[Proc] = Info\<close>).
\<close>

record kmem =
  km_m :: machine
  km_ph :: bitset

definition on_m :: "(machine \<Rightarrow> machine res) \<Rightarrow> kmem \<Rightarrow> kmem res" where
  "on_m f k = bnd (f (km_m k)) (\<lambda>m. Inr (k\<lparr>km_m := m\<rparr>))"

definition get_m :: "(machine \<Rightarrow> 'a res) \<Rightarrow> kmem \<Rightarrow> 'a res" where
  "get_m f k = f (km_m k)"

definition run_m :: "(machine \<Rightarrow> ('a \<times> machine) res) \<Rightarrow> kmem \<Rightarrow> ('a \<times> kmem) res" where
  "run_m f k = bnd (f (km_m k)) (\<lambda>(x, m). Inr (x, k\<lparr>km_m := m\<rparr>))"

definition on_ph :: "(bitset \<Rightarrow> bitset res) \<Rightarrow> kmem \<Rightarrow> kmem res" where
  "on_ph f k = bnd (f (km_ph k)) (\<lambda>b. Inr (k\<lparr>km_ph := b\<rparr>))"

section \<open>The page heap\<close>

definition phBitset :: u64 where
  "phBitset = - 0xB0000000 - 0x2000"

definition ph_base :: u64 where
  "ph_base = - 0xC0000000 - 0x1000"

definition ph_ialloc :: "u64 \<Rightarrow> kmem \<Rightarrow> (u64 \<times> kmem) res" where
  "ph_ialloc phy k =
     bnd (bs_bsf (km_ph k)) (\<lambda>i.
     bnd (on_ph (\<lambda>b. bs_unset b i) k) (\<lambda>k. assertk (i \<noteq> - 1)
     (let addr = ph_base - i * 0x1000 in
     bnd (on_m (createMapping phy addr False) k) (\<lambda>k. Inr (addr, k)))))"

definition ph_ialloc_n :: "u64 \<Rightarrow> nat \<Rightarrow> kmem \<Rightarrow> (u64 \<times> kmem) res" where
  "ph_ialloc_n phy nb k =
     bnd (bs_largeBsf (km_ph k) nb) (\<lambda>i. assertk (i \<noteq> - 1)
     (bnd (for_range (\<lambda>j. on_ph (\<lambda>b. bs_unset b (i + of_nat j))) 0 nb k) (\<lambda>k.
      let addr = ph_base - i * 0x1000 in
      bnd (on_m (createMappings phy addr nb False) k) (\<lambda>k. Inr (addr, k)))))"

text \<open>\<open>mem\<close>: what the freshly mapped page holds.\<close>

definition ph_init :: "u64 list \<Rightarrow> kmem \<Rightarrow> kmem res" where
  "ph_init mem k =
     bnd (run_m palloc k) (\<lambda>(p, k).
     bnd (on_m (createMapping p phBitset False) k) (\<lambda>k.
     bnd (on_ph (\<lambda>_. bs_fill (bs_init mem 0x1000)) k) (\<lambda>k.
     on_ph (\<lambda>b. bs_ref_assign b 0 False) k)))"

definition ph_free :: "u64 \<Rightarrow> kmem \<Rightarrow> kmem res" where
  "ph_free virt k =
     (let pos = (ph_base - virt) div 0x1000 in assertk (pos < 0x1000)
     (bnd (on_m (freeMapping virt 1) k) (\<lambda>k.
      on_ph (\<lambda>b. bs_set b pos) k)))"

definition ph_free_n :: "u64 \<Rightarrow> nat \<Rightarrow> kmem \<Rightarrow> kmem res" where
  "ph_free_n virt nb k =
     (let pos = (ph_base - virt) div 0x1000 in assertk (pos < 0x1000)
     (bnd (on_m (freeMapping virt nb) k) (\<lambda>k.
      for_range (\<lambda>j. on_ph (\<lambda>b. bs_set b (pos + of_nat j))) 0 nb k)))"

section \<open>Heaps\<close>

record heap =
  virtAddrStart :: u64
  Brk :: u64

definition heap_new :: heap where
  "heap_new = \<lparr>virtAddrStart = 0, Brk = 0\<rparr>"

definition heap_init :: "u64 \<Rightarrow> heap \<Rightarrow> u64 \<times> heap" where
  "heap_init startAddr h =
     (let a = (startAddr + 0x1000 - 1) div 0x1000 * 0x1000 in (a, h\<lparr>Brk := 0, virtAddrStart := a\<rparr>))"

text \<open>\<open>to_int x\<close>: the conversion of a 64 bit value to \<open>int\<close>.\<close>

definition to_int :: "u64 \<Rightarrow> int" where
  "to_int x = sint (ucast x :: u32)"

definition heap_grow :: "u64 \<Rightarrow> nat \<Rightarrow> kmem \<Rightarrow> kmem res" where
  "heap_grow startAddr n = for_range (\<lambda>i k.
     bnd (run_m palloc k) (\<lambda>(phy, k).
     on_m (createMapping phy (startAddr + of_nat i * 0x1000) False) k)) 0 n"

definition heap_brk :: "u64 \<Rightarrow> heap \<Rightarrow> kmem \<Rightarrow> (u64 \<times> heap \<times> kmem) res" where
  "heap_brk addr h k =
     (if addr = 0 then Inr (virtAddrStart h, h, k)
      else assertk (addr \<ge> virtAddrStart h)
        (let dist = addr - virtAddrStart h in
         if dist > Brk h then
           let nbNewPages = to_int ((dist - Brk h + 0x1000 - 1) div 0x1000);
               startAddr = virtAddrStart h + Brk h in
           bnd (heap_grow startAddr (nat nbNewPages) k) (\<lambda>k.
           Inr (0, h\<lparr>Brk := Brk h + of_int (nbNewPages * 0x1000)\<rparr>, k))
         else if dist + 0x1000 < Brk h then
           let nbPages = to_int ((Brk h - dist) div 0x1000) in
           bnd (on_m (freeMappingAndPhy (virtAddrStart h + Brk h - of_int (nbPages * 0x1000)) (nat nbPages)) k) (\<lambda>k.
           Inr (0, h\<lparr>Brk := Brk h - of_int (nbPages * 0x1000)\<rparr>, k))
         else Inr (0, h, k)))"

section \<open>User address spaces\<close>

text \<open>A \<open>UserMemory\<close> is its \<open>_PDP\<close>.\<close>

definition um_new :: "machine \<Rightarrow> (u64 \<times> machine) res" where
  "um_new s =
     bnd (palloc s) (\<lambda>(PDP, s).
     bnd (actTmp tmpPDP PDP s) (\<lambda>s.
     bnd (win_clear tmpPDP s) (\<lambda>s.
     bnd (palloc s) (\<lambda>(phyPD, s).
     bnd (actTmp tmpPD phyPD s) (\<lambda>s.
     bnd (win_clear tmpPD s) (\<lambda>s.
     bnd (win_modify tmpPDP 0 (activeAddr phyPD) s) (\<lambda>s.
     bnd (win_get firstPD 0 s) (\<lambda>e. assertk (getAddr e \<noteq> 0)
    (bnd (win_modify tmpPD 0 (activeAddr (getAddr e)) s) (\<lambda>s.
     Inr (PDP, freeTmp tmpPDP (freeTmp tmpPD s))))))))))))"

definition um_activate :: "u64 \<Rightarrow> machine \<Rightarrow> machine res" where
  "um_activate PDP = switchUser PDP"

definition um_freePages :: "u64 \<Rightarrow> machine \<Rightarrow> machine res" where
  "um_freePages PT s =
     bnd (actTmp tmpPT PT s) (\<lambda>s.
     bnd (for_range (\<lambda>i s.
       bnd (win_get tmpPT i s) (\<lambda>e.
         if present e then assertk (getAddr e \<noteq> 0) (pfree (getAddr e) s) else Inr s)) 0 512 s) (\<lambda>s.
     Inr (freeTmp tmpPT s)))"

definition um_freePTs :: "u64 \<Rightarrow> bool \<Rightarrow> machine \<Rightarrow> machine res" where
  "um_freePTs PD start s =
     bnd (actTmp tmpPD PD s) (\<lambda>s.
     bnd (for_range (\<lambda>i s.
       bnd (win_get tmpPD i s) (\<lambda>e.
         if present e then
           if getAddr e = 0 then Inl Bsod
           else bnd (um_freePages (getAddr e) s) (\<lambda>s.
                bnd (win_get tmpPD i s) (\<lambda>e.
                bnd (pfree (getAddr e) s) (\<lambda>s.
                if start then win_modify tmpPD i (\<lambda>e. Inr (set_present False e)) s else Inr s)))
         else Inr s)) (if start then 1 else 0) 512 s) (\<lambda>s.
     Inr (freeTmp tmpPD s)))"

definition um_freePDs :: "u64 \<Rightarrow> machine \<Rightarrow> machine res" where
  "um_freePDs PDP s =
     bnd (actTmp tmpPDP PDP s) (\<lambda>s.
     bnd (win_get tmpPDP 0 s) (\<lambda>e.
     bnd (um_freePTs (getAddr e) True s) (\<lambda>s.
     bnd (for_range (\<lambda>i s.
       bnd (win_get tmpPDP i s) (\<lambda>e.
         if present e then
           let PD = getAddr e in assertk (PD \<noteq> 0)
          (bnd (um_freePTs PD False s) (\<lambda>s.
           bnd (pfree PD s) (\<lambda>s.
           win_modify tmpPDP i (\<lambda>e. Inr (set_present False e)) s)))
         else Inr s)) 1 512 s) (\<lambda>s.
     Inr (freeTmp tmpPDP s)))))"

definition um_clear :: "u64 \<Rightarrow> machine \<Rightarrow> machine res" where
  "um_clear PDP s = assertk (PDP \<noteq> getAddr (slot s 6))
     (bnd (win_get PML4 0 s) (\<lambda>e.
      bnd (if PDP = getAddr e then switchUser (getAddr (slot s 6)) s else Inr s) (\<lambda>s.
      um_freePDs PDP s)))"

definition um_destroy :: "u64 \<Rightarrow> machine \<Rightarrow> machine res" where
  "um_destroy PDP s =
     bnd (um_clear PDP s) (\<lambda>s.
     bnd (actTmp tmpPDP PDP s) (\<lambda>s.
     bnd (win_get tmpPDP 0 s) (\<lambda>e.
     bnd (pfree (getAddr e) s) (\<lambda>s.
     pfree PDP (freeTmp tmpPDP s)))))"

text \<open>Access through an address the page heap returned.\<close>

definition vget :: "u64 \<Rightarrow> nat \<Rightarrow> kmem \<Rightarrow> u64 res" where
  "vget v i k = (case walk (km_m k) v of None \<Rightarrow> Inl NullAccess
     | Some e \<Rightarrow> check (i < 512) OutOfBounds (Inr (m_mem (km_m k) (getAddr e) i)))"

definition vset :: "u64 \<Rightarrow> nat \<Rightarrow> u64 \<Rightarrow> kmem \<Rightarrow> kmem res" where
  "vset v i x k = (case walk (km_m k) v of None \<Rightarrow> Inl NullAccess
     | Some e \<Rightarrow> check (i < 512) OutOfBounds (Inr (k\<lparr>km_m := page_upd (getAddr e) i x (km_m k)\<rparr>)))"

definition vmodify :: "u64 \<Rightarrow> nat \<Rightarrow> (u64 \<Rightarrow> u64 res) \<Rightarrow> kmem \<Rightarrow> kmem res" where
  "vmodify v i f k = bnd (vget v i k) (\<lambda>x. bnd (f x) (\<lambda>y. vset v i y k))"

text \<open>\<open>memcpy(dest, src, 0x1000)\<close>, a word at a time.\<close>

definition vcopy :: "u64 \<Rightarrow> u64 \<Rightarrow> kmem \<Rightarrow> kmem res" where
  "vcopy dest src = for_range (\<lambda>i k. bnd (vget src i k) (\<lambda>x. vset dest i x k)) 0 512"

definition um_copyPages :: "u64 \<Rightarrow> u64 \<Rightarrow> kmem \<Rightarrow> kmem res" where
  "um_copyPages PTdest PTsrc k = assertk (PTdest \<noteq> 0 \<and> PTsrc \<noteq> 0)
     (bnd (ph_ialloc PTsrc k) (\<lambda>(src, k).
      bnd (ph_ialloc PTdest k) (\<lambda>(dest, k).
      bnd (for_range (\<lambda>i k.
        bnd (vget src i k) (\<lambda>e.
          if present e then
            bnd (vset dest i e k) (\<lambda>k.
            bnd (run_m palloc k) (\<lambda>(newp, k).
            bnd (vget src i k) (\<lambda>e.
            let oldp = getAddr e in
            bnd (ph_ialloc oldp k) (\<lambda>(psrc, k).
            bnd (ph_ialloc newp k) (\<lambda>(pdest, k).
            bnd (vcopy pdest psrc k) (\<lambda>k.
            bnd (ph_free psrc k) (\<lambda>k.
            bnd (ph_free pdest k) (\<lambda>k.
            vmodify dest i (setAddr newp) k))))))))
          else vset dest i new_entry k)) 0 512 k) (\<lambda>k.
      bnd (ph_free src k) (\<lambda>k.
      ph_free dest k)))))"

definition um_copyPTs :: "u64 \<Rightarrow> u64 \<Rightarrow> bool \<Rightarrow> kmem \<Rightarrow> kmem res" where
  "um_copyPTs PDdest PDsrc start k = assertk (PDdest \<noteq> 0 \<and> PDsrc \<noteq> 0)
     (bnd (ph_ialloc PDsrc k) (\<lambda>(src, k).
      bnd (ph_ialloc PDdest k) (\<lambda>(dest, k).
      bnd (for_range (\<lambda>i k.
        bnd (vget src i k) (\<lambda>e.
          if present e then
            bnd (vset dest i e k) (\<lambda>k.
            bnd (run_m palloc k) (\<lambda>(newPT, k).
            bnd (vget src i k) (\<lambda>e.
            let oldPT = getAddr e in
            bnd (vmodify dest i (setAddr newPT) k) (\<lambda>k.
            um_copyPages newPT oldPT k))))
          else vset dest i new_entry k)) (if start then 1 else 0) 512 k) (\<lambda>k.
      bnd (ph_free src k) (\<lambda>k.
      ph_free dest k)))))"

definition um_copyPDs :: "u64 \<Rightarrow> u64 \<Rightarrow> kmem \<Rightarrow> kmem res" where
  "um_copyPDs PDPdest PDPsrc k = assertk (PDPdest \<noteq> 0 \<and> PDPsrc \<noteq> 0)
     (bnd (ph_ialloc PDPsrc k) (\<lambda>(src, k).
      bnd (ph_ialloc PDPdest k) (\<lambda>(dest, k).
      bnd (for_range (\<lambda>i k.
        bnd (vget src i k) (\<lambda>e.
          if present e then
            bnd (if i \<noteq> 0 then
                   bnd (vset dest i e k) (\<lambda>k.
                   bnd (run_m palloc k) (\<lambda>(newPD, k).
                   bnd (vmodify dest i (setAddr newPD) k) (\<lambda>k. Inr (newPD, k))))
                 else bnd (vget dest i k) (\<lambda>d. Inr (getAddr d, k))) (\<lambda>(newPD, k).
            assertk (newPD \<noteq> 0)
           (bnd (vget src i k) (\<lambda>e.
            um_copyPTs newPD (getAddr e) (i = 0) k)))
          else vset dest i new_entry k)) 0 512 k) (\<lambda>k.
      bnd (ph_free src k) (\<lambda>k.
      ph_free dest k)))))"

definition um_copy :: "u64 \<Rightarrow> kmem \<Rightarrow> (u64 \<times> kmem) res" where
  "um_copy other k =
     bnd (run_m um_new k) (\<lambda>(PDP, k).
     bnd (um_copyPDs PDP other k) (\<lambda>k. Inr (PDP, k)))"

definition um_assign :: "u64 \<Rightarrow> u64 \<Rightarrow> kmem \<Rightarrow> kmem res" where
  "um_assign PDP other k =
     bnd (on_m (um_clear PDP) k) (um_copyPDs PDP other)"

text \<open>The checks of the three \<open>print\<close> functions, which stop on a present entry set to 0.\<close>

definition um_printPages :: "u64 \<Rightarrow> kmem \<Rightarrow> kmem res" where
  "um_printPages PT k =
     bnd (ph_ialloc PT k) (\<lambda>(tPT, k).
     bnd (for_range (\<lambda>i k. bnd (vget tPT i k) (\<lambda>e.
       if present e \<and> getAddr e = 0 then Inl Bsod else Inr k)) 0 512 k) (\<lambda>k.
     ph_free tPT k))"

definition um_printPTs :: "u64 \<Rightarrow> bool \<Rightarrow> kmem \<Rightarrow> kmem res" where
  "um_printPTs PD start k =
     bnd (ph_ialloc PD k) (\<lambda>(tPD, k).
     bnd (for_range (\<lambda>i k. bnd (vget tPD i k) (\<lambda>e.
       if present e then if getAddr e = 0 then Inl Bsod else um_printPages (getAddr e) k
       else Inr k)) (if start then 1 else 0) 512 k) (\<lambda>k.
     ph_free tPD k))"

definition um_printPDs :: "u64 \<Rightarrow> kmem \<Rightarrow> kmem res" where
  "um_printPDs PDP k =
     bnd (ph_ialloc PDP k) (\<lambda>(tPDP, k).
     bnd (for_range (\<lambda>i k. bnd (vget tPDP i k) (\<lambda>e.
       if present e then if getAddr e = 0 then Inl Bsod else um_printPTs (getAddr e) (i = 0) k
       else Inr k)) 0 512 k) (\<lambda>k.
     ph_free tPDP k))"

text \<open>\<open>in\<close>: whether \<open>addr\<close> is mapped; every page it opened is closed on each way out.\<close>

definition um_in :: "u64 \<Rightarrow> u64 \<Rightarrow> kmem \<Rightarrow> (bool \<times> kmem) res" where
  "um_in PDP addr k =
     (if getPML4index addr \<noteq> 0 then Inr (False, k) else
      bnd (ph_ialloc PDP k) (\<lambda>(tPDP, k).
      bnd (vget tPDP (getPDPindex addr) k) (\<lambda>e.
      bnd (if \<not> present e then Inr (False, k) else
           bnd (ph_ialloc (getAddr e) k) (\<lambda>(tPD, k).
           bnd (vget tPD (getPDindex addr) k) (\<lambda>e.
           bnd (if \<not> present e then Inr (False, k) else
                bnd (ph_ialloc (getAddr e) k) (\<lambda>(tPT, k).
                bnd (vget tPT (getPTindex addr) k) (\<lambda>e.
                bnd (ph_free tPT k) (\<lambda>k. Inr (present e, k))))) (\<lambda>(r, k).
           bnd (ph_free tPD k) (\<lambda>k. Inr (r, k)))))) (\<lambda>(r, k).
      bnd (ph_free tPDP k) (\<lambda>k. Inr (r, k))))))"

section \<open>Properties of the heaps\<close>

lemma to_int_small: "unat x < 2 ^ 31 \<Longrightarrow> to_int x = int (unat x)"
  unfolding to_int_def
proof -
  assume a: "unat x < 2 ^ 31"
  have u: "unat (ucast x :: u32) = unat x"
    using a by (simp add: unsigned_ucast_eq take_bit_nat_eq_self)
  have "sint (ucast x :: u32) = signed_take_bit 31 (uint (ucast x :: u32))"
    by (simp add: sint_uint)
  also have "uint (ucast x :: u32) = int (unat x)" using u by (metis uint_nat)
  also have "signed_take_bit 31 (int (unat x)) = int (unat x)"
  proof (rule signed_take_bit_int_eq_self)
    have "int (unat x) < 2 ^ 31" using a by (metis of_nat_less_iff of_nat_numeral of_nat_power)
    then show "int (unat x) < 2 ^ 31" .
    have "0 \<le> int (unat x)" by (rule of_nat_0_le_iff)
    moreover have "- (2 ^ 31) \<le> (0 :: int)" by simp
    ultimately show "- (2 ^ 31) \<le> int (unat x)" by (rule order.trans[rotated])
  qed
  finally show "sint (ucast x :: u32) = int (unat x)" .
qed

definition heap_ok :: "heap \<Rightarrow> bool" where
  "heap_ok h \<longleftrightarrow> unat (Brk h) mod 0x1000 = 0 \<and> unat (Brk h) < 2 ^ 42"

lemma heap_brk_bounds:
  assumes ok: "heap_ok h" and a: "addr \<noteq> 0" "unat (addr - virtAddrStart h) < 2 ^ 42 - 0x1000"
    and r: "heap_brk addr h k = Inr (x, h', k')"
  shows "x = 0 \<and> addr \<ge> virtAddrStart h \<and> virtAddrStart h' = virtAddrStart h \<and> heap_ok h'
    \<and> unat (addr - virtAddrStart h) \<le> unat (Brk h') \<and> unat (Brk h') \<le> unat (addr - virtAddrStart h) + 0x1000"
proof -
  define dist where "dist = addr - virtAddrStart h"
  obtain b where b: "unat (Brk h) = 0x1000 * b" using ok by (auto simp: heap_ok_def)
  have b2: "b < 2 ^ 30" using ok b by (simp add: heap_ok_def)
  have d2: "unat dist < 2 ^ 42 - 0x1000" using a(2) by (simp add: dist_def)
  have ge: "addr \<ge> virtAddrStart h" using r a(1) by (auto simp: heap_brk_def res_simps)
  consider (grow) "dist > Brk h" | (shrink) "\<not> dist > Brk h" "dist + 0x1000 < Brk h"
    | (keep) "\<not> dist > Brk h" "\<not> dist + 0x1000 < Brk h" by blast
  then show ?thesis
  proof cases
    case grow
    define n where "n = (unat dist - 0x1000 * b + 0xFFF) div 0x1000"
    have lt: "0x1000 * b < unat dist" using grow b by (simp add: word_less_nat_alt)
    have s: "unat (dist - Brk h) = unat dist - 0x1000 * b" using lt b by (simp add: unat_sub word_le_nat_alt)
    have e: "dist - Brk h + 0x1000 - 1 = dist - Brk h + of_nat 0xFFF" by simp
    have "unat (dist - Brk h + 0x1000 - 1) = unat dist - 0x1000 * b + 0xFFF"
      unfolding e using s d2 by (subst unat_add_small) simp_all
    then have u: "unat ((dist - Brk h + 0x1000 - 1) div 0x1000) = n" by (simp add: unat_div n_def)
    have n2: "n < 2 ^ 31" using d2 by (simp add: n_def div_less_iff_less_mult)
    have i: "to_int ((dist - Brk h + 0x1000 - 1) div 0x1000) = int n"
      using to_int_small[OF n2[folded u]] unfolding u .
    have h': "h' = h\<lparr>Brk := Brk h + of_nat n * 0x1000\<rparr>" "x = 0"
      using r a(1) grow i by (auto simp: heap_brk_def res_simps Let_def dist_def[symmetric])
    have nb: "unat dist \<le> 0x1000 * b + 0x1000 * n" "0x1000 * b + 0x1000 * n < unat dist + 0x1000"
      using lt unfolding n_def by (auto simp: algebra_simps)
    have e': "of_nat n * 0x1000 = (of_nat (n * 0x1000) :: u64)" by simp
    have "unat (Brk h + of_nat (n * 0x1000)) = 0x1000 * b + n * 0x1000"
      using b nb d2 by (subst unat_add_small) simp_all
    then have "unat (Brk h') = 0x1000 * b + n * 0x1000" unfolding h'(1) e' by simp
    then show ?thesis using h' ge nb d2 by (simp add: heap_ok_def dist_def[symmetric])
  next
    case shrink
    define n where "n = (0x1000 * b - unat dist) div 0x1000"
    have d1: "unat (dist + 0x1000) = unat dist + 0x1000" using unat_add_small[of dist "0x1000"] d2 by simp
    have lt: "unat dist + 0x1000 < 0x1000 * b" using shrink b d1 by (simp add: word_less_nat_alt)
    have s: "unat (Brk h - dist) = 0x1000 * b - unat dist" using lt b by (simp add: unat_sub word_le_nat_alt)
    then have u: "unat ((Brk h - dist) div 0x1000) = n" by (simp add: unat_div n_def)
    have n2: "n < 2 ^ 31" using b2 by (simp add: n_def div_less_iff_less_mult)
    have i: "to_int ((Brk h - dist) div 0x1000) = int n"
      using to_int_small[OF n2[folded u]] unfolding u .
    have h': "h' = h\<lparr>Brk := Brk h - of_nat n * 0x1000\<rparr>" "x = 0"
      using r a(1) shrink i by (auto simp: heap_brk_def res_simps Let_def dist_def[symmetric])
    have nb: "0x1000 * n \<le> 0x1000 * b - unat dist" "0x1000 * b - unat dist < 0x1000 * n + 0x1000"
      unfolding n_def by (simp, metis dividend_less_times_div mult.commute zero_less_numeral add.commute)
    have "unat (of_nat (n * 0x1000) :: u64) = n * 0x1000" unfolding unat_of_nat using nb b2 by simp
    then have "unat (Brk h - of_nat (n * 0x1000)) = 0x1000 * b - n * 0x1000"
      using b nb by (subst unat_sub) (simp_all add: word_le_nat_alt)
    moreover have e': "of_nat n * 0x1000 = (of_nat (n * 0x1000) :: u64)" by simp
    ultimately have "unat (Brk h') = 0x1000 * b - n * 0x1000" unfolding h'(1) e' by simp
    moreover have "0x1000 * b - n * 0x1000 = 0x1000 * (b - n)" by (simp add: diff_mult_distrib2)
    moreover have "unat dist + 0x1000 * n \<le> 0x1000 * b" "0x1000 * b < unat dist + 0x1000 * n + 0x1000"
      using nb lt by linarith+
    moreover from this have "n \<le> b" by linarith
    then obtain m where "b = n + m" using le_Suc_ex by blast
    ultimately show ?thesis using h' ge b2 by (simp add: heap_ok_def dist_def[symmetric])
  next
    case keep
    then have h': "h' = h" "x = 0"
      using r a(1) by (auto simp: heap_brk_def res_simps Let_def dist_def[symmetric])
    have d1: "unat (dist + 0x1000) = unat dist + 0x1000" using unat_add_small[of dist "0x1000"] d2 by simp
    then show ?thesis using h' ge keep ok by (simp add: dist_def[symmetric] word_less_nat_alt)
  qed
qed

subsection \<open>The page heap\<close>

lemma getPDPindex_nat: "getPDPindex a = unat a div 0x40000000 mod 512"
proof -
  have "(push_bit 9 1 - 1 :: u64) = mask 9" by (simp add: mask_eq_exp_minus_1 push_bit_eq_mult)
  then have "drop_bit 30 a AND (push_bit 9 1 - 1) = take_bit 9 (drop_bit 30 a)" by (simp add: take_bit_eq_mask)
  then have "getPDPindex a = take_bit 9 (unat (drop_bit 30 a))"
    by (simp only: getPDPindex_def unsigned_take_bit_eq)
  also have "unat (drop_bit 30 a) = unat a div 2 ^ 30" by (simp only: unat_drop_bit_eq drop_bit_eq_div[where ?'a = nat])
  finally show ?thesis by (simp add: take_bit_eq_mod)
qed

definition ph_slot :: "nat \<Rightarrow> u64" where
  "ph_slot i = ph_base - of_nat i * 0x1000"

lemma ph_slot_index:
  assumes "i < 0x1000"
  shows "getPDPindex (ph_slot i) = 508"
proof -
  have u: "unat (of_nat (i * 0x1000) :: u64) = i * 0x1000" unfolding unat_of_nat using assms by simp
  have b: "unat ph_base = 0xFFFFFFFF3FFFF000" by (simp add: ph_base_def)
  have "ph_slot i = ph_base - of_nat (i * 0x1000)" by (simp add: ph_slot_def)
  then have "unat (ph_slot i) = 0xFFFFFFFF3FFFF000 - i * 0x1000"
    using u b assms by (simp add: unat_sub word_le_nat_alt)
  moreover have "(0xFFFFFFFF3FFFF000 - i * 0x1000) div 0x40000000 = (0x3FFFFFFFC :: nat)"
    using assms by (intro div_nat_eqI) simp_all
  ultimately show "getPDPindex (ph_slot i) = 508" by (simp add: getPDPindex_nat)
qed

lemma ph_slot_path: "i < 0x1000 \<Longrightarrow> path (ph_slot i) \<noteq> [0, 509, 511]"
  using ph_slot_index[of i] by (simp add: path_def)

lemma ph_slot_pos:
  assumes "i < 0x1000"
  shows "(ph_base - ph_slot i) div 0x1000 = of_nat i"
proof -
  have e: "ph_base - ph_slot i = of_nat (i * 0x1000)" by (simp add: ph_slot_def)
  have u: "unat (of_nat (i * 0x1000) :: u64) = i * 0x1000" unfolding unat_of_nat using assms by simp
  have "unat ((ph_base - ph_slot i) div 0x1000) = i" unfolding e unat_div u by simp
  moreover have "unat (of_nat i :: u64) = i" unfolding unat_of_nat using assms by simp
  ultimately show ?thesis by (simp add: word_unat_eq_iff)
qed

definition ph_ok :: "kmem \<Rightarrow> bool" where
  "ph_ok k \<longleftrightarrow> tables_ok (km_m k) \<and> bs_wf (km_ph k) \<and> bs_size (km_ph k) = 0x1000
     \<and> (\<forall>i<0x1000. \<not> large_mapped (km_m k) (ph_slot i))"

lemma ph_ialloc_ok:
  assumes ok: "ph_ok k" and g: "ph_ialloc phy k = Inr (addr, k1)"
  shows "\<exists>i<0x1000. addr = ph_slot i \<and> bits_of (km_ph k) i \<and> \<not> bits_of (km_ph k1) i
    \<and> (\<exists>e. walk (km_m k1) addr = Some e \<and> getAddr e = phy)
    \<and> (\<exists>k2. ph_free addr k1 = Inr k2 \<and> walk (km_m k2) = walk (km_m k) \<and> km_ph k2 = km_ph k)"
proof -
  from ok have t: "tables_ok (km_m k)" and wf: "bs_wf (km_ph k)" and sz: "bs_size (km_ph k) = 0x1000"
    and nl: "\<And>i. i < 0x1000 \<Longrightarrow> \<not> large_mapped (km_m k) (ph_slot i)" by (auto simp: ph_ok_def)
  from g obtain r b1 m1 where r: "bs_bsf (km_ph k) = Inr r" and b1: "bs_unset (km_ph k) r = Inr b1"
    and r1: "r \<noteq> - 1" and m1: "createMapping phy (ph_base - r * 0x1000) False (km_m k) = Inr m1"
    and e: "addr = ph_base - r * 0x1000" "k1 = k\<lparr>km_ph := b1, km_m := m1\<rparr>"
    by (auto simp: ph_ialloc_def on_ph_def on_m_def res_simps Let_def)
  define i where "i = unat r"
  have lt: "r < bs_size (km_ph k)" using b1 by (auto simp: bs_unset_def res_simps)
  then have i: "i < 0x1000" using sz by (simp add: i_def word_less_nat_alt)
  have ri: "r = of_nat i" by (simp add: i_def)
  have a: "addr = ph_slot i" by (simp add: e ph_slot_def ri)
  have bit: "bits_of (km_ph k) i" 
    using bs_bsf_spec[OF wf] r r1 by (auto simp: found_first_def i_def)
  from bs_unset_spec[OF wf lt] b1 have b1': "same_window (km_ph k) b1" "bits_of b1 = (bits_of (km_ph k))(i := False)"
    by (auto simp: i_def)
  have m1': "createMapping phy addr False (km_m k) = Inr m1" using m1 e by simp
  have nla: "\<not> large_mapped (km_m k) addr" using nl i a by simp
  have out: "path addr \<noteq> [0, 509, 511]" using ph_slot_path i a by simp
  from createMapping_walk[OF t nla out m1'] obtain en where
    w: "walk m1 addr = Some en" "getAddr en = phy" by (auto simp: leaf_entry_def)
  from map_unmap_walk[OF t nla out m1'] obtain m2 where
    m2: "freeMapping1 addr m1 = Inr m2" "walk m2 = walk (km_m k)" by blast
  have wf1: "bs_wf b1" "bs_size b1 = 0x1000" using b1'(1) wf sz by (simp_all add: same_window_def bs_wf_def)
  from bs_set_spec[OF wf1(1), of "of_nat i"] i wf1(2) obtain b2 where
    b2: "bs_set b1 (of_nat i) = Inr b2" "same_window b1 b2" "bits_of b2 = (bits_of b1)(i := True)"
    by (auto simp: word_less_nat_alt unat_of_nat)
  have "b2 = km_ph k"
    by (rule bits_of_inject) (use b2 b1' bit in \<open>auto simp: same_window_def fun_eq_iff\<close>)
  then have "ph_free addr k1 = Inr (k1\<lparr>km_m := m2, km_ph := km_ph k\<rparr>)"
    using ph_slot_pos[OF i] b2(1) m2(1) e(2) a i
    by (simp add: ph_free_def Let_def on_m_def on_ph_def freeMapping_def for_range_def word_less_nat_alt unat_of_nat)
  then show ?thesis using i a bit b1'(2) w m2 e(2) by auto
qed

subsection \<open>Creating and deleting an address space\<close>

lemma for_range_noop: "(\<And>i. a \<le> i \<Longrightarrow> i < b \<Longrightarrow> f i s = Inr s) \<Longrightarrow> for_range f a b s = Inr s"
  unfolding for_range_def
proof -
  assume a: "\<And>i. a \<le> i \<Longrightarrow> i < b \<Longrightarrow> f i s = Inr s"
  have "set xs \<subseteq> {a..<b} \<Longrightarrow> for_list f xs s = Inr s" for xs
    using a by (induction xs) auto
  then show "for_list f [a..<b] s = Inr s" by simp
qed

text \<open>Everything but the temporary windows and the pages \<open>P\<close>.\<close>

definition rest_eq :: "u64 set \<Rightarrow> machine \<Rightarrow> machine \<Rightarrow> bool" where
  "rest_eq P s s' \<longleftrightarrow> m_pPT s' = m_pPT s \<and> m_cr3 s' = m_cr3 s
    \<and> (\<forall>p i. p \<notin> P \<and> (p \<noteq> m_pPT s \<or> i \<notin> tmp_slots) \<longrightarrow> m_mem s' p i = m_mem s p i)"

definition user_ok :: "machine \<Rightarrow> bool" where
  "user_ok s \<longleftrightarrow> tables_ok s \<and> present (slot s 7) \<and> used_page s (getAddr (slot s 6))
    \<and> used_page s (getAddr (slot s 7)) \<and> used_page s (getAddr (m_mem s (m_cr3 s) 0))"

text \<open>The two pages a new address space consists of.\<close>

definition fresh_user :: "machine \<Rightarrow> u64 \<Rightarrow> u64 \<Rightarrow> machine \<Rightarrow> bool" where
  "fresh_user s PDP PD s1 \<longleftrightarrow> rest_eq {PDP, PD} s s1 \<and> slots_free s1 \<and> PDP \<noteq> PD
    \<and> present (m_mem s1 PDP 0) \<and> getAddr (m_mem s1 PDP 0) = PD
    \<and> (\<forall>i<512. i \<noteq> 0 \<longrightarrow> \<not> present (m_mem s1 PDP i) \<and> \<not> present (m_mem s1 PD i))
    \<and> (\<exists>pm. pm_alloc (m_phys s) = Inr (PDP, pm) \<and> pm_alloc pm = Inr (PD, m_phys s1) \<and> pm_wf pm)"

lemma um_new_ok:
  assumes ok: "user_ok s" and g: "um_new s = Inr (PDP, s1)"
  shows "\<exists>PD. fresh_user s PDP PD s1"
proof -
  have t: "tables_ok s" and p7: "present (slot s 7)" and u7: "used_page s (getAddr (slot s 7))"
    using ok by (simp_all add: user_ok_def)
  have fr: "slots_free s" using tables_okD(1)[OF t] by (simp add: windows_ok_def)
  from g obtain a1 a2 a3 PD a4 a5 a6 a7 ef a8 where st:
    "palloc s = Inr (PDP, a1)" "actTmp tmpPDP PDP a1 = Inr a2" "win_clear tmpPDP a2 = Inr a3"
    "palloc a3 = Inr (PD, a4)" "actTmp tmpPD PD a4 = Inr a5" "win_clear tmpPD a5 = Inr a6"
    "win_modify tmpPDP 0 (activeAddr PD) a6 = Inr a7" "win_get firstPD 0 a7 = Inr ef"
    "win_modify tmpPD 0 (activeAddr (getAddr ef)) a7 = Inr a8"
    "s1 = freeTmp tmpPDP (freeTmp tmpPD a8)"
    by (auto simp: um_new_def res_simps)
  from st(1) obtain pm where pm: "pm_alloc (m_phys s) = Inr (PDP, pm)" "a1 = s\<lparr>m_phys := pm\<rparr>" by (auto simp: palloc_ok)
  note f1 = alloc_used[OF tables_okD(2)[OF t] pm(1)]
  have n1: "PDP \<noteq> m_pPT s" "PDP \<noteq> getAddr (slot s 7)" using f1(1) tables_okD(3)[OF t] u7 by auto
  from st(2) obtain e1 where e1: "activeAddr PDP (slot a1 tmpPDP) = Inr e1" "a2 = page_upd (m_pPT s) tmpPDP e1 a1"
    using pm by (auto simp: actTmp_ok)
  note v1 = activeAddr_ok(1,2)[OF e1(1)]
  have a3: "a3 = page_clear PDP a2" using st(3) e1(2) v1 pm by (simp add: win_clear_ok)
  have a3': "m_pPT a3 = m_pPT s" "m_cr3 a3 = m_cr3 s" "m_phys a3 = pm" "slot a3 tmpPDP = e1"
    "\<And>k. k \<noteq> tmpPDP \<Longrightarrow> slot a3 k = slot s k"
    "\<And>p i. m_mem a3 p i = (if p = PDP \<and> i < 512 then new_entry else if p = m_pPT s \<and> i = tmpPDP then e1 else m_mem s p i)"
    using n1 pm e1 by (auto simp: a3)
  from st(4) obtain pm2 where pm2: "pm_alloc pm = Inr (PD, pm2)" "a4 = a3\<lparr>m_phys := pm2\<rparr>" 
    using a3' by (auto simp: palloc_ok)
  have wf1: "pm_wf (m_phys a1)" using f1(3) pm(2) by simp
  have al2: "pm_alloc (m_phys a1) = Inr (PD, pm2)" using pm(2) pm2(1) by simp
  note f2 = alloc_used[OF wf1 al2]
  have ua: "used_page a1 q \<longleftrightarrow> q = PDP \<or> used_page s q" for q using f1(2)[of a1] pm(2) by simp
  have n2: "PD \<noteq> m_pPT s" "PD \<noteq> getAddr (slot s 7)" "PD \<noteq> PDP"
    using f2(1) ua tables_okD(3)[OF t] u7 by auto
  from st(5) obtain e2 where e2: "activeAddr PD (slot a4 tmpPD) = Inr e2" "a5 = page_upd (m_pPT s) tmpPD e2 a4"
    using pm2 a3' by (auto simp: actTmp_ok)
  note v2 = activeAddr_ok(1,2)[OF e2(1)]
  have a6: "a6 = page_clear PD a5" using st(6) e2(2) v2 pm2 a3' by (simp add: win_clear_ok)
  have a6': "m_pPT a6 = m_pPT s" "m_cr3 a6 = m_cr3 s" "m_phys a6 = pm2" "slot a6 tmpPDP = e1" "slot a6 tmpPD = e2"
    "\<And>k. k \<noteq> tmpPDP \<Longrightarrow> k \<noteq> tmpPD \<Longrightarrow> slot a6 k = slot s k"
    "\<And>p i. m_mem a6 p i = (if p = PD \<and> i < 512 then new_entry else if p = PDP \<and> i < 512 then new_entry
      else if p = m_pPT s \<and> i = tmpPD then e2 else if p = m_pPT s \<and> i = tmpPDP then e1 else m_mem s p i)"
    using n1 n2 pm2 e2 a3' by (auto simp: a6)
  from st(7) obtain e3 where e3: "activeAddr PD new_entry = Inr e3" "a7 = page_upd PDP 0 e3 a6"
    using v1 a6' n2 by (auto simp: win_modify_ok)
  note v3 = activeAddr_ok(1,2)[OF e3(1)]
  from st(9) obtain e4 where e4: "a8 = page_upd PD 0 e4 a7" 
    using v2 a6' n1 n2 e3(2) by (auto simp: win_modify_ok)
  have s1: "m_pPT s1 = m_pPT s" "m_cr3 s1 = m_cr3 s" "m_phys s1 = pm2"
    "\<And>p i. m_mem s1 p i = (if p = m_pPT s \<and> i = tmpPDP then set_present False e1
       else if p = m_pPT s \<and> i = tmpPD then set_present False e2
       else if p = PD \<and> i = 0 then e4 else if p = PDP \<and> i = 0 then e3 
       else if (p = PD \<or> p = PDP) \<and> i < 512 then new_entry else m_mem s p i)"
    using st(10) e4 e3 a6' n1 n2 by (auto simp: freeTmp_eq)
  have "rest_eq {PDP, PD} s s1" using s1 n1 n2 by (auto simp: rest_eq_def tmp_slots_def)
  moreover have "slots_free s1" using s1 n1 n2 fr by (auto simp: slots_free_def tmp_slots_def slot_def)
  moreover have "present (m_mem s1 PDP 0)" "getAddr (m_mem s1 PDP 0) = PD" using s1 n1 n2 v3 by auto
  moreover have "\<forall>i<512. i \<noteq> 0 \<longrightarrow> \<not> present (m_mem s1 PDP i) \<and> \<not> present (m_mem s1 PD i)"
    using s1 n1 n2 by auto
  ultimately show ?thesis using pm(1) pm2(1) f1(3) n2 s1(3) by (auto simp: fresh_user_def)
qed

lemma pfree_eq: "pfree p s = bnd (pm_free p (m_phys s)) (\<lambda>pm. Inr (s\<lparr>m_phys := pm\<rparr>))"
  by (simp add: pfree_def)

lemma pm_alloc_wf: "pm_wf pm \<Longrightarrow> pm_alloc pm = Inr (p, pm') \<Longrightarrow> pm_wf pm'"
  using pma.alloc_ok by blast

lemma um_destroy_ok:
  assumes ok: "user_ok s" and n: "fresh_user s PDP PD s1"
  shows "\<exists>s2. um_destroy PDP s1 = Inr s2 \<and> m_phys s2 = m_phys s \<and> rest_eq {PDP, PD} s s2 \<and> slots_free s2"
proof -
  have t: "tables_ok s" and u6: "used_page s (getAddr (slot s 6))"
    and u0: "used_page s (getAddr (m_mem s (m_cr3 s) 0))" using ok by (simp_all add: user_ok_def)
  note w = tables_okD(1)[OF t]
  from n have re: "rest_eq {PDP, PD} s s1" and fr: "slots_free s1" and ne: "PDP \<noteq> PD"
    and e0: "present (m_mem s1 PDP 0)" "getAddr (m_mem s1 PDP 0) = PD"
    and em: "\<And>i. i < 512 \<Longrightarrow> i \<noteq> 0 \<Longrightarrow> \<not> present (m_mem s1 PDP i) \<and> \<not> present (m_mem s1 PD i)"
    by (auto simp: fresh_user_def)
  from n obtain pm where pm: "pm_alloc (m_phys s) = Inr (PDP, pm)" "pm_alloc pm = Inr (PD, m_phys s1)" "pm_wf pm"
    by (auto simp: fresh_user_def)
  note wf = tables_okD(2)[OF t]
  note f1 = alloc_used(1)[OF wf pm(1)]
  have "m_phys (s\<lparr>m_phys := pm\<rparr>) = pm" by simp
  from alloc_used(2)[OF wf pm(1) this] alloc_used(1)[of "s\<lparr>m_phys := pm\<rparr>" PD "m_phys s1"] pm(2,3)
  have f2: "\<not> used_page s PD" by simp
  have np: "PDP \<noteq> m_pPT s" "PD \<noteq> m_pPT s" using f1 f2 tables_okD(3)[OF t] by auto
  have vN: "vpath []" by (simp add: vpath_def)
  have nc: "PDP \<noteq> m_cr3 s" "PD \<noteq> m_cr3 s" using f1 f2 tables_okD(5)[OF t vN] by auto
  have pgs: "PDP AND NOT addr_mask = 0" "PD AND NOT addr_mask = 0"
    using alloc_page(2)[OF wf pm(1)] alloc_page(2)[of "s\<lparr>m_phys := pm\<rparr>" PD "m_phys s1"] pm(2,3) by auto
  have same: "m_pPT s1 = m_pPT s" "m_cr3 s1 = m_cr3 s" "slot s1 0 = slot s 0" "slot s1 6 = slot s 6"
    "m_mem s1 (m_cr3 s) 0 = m_mem s (m_cr3 s) 0"
    using re np nc w by (auto simp: rest_eq_def slot_def tmp_slots_def windows_ok_def)
  have p0: "present (slot s 0)" "getAddr (slot s 0) = m_cr3 s" using w by (auto simp: windows_ok_def)
  have c1: "PDP \<noteq> getAddr (slot s1 6)" using same u6 f1 by auto
  have c2: "win_get PML4 0 s1 = Inr (m_mem s (m_cr3 s) 0)"
    using p0 same by (simp add: win_get_ok)
  have c3: "PDP \<noteq> getAddr (m_mem s (m_cr3 s) 0)" using u0 f1 by auto
  have cl: "um_clear PDP s1 = um_freePDs PDP s1" using c1 c2 c3 by (simp add: um_clear_def)
  obtain e1 where a1: "actTmp tmpPDP PDP s1 = Inr (page_upd (m_pPT s) tmpPDP e1 s1)" "present e1" "getAddr e1 = PDP"
    using act_page[OF fr _ pgs(1)] same(1) by (auto simp: tmp_slots_def)
  let ?t1 = "page_upd (m_pPT s) tmpPDP e1 s1"
  define t2 where "t2 = page_upd (m_pPT s) tmpPDP e1 s1"
  have g1: "win_get tmpPDP 0 ?t1 = Inr (m_mem s1 PDP 0)" using a1 np same(1) by (simp add: win_get_ok)
  obtain e2 where b: "actTmp tmpPD PD ?t1 = Inr (page_upd (m_pPT s) tmpPD e2 ?t1)" "present e2" "getAddr e2 = PD"
  proof -
    from activeAddr_total[OF pgs(2)] obtain e where e: "activeAddr PD (slot s1 tmpPD) = Inr e" by blast
    have "\<not> present (slot s1 tmpPD)" using fr by (simp add: slots_free_def tmp_slots_def)
    then have "actTmp tmpPD PD ?t1 = Inr (page_upd (m_pPT s) tmpPD e ?t1)"
      using e same(1) by (simp add: actTmp_ok)
    then show ?thesis using that activeAddr_ok(1,2)[OF e] by blast
  qed
  let ?t2 = "page_upd (m_pPT s) tmpPD e2 ?t1"
  have g2: "win_get tmpPD i ?t2 = Inr (m_mem s1 PD i)" if "i < 512" for i
    using b np same(1) that by (simp add: win_get_ok)
  have fe: "um_freePTs PD True ?t1 = Inr (freeTmp tmpPD ?t2)"
    unfolding um_freePTs_def b(1) bnd.simps by (subst for_range_noop) (use g2 em in auto)
  define t3 where "t3 = freeTmp tmpPD ?t2"
  have t3: "m_pPT t3 = m_pPT s" "slot t3 tmpPDP = e1" "m_phys t3 = m_phys s1" "m_cr3 t3 = m_cr3 s"
    "\<And>p i. m_mem t3 p i = (if p = m_pPT s \<and> i = tmpPD then set_present False e2
       else if p = m_pPT s \<and> i = tmpPDP then e1 else m_mem s1 p i)"
    using same by (auto simp: t3_def freeTmp_eq)
  have g3: "win_get tmpPDP i t3 = Inr (m_mem s1 PDP i)" if "i < 512" for i
    using a1 t3 np that by (simp add: win_get_ok)
  have fd: "um_freePDs PDP s1 = Inr (freeTmp tmpPDP t3)"
    unfolding um_freePDs_def a1(1) bnd.simps g1 e0(2) fe t3_def[symmetric]
    by (subst for_range_noop) (use g3 em in auto)
  define t4 where "t4 = freeTmp tmpPDP t3"
  have t4: "m_pPT t4 = m_pPT s" "m_phys t4 = m_phys s1" "m_cr3 t4 = m_cr3 s"
    "\<And>p i. m_mem t4 p i = (if p = m_pPT s \<and> i = tmpPD then set_present False e2
       else if p = m_pPT s \<and> i = tmpPDP then set_present False e1 else m_mem s1 p i)"
    using t3 by (auto simp: t4_def freeTmp_eq)
  have fr4: "slots_free t4" using fr same(1) t4 by (auto simp: slots_free_def tmp_slots_def slot_def)
  obtain e5 where a5: "actTmp tmpPDP PDP t4 = Inr (page_upd (m_pPT s) tmpPDP e5 t4)" "present e5" "getAddr e5 = PDP"
    using act_page[OF fr4 _ pgs(1)] t4(1) by (auto simp: tmp_slots_def)
  let ?t5 = "page_upd (m_pPT s) tmpPDP e5 t4"
  have g5: "win_get tmpPDP 0 ?t5 = Inr (m_mem s1 PDP 0)" using a5 np t4 by (simp add: win_get_ok)
  have q1: "pm_free PD (m_phys s1) = Inr pm" by (rule pm_alloc_free_roundtrip[OF pm(3,2)])
  have q2: "pm_free PDP pm = Inr (m_phys s)" by (rule pm_alloc_free_roundtrip[OF wf pm(1)])
  let ?s2 = "(freeTmp tmpPDP (?t5\<lparr>m_phys := pm\<rparr>))\<lparr>m_phys := m_phys s\<rparr>"
  have "um_destroy PDP s1 = Inr ?s2"
    unfolding um_destroy_def cl fd bnd.simps t4_def[symmetric] a5(1) g5 e0(2) pfree_eq
    using q1 q2 t4(2) by (simp add: freeTmp_eq)
  moreover have "rest_eq {PDP, PD} s ?s2"
    using re t4 same(1) np by (auto simp: rest_eq_def tmp_slots_def freeTmp_eq)
  moreover have "slots_free ?s2"
    using fr4 t4(1) by (auto simp: slots_free_def tmp_slots_def freeTmp_eq)
  ultimately show ?thesis by auto
qed

section \<open>The properties\<close>

text \<open>\<open>Heap::brk\<close>: a call that returns reports success, refuses addresses below the start of
  the heap, keeps the size of the mapped area a whole number of pages, and leaves the area
  large enough for the new break and at most one page larger than needed.
\<close>

theorem heap_brk_covers:
  assumes "heap_ok h" "addr \<noteq> 0" "unat (addr - virtAddrStart h) < 2 ^ 42 - 0x1000"
    and "heap_brk addr h k = Inr (x, h', k')"
  shows "x = 0 \<and> addr \<ge> virtAddrStart h \<and> virtAddrStart h' = virtAddrStart h \<and> heap_ok h'
    \<and> unat (addr - virtAddrStart h) \<le> unat (Brk h')
    \<and> unat (Brk h') \<le> unat (addr - virtAddrStart h) + 0x1000"
  by (rule heap_brk_bounds[OF assms])

definition demo_k :: kmem where
  "demo_k = \<lparr>km_m = demo_m, km_ph = \<lparr>bs_data = (- 2) # replicate 63 (- 1), bs_size = 0x1000\<rparr>\<rparr>"

lemma demo_user: "user_ok demo_m"
  unfolding user_ok_def
proof (intro conjI)
  show "tables_ok demo_m" by (rule demo_ok)
  show "present (slot demo_m 7)" by code_simp
  have "getAddr (slot demo_m 6) = 0x105000" "getAddr (slot demo_m 7) = 0x106000"
    "getAddr (m_mem demo_m (m_cr3 demo_m) 0) = 0x105000" by code_simp+
  then show "used_page demo_m (getAddr (slot demo_m 6))" "used_page demo_m (getAddr (slot demo_m 7))"
    "used_page demo_m (getAddr (m_mem demo_m (m_cr3 demo_m) 0))"
    by (simp_all add: demo_used)
qed

lemma demo_ph: "ph_ok demo_k"
  unfolding ph_ok_def
proof (intro conjI allI impI)
  show "tables_ok (km_m demo_k)" using demo_ok by (simp add: demo_k_def)
  show "bs_wf (km_ph demo_k)" by (simp add: demo_k_def bs_wf_def)
  show "bs_size (km_ph demo_k) = 0x1000" by (simp add: demo_k_def)
next
  fix i :: nat assume "i < 0x1000"
  then have "tbl demo_m (tl (path (ph_slot i))) = None"
    using ph_slot_index[of i] demo_tbl[of "tl (path (ph_slot i))"] by (simp add: path_def)
  then show "\<not> large_mapped (km_m demo_k) (ph_slot i)" by (simp add: large_mapped_def demo_k_def)
qed

lemma demo_ph_alloc: "\<exists>addr k1. ph_ialloc 0xB8000 demo_k = Inr (addr, k1)"
proof -
  have b: "bs_bsf (km_ph demo_k) = Inr 1" by code_simp
  have "bs_wf (km_ph demo_k)" "bs_size (km_ph demo_k) = 0x1000" by (simp_all add: demo_k_def bs_wf_def)
  then obtain b' where u: "bs_unset (km_ph demo_k) 1 = Inr b'" using bs_unset_spec[of "km_ph demo_k" 1] by auto
  have "\<exists>m. createMapping 0xB8000 (ph_base - 1 * 0x1000) False demo_m = Inr m"
    by (rule createMapping_total[OF demo_ok _ _ _ _ _ demo_visible]; code_simp)
  then show ?thesis using b u by (auto simp: ph_ialloc_def on_ph_def on_m_def demo_k_def Let_def)
qed

lemma demo_um_new: "\<exists>PDP s1. um_new demo_m = Inr (PDP, s1)"
proof -
  have fr: "slots_free demo_m" using tables_okD(1)[OF demo_ok] by (simp add: windows_ok_def)
  obtain k pm where al: "pm_alloc (m_phys demo_m) = Inr (frame_addr k, pm)" and wf: "pm_wf pm"
    and v: "visible_free (m_phys demo_m) - {k} \<subseteq> visible_free pm"
    using alloc_visible[OF tables_okD(2)[OF demo_ok]] demo_visible by fastforce
  have "visible_free pm \<noteq> {}"
  proof
    assume "visible_free pm = {}"
    then have "visible_free (m_phys demo_m) \<subseteq> {k}" using v by auto
    then have "card (visible_free (m_phys demo_m)) \<le> 1" using card_mono[of "{k}"] by fastforce
    then show False using demo_visible by simp
  qed
  from alloc_visible[OF wf this] obtain k2 pm2 where al2: "pm_alloc pm = Inr (frame_addr k2, pm2)" by blast
  let ?P = "frame_addr k" and ?D = "frame_addr k2"
  have n1: "?P \<noteq> m_pPT demo_m" by (rule fresh_page(1)[OF demo_ok al])
  have wf0: "\<not> present (slot demo_m tmpPDP)" "pm_wf (m_phys demo_m)"
    using fr tables_okD(2)[OF demo_ok] by (simp_all add: slots_free_def tmp_slots_def)
  obtain a1 a2 a3 where A: "palloc demo_m = Inr (?P, a1)" "actTmp tmpPDP ?P a1 = Inr a2" "win_clear tmpPDP a2 = Inr a3"
    "win_get tmpPDP 2 a3 = Inr new_entry" "m_pPT a3 = m_pPT demo_m" "m_phys a3 = pm"
    "\<And>j. j \<noteq> tmpPDP \<Longrightarrow> slot a3 j = slot demo_m j" "getAddr (slot a3 tmpPDP) = ?P"
    "\<And>q i. q \<noteq> ?P \<Longrightarrow> q \<noteq> m_pPT demo_m \<Longrightarrow> m_mem a3 q i = m_mem demo_m q i"
    using new_table_total[OF wf0 _ al n1] by auto
  have p3: "present (slot a3 tmpPDP)" using A(4) by (simp add: win_get_ok)
  have "m_phys (demo_m\<lparr>m_phys := pm\<rparr>) = pm" by simp
  from alloc_used(2)[OF wf0(2) al this] alloc_used(1)[of "demo_m\<lparr>m_phys := pm\<rparr>" ?D pm2] al2 wf
  have ud: "\<not> used_page demo_m ?D" by simp
  then have n2: "?D \<noteq> m_pPT a3" using A(5) tables_okD(3)[OF demo_ok] by auto
  have wf3: "\<not> present (slot a3 tmpPD)" "pm_wf (m_phys a3)" "pm_alloc (m_phys a3) = Inr (?D, pm2)"
    using A(6,7) wf al2 fr by (simp_all add: slots_free_def tmp_slots_def)
  obtain a4 a5 a6 where B: "palloc a3 = Inr (?D, a4)" "actTmp tmpPD ?D a4 = Inr a5" "win_clear tmpPD a5 = Inr a6"
    "win_get tmpPD 2 a6 = Inr new_entry" "m_pPT a6 = m_pPT a3" "m_phys a6 = pm2"
    "\<And>j. j \<noteq> tmpPD \<Longrightarrow> slot a6 j = slot a3 j" "getAddr (slot a6 tmpPD) = ?D"
    "\<And>q i. q \<noteq> ?D \<Longrightarrow> q \<noteq> m_pPT a3 \<Longrightarrow> m_mem a6 q i = m_mem a3 q i"
    using new_table_total[OF wf3(1,2) _ wf3(3) n2] by auto
  have nu: "used_page demo_m 0x106000" by (rule demo_used) simp
  have ne: "0x106000 \<noteq> ?P" "0x106000 \<noteq> ?D" using nu alloc_used(1)[OF wf0(2) al] ud by auto
  have sl: "slot a6 tmpPDP = slot a3 tmpPDP" "slot a6 7 = slot demo_m 7" using A(7) B(7) by simp_all
  have "?D AND NOT addr_mask = 0" by (rule alloc_page(2)[OF wf3(2,3)])
  from win_modify_total[OF _ _ this, of a6 tmpPDP 0] p3 sl obtain a7 where
    a7: "win_modify tmpPDP 0 (activeAddr ?D) a6 = Inr a7" by auto
  then obtain e where e: "a7 = page_upd ?P 0 e a6" using A(8) sl by (auto simp: win_modify_ok)
  have d: "present (slot demo_m 7)" "getAddr (slot demo_m 7) = 0x106000" "m_mem demo_m 0x106000 0 = 0x107007"
    "m_pPT demo_m = 0x104000" "getAddr (0x107007 :: u64) = 0x107000" by code_simp+
  have g: "win_get firstPD 0 a7 = Inr 0x107007"
    using e ne sl d A(5,9) B(9) by (simp add: win_get_ok)
  have "present (slot a7 tmpPD)" using B(4) e by (simp add: win_get_ok)
  moreover have "(0x107000 :: u64) AND NOT addr_mask = 0" by code_simp
  ultimately obtain a8 where "win_modify tmpPD 0 (activeAddr 0x107000) a7 = Inr a8"
    using win_modify_total[of a7 tmpPD 0 "0x107000"] by auto
  then show ?thesis using A(1-3) B(1-3) a7 g d(5) by (simp add: um_new_def)
qed

theorem heap_brk_covers_witness:
  "\<exists>x h' k'. heap_brk 0x2800 \<lparr>virtAddrStart = 0x1000, Brk = 0x2000\<rparr> demo_k = Inr (x, h', k') \<and> heap_ok h'"
proof -
  have r: "heap_brk 0x2800 \<lparr>virtAddrStart = 0x1000, Brk = 0x2000\<rparr> demo_k
    = Inr (0, \<lparr>virtAddrStart = 0x1000, Brk = 0x2000\<rparr>, demo_k)" by (simp add: heap_brk_def)
  have "heap_ok \<lparr>virtAddrStart = 0x1000, Brk = 0x2000\<rparr>" by (simp add: heap_ok_def)
  from heap_brk_covers[OF this _ _ r] r show ?thesis by simp
qed

text \<open>The page heap: \<open>alloc\<close> returns the address of a free slot, takes the slot and maps it
  to the page asked for; \<open>free\<close> of that address gives the slot back and restores every
  translation and the bitset.
\<close>

theorem pageHeap_alloc_free:
  assumes "ph_ok k" "ph_ialloc phy k = Inr (addr, k1)"
  shows "\<exists>i<0x1000. addr = ph_slot i \<and> bits_of (km_ph k) i \<and> \<not> bits_of (km_ph k1) i
    \<and> (\<exists>e. walk (km_m k1) addr = Some e \<and> getAddr e = phy)
    \<and> (\<exists>k2. ph_free addr k1 = Inr k2 \<and> walk (km_m k2) = walk (km_m k) \<and> km_ph k2 = km_ph k)"
  by (rule ph_ialloc_ok[OF assms])

theorem pageHeap_alloc_free_witness:
  "\<exists>addr k1 k2. ph_ialloc 0xB8000 demo_k = Inr (addr, k1) \<and> ph_free addr k1 = Inr k2
     \<and> km_ph k2 = km_ph demo_k"
proof -
  obtain addr k1 where "ph_ialloc 0xB8000 demo_k = Inr (addr, k1)" using demo_ph_alloc by blast
  then show ?thesis using pageHeap_alloc_free[OF demo_ph] by blast
qed

text \<open>
  C22. Deleting a fresh user address space takes its creation back: the two pages it took are
  free again, the physical allocator is exactly in the state before, no other page and no
  table of the kernel has changed, and the temporary windows are closed.
\<close>

theorem user_memory_roundtrip:
  assumes "user_ok s" "um_new s = Inr (PDP, s1)"
  shows "\<exists>s2 PD. um_destroy PDP s1 = Inr s2 \<and> m_phys s2 = m_phys s
    \<and> rest_eq {PDP, PD} s s2 \<and> slots_free s2 \<and> \<not> used_page s PDP \<and> \<not> used_page s PD"
proof -
  from um_new_ok[OF assms] obtain PD where PD: "fresh_user s PDP PD s1" by blast
  have wf: "pm_wf (m_phys s)" using assms(1) tables_okD(2) by (auto simp: user_ok_def)
  from PD obtain pm where pm: "pm_alloc (m_phys s) = Inr (PDP, pm)" "pm_alloc pm = Inr (PD, m_phys s1)" "pm_wf pm"
    by (auto simp: fresh_user_def)
  have "\<not> used_page s PDP" by (rule alloc_used(1)[OF wf pm(1)])
  moreover have "m_phys (s\<lparr>m_phys := pm\<rparr>) = pm" by simp
  from alloc_used(2)[OF wf pm(1) this] alloc_used(1)[of "s\<lparr>m_phys := pm\<rparr>" PD "m_phys s1"] pm(2,3)
  have "\<not> used_page s PD" by simp
  ultimately show ?thesis using um_destroy_ok[OF assms(1) PD] by blast
qed

theorem user_memory_roundtrip_witness:
  "\<exists>PDP s1 s2. um_new demo_m = Inr (PDP, s1) \<and> um_destroy PDP s1 = Inr s2 \<and> m_phys s2 = m_phys demo_m"
proof -
  obtain PDP s1 where "um_new demo_m = Inr (PDP, s1)" using demo_um_new by blast
  then show ?thesis using user_memory_roundtrip[OF demo_user] by blast
qed

end
