(* ===== verification/Util.thy ===== *)
theory Util
  imports Prelude
begin

text \<open>
  The string helpers of \<open>src/src/utility.cpp\<close>: \<open>split\<close> and \<open>concat\<close>, which the file system
  uses on paths. \<open>std::string\<close> is a list of characters; \<open>find_first_of\<close>, \<open>substr\<close> and
  \<open>pop_back\<close> are written out (\<open>pop_back\<close> of an empty string is undefined behaviour, an
  \<open>OutOfBounds\<close> fault here).
\<close>

text \<open>\<open>str.find_first_of(separator, pos)\<close>, with \<open>None\<close> for \<open>npos\<close>.\<close>

definition find_first_of :: "char list \<Rightarrow> char \<Rightarrow> nat \<Rightarrow> nat option" where
  "find_first_of str c pos = find (\<lambda>i. str ! i = c) [pos..<length str]"

lemma find_first_of_Some:
  "find_first_of str c pos = Some p \<longleftrightarrow> pos \<le> p \<and> p < length str \<and> str ! p = c \<and> (\<forall>i. pos \<le> i \<and> i < p \<longrightarrow> str ! i \<noteq> c)"
proof
  assume "find_first_of str c pos = Some p"
  then obtain i where i: "i < length str - pos" "str ! (pos + i) = c" "p = pos + i" "\<forall>j<i. str ! (pos + j) \<noteq> c"
    by (auto simp: find_first_of_def find_Some_iff)
  have "str ! j \<noteq> c" if "pos \<le> j" "j < p" for j using i(3,4) that spec[OF i(4), of "j - pos"] by simp
  then show "pos \<le> p \<and> p < length str \<and> str ! p = c \<and> (\<forall>i. pos \<le> i \<and> i < p \<longrightarrow> str ! i \<noteq> c)" using i by auto
next
  assume "pos \<le> p \<and> p < length str \<and> str ! p = c \<and> (\<forall>i. pos \<le> i \<and> i < p \<longrightarrow> str ! i \<noteq> c)"
  then show "find_first_of str c pos = Some p"
    unfolding find_first_of_def find_Some_iff by (intro exI[of _ "p - pos"]) auto
qed

lemma find_first_of_None:
  "find_first_of str c pos = None \<longleftrightarrow> c \<notin> set (drop pos str)"
proof -
  have "find_first_of str c pos = None \<longleftrightarrow> (\<forall>i. pos \<le> i \<and> i < length str \<longrightarrow> str ! i \<noteq> c)"
    by (auto simp: find_first_of_def find_None_iff)
  also have "\<dots> \<longleftrightarrow> c \<notin> set (drop pos str)"
  proof
    assume a: "\<forall>i. pos \<le> i \<and> i < length str \<longrightarrow> str ! i \<noteq> c"
    show "c \<notin> set (drop pos str)"
      unfolding in_set_conv_nth using a by auto
  next
    assume a: "c \<notin> set (drop pos str)"
    show "\<forall>i. pos \<le> i \<and> i < length str \<longrightarrow> str ! i \<noteq> c"
    proof (intro allI impI)
      fix i assume i: "pos \<le> i \<and> i < length str"
      then have "str ! i = drop pos str ! (i - pos)" by simp
      moreover have "drop pos str ! (i - pos) \<in> set (drop pos str)" using i by (intro nth_mem) (simp add: diff_less_mono)
      ultimately show "str ! i \<noteq> c" using a by auto
    qed
  qed
  finally show ?thesis .
qed

text \<open>The loop of \<open>split\<close>.\<close>

function split_loop :: "char list \<Rightarrow> char \<Rightarrow> bool \<Rightarrow> nat \<Rightarrow> char list list \<Rightarrow> char list list" where
  "split_loop str sep keepEmpty pos res =
     (if pos < length str then
        (case find_first_of str sep pos of
           None \<Rightarrow> res @ [drop pos str]
         | Some pos2 \<Rightarrow> split_loop str sep keepEmpty (pos2 + 1)
             (if keepEmpty \<or> pos2 > pos then res @ [take (pos2 - pos) (drop pos str)] else res))
      else res)"
  by pat_completeness auto
termination
  by (relation "measure (\<lambda>(str, _, _, pos, _). length str - pos)") (auto simp: find_first_of_Some)

declare split_loop.simps [simp del]

definition split :: "char list \<Rightarrow> char \<Rightarrow> bool \<Rightarrow> char list list" where
  "split str sep keepEmpty = split_loop str sep keepEmpty 0 []"

definition pop_back :: "'a list \<Rightarrow> 'a list res" where
  "pop_back xs = check (xs \<noteq> []) OutOfBounds (Inr (butlast xs))"

definition concat_str :: "char list list \<Rightarrow> char \<Rightarrow> char list res" where
  "concat_str strs sep = pop_back (fold (\<lambda>s r. (r @ s) @ [sep]) strs [])"

section \<open>What they compute\<close>

text \<open>\<open>pieces\<close>: the parts of a string between separators, without the empty one at the end.\<close>

function pieces :: "char \<Rightarrow> char list \<Rightarrow> char list list" where
  "pieces sep s = (if s = [] then [] else
     takeWhile (\<lambda>c. c \<noteq> sep) s # pieces sep (drop 1 (dropWhile (\<lambda>c. c \<noteq> sep) s)))"
  by pat_completeness auto
termination
proof (relation "measure (\<lambda>(_, s). length s)")
  fix sep and s :: "char list" assume "s \<noteq> []"
  then show "((sep, drop 1 (dropWhile (\<lambda>c. c \<noteq> sep) s)), sep, s) \<in> measure (\<lambda>(_, s). length s)"
    using length_dropWhile_le[of "\<lambda>c. c \<noteq> sep" s] by (cases s) (auto simp: le_less_trans)
qed simp

declare pieces.simps [simp del]

lemma pieces_Nil [simp]: "pieces sep [] = []"
  by (simp add: pieces.simps)

lemma pieces_last: "s \<noteq> [] \<Longrightarrow> sep \<notin> set s \<Longrightarrow> pieces sep s = [s]"
proof -
  assume a: "s \<noteq> []" "sep \<notin> set s"
  then have tw: "takeWhile (\<lambda>c. c \<noteq> sep) s = s" and dw: "dropWhile (\<lambda>c. c \<noteq> sep) s = []"
    by (auto simp: takeWhile_eq_all_conv dropWhile_eq_Nil_conv)
  show ?thesis by (subst pieces.simps, simp only: tw dw) (simp add: a(1))
qed

lemma pieces_sep: "sep \<notin> set s \<Longrightarrow> pieces sep (s @ sep # t) = s # pieces sep t"
proof -
  assume a: "sep \<notin> set s"
  then have "\<And>x. x \<in> set s \<Longrightarrow> x \<noteq> sep" by auto
  then have "takeWhile (\<lambda>c. c \<noteq> sep) (s @ sep # t) = s" "dropWhile (\<lambda>c. c \<noteq> sep) (s @ sep # t) = sep # t"
    by (simp_all add: takeWhile_append2 dropWhile_append2)
  then show ?thesis by (subst pieces.simps) simp
qed

lemma split_at:
  assumes "find_first_of str sep pos = Some p"
  shows "drop pos str = take (p - pos) (drop pos str) @ sep # drop (p + 1) str"
    "sep \<notin> set (take (p - pos) (drop pos str))"
proof -
  have p: "pos \<le> p" "p < length str" "str ! p = sep" "\<And>i. pos \<le> i \<Longrightarrow> i < p \<Longrightarrow> str ! i \<noteq> sep"
    using assms by (auto simp: find_first_of_Some)
  have "drop pos str = take (p - pos) (drop pos str) @ drop p str"
    using p(1) by (metis append_take_drop_id drop_drop le_add_diff_inverse2 add.commute)
  also have "drop p str = sep # drop (p + 1) str" using p(2,3) Cons_nth_drop_Suc[of p str] by simp
  finally show "drop pos str = take (p - pos) (drop pos str) @ sep # drop (p + 1) str" .
  show "sep \<notin> set (take (p - pos) (drop pos str))"
  proof
    assume "sep \<in> set (take (p - pos) (drop pos str))"
    then obtain i where "i < p - pos" "str ! (pos + i) = sep" using p(1,2)
      by (auto simp: in_set_conv_nth)
    then show False using p(4)[of "pos + i"] by simp
  qed
qed

lemma split_loop_eq:
  "split_loop str sep keep pos res = res @ filter (\<lambda>s. keep \<or> s \<noteq> []) (pieces sep (drop pos str))"
proof (induction str sep keep pos res rule: split_loop.induct)
  case (1 str sep keep pos res)
  show ?case
  proof (cases "pos < length str")
    case False
    then show ?thesis by (simp add: split_loop.simps)
  next
    case True
    show ?thesis
    proof (cases "find_first_of str sep pos")
      case None
      then have "pieces sep (drop pos str) = [drop pos str]"
        using True by (intro pieces_last) (simp_all add: find_first_of_None)
      then show ?thesis using True None by (simp add: split_loop.simps)
    next
      case (Some p)
      have p: "pos \<le> p" "p < length str" using Some by (simp_all add: find_first_of_Some)
      have "pieces sep (drop pos str) = take (p - pos) (drop pos str) # pieces sep (drop (p + 1) str)"
        by (subst split_at(1)[OF Some]) (rule pieces_sep[OF split_at(2)[OF Some]])
      moreover have "take (p - pos) (drop pos str) = [] \<longleftrightarrow> \<not> pos < p" using p by auto
      ultimately show ?thesis using True Some 1 by (subst split_loop.simps) simp
    qed
  qed
qed

lemma split_eq: "split str sep keep = filter (\<lambda>s. keep \<or> s \<noteq> []) (pieces sep str)"
  by (simp add: split_def split_loop_eq)

lemma concat_fold: "fold (\<lambda>s r. (r @ s) @ [sep]) strs r = r @ concat (map (\<lambda>s. s @ [sep]) strs)"
  by (induction strs arbitrary: r) simp_all

lemma pieces_concat:
  "\<forall>s\<in>set strs. sep \<notin> set s \<Longrightarrow> pieces sep (concat (map (\<lambda>s. s @ [sep]) strs)) = strs"
  by (induction strs) (simp_all add: pieces_sep)

lemma pieces_butlast:
  assumes "strs \<noteq> []" "last strs \<noteq> []" "\<forall>s\<in>set strs. sep \<notin> set s"
  shows "pieces sep (butlast (concat (map (\<lambda>s. s @ [sep]) strs))) = strs"
  using assms
proof (induction strs)
  case Nil
  then show ?case by simp
next
  case (Cons s strs)
  show ?case
  proof (cases "strs = []")
    case True
    then show ?thesis using Cons.prems by (simp add: pieces_last butlast_append)
  next
    case False
    then have "concat (map (\<lambda>s. s @ [sep]) strs) \<noteq> []" by (cases strs) auto
    then show ?thesis using Cons False by (simp add: butlast_append pieces_sep)
  qed
qed

text \<open>A path that \<open>concat\<close> built from non-empty parts that hold no separator is taken apart
  by \<open>split\<close> into the same parts, with or without \<open>keepEmpty\<close>.
\<close>

theorem split_concat:
  assumes "strs \<noteq> []" "\<forall>s\<in>set strs. sep \<notin> set s \<and> s \<noteq> []"
  shows "\<exists>path. concat_str strs sep = Inr path \<and> split path sep keepEmpty = strs"
proof -
  let ?p = "concat (map (\<lambda>s. s @ [sep]) strs)"
  have "?p \<noteq> []" using assms(1) by (cases strs) auto
  moreover have "pieces sep (butlast ?p) = strs" using assms by (intro pieces_butlast) auto
  moreover have "filter (\<lambda>s. keepEmpty \<or> s \<noteq> []) strs = strs" using assms(2) by simp
  ultimately show ?thesis unfolding concat_str_def concat_fold pop_back_def split_eq by simp
qed

theorem split_concat_witness:
  "\<exists>path. concat_str [''home'', ''user''] CHR ''/'' = Inr path
     \<and> split path CHR ''/'' True = [''home'', ''user'']"
  by (rule split_concat) simp_all

end
