(* ===== verification/Malloc.thy ===== *)
theory Malloc
  imports Prelude
begin

text \<open>
  The allocator of the kernel's libc (\<open>src/libc/src/malloc.cpp\<close>, \<open>malloc.h\<close>): a list of
  blocks with boundary tags, searched first fit, grown and shrunk with \<open>sbrk\<close>.

  Memory is split into the 8 byte cells that are used as headers (\<open>mh_cell\<close>, by byte
  address) and the bytes handed out to callers (\<open>mh_data\<close>); that the two never overlap is
  what \<open>blocks_disjoint\<close> shows. \<open>brk\<close>, the system call below \<open>sbrk\<close>, is a parameter: it says
  for each address whether the break can be moved there. Addresses are \<open>nat\<close>, with the
  wrap at 64 bits written out where a size from the caller can reach it. The search of
  \<open>malloc\<close> is a \<open>while(true)\<close>: \<open>None\<close> is the search that never ends.
\<close>

section \<open>Headers\<close>

record header =
  h_size :: nat
  h_parity :: bool
  h_prevFree :: bool
  h_free :: bool

definition seemsValid :: "header \<Rightarrow> bool" where
  "seemsValid h = ((h_parity h \<noteq> h_prevFree h) \<noteq> h_free h)"

definition update :: "header \<Rightarrow> header" where
  "update h = h\<lparr>h_parity := \<not> (h_prevFree h \<noteq> h_free h)\<rparr>"

definition setFree :: "bool \<Rightarrow> header \<Rightarrow> header" where
  "setFree f h = update (h\<lparr>h_free := f\<rparr>)"

definition setPFree :: "bool \<Rightarrow> header \<Rightarrow> header" where
  "setPFree pf h = update (h\<lparr>h_prevFree := pf\<rparr>)"

definition getSize :: "header \<Rightarrow> nat" where
  "getSize h = 8 * h_size h"

definition setSize :: "nat \<Rightarrow> header \<Rightarrow> header res" where
  "setSize sz h = assertk (sz mod 8 = 0) (Inr (h\<lparr>h_size := sz div 8\<rparr>))"

record mheap =
  mh_cell :: "nat \<Rightarrow> header"
  mh_data :: "nat \<Rightarrow> u8"
  mh_Brk :: nat
  mh_first :: nat

definition hput :: "nat \<Rightarrow> header \<Rightarrow> mheap \<Rightarrow> mheap" where
  "hput a h m = m\<lparr>mh_cell := (mh_cell m)(a := h)\<rparr>"

definition hmod :: "nat \<Rightarrow> (header \<Rightarrow> header) \<Rightarrow> mheap \<Rightarrow> mheap" where
  "hmod a f m = hput a (f (mh_cell m a)) m"

definition hsetSize :: "nat \<Rightarrow> nat \<Rightarrow> mheap \<Rightarrow> mheap res" where
  "hsetSize a sz m = bnd (setSize sz (mh_cell m a)) (\<lambda>h. Inr (hput a h m))"

section \<open>Moving the break\<close>

definition as_signed :: "nat \<Rightarrow> int" where
  "as_signed n = (if n mod 2 ^ 64 < 2 ^ 63 then int (n mod 2 ^ 64) else int (n mod 2 ^ 64) - 2 ^ 64)"

text \<open>\<open>sbrk\<close>; \<open>getBrk\<close> gives the first break. \<open>2 ^ 64 - 1\<close> is \<open>(void*)(-1)\<close>.\<close>

definition sbrk :: "(nat \<Rightarrow> bool) \<Rightarrow> nat \<Rightarrow> int \<Rightarrow> mheap \<Rightarrow> (nat \<times> mheap) res" where
  "sbrk brk getBrk offset m =
     (let before = (if mh_Brk m = 0 then getBrk else mh_Brk m);
          m = m\<lparr>mh_Brk := before\<rparr>; a = nat ((int before + offset) mod 2 ^ 64) in
      assertk (before \<noteq> 0)
        (if brk a then Inr (before, m\<lparr>mh_Brk := a\<rparr>) else Inr (2 ^ 64 - 1, m)))"

definition init_malloc :: "(nat \<Rightarrow> bool) \<Rightarrow> nat \<Rightarrow> mheap \<Rightarrow> mheap res" where
  "init_malloc brk getBrk m =
     bnd (sbrk brk getBrk 8 m) (\<lambda>(a, m).
     Inr (hmod a (\<lambda>h. update (h\<lparr>h_size := 0, h_prevFree := False, h_free := False\<rparr>)) (m\<lparr>mh_first := a\<rparr>)))"

section \<open>The list of blocks\<close>

definition headerToPtr :: "nat \<Rightarrow> nat" where
  "headerToPtr head = head + 8"

definition ptrToHeader :: "nat \<Rightarrow> mheap \<Rightarrow> nat res" where
  "ptrToHeader ptr m = assertk (seemsValid (mh_cell m (ptr - 8))) (Inr (ptr - 8))"

definition getPrevBoundaryTag :: "nat \<Rightarrow> mheap \<Rightarrow> nat res" where
  "getPrevBoundaryTag head m =
     assertk (h_prevFree (mh_cell m head) \<and> seemsValid (mh_cell m head))
       (assertk (seemsValid (mh_cell m (head - 8))) (Inr (head - 8)))"

definition getNextBoundaryTag :: "nat \<Rightarrow> mheap \<Rightarrow> nat res" where
  "getNextBoundaryTag head m =
     assertk (h_free (mh_cell m head) \<and> seemsValid (mh_cell m head))
       (Inr (head + getSize (mh_cell m head)))"

definition nextHeader :: "bool \<Rightarrow> nat \<Rightarrow> mheap \<Rightarrow> nat res" where
  "nextHeader init head m = assertk (seemsValid (mh_cell m head))
     (let r = head + getSize (mh_cell m head) + 8 in
      assertk (init \<or> seemsValid (mh_cell m r)) (Inr r))"

definition align8 :: "nat \<Rightarrow> nat" where
  "align8 n = (n + 7) mod 2 ^ 64 div 8 * 8"

text \<open>\<open>*getNextBoundaryTag(head) = *head\<close>.\<close>

definition copy_tag :: "nat \<Rightarrow> mheap \<Rightarrow> mheap res" where
  "copy_tag head m = bnd (getNextBoundaryTag head m) (\<lambda>t. Inr (hput t (mh_cell m head) m))"

text \<open>At the end of the list: a new block from \<open>sbrk\<close>.\<close>

definition malloc_end :: "(nat \<Rightarrow> bool) \<Rightarrow> nat \<Rightarrow> nat \<Rightarrow> mheap \<Rightarrow> (nat \<times> mheap) res" where
  "malloc_end brk sz head m =
     bnd (sbrk brk 0 (as_signed (8 + sz)) m) (\<lambda>(newAddr, m).
     assertk (headerToPtr head = newAddr)
    (bnd (hsetSize head sz m) (\<lambda>m.
     let m = hmod head (setFree False) m in
     bnd (nextHeader True head m) (\<lambda>nextHead.
     Inr (headerToPtr head,
       hmod nextHead (\<lambda>h. update (h\<lparr>h_size := 0, h_prevFree := False, h_free := False\<rparr>)) m)))))"

text \<open>A free block that is large enough, split when both parts can hold a header.\<close>

definition malloc_split :: "nat \<Rightarrow> nat \<Rightarrow> mheap \<Rightarrow> mheap res" where
  "malloc_split sz head m =
     bnd (nextHeader False head m) (\<lambda>oldNxtHead.
     let oldSize = getSize (mh_cell m head) in
     bnd (hsetSize head sz m) (\<lambda>m.
     bnd (nextHeader True head m) (\<lambda>nxtHead.
     bnd (hsetSize nxtHead (oldSize - sz - 8) m) (\<lambda>m.
     let m = hmod nxtHead (\<lambda>h. update (h\<lparr>h_free := True, h_prevFree := False\<rparr>)) m in
     bnd (nextHeader False nxtHead m) (\<lambda>n. assertk (oldNxtHead = n)
    (bnd (copy_tag nxtHead m) (\<lambda>m.
     bnd (getNextBoundaryTag nxtHead m) (\<lambda>t1.
     bnd (nextHeader False nxtHead m) (\<lambda>n.
     bnd (getPrevBoundaryTag n m) (\<lambda>t2. assertk (t1 = t2)
    (assertk (h_prevFree (mh_cell m oldNxtHead)) (Inr m))))))))))))"

definition malloc_take :: "nat \<Rightarrow> nat \<Rightarrow> mheap \<Rightarrow> (nat \<times> mheap) res" where
  "malloc_take sz head m =
     (let m = hmod head (setFree False) m in
      bnd (if getSize (mh_cell m head) - sz \<ge> 16 then malloc_split sz head m else Inr m) (\<lambda>m.
      bnd (nextHeader False head m) (\<lambda>n.
      Inr (headerToPtr head, hmod n (setPFree False) m))))"

partial_function (option) malloc_loop ::
    "(nat \<Rightarrow> bool) \<Rightarrow> nat \<Rightarrow> nat \<Rightarrow> mheap \<Rightarrow> (nat \<times> mheap) res option" where
  "malloc_loop brk sz head m =
     (if h_size (mh_cell m head) = 0 then Some (malloc_end brk sz head m)
      else if h_free (mh_cell m head) \<and> getSize (mh_cell m head) \<ge> sz then Some (malloc_take sz head m)
      else (case nextHeader False head m of
              Inl e \<Rightarrow> Some (Inl e)
            | Inr n \<Rightarrow> malloc_loop brk sz n m))"

definition malloc :: "(nat \<Rightarrow> bool) \<Rightarrow> nat \<Rightarrow> mheap \<Rightarrow> (nat \<times> mheap) res option" where
  "malloc brk sz m =
     (if seemsValid (mh_cell m (mh_first m)) then malloc_loop brk (align8 sz) (mh_first m) m
      else Some (Inl Assertion))"

definition merge_next :: "nat \<Rightarrow> mheap \<Rightarrow> mheap res" where
  "merge_next head m =
     bnd (nextHeader False head m) (\<lambda>nxtHead.
     if h_size (mh_cell m nxtHead) \<noteq> 0 \<and> h_free (mh_cell m nxtHead) then
       bnd (nextHeader False nxtHead m) (\<lambda>oldNxtNxtHead.
       bnd (hsetSize head (getSize (mh_cell m head) + getSize (mh_cell m nxtHead) + 8) m) (\<lambda>m.
       bnd (nextHeader False head m) (\<lambda>n. assertk (oldNxtNxtHead = n) (Inr m))))
     else Inr m)"

definition merge_prev :: "nat \<Rightarrow> mheap \<Rightarrow> (nat \<times> mheap) res" where
  "merge_prev head m =
     (if h_prevFree (mh_cell m head) then
        bnd (nextHeader False head m) (\<lambda>oldNxtHead.
        bnd (getPrevBoundaryTag head m) (\<lambda>boundTag.
        let prevHead = boundTag - getSize (mh_cell m boundTag) in
        bnd (nextHeader False prevHead m) (\<lambda>n. assertk (n = head)
       (bnd (hsetSize prevHead (getSize (mh_cell m prevHead) + getSize (mh_cell m head) + 8) m) (\<lambda>m.
        bnd (nextHeader False prevHead m) (\<lambda>n. assertk (n = oldNxtHead)
       (bnd (copy_tag prevHead m) (\<lambda>m. Inr (prevHead, m)))))))))
      else bnd (copy_tag head m) (\<lambda>m. Inr (head, m)))"

definition release_end :: "(nat \<Rightarrow> bool) \<Rightarrow> nat \<Rightarrow> mheap \<Rightarrow> mheap res" where
  "release_end brk head m =
     bnd (nextHeader False head m) (\<lambda>nxtHead.
     if h_size (mh_cell m nxtHead) = 0 then
       let m = hmod head (\<lambda>h. update (h\<lparr>h_free := False, h_prevFree := False\<rparr>)) m in
       bnd (sbrk brk 0 (- as_signed (getSize (mh_cell m head) + 8)) m) (\<lambda>(_, m).
       Inr (hmod head (\<lambda>h. h\<lparr>h_size := 0\<rparr>) m))
     else Inr m)"

definition free :: "(nat \<Rightarrow> bool) \<Rightarrow> nat \<Rightarrow> mheap \<Rightarrow> mheap res" where
  "free brk ptr m =
     (if ptr = 0 then Inr m
      else bnd (ptrToHeader ptr m) (\<lambda>head.
        assertk (seemsValid (mh_cell m head)) (assertk (\<not> h_free (mh_cell m head))
       (let m = hmod head (setFree True) m in
        bnd (nextHeader False head m) (\<lambda>n.
        let m = hmod n (setPFree True) m in
        bnd (merge_next head m) (\<lambda>m.
        bnd (merge_prev head m) (\<lambda>(head, m).
        release_end brk head m)))))))"

text \<open>\<open>realloc\<close>; \<open>memcpy\<close> copies the bytes of the old block.\<close>

definition copy_bytes :: "nat \<Rightarrow> nat \<Rightarrow> nat \<Rightarrow> mheap \<Rightarrow> mheap" where
  "copy_bytes dst src n m = m\<lparr>mh_data := (\<lambda>a. if dst \<le> a \<and> a < dst + n then mh_data m (src + (a - dst)) else mh_data m a)\<rparr>"

definition realloc :: "(nat \<Rightarrow> bool) \<Rightarrow> nat \<Rightarrow> nat \<Rightarrow> mheap \<Rightarrow> (nat \<times> mheap) res option" where
  "realloc brk ptr sz m =
     (if ptr = 0 \<and> sz = 0 then Some (Inr (0, m))
      else if sz = 0 then Some (bnd (free brk ptr m) (\<lambda>m. Inr (0, m)))
      else (case malloc brk sz m of None \<Rightarrow> None | Some r \<Rightarrow> Some (bnd r (\<lambda>(n, m).
        if ptr \<noteq> 0 then
          bnd (ptrToHeader ptr m) (\<lambda>h.
          let oldSize = getSize (mh_cell m h) in
          bnd (free brk ptr (copy_bytes n ptr (if sz > oldSize then oldSize else sz) m)) (\<lambda>m. Inr (n, m)))
        else Inr (n, m)))))"

section \<open>The blocks a heap consists of\<close>

text \<open>
  A block is its size and whether it is free. \<open>seg m a p bs b q\<close>: the headers from \<open>a\<close> up to
  \<open>b\<close> are those of the blocks \<open>bs\<close>; \<open>p\<close> and \<open>q\<close> say whether the block before \<open>a\<close> and the
  last one are free.
\<close>

definition hdr :: "mheap \<Rightarrow> nat \<Rightarrow> nat \<Rightarrow> bool \<Rightarrow> bool \<Rightarrow> bool" where
  "hdr m a s p f \<longleftrightarrow> getSize (mh_cell m a) = s \<and> h_prevFree (mh_cell m a) = p
     \<and> h_free (mh_cell m a) = f \<and> seemsValid (mh_cell m a)"

definition tag :: "mheap \<Rightarrow> nat \<Rightarrow> nat \<Rightarrow> bool" where
  "tag m a s \<longleftrightarrow> getSize (mh_cell m a) = s \<and> seemsValid (mh_cell m a)"

fun seg :: "mheap \<Rightarrow> nat \<Rightarrow> bool \<Rightarrow> (nat \<times> bool) list \<Rightarrow> nat \<Rightarrow> bool \<Rightarrow> bool" where
  "seg m a p [] b q \<longleftrightarrow> b = a \<and> q = p"
| "seg m a p ((s, f) # bs) b q \<longleftrightarrow> hdr m a s p f \<and> 0 < s \<and> s mod 8 = 0 \<and> \<not> (p \<and> f)
     \<and> (f \<longrightarrow> tag m (a + s) s) \<and> seg m (a + s + 8) f bs b q"

fun len_bs :: "(nat \<times> bool) list \<Rightarrow> nat" where
  "len_bs [] = 0"
| "len_bs ((s, f) # bs) = s + 8 + len_bs bs"

lemma len_bs_append [simp]: "len_bs (xs @ ys) = len_bs xs + len_bs ys"
  by (induction xs rule: len_bs.induct) auto

lemma seg_end: "seg m a p bs b q \<Longrightarrow> b = a + len_bs bs"
proof (induction bs arbitrary: a p rule: len_bs.induct)
  case (2 s f bs)
  then show ?case using 2(1)[of "a + s + 8" f] by simp
qed simp

lemma seg_append:
  "seg m a p (xs @ ys) b q \<longleftrightarrow> (\<exists>c r. seg m a p xs c r \<and> seg m c r ys b q)"
  by (induction xs arbitrary: a p rule: len_bs.induct) auto

lemma seg_frame:
  assumes "\<And>x. a \<le> x \<Longrightarrow> x < a + len_bs bs \<Longrightarrow> mh_cell m' x = mh_cell m x"
  shows "seg m' a p bs b q = seg m a p bs b q"
  using assms
proof (induction bs arbitrary: a p rule: len_bs.induct)
  case 1
  then show ?case by simp
next
  case (2 s f bs)
  have "mh_cell m' a = mh_cell m a" "mh_cell m' (a + s) = mh_cell m (a + s)" using 2(2) by simp_all
  moreover have "seg m' (a + s + 8) f bs b q = seg m (a + s + 8) f bs b q"
    using 2(2) by (intro 2(1)) simp
  ultimately show ?case by (simp add: hdr_def tag_def)
qed

definition heap_rep :: "mheap \<Rightarrow> (nat \<times> bool) list \<Rightarrow> bool" where
  "heap_rep m bs \<longleftrightarrow> (\<exists>e. seg m (mh_first m) False bs e False \<and> hdr m e 0 False False
     \<and> mh_Brk m = e + 8 \<and> mh_Brk m < 2 ^ 63 \<and> 0 < mh_first m)"

text \<open>Where the blocks are: address for the caller and size of the allocated ones.\<close>

fun allocd :: "nat \<Rightarrow> (nat \<times> bool) list \<Rightarrow> (nat \<times> nat) set" where
  "allocd a [] = {}"
| "allocd a ((s, f) # bs) = (if f then {} else {(a + 8, s)}) \<union> allocd (a + s + 8) bs"

lemma allocd_append: "allocd a (xs @ ys) = allocd a xs \<union> allocd (a + len_bs xs) ys"
  by (induction xs arbitrary: a rule: len_bs.induct) (auto simp: add.assoc)

lemma allocd_range: "(p, s) \<in> allocd a bs \<Longrightarrow> a + 8 \<le> p \<and> p + s \<le> a + len_bs bs"
  by (induction bs arbitrary: a rule: len_bs.induct) (fastforce split: if_splits)+

lemma allocd_disjoint:
  assumes "(p, s) \<in> allocd a bs" "(q, t) \<in> allocd a bs" "(p, s) \<noteq> (q, t)"
  shows "p + s + 8 \<le> q \<or> q + t + 8 \<le> p"
  using assms
proof (induction bs arbitrary: a rule: len_bs.induct)
  case 1
  then show ?case by simp
next
  case (2 u f bs)
  have r: "x \<ge> a + u + 16" if "(x, y) \<in> allocd (a + u + 8) bs" for x y
    using allocd_range[OF that] by simp
  show ?case using 2 r[of p s] r[of q t] by (fastforce split: if_splits)
qed

subsection \<open>Cells\<close>

lemma cell_hput [simp]: "mh_cell (hput a h m) x = (if x = a then h else mh_cell m x)"
  by (simp add: hput_def)

lemma cell_hmod [simp]: "mh_cell (hmod a f m) x = (if x = a then f (mh_cell m a) else mh_cell m x)"
  by (simp add: hmod_def)

lemma hput_rest [simp]: "mh_Brk (hput a h m) = mh_Brk m" "mh_first (hput a h m) = mh_first m"
  "mh_data (hput a h m) = mh_data m"
  by (simp_all add: hput_def)

lemma hmod_rest [simp]: "mh_Brk (hmod a f m) = mh_Brk m" "mh_first (hmod a f m) = mh_first m"
  "mh_data (hmod a f m) = mh_data m"
  by (simp_all add: hmod_def)

lemma hsetSize_ok: "sz mod 8 = 0 \<Longrightarrow> hsetSize a sz m = Inr (hmod a (\<lambda>h. h\<lparr>h_size := sz div 8\<rparr>) m)"
  by (simp add: hsetSize_def setSize_def hmod_def)

lemma update_simps [simp]:
  "seemsValid (update h)" "getSize (update h) = getSize h" "h_prevFree (update h) = h_prevFree h"
  "h_free (update h) = h_free h" "h_size (update h) = h_size h"
  by (auto simp: seemsValid_def update_def getSize_def)

lemma setFree_simps [simp]:
  "seemsValid (setFree f h)" "getSize (setFree f h) = getSize h" "h_prevFree (setFree f h) = h_prevFree h"
  "h_free (setFree f h) = f" "h_size (setFree f h) = h_size h"
  by (auto simp: setFree_def getSize_def)

lemma setPFree_simps [simp]:
  "seemsValid (setPFree f h)" "getSize (setPFree f h) = getSize h" "h_prevFree (setPFree f h) = f"
  "h_free (setPFree f h) = h_free h" "h_size (setPFree f h) = h_size h"
  by (auto simp: setPFree_def getSize_def)

lemma size_upd_simps [simp]:
  "seemsValid (h\<lparr>h_size := n\<rparr>) = seemsValid h" "getSize (h\<lparr>h_size := n\<rparr>) = 8 * n"
  "getSize (h\<lparr>h_size := n, h_prevFree := pf, h_free := f\<rparr>) = 8 * n"
  "getSize (h\<lparr>h_free := f\<rparr>) = getSize h" "getSize (h\<lparr>h_free := f, h_prevFree := pf\<rparr>) = getSize h"
  by (simp_all add: seemsValid_def getSize_def)

lemma size_zero: "h_size h = 0 \<longleftrightarrow> getSize h = 0"
  by (simp add: getSize_def)

lemma mult8: "s mod 8 = 0 \<Longrightarrow> 8 * (s div 8) = (s :: nat)"
  by presburger

lemma hdr_simps:
  assumes "hdr m a s p f"
  shows "getSize (mh_cell m a) = s" "h_prevFree (mh_cell m a) = p" "h_free (mh_cell m a) = f"
    "seemsValid (mh_cell m a)" "h_size (mh_cell m a) = s div 8"
  using assms by (auto simp: hdr_def getSize_def)

lemma next_ok:
  assumes "hdr m a s p f" "i \<or> seemsValid (mh_cell m (a + s + 8))"
  shows "nextHeader i a m = Inr (a + s + 8)"
  using assms hdr_simps[OF assms(1)] by (simp add: nextHeader_def Let_def)

subsection \<open>Allocation\<close>

text \<open>What \<open>malloc\<close> does to the list: first fit, split, or a new block at the end.\<close>

definition take_block :: "nat \<Rightarrow> nat \<Rightarrow> (nat \<times> bool) list" where
  "take_block s n = (if s - n \<ge> 16 then [(n, False), (s - n - 8, True)] else [(s, False)])"

fun first_fit :: "nat \<Rightarrow> nat \<Rightarrow> (nat \<times> bool) list \<Rightarrow> nat \<times> (nat \<times> bool) list" where
  "first_fit n a [] = (a + 8, [(n, False)])"
| "first_fit n a ((s, f) # bs) =
     (if f \<and> n \<le> s then (a + 8, take_block s n @ bs)
      else (let (p, bs') = first_fit n (a + s + 8) bs in (p, (s, f) # bs')))"

definition no_fit :: "nat \<Rightarrow> (nat \<times> bool) list \<Rightarrow> bool" where
  "no_fit n bs \<longleftrightarrow> (\<forall>(s, f)\<in>set bs. \<not> (f \<and> n \<le> s))"

lemma first_fit_none: "no_fit n bs \<Longrightarrow> first_fit n a bs = (a + len_bs bs + 8, bs @ [(n, False)])"
  by (induction n a bs rule: first_fit.induct) (auto simp: no_fit_def)

lemma first_fit_some:
  "no_fit n xs \<Longrightarrow> n \<le> s \<Longrightarrow> first_fit n a (xs @ (s, True) # ys) =
     (a + len_bs xs + 8, xs @ take_block s n @ ys)"
  by (induction n a xs rule: first_fit.induct) (auto simp: no_fit_def)

lemma fit_cases:
  obtains "no_fit n bs" | xs s ys where "bs = xs @ (s, True) # ys" "no_fit n xs" "n \<le> s"
proof (cases "no_fit n bs")
  case False
  then have "\<exists>x\<in>set bs. snd x \<and> n \<le> fst x" by (force simp: no_fit_def)
  then obtain xs x ys where "bs = xs @ x # ys" "snd x \<and> n \<le> fst x" "\<forall>y\<in>set xs. \<not> (snd y \<and> n \<le> fst y)"
    using split_list_first_prop[of bs "\<lambda>x. snd x \<and> n \<le> fst x"] by blast
  then show ?thesis using that(2)[of xs "fst x" ys] by (cases x) (force simp: no_fit_def)
qed (use that in blast)

lemma loop_skip:
  assumes "seg m a p xs c r" "no_fit n xs" "seemsValid (mh_cell m c)"
  shows "malloc_loop brk n a m = malloc_loop brk n c m"
  using assms
proof (induction xs arbitrary: a p rule: len_bs.induct)
  case 1
  then show ?case by simp
next
  case (2 s f xs)
  from 2(2) have h: "hdr m a s p f" "0 < s" "s mod 8 = 0" and t: "seg m (a + s + 8) f xs c r" by simp_all
  have "seemsValid (mh_cell m (a + s + 8))"
    using t 2(4) by (cases xs) (auto simp: hdr_def)
  from next_ok[OF h(1), of False] this have n: "nextHeader False a m = Inr (a + s + 8)" by simp
  have "h_size (mh_cell m a) \<noteq> 0" using hdr_simps(1)[OF h(1)] h(2) by (simp add: size_zero)
  moreover have "\<not> (h_free (mh_cell m a) \<and> n \<le> getSize (mh_cell m a))"
    using 2(3) hdr_simps[OF h(1)] by (auto simp: no_fit_def)
  ultimately have "malloc_loop brk n a m = malloc_loop brk n (a + s + 8) m"
    using n by (subst malloc_loop.simps) auto
  also have "\<dots> = malloc_loop brk n c m"
    using 2(1)[OF t _ 2(4)] 2(3) by (simp add: no_fit_def)
  finally show ?case .
qed

lemma as_signed_small: "n < 2 ^ 63 \<Longrightarrow> as_signed n = int n"
  by (simp add: as_signed_def)

lemma malloc_end_ok:
  assumes r: "seg m (mh_first m) False bs e False" "hdr m e 0 False False"
    "mh_Brk m = e + 8" "0 < mh_first m" and n: "0 < n" "n mod 8 = 0"
    and b: "mh_Brk m + n + 8 < 2 ^ 63" "brk (mh_Brk m + n + 8)"
  shows "\<exists>m'. malloc_end brk n e m = Inr (e + 8, m') \<and> heap_rep m' (bs @ [(n, False)])
    \<and> mh_first m' = mh_first m \<and> mh_data m' = mh_data m \<and> mh_Brk m' = mh_Brk m + n + 8"
proof -
  note h = hdr_simps[OF r(2)]
  have a: "nat ((int (mh_Brk m) + as_signed (8 + n)) mod 2 ^ 64) = mh_Brk m + n + 8"
  proof -
    define x where "x = mh_Brk m + n + 8"
    have "int (mh_Brk m) + as_signed (8 + n) = int x" using b(1) by (simp add: as_signed_small x_def)
    moreover have "x < 2 ^ 63" using b(1) by (simp add: x_def)
    then have "nat (int x mod 2 ^ 64) = x" by simp
    ultimately show ?thesis by (simp add: x_def)
  qed
  have s: "sbrk brk 0 (as_signed (8 + n)) m = Inr (e + 8, m\<lparr>mh_Brk := mh_Brk m + n + 8\<rparr>)"
    unfolding sbrk_def Let_def using r(3) b(2) a by simp
  let ?m1 = "m\<lparr>mh_Brk := mh_Brk m + n + 8\<rparr>"
  let ?m2 = "hmod e (setFree False) (hmod e (\<lambda>h. h\<lparr>h_size := n div 8\<rparr>) ?m1)"
  let ?m3 = "hmod (e + n + 8) (\<lambda>h. update (h\<lparr>h_size := 0, h_prevFree := False, h_free := False\<rparr>)) ?m2"
  have nx: "nextHeader True e ?m2 = Inr (e + n + 8)" using mult8[OF n(2)] by (simp add: nextHeader_def Let_def)
  have "malloc_end brk n e m = Inr (e + 8, ?m3)"
    unfolding malloc_end_def s using n(2) nx by (simp add: hsetSize_ok headerToPtr_def Let_def)
  moreover have "heap_rep ?m3 (bs @ [(n, False)])"
    unfolding heap_rep_def
  proof (intro exI conjI)
    have "seg ?m3 (mh_first m) False bs e False = seg m (mh_first m) False bs e False"
      using seg_end[OF r(1)] by (intro seg_frame) auto
    then show "seg ?m3 (mh_first ?m3) False (bs @ [(n, False)]) (e + n + 8) False"
      using r(1) n mult8[OF n(2)] h(2) by (auto simp: seg_append hdr_def)
    show "hdr ?m3 (e + n + 8) 0 False False" by (simp add: hdr_def) (simp add: getSize_def)
  qed (use r b in simp_all)
  ultimately show ?thesis by (intro exI[of _ ?m3]) simp
qed

lemma seg_first:
  assumes "seg m a p bs e q" "hdr m e 0 q False"
  shows "seemsValid (mh_cell m a) \<and> h_prevFree (mh_cell m a) = p"
  using assms by (cases bs) (auto simp: hdr_def)

text \<open>Changing the \<open>prevFree\<close> flag of the first header.\<close>

lemma seg_setp:
  assumes "seg m a p bs b q" "bs \<noteq> []" "p' \<longrightarrow> \<not> snd (hd bs)"
  shows "seg (hmod a (setPFree p') m) a p' bs b q"
proof -
  obtain s f bs' where bs: "bs = (s, f) # bs'" using assms(2) by (cases bs) auto
  have "seg (hmod a (setPFree p') m) (a + s + 8) f bs' b q = seg m (a + s + 8) f bs' b q"
    by (rule seg_frame) auto
  then show ?thesis using assms(1,3) by (auto simp: bs hdr_def tag_def)
qed

lemma seg_upd_before:
  "x < a \<Longrightarrow> seg (hput x h m) a p bs b q = seg m a p bs b q"
  "x < a \<Longrightarrow> seg (hmod x f m) a p bs b q = seg m a p bs b q"
  by (rule seg_frame; auto)+

lemma seg_upd_after:
  "seg m a p bs b q \<Longrightarrow> b \<le> x \<Longrightarrow> seg (hput x h m) a p bs b q"
  "seg m a p bs b q \<Longrightarrow> b \<le> x \<Longrightarrow> seg (hmod x f m) a p bs b q"
  using seg_end[of m a p bs b q] seg_frame[of a bs "hput x h m" m] seg_frame[of a bs "hmod x f m" m] by auto

lemma hdr_upd:
  "x \<noteq> a \<Longrightarrow> hdr (hput x h m) a s p f = hdr m a s p f"
  "x \<noteq> a \<Longrightarrow> hdr (hmod x g m) a s p f = hdr m a s p f"
  by (auto simp: hdr_def)

lemma seg_two:
  assumes "hdr m c n p False" "0 < n" "n mod 8 = 0" "hdr m (c + n + 8) d False True" "0 < d" "d mod 8 = 0"
    "tag m (c + n + 8 + d) d" "seg m (c + n + 8 + d + 8) True ys e q"
  shows "seg m c p ((n, False) # (d, True) # ys) e q"
  using assms by simp

lemma malloc_take_ok:
  assumes x: "seg m (mh_first m) False xs c False" and h: "hdr m c s False True"
    and s: "0 < s" "s mod 8 = 0" and tg: "tag m (c + s) s"
    and y: "seg m (c + s + 8) True ys e False" and e: "hdr m e 0 False False"
    and n: "0 < n" "n mod 8 = 0" "n \<le> s"
    and rest: "mh_Brk m = e + 8" "mh_Brk m < 2 ^ 63" "0 < mh_first m"
  shows "\<exists>m'. malloc_take n c m = Inr (c + 8, m') \<and> heap_rep m' (xs @ take_block s n @ ys)
    \<and> mh_first m' = mh_first m \<and> mh_data m' = mh_data m \<and> mh_Brk m' = mh_Brk m"
proof -
  have yn: "ys \<noteq> []" using y by auto
  note ee = seg_end[OF y]
  note hs = hdr_simps[OF h]
  note f = seg_first[OF y e]
  let ?m1 = "hmod c (setFree False) m"
  have g1: "getSize (mh_cell ?m1 c) = s" using hs by simp
  have nx: "nextHeader False c ?m1 = Inr (c + s + 8)" using hs f by (simp add: nextHeader_def Let_def)
  show ?thesis
  proof (cases "16 \<le> s - n")
    case False
    let ?m2 = "hmod (c + s + 8) (setPFree False) ?m1"
    have "malloc_take n c m = Inr (c + 8, ?m2)"
      unfolding malloc_take_def Let_def g1 using False nx by (simp add: headerToPtr_def)
    moreover have "heap_rep ?m2 (xs @ take_block s n @ ys)"
      unfolding heap_rep_def
    proof (intro exI conjI)
      have "seg ?m2 (mh_first m) False xs c False" using x by (simp add: seg_upd_after)
      moreover have "hdr ?m2 c s False False" using hs by (simp add: hdr_def)
      moreover have "seg ?m2 (c + s + 8) False ys e False"
        by (rule seg_setp[OF _ yn]) (use y in \<open>simp_all add: seg_upd_before\<close>)
      ultimately show "seg ?m2 (mh_first ?m2) False (xs @ take_block s n @ ys) e False"
        using False s by (auto simp: seg_append take_block_def)
      show "hdr ?m2 e 0 False False" using e ee yn by (cases ys) (auto simp: hdr_def)
    qed (use rest in simp_all)
    ultimately show ?thesis by (intro exI[of _ ?m2]) simp
  next
    case True
    then obtain d where d: "s = n + 8 + d" "8 \<le> d" using n(3) by (metis add.assoc add_diff_cancel_left'
          le_add_diff_inverse le_diff_conv2 numeral_Bit0 add_leE nat_add_left_cancel_le)
    have d8: "d mod 8 = 0" using s(2) n(2) d(1) by presburger
    let ?m2 = "hmod c (\<lambda>h. h\<lparr>h_size := n div 8\<rparr>) ?m1"
    let ?N = "c + n + 8"
    let ?m3 = "hmod ?N (\<lambda>h. h\<lparr>h_size := d div 8\<rparr>) ?m2"
    let ?m4 = "hmod ?N (\<lambda>h. update (h\<lparr>h_free := True, h_prevFree := False\<rparr>)) ?m3"
    let ?m5 = "hput (c + s) (mh_cell ?m4 ?N) ?m4"
    have gn: "8 * (n div 8) = n" "8 * (d div 8) = d" using mult8 n(2) d8 by auto
    have a2: "nextHeader True c ?m2 = Inr ?N" using hs gn by (simp add: nextHeader_def Let_def)
    have sub: "s - n - 8 = d" using d by simp
    have NS: "?N + d = c + s" using d by simp
    have c4: "getSize (mh_cell ?m4 ?N) = d" "h_free (mh_cell ?m4 ?N)" "\<not> h_prevFree (mh_cell ?m4 ?N)"
      "seemsValid (mh_cell ?m4 ?N)" using gn by simp_all
    have v4: "seemsValid (mh_cell ?m4 (c + s + 8))" "h_prevFree (mh_cell ?m4 (c + s + 8))" using f d by simp_all
    have h4: "hdr ?m4 ?N d False True" using c4 by (simp add: hdr_def)
    have a4: "nextHeader False ?N ?m4 = Inr (c + s + 8)"
      using next_ok[OF h4, of False] v4(1) unfolding NS by simp
    have a5: "copy_tag ?N ?m4 = Inr ?m5" 
      unfolding copy_tag_def getNextBoundaryTag_def c4(1) NS using c4(2,4) by simp
    have c5: "mh_cell ?m5 ?N = mh_cell ?m4 ?N" "mh_cell ?m5 (c + s + 8) = mh_cell ?m4 (c + s + 8)"
      "mh_cell ?m5 (c + s) = mh_cell ?m4 ?N" using d by simp_all
    have h5': "hdr ?m5 ?N d False True" unfolding hdr_def c5 using c4 by simp
    have a6: "getNextBoundaryTag ?N ?m5 = Inr (c + s)" "nextHeader False ?N ?m5 = Inr (c + s + 8)"
      "getPrevBoundaryTag (c + s + 8) ?m5 = Inr (c + s)"
    proof -
      show "getNextBoundaryTag ?N ?m5 = Inr (c + s)"
        unfolding getNextBoundaryTag_def c5 c4(1) NS using c4 by simp
      have "seemsValid (mh_cell ?m5 (c + s + 8))" unfolding c5 by (rule v4(1))
      then show "nextHeader False ?N ?m5 = Inr (c + s + 8)" using next_ok[OF h5', of False] unfolding NS by simp
      have "c + s + 8 - 8 = c + s" by simp
      then show "getPrevBoundaryTag (c + s + 8) ?m5 = Inr (c + s)"
        unfolding getPrevBoundaryTag_def c5 using v4 c4(4) c5(3) by simp
    qed
    have sp: "malloc_split n c ?m1 = Inr ?m5"
      unfolding malloc_split_def nx bnd.simps Let_def g1 hsetSize_ok[OF n(2)] a2 sub hsetSize_ok[OF d8] a4 a5 a6 c5
      using v4 by simp
    let ?m6 = "hmod ?N (setPFree False) ?m5"
    have h5: "mh_cell ?m5 c = (setFree False (mh_cell m c))\<lparr>h_size := n div 8\<rparr>" using d by simp
    have a7: "nextHeader False c ?m5 = Inr ?N"
      unfolding nextHeader_def Let_def h5 using gn c4 c5(1) by simp
    have "malloc_take n c m = Inr (c + 8, ?m6)"
      unfolding malloc_take_def Let_def g1 using True sp a7 by (simp add: headerToPtr_def)
    moreover have "heap_rep ?m6 (xs @ take_block s n @ ys)"
      unfolding heap_rep_def
    proof (intro exI conjI)
      have q1: "seg ?m6 (mh_first m) False xs c False" using x by (simp add: seg_upd_after)
      have q2: "hdr ?m6 c n False False" using hs gn d by (simp add: hdr_def)
      have q3: "hdr ?m6 ?N d False True" using c4 d by (simp add: hdr_def)
      have q4: "tag ?m6 (?N + d) d" using c4 d unfolding NS by (simp add: tag_def)
      have "seg ?m6 (c + s + 8) True ys e False" using y d by (simp add: seg_upd_before)
      then have q5: "seg ?m6 (?N + d + 8) True ys e False" unfolding NS .
      have "0 < d" using d(2) by simp
      from seg_two[OF q2 n(1,2) q3 this d8 q4 q5] q1
      have "seg ?m6 (mh_first m) False (xs @ [(n, False), (d, True)] @ ys) e False"
        unfolding seg_append append_Cons append_Nil by blast
      moreover have "take_block s n = [(n, False), (d, True)]" using True sub by (simp add: take_block_def)
      ultimately show "seg ?m6 (mh_first ?m6) False (xs @ take_block s n @ ys) e False" by simp
      show "hdr ?m6 e 0 False False" using e ee d by (auto simp: hdr_def)
    qed (use rest in simp_all)
    ultimately show ?thesis by (intro exI[of _ ?m6]) simp
  qed
qed

lemma malloc_refines:
  assumes r: "heap_rep m bs" and n: "0 < n" "n < 2 ^ 63" "nn = align8 n"
    and b: "mh_Brk m + nn + 8 < 2 ^ 63" "brk (mh_Brk m + nn + 8)"
  shows "\<exists>m'. malloc brk n m = Some (Inr (fst (first_fit nn (mh_first m) bs), m'))
    \<and> heap_rep m' (snd (first_fit nn (mh_first m) bs)) \<and> mh_data m' = mh_data m \<and> mh_first m' = mh_first m"
proof -
  have nn: "0 < nn" "nn mod 8 = 0" using n by (simp_all add: align8_def)
  from r obtain e where e: "seg m (mh_first m) False bs e False" "hdr m e 0 False False"
    "mh_Brk m = e + 8" "mh_Brk m < 2 ^ 63" "0 < mh_first m" by (auto simp: heap_rep_def)
  have v: "seemsValid (mh_cell m (mh_first m))" using seg_first[OF e(1,2)] by simp
  consider (none) "no_fit nn bs" | (some) xs s ys where "bs = xs @ (s, True) # ys" "no_fit nn xs" "nn \<le> s"
    by (rule fit_cases)
  then show ?thesis
  proof cases
    case none
    have "malloc_loop brk nn (mh_first m) m = malloc_loop brk nn e m"
      by (rule loop_skip[OF e(1) none]) (use hdr_simps[OF e(2)] in simp)
    also have "\<dots> = Some (malloc_end brk nn e m)"
      using hdr_simps[OF e(2)] by (subst malloc_loop.simps) simp
    finally show ?thesis
      using malloc_end_ok[where brk = brk, OF e(1-3,5) nn b] v n(3) first_fit_none[OF none, of "mh_first m"] seg_end[OF e(1)]
      by (auto simp: malloc_def)
  next
    case some
    from e(1)[unfolded some(1) seg_append] obtain c q where
      x: "seg m (mh_first m) False xs c q" and y: "seg m c q ((s, True) # ys) e False" by blast
    from y have q: "q = False" and h: "hdr m c s False True" and s: "0 < s" "s mod 8 = 0"
      and tg: "tag m (c + s) s" and yy: "seg m (c + s + 8) True ys e False" by auto
    note hs = hdr_simps[OF h]
    have "malloc_loop brk nn (mh_first m) m = malloc_loop brk nn c m"
      by (rule loop_skip[OF x some(2)]) (use hs in simp)
    also have "\<dots> = Some (malloc_take nn c m)"
      using hs s some(3) size_zero[of "mh_cell m c"] by (subst malloc_loop.simps) simp
    finally show ?thesis
      using malloc_take_ok[where ?n = nn, OF x[unfolded q] h s tg yy e(2) nn some(3) e(3-5)] v n(3)
        first_fit_some[OF some(2,3), of "mh_first m" ys] seg_end[OF x] some(1)
      by (auto simp: malloc_def)
  qed
qed

lemma first_fit_allocd:
  "\<exists>k \<ge> n. allocd a (snd (first_fit n a bs)) = insert (fst (first_fit n a bs), k) (allocd a bs)
     \<and> (fst (first_fit n a bs), k) \<notin> allocd a bs"
proof (rule fit_cases[of n bs])
  assume "no_fit n bs"
  moreover have "(a + len_bs bs + 8, n) \<notin> allocd a bs" using allocd_range[of _ n a bs] by fastforce
  ultimately show ?thesis by (auto simp: first_fit_none allocd_append)
next
  fix xs s ys assume b: "bs = xs @ (s, True) # ys" "no_fit n xs" "n \<le> s"
  have new: "(a + len_bs xs + 8, k) \<notin> allocd a bs" for k
    using allocd_range[of _ k a xs] allocd_range[of _ k "a + len_bs xs + s + 8" ys]
    by (fastforce simp: b(1) allocd_append)
  show ?thesis
  proof (cases "16 \<le> s - n")
    case True
    then have "a + len_bs xs + n + 8 + (s - n - 8) + 8 = a + len_bs xs + s + 8" by simp
    then show ?thesis using b True new
      by (intro exI[of _ n]) (auto simp: first_fit_some allocd_append take_block_def ac_simps)
  next
    case False
    then show ?thesis using b new by (auto simp: first_fit_some allocd_append take_block_def)
  qed
qed

subsection \<open>Freeing\<close>

text \<open>
  The state between the steps of \<open>free\<close>: the block at \<open>c\<close> is free, the flag of the header
  after it is set, and its boundary tag is not written yet.
\<close>

definition half_free :: "mheap \<Rightarrow> (nat \<times> bool) list \<Rightarrow> nat \<Rightarrow> bool \<Rightarrow> nat \<Rightarrow> (nat \<times> bool) list \<Rightarrow> nat \<Rightarrow> bool" where
  "half_free m xs c r S zs e \<longleftrightarrow> seg m (mh_first m) False xs c r \<and> hdr m c S r True
     \<and> 0 < S \<and> S mod 8 = 0 \<and> seg m (c + S + 8) True zs e (zs = []) \<and> hdr m e 0 (zs = []) False"

definition same_rest :: "mheap \<Rightarrow> mheap \<Rightarrow> bool" where
  "same_rest m m' \<longleftrightarrow> mh_Brk m' = mh_Brk m \<and> mh_first m' = mh_first m \<and> mh_data m' = mh_data m"

lemma same_rest_upd [simp]: "same_rest m (hput a h m)" "same_rest m (hmod a f m)"
  by (simp_all add: same_rest_def)

lemma same_rest_trans: "same_rest m m1 \<Longrightarrow> same_rest m1 m2 \<Longrightarrow> same_rest m m2"
  by (simp add: same_rest_def)

lemma merge_next_ok:
  assumes x: "seg m (mh_first m) False xs c r" and h: "hdr m c s r False" and s: "0 < s" "s mod 8 = 0"
    and y: "seg m (c + s + 8) False ys e False" and e: "hdr m e 0 False False"
  defines "m2 \<equiv> hmod (c + s + 8) (setPFree True) (hmod c (setFree True) m)"
  shows "\<exists>m' S zs. merge_next c m2 = Inr m' \<and> half_free m' xs c r S zs e \<and> same_rest m m'
    \<and> allocd (c + S + 8) zs = allocd (c + s + 8) ys"
proof -
  let ?n = "c + s + 8"
  note ee = seg_end[OF y]
  note hs = hdr_simps[OF h]
  have h2: "hdr m2 c s r True" using hs by (simp add: m2_def hdr_def)
  have v2: "seemsValid (mh_cell m2 ?n)" by (simp add: m2_def)
  have nx: "nextHeader False c m2 = Inr ?n" by (rule next_ok[OF h2]) (use v2 in simp)
  have x2: "seg m2 (mh_first m) False xs c r" using x by (simp add: m2_def seg_upd_after)
  have cs: "mh_cell m2 ?n = setPFree True (mh_cell m ?n)" by (simp add: m2_def)
  have oth: "mh_cell m2 a = mh_cell m a" if "a \<noteq> c" "a \<noteq> ?n" for a using that by (simp add: m2_def)
  have sr: "same_rest m m2" by (simp add: m2_def same_rest_def)
  show ?thesis
  proof (cases "h_size (mh_cell m2 ?n) \<noteq> 0 \<and> h_free (mh_cell m2 ?n)")
    case False
    have "half_free m2 xs c r s ys e"
    proof (cases ys)
      case Nil
      then have "e = ?n" using y by simp
      then show ?thesis using x2 h2 s hdr_simps[OF e] Nil sr cs
        by (simp add: half_free_def same_rest_def hdr_def)
    next
      case (Cons z zs)
      obtain t f where z: "z = (t, f)" by (cases z)
      have hz: "hdr m ?n t False f" "0 < t" using y Cons z by auto
      have nf: "\<not> f" using False hdr_simps(1,3)[OF hz(1)] hz(2) cs by (auto simp: size_zero)
      have "seg (hmod ?n (setPFree True) (hmod c (setFree True) m)) ?n True ys e False"
        by (rule seg_setp) (use y Cons z nf in \<open>simp_all add: seg_upd_before del: seg.simps\<close>)
      then have "seg m2 ?n True ys e False" by (simp add: m2_def)
      moreover have "hdr m2 e 0 False False"
        using e ee Cons z oth[of e] by (simp add: hdr_def)
      ultimately show ?thesis using x2 h2 s sr Cons by (simp add: half_free_def same_rest_def)
    qed
    moreover have "merge_next c m2 = Inr m2" using nx False by (auto simp: merge_next_def)
    ultimately show ?thesis using sr by blast
  next
    case True
    have "ys \<noteq> []"
    proof
      assume "ys = []"
      then have "mh_cell m ?n = mh_cell m e" using y by simp
      then show False using True hdr_simps[OF e] cs by simp
    qed
    then obtain t f zs where ys: "ys = (t, f) # zs" by (cases ys) auto
    have hz: "hdr m ?n t False f" "0 < t" "t mod 8 = 0" using y ys by auto
    have f: "f" using True hdr_simps(3)[OF hz(1)] cs by simp
    let ?d = "?n + t + 8"
    have yz: "seg m ?d True zs e False" and zn: "zs \<noteq> []" using y ys f by auto
    let ?m3 = "hmod c (\<lambda>h. h\<lparr>h_size := (s + t + 8) div 8\<rparr>) m2"
    have gn: "getSize (mh_cell m2 ?n) = t" using cs hdr_simps[OF hz(1)] by simp
    have h2n: "hdr m2 ?n t True True" using cs hdr_simps[OF hz(1)] f by (simp add: hdr_def)
    have vd: "seemsValid (mh_cell m2 ?d)" using seg_first[OF yz e] oth[of ?d] by simp
    have n2: "nextHeader False ?n m2 = Inr ?d" by (rule next_ok[OF h2n]) (use vd in simp)
    have m8: "(s + t + 8) mod 8 = 0" using s(2) hz(3) by presburger
    have h3: "hdr ?m3 c (s + t + 8) r True" using hdr_simps[OF h2] mult8[OF m8] by (simp add: hdr_def)
    have cd: "c + (s + t + 8) + 8 = ?d" by simp
    have n3: "nextHeader False c ?m3 = Inr ?d"
      using next_ok[OF h3, of False] vd unfolding cd by simp
    have "merge_next c m2 = Inr ?m3"
      unfolding merge_next_def nx bnd.simps gn hdr_simps(1)[OF h2] hsetSize_ok[OF m8] n2 n3 using True by simp
    moreover have "half_free ?m3 xs c r (s + t + 8) zs e"
    proof -
      have "seg ?m3 ?d True zs e False = seg m ?d True zs e False" by (rule seg_frame) (simp add: oth)
      moreover have "hdr ?m3 e 0 False False"
        using e seg_end[OF yz] oth[of e] by (simp add: hdr_def)
      ultimately show ?thesis
        using x2 h3 s m8 yz zn sr unfolding half_free_def cd by (simp add: seg_upd_after same_rest_def)
    qed
    moreover have "same_rest m ?m3" using sr by (simp add: same_rest_def)
    moreover have "allocd (c + (s + t + 8) + 8) zs = allocd ?n ys" unfolding cd using ys f by simp
    ultimately show ?thesis by blast
  qed
qed

text \<open>After the merge with the block before: one free block with its tag, no free block before it.\<close>

definition one_free :: "mheap \<Rightarrow> (nat \<times> bool) list \<Rightarrow> nat \<Rightarrow> nat \<Rightarrow> (nat \<times> bool) list \<Rightarrow> nat \<Rightarrow> bool" where
  "one_free m xs c S zs e \<longleftrightarrow> half_free m xs c False S zs e \<and> tag m (c + S) S"

lemma copy_tag_ok:
  assumes "half_free m xs c False S zs e"
  shows "\<exists>m'. copy_tag c m = Inr m' \<and> one_free m' xs c S zs e \<and> same_rest m m'"
proof -
  have h: "hdr m c S False True" "0 < S" and x: "seg m (mh_first m) False xs c False"
    and z: "seg m (c + S + 8) True zs e (zs = [])" and e: "hdr m e 0 (zs = []) False" and S8: "S mod 8 = 0"
    using assms by (simp_all add: half_free_def)
  let ?m' = "hput (c + S) (mh_cell m c) m"
  have "copy_tag c m = Inr ?m'" using hdr_simps[OF h(1)] by (simp add: copy_tag_def getNextBoundaryTag_def)
  moreover have "one_free ?m' xs c S zs e"
    using h x z e S8 seg_end[OF z] hdr_simps[OF h(1)]
    by (auto simp: one_free_def half_free_def tag_def hdr_def seg_upd_after seg_upd_before)
  ultimately show ?thesis by simp
qed

lemma merge_prev_ok:
  assumes hf: "half_free m xs c r S zs e"
  shows "\<exists>m' xs' b T. merge_prev c m = Inr (b, m') \<and> one_free m' xs' b T zs e \<and> same_rest m m'
    \<and> allocd (mh_first m) xs' = allocd (mh_first m) xs \<and> b + T = c + S"
proof -
  have h: "hdr m c S r True" "0 < S" and x: "seg m (mh_first m) False xs c r"
    and z: "seg m (c + S + 8) True zs e (zs = [])" and e: "hdr m e 0 (zs = []) False" and S8: "S mod 8 = 0"
    using hf by (simp_all add: half_free_def)
  note hs = hdr_simps[OF h(1)]
  show ?thesis
  proof (cases r)
    case False
    then have "half_free m xs c False S zs e" using hf by simp
    from copy_tag_ok[OF this] show ?thesis using hs False by (auto simp: merge_prev_def)
  next
    case True
    have "xs \<noteq> []" using x True by auto
    then obtain xs' u f where xs: "xs = xs' @ [(u, f)]" by (cases xs rule: rev_cases) auto
    from x[unfolded xs seg_append] obtain b q where
      x': "seg m (mh_first m) False xs' b q" and hb: "hdr m b u q f" "0 < u" "u mod 8 = 0" "\<not> (q \<and> f)"
      "f \<longrightarrow> tag m (b + u) u" and c: "c = b + u + 8" "r = f" by auto
    have f: "f" "q = False" using True c hb(4) by auto
    have tg: "tag m (b + u) u" using hb(5) f by simp
    note hbs = hdr_simps[OF hb(1)]
    let ?d = "c + S + 8"
    have vd: "seemsValid (mh_cell m ?d)" using seg_first[OF z e] by simp
    have n1: "nextHeader False c m = Inr ?d" by (rule next_ok[OF h(1)]) (use vd in simp)
    have cu: "c - 8 = b + u" using c by simp
    have pb: "getPrevBoundaryTag c m = Inr (b + u)"
      using hs True tg by (simp add: getPrevBoundaryTag_def cu tag_def)
    have gp: "b + u - getSize (mh_cell m (b + u)) = b" using tg by (simp add: tag_def)
    have n2: "nextHeader False b m = Inr c" using next_ok[OF hb(1), of False] hs c by simp
    let ?T = "u + S + 8"
    have T8: "?T mod 8 = 0" using hb(3) S8 by presburger
    let ?m1 = "hmod b (\<lambda>h. h\<lparr>h_size := ?T div 8\<rparr>) m"
    have bT: "b + ?T + 8 = ?d" using c by simp
    have h1: "hdr ?m1 b ?T False True" using hbs f mult8[OF T8] by (simp add: hdr_def)
    have nd: "?d \<noteq> b" using c by simp
    have n3: "nextHeader False b ?m1 = Inr ?d"
      using next_ok[OF h1, of False] vd nd unfolding bT by simp
    have hf1: "half_free ?m1 xs' b False ?T zs e"
      unfolding half_free_def bT
      using x' f h1 T8 z e seg_end[OF z] c by (simp add: seg_upd_after seg_upd_before hdr_upd)
    from copy_tag_ok[OF hf1] obtain m' where
      m': "copy_tag b ?m1 = Inr m'" "one_free m' xs' b ?T zs e" "same_rest ?m1 m'" by blast
    have "merge_prev c m = Inr (b, m')"
      unfolding merge_prev_def n1 pb bnd.simps Let_def gp n2 hbs(1) hs(1) hsetSize_ok[OF T8] n3
      using hs True m'(1) by simp
    moreover have "allocd (mh_first m) xs' = allocd (mh_first m) xs" by (simp add: xs allocd_append f)
    moreover have "b + ?T = c + S" using c by simp
    moreover have "same_rest m m'" using m'(3) by (simp add: same_rest_def)
    ultimately show ?thesis using m'(2) by blast
  qed
qed

lemma release_end_ok:
  assumes o: "one_free m xs b T zs e" and B: "mh_Brk m = e + 8" "mh_Brk m < 2 ^ 63" "0 < mh_first m"
    and brk: "brk (b + 8)"
  shows "\<exists>m' bs. release_end brk b m = Inr m' \<and> heap_rep m' bs \<and> mh_first m' = mh_first m \<and> mh_data m' = mh_data m
    \<and> allocd (mh_first m) bs = allocd (mh_first m) xs \<union> allocd (b + T + 8) zs"
proof -
  have h: "hdr m b T False True" "0 < T" and x: "seg m (mh_first m) False xs b False"
    and z: "seg m (b + T + 8) True zs e (zs = [])" and e: "hdr m e 0 (zs = []) False" and T8: "T mod 8 = 0"
    and tg: "tag m (b + T) T"
    using o by (simp_all add: one_free_def half_free_def)
  note hs = hdr_simps[OF h(1)]
  have vd: "seemsValid (mh_cell m (b + T + 8))" using seg_first[OF z e] by simp
  have n1: "nextHeader False b m = Inr (b + T + 8)" by (rule next_ok[OF h(1)]) (use vd in simp)
  note be = seg_end[OF x]
  show ?thesis
  proof (cases zs)
    case Nil
    then have ee: "e = b + T + 8" using z by simp
    let ?m1 = "hmod b (\<lambda>h. update (h\<lparr>h_free := False, h_prevFree := False\<rparr>)) m"
    have g: "getSize (mh_cell ?m1 b) = T" using hs by simp
    define y where "y = b + 8"
    have "nat ((int (mh_Brk m) + - as_signed (T + 8)) mod 2 ^ 64) = y"
    proof -
      have "int (mh_Brk m) + - as_signed (T + 8) = int y"
        using B(1,2) ee by (simp add: as_signed_small y_def)
      moreover have "y < 2 ^ 63" using B(1,2) ee by (simp add: y_def)
      then have "nat (int y mod 2 ^ 64) = y" by simp
      ultimately show ?thesis by simp
    qed
    then have sb: "sbrk brk 0 (- as_signed (T + 8)) ?m1 = Inr (e + 8, ?m1\<lparr>mh_Brk := b + 8\<rparr>)"
      unfolding sbrk_def Let_def y_def using B(1) brk by simp
    let ?m2 = "hmod b (\<lambda>h. h\<lparr>h_size := 0\<rparr>) (?m1\<lparr>mh_Brk := b + 8\<rparr>)"
    have hz: "h_size (mh_cell m (b + T + 8)) = 0" using hdr_simps[OF e] ee by simp
    have "release_end brk b m = Inr ?m2"
      unfolding release_end_def n1 bnd.simps Let_def g sb using hz by simp
    moreover have "heap_rep ?m2 xs"
      unfolding heap_rep_def
    proof (intro exI conjI)
      have "seg ?m2 (mh_first m) False xs b False = seg m (mh_first m) False xs b False"
        using be by (intro seg_frame) auto
      then show "seg ?m2 (mh_first ?m2) False xs b False" using x by simp
      show "hdr ?m2 b 0 False False" by (simp add: hdr_def)
    qed (use B ee in simp_all)
    ultimately show ?thesis using Nil by (intro exI[of _ ?m2] exI[of _ xs]) simp
  next
    case (Cons w ws)
    then obtain t f where w: "w = (t, f)" by (cases w)
    have hn: "hdr m (b + T + 8) t True f" "0 < t" using z Cons w by auto
    have "h_size (mh_cell m (b + T + 8)) \<noteq> 0" using hdr_simps(1)[OF hn(1)] hn(2) by (simp add: size_zero)
    then have "release_end brk b m = Inr m" using n1 by (simp add: release_end_def)
    moreover have "heap_rep m (xs @ (T, True) # zs)"
      unfolding heap_rep_def
    proof (intro exI conjI)
      have "seg m b False ((T, True) # zs) e False" using h T8 tg z Cons by simp
      then show "seg m (mh_first m) False (xs @ (T, True) # zs) e False" using x seg_append by blast
      show "hdr m e 0 False False" using e Cons by simp
    qed (use B in simp_all)
    moreover have "b = mh_first m + len_bs xs" using be .
    ultimately show ?thesis by (intro exI[of _ m] exI[of _ "xs @ (T, True) # zs"]) (simp add: allocd_append)
  qed
qed

lemma allocd_split:
  assumes "(p, s) \<in> allocd a bs"
  shows "\<exists>xs ys. bs = xs @ (s, False) # ys \<and> p = a + len_bs xs + 8"
  using assms
proof (induction bs arbitrary: a rule: len_bs.induct)
  case (2 t f bs)
  show ?case
  proof (cases "(p, s) \<in> allocd (a + t + 8) bs")
    case True
    from 2(1)[OF this] obtain xs ys where "bs = xs @ (s, False) # ys" "p = a + t + 8 + len_bs xs + 8" by blast
    then show ?thesis by (intro exI[of _ "(t, f) # xs"] exI[of _ ys]) simp
  next
    case False
    then show ?thesis using 2(2) by (intro exI[of _ "[]"] exI[of _ bs]) (auto split: if_splits)
  qed
qed simp

lemma free_refines:
  assumes r: "heap_rep m bs" and p: "(p, s) \<in> allocd (mh_first m) bs" and b: "\<And>a. brk a"
  shows "\<exists>m' bs'. free brk p m = Inr m' \<and> heap_rep m' bs' \<and> mh_first m' = mh_first m \<and> mh_data m' = mh_data m
    \<and> allocd (mh_first m) bs' = allocd (mh_first m) bs - {(p, s)}"
proof -
  from allocd_split[OF p] obtain xs ys where bs: "bs = xs @ (s, False) # ys" and pa: "p = mh_first m + len_bs xs + 8" by blast
  from r obtain e where e: "seg m (mh_first m) False bs e False" "hdr m e 0 False False"
    "mh_Brk m = e + 8" "mh_Brk m < 2 ^ 63" "0 < mh_first m" by (auto simp: heap_rep_def)
  from e(1)[unfolded bs seg_append] obtain c q where
    x: "seg m (mh_first m) False xs c q" and y': "seg m c q ((s, False) # ys) e False" by blast
  have c: "c = mh_first m + len_bs xs" by (rule seg_end[OF x])
  have h: "hdr m c s q False" and s: "0 < s" "s mod 8 = 0" and y: "seg m (c + s + 8) False ys e False" using y' by auto
  note hs = hdr_simps[OF h]
  let ?m1 = "hmod c (setFree True) m"
  let ?m2 = "hmod (c + s + 8) (setPFree True) ?m1"
  from merge_next_ok[OF x h s y e(2)] obtain m3 S zs where
    3: "merge_next c ?m2 = Inr m3" "half_free m3 xs c q S zs e" "same_rest m m3"
      "allocd (c + S + 8) zs = allocd (c + s + 8) ys" by blast
  from merge_prev_ok[OF 3(2)] obtain m4 xs' d T where
    4: "merge_prev c m3 = Inr (d, m4)" "one_free m4 xs' d T zs e" "same_rest m3 m4"
      "allocd (mh_first m3) xs' = allocd (mh_first m3) xs" "d + T = c + S" by blast
  have B: "mh_Brk m4 = e + 8" "mh_Brk m4 < 2 ^ 63" "0 < mh_first m4" and sr: "same_rest m m4"
    using e 3(3) 4(3) by (simp_all add: same_rest_def)
  from release_end_ok[where brk = brk, OF 4(2) B b] obtain m5 bs' where
    5: "release_end brk d m4 = Inr m5" "heap_rep m5 bs'" "mh_first m5 = mh_first m4" "mh_data m5 = mh_data m4"
      "allocd (mh_first m4) bs' = allocd (mh_first m4) xs' \<union> allocd (d + T + 8) zs" by blast
  have p8: "p - 8 = c" "p \<noteq> 0" using pa c by simp_all
  have g1: "hdr ?m1 c s q True" using hs by (simp add: hdr_def)
  have v: "seemsValid (mh_cell ?m1 (c + s + 8))" using seg_first[OF y e(2)] by simp
  have n1: "nextHeader False c ?m1 = Inr (c + s + 8)" by (rule next_ok[OF g1]) (use v in simp)
  have "free brk p m = Inr m5"
    unfolding free_def Let_def ptrToHeader_def p8 using hs p8 n1 3(1) 4(1) 5(1) by simp
  moreover have "allocd (mh_first m) bs' = allocd (mh_first m) bs - {(p, s)}"
  proof -
    have "(p, s) \<notin> allocd (mh_first m) xs" using allocd_range[of p s "mh_first m" xs] pa by auto
    moreover have "(p, s) \<notin> allocd (c + s + 8) ys" using allocd_range[of p s "c + s + 8" ys] pa c by auto
    moreover have "allocd (mh_first m) bs = insert (p, s) (allocd (mh_first m) xs \<union> allocd (c + s + 8) ys)"
      by (auto simp: bs allocd_append c pa)
    moreover have "allocd (mh_first m) bs' = allocd (mh_first m) xs \<union> allocd (c + s + 8) ys"
      using 5(5) 4(4,5) 3(3,4) sr by (simp add: same_rest_def)
    ultimately show ?thesis by blast
  qed
  ultimately show ?thesis using 5 sr by (auto simp: same_rest_def)
qed

section \<open>The properties\<close>

lemma init_malloc_rep:
  assumes "mh_Brk m = 0" "0 < g" "g + 8 < 2 ^ 63" "brk (g + 8)"
  shows "\<exists>m'. init_malloc brk g m = Inr m' \<and> heap_rep m' []"
proof -
  define x where "x = g + 8"
  have "nat ((int g + 8) mod 2 ^ 64) = x"
  proof -
    have "int g + 8 = int x" by (simp add: x_def)
    moreover have "x < 2 ^ 63" using assms(3) by (simp add: x_def)
    then have "nat (int x mod 2 ^ 64) = x" by simp
    ultimately show ?thesis by simp
  qed
  then have "sbrk brk g 8 m = Inr (g, m\<lparr>mh_Brk := g + 8\<rparr>)"
    using assms by (simp add: sbrk_def Let_def x_def)
  then show ?thesis using assms(2,3)
    by (simp add: init_malloc_def heap_rep_def hdr_def) (simp add: getSize_def)
qed

text \<open>
  C7. \<open>malloc\<close> of a positive size terminates and returns a block of at least that size that
  overlaps no block in use; all blocks in use stay where they are, the contents are not
  touched, and the heap is again a well formed list of blocks with boundary tags.
\<close>

theorem malloc_allocates:
  assumes "heap_rep m bs" "0 < n" "n < 2 ^ 63" "mh_Brk m + align8 n + 8 < 2 ^ 63"
    and "brk (mh_Brk m + align8 n + 8)"
  shows "\<exists>p k m' bs'. malloc brk n m = Some (Inr (p, m')) \<and> n \<le> k \<and> heap_rep m' bs'
    \<and> allocd (mh_first m') bs' = insert (p, k) (allocd (mh_first m) bs)
    \<and> (\<forall>(q, t)\<in>allocd (mh_first m) bs. p + k + 8 \<le> q \<or> q + t + 8 \<le> p) \<and> mh_data m' = mh_data m"
proof -
  let ?f = "first_fit (align8 n) (mh_first m) bs"
  from malloc_refines[where brk = brk, OF assms(1-3) refl assms(4,5)] obtain m' where
    m': "malloc brk n m = Some (Inr (fst ?f, m'))" "heap_rep m' (snd ?f)" "mh_data m' = mh_data m"
      "mh_first m' = mh_first m" by blast
  from first_fit_allocd[of "align8 n" "mh_first m" bs] obtain k where
    k: "align8 n \<le> k" "allocd (mh_first m) (snd ?f) = insert (fst ?f, k) (allocd (mh_first m) bs)"
      "(fst ?f, k) \<notin> allocd (mh_first m) bs" by blast
  have "n \<le> align8 n" using assms(3) by (simp add: align8_def)
  then have nk: "n \<le> k" using k(1) by simp
  have dj: "fst ?f + k + 8 \<le> q \<or> q + t + 8 \<le> fst ?f" if "(q, t) \<in> allocd (mh_first m) bs" for q t
    by (rule allocd_disjoint[of "fst ?f" k "mh_first m" "snd ?f"]) (use that k in auto)
  then have dj': "\<forall>(q, t)\<in>allocd (mh_first m) bs. fst ?f + k + 8 \<le> q \<or> q + t + 8 \<le> fst ?f" by blast
  show ?thesis
    by (intro exI[of _ "fst ?f"] exI[of _ k] exI[of _ m'] exI[of _ "snd ?f"] conjI)
      (use m' k(2) nk dj' in \<open>simp_all\<close>)
qed

definition demo_heap :: mheap where
  "demo_heap = \<lparr>mh_cell = (\<lambda>_. \<lparr>h_size = 0, h_parity = True, h_prevFree = False, h_free = False\<rparr>),
     mh_data = (\<lambda>_. 0), mh_Brk = 0x1008, mh_first = 0x1000\<rparr>"

lemma demo_heap_rep: "heap_rep demo_heap []"
  by (simp add: heap_rep_def demo_heap_def hdr_def getSize_def seemsValid_def)

theorem malloc_allocates_witness:
  "\<exists>p m'. malloc (\<lambda>_. True) 20 demo_heap = Some (Inr (p, m'))"
  using malloc_allocates[OF demo_heap_rep, of 20 "\<lambda>_. True"]
  by (auto simp: demo_heap_def align8_def)

text \<open>
  C15. \<open>free\<close> of a block in use returns, takes exactly this block out of use (merging it with
  free neighbours and giving the end of the heap back), and leaves every other block in
  use and all contents as they are.
\<close>

theorem free_releases:
  assumes "heap_rep m bs" "(p, s) \<in> allocd (mh_first m) bs"
  shows "\<exists>m' bs'. free (\<lambda>_. True) p m = Inr m' \<and> heap_rep m' bs' \<and> mh_first m' = mh_first m
    \<and> allocd (mh_first m) bs' = allocd (mh_first m) bs - {(p, s)} \<and> mh_data m' = mh_data m"
  using free_refines[OF assms, of "\<lambda>_. True"] by blast

lemma demo_heap_one: "\<exists>m. heap_rep m [(24, False)] \<and> mh_first m = 0x1000"
  using malloc_refines[OF demo_heap_rep, of 20 24 "\<lambda>_. True"] by (auto simp: demo_heap_def align8_def)

theorem free_releases_witness:
  "\<exists>m m' bs'. heap_rep m [(24, False)] \<and> free (\<lambda>_. True) 0x1008 m = Inr m' \<and> heap_rep m' bs'
     \<and> allocd 0x1000 bs' = {}"
proof -
  obtain m where m: "heap_rep m [(24, False)]" "mh_first m = 0x1000" using demo_heap_one by blast
  from free_releases[OF m(1), of "0x1008" 24] m show ?thesis by auto
qed

lemma malloc_end_stale:
  assumes "h_size (mh_cell m e) = 0" "mh_Brk m = e + 16" "e + 16 < 2 ^ 63"
  shows "malloc_end brk n e m = Inl Assertion"
  using assms by (simp add: malloc_end_def sbrk_def Let_def headerToPtr_def)

text \<open>\<open>malloc(0)\<close> breaks the heap: on a heap without free blocks it returns, but the header
  it leaves has size 0, the mark of the end of the list, while the break has moved on; every
  later \<open>malloc\<close> fails its assertion.
\<close>

theorem malloc_zero_breaks_heap:
  assumes "heap_rep m bs" "\<forall>b\<in>set bs. \<not> snd b" "mh_Brk m + 8 < 2 ^ 63" "brk (mh_Brk m + 8)"
  shows "\<exists>m'. malloc brk 0 m = Some (Inr (mh_Brk m, m')) \<and> (\<forall>n. malloc brk n m' = Some (Inl Assertion))"
proof -
  from assms(1) obtain e where e: "seg m (mh_first m) False bs e False" "hdr m e 0 False False"
    "mh_Brk m = e + 8" "mh_Brk m < 2 ^ 63" "0 < mh_first m" by (auto simp: heap_rep_def)
  have nf: "no_fit n bs" for n using assms(2) by (auto simp: no_fit_def)
  define x where "x = mh_Brk m + 8"
  have "nat ((int (mh_Brk m) + as_signed 8) mod 2 ^ 64) = x"
  proof -
    have "int (mh_Brk m) + as_signed 8 = int x" by (simp add: as_signed_small x_def)
    moreover have "x < 2 ^ 63" using assms(3) by (simp add: x_def)
    then have "nat (int x mod 2 ^ 64) = x" by simp
    ultimately show ?thesis by simp
  qed
  then have s: "sbrk brk 0 (as_signed 8) m = Inr (e + 8, m\<lparr>mh_Brk := e + 16\<rparr>)"
    using e(3) assms(4) by (simp add: sbrk_def Let_def x_def)
  let ?m2 = "hmod e (setFree False) (hmod e (\<lambda>h. h\<lparr>h_size := 0\<rparr>) (m\<lparr>mh_Brk := e + 16\<rparr>))"
  let ?m3 = "hmod (e + 8) (\<lambda>h. update (h\<lparr>h_size := 0, h_prevFree := False, h_free := False\<rparr>)) ?m2"
  have "nextHeader True e ?m2 = Inr (e + 8)" by (simp add: nextHeader_def Let_def)
  then have end0: "malloc_end brk 0 e m = Inr (e + 8, ?m3)"
    using hsetSize_ok[of 0 e] s by (simp add: malloc_end_def headerToPtr_def Let_def)
  have l: "malloc_loop brk n (mh_first m) t = Some (malloc_end brk n e t)"
    if "seg t (mh_first m) False bs e False" "h_size (mh_cell t e) = 0" "seemsValid (mh_cell t e)" for n t
  proof -
    have "malloc_loop brk n (mh_first m) t = malloc_loop brk n e t" by (rule loop_skip[OF that(1) nf that(3)])
    then show ?thesis using that(2) by (subst (asm) (2) malloc_loop.simps) simp
  qed
  have h0: "h_size (mh_cell m e) = 0" "seemsValid (mh_cell m e)" using hdr_simps[OF e(2)] by simp_all
  have v: "seemsValid (mh_cell m (mh_first m))" using seg_first[OF e(1,2)] by simp
  have r1: "malloc brk 0 m = Some (Inr (e + 8, ?m3))"
    using v l[OF e(1) h0] end0 by (simp add: malloc_def align8_def)
  have "seg ?m3 (mh_first m) False bs e False = seg m (mh_first m) False bs e False"
    using seg_end[OF e(1)] by (intro seg_frame) auto
  then have g3: "seg ?m3 (mh_first m) False bs e False" using e(1) by simp
  have c3: "h_size (mh_cell ?m3 e) = 0" "seemsValid (mh_cell ?m3 e)" "mh_Brk ?m3 = e + 16" "mh_first ?m3 = mh_first m"
    by simp_all
  have v3: "seemsValid (mh_cell ?m3 (mh_first m))"
  proof (cases bs)
    case Nil
    then show ?thesis using g3 c3(2) by simp
  next
    case (Cons b bs')
    then show ?thesis using g3 by (cases b) (auto simp: hdr_def)
  qed
  have "malloc brk n ?m3 = Some (Inl Assertion)" for n
    using v3 l[OF g3 c3(1,2)] malloc_end_stale[OF c3(1,3)] assms(3) e(3) c3(4) by (simp add: malloc_def)
  then show ?thesis using r1 e(3) by (intro exI[of _ ?m3]) simp
qed

theorem malloc_zero_breaks_heap_witness:
  "\<exists>m'. malloc (\<lambda>_. True) 0 demo_heap = Some (Inr (0x1008, m')) \<and> malloc (\<lambda>_. True) 1 m' = Some (Inl Assertion)"
  using malloc_zero_breaks_heap[OF demo_heap_rep, of "\<lambda>_. True"] by (auto simp: demo_heap_def)

end
