(* ===== verification/RamFile.thy ===== *)
theory RamFile
  imports ByteStore
begin

text \<open>
  The regular file of the in-memory file system (\<open>RamFS::RegularFile\<close> of
  \<open>src/src/HDD/RamFS.cpp\<close>): its content is a \<open>std::string\<close>, here its bytes. It provides
  the \<open>Bytes\<close> interface, so it interprets the locale \<open>byte_store\<close>.
\<close>

definition ram_resize :: "u64 \<Rightarrow> bytes \<Rightarrow> bytes" where
  "ram_resize sz c = take (unat sz) c @ replicate (unat sz - length c) 0"

definition ram_writeaddr :: "u64 \<Rightarrow> bytes \<Rightarrow> bytes \<Rightarrow> bytes res" where
  "ram_writeaddr addr data c =
    (let c1 = (if of_nat (length c) < addr + of_nat (length data)
               then ram_resize (addr + of_nat (length data)) c else c) in
     check (unat addr + length data \<le> length c1) OutOfBounds (Inr (overwrite (unat addr) data c1)))"

definition ram_readaddr :: "u64 \<Rightarrow> u64 \<Rightarrow> bytes \<Rightarrow> bytes res" where
  "ram_readaddr addr sz c =
    assertk (addr + sz \<le> of_nat (length c))
      (check (unat addr + unat sz \<le> length c) OutOfBounds (Inr (take (unat sz) (drop (unat addr) c))))"

definition ram_getSize :: "bytes \<Rightarrow> u64" where
  "ram_getSize c = of_nat (length c)"

definition ram_ops :: "bytes bytes_ops" where
  "ram_ops = \<lparr>readaddr = ram_readaddr, writeaddr = ram_writeaddr, bsize = ram_getSize\<rparr>"

lemma length_ram_resize [simp]: "length (ram_resize n c) = unat n"
  by (simp add: ram_resize_def)

lemma ram_read:
  assumes "length c < 2 ^ 64" "unat a + unat n \<le> length c"
  shows "ram_readaddr a n c = Inr (take (unat n) (drop (unat a) c))"
proof -
  have "unat (a + n) = unat a + unat n" using assms by (subst unat_add_lem[THEN iffD1]) simp_all
  moreover have "unat (of_nat (length c) :: u64) = length c" unfolding unat_of_nat using assms(1) by simp
  ultimately show ?thesis using assms(2) by (simp add: ram_readaddr_def word_le_nat_alt)
qed

lemma ram_write:
  assumes "unat a + length d < 2 ^ 64" "length c < 2 ^ 64"
  shows "ram_writeaddr a d c = Inr (if unat a + length d \<le> length c then overwrite (unat a) d c
     else overwrite (unat a) d (c @ replicate (unat a + length d - length c) 0))"
proof -
  have l: "unat (of_nat (length c) :: u64) = length c" unfolding unat_of_nat using assms(2) by simp
  have d: "unat (of_nat (length d) :: u64) = length d" unfolding unat_of_nat using assms(1) by simp
  have e: "unat (a + of_nat (length d)) = unat a + length d"
    using assms(1) d by (subst unat_add_lem[THEN iffD1]) simp_all
  have lt: "(of_nat (length c) :: u64) < a + of_nat (length d) \<longleftrightarrow> length c < unat a + length d"
    by (simp only: word_less_nat_alt l e)
  show ?thesis
    using e by (simp add: ram_writeaddr_def lt ram_resize_def Let_def)
qed

interpretation ram: byte_store ram_ops "\<lambda>c. length c < 2 ^ 64" "\<lambda>c. c"
proof
  fix p :: bytes and n a :: u64
  assume "length p < 2 ^ 64" "0 < n" "unat a + unat n < length p"
  then show "readaddr ram_ops a n p = Inr (take (unat n) (drop (unat a) p))"
    using ram_read[of p a n] by (simp add: ram_ops_def)
next
  fix p d :: bytes and a :: u64
  assume "length p < 2 ^ 64" "d \<noteq> []" "unat a + length d < length p"
  then show "\<exists>p'. writeaddr ram_ops a d p = Inr p' \<and> length p' < 2 ^ 64 \<and> p' = overwrite (unat a) d p"
    using ram_write[of a d p] by (simp add: ram_ops_def)
qed

text \<open>Writing to an in-memory file, also beyond its end, makes exactly the written bytes
  readable, zero fills a gap, and keeps every other byte.\<close>

theorem ram_write_read:
  assumes "unat a + length d < 2 ^ 64" "length c < 2 ^ 64"
  shows "\<exists>c'. ram_writeaddr a d c = Inr c' \<and> length c' = max (length c) (unat a + length d) \<and>
    ram_readaddr a (of_nat (length d)) c' = Inr d \<and>
    (\<forall>i<length c'. \<not> (unat a \<le> i \<and> i < unat a + length d) \<longrightarrow> c' ! i = (if i < length c then c ! i else 0))"
proof -
  define c0 where "c0 = (if unat a + length d \<le> length c then c else c @ replicate (unat a + length d - length c) 0)"
  have le: "unat a + length d \<le> length c0" and lc: "length c0 = max (length c) (unat a + length d)"
    by (auto simp: c0_def)
  have w: "ram_writeaddr a d c = Inr (overwrite (unat a) d c0)"
    using ram_write[OF assms] by (simp add: c0_def)
  have u: "unat (of_nat (length d) :: u64) = length d" unfolding unat_of_nat using assms(1) by simp
  have r: "ram_readaddr a (of_nat (length d)) (overwrite (unat a) d c0) = Inr d"
    using ram_read[of "overwrite (unat a) d c0" a "of_nat (length d)"] assms le lc u overwrite_same[OF le] by simp
  have "overwrite (unat a) d c0 ! i = (if i < length c then c ! i else 0)"
    if "i < length c0" "\<not> (unat a \<le> i \<and> i < unat a + length d)" for i
    using that le by (auto simp: nth_overwrite c0_def nth_append)
  then show ?thesis
    using w r le lc by auto
qed

theorem ram_write_read_witness:
  "\<exists>c'. ram_writeaddr 4 [1, 2] [7] = Inr c' \<and> ram_readaddr 4 2 c' = Inr [1, 2] \<and> length c' = 6"
  using ram_write_read[of 4 "[1, 2]" "[7]"] by auto

end
