(* ===== verification/Ext2Fs.thy ===== *)
theory Ext2Fs
  imports RamFile
begin

text \<open>
  The block and inode allocation of the Ext2 file system (\<open>class FS\<close> of \<open>src/src/HDD/Ext2.cpp\<close>)
  and its on-disk structures (\<open>Ext2.h\<close>).

  The packed structures are records with a decoder and an encoder to their bytes; the
  partition is an argument \<open>D\<close> with the operations of the \<open>Bytes\<close> interface, of which
  the lemmas assume the contract \<open>byte_store\<close>. Divisions by a field that was read
  from the disk fault when it is zero. Memory allocations (\<open>malloc\<close>) succeed.
\<close>

section \<open>On-disk structures\<close>

record SuperBlock =
  sb_inodes_count :: u32
  sb_blocks_count :: u32
  sb_r_blocks_count :: u32
  sb_free_blocks_count :: u32
  sb_free_inodes_count :: u32
  sb_first_data_block :: u32
  sb_log_block_size :: u32
  sb_log_frag_size :: u32
  sb_blocks_per_group :: u32
  sb_frags_per_group :: u32
  sb_inodes_per_group :: u32
  sb_mtime :: u32
  sb_wtime :: u32
  sb_mnt_count :: u16
  sb_max_mnt_count :: u16
  sb_magic :: u16
  sb_state :: u16
  sb_errors :: u16
  sb_pad :: u16
  sb_lastcheck :: u32
  sb_checkinterval :: u32
  sb_creator_os :: u32
  sb_rev_level :: u32
  sb_def_resuid :: u16
  sb_def_resgid :: u16
  sb_first_ino :: u32
  sb_inode_size :: u16
  sb_block_group_nr :: u16
  sb_feature_compat :: u32
  sb_feature_incompat :: u32
  sb_feature_ro_compat :: u32
  sb_uuid :: "u32 list"
  sb_tail :: bytes

text \<open>\<open>sb_tail\<close> holds \<open>volume_name\<close>, \<open>last_mounted\<close>, \<open>algo_bitmap\<close> and \<open>reserved\<close>, which nothing reads.\<close>

definition le16 :: "u16 \<Rightarrow> bytes" where
  "le16 v = le_bytes 2 (unat v)"

definition le32 :: "u32 \<Rightarrow> bytes" where
  "le32 v = le_bytes 4 (unat v)"

definition encode_sb :: "SuperBlock \<Rightarrow> bytes" where
  "encode_sb s =
    le32 (sb_inodes_count s) @ le32 (sb_blocks_count s) @ le32 (sb_r_blocks_count s) @
    le32 (sb_free_blocks_count s) @ le32 (sb_free_inodes_count s) @ le32 (sb_first_data_block s) @
    le32 (sb_log_block_size s) @ le32 (sb_log_frag_size s) @ le32 (sb_blocks_per_group s) @
    le32 (sb_frags_per_group s) @ le32 (sb_inodes_per_group s) @ le32 (sb_mtime s) @ le32 (sb_wtime s) @
    le16 (sb_mnt_count s) @ le16 (sb_max_mnt_count s) @ le16 (sb_magic s) @ le16 (sb_state s) @
    le16 (sb_errors s) @ le16 (sb_pad s) @ le32 (sb_lastcheck s) @ le32 (sb_checkinterval s) @
    le32 (sb_creator_os s) @ le32 (sb_rev_level s) @ le16 (sb_def_resuid s) @ le16 (sb_def_resgid s) @
    le32 (sb_first_ino s) @ le16 (sb_inode_size s) @ le16 (sb_block_group_nr s) @
    le32 (sb_feature_compat s) @ le32 (sb_feature_incompat s) @ le32 (sb_feature_ro_compat s) @
    concat (map le32 (sb_uuid s)) @ sb_tail s"

definition decode_sb :: "bytes \<Rightarrow> SuperBlock" where
  "decode_sb b = \<lparr>
    sb_inodes_count = ld32 0 b, sb_blocks_count = ld32 4 b, sb_r_blocks_count = ld32 8 b,
    sb_free_blocks_count = ld32 12 b, sb_free_inodes_count = ld32 16 b, sb_first_data_block = ld32 20 b,
    sb_log_block_size = ld32 24 b, sb_log_frag_size = ld32 28 b, sb_blocks_per_group = ld32 32 b,
    sb_frags_per_group = ld32 36 b, sb_inodes_per_group = ld32 40 b, sb_mtime = ld32 44 b, sb_wtime = ld32 48 b,
    sb_mnt_count = ld16 52 b, sb_max_mnt_count = ld16 54 b, sb_magic = ld16 56 b, sb_state = ld16 58 b,
    sb_errors = ld16 60 b, sb_pad = ld16 62 b, sb_lastcheck = ld32 64 b, sb_checkinterval = ld32 68 b,
    sb_creator_os = ld32 72 b, sb_rev_level = ld32 76 b, sb_def_resuid = ld16 80 b, sb_def_resgid = ld16 82 b,
    sb_first_ino = ld32 84 b, sb_inode_size = ld16 88 b, sb_block_group_nr = ld16 90 b,
    sb_feature_compat = ld32 92 b, sb_feature_incompat = ld32 96 b, sb_feature_ro_compat = ld32 100 b,
    sb_uuid = map (\<lambda>i. ld32 (104 + 4 * i) b) [0..<4], sb_tail = drop 120 b \<rparr>"

definition wf_sb :: "SuperBlock \<Rightarrow> bool" where
  "wf_sb s \<longleftrightarrow> length (sb_uuid s) = 4 \<and> length (sb_tail s) = 904"

record BlockGroupDescriptor =
  bg_block_bitmap :: u32
  bg_inode_bitmap :: u32
  bg_inode_table :: u32
  bg_free_blocks_count :: u16
  bg_free_inodes_count :: u16
  bg_used_dirs_count :: u16
  bg_pad :: u16
  bg_reserved :: bytes

definition encode_bgd :: "BlockGroupDescriptor \<Rightarrow> bytes" where
  "encode_bgd g = le32 (bg_block_bitmap g) @ le32 (bg_inode_bitmap g) @ le32 (bg_inode_table g) @
    le16 (bg_free_blocks_count g) @ le16 (bg_free_inodes_count g) @ le16 (bg_used_dirs_count g) @
    le16 (bg_pad g) @ bg_reserved g"

definition decode_bgd :: "bytes \<Rightarrow> BlockGroupDescriptor" where
  "decode_bgd b = \<lparr> bg_block_bitmap = ld32 0 b, bg_inode_bitmap = ld32 4 b, bg_inode_table = ld32 8 b,
    bg_free_blocks_count = ld16 12 b, bg_free_inodes_count = ld16 14 b, bg_used_dirs_count = ld16 16 b,
    bg_pad = ld16 18 b, bg_reserved = take 12 (drop 20 b) \<rparr>"

definition wf_bgd :: "BlockGroupDescriptor \<Rightarrow> bool" where
  "wf_bgd g \<longleftrightarrow> length (bg_reserved g) = 12"

record InodeData =
  id_mode :: u16
  id_uid :: u16
  id_size :: u32
  id_atime :: u32
  id_ctime :: u32
  id_mtime :: u32
  id_dtime :: u32
  id_gid :: u16
  id_links_count :: u16
  id_blocks :: u32
  id_flags :: u32
  id_reserved1 :: u32
  id_block :: "u32 list"
  id_version :: u32
  id_file_acl :: u32
  id_dir_acl :: u32
  id_faddr :: u32
  id_tail :: bytes

text \<open>\<open>id_tail\<close> holds \<open>frag\<close>, \<open>fsize\<close>, \<open>pad1\<close> and \<open>reserved2\<close>, which nothing reads.\<close>

definition encode_inode :: "InodeData \<Rightarrow> bytes" where
  "encode_inode d = le16 (id_mode d) @ le16 (id_uid d) @ le32 (id_size d) @ le32 (id_atime d) @
    le32 (id_ctime d) @ le32 (id_mtime d) @ le32 (id_dtime d) @ le16 (id_gid d) @ le16 (id_links_count d) @
    le32 (id_blocks d) @ le32 (id_flags d) @ le32 (id_reserved1 d) @ concat (map le32 (id_block d)) @
    le32 (id_version d) @ le32 (id_file_acl d) @ le32 (id_dir_acl d) @ le32 (id_faddr d) @ id_tail d"

definition decode_inode :: "bytes \<Rightarrow> InodeData" where
  "decode_inode b = \<lparr> id_mode = ld16 0 b, id_uid = ld16 2 b, id_size = ld32 4 b, id_atime = ld32 8 b,
    id_ctime = ld32 12 b, id_mtime = ld32 16 b, id_dtime = ld32 20 b, id_gid = ld16 24 b,
    id_links_count = ld16 26 b, id_blocks = ld32 28 b, id_flags = ld32 32 b, id_reserved1 = ld32 36 b,
    id_block = map (\<lambda>i. ld32 (40 + 4 * i) b) [0..<15], id_version = ld32 100 b, id_file_acl = ld32 104 b,
    id_dir_acl = ld32 108 b, id_faddr = ld32 112 b, id_tail = drop 116 b \<rparr>"

definition wf_inode :: "InodeData \<Rightarrow> bool" where
  "wf_inode d \<longleftrightarrow> length (id_block d) = 15 \<and> length (id_tail d) = 12"

lemma length_le16 [simp]: "length (le16 v) = 2"
  and length_le32 [simp]: "length (le32 w) = 4"
  by (simp_all add: le16_def le32_def)

lemma length_concat_le32 [simp]: "length (concat (map le32 xs)) = 4 * length xs"
  by (induction xs) simp_all

lemma le_word_app: "length xs = n \<Longrightarrow> le_word n (xs @ ys) = le_word n xs"
  by (simp add: le_word_def)

lemma ld_skip:
  "length xs \<le> a \<Longrightarrow> ld32 a (xs @ ys) = ld32 (a - length xs) ys"
  "length xs \<le> a \<Longrightarrow> ld16 a (xs @ ys) = ld16 (a - length xs) ys"
  by (simp_all add: ld32_def ld16_def)

lemma ld_here [simp]: "ld32 0 (le32 v @ ys) = v" "ld16 0 (le16 w @ ys) = w"
proof -
  have "unat v < 256 ^ 4" "unat w < 256 ^ 2"
    using unsigned_less[where ?'a = nat and w = v] unsigned_less[where ?'a = nat and w = w] by simp_all
  then show "ld32 0 (le32 v @ ys) = v" "ld16 0 (le16 w @ ys) = w"
    by (simp_all add: ld32_def ld16_def le32_def le16_def le_word_app le_round)
qed

lemma ld_concat: "i < length xs \<Longrightarrow> ld32 (4 * i) (concat (map le32 xs) @ ys) = xs ! i"
proof (induction xs arbitrary: i)
  case (Cons x xs)
  show ?case
  proof (cases i)
    case (Suc k)
    then show ?thesis using Cons by (simp add: ld_skip)
  qed simp
qed simp

lemma encode_bgd_length: "wf_bgd g \<Longrightarrow> length (encode_bgd g) = 32"
  by (simp add: encode_bgd_def wf_bgd_def)

lemma encode_inode_length: "wf_inode d \<Longrightarrow> length (encode_inode d) = 128"
  by (simp add: encode_inode_def wf_inode_def)

lemma encode_sb_length: "wf_sb s \<Longrightarrow> length (encode_sb s) = 1024"
  by (simp add: encode_sb_def wf_sb_def)

lemma decode_encode_bgd: "wf_bgd g \<Longrightarrow> decode_bgd (encode_bgd g) = g"
  by (cases g) (simp add: encode_bgd_def decode_bgd_def wf_bgd_def ld_skip)

lemma map_ld_concat: "length xs = n \<Longrightarrow> map (\<lambda>i. ld32 (4 * i) (concat (map le32 xs) @ ys)) [0..<n] = xs"
  by (intro nth_equalityI) (auto simp: ld_concat)

lemma ld_skip_add: "length xs = k \<Longrightarrow> ld32 (k + m) (xs @ ys) = ld32 m ys"
  by (simp add: ld_skip)

lemma decode_encode_inode: "wf_inode d \<Longrightarrow> decode_inode (encode_inode d) = d"
proof -
  assume wf: "wf_inode d"
  let ?pre = "le16 (id_mode d) @ le16 (id_uid d) @ le32 (id_size d) @ le32 (id_atime d) @
    le32 (id_ctime d) @ le32 (id_mtime d) @ le32 (id_dtime d) @ le16 (id_gid d) @ le16 (id_links_count d) @
    le32 (id_blocks d) @ le32 (id_flags d) @ le32 (id_reserved1 d)"
  let ?post = "le32 (id_version d) @ le32 (id_file_acl d) @ le32 (id_dir_acl d) @ le32 (id_faddr d) @ id_tail d"
  have e: "encode_inode d = ?pre @ concat (map le32 (id_block d)) @ ?post" by (simp add: encode_inode_def)
  have "map (\<lambda>i. ld32 (40 + 4 * i) (encode_inode d)) [0..<15] = id_block d"
  proof -
    have "ld32 (40 + 4 * i) (encode_inode d) = ld32 (4 * i) (concat (map le32 (id_block d)) @ ?post)" for i
      unfolding e by (rule ld_skip_add) simp
    then show ?thesis using map_ld_concat[of "id_block d" 15 ?post] wf by (simp only: wf_inode_def)
  qed
  then show ?thesis using wf
    by (cases d) (simp add: encode_inode_def decode_inode_def wf_inode_def ld_skip)
qed

lemma decode_encode_sb: "wf_sb s \<Longrightarrow> decode_sb (encode_sb s) = s"
proof -
  assume wf: "wf_sb s"
  let ?pre = "le32 (sb_inodes_count s) @ le32 (sb_blocks_count s) @ le32 (sb_r_blocks_count s) @
    le32 (sb_free_blocks_count s) @ le32 (sb_free_inodes_count s) @ le32 (sb_first_data_block s) @
    le32 (sb_log_block_size s) @ le32 (sb_log_frag_size s) @ le32 (sb_blocks_per_group s) @
    le32 (sb_frags_per_group s) @ le32 (sb_inodes_per_group s) @ le32 (sb_mtime s) @ le32 (sb_wtime s) @
    le16 (sb_mnt_count s) @ le16 (sb_max_mnt_count s) @ le16 (sb_magic s) @ le16 (sb_state s) @
    le16 (sb_errors s) @ le16 (sb_pad s) @ le32 (sb_lastcheck s) @ le32 (sb_checkinterval s) @
    le32 (sb_creator_os s) @ le32 (sb_rev_level s) @ le16 (sb_def_resuid s) @ le16 (sb_def_resgid s) @
    le32 (sb_first_ino s) @ le16 (sb_inode_size s) @ le16 (sb_block_group_nr s) @
    le32 (sb_feature_compat s) @ le32 (sb_feature_incompat s) @ le32 (sb_feature_ro_compat s)"
  have e: "encode_sb s = ?pre @ concat (map le32 (sb_uuid s)) @ sb_tail s" by (simp add: encode_sb_def)
  have "map (\<lambda>i. ld32 (104 + 4 * i) (encode_sb s)) [0..<4] = sb_uuid s"
  proof -
    have "ld32 (104 + 4 * i) (encode_sb s) = ld32 (4 * i) (concat (map le32 (sb_uuid s)) @ sb_tail s)" for i
      unfolding e by (rule ld_skip_add) simp
    then show ?thesis using map_ld_concat[of "sb_uuid s" 4 "sb_tail s"] wf by (simp only: wf_sb_def)
  qed
  then show ?thesis using wf
    by (cases s) (simp add: encode_sb_def decode_sb_def wf_sb_def ld_skip)
qed

section \<open>\<open>InodeData\<close>\<close>

text \<open>A 32 bit shift by a run-time count, as the \<open>shl\<close> instruction does it.\<close>

definition shl32 :: "u32 \<Rightarrow> u32 \<Rightarrow> u32" where
  "shl32 x n = push_bit (unat n mod 32) x"

definition getBlockCount :: "SuperBlock \<Rightarrow> InodeData \<Rightarrow> u32 res" where
  "getBlockCount sb d =
    (let k = shl32 2 (sb_log_block_size sb) in check (k \<noteq> 0) DivZero (Inr (id_blocks d div k)))"

definition incrBlockCount :: "u32 \<Rightarrow> SuperBlock \<Rightarrow> InodeData \<Rightarrow> InodeData" where
  "incrBlockCount diff sb d = d\<lparr>id_blocks := id_blocks d + diff * shl32 2 (sb_log_block_size sb)\<rparr>"

definition id_getSize :: "InodeData \<Rightarrow> u64" where
  "id_getSize d = ucast (id_size d)"

definition id_setSize :: "u64 \<Rightarrow> InodeData \<Rightarrow> InodeData" where
  "id_setSize sz d = d\<lparr>id_size := ucast (sz AND (push_bit 32 1 - 1)),
     id_dir_acl := ucast (drop_bit 32 sz AND (push_bit 32 1 - 1))\<rparr>"

section \<open>The file system object\<close>

record 'p ext2 =
  x_part :: 'p
  x_sb :: SuperBlock
  x_bgd :: "BlockGroupDescriptor list"
  x_blockSize :: u64
  x_nbBgd :: u64

definition encode_bgds :: "BlockGroupDescriptor list \<Rightarrow> bytes" where
  "encode_bgds gs = concat (map encode_bgd gs)"

definition decode_bgds :: "nat \<Rightarrow> bytes \<Rightarrow> BlockGroupDescriptor list" where
  "decode_bgds n b = map (\<lambda>i. decode_bgd (take 32 (drop (32 * i) b))) [0..<n]"

definition loadSuperBlock :: "'p bytes_ops \<Rightarrow> 'p ext2 \<Rightarrow> 'p ext2 res" where
  "loadSuperBlock D fs =
    bnd (readaddr D 1024 1024 (x_part fs)) (\<lambda>b.
      let sb0 = decode_sb b;
          sb = (if sb_rev_level sb0 = 0 then sb0\<lparr>sb_inode_size := 128\<rparr> else sb0) in
      check (sb_blocks_per_group sb \<noteq> 0) DivZero
        (Inr (fs\<lparr>x_sb := sb, x_blockSize := scast (shl32 1024 (sb_log_block_size sb)),
                x_nbBgd := ucast ((sb_blocks_count sb - 1) div sb_blocks_per_group sb + 1)\<rparr>)))"

definition writeSuperBlock :: "'p bytes_ops \<Rightarrow> 'p ext2 \<Rightarrow> 'p ext2 res" where
  "writeSuperBlock D fs =
    bnd (writeaddr D 1024 (encode_sb (x_sb fs)) (x_part fs)) (\<lambda>p. Inr (fs\<lparr>x_part := p\<rparr>))"

definition bgd_addr :: "'p ext2 \<Rightarrow> u64" where
  "bgd_addr fs = ucast (sb_first_data_block (x_sb fs) + 1) * x_blockSize fs"

definition loadBlockGroupDescriptor :: "'p bytes_ops \<Rightarrow> 'p ext2 \<Rightarrow> 'p ext2 res" where
  "loadBlockGroupDescriptor D fs =
    bnd (readaddr D (bgd_addr fs) (x_nbBgd fs * 32) (x_part fs)) (\<lambda>b.
      Inr (fs\<lparr>x_bgd := decode_bgds (unat (x_nbBgd fs)) b\<rparr>))"

definition writeBlockGroupDescriptor :: "'p bytes_ops \<Rightarrow> 'p ext2 \<Rightarrow> 'p ext2 res" where
  "writeBlockGroupDescriptor D fs =
    bnd (writeaddr D (bgd_addr fs) (encode_bgds (x_bgd fs)) (x_part fs)) (\<lambda>p. Inr (fs\<lparr>x_part := p\<rparr>))"

definition new_FS :: "'p bytes_ops \<Rightarrow> 'p \<Rightarrow> 'p ext2 res" where
  "new_FS D part =
    bnd (loadSuperBlock D \<lparr>x_part = part, x_sb = decode_sb [], x_bgd = [], x_blockSize = 0, x_nbBgd = 0\<rparr>) (\<lambda>fs.
      assertk (sb_magic (x_sb fs) = 0xef53)
        (assertk (sb_log_block_size (x_sb fs) = sb_log_frag_size (x_sb fs))
          (loadBlockGroupDescriptor D fs)))"

definition checkUUID :: "'p bytes_ops \<Rightarrow> u32 list \<Rightarrow> 'p \<Rightarrow> bool res" where
  "checkUUID D uuid part = bnd (readaddr D 1024 1024 part) (\<lambda>b. Inr (sb_uuid (decode_sb b) = uuid))"

text \<open>\<open>_bgd[i]\<close>, and the division of an inode number into its group and index.\<close>

definition get_bgd :: "'p ext2 \<Rightarrow> u64 \<Rightarrow> BlockGroupDescriptor res" where
  "get_bgd fs i = check (unat i < length (x_bgd fs)) OutOfBounds (Inr (x_bgd fs ! unat i))"

definition upd_bgd :: "u64 \<Rightarrow> (BlockGroupDescriptor \<Rightarrow> BlockGroupDescriptor) \<Rightarrow> 'p ext2 \<Rightarrow> 'p ext2" where
  "upd_bgd i f fs = fs\<lparr>x_bgd := (x_bgd fs)[unat i := f (x_bgd fs ! unat i)]\<rparr>"

definition inode_group :: "'p ext2 \<Rightarrow> u32 \<Rightarrow> u64 res" where
  "inode_group fs inode = check (sb_inodes_per_group (x_sb fs) \<noteq> 0) DivZero
    (Inr (ucast ((inode - 1) div sb_inodes_per_group (x_sb fs))))"

definition inode_index :: "'p ext2 \<Rightarrow> u32 \<Rightarrow> u64" where
  "inode_index fs inode = ucast ((inode - 1) mod sb_inodes_per_group (x_sb fs))"

definition inode_addr :: "'p ext2 \<Rightarrow> u32 \<Rightarrow> u64 res" where
  "inode_addr fs inode = bnd (inode_group fs inode) (\<lambda>g. bnd (get_bgd fs g) (\<lambda>b.
     Inr (ucast (bg_inode_table b) * x_blockSize fs + inode_index fs inode * ucast (sb_inode_size (x_sb fs)))))"

definition getInodeData :: "'p bytes_ops \<Rightarrow> u32 \<Rightarrow> 'p ext2 \<Rightarrow> InodeData res" where
  "getInodeData D inode fs =
    bnd (inode_addr fs inode) (\<lambda>a. bnd (readaddr D a 128 (x_part fs)) (\<lambda>b. Inr (decode_inode b)))"

definition writeInodeData :: "'p bytes_ops \<Rightarrow> u32 \<Rightarrow> InodeData \<Rightarrow> 'p ext2 \<Rightarrow> 'p ext2 res" where
  "writeInodeData D inode d fs =
    bnd (inode_addr fs inode) (\<lambda>a.
      bnd (writeaddr D a (encode_inode d) (x_part fs)) (\<lambda>p. Inr (fs\<lparr>x_part := p\<rparr>)))"

section \<open>Blocks\<close>

text \<open>\<open>__builtin_ctz\<close> of the complement of a byte that is not \<open>0xFF\<close>.\<close>

definition ctz_not8 :: "u8 \<Rightarrow> nat" where
  "ctz_not8 b = length (takeWhile (bit b) [0..<8])"

definition bitmap_find :: "bytes \<Rightarrow> nat \<Rightarrow> nat option" where
  "bitmap_find bm n = find (\<lambda>j. NOT (bm ! j) \<noteq> 0) [0..<n]"

text \<open>One round of the loop of \<open>getNewBlock\<close> on group \<open>g\<close>: \<open>None\<close> goes on to the next group.\<close>

definition getNewBlock_in :: "'p bytes_ops \<Rightarrow> u64 \<Rightarrow> 'p ext2 \<Rightarrow> ('p ext2 \<times> u32) option res" where
  "getNewBlock_in D g fs =
    bnd (get_bgd fs g) (\<lambda>b.
      if bg_free_blocks_count b = 0 then Inr None else
      let a = ucast (bg_block_bitmap b) * x_blockSize fs in
      bnd (readaddr D a (x_blockSize fs) (x_part fs)) (\<lambda>bm.
        case bitmap_find bm (unat (x_blockSize fs)) of
          None \<Rightarrow> Inr None
        | Some j \<Rightarrow>
            let pos = ctz_not8 (bm ! j) in
            assertk (bm ! j AND push_bit pos 1 = 0)
            (bnd (writeaddr D a (bm[j := bm ! j OR push_bit pos 1]) (x_part fs)) (\<lambda>p.
               let fs1 = upd_bgd g (\<lambda>b. b\<lparr>bg_free_blocks_count := bg_free_blocks_count b - 1\<rparr>) (fs\<lparr>x_part := p\<rparr>);
                   fs2 = fs1\<lparr>x_sb := (x_sb fs1)\<lparr>sb_free_blocks_count := sb_free_blocks_count (x_sb fs1) - 1\<rparr>\<rparr> in
               bnd (writeBlockGroupDescriptor D fs2) (\<lambda>fs3.
               bnd (writeSuperBlock D fs3) (\<lambda>fs4.
                 Inr (Some (fs4, ucast (ucast (sb_blocks_per_group (x_sb fs4)) * g + of_nat (8 * j) + of_nat pos)))))))))"

fun first_group :: "(u64 \<Rightarrow> 's \<Rightarrow> ('s \<times> u32) option res) \<Rightarrow> u64 list \<Rightarrow> 's \<Rightarrow> ('s \<times> u32) res" where
  "first_group f [] s = Inl Bsod"
| "first_group f (g # gs) s =
    bnd (f g s) (\<lambda>r. case r of None \<Rightarrow> first_group f gs s | Some x \<Rightarrow> Inr x)"

definition getNewBlock :: "'p bytes_ops \<Rightarrow> u32 \<Rightarrow> 'p ext2 \<Rightarrow> ('p ext2 \<times> u32) res" where
  "getNewBlock D nearInode fs = bnd (inode_group fs nearInode) (\<lambda>g0.
     first_group (getNewBlock_in D) (map (\<lambda>i. (of_nat i + g0) mod x_nbBgd fs) [0..<unat (x_nbBgd fs)]) fs)"

definition freeBlock :: "'p bytes_ops \<Rightarrow> u32 \<Rightarrow> 'p ext2 \<Rightarrow> 'p ext2 res" where
  "freeBlock D block fs =
    check (sb_blocks_per_group (x_sb fs) \<noteq> 0) DivZero
    (let g = ucast (block div sb_blocks_per_group (x_sb fs));
         i = block mod sb_blocks_per_group (x_sb fs) in
     bnd (get_bgd fs g) (\<lambda>b.
     let a = ucast (bg_block_bitmap b) * x_blockSize fs in
     bnd (readaddr D a (x_blockSize fs) (x_part fs)) (\<lambda>bm.
     let j = unat (i div 8); pos = unat (i mod 8) in
     check (j < length bm) OutOfBounds
     (assertk (bm ! j AND push_bit pos 1 \<noteq> 0)
     (let v = bm ! j AND NOT (push_bit pos 1) in
      assertk (v AND push_bit pos 1 = 0)
      (bnd (writeaddr D a (bm[j := v]) (x_part fs)) (\<lambda>p.
       let fs1 = upd_bgd g (\<lambda>b. b\<lparr>bg_free_blocks_count := bg_free_blocks_count b + 1\<rparr>) (fs\<lparr>x_part := p\<rparr>);
           fs2 = fs1\<lparr>x_sb := (x_sb fs1)\<lparr>sb_free_blocks_count := sb_free_blocks_count (x_sb fs1) + 1\<rparr>\<rparr> in
       bnd (writeBlockGroupDescriptor D fs2) (writeSuperBlock D))))))))"

section \<open>Inodes\<close>

definition getNewInode_in :: "'p bytes_ops \<Rightarrow> bool \<Rightarrow> u64 \<Rightarrow> 'p ext2 \<Rightarrow> ('p ext2 \<times> u32) option res" where
  "getNewInode_in D isDirectory g fs =
    bnd (get_bgd fs g) (\<lambda>b.
      if bg_free_inodes_count b = 0 then Inr None else
      let a = ucast (bg_inode_bitmap b) * x_blockSize fs in
      bnd (readaddr D a (x_blockSize fs) (x_part fs)) (\<lambda>bm.
        case bitmap_find bm (unat (x_blockSize fs)) of
          None \<Rightarrow> Inr None
        | Some j \<Rightarrow>
            let pos = ctz_not8 (bm ! j) in
            assertk (bm ! j AND push_bit pos 1 = 0)
            (bnd (writeaddr D a (bm[j := bm ! j OR push_bit pos 1]) (x_part fs)) (\<lambda>p.
               let fs1 = upd_bgd g (\<lambda>b. b\<lparr>bg_free_inodes_count := bg_free_inodes_count b - 1\<rparr>) (fs\<lparr>x_part := p\<rparr>);
                   fs2 = fs1\<lparr>x_sb := (x_sb fs1)\<lparr>sb_free_inodes_count := sb_free_inodes_count (x_sb fs1) - 1\<rparr>\<rparr>;
                   fs2' = (if isDirectory
                     then upd_bgd g (\<lambda>b. b\<lparr>bg_used_dirs_count := bg_used_dirs_count b + 1\<rparr>) fs2 else fs2) in
               bnd (writeBlockGroupDescriptor D fs2') (\<lambda>fs3.
               bnd (writeSuperBlock D fs3) (\<lambda>fs4.
                 Inr (Some (fs4, ucast (ucast (sb_inodes_per_group (x_sb fs4)) * g + of_nat (8 * j) + of_nat pos + 1)))))))))"

definition getNewInode :: "'p bytes_ops \<Rightarrow> bool \<Rightarrow> 'p ext2 \<Rightarrow> ('p ext2 \<times> u32) res" where
  "getNewInode D isDirectory fs =
     first_group (getNewInode_in D isDirectory) (map of_nat [0..<unat (x_nbBgd fs)]) fs"

definition freeInode :: "'p bytes_ops \<Rightarrow> u32 \<Rightarrow> bool \<Rightarrow> 'p ext2 \<Rightarrow> 'p ext2 res" where
  "freeInode D inode isDirectory fs =
     bnd (inode_group fs inode) (\<lambda>g.
     bnd (get_bgd fs g) (\<lambda>b.
     let a = ucast (bg_inode_bitmap b) * x_blockSize fs in
     bnd (readaddr D a (x_blockSize fs) (x_part fs)) (\<lambda>bm.
     let j = unat (inode_index fs inode div 8); pos = unat (inode_index fs inode mod 8) in
     check (j < length bm) OutOfBounds
     (assertk (bm ! j AND push_bit pos 1 \<noteq> 0)
     (let v = bm ! j AND NOT (push_bit pos 1) in
      assertk (v AND push_bit pos 1 = 0)
      (bnd (writeaddr D a (bm[j := v]) (x_part fs)) (\<lambda>p.
       let fs1 = upd_bgd g (\<lambda>b. b\<lparr>bg_free_inodes_count := bg_free_inodes_count b + 1\<rparr>) (fs\<lparr>x_part := p\<rparr>);
           fs2 = fs1\<lparr>x_sb := (x_sb fs1)\<lparr>sb_free_inodes_count := sb_free_inodes_count (x_sb fs1) + 1\<rparr>\<rparr>;
           fs2' = (if isDirectory
             then upd_bgd g (\<lambda>b. b\<lparr>bg_used_dirs_count := bg_used_dirs_count b - 1\<rparr>) fs2 else fs2) in
       bnd (writeBlockGroupDescriptor D fs2') (writeSuperBlock D))))))))"

section \<open>The layout of a volume\<close>

text \<open>
  \<open>wf_ext2\<close>: the super block, the descriptor table, the block bitmaps and the inode bitmaps
  of a mounted volume lie inside the partition and do not overlap. \<open>in_sync\<close>: the copies in
  memory are those on the disk. \<open>used_blocks\<close> and \<open>used_inodes\<close> are the sets of allocated
  bits as pairs of a group and an index in the group.
\<close>

definition bm_addr :: "'p ext2 \<Rightarrow> nat \<Rightarrow> u64" where
  "bm_addr fs g = ucast (bg_block_bitmap (x_bgd fs ! g)) * x_blockSize fs"

definition im_addr :: "'p ext2 \<Rightarrow> nat \<Rightarrow> u64" where
  "im_addr fs g = ucast (bg_inode_bitmap (x_bgd fs ! g)) * x_blockSize fs"

definition apart :: "nat \<Rightarrow> nat \<Rightarrow> nat \<Rightarrow> nat \<Rightarrow> bool" where
  "apart a n b m \<longleftrightarrow> a + n \<le> b \<or> b + m \<le> a"

definition wf_ext2 :: "nat \<Rightarrow> 'p ext2 \<Rightarrow> bool" where
  "wf_ext2 len fs \<longleftrightarrow>
    (let n = length (x_bgd fs); bs = unat (x_blockSize fs); A = unat (bgd_addr fs) in
     len < 2 ^ 64 \<and> wf_sb (x_sb fs) \<and> (\<forall>g<n. wf_bgd (x_bgd fs ! g)) \<and> n = unat (x_nbBgd fs) \<and> 0 < n \<and> 0 < bs \<and>
     sb_blocks_per_group (x_sb fs) \<noteq> 0 \<and> sb_inodes_per_group (x_sb fs) \<noteq> 0 \<and>
     2048 < len \<and> A + 32 * n < len \<and> apart 1024 1024 A (32 * n) \<and>
     (\<forall>g<n. unat (bm_addr fs g) + bs < len \<and> unat (im_addr fs g) + bs < len \<and>
        apart 1024 1024 (unat (bm_addr fs g)) bs \<and> apart 1024 1024 (unat (im_addr fs g)) bs \<and>
        apart A (32 * n) (unat (bm_addr fs g)) bs \<and> apart A (32 * n) (unat (im_addr fs g)) bs \<and>
        (\<forall>h<n. apart (unat (bm_addr fs g)) bs (unat (im_addr fs h)) bs \<and>
           (h \<noteq> g \<longrightarrow> apart (unat (bm_addr fs g)) bs (unat (bm_addr fs h)) bs \<and>
              apart (unat (im_addr fs g)) bs (unat (im_addr fs h)) bs))))"

definition in_sync :: "bytes \<Rightarrow> 'p ext2 \<Rightarrow> bool" where
  "in_sync c fs \<longleftrightarrow> take 1024 (drop 1024 c) = encode_sb (x_sb fs) \<and>
     take (32 * length (x_bgd fs)) (drop (unat (bgd_addr fs)) c) = encode_bgds (x_bgd fs)"

definition block_bitmap :: "bytes \<Rightarrow> 'p ext2 \<Rightarrow> nat \<Rightarrow> bytes" where
  "block_bitmap c fs g = take (unat (x_blockSize fs)) (drop (unat (bm_addr fs g)) c)"

definition inode_bitmap :: "bytes \<Rightarrow> 'p ext2 \<Rightarrow> nat \<Rightarrow> bytes" where
  "inode_bitmap c fs g = take (unat (x_blockSize fs)) (drop (unat (im_addr fs g)) c)"

definition bits_of :: "bytes \<Rightarrow> nat set" where
  "bits_of bm = {n. n < 8 * length bm \<and> bit (bm ! (n div 8)) (n mod 8)}"

definition used_blocks :: "bytes \<Rightarrow> 'p ext2 \<Rightarrow> (nat \<times> nat) set" where
  "used_blocks c fs = {(g, n). g < length (x_bgd fs) \<and> n \<in> bits_of (block_bitmap c fs g)}"

definition used_inodes :: "bytes \<Rightarrow> 'p ext2 \<Rightarrow> (nat \<times> nat) set" where
  "used_inodes c fs = {(g, n). g < length (x_bgd fs) \<and> n \<in> bits_of (inode_bitmap c fs g)}"

lemma length_encode_bgds: "\<forall>g<length gs. wf_bgd (gs ! g) \<Longrightarrow> length (encode_bgds gs) = 32 * length gs"
proof (induction gs)
  case (Cons g gs)
  from Cons.prems have "wf_bgd g" "\<forall>i<length gs. wf_bgd (gs ! i)" by (auto dest: spec[of _ 0] spec[of _ "Suc _"])
  with Cons.IH show ?case by (simp add: encode_bgds_def encode_bgd_length)
qed (simp add: encode_bgds_def)

text \<open>The first free bit of a bitmap.\<close>

lemma ctz_not8:
  assumes "NOT (b::u8) \<noteq> 0"
  shows "ctz_not8 b < 8" "\<not> bit b (ctz_not8 b)" "\<And>i. i < ctz_not8 b \<Longrightarrow> bit b i"
proof -
  have ex: "\<exists>i<8. \<not> bit b i"
  proof (rule ccontr)
    assume "\<not> (\<exists>i<8. \<not> bit b i)"
    then have "NOT b = 0" by (intro bit_word_eqI) (auto simp: bit_not_iff)
    with assms show False ..
  qed
  then have "length (takeWhile (bit b) [0..<8]) < length [0..<8]"
    by (metis (no_types, lifting) length_takeWhile_le le_neq_implies_less atLeastLessThan_iff length_upt
        set_takeWhileD set_upt diff_zero takeWhile_eq_all_conv takeWhile_eq_take take_all order_refl zero_le)
  then show lt: "ctz_not8 b < 8" by (simp add: ctz_not8_def)
  show "\<not> bit b (ctz_not8 b)"
    using nth_length_takeWhile[of "bit b" "[0..<8]"] lt by (simp add: ctz_not8_def del: upt_rec_numeral)
  show "\<And>i. i < ctz_not8 b \<Longrightarrow> bit b i"
  proof -
    fix i assume i: "i < ctz_not8 b"
    then have "takeWhile (bit b) [0..<8] ! i \<in> set (takeWhile (bit b) [0..<8])" by (simp add: ctz_not8_def del: upt_rec_numeral)
    then have "bit b (takeWhile (bit b) [0..<8] ! i)" by (blast dest: set_takeWhileD)
    moreover have "takeWhile (bit b) [0..<8] ! i = i"
      using i lt by (subst takeWhile_nth) (simp_all add: ctz_not8_def del: upt_rec_numeral)
    ultimately show "bit b i" by simp
  qed
qed

lemma and_single_bit: "b AND push_bit k 1 = 0 \<longleftrightarrow> \<not> bit b k" if "k < 8" for b :: u8
  using that by (metis (no_types, lifting) and_exp_eq_0_iff_not_bit push_bit_of_1)

lemma bit_single8: "k < 8 \<Longrightarrow> bit (push_bit k 1 :: u8) i \<longleftrightarrow> i = k"
  by (auto simp: bit_exp_iff)

lemma bits_of_set:
  assumes "j < length bm" "pos < 8"
  shows "bits_of (bm[j := bm ! j OR push_bit pos 1]) = insert (8 * j + pos) (bits_of bm)"
proof (rule set_eqI)
  fix n
  have "n = 8 * j + pos \<longleftrightarrow> n div 8 = j \<and> n mod 8 = pos"
    using assms(2) by (auto simp: div_mult_mod_eq[symmetric])
  then show "n \<in> bits_of (bm[j := bm ! j OR push_bit pos 1]) \<longleftrightarrow> n \<in> insert (8 * j + pos) (bits_of bm)"
    using assms by (auto simp: bits_of_def nth_list_update bit_or_iff bit_single8 simp del: push_bit_of_1)
qed

lemma bits_of_clear:
  assumes "j < length bm" "pos < 8"
  shows "bits_of (bm[j := bm ! j AND NOT (push_bit pos 1)]) = bits_of bm - {8 * j + pos}"
proof (rule set_eqI)
  fix n
  have "n = 8 * j + pos \<longleftrightarrow> n div 8 = j \<and> n mod 8 = pos"
    using assms(2) by (auto simp: div_mult_mod_eq[symmetric])
  then show "n \<in> bits_of (bm[j := bm ! j AND NOT (push_bit pos 1)]) \<longleftrightarrow> n \<in> bits_of bm - {8 * j + pos}"
    using assms by (auto simp: bits_of_def nth_list_update bit_and_iff bit_not_iff bit_single8 simp del: push_bit_of_1)
qed

section \<open>Operations that keep the layout\<close>

definition same_layout :: "'p ext2 \<Rightarrow> 'p ext2 \<Rightarrow> bool" where
  "same_layout fs fs' \<longleftrightarrow>
    map (\<lambda>b. (bg_block_bitmap b, bg_inode_bitmap b, bg_inode_table b, wf_bgd b)) (x_bgd fs') =
      map (\<lambda>b. (bg_block_bitmap b, bg_inode_bitmap b, bg_inode_table b, wf_bgd b)) (x_bgd fs) \<and>
    x_blockSize fs' = x_blockSize fs \<and> x_nbBgd fs' = x_nbBgd fs \<and>
    wf_sb (x_sb fs') = wf_sb (x_sb fs) \<and>
    sb_first_data_block (x_sb fs') = sb_first_data_block (x_sb fs) \<and>
    sb_blocks_per_group (x_sb fs') = sb_blocks_per_group (x_sb fs) \<and>
    sb_inodes_per_group (x_sb fs') = sb_inodes_per_group (x_sb fs) \<and>
    sb_inode_size (x_sb fs') = sb_inode_size (x_sb fs) \<and>
    sb_log_block_size (x_sb fs') = sb_log_block_size (x_sb fs)"

lemma same_layout_length: "same_layout fs fs' \<Longrightarrow> length (x_bgd fs') = length (x_bgd fs)"
  unfolding same_layout_def by (elim conjE map_eq_imp_length_eq)

lemma same_layout_nth:
  assumes "same_layout fs fs'" "g < length (x_bgd fs)"
  shows "bg_block_bitmap (x_bgd fs' ! g) = bg_block_bitmap (x_bgd fs ! g)"
    "bg_inode_bitmap (x_bgd fs' ! g) = bg_inode_bitmap (x_bgd fs ! g)"
    "wf_bgd (x_bgd fs' ! g) = wf_bgd (x_bgd fs ! g)"
proof -
  have l: "length (x_bgd fs') = length (x_bgd fs)" by (rule same_layout_length[OF assms(1)])
  have "map (\<lambda>b. (bg_block_bitmap b, bg_inode_bitmap b, bg_inode_table b, wf_bgd b)) (x_bgd fs') ! g =
      map (\<lambda>b. (bg_block_bitmap b, bg_inode_bitmap b, bg_inode_table b, wf_bgd b)) (x_bgd fs) ! g"
    using assms(1) by (simp add: same_layout_def)
  then show "bg_block_bitmap (x_bgd fs' ! g) = bg_block_bitmap (x_bgd fs ! g)"
    "bg_inode_bitmap (x_bgd fs' ! g) = bg_inode_bitmap (x_bgd fs ! g)"
    "wf_bgd (x_bgd fs' ! g) = wf_bgd (x_bgd fs ! g)"
    using assms(2) l by simp_all
qed

lemma same_layout_addr:
  assumes "same_layout fs fs'"
  shows "bgd_addr fs' = bgd_addr fs"
    "g < length (x_bgd fs) \<Longrightarrow> bm_addr fs' g = bm_addr fs g"
    "g < length (x_bgd fs) \<Longrightarrow> im_addr fs' g = im_addr fs g"
  using assms same_layout_nth[OF assms] by (simp_all add: bgd_addr_def bm_addr_def im_addr_def same_layout_def)

lemma same_layout_wf: "same_layout fs fs' \<Longrightarrow> wf_ext2 len fs' = wf_ext2 len fs"
  using same_layout_length[of fs fs'] same_layout_nth[of fs fs'] same_layout_addr[of fs fs']
  unfolding wf_ext2_def Let_def by (simp add: same_layout_def)

lemma same_layout_refl [simp]: "same_layout fs fs"
  by (simp add: same_layout_def)

lemma same_layout_trans: "same_layout a b \<Longrightarrow> same_layout b c \<Longrightarrow> same_layout a c"
  by (simp add: same_layout_def)

lemma same_layout_part [simp]: "same_layout fs (fs'\<lparr>x_part := p\<rparr>) = same_layout fs fs'"
  by (simp add: same_layout_def)

lemma same_layout_upd_bgd:
  assumes "\<And>b. bg_block_bitmap (f b) = bg_block_bitmap b" "\<And>b. bg_inode_bitmap (f b) = bg_inode_bitmap b"
    "\<And>b. bg_inode_table (f b) = bg_inode_table b" "\<And>b. bg_reserved (f b) = bg_reserved b"
  shows "same_layout fs (upd_bgd g f fs)"
proof -
  have w: "wf_bgd (f b) = wf_bgd b" for b by (simp add: wf_bgd_def assms)
  have "map h ((x_bgd fs)[unat g := f (x_bgd fs ! unat g)]) = map h (x_bgd fs)" if "\<And>b. h (f b) = h b"
    for h :: "BlockGroupDescriptor \<Rightarrow> u32 \<times> u32 \<times> u32 \<times> bool"
    using that by (simp add: map_update list_update_same_conv)
       (metis list_update_beyond list_update_id map_update not_le)
  from this[of "\<lambda>b. (bg_block_bitmap b, bg_inode_bitmap b, bg_inode_table b, wf_bgd b)"] assms w
  show ?thesis by (simp add: same_layout_def upd_bgd_def)
qed

text \<open>The facts of \<open>wf_ext2\<close> the proofs use.\<close>

lemma wf_ext2D:
  assumes "wf_ext2 len fs"
  shows "len < 2 ^ 64" "wf_sb (x_sb fs)" "length (x_bgd fs) = unat (x_nbBgd fs)" "0 < length (x_bgd fs)"
    "0 < unat (x_blockSize fs)" "sb_blocks_per_group (x_sb fs) \<noteq> 0" "sb_inodes_per_group (x_sb fs) \<noteq> 0"
    "2048 < len" "unat (bgd_addr fs) + 32 * length (x_bgd fs) < len"
    "apart 1024 1024 (unat (bgd_addr fs)) (32 * length (x_bgd fs))"
    "length (encode_sb (x_sb fs)) = 1024" "length (encode_bgds (x_bgd fs)) = 32 * length (x_bgd fs)"
proof -
  have *: "wf_sb (x_sb fs)" "\<forall>g<length (x_bgd fs). wf_bgd (x_bgd fs ! g)"
    using assms unfolding wf_ext2_def Let_def by blast+
  show "length (encode_sb (x_sb fs)) = 1024" "length (encode_bgds (x_bgd fs)) = 32 * length (x_bgd fs)"
    using * by (simp_all only: encode_sb_length length_encode_bgds)
  show "len < 2 ^ 64" "wf_sb (x_sb fs)" "length (x_bgd fs) = unat (x_nbBgd fs)" "0 < length (x_bgd fs)"
    "0 < unat (x_blockSize fs)" "sb_blocks_per_group (x_sb fs) \<noteq> 0" "sb_inodes_per_group (x_sb fs) \<noteq> 0"
    "2048 < len" "unat (bgd_addr fs) + 32 * length (x_bgd fs) < len"
    "apart 1024 1024 (unat (bgd_addr fs)) (32 * length (x_bgd fs))"
    using assms unfolding wf_ext2_def Let_def by blast+
qed

lemma wf_ext2_bitmap:
  assumes "wf_ext2 len fs" "g < length (x_bgd fs)"
  shows "unat (bm_addr fs g) + unat (x_blockSize fs) < len" "unat (im_addr fs g) + unat (x_blockSize fs) < len"
    "apart 1024 1024 (unat (bm_addr fs g)) (unat (x_blockSize fs))"
    "apart 1024 1024 (unat (im_addr fs g)) (unat (x_blockSize fs))"
    "apart (unat (bgd_addr fs)) (32 * length (x_bgd fs)) (unat (bm_addr fs g)) (unat (x_blockSize fs))"
    "apart (unat (bgd_addr fs)) (32 * length (x_bgd fs)) (unat (im_addr fs g)) (unat (x_blockSize fs))"
  using assms unfolding wf_ext2_def Let_def by blast+

lemma wf_ext2_bitmaps:
  assumes "wf_ext2 len fs" "g < length (x_bgd fs)" "h < length (x_bgd fs)"
  shows "apart (unat (bm_addr fs g)) (unat (x_blockSize fs)) (unat (im_addr fs h)) (unat (x_blockSize fs))"
    "h \<noteq> g \<Longrightarrow> apart (unat (bm_addr fs g)) (unat (x_blockSize fs)) (unat (bm_addr fs h)) (unat (x_blockSize fs))"
    "h \<noteq> g \<Longrightarrow> apart (unat (im_addr fs g)) (unat (x_blockSize fs)) (unat (im_addr fs h)) (unat (x_blockSize fs))"
  using assms unfolding wf_ext2_def Let_def by blast+

section \<open>What an operation on a bitmap writes\<close>

text \<open>The bytes after a bitmap, the descriptors and the super block were written.\<close>

definition commit :: "nat \<Rightarrow> bytes \<Rightarrow> 'p ext2 \<Rightarrow> bytes \<Rightarrow> bytes" where
  "commit a bm fs' c = overwrite 1024 (encode_sb (x_sb fs'))
     (overwrite (unat (bgd_addr fs')) (encode_bgds (x_bgd fs')) (overwrite a bm c))"

lemma commit_meets:
  assumes "wf_ext2 (length c) fs" "a + length bm < length c"
  shows "length (commit a bm fs c) = length c"
    "b + n \<le> length c \<Longrightarrow> apart 1024 1024 b n \<Longrightarrow> apart (unat (bgd_addr fs)) (32 * length (x_bgd fs)) b n \<Longrightarrow>
      apart a (length bm) b n \<Longrightarrow> take n (drop b (commit a bm fs c)) = take n (drop b c)"
    "apart 1024 1024 a (length bm) \<Longrightarrow> apart (unat (bgd_addr fs)) (32 * length (x_bgd fs)) a (length bm) \<Longrightarrow>
      take (length bm) (drop a (commit a bm fs c)) = bm"
proof -
  note w = wf_ext2D[OF assms(1)]
  let ?c1 = "overwrite a bm c"
  let ?c2 = "overwrite (unat (bgd_addr fs)) (encode_bgds (x_bgd fs)) ?c1"
  have l1: "length ?c1 = length c" using assms(2) by simp
  have l2: "length ?c2 = length c" using w(9,12) l1 by simp
  show "length (commit a bm fs c) = length c" using w(8,11) l2 by (simp add: commit_def)
  have f2: "take n (drop b (commit a bm fs c)) = take n (drop b ?c1)"
    if "apart 1024 1024 b n" "apart (unat (bgd_addr fs)) (32 * length (x_bgd fs)) b n" for b n
  proof -
    have "take n (drop b (commit a bm fs c)) = take n (drop b ?c2)"
      using that(1) w(8,11) l2 unfolding commit_def apart_def by (intro overwrite_other) auto
    also have "\<dots> = take n (drop b ?c1)"
      using that(2) w(9,12) l1 unfolding apart_def by (intro overwrite_other) auto
    finally show ?thesis .
  qed
  show "apart 1024 1024 b n \<Longrightarrow> apart (unat (bgd_addr fs)) (32 * length (x_bgd fs)) b n \<Longrightarrow>
      apart a (length bm) b n \<Longrightarrow> take n (drop b (commit a bm fs c)) = take n (drop b c)"
    using f2[of b n] overwrite_other[of a bm c b n] assms(2) by (auto simp: apart_def)
  show "apart 1024 1024 a (length bm) \<Longrightarrow> apart (unat (bgd_addr fs)) (32 * length (x_bgd fs)) a (length bm) \<Longrightarrow>
      take (length bm) (drop a (commit a bm fs c)) = bm"
    using f2[of a "length bm"] overwrite_same[of a bm c] assms(2) by simp
qed

context byte_store
begin

lemma write_meta:
  assumes "inv (x_part fs)" "wf_ext2 (length (content (x_part fs))) fs"
  obtains p where "bnd (writeBlockGroupDescriptor D fs) (writeSuperBlock D) = Inr (fs\<lparr>x_part := p\<rparr>)" "inv p"
    "content p = overwrite 1024 (encode_sb (x_sb fs))
      (overwrite (unat (bgd_addr fs)) (encode_bgds (x_bgd fs)) (content (x_part fs)))"
proof -
  note w = wf_ext2D[OF assms(2)]
  have "encode_bgds (x_bgd fs) \<noteq> []" using w(3,4,12) by (metis length_greater_0_conv mult_eq_0_iff neq0_conv zero_neq_numeral)
  from write_ok[OF assms(1) this, of "bgd_addr fs"] w(9,12)
  obtain p1 where p1: "writeaddr D (bgd_addr fs) (encode_bgds (x_bgd fs)) (x_part fs) = Inr p1" "inv p1"
    "content p1 = overwrite (unat (bgd_addr fs)) (encode_bgds (x_bgd fs)) (content (x_part fs))" by auto
  have ne: "encode_sb (x_sb fs) \<noteq> []" using w(11) by auto
  have l: "length (content p1) = length (content (x_part fs))" using p1(3) w(9,12) by simp
  from write_ok[OF p1(2) ne, of 1024] w(8,11) l
  obtain p2 where p2: "writeaddr D 1024 (encode_sb (x_sb fs)) p1 = Inr p2" "inv p2"
    "content p2 = overwrite 1024 (encode_sb (x_sb fs)) (content p1)" by auto
  show thesis
    by (rule that[of p2]) (use p1 p2 in \<open>simp_all add: writeBlockGroupDescriptor_def writeSuperBlock_def\<close>)
qed

text \<open>Writing a bitmap back, updating the counters in memory and writing those.\<close>

lemma write_commit:
  assumes "inv (x_part fs)" "c = content (x_part fs)" "wf_ext2 (length c) fs"
    and "bm \<noteq> []" "unat a + length bm < length c" "\<And>p. same_layout fs (F (fs\<lparr>x_part := p\<rparr>))"
    and "\<And>p q. x_part (F (fs\<lparr>x_part := p\<rparr>)) = p \<and>
       (F (fs\<lparr>x_part := p\<rparr>))\<lparr>x_part := q\<rparr> = F (fs\<lparr>x_part := q\<rparr>)"
  obtains p where "bnd (writeaddr D a bm (x_part fs)) (\<lambda>p. bnd (writeBlockGroupDescriptor D (F (fs\<lparr>x_part := p\<rparr>)))
      (\<lambda>fs. bnd (writeSuperBlock D fs) k)) = k (F (fs\<lparr>x_part := p\<rparr>))" "inv p"
    "content p = commit (unat a) bm (F (fs\<lparr>x_part := p\<rparr>)) c"
proof -
  from write_ok[OF assms(1,4), of a] assms(2,5)
  obtain p1 where p1: "writeaddr D a bm (x_part fs) = Inr p1" "inv p1" "content p1 = overwrite (unat a) bm c" by auto
  let ?f = "F (fs\<lparr>x_part := p1\<rparr>)"
  have l: "length (content p1) = length c" using p1(3) assms(5) by simp
  have pt: "x_part ?f = p1" using assms(7) by blast
  have "wf_ext2 (length (content (x_part ?f))) ?f"
    using same_layout_wf[OF assms(6)] assms(3) pt l by simp
  from write_meta[OF _ this] p1(2) pt
  obtain p where p: "bnd (writeBlockGroupDescriptor D ?f) (writeSuperBlock D) = Inr (?f\<lparr>x_part := p\<rparr>)" "inv p"
    "content p = overwrite 1024 (encode_sb (x_sb ?f)) (overwrite (unat (bgd_addr ?f)) (encode_bgds (x_bgd ?f)) (content p1))"
    by auto
  have eq: "?f\<lparr>x_part := p\<rparr> = F (fs\<lparr>x_part := p\<rparr>)" using assms(7) by blast
  have q: "x_sb (F (fs\<lparr>x_part := p\<rparr>)) = x_sb ?f" "bgd_addr (F (fs\<lparr>x_part := p\<rparr>)) = bgd_addr ?f"
    "x_bgd (F (fs\<lparr>x_part := p\<rparr>)) = x_bgd ?f"
    unfolding eq[symmetric] by (simp_all add: bgd_addr_def)
  show thesis
  proof (rule that[OF _ p(2)])
    show "bnd (writeaddr D a bm (x_part fs)) (\<lambda>p. bnd (writeBlockGroupDescriptor D (F (fs\<lparr>x_part := p\<rparr>)))
      (\<lambda>fs. bnd (writeSuperBlock D fs) k)) = k (F (fs\<lparr>x_part := p\<rparr>))"
      using p(1) eq by (simp add: p1 bnd_assoc[symmetric])
    show "content p = commit (unat a) bm (F (fs\<lparr>x_part := p\<rparr>)) c"
      using p(3) p1(3) q by (simp add: commit_def)
  qed
qed

end

text \<open>Bookkeeping of an operation: add \<open>k\<close> to the free counters of a group and of the volume.\<close>

definition count_blocks :: "u64 \<Rightarrow> int \<Rightarrow> 'p ext2 \<Rightarrow> 'p ext2" where
  "count_blocks g k fs = (let fs1 = upd_bgd g (\<lambda>b. b\<lparr>bg_free_blocks_count := bg_free_blocks_count b + of_int k\<rparr>) fs in
     fs1\<lparr>x_sb := (x_sb fs1)\<lparr>sb_free_blocks_count := sb_free_blocks_count (x_sb fs1) + of_int k\<rparr>\<rparr>)"

lemma count_blocks_simps [simp]:
  "x_part (count_blocks g k fs) = x_part fs"
  "(count_blocks g k fs)\<lparr>x_part := q\<rparr> = count_blocks g k (fs\<lparr>x_part := q\<rparr>)"
  "x_blockSize (count_blocks g k fs) = x_blockSize fs"
  "sb_blocks_per_group (x_sb (count_blocks g k fs)) = sb_blocks_per_group (x_sb fs)"
  "length (x_bgd (count_blocks g k fs)) = length (x_bgd fs)"
  by (simp_all add: count_blocks_def upd_bgd_def Let_def)

lemma count_blocks_undo:
  "count_blocks g (- k) (count_blocks g k fs) = fs"
  by (cases "unat g < length (x_bgd fs)")
    (simp_all add: count_blocks_def upd_bgd_def Let_def list_update_beyond)

lemma same_layout_count_blocks: "same_layout fs (count_blocks g k fs)"
proof -
  have "same_layout fs (upd_bgd g (\<lambda>b. b\<lparr>bg_free_blocks_count := bg_free_blocks_count b + of_int k\<rparr>) fs)"
    by (rule same_layout_upd_bgd) simp_all
  then show ?thesis by (simp add: count_blocks_def Let_def same_layout_def wf_sb_def)
qed

lemma bitmap_find_Some:
  assumes "bitmap_find bm n = Some j" "length bm = n"
  shows "j < length bm" "ctz_not8 (bm ! j) < 8" "8 * j + ctz_not8 (bm ! j) \<notin> bits_of bm"
    "\<And>m. m < 8 * j + ctz_not8 (bm ! j) \<Longrightarrow> m \<in> bits_of bm"
    "bm ! j AND push_bit (ctz_not8 (bm ! j)) 1 = 0"
proof -
  have j: "j < n" "NOT (bm ! j) \<noteq> 0" "\<And>i. i < j \<Longrightarrow> NOT (bm ! i) = 0"
    using assms(1) by (auto simp: bitmap_find_def find_upt_Some)
  note c = ctz_not8[OF j(2)]
  show "j < length bm" "ctz_not8 (bm ! j) < 8" using j(1) assms(2) c(1) by simp_all
  show "8 * j + ctz_not8 (bm ! j) \<notin> bits_of bm" using c(1,2) by (simp add: bits_of_def)
  show "bm ! j AND push_bit (ctz_not8 (bm ! j)) 1 = 0" using c(1,2) by (simp only: and_single_bit not_False_eq_True)
  fix m assume m: "m < 8 * j + ctz_not8 (bm ! j)"
  have lt: "m < 8 * length bm" using m c(1) j(1) assms(2) by simp
  have "bit (bm ! (m div 8)) (m mod 8)"
  proof (cases "m div 8 < j")
    case True
    from j(3)[OF this] have "bm ! (m div 8) = NOT 0" by (metis bit.double_compl)
    then show ?thesis by (simp add: bit_minus_1_iff)
  next
    case False
    with m c(1) have d: "m div 8 = j" by linarith
    then have "m mod 8 < ctz_not8 (bm ! j)" using m mult_div_mod_eq[of 8 m] by simp
    note d this
    then show ?thesis using c(3) d by simp
  qed
  with lt show "m \<in> bits_of bm" by (simp add: bits_of_def)
qed

lemma bitmap_find_None:
  assumes "bitmap_find bm n = None" "length bm = n" "m < 8 * n"
  shows "m \<in> bits_of bm"
proof -
  have "m div 8 < n" using assms(3) by linarith
  then have "NOT (bm ! (m div 8)) = 0" using assms(1) by (auto simp: bitmap_find_def find_None_iff)
  then have "bm ! (m div 8) = NOT 0" by (metis bit.double_compl)
  then show ?thesis using assms by (simp add: bits_of_def bit_minus_1_iff)
qed

lemma same_layout_bitmaps:
  assumes "same_layout fs fs'" "g < length (x_bgd fs)"
  shows "block_bitmap c fs' g = block_bitmap c fs g" "inode_bitmap c fs' g = inode_bitmap c fs g"
  using same_layout_addr[OF assms(1)] assms by (simp_all add: block_bitmap_def inode_bitmap_def same_layout_def)

text \<open>A commit of the block bitmap of one group changes that bitmap only.\<close>

lemma commit_block_bitmap:
  assumes "wf_ext2 (length c) fs" "same_layout fs fs'" "g < length (x_bgd fs)"
    and "length bm = unat (x_blockSize fs)" "c' = commit (unat (bm_addr fs g)) bm fs' c"
  shows "length c' = length c" "block_bitmap c' fs' g = bm"
    "used_blocks c' fs' = used_blocks c fs - {g} \<times> UNIV \<union> {g} \<times> bits_of bm"
    "used_inodes c' fs' = used_inodes c fs"
proof -
  have wf': "wf_ext2 (length c) fs'" using same_layout_wf[OF assms(2)] assms(1) by simp
  have L: "length (x_bgd fs') = length (x_bgd fs)" by (rule same_layout_length[OF assms(2)])
  have bs: "x_blockSize fs' = x_blockSize fs" using assms(2) by (simp add: same_layout_def)
  note ad = same_layout_addr[OF assms(2)]
  note w = wf_ext2_bitmap[OF wf'] and w2 = wf_ext2_bitmaps[OF wf']
  have ag: "unat (bm_addr fs g) + length bm < length c" using w(1)[of g] ad(2)[of g] assms(3,4) L bs by simp
  note cm = commit_meets[OF wf' ag]
  show "length c' = length c" using cm(1) assms(5) by simp
  show own: "block_bitmap c' fs' g = bm"
    using cm(3) w(3,5)[of g] assms(3-5) L bs ad by (simp add: block_bitmap_def)
  have other: "block_bitmap c' fs' h = block_bitmap c fs h" if "h < length (x_bgd fs)" "h \<noteq> g" for h
    using cm(2)[of "unat (bm_addr fs h)" "unat (x_blockSize fs)"] w(1,3,5)[of h] w2(2)[of g h] that assms(3-5) L bs ad
    by (simp add: block_bitmap_def)
  have inodes: "inode_bitmap c' fs' h = inode_bitmap c fs h" if "h < length (x_bgd fs)" for h
    using cm(2)[of "unat (im_addr fs h)" "unat (x_blockSize fs)"] w(2,4,6)[of h] w2(1)[of g h] that assms(3-5) L bs ad
    by (simp add: inode_bitmap_def)
  show "used_blocks c' fs' = used_blocks c fs - {g} \<times> UNIV \<union> {g} \<times> bits_of bm"
    using own other assms(3) L by (auto simp: used_blocks_def) metis+
  show "used_inodes c' fs' = used_inodes c fs"
    using inodes L by (auto simp: used_inodes_def)
qed

lemma used_blocks_bits: "g < length (x_bgd fs) \<Longrightarrow> n \<in> bits_of (block_bitmap c fs g) \<longleftrightarrow> (g, n) \<in> used_blocks c fs"
  by (simp add: used_blocks_def)

lemma used_blocks_split:
  assumes "g < length (x_bgd fs)"
  shows "used_blocks c fs - {g} \<times> UNIV \<union> {g} \<times> insert n (bits_of (block_bitmap c fs g)) = insert (g, n) (used_blocks c fs)"
    "used_blocks c fs - {g} \<times> UNIV \<union> {g} \<times> (bits_of (block_bitmap c fs g) - {n}) = used_blocks c fs - {(g, n)}"
  using assms by (auto simp: used_blocks_def)

lemma of_nat_u32_of_u64: "ucast (ucast (w :: u32) * (g :: u64) + of_nat a + of_nat b) = (of_nat (unat w * unat g + (a + b)) :: u32)"
proof -
  have "ucast (ucast w * g + of_nat a + of_nat b) = (of_nat (unat (ucast w * g + of_nat a + of_nat b :: u64)) :: u32)"
    by simp
  also have "unat (ucast w * g + of_nat a + of_nat b :: u64) = (unat w * unat g + (a + b)) mod 2 ^ 64"
  proof -
    have "ucast w * g + of_nat a + of_nat b = (of_nat (unat w * unat g + (a + b)) :: u64)" by simp
    then show ?thesis by (simp only: unat_of_nat) simp
  qed
  also have "(of_nat (k mod 2 ^ 64) :: u32) = of_nat k" for k
    by (rule word_unat_eq_iff[THEN iffD2]) (simp add: unat_of_nat mod_mod_cancel)
  finally show ?thesis .
qed

lemma count_blocks_take:
  "count_blocks g (- 1) fs = (let fs1 = upd_bgd g (\<lambda>b. b\<lparr>bg_free_blocks_count := bg_free_blocks_count b - 1\<rparr>) fs in
     fs1\<lparr>x_sb := (x_sb fs1)\<lparr>sb_free_blocks_count := sb_free_blocks_count (x_sb fs1) - 1\<rparr>\<rparr>)"
  and count_blocks_give:
  "count_blocks g 1 fs = (let fs1 = upd_bgd g (\<lambda>b. b\<lparr>bg_free_blocks_count := bg_free_blocks_count b + 1\<rparr>) fs in
     fs1\<lparr>x_sb := (x_sb fs1)\<lparr>sb_free_blocks_count := sb_free_blocks_count (x_sb fs1) + 1\<rparr>\<rparr>)"
  by (simp_all add: count_blocks_def)

context byte_store
begin

lemma readaddr_bitmap:
  assumes "inv (x_part fs)" "wf_ext2 (length (content (x_part fs))) fs" "g < length (x_bgd fs)"
  shows "readaddr D (bm_addr fs g) (x_blockSize fs) (x_part fs) = Inr (block_bitmap (content (x_part fs)) fs g)"
    "length (block_bitmap (content (x_part fs)) fs g) = unat (x_blockSize fs)"
    "readaddr D (im_addr fs g) (x_blockSize fs) (x_part fs) = Inr (inode_bitmap (content (x_part fs)) fs g)"
    "length (inode_bitmap (content (x_part fs)) fs g) = unat (x_blockSize fs)"
proof -
  note w = wf_ext2_bitmap[OF assms(2,3)] and bs = wf_ext2D(5)[OF assms(2)]
  have p: "0 < x_blockSize fs" using bs by (simp add: word_less_nat_alt)
  show "readaddr D (bm_addr fs g) (x_blockSize fs) (x_part fs) = Inr (block_bitmap (content (x_part fs)) fs g)"
    "readaddr D (im_addr fs g) (x_blockSize fs) (x_part fs) = Inr (inode_bitmap (content (x_part fs)) fs g)"
    using read_ok[OF assms(1) p] w(1,2) by (simp_all add: block_bitmap_def inode_bitmap_def)
  show "length (block_bitmap (content (x_part fs)) fs g) = unat (x_blockSize fs)"
    "length (inode_bitmap (content (x_part fs)) fs g) = unat (x_blockSize fs)"
    using w(1,2) by (simp_all add: block_bitmap_def inode_bitmap_def)
qed

text \<open>One group: either nothing is free, or the first free bit is taken.\<close>

lemma getNewBlock_in_cases:
  assumes "inv (x_part fs)" "c = content (x_part fs)" "wf_ext2 (length c) fs" "unat g < length (x_bgd fs)"
  obtains (full) "getNewBlock_in D g fs = Inr None"
      "bg_free_blocks_count (x_bgd fs ! unat g) = 0 \<or> {unat g} \<times> {..<8 * unat (x_blockSize fs)} \<subseteq> used_blocks c fs"
  | (found) n p where "bg_free_blocks_count (x_bgd fs ! unat g) \<noteq> 0"
      "getNewBlock_in D g fs = Inr (Some (count_blocks g (-1) (fs\<lparr>x_part := p\<rparr>),
        of_nat (unat (sb_blocks_per_group (x_sb fs)) * unat g + n)))"
      "inv p" "n < 8 * unat (x_blockSize fs)" "(unat g, n) \<notin> used_blocks c fs" "\<And>m. m < n \<Longrightarrow> (unat g, m) \<in> used_blocks c fs"
      "content p = commit (unat (bm_addr fs (unat g)))
        ((block_bitmap c fs (unat g))[n div 8 := block_bitmap c fs (unat g) ! (n div 8) OR push_bit (n mod 8) 1])
        (count_blocks g (-1) (fs\<lparr>x_part := p\<rparr>)) c"
proof -
  let ?bm = "block_bitmap c fs (unat g)"
  note rd = readaddr_bitmap[OF assms(1) _ assms(4), unfolded assms(2)[symmetric], OF assms(3)]
  have a: "ucast (bg_block_bitmap (x_bgd fs ! unat g)) * x_blockSize fs = bm_addr fs (unat g)" by (simp add: bm_addr_def)
  show thesis
  proof (cases "bg_free_blocks_count (x_bgd fs ! unat g) = 0")
    case True
    show thesis by (rule full) (use True assms(4) in \<open>simp_all add: getNewBlock_in_def get_bgd_def\<close>)
  next
    case nz: False
    show thesis
    proof (cases "bitmap_find ?bm (unat (x_blockSize fs))")
      case None
      from bitmap_find_None[OF None rd(2)]
      have "{unat g} \<times> {..<8 * unat (x_blockSize fs)} \<subseteq> used_blocks c fs"
        using used_blocks_bits[OF assms(4)] by auto
      moreover have "getNewBlock_in D g fs = Inr None"
        unfolding getNewBlock_in_def get_bgd_def a using nz assms(4) None rd(1) by (simp add: a)
      ultimately show thesis using full by blast
    next
      case (Some j)
      note f = bitmap_find_Some[OF Some rd(2)]
      let ?pos = "ctz_not8 (?bm ! j)"
      let ?bm' = "?bm[j := ?bm ! j OR push_bit ?pos 1]"
      have n: "(8 * j + ?pos) div 8 = j" "(8 * j + ?pos) mod 8 = ?pos" using f(2) by simp_all
      have l: "length ?bm' = unat (x_blockSize fs)" using rd(2) by simp
      have ne: "?bm' \<noteq> []" using f(1) by auto
      have rng: "unat (bm_addr fs (unat g)) + length ?bm' < length c"
        using wf_ext2_bitmap(1)[OF assms(3,4)] l by simp
      let ?k = "\<lambda>fs4 :: 'a ext2. Inr (Some (fs4, ucast (ucast (sb_blocks_per_group (x_sb fs4)) * g + of_nat (8 * j) + of_nat ?pos))) :: ('a ext2 \<times> u32) option res"
      have lay: "same_layout fs (count_blocks g (- 1) (fs\<lparr>x_part := p\<rparr>))" for p
        by (rule same_layout_trans[OF _ same_layout_count_blocks]) simp
      obtain p where p: "bnd (writeaddr D (bm_addr fs (unat g)) ?bm' (x_part fs))
           (\<lambda>p. bnd (writeBlockGroupDescriptor D (count_blocks g (- 1) (fs\<lparr>x_part := p\<rparr>)))
             (\<lambda>fs. bnd (writeSuperBlock D fs) ?k)) = ?k (count_blocks g (- 1) (fs\<lparr>x_part := p\<rparr>))"
         "inv p" "content p = commit (unat (bm_addr fs (unat g))) ?bm' (count_blocks g (- 1) (fs\<lparr>x_part := p\<rparr>)) c"
        by (rule write_commit[where F = "count_blocks g (- 1)" and k = ?k, OF assms(1-3) ne rng lay]) auto
      have "getNewBlock_in D g fs = bnd (writeaddr D (bm_addr fs (unat g)) ?bm' (x_part fs))
           (\<lambda>p. bnd (writeBlockGroupDescriptor D (count_blocks g (- 1) (fs\<lparr>x_part := p\<rparr>)))
             (\<lambda>fs. bnd (writeSuperBlock D fs) ?k))"
        unfolding getNewBlock_in_def get_bgd_def using nz assms(4) Some rd(1) f(5)
        by (simp add: a count_blocks_take Let_def del: push_bit_of_1)
      also note p(1)
      also have "?k (count_blocks g (- 1) (fs\<lparr>x_part := p\<rparr>)) = Inr (Some (count_blocks g (-1) (fs\<lparr>x_part := p\<rparr>),
        of_nat (unat (sb_blocks_per_group (x_sb fs)) * unat g + (8 * j + ?pos))))"
        by (simp only: of_nat_u32_of_u64) simp
      finally have g: "getNewBlock_in D g fs = Inr (Some (count_blocks g (-1) (fs\<lparr>x_part := p\<rparr>),
        of_nat (unat (sb_blocks_per_group (x_sb fs)) * unat g + (8 * j + ?pos))))" .
      show thesis
      proof (rule found[OF nz g p(2)])
        show "8 * j + ?pos < 8 * unat (x_blockSize fs)" using f(1,2) rd(2) by simp
        show "(unat g, 8 * j + ?pos) \<notin> used_blocks c fs" using f(3) used_blocks_bits[OF assms(4)] by blast
        show "\<And>m. m < 8 * j + ?pos \<Longrightarrow> (unat g, m) \<in> used_blocks c fs" using f(4) used_blocks_bits[OF assms(4)] by blast
      qed (use p(3) n in simp)
    qed
  qed
qed

end

definition group_full :: "bytes \<Rightarrow> 'p ext2 \<Rightarrow> nat \<Rightarrow> bool" where
  "group_full c fs g \<longleftrightarrow> bg_free_blocks_count (x_bgd fs ! g) = 0 \<or>
     (\<forall>n<8 * unat (x_blockSize fs). (g, n) \<in> used_blocks c fs)"

text \<open>The effect of taking bit \<open>n\<close> of group \<open>g\<close>.\<close>

definition block_taken :: "('p \<Rightarrow> bytes) \<Rightarrow> 'p ext2 \<Rightarrow> 'p ext2 \<Rightarrow> nat \<Rightarrow> nat \<Rightarrow> bool" where
  "block_taken content fs fs' g n \<longleftrightarrow>
     g < length (x_bgd fs) \<and> n < 8 * unat (x_blockSize fs) \<and>
     (g, n) \<notin> used_blocks (content (x_part fs)) fs \<and>
     used_blocks (content (x_part fs')) fs' = insert (g, n) (used_blocks (content (x_part fs)) fs) \<and>
     used_inodes (content (x_part fs')) fs' = used_inodes (content (x_part fs)) fs \<and>
     fs'\<lparr>x_part := x_part fs\<rparr> = count_blocks (of_nat g) (-1) fs \<and>
     content (x_part fs') = commit (unat (bm_addr fs g))
       ((block_bitmap (content (x_part fs)) fs g)[n div 8 :=
          block_bitmap (content (x_part fs)) fs g ! (n div 8) OR push_bit (n mod 8) 1]) fs' (content (x_part fs))"

lemma bit_commit:
  assumes "wf_ext2 (length c) fs" "n < 8 * unat (x_blockSize fs)" "g < length (x_bgd fs)"
  shows "bits_of ((block_bitmap c fs g)[n div 8 := block_bitmap c fs g ! (n div 8) OR push_bit (n mod 8) 1])
      = insert n (bits_of (block_bitmap c fs g))"
    "bits_of ((block_bitmap c fs g)[n div 8 := block_bitmap c fs g ! (n div 8) AND NOT (push_bit (n mod 8) 1)])
      = bits_of (block_bitmap c fs g) - {n}"
    "length (block_bitmap c fs g) = unat (x_blockSize fs)"
proof -
  show l: "length (block_bitmap c fs g) = unat (x_blockSize fs)"
    using wf_ext2_bitmap(1)[OF assms(1,3)] by (simp add: block_bitmap_def)
  have d: "n div 8 < length (block_bitmap c fs g)" using assms(2) l by linarith
  show "bits_of ((block_bitmap c fs g)[n div 8 := block_bitmap c fs g ! (n div 8) OR push_bit (n mod 8) 1])
      = insert n (bits_of (block_bitmap c fs g))"
    using bits_of_set[OF d, of "n mod 8"] by (simp del: push_bit_of_1)
  show "bits_of ((block_bitmap c fs g)[n div 8 := block_bitmap c fs g ! (n div 8) AND NOT (push_bit (n mod 8) 1)])
      = bits_of (block_bitmap c fs g) - {n}"
    using bits_of_clear[OF d, of "n mod 8"] by (simp del: push_bit_of_1)
qed

text \<open>The groups in the order of the search are all groups.\<close>

lemma search_groups:
  assumes "0 < n" "unat (n::u64) < 2 ^ 63" "unat g0 < 2 ^ 63"
  shows "set (map (\<lambda>i. (of_nat i + g0) mod n) [0..<unat n]) = {g. g < n}"
proof (intro equalityI subsetI)
  fix x assume "x \<in> set (map (\<lambda>i. (of_nat i + g0) mod n) [0..<unat n])"
  then show "x \<in> {g. g < n}" using assms(1) by (auto simp: word_mod_less_divisor)
next
  fix x assume "x \<in> {g. g < n}"
  then have x: "unat x < unat n" by (simp add: word_less_nat_alt)
  have p: "0 < unat n" using assms(1) by (simp add: word_less_nat_alt)
  define i where "i = (unat x + (unat n - unat g0 mod unat n)) mod unat n"
  have i: "i < unat n" using p by (simp add: i_def)
  have m: "unat g0 mod unat n < unat n" using p by simp
  have "(i + unat g0) mod unat n = (unat x + (unat n - unat g0 mod unat n) + unat g0 mod unat n) mod unat n"
    unfolding i_def by (simp add: mod_simps)
  also have "unat x + (unat n - unat g0 mod unat n) + unat g0 mod unat n = unat x + unat n" using m by linarith
  also have "(unat x + unat n) mod unat n = unat x" using x by simp
  finally have e: "(i + unat g0) mod unat n = unat x" .
  have u: "unat (of_nat i + g0) = i + unat g0"
    using i assms(2,3) by (subst unat_add_lem[THEN iffD1]) (simp_all add: unat_of_nat64)
  have "(of_nat i + g0) mod n = x"
    by (rule word_unat_eq_iff[THEN iffD2]) (simp add: unat_mod u e)
  with i show "x \<in> set (map (\<lambda>i. (of_nat i + g0) mod n) [0..<unat n])" by (force intro!: image_eqI[of _ _ i])
qed

context byte_store
begin

lemma getNewBlock_in_spec:
  assumes "inv (x_part fs)" "wf_ext2 (length (content (x_part fs))) fs" "unat g < length (x_bgd fs)"
  shows "if group_full (content (x_part fs)) fs (unat g) then getNewBlock_in D g fs = Inr None
    else \<exists>fs' n. getNewBlock_in D g fs =
        Inr (Some (fs', of_nat (unat (sb_blocks_per_group (x_sb fs)) * unat g + n))) \<and> inv (x_part fs') \<and>
      block_taken content fs fs' (unat g) n \<and> (\<forall>m<n. (unat g, m) \<in> used_blocks (content (x_part fs)) fs)"
proof (cases rule: getNewBlock_in_cases[OF assms(1) refl assms(2,3)])
  case 1
  then show ?thesis by (auto simp: group_full_def)
next
  case found: (2 n p)
  let ?c = "content (x_part fs)" and ?fs' = "count_blocks g (-1) (fs\<lparr>x_part := p\<rparr>)"
  have nf: "\<not> group_full ?c fs (unat g)" using found(1,4,5) by (auto simp: group_full_def)
  have lay: "same_layout fs ?fs'" by (rule same_layout_trans[OF _ same_layout_count_blocks]) simp
  note b = bit_commit[OF assms(2) found(4) assms(3)]
  note c = commit_block_bitmap[OF assms(2) lay assms(3) _ found(7)]
  have "block_taken content fs ?fs' (unat g) n"
    unfolding block_taken_def using c b(1,3) assms(3) found(4,5,7) used_blocks_split(1)[OF assms(3), where c = ?c and n = n]
    by (simp del: push_bit_of_1)
  with nf found show ?thesis by auto
qed

lemma first_group_spec:
  assumes "inv (x_part fs)" "wf_ext2 (length (content (x_part fs))) fs" "\<And>g. g \<in> set gs \<Longrightarrow> unat g < length (x_bgd fs)"
  shows "if \<forall>g\<in>set gs. group_full (content (x_part fs)) fs (unat g) then first_group (getNewBlock_in D) gs fs = Inl Bsod
    else \<exists>fs' g n. g \<in> set gs \<and> first_group (getNewBlock_in D) gs fs =
        Inr (fs', of_nat (unat (sb_blocks_per_group (x_sb fs)) * unat g + n)) \<and> inv (x_part fs') \<and>
      block_taken content fs fs' (unat g) n \<and> (\<forall>m<n. (unat g, m) \<in> used_blocks (content (x_part fs)) fs)"
  using assms(3)
proof (induction gs)
  case Nil
  then show ?case by simp
next
  case (Cons g gs)
  note s = getNewBlock_in_spec[OF assms(1,2), of g]
  show ?case
  proof (cases "group_full (content (x_part fs)) fs (unat g)")
    case True
    with s Cons.prems[of g] have "getNewBlock_in D g fs = Inr None" by simp
    with True Cons.IH Cons.prems show ?thesis by (auto split: if_splits)
  next
    case False
    with s Cons.prems[of g] obtain fs' n where
      "getNewBlock_in D g fs = Inr (Some (fs', of_nat (unat (sb_blocks_per_group (x_sb fs)) * unat g + n)))"
      "inv (x_part fs')" "block_taken content fs fs' (unat g) n" "\<forall>m<n. (unat g, m) \<in> used_blocks (content (x_part fs)) fs"
      by auto
    with False show ?thesis by auto
  qed
qed

lemma getNewBlock_spec:
  assumes "inv (x_part fs)" "wf_ext2 (length (content (x_part fs))) fs" "length (x_bgd fs) < 2 ^ 32"
  shows "if \<forall>g<length (x_bgd fs). group_full (content (x_part fs)) fs g then getNewBlock D near fs = Inl Bsod
    else \<exists>fs' g n. getNewBlock D near fs = Inr (fs', of_nat (unat (sb_blocks_per_group (x_sb fs)) * g + n)) \<and>
      inv (x_part fs') \<and> block_taken content fs fs' g n \<and> (\<forall>m<n. (g, m) \<in> used_blocks (content (x_part fs)) fs)"
proof -
  note w = wf_ext2D[OF assms(2)]
  obtain g0 :: u64 where g0: "inode_group fs near = Inr g0" "unat g0 < 2 ^ 63"
  proof (rule that)
    show "inode_group fs near = Inr (ucast ((near - 1) div sb_inodes_per_group (x_sb fs)))"
      using w(7) by (simp add: inode_group_def)
    have "unat (ucast x :: u64) < 2 ^ 63" for x :: u32
      using unat_lt32[of x] by simp
    then show "unat (ucast ((near - 1) div sb_inodes_per_group (x_sb fs)) :: u64) < 2 ^ 63" by blast
  qed
  let ?gs = "map (\<lambda>i. (of_nat i + g0) mod x_nbBgd fs) [0..<unat (x_nbBgd fs)]"
  have "0 < x_nbBgd fs" using w(3,4) by (simp add: word_less_nat_alt)
  then have set: "set ?gs = {g. g < x_nbBgd fs}"
    using search_groups[of "x_nbBgd fs" g0] g0(2) assms(3) w(3) by simp
  have gs: "unat g < length (x_bgd fs)" if "g \<in> set ?gs" for g
    using that w(3) unfolding set by (simp add: word_less_nat_alt)
  have all: "(\<forall>g\<in>set ?gs. P (unat g)) \<longleftrightarrow> (\<forall>g<length (x_bgd fs). P g)" for P
  proof
    assume a: "\<forall>g\<in>set ?gs. P (unat g)"
    show "\<forall>g<length (x_bgd fs). P g"
    proof (intro allI impI)
      fix g assume g: "g < length (x_bgd fs)"
      then have u: "unat (of_nat g :: u64) = g" using assms(3) by (intro unat_of_nat64) simp
      then have "of_nat g \<in> set ?gs" unfolding set using g w(3) by (simp add: word_less_nat_alt)
      with a u show "P g" by metis
    qed
  qed (use gs in blast)
  have "getNewBlock D near fs = first_group (getNewBlock_in D) ?gs fs" by (simp add: getNewBlock_def g0)
  with first_group_spec[OF assms(1,2) gs, of ?gs] all[of "group_full (content (x_part fs)) fs"]
  show ?thesis by (simp only: split: if_splits) metis
qed

end

context byte_store
begin

lemma freeBlock_cases:
  assumes "inv (x_part fs)" "c = content (x_part fs)" "wf_ext2 (length c) fs"
    and "g = unat block div unat (sb_blocks_per_group (x_sb fs))" "n = unat block mod unat (sb_blocks_per_group (x_sb fs))"
    and "g < length (x_bgd fs)" "n < 8 * unat (x_blockSize fs)"
  shows "(g, n) \<notin> used_blocks c fs \<Longrightarrow> freeBlock D block fs = Inl Assertion"
    and "(g, n) \<in> used_blocks c fs \<Longrightarrow> \<exists>p. freeBlock D block fs = Inr (count_blocks (of_nat g) 1 (fs\<lparr>x_part := p\<rparr>)) \<and> inv p \<and>
      content p = commit (unat (bm_addr fs g))
        ((block_bitmap c fs g)[n div 8 := block_bitmap c fs g ! (n div 8) AND NOT (push_bit (n mod 8) 1)])
        (count_blocks (of_nat g) 1 (fs\<lparr>x_part := p\<rparr>)) c"
proof -
  let ?bm = "block_bitmap c fs g" and ?j = "n div 8" and ?pos = "n mod 8"
  have g64: "unat (of_nat g :: u64) = g"
    using wf_ext2D(3)[OF assms(3)] assms(6) unat_lt64[of "x_nbBgd fs"] by (intro unat_of_nat64) simp
  have gw: "(ucast (block div sb_blocks_per_group (x_sb fs)) :: u64) = of_nat g"
    by (rule word_unat_eq_iff[THEN iffD2]) (simp only: g64, simp add: unat_div assms(4))
  have ji: "unat ((block mod sb_blocks_per_group (x_sb fs)) div 8) = ?j" "unat ((block mod sb_blocks_per_group (x_sb fs)) mod 8) = ?pos"
    using assms(5) by (simp_all add: unat_div unat_mod)
  have nz: "sb_blocks_per_group (x_sb fs) \<noteq> 0" using wf_ext2D(6)[OF assms(3)] .
  note rd = readaddr_bitmap[OF assms(1) _ assms(6), unfolded assms(2)[symmetric], OF assms(3)]
  have a: "ucast (bg_block_bitmap (x_bgd fs ! g)) * x_blockSize fs = bm_addr fs g" by (simp add: bm_addr_def)
  have j: "?j < length ?bm" using assms(7) rd(2) by linarith
  have p8: "?pos < 8" by simp
  have used: "(?bm ! ?j AND push_bit ?pos 1 \<noteq> 0) \<longleftrightarrow> (g, n) \<in> used_blocks c fs"
    unfolding and_single_bit[OF p8] not_not using used_blocks_bits[OF assms(6), of n c] assms(7) rd(2)
    by (simp add: bits_of_def)
  have clr: "(?bm ! ?j AND NOT (push_bit ?pos 1)) AND push_bit ?pos 1 = 0"
    by (simp only: and_single_bit[OF p8] bit_and_iff bit_not_iff bit_single8[OF p8]) simp
  have unf: "freeBlock D block fs = (if (g, n) \<in> used_blocks c fs then
      bnd (writeaddr D (bm_addr fs g) (?bm[?j := ?bm ! ?j AND NOT (push_bit ?pos 1)]) (x_part fs)) (\<lambda>p.
        bnd (writeBlockGroupDescriptor D (count_blocks (of_nat g) 1 (fs\<lparr>x_part := p\<rparr>))) (writeSuperBlock D))
      else Inl Assertion)"
    unfolding freeBlock_def Let_def gw ji get_bgd_def g64 count_blocks_give a
    using nz assms(6) rd(1) j used clr by (auto simp: check_def g64 a simp del: push_bit_of_1)
  show "(g, n) \<notin> used_blocks c fs \<Longrightarrow> freeBlock D block fs = Inl Assertion" by (simp add: unf)
  assume u: "(g, n) \<in> used_blocks c fs"
  let ?bm' = "?bm[?j := ?bm ! ?j AND NOT (push_bit ?pos 1)]"
  have ne: "?bm' \<noteq> []" using j by auto
  have rng: "unat (bm_addr fs g) + length ?bm' < length c" using wf_ext2_bitmap(1)[OF assms(3,6)] rd(2) by simp
  have lay: "same_layout fs (count_blocks (of_nat g) 1 (fs\<lparr>x_part := p\<rparr>))" for p
    by (rule same_layout_trans[OF _ same_layout_count_blocks]) simp
  have k: "bnd m (\<lambda>x. Inr x) = m" for m :: "'p ext2 res" by (cases m) simp_all
  obtain p where p: "bnd (writeaddr D (bm_addr fs g) ?bm' (x_part fs))
      (\<lambda>p. bnd (writeBlockGroupDescriptor D (count_blocks (of_nat g) 1 (fs\<lparr>x_part := p\<rparr>)))
        (\<lambda>fs. bnd (writeSuperBlock D fs) Inr)) = Inr (count_blocks (of_nat g) 1 (fs\<lparr>x_part := p\<rparr>))"
    "inv p" "content p = commit (unat (bm_addr fs g)) ?bm' (count_blocks (of_nat g) 1 (fs\<lparr>x_part := p\<rparr>)) c"
    by (rule write_commit[where F = "count_blocks (of_nat g) 1" and k = "Inr :: 'p ext2 \<Rightarrow> 'p ext2 res",
        OF assms(1-3) ne rng lay]) auto
  then show "\<exists>p. freeBlock D block fs = Inr (count_blocks (of_nat g) 1 (fs\<lparr>x_part := p\<rparr>)) \<and> inv p \<and>
      content p = commit (unat (bm_addr fs g)) ?bm' (count_blocks (of_nat g) 1 (fs\<lparr>x_part := p\<rparr>)) c"
    using u by (auto simp: unf k simp del: push_bit_of_1)
qed

end

text \<open>A commit repeated on the same bitmap, and one of what is on the disk already.\<close>

lemma commit_commit:
  assumes "wf_ext2 (length c) fs" "same_layout fs fs'" "a + length bm < length c" "length bm' = length bm"
    and "apart 1024 1024 a (length bm)" "apart (unat (bgd_addr fs)) (32 * length (x_bgd fs)) a (length bm)"
  shows "commit a bm' fs (commit a bm fs' c) = commit a bm' fs c"
proof -
  have wf': "wf_ext2 (length c) fs'" using same_layout_wf[OF assms(2)] assms(1) by simp
  note w = wf_ext2D[OF assms(1)] and w' = wf_ext2D[OF wf']
  have L: "length (x_bgd fs') = length (x_bgd fs)" and A: "bgd_addr fs' = bgd_addr fs"
    using same_layout_length[OF assms(2)] same_layout_addr(1)[OF assms(2)] by simp_all
  show ?thesis
    unfolding commit_def A using assms(3-6) w(8-12) w'(11,12) L
    by (intro nth_equalityI) (auto simp: nth_overwrite apart_def)
qed

lemma commit_same:
  assumes "wf_ext2 (length c) fs" "in_sync c fs" "a + n < length c"
  shows "commit a (take n (drop a c)) fs c = c"
proof -
  note w = wf_ext2D[OF assms(1)]
  have "overwrite a (take n (drop a c)) c = c" by (rule overwrite_id) (use assms in simp)
  moreover have "overwrite (unat (bgd_addr fs)) (encode_bgds (x_bgd fs)) c = c"
    using assms(2) overwrite_id[of "unat (bgd_addr fs)" "32 * length (x_bgd fs)" c] w(9) by (simp add: in_sync_def)
  moreover have "overwrite 1024 (encode_sb (x_sb fs)) c = c"
    using assms(2) overwrite_id[of 1024 1024 c] w(8) by (simp add: in_sync_def)
  ultimately show ?thesis by (simp add: commit_def)
qed

text \<open>The numbers behind a block returned by the allocation.\<close>

lemma block_number:
  assumes "n < unat (b::u32)" "unat b * (g + 1) \<le> 2 ^ 32"
  shows "unat (of_nat (unat b * g + n) :: u32) div unat b = g" "unat (of_nat (unat b * g + n) :: u32) mod unat b = n"
proof -
  have "unat b * g + n < unat b * (g + 1)" using assms(1) by simp
  then have "unat b * g + n < 2 ^ 32" using assms(2) by (rule less_le_trans)
  then have u: "unat (of_nat (unat b * g + n) :: u32) = unat b * g + n" unfolding unat_of_nat by simp
  show "unat (of_nat (unat b * g + n) :: u32) div unat b = g" "unat (of_nat (unat b * g + n) :: u32) mod unat b = n"
    unfolding u using assms(1) by simp_all
qed

text \<open>The bits of a bitmap behind the last block of its group are set, as \<open>mkfs\<close> leaves them.\<close>

definition padded :: "bytes \<Rightarrow> 'p ext2 \<Rightarrow> bool" where
  "padded c fs \<longleftrightarrow> (\<forall>g<length (x_bgd fs). \<forall>n<8 * unat (x_blockSize fs).
      unat (sb_blocks_per_group (x_sb fs)) \<le> n \<longrightarrow> (g, n) \<in> used_blocks c fs) \<and>
    unat (sb_blocks_per_group (x_sb fs)) * length (x_bgd fs) \<le> 2 ^ 32"

text \<open>Block allocation: when no group has a free block \<open>getNewBlock\<close> stops the kernel;
  otherwise it takes the first free bit of the bitmap of one group, changes no other allocation
  bit of blocks or inodes, decrements the free counters of the group and the volume, and returns
  the number of the bit.\<close>

theorem getNewBlock_allocates:
  assumes "byte_store D ok content" "ok (x_part fs)" "wf_ext2 (length (content (x_part fs))) fs"
    and "length (x_bgd fs) < 2 ^ 32"
  shows "if \<forall>g<length (x_bgd fs). group_full (content (x_part fs)) fs g then getNewBlock D near fs = Inl Bsod
    else \<exists>fs' g n. getNewBlock D near fs = Inr (fs', of_nat (unat (sb_blocks_per_group (x_sb fs)) * g + n)) \<and>
      ok (x_part fs') \<and> block_taken content fs fs' g n \<and> (\<forall>m<n. (g, m) \<in> used_blocks (content (x_part fs)) fs)"
  by (rule byte_store.getNewBlock_spec[OF assms])

text \<open>Freeing a block that is not allocated stops the kernel; otherwise \<open>freeBlock\<close> clears
  exactly its bit and increments the counters.\<close>

theorem freeBlock_releases:
  assumes "byte_store D ok content" "ok (x_part fs)" "wf_ext2 (length (content (x_part fs))) fs"
    and "g = unat block div unat (sb_blocks_per_group (x_sb fs))" "n = unat block mod unat (sb_blocks_per_group (x_sb fs))"
    and "g < length (x_bgd fs)" "n < 8 * unat (x_blockSize fs)"
  shows "if (g, n) \<in> used_blocks (content (x_part fs)) fs
    then \<exists>fs'. freeBlock D block fs = Inr fs' \<and> ok (x_part fs') \<and>
      used_blocks (content (x_part fs')) fs' = used_blocks (content (x_part fs)) fs - {(g, n)} \<and>
      used_inodes (content (x_part fs')) fs' = used_inodes (content (x_part fs)) fs \<and>
      fs'\<lparr>x_part := x_part fs\<rparr> = count_blocks (of_nat g) 1 fs
    else freeBlock D block fs = Inl Assertion"
proof (cases "(g, n) \<in> used_blocks (content (x_part fs)) fs")
  case True
  let ?c = "content (x_part fs)"
  from byte_store.freeBlock_cases(2)[OF assms(1,2) refl assms(3-7) True]
  obtain p where p: "freeBlock D block fs = Inr (count_blocks (of_nat g) 1 (fs\<lparr>x_part := p\<rparr>))" "ok p"
    "content p = commit (unat (bm_addr fs g))
        ((block_bitmap ?c fs g)[n div 8 := block_bitmap ?c fs g ! (n div 8) AND NOT (push_bit (n mod 8) 1)])
        (count_blocks (of_nat g) 1 (fs\<lparr>x_part := p\<rparr>)) ?c" by blast
  have lay: "same_layout fs (count_blocks (of_nat g) 1 (fs\<lparr>x_part := p\<rparr>))"
    by (rule same_layout_trans[OF _ same_layout_count_blocks]) simp
  note b = bit_commit[OF assms(3,7,6)]
  note cb = commit_block_bitmap[OF assms(3) lay assms(6) _ p(3)]
  show ?thesis
    using True p(1,2) cb b(2,3) used_blocks_split(2)[OF assms(6), where c = ?c and n = n]
    by (simp del: push_bit_of_1)
qed (use byte_store.freeBlock_cases(1)[OF assms(1,2) refl assms(3-7)] in simp)

lemma count_blocks_part: "fs'\<lparr>x_part := x_part fs\<rparr> = count_blocks g k fs \<Longrightarrow> fs' = count_blocks g k (fs\<lparr>x_part := x_part fs'\<rparr>)"
  by (metis count_blocks_simps(2) ext2.surjective ext2.update_convs(1))

lemma count_blocks_sb [simp]: "sb_blocks_per_group (x_sb (count_blocks g k fs)) = sb_blocks_per_group (x_sb fs)"
  by simp

context byte_store
begin

lemma free_after_alloc:
  assumes "inv (x_part fs)" "c = content (x_part fs)" "wf_ext2 (length c) fs" "in_sync c fs"
    and "inv (x_part fs')" "block_taken content fs fs' g n" "n < unat (sb_blocks_per_group (x_sb fs))"
    and "unat (sb_blocks_per_group (x_sb fs)) * (g + 1) \<le> 2 ^ 32"
  shows "\<exists>p. freeBlock D (of_nat (unat (sb_blocks_per_group (x_sb fs)) * g + n)) fs' = Inr (fs\<lparr>x_part := p\<rparr>) \<and>
    inv p \<and> content p = content (x_part fs)"
proof -
  let ?b = "sb_blocks_per_group (x_sb fs)" and ?c' = "content (x_part fs')" and ?bm = "block_bitmap c fs g"
  let ?set = "?bm[n div 8 := ?bm ! (n div 8) OR push_bit (n mod 8) 1]"
  have t: "g < length (x_bgd fs)" "n < 8 * unat (x_blockSize fs)" "(g, n) \<notin> used_blocks c fs"
    "used_blocks ?c' fs' = insert (g, n) (used_blocks c fs)"
    "fs' = count_blocks (of_nat g) (-1) (fs\<lparr>x_part := x_part fs'\<rparr>)"
    "?c' = commit (unat (bm_addr fs g)) ?set fs' c"
    using assms(6) count_blocks_part unfolding block_taken_def assms(2) by metis+
  have lay: "same_layout fs fs'"
    by (subst t(5), rule same_layout_trans[OF _ same_layout_count_blocks]) simp
  note b = bit_commit[OF assms(3) t(2,1)]
  have ls: "length ?set = unat (x_blockSize fs)" using b(3) by simp
  note cb = commit_block_bitmap[OF assms(3) lay t(1) ls t(6)]
  have wf': "wf_ext2 (length ?c') fs'" using same_layout_wf[OF lay] assms(3) cb(1) by simp
  have bpg: "sb_blocks_per_group (x_sb fs') = ?b" "x_blockSize fs' = x_blockSize fs" using lay by (simp_all add: same_layout_def)
  have L: "length (x_bgd fs') = length (x_bgd fs)" by (rule same_layout_length[OF lay])
  have ad: "bm_addr fs' g = bm_addr fs g" using same_layout_addr(2)[OF lay t(1)] .
  let ?blk = "of_nat (unat ?b * g + n) :: u32"
  note num = block_number[OF assms(7,8)]
  have "(g, n) \<in> used_blocks ?c' fs'" using t(4) by simp
  from freeBlock_cases(2)[OF assms(5) refl wf' _ _ _ _ this, of ?blk] num bpg t(1,2) L
  obtain p where p: "freeBlock D ?blk fs' = Inr (count_blocks (of_nat g) 1 (fs'\<lparr>x_part := p\<rparr>))" "inv p"
    "content p = commit (unat (bm_addr fs' g)) ((block_bitmap ?c' fs' g)[n div 8 :=
       block_bitmap ?c' fs' g ! (n div 8) AND NOT (push_bit (n mod 8) 1)]) (count_blocks (of_nat g) 1 (fs'\<lparr>x_part := p\<rparr>)) ?c'"
    by auto
  have undo: "count_blocks (of_nat g) 1 (fs'\<lparr>x_part := p\<rparr>) = fs\<lparr>x_part := p\<rparr>"
    by (subst t(5)) (simp add: count_blocks_undo[of _ "-1", simplified])
  have j: "n div 8 < length ?bm" using t(2) b(3) by linarith
  have "\<not> bit (?bm ! (n div 8)) (n mod 8)" using t(1,2,3) b(3) by (simp add: used_blocks_def bits_of_def)
  then have "(?bm ! (n div 8) OR push_bit (n mod 8) 1) AND NOT (push_bit (n mod 8) 1) = ?bm ! (n div 8)"
    by (intro bit_word_eqI) (auto simp: bit_or_iff bit_and_iff bit_not_iff bit_single8 simp del: push_bit_of_1)
  then have clr: "(block_bitmap ?c' fs' g)[n div 8 := block_bitmap ?c' fs' g ! (n div 8) AND NOT (push_bit (n mod 8) 1)] = ?bm"
    using j by (simp only: cb(2) nth_list_update_eq list_update_overwrite list_update_id)
  note w = wf_ext2_bitmap[OF assms(3) t(1)]
  have "content p = commit (unat (bm_addr fs g)) ?bm (fs\<lparr>x_part := p\<rparr>) ?c'"
    using p(3) by (simp only: clr undo ad)
  also have "\<dots> = commit (unat (bm_addr fs g)) ?bm (fs\<lparr>x_part := p\<rparr>) (commit (unat (bm_addr fs g)) ?set fs' c)"
    by (subst t(6)) (rule refl)
  also have "\<dots> = commit (unat (bm_addr fs g)) ?bm fs (commit (unat (bm_addr fs g)) ?set fs' c)"
    by (simp add: commit_def bgd_addr_def)
  also have "\<dots> = commit (unat (bm_addr fs g)) ?bm fs c"
    using w(1,3,5) ls b(3) by (intro commit_commit[OF assms(3) lay]) simp_all
  also have "\<dots> = c"
    using commit_same[OF assms(3,4), of "unat (bm_addr fs g)" "unat (x_blockSize fs)"] w(1) by (simp add: block_bitmap_def)
  finally have "content p = content (x_part fs)" using assms(2) by simp
  with p(1,2) show ?thesis by (intro exI[of _ p]) (simp only: undo)
qed

end

text \<open>Allocating a block and freeing it again gives back the volume bit for bit: the same
  disk image and the same super block and descriptors in memory.\<close>

theorem getNewBlock_freeBlock:
  assumes "byte_store D ok content" "ok (x_part fs)" "wf_ext2 (length (content (x_part fs))) fs"
    and "length (x_bgd fs) < 2 ^ 32" "in_sync (content (x_part fs)) fs" "padded (content (x_part fs)) fs"
    and "getNewBlock D near fs = Inr (fs', blk)"
  shows "\<exists>p. freeBlock D blk fs' = Inr (fs\<lparr>x_part := p\<rparr>) \<and> ok p \<and> content p = content (x_part fs)"
proof -
  from byte_store.getNewBlock_spec[OF assms(1-4), of near] assms(7)
  obtain g n where a: "blk = of_nat (unat (sb_blocks_per_group (x_sb fs)) * g + n)" "ok (x_part fs')"
    "block_taken content fs fs' g n" by (auto split: if_splits)
  then have g: "g < length (x_bgd fs)" "n < 8 * unat (x_blockSize fs)" "(g, n) \<notin> used_blocks (content (x_part fs)) fs"
    by (simp_all add: block_taken_def)
  with assms(6) have n: "n < unat (sb_blocks_per_group (x_sb fs))" unfolding padded_def by (meson not_le)
  have "unat (sb_blocks_per_group (x_sb fs)) * (g + 1) \<le> unat (sb_blocks_per_group (x_sb fs)) * length (x_bgd fs)"
    using g(1) by (intro mult_le_mono2) simp
  also have "\<dots> \<le> 2 ^ 32" using assms(6) by (simp add: padded_def)
  finally show ?thesis
    using byte_store.free_after_alloc[OF assms(1,2) refl assms(3,5) a(2,3) n] a(1) by simp
qed

text \<open>The block that bit \<open>n\<close> of group \<open>g\<close> stands for: group \<open>g\<close> starts at block
  \<open>first_data_block + g * blocks_per_group\<close>.\<close>

definition block_no :: "'p ext2 \<Rightarrow> nat \<Rightarrow> nat \<Rightarrow> u32" where
  "block_no fs g n = sb_first_data_block (x_sb fs) + of_nat (unat (sb_blocks_per_group (x_sb fs)) * g + n)"

text \<open>On a volume whose first data block is 1 (every volume with 1 KiB blocks) the block
  \<open>getNewBlock\<close> returns is not the one whose bit it set but the one before, which is in use
  already unless the bit is the first of its group.\<close>

theorem getNewBlock_hands_out_used_block:
  assumes "byte_store D ok content" "ok (x_part fs)" "wf_ext2 (length (content (x_part fs))) fs"
    and "length (x_bgd fs) < 2 ^ 32" "sb_first_data_block (x_sb fs) = 1" "getNewBlock D near fs = Inr (fs', blk)"
  shows "\<exists>g n. block_taken content fs fs' g n \<and> blk = block_no fs g n - 1 \<and>
    (0 < n \<longrightarrow> blk = block_no fs g (n - 1) \<and> (g, n - 1) \<in> used_blocks (content (x_part fs)) fs)"
proof -
  from byte_store.getNewBlock_spec[OF assms(1-4), of near] assms(6)
  obtain g n where a: "blk = of_nat (unat (sb_blocks_per_group (x_sb fs)) * g + n)"
    "block_taken content fs fs' g n" "\<forall>m<n. (g, m) \<in> used_blocks (content (x_part fs)) fs" by (auto split: if_splits)
  show ?thesis
  proof (rule exI[of _ g], rule exI[of _ n], intro conjI impI)
    show "blk = block_no fs g n - 1" using a(1) assms(5) by (simp add: block_no_def)
    assume n: "0 < n"
    then obtain m where "n = Suc m" by (cases n) auto
    then show "blk = block_no fs g (n - 1)" using a(1) assms(5) by (simp add: block_no_def)
    show "(g, n - 1) \<in> used_blocks (content (x_part fs)) fs" using a(3) n by simp
  qed (rule a(2))
qed

section \<open>A volume\<close>

text \<open>
  An 8 KiB volume with 1 KiB blocks and one group in an in-memory file: the super block in
  block 1, the descriptor table in block 2, the bitmaps in blocks 3 and 4, and the first block
  of the group allocated.
\<close>

definition vol_sb :: SuperBlock where
  "vol_sb = (decode_sb (replicate 1024 0))\<lparr>sb_blocks_count := 8, sb_free_blocks_count := 7, sb_first_data_block := 1,
     sb_blocks_per_group := 8192, sb_inodes_per_group := 8, sb_inode_size := 128, sb_magic := 0xef53\<rparr>"

definition vol_bgd :: BlockGroupDescriptor where
  "vol_bgd = \<lparr>bg_block_bitmap = 3, bg_inode_bitmap = 4, bg_inode_table = 5, bg_free_blocks_count = 7,
     bg_free_inodes_count = 8, bg_used_dirs_count = 0, bg_pad = 0, bg_reserved = replicate 12 0\<rparr>"

definition vol_fs :: "bytes ext2" where
  "vol_fs = \<lparr>x_part = overwrite 1024 (encode_sb vol_sb) (overwrite 2048 (encode_bgds [vol_bgd])
       (overwrite 3072 [1] (replicate 8192 0))),
     x_sb = vol_sb, x_bgd = [vol_bgd], x_blockSize = 1024, x_nbBgd = 1\<rparr>"

lemma vol_wf: "wf_sb vol_sb" "wf_bgd vol_bgd" "length (encode_sb vol_sb) = 1024" "length (encode_bgds [vol_bgd]) = 32"
proof -
  show s: "wf_sb vol_sb" and g: "wf_bgd vol_bgd"
    by (simp_all add: vol_sb_def vol_bgd_def wf_sb_def wf_bgd_def decode_sb_def)
  show "length (encode_sb vol_sb) = 1024" by (rule encode_sb_length[OF s])
  show "length (encode_bgds [vol_bgd]) = 32" using encode_bgd_length[OF g] by (simp add: encode_bgds_def)
qed

lemma vol_addr: "bgd_addr vol_fs = 2048" "bm_addr vol_fs 0 = 3072" "im_addr vol_fs 0 = 4096"
  by (simp_all add: bgd_addr_def bm_addr_def im_addr_def vol_fs_def vol_sb_def vol_bgd_def)

lemma vol_length: "length (x_part vol_fs) = 8192"
  using vol_wf by (simp add: vol_fs_def)

lemma vol_ok: "wf_ext2 (length (x_part vol_fs)) vol_fs" "in_sync (x_part vol_fs) vol_fs"
proof -
  show "wf_ext2 (length (x_part vol_fs)) vol_fs"
    unfolding wf_ext2_def Let_def vol_length
    using vol_wf vol_addr by (simp add: vol_fs_def apart_def) (simp add: vol_sb_def)
  show "in_sync (x_part vol_fs) vol_fs"
    unfolding in_sync_def vol_addr using vol_wf
      overwrite_same[of 1024 "encode_sb vol_sb"] overwrite_same[of 2048 "encode_bgds [vol_bgd]"]
    by (simp add: vol_fs_def overwrite_other)
qed

lemma vol_bitmap: "block_bitmap (x_part vol_fs) vol_fs 0 = 1 # replicate 1023 0"
proof -
  have "take 1024 (drop 3072 (x_part vol_fs)) = take 1024 (drop 3072 (overwrite 3072 [1] (replicate 8192 (0::u8))))"
    unfolding vol_fs_def using vol_wf by (simp add: overwrite_other)
  also have "\<dots> = 1 # replicate 1023 0" by (simp add: overwrite_def take_Cons')
  finally show ?thesis by (simp add: block_bitmap_def vol_addr) (simp add: vol_fs_def)
qed

lemma vol_used: "(0, n) \<in> used_blocks (x_part vol_fs) vol_fs \<longleftrightarrow> n = 0"
proof -
  have "bits_of (1 # replicate 1023 (0::u8)) = {0}"
  proof (rule set_eqI)
    fix n
    have "bit ((1 # replicate 1023 (0::u8)) ! (n div 8)) (n mod 8) \<longleftrightarrow> n = 0" if "n < 8192"
    proof (cases "n div 8")
      case 0
      then show ?thesis using mult_div_mod_eq[of 8 n] by (auto simp: bit_1_iff)
    next
      case (Suc k)
      with that have "k < 1023" by linarith
      with Suc show ?thesis by auto
    qed
    then show "n \<in> bits_of (1 # replicate 1023 (0::u8)) \<longleftrightarrow> n \<in> {0}" by (auto simp: bits_of_def)
  qed
  then show ?thesis using used_blocks_bits[of 0 vol_fs n "x_part vol_fs"] vol_bitmap by (simp add: vol_fs_def)
qed

lemma vol_groups: "length (x_bgd vol_fs) = 1" "x_blockSize vol_fs = 1024" "sb_blocks_per_group (x_sb vol_fs) = 8192"
  "sb_first_data_block (x_sb vol_fs) = 1" "bg_free_blocks_count (x_bgd vol_fs ! 0) = 7"
  by (simp_all add: vol_fs_def vol_sb_def vol_bgd_def)

lemma vol_not_full: "\<not> group_full (x_part vol_fs) vol_fs 0"
  using vol_used[of 1] by (auto simp: group_full_def vol_groups intro: exI[of _ 1])

lemma block_takenD:
  assumes "block_taken content fs fs' g n"
  shows "g < length (x_bgd fs)" "(g, n) \<notin> used_blocks (content (x_part fs)) fs"
  using assms by (simp_all add: block_taken_def)

lemma vol_padded: "padded (x_part vol_fs) vol_fs"
  by (simp add: padded_def vol_groups)

lemma vol_newblock:
  obtains fs' where "getNewBlock ram_ops 2 vol_fs = Inr (fs', 1)" "length (x_part fs') < 2 ^ 64"
    "block_taken (\<lambda>c. c) vol_fs fs' 0 1"
proof -
  have "\<not> (\<forall>g<length (x_bgd vol_fs). group_full (x_part vol_fs) vol_fs g)"
    using vol_not_full vol_groups by auto
  with ram.getNewBlock_spec[of vol_fs 2] vol_ok vol_length vol_groups
  obtain fs' g n where a: "getNewBlock ram_ops 2 vol_fs = Inr (fs', of_nat (8192 * g + n))" "length (x_part fs') < 2 ^ 64"
    "block_taken (\<lambda>c. c) vol_fs fs' g n" "\<forall>m<n. (g, m) \<in> used_blocks (x_part vol_fs) vol_fs" by (auto split: if_splits)
  from block_takenD[OF a(3)] have g: "g = 0" and nu: "(g, n) \<notin> used_blocks (x_part vol_fs) vol_fs"
    by (simp_all add: vol_groups)
  have "n \<noteq> 0" using nu g vol_used[of n] by simp
  moreover have "\<not> 1 < n" using a(4) g vol_used[of 1] by auto
  ultimately have "n = 1" by simp
  with a g show thesis by (intro that) simp_all
qed

theorem getNewBlock_allocates_witness:
  "\<exists>fs'. getNewBlock ram_ops 2 vol_fs = Inr (fs', 1) \<and> block_taken (\<lambda>c. c) vol_fs fs' 0 1"
proof -
  have "\<not> (\<forall>g<length (x_bgd vol_fs). group_full (x_part vol_fs) vol_fs g)"
    using vol_not_full vol_groups by auto
  with getNewBlock_allocates[OF ram.byte_store_axioms, of vol_fs 2] vol_ok vol_length vol_groups
  obtain fs' g n where a: "getNewBlock ram_ops 2 vol_fs = Inr (fs', of_nat (8192 * g + n))"
    "block_taken (\<lambda>c. c) vol_fs fs' g n" "\<forall>m<n. (g, m) \<in> used_blocks (x_part vol_fs) vol_fs" by (auto split: if_splits)
  from block_takenD[OF a(2)] have g: "g = 0" and nu: "(g, n) \<notin> used_blocks (x_part vol_fs) vol_fs"
    by (simp_all add: vol_groups)
  have "n \<noteq> 0" using nu g vol_used[of n] by simp
  moreover have "\<not> 1 < n" using a(3) g vol_used[of 1] by auto
  ultimately have "n = 1" by simp
  with a g show ?thesis by simp
qed

theorem freeBlock_releases_witness:
  "\<exists>fs'. freeBlock ram_ops 0 vol_fs = Inr fs' \<and> used_blocks (x_part fs') fs' = used_blocks (x_part vol_fs) vol_fs - {(0, 0)} \<and>
    freeBlock ram_ops 1 vol_fs = Inl Assertion"
proof -
  have u: "(0, 0) \<in> used_blocks (x_part vol_fs) vol_fs" "(0, 1) \<notin> used_blocks (x_part vol_fs) vol_fs"
    using vol_used by simp_all
  show ?thesis
    using freeBlock_releases[OF ram.byte_store_axioms, of vol_fs 0 0 0] freeBlock_releases[OF ram.byte_store_axioms, of vol_fs 0 1 1]
      u vol_ok vol_length vol_groups by auto
qed

theorem getNewBlock_freeBlock_witness:
  "\<exists>fs' p. getNewBlock ram_ops 2 vol_fs = Inr (fs', 1) \<and> freeBlock ram_ops 1 fs' = Inr (vol_fs\<lparr>x_part := p\<rparr>) \<and> p = x_part vol_fs"
proof -
  obtain fs' where fs': "getNewBlock ram_ops 2 vol_fs = Inr (fs', 1)" by (rule vol_newblock)
  show ?thesis
    using getNewBlock_freeBlock[OF ram.byte_store_axioms _ _ _ _ _ fs'] fs' vol_ok vol_length vol_groups vol_padded by auto
qed

text \<open>On this volume the block handed out is the one the super block is in.\<close>

theorem getNewBlock_hands_out_used_block_witness:
  "\<exists>fs'. getNewBlock ram_ops 2 vol_fs = Inr (fs', 1) \<and> block_no vol_fs 0 0 = 1 \<and> (0, 0) \<in> used_blocks (x_part vol_fs) vol_fs"
proof -
  obtain fs' where fs': "getNewBlock ram_ops 2 vol_fs = Inr (fs', 1)" by (rule vol_newblock)
  from getNewBlock_hands_out_used_block[OF ram.byte_store_axioms _ _ _ _ fs'] vol_ok vol_length vol_groups
  obtain g n where "block_taken (\<lambda>c. c) vol_fs fs' g n" "1 = block_no vol_fs g n - 1" by auto
  then show ?thesis using fs' vol_used[of 0] by (auto simp: block_no_def vol_groups)
qed

end
