(* ===== verification/Ext2File.thy ===== *)
theory Ext2File
  imports Ext2Fs
begin

text \<open>
  Files of the Ext2 file system (\<open>class Inode\<close> and \<open>class RegularFile\<close> of
  \<open>src/src/HDD/Ext2.cpp\<close>): the content of a file lies in twelve direct blocks and three trees
  of indirect blocks. An inode object keeps its number and its copy of the inode data; the
  operations take and return it together with the file system.

  The recursions over the levels of the block trees return the arguments they update by
  reference (\<open>ReadRecArgs\<close>, \<open>WriteRecArgs\<close>, \<open>ResizeRecArgs\<close>); the buffer of a level belongs
  to one activation at a time and is local here.
\<close>

record inode =
  in_no :: u32
  in_data :: InodeData

definition readData :: "'p bytes_ops \<Rightarrow> 'p ext2 \<Rightarrow> inode \<Rightarrow> inode res" where
  "readData D fs i = bnd (getInodeData D (in_no i) fs) (\<lambda>d. Inr (i\<lparr>in_data := d\<rparr>))"

definition writeData :: "'p bytes_ops \<Rightarrow> inode \<Rightarrow> 'p ext2 \<Rightarrow> 'p ext2 res" where
  "writeData D i fs = writeInodeData D (in_no i) (in_data i) fs"

primrec ind_size :: "u64 \<Rightarrow> nat \<Rightarrow> u64" where
  "ind_size bs 0 = bs"
| "ind_size bs (Suc l) = (bs div 4) * ind_size bs l"

primrec ind_block :: "u64 \<Rightarrow> nat \<Rightarrow> u64" where
  "ind_block bs 0 = 1"
| "ind_block bs (Suc l) = 1 + (bs div 4) * ind_block bs l"

section \<open>Reading\<close>

record read_args =
  ra_addr :: u64
  ra_out :: bytes
  ra_size :: u64

primrec readrec :: "'p bytes_ops \<Rightarrow> 'p ext2 \<Rightarrow> nat \<Rightarrow> u32 \<Rightarrow> read_args \<Rightarrow> read_args res" where
  "readrec D fs 0 blockId a =
    (if ra_size a = 0 then Inr a
     else if ind_size (x_blockSize fs) 0 \<le> ra_addr a
     then Inr (a\<lparr>ra_addr := ra_addr a - ind_size (x_blockSize fs) 0\<rparr>)
     else let count = min (x_blockSize fs - ra_addr a) (ra_size a) in
       bnd (readaddr D (ucast blockId * x_blockSize fs + ra_addr a) count (x_part fs)) (\<lambda>d.
         Inr (a\<lparr>ra_addr := 0, ra_out := ra_out a @ d, ra_size := ra_size a - count\<rparr>)))"
| "readrec D fs (Suc l) blockId a =
    (if ra_size a = 0 then Inr a
     else if ind_size (x_blockSize fs) (Suc l) \<le> ra_addr a
     then Inr (a\<lparr>ra_addr := ra_addr a - ind_size (x_blockSize fs) (Suc l)\<rparr>)
     else bnd (readaddr D (ucast blockId * x_blockSize fs) (x_blockSize fs) (x_part fs)) (\<lambda>buf.
       let starti = ra_addr a div ind_size (x_blockSize fs) l;
           a' = a\<lparr>ra_addr := ra_addr a mod ind_size (x_blockSize fs) l\<rparr> in
       for_range (\<lambda>i a. if ra_size a = 0 then Inr a else readrec D fs l (ld32 (4 * i) buf) a)
         (unat starti) (unat (x_blockSize fs div 4)) a'))"

definition i_readaddr :: "'p bytes_ops \<Rightarrow> 'p ext2 \<Rightarrow> u64 \<Rightarrow> u64 \<Rightarrow> inode \<Rightarrow> (inode \<times> bytes) res" where
  "i_readaddr D fs addr sz i0 =
    bnd (readData D fs i0) (\<lambda>i.
    bnd (for_range (\<lambda>j a. readrec D fs 0 (id_block (in_data i) ! j) a) 0 12
      \<lparr>ra_addr = addr, ra_out = [], ra_size = sz\<rparr>) (\<lambda>a.
    bnd (for_range (\<lambda>k a. readrec D fs (k + 1) (id_block (in_data i) ! (12 + k)) a) 0 3 a) (\<lambda>a.
      Inr (i, ra_out a))))"

section \<open>Writing\<close>

text \<open>\<open>wa_bytes\<close> are the bytes still to write, whose number is \<open>args.size\<close>.\<close>

record 'p write_args =
  wa_fs :: "'p ext2"
  wa_data :: InodeData
  wa_addr :: u64
  wa_bytes :: bytes
  wa_blockNum :: u32

text \<open>Allocating a block for the file: \<open>getNewBlock\<close> and \<open>incrBlockCount(1)\<close>.\<close>

definition wa_newBlock :: "'p bytes_ops \<Rightarrow> u32 \<Rightarrow> 'p write_args \<Rightarrow> (u32 \<times> 'p write_args) res" where
  "wa_newBlock D inode w = bnd (getNewBlock D inode (wa_fs w)) (\<lambda>(fs, b).
     Inr (b, w\<lparr>wa_fs := fs, wa_data := incrBlockCount 1 (x_sb fs) (wa_data w)\<rparr>))"

definition wa_write :: "'p bytes_ops \<Rightarrow> u64 \<Rightarrow> bytes \<Rightarrow> 'p write_args \<Rightarrow> 'p write_args res" where
  "wa_write D addr b w = bnd (writeaddr D addr b (x_part (wa_fs w))) (\<lambda>p.
     Inr (w\<lparr>wa_fs := (wa_fs w)\<lparr>x_part := p\<rparr>\<rparr>))"

text \<open>\<open>canSkip\<close>: the blocks of this subtree are all allocated.\<close>

definition canSkip :: "nat \<Rightarrow> u32 \<Rightarrow> 'p write_args \<Rightarrow> bool" where
  "canSkip l count w \<longleftrightarrow> ucast (wa_blockNum w) + ind_block (x_blockSize (wa_fs w)) l - 1 < ucast count"

definition wa_skip :: "nat \<Rightarrow> 'p write_args \<Rightarrow> 'p write_args" where
  "wa_skip l w = w\<lparr>wa_blockNum := ucast (ucast (wa_blockNum w) + ind_block (x_blockSize (wa_fs w)) l),
     wa_addr := wa_addr w - ind_size (x_blockSize (wa_fs w)) l\<rparr>"

text \<open>The part of a data block the write covers.\<close>

definition wa_block :: "'p bytes_ops \<Rightarrow> u32 \<Rightarrow> 'p write_args \<Rightarrow> 'p write_args res" where
  "wa_block D blockId w =
    (let bs = x_blockSize (wa_fs w) in
     if wa_addr w < bs then
       let count = min (unat (bs - wa_addr w)) (length (wa_bytes w)) in
       bnd (wa_write D (ucast blockId * bs + wa_addr w) (take count (wa_bytes w)) w) (\<lambda>w.
         Inr (w\<lparr>wa_bytes := drop count (wa_bytes w), wa_addr := 0\<rparr>))
     else Inr (w\<lparr>wa_addr := wa_addr w - bs\<rparr>))"

text \<open>\<open>writerec\<close> returns its result, the block number behind \<open>blockId\<close>, and the arguments.\<close>

primrec writerec :: "'p bytes_ops \<Rightarrow> u32 \<Rightarrow> nat \<Rightarrow> u32 \<Rightarrow> 'p write_args \<Rightarrow> (bool \<times> u32 \<times> 'p write_args) res" where
  "writerec D inode 0 blockId w =
    (if wa_bytes w = [] then Inr (False, blockId, w) else
     bnd (getBlockCount (x_sb (wa_fs w)) (wa_data w)) (\<lambda>count.
     if canSkip 0 count w \<and> ind_size (x_blockSize (wa_fs w)) 0 \<le> wa_addr w then Inr (False, blockId, wa_skip 0 w)
     else
       bnd (if count \<le> wa_blockNum w then bnd (wa_newBlock D inode w) (\<lambda>(b, w). Inr (True, b, w))
            else Inr (False, blockId, w)) (\<lambda>(ret, b, w).
       bnd (wa_block D b w) (\<lambda>w.
         Inr (ret, b, w\<lparr>wa_blockNum := wa_blockNum w + 1\<rparr>)))))"
| "writerec D inode (Suc l) blockId w =
    (if wa_bytes w = [] then Inr (False, blockId, w) else
     bnd (getBlockCount (x_sb (wa_fs w)) (wa_data w)) (\<lambda>count.
     let skip = canSkip (Suc l) count w; bs = x_blockSize (wa_fs w) in
     if skip \<and> ind_size bs (Suc l) \<le> wa_addr w then Inr (False, blockId, wa_skip (Suc l) w)
     else
       bnd (if count \<le> wa_blockNum w
            then assertk (wa_blockNum w = count)
              (bnd (wa_newBlock D inode w) (\<lambda>(b, w). Inr (True, b, replicate (unat bs) 0, w)))
            else bnd (readaddr D (ucast blockId * bs) bs (x_part (wa_fs w))) (\<lambda>buf.
              Inr (False, blockId, buf, w))) (\<lambda>(ret, b, buf, w).
       let w1 = w\<lparr>wa_blockNum := wa_blockNum w + 1\<rparr>;
           starti = (if skip then wa_addr w1 div ind_size bs l else 0);
           w2 = (if skip then w1\<lparr>wa_addr := wa_addr w1 mod ind_size bs l,
              wa_blockNum := ucast (ucast (wa_blockNum w1) + starti * ind_block bs l)\<rparr> else w1) in
       bnd (for_range (\<lambda>i (wr, buf, w). if wa_bytes w = [] then Inr (wr, buf, w) else
              bnd (writerec D inode l (ld32 (4 * i) buf) w) (\<lambda>(r, b', w).
                Inr (wr \<or> r, st32 (4 * i) b' buf, w)))
            (unat starti) (unat (bs div 4)) (False, buf, w2)) (\<lambda>(wr, buf, w).
       assertk (\<not> ret \<or> wr)
         (if wr then bnd (wa_write D (ucast b * bs) buf w) (\<lambda>w. Inr (ret, b, w))
          else Inr (ret, b, w))))))"

text \<open>A call of \<open>writerec\<close> on an entry of \<open>_data.block\<close>.\<close>

definition write_entry :: "'p bytes_ops \<Rightarrow> u32 \<Rightarrow> nat \<Rightarrow> nat \<Rightarrow> bool \<times> 'p write_args \<Rightarrow> (bool \<times> 'p write_args) res" where
  "write_entry D inode l j = (\<lambda>(wr, w). bnd (writerec D inode l (id_block (wa_data w) ! j) w) (\<lambda>(r, b, w).
     Inr (wr \<or> r, w\<lparr>wa_data := (wa_data w)\<lparr>id_block := (id_block (wa_data w))[j := b]\<rparr>\<rparr>)))"

definition i_writeaddr :: "'p bytes_ops \<Rightarrow> u64 \<Rightarrow> bytes \<Rightarrow> inode \<times> 'p ext2 \<Rightarrow> (inode \<times> 'p ext2) res" where
  "i_writeaddr D addr data s =
    bnd (readData D (snd s) (fst s)) (\<lambda>i.
    bnd (for_range (write_entry D (in_no i) 0) 0 12
      (False, \<lparr>wa_fs = snd s, wa_data = in_data i, wa_addr = addr, wa_bytes = data, wa_blockNum = 0\<rparr>)) (\<lambda>w.
    bnd (for_range (\<lambda>k. write_entry D (in_no i) (k + 1) (12 + k)) 0 3 w) (\<lambda>(wr, w).
    let newSize = addr + of_nat (length data);
        grow = id_getSize (wa_data w) < newSize;
        d = (if grow then id_setSize newSize (wa_data w) else wa_data w);
        i' = i\<lparr>in_data := d\<rparr> in
    bnd (if wr \<or> grow then writeInodeData D (in_no i) d (wa_fs w) else Inr (wa_fs w)) (\<lambda>fs. Inr (i', fs)))))"

section \<open>Resizing\<close>

record 'p resize_args =
  za_fs :: "'p ext2"
  za_data :: InodeData
  za_sizeAfter :: u64
  za_sizeBefore :: u64

definition za_free :: "'p bytes_ops \<Rightarrow> u32 \<Rightarrow> 'p resize_args \<Rightarrow> 'p resize_args res" where
  "za_free D blockId z = bnd (freeBlock D blockId (za_fs z)) (\<lambda>fs.
     Inr (z\<lparr>za_fs := fs, za_data := incrBlockCount (-1) (x_sb fs) (za_data z)\<rparr>))"

primrec resizerec :: "'p bytes_ops \<Rightarrow> nat \<Rightarrow> u32 \<Rightarrow> 'p resize_args \<Rightarrow> (bool \<times> 'p resize_args) res" where
  "resizerec D 0 blockId z =
    (let bs = x_blockSize (za_fs z) in
     if za_sizeBefore z = 0 then Inr (False, z)
     else if ind_size bs 0 \<le> za_sizeAfter z then
       Inr (False, z\<lparr>za_sizeAfter := za_sizeAfter z - ind_size bs 0, za_sizeBefore := za_sizeBefore z - ind_size bs 0\<rparr>)
     else if za_sizeAfter z \<noteq> 0 then
       Inr (False, z\<lparr>za_sizeAfter := 0, za_sizeBefore := za_sizeBefore z - bs\<rparr>)
     else bnd (za_free D blockId z) (\<lambda>z. Inr (True, z\<lparr>za_sizeBefore := za_sizeBefore z - bs\<rparr>)))"
| "resizerec D (Suc l) blockId z =
    (let bs = x_blockSize (za_fs z) in
     if za_sizeBefore z = 0 then Inr (False, z)
     else if ind_size bs (Suc l) \<le> za_sizeAfter z then
       Inr (False, z\<lparr>za_sizeAfter := za_sizeAfter z - ind_size bs (Suc l), za_sizeBefore := za_sizeBefore z - ind_size bs (Suc l)\<rparr>)
     else bnd (readaddr D (ucast blockId * bs) bs (x_part (za_fs z))) (\<lambda>buf.
       let starti = za_sizeAfter z div ind_size bs l;
           z1 = z\<lparr>za_sizeAfter := za_sizeAfter z - starti * ind_size bs l,
                  za_sizeBefore := za_sizeBefore z - starti * ind_size bs l\<rparr> in
       bnd (for_range (\<lambda>i (del, buf, z). if za_sizeBefore z = 0 then Inr (del, buf, z) else
              bnd (resizerec D l (ld32 (4 * i) buf) z) (\<lambda>(r, z).
                if r then Inr (del, st32 (4 * i) 0 buf, z) else Inr (False, buf, z)))
            (unat starti) (unat (bs div 4)) (starti = 0, buf, z1)) (\<lambda>(del, buf, z).
       bnd (writeaddr D (ucast blockId * bs) buf (x_part (za_fs z))) (\<lambda>p.
       let z2 = z\<lparr>za_fs := (za_fs z)\<lparr>x_part := p\<rparr>\<rparr> in
       if del then bnd (za_free D blockId z2) (\<lambda>z. Inr (True, z)) else Inr (False, z2)))))"

text \<open>\<open>alignup(_data.size, _fs->_blockSize)\<close> has the type of its first argument.\<close>

definition alignup32 :: "u32 \<Rightarrow> u64 \<Rightarrow> u32" where
  "alignup32 n multiple = ucast (((ucast n + multiple - 1) div multiple) * multiple)"

definition resize_entry :: "'p bytes_ops \<Rightarrow> nat \<Rightarrow> nat \<Rightarrow> 'p resize_args \<Rightarrow> 'p resize_args res" where
  "resize_entry D l j z = bnd (resizerec D l (id_block (za_data z) ! j) z) (\<lambda>(r, z). Inr z)"

definition i_resize :: "'p bytes_ops \<Rightarrow> u64 \<Rightarrow> inode \<times> 'p ext2 \<Rightarrow> (inode \<times> 'p ext2) res" where
  "i_resize D sz s =
    bnd (readData D (snd s) (fst s)) (\<lambda>i.
    if sz < id_getSize (in_data i) then
      bnd (for_range (resize_entry D 0) 0 12
        \<lparr>za_fs = snd s, za_data = in_data i, za_sizeAfter = sz,
         za_sizeBefore = ucast (alignup32 (id_size (in_data i)) (x_blockSize (snd s)))\<rparr>) (\<lambda>z.
      bnd (for_range (\<lambda>k. resize_entry D (k + 1) (12 + k)) 0 3 z) (\<lambda>z.
      let i' = i\<lparr>in_data := id_setSize sz (za_data z)\<rparr> in
      bnd (writeData D i' (za_fs z)) (\<lambda>fs. Inr (i', fs))))
    else i_writeaddr D sz [] (i, snd s))"

section \<open>Links and status\<close>

definition link :: "'p bytes_ops \<Rightarrow> inode \<times> 'p ext2 \<Rightarrow> (inode \<times> 'p ext2) res" where
  "link D s = bnd (readData D (snd s) (fst s)) (\<lambda>i.
    let i' = i\<lparr>in_data := (in_data i)\<lparr>id_links_count := id_links_count (in_data i) + 1\<rparr>\<rparr> in
    bnd (writeData D i' (snd s)) (\<lambda>fs. Inr (i', fs)))"

definition S_IS :: "u16 \<Rightarrow> u16 \<Rightarrow> bool" where
  "S_IS fmt mode \<longleftrightarrow> mode AND 0xF000 = fmt"

abbreviation "S_ISREG \<equiv> S_IS 0x8000"
abbreviation "S_ISDIR \<equiv> S_IS 0x4000"

definition zero_inode :: InodeData where
  "zero_inode = decode_inode (replicate 128 0)"

definition unlink :: "'p bytes_ops \<Rightarrow> inode \<times> 'p ext2 \<Rightarrow> (inode \<times> 'p ext2) res" where
  "unlink D s = bnd (readData D (snd s) (fst s)) (\<lambda>i.
    bnd (if id_links_count (in_data i) = 1 then
           bnd (i_resize D 0 (i, snd s)) (\<lambda>(i, fs).
           bnd (freeInode D (in_no i) (S_ISDIR (id_mode (in_data i))) fs) (\<lambda>fs.
             Inr (i\<lparr>in_data := zero_inode\<rparr>, fs)))
         else Inr (i\<lparr>in_data := (in_data i)\<lparr>id_links_count := id_links_count (in_data i) - 1\<rparr>\<rparr>, snd s)) (\<lambda>(i, fs).
    bnd (writeData D i fs) (\<lambda>fs. Inr (i, fs))))"

record stat =
  st_ino :: u32
  st_mode :: u16
  st_nlink :: u16
  st_uid :: u16
  st_gid :: u16
  st_size :: u64
  st_blksize :: u32
  st_blocks :: u32
  st_atime :: u64
  st_mtime :: u64
  st_ctime :: u64

text \<open>\<open>getStats\<close> leaves \<open>st_blksize\<close> of the caller's buffer as it is.\<close>

definition i_getStats :: "'p bytes_ops \<Rightarrow> 'p ext2 \<Rightarrow> stat \<Rightarrow> inode \<Rightarrow> (inode \<times> stat) res" where
  "i_getStats D fs buf i0 = bnd (readData D fs i0) (\<lambda>i. let d = in_data i in
    Inr (i, \<lparr>st_ino = in_no i, st_mode = id_mode d, st_nlink = id_links_count d, st_uid = id_uid d,
      st_gid = id_gid d, st_size = id_getSize d, st_blksize = st_blksize buf, st_blocks = id_blocks d,
      st_atime = ucast (id_atime d), st_mtime = ucast (id_mtime d), st_ctime = ucast (id_ctime d)\<rparr>))"

definition i_getSize :: "'p bytes_ops \<Rightarrow> 'p ext2 \<Rightarrow> inode \<Rightarrow> (inode \<times> u64) res" where
  "i_getSize D fs i0 = bnd (readData D fs i0) (\<lambda>i. Inr (i, id_getSize (in_data i)))"

section \<open>New files\<close>

definition new_inode :: "'p bytes_ops \<Rightarrow> u32 \<Rightarrow> u16 \<Rightarrow> u16 \<Rightarrow> u16 \<Rightarrow> 'p ext2 \<Rightarrow> (inode \<times> 'p ext2) res" where
  "new_inode D n uid gid mode fs =
    (let d = zero_inode\<lparr>id_uid := uid, id_gid := gid, id_mode := mode\<rparr> in
     bnd (writeInodeData D n d fs) (\<lambda>fs. Inr (\<lparr>in_no = n, in_data = d\<rparr>, fs)))"

definition getNewFile :: "'p bytes_ops \<Rightarrow> u16 \<Rightarrow> u16 \<Rightarrow> u16 \<Rightarrow> 'p ext2 \<Rightarrow> (inode \<times> 'p ext2) res" where
  "getNewFile D uid gid mode fs = assertk (S_ISREG mode)
    (bnd (getNewInode D False fs) (\<lambda>(fs, n). new_inode D n uid gid mode fs))"

section \<open>The content of a file\<close>

text \<open>
  \<open>blk_bytes c bs l b\<close>: the bytes of the tree of depth \<open>l\<close> below block \<open>b\<close> of the disk \<open>c\<close>;
  \<open>blk_in\<close>: all blocks of the tree are inside the disk.
\<close>

definition blk :: "bytes \<Rightarrow> nat \<Rightarrow> u32 \<Rightarrow> bytes" where
  "blk c bs b = take bs (drop (unat b * bs) c)"

primrec blk_bytes :: "bytes \<Rightarrow> nat \<Rightarrow> nat \<Rightarrow> u32 \<Rightarrow> bytes" where
  "blk_bytes c bs 0 b = blk c bs b"
| "blk_bytes c bs (Suc l) b = concat (map (\<lambda>i. blk_bytes c bs l (ld32 (4 * i) (blk c bs b))) [0..<bs div 4])"

primrec blk_in :: "bytes \<Rightarrow> nat \<Rightarrow> nat \<Rightarrow> u32 \<Rightarrow> bool" where
  "blk_in c bs 0 b \<longleftrightarrow> unat b * bs + bs < length c"
| "blk_in c bs (Suc l) b \<longleftrightarrow> unat b * bs + bs < length c \<and>
     (\<forall>i<bs div 4. blk_in c bs l (ld32 (4 * i) (blk c bs b)))"

definition file_bytes :: "bytes \<Rightarrow> nat \<Rightarrow> InodeData \<Rightarrow> bytes" where
  "file_bytes c bs d = concat (map (\<lambda>j. blk_bytes c bs 0 (id_block d ! j)) [0..<12]) @
     concat (map (\<lambda>k. blk_bytes c bs (k + 1) (id_block d ! (12 + k))) [0..<3])"

definition file_in :: "bytes \<Rightarrow> nat \<Rightarrow> InodeData \<Rightarrow> bool" where
  "file_in c bs d \<longleftrightarrow> (\<forall>j<12. blk_in c bs 0 (id_block d ! j)) \<and> (\<forall>k<3. blk_in c bs (k + 1) (id_block d ! (12 + k)))"

lemma length_concat_const: "(\<And>x. x \<in> set xs \<Longrightarrow> length (f x) = k) \<Longrightarrow> length (concat (map f xs)) = length xs * k"
  by (induction xs) auto

lemma length_blk_bytes: "blk_in c bs l b \<Longrightarrow> length (blk_bytes c bs l b) = (bs div 4) ^ l * bs"
proof (induction l arbitrary: b)
  case 0
  then show ?case by (simp add: blk_def)
next
  case (Suc l)
  then have "length (concat (map (\<lambda>i. blk_bytes c bs l (ld32 (4 * i) (blk c bs b))) [0..<bs div 4])) =
      length [0..<bs div 4] * ((bs div 4) ^ l * bs)"
    by (intro length_concat_const) auto
  then show ?case by simp
qed

lemma unat_ind_size:
  assumes "unat bs \<le> 2 ^ 16" "l \<le> 3"
  shows "unat (ind_size bs l) = (unat bs div 4) ^ l * unat bs"
  using assms(2)
proof (induction l)
  case (Suc l)
  have d: "unat bs div 4 \<le> 2 ^ 14" using assms(1) by simp
  have "(unat bs div 4) ^ Suc l * unat bs \<le> (2 ^ 14) ^ 3 * 2 ^ 16"
  proof (rule mult_le_mono[OF _ assms(1)])
    have "(unat bs div 4) ^ Suc l \<le> (2 ^ 14) ^ Suc l" using d by (rule power_mono) simp
    also have "(2 ^ 14 :: nat) ^ Suc l \<le> (2 ^ 14) ^ 3" using Suc.prems by (intro power_increasing) simp_all
    finally show "(unat bs div 4) ^ Suc l \<le> (2 ^ 14) ^ 3" .
  qed
  then have lt: "(unat bs div 4) * ((unat bs div 4) ^ l * unat bs) < 2 ^ 64" by (simp add: mult.assoc)
  have "unat (ind_size bs (Suc l)) = unat (bs div 4) * unat (ind_size bs l)"
    using lt Suc by (simp add: unat_word_ariths(2) unat_div)
  then show ?case using Suc by (simp add: unat_div mult.assoc)
qed simp

text \<open>\<open>reads a B a'\<close>: consuming the bytes \<open>B\<close> takes the arguments \<open>a\<close> to \<open>a'\<close>.\<close>

definition reads :: "read_args \<Rightarrow> bytes \<Rightarrow> read_args \<Rightarrow> bool" where
  "reads a B a' \<longleftrightarrow> ra_out a' = ra_out a @ take (unat (ra_size a)) (drop (unat (ra_addr a)) B) \<and>
     unat (ra_size a') = unat (ra_size a) - (length B - unat (ra_addr a)) \<and>
     (ra_size a' = 0 \<or> unat (ra_addr a') = unat (ra_addr a) - length B)"

lemma reads_nothing: "ra_size a = 0 \<Longrightarrow> reads a B a"
  by (simp add: reads_def)

lemma reads_empty: "reads a [] a"
  by (simp add: reads_def)

lemma reads_append:
  assumes "reads a B a1" "reads a1 C a2"
  shows "reads a (B @ C) a2"
proof (cases "ra_size a1 = 0")
  case True
  then have "unat (ra_size a) \<le> length B - unat (ra_addr a)" using assms(1) by (simp add: reads_def)
  then show ?thesis using assms True by (auto simp: reads_def unsigned_eq_0_iff)
next
  case False
  then have "unat (ra_addr a1) = unat (ra_addr a) - length B" using assms(1) by (simp add: reads_def)
  then show ?thesis using assms by (auto simp: reads_def)
qed

lemma for_range_reads:
  assumes "\<And>i a. i < n \<Longrightarrow> \<exists>a'. f i a = Inr a' \<and> reads a (B i) a'" "s \<le> n"
  shows "\<exists>a'. for_range f s n a = Inr a' \<and> reads a (concat (map B [s..<n])) a'"
  using assms
proof (induction n)
  case 0
  then show ?case by (simp add: reads_empty)
next
  case (Suc n)
  show ?case
  proof (cases "s = Suc n")
    case True
    then show ?thesis by (simp add: reads_empty)
  next
    case False
    with Suc.prems have s: "s \<le> n" by simp
    with Suc obtain a1 where a1: "for_range f s n a = Inr a1" "reads a (concat (map B [s..<n])) a1" by auto
    from Suc.prems(1)[of n a1] obtain a2 where a2: "f n a1 = Inr a2" "reads a1 (B n) a2" by auto
    show ?thesis using a1 a2 s reads_append[OF a1(2) a2(2)] by (simp add: for_range_last)
  qed
qed

text \<open>Starting in the middle of a sequence of blocks of equal size.\<close>

lemma reads_from:
  assumes "reads (a\<lparr>ra_addr := m\<rparr>) R a'" "unat (ra_addr a) = length X + unat m"
  shows "reads a (X @ R) a'"
  using assms by (auto simp: reads_def)

context byte_store
begin

lemma readrec_reads:
  assumes "inv (x_part fs)" "c = content (x_part fs)" "bs = unat (x_blockSize fs)" "0 < bs" "bs \<le> 2 ^ 16" "length c < 2 ^ 64"
  shows "l \<le> 3 \<Longrightarrow> blk_in c bs l b \<Longrightarrow> \<exists>a'. readrec D fs l b a = Inr a' \<and> reads a (blk_bytes c bs l b) a'"
proof (induction l arbitrary: b a)
  case 0
  have b: "unat b * bs + bs < length c" using 0 by simp
  have L: "length (blk c bs b) = bs" using b by (simp add: blk_def)
  show ?case
  proof (cases "ra_size a = 0 \<or> x_blockSize fs \<le> ra_addr a")
    case True
    have "unat (ra_addr a - x_blockSize fs) = unat (ra_addr a) - bs" if "x_blockSize fs \<le> ra_addr a"
      using that assms(3) by (simp add: unat_sub)
    with True L assms(3) show ?thesis by (auto simp: reads_def word_le_nat_alt)
  next
    case False
    then have nz: "ra_size a \<noteq> 0" and lt: "unat (ra_addr a) < bs" using assms(3) by (simp_all add: not_le word_less_nat_alt)
    let ?n = "min (x_blockSize fs - ra_addr a) (ra_size a)"
    have d: "unat (x_blockSize fs - ra_addr a) = bs - unat (ra_addr a)"
      using lt assms(3) by (subst unat_sub) (simp_all add: word_le_nat_alt)
    have n: "unat ?n = min (bs - unat (ra_addr a)) (unat (ra_size a))"
      unfolding min_def word_le_nat_alt d using d by (cases "bs - unat (ra_addr a) \<le> unat (ra_size a)") (simp_all only: if_True if_False)
    have "0 < unat ?n" unfolding n using nz lt by (simp add: unat_gt_0)
    then have np: "0 < ?n" by (simp only: word_less_nat_alt unat_0)
    have p: "unat (ucast b * x_blockSize fs) = unat b * bs"
      using b assms(3,6) by (subst unat_mult_lem[THEN iffD1]) simp_all
    have ad: "unat (ucast b * x_blockSize fs + ra_addr a) = unat b * bs + unat (ra_addr a)"
      using b p lt assms(6) by (subst unat_add_lem[THEN iffD1]) simp_all
    have rd: "readaddr D (ucast b * x_blockSize fs + ra_addr a) ?n (x_part fs) =
       Inr (take (unat ?n) (drop (unat b * bs + unat (ra_addr a)) c))"
      using read_ok[OF assms(1) np, of "ucast b * x_blockSize fs + ra_addr a"] b lt n assms(2) ad by simp
    have t: "take (unat (ra_size a)) (drop (unat (ra_addr a)) (blk c bs b)) =
       take (unat ?n) (drop (unat b * bs + unat (ra_addr a)) c)"
      unfolding blk_def drop_take take_take n by (simp add: min.commute add.commute)
    have s: "unat (ra_size a - ?n) = unat (ra_size a) - (bs - unat (ra_addr a))"
    proof -
      have "?n \<le> ra_size a" unfolding word_le_nat_alt n by simp
      then have "unat (ra_size a - ?n) = unat (ra_size a) - unat ?n" by (rule unat_sub)
      then show ?thesis unfolding n by linarith
    qed
    show ?thesis using False rd t s L lt by (simp add: Let_def reads_def)
  qed
next
  case (Suc l)
  then have l: "l \<le> 3" "Suc l \<le> 3" and b: "unat b * bs + bs < length c"
    and sub: "\<And>i. i < bs div 4 \<Longrightarrow> blk_in c bs l (ld32 (4 * i) (blk c bs b))" by simp_all
  note Lall = length_blk_bytes[OF Suc.prems(2)]
  note sz = unat_ind_size[of "x_blockSize fs", folded assms(3), OF assms(5) l(1)]
    and szS = unat_ind_size[of "x_blockSize fs", folded assms(3), OF assms(5) l(2)]
  show ?case
  proof (cases "ra_size a = 0 \<or> ind_size (x_blockSize fs) (Suc l) \<le> ra_addr a")
    case True
    have "unat (ra_addr a - ind_size (x_blockSize fs) (Suc l)) = unat (ra_addr a) - (bs div 4) ^ Suc l * bs"
      if "ind_size (x_blockSize fs) (Suc l) \<le> ra_addr a" using that szS by (subst unat_sub) simp_all
    with True Lall szS show ?thesis by (auto simp: reads_def word_le_nat_alt simp del: ind_size.simps blk_bytes.simps)
  next
    case False
    let ?isz = "ind_size (x_blockSize fs) l" and ?buf = "blk c bs b"
    let ?B = "\<lambda>i. blk_bytes c bs l (ld32 (4 * i) ?buf)"
    have lt: "unat (ra_addr a) < (bs div 4) ^ Suc l * bs"
      using False szS by (simp add: not_le word_less_nat_alt del: ind_size.simps)
    have pos: "0 < (bs div 4) ^ l * bs" 
    proof (rule ccontr)
      assume "\<not> 0 < (bs div 4) ^ l * bs"
      then have "(bs div 4) * ((bs div 4) ^ l * bs) = 0" by simp
      then show False using lt by (auto simp: mult.assoc)
    qed
    define s where "s = unat (ra_addr a) div ((bs div 4) ^ l * bs)"
    have s: "s < bs div 4" unfolding s_def using lt pos by (simp add: div_less_iff_less_mult mult.assoc)
    have us: "unat (ra_addr a div ?isz) = s" by (simp add: s_def unat_div sz)
    have um: "unat (ra_addr a mod ?isz) = unat (ra_addr a) mod ((bs div 4) ^ l * bs)" by (simp add: unat_mod sz)
    have p: "unat (ucast b * x_blockSize fs) = unat b * bs"
      using b assms(3,6) by (subst unat_mult_lem[THEN iffD1]) simp_all
    have bp: "0 < x_blockSize fs" using assms(3,4) by (simp add: word_less_nat_alt)
    have rd: "readaddr D (ucast b * x_blockSize fs) (x_blockSize fs) (x_part fs) = Inr ?buf"
      using read_ok[OF assms(1) bp, of "ucast b * x_blockSize fs"] b p assms(2,3) by (simp add: blk_def)
    let ?f = "\<lambda>i a. if ra_size a = 0 then Inr a else readrec D fs l (ld32 (4 * i) ?buf) a"
    have step: "\<exists>a'. ?f i a = Inr a' \<and> reads a (?B i) a'" if "i < bs div 4" for i a
      using Suc.IH[OF l(1) sub[OF that], of a] by (simp add: reads_nothing)
    have sle: "s \<le> bs div 4" using s by simp
    from for_range_reads[of "bs div 4" ?f ?B, OF step sle, of "a\<lparr>ra_addr := ra_addr a mod ?isz\<rparr>"]
    obtain a' where a': "for_range ?f s (bs div 4) (a\<lparr>ra_addr := ra_addr a mod ?isz\<rparr>) = Inr a'"
      "reads (a\<lparr>ra_addr := ra_addr a mod ?isz\<rparr>) (concat (map ?B [s..<bs div 4])) a'" by blast
    have lX: "length (concat (map ?B [0..<s])) = s * ((bs div 4) ^ l * bs)"
      using length_concat_const[of "[0..<s]" ?B "(bs div 4) ^ l * bs"] length_blk_bytes[OF sub] s by simp
    have "unat (ra_addr a) = length (concat (map ?B [0..<s])) + unat (ra_addr a mod ?isz)"
      by (simp only: lX um) (simp only: s_def div_mult_mod_eq)
    from reads_from[OF a'(2) this] have "reads a (concat (map ?B ([0..<s] @ [s..<bs div 4]))) a'" by simp
    also have "[0..<s] @ [s..<bs div 4] = [0..<bs div 4]"
      using upt_add_eq_append[of 0 s "bs div 4 - s"] sle by simp
    finally have "reads a (blk_bytes c bs (Suc l) b) a'" by simp
    moreover have "readrec D fs (Suc l) b a = Inr a'"
      using False a'(1) rd us by (simp add: Let_def unat_div assms(3)[symmetric] del: ind_size.simps)
    ultimately show ?thesis by blast
  qed
qed

lemma i_readaddr_file:
  assumes "inv (x_part fs)" "length (content (x_part fs)) < 2 ^ 64" "0 < x_blockSize fs" "x_blockSize fs \<le> 2 ^ 16"
    and "readData D fs i = Inr i'" "file_in (content (x_part fs)) (unat (x_blockSize fs)) (in_data i')"
  shows "i_readaddr D fs addr sz i = Inr (i', take (unat sz) (drop (unat addr)
     (file_bytes (content (x_part fs)) (unat (x_blockSize fs)) (in_data i'))))"
proof -
  let ?c = "content (x_part fs)" and ?bs = "unat (x_blockSize fs)" and ?b = "\<lambda>j. id_block (in_data i') ! j"
  let ?a0 = "\<lparr>ra_addr = addr, ra_out = [], ra_size = sz\<rparr>"
  have bs: "0 < ?bs" "?bs \<le> 2 ^ 16" using assms(3,4) by (simp_all add: word_less_nat_alt word_le_nat_alt)
  note rr = readrec_reads[OF assms(1) refl refl bs assms(2)]
  have f: "\<And>j. j < 12 \<Longrightarrow> blk_in ?c ?bs 0 (?b j)" "\<And>k. k < 3 \<Longrightarrow> blk_in ?c ?bs (k + 1) (?b (12 + k))"
    using assms(6) unfolding file_in_def by blast+
  have "\<exists>a'. for_range (\<lambda>j a. readrec D fs 0 (?b j) a) 0 12 ?a0 = Inr a' \<and>
     reads ?a0 (concat (map (\<lambda>j. blk_bytes ?c ?bs 0 (?b j)) [0..<12])) a'"
    by (rule for_range_reads[of 12 _ "\<lambda>j. blk_bytes ?c ?bs 0 (?b j)"]) (use rr[OF _ f(1)] in simp_all)
  then obtain a1 where a1: "for_range (\<lambda>j a. readrec D fs 0 (?b j) a) 0 12 ?a0 = Inr a1"
     "reads ?a0 (concat (map (\<lambda>j. blk_bytes ?c ?bs 0 (?b j)) [0..<12])) a1" by blast
  have "\<exists>a'. for_range (\<lambda>k a. readrec D fs (k + 1) (?b (12 + k)) a) 0 3 a1 = Inr a' \<and>
     reads a1 (concat (map (\<lambda>k. blk_bytes ?c ?bs (k + 1) (?b (12 + k))) [0..<3])) a'"
    by (rule for_range_reads[of 3 _ "\<lambda>k. blk_bytes ?c ?bs (k + 1) (?b (12 + k))"]) (use rr[OF _ f(2)] in simp_all)
  then obtain a2 where a2: "for_range (\<lambda>k a. readrec D fs (k + 1) (?b (12 + k)) a) 0 3 a1 = Inr a2"
     "reads a1 (concat (map (\<lambda>k. blk_bytes ?c ?bs (k + 1) (?b (12 + k))) [0..<3])) a2" by blast
  have "ra_out a2 = take (unat sz) (drop (unat addr) (file_bytes ?c ?bs (in_data i')))"
    using reads_append[OF a1(2) a2(2)] by (simp only: reads_def file_bytes_def) simp
  then show ?thesis using a1(1) a2(1) assms(5) by (simp add: i_readaddr_def)
qed

end

section \<open>Writing into allocated blocks\<close>

text \<open>The bytes of the first \<open>m\<close> direct blocks.\<close>

definition direct_bytes :: "bytes \<Rightarrow> nat \<Rightarrow> InodeData \<Rightarrow> nat \<Rightarrow> bytes" where
  "direct_bytes c bs d m = concat (map (\<lambda>j. blk c bs (id_block d ! j)) [0..<m])"

lemma nth_concat_const:
  assumes "\<And>i. i < n \<Longrightarrow> length (f i) = k" "t < n * k"
  shows "concat (map f [0..<n]) ! t = f (t div k) ! (t mod k)"
  using assms
proof (induction n)
  case (Suc n)
  have l: "length (concat (map f [0..<n])) = n * k"
    using length_concat_const[of "[0..<n]" f k] Suc.prems(1) by simp
  show ?case
  proof (cases "t < n * k")
    case True
    then show ?thesis using Suc l by (simp add: nth_append)
  next
    case False
    then have t: "n * k \<le> t" "t < n * k + k" using Suc.prems(2) by simp_all
    then obtain r where r: "t = n * k + r" "r < k" by (metis le_add_diff_inverse less_diff_conv2 add.commute)
    then have d: "t div k = n" "t mod k = r" by simp_all
    then show ?thesis using r l by (simp add: nth_append)
  qed
qed simp

lemma in_block:
  assumes "o1 + n \<le> bs" "r < bs"
  shows "A * bs + o1 \<le> B * bs + r \<and> B * bs + r < A * bs + o1 + n \<longleftrightarrow> A = B \<and> o1 \<le> r \<and> r < o1 + (n::nat)"
proof -
  have "A < B \<Longrightarrow> A * bs + bs \<le> B * bs" using mult_le_mono1[of "Suc A" B bs] by simp
  moreover have "B < A \<Longrightarrow> B * bs + bs \<le> A * bs" using mult_le_mono1[of "Suc B" A bs] by simp
  ultimately show ?thesis using assms by (cases A B rule: linorder_cases) auto
qed

lemma direct_bytes_nth:
  assumes "\<And>j. j < m \<Longrightarrow> unat (id_block d ! j) * bs + bs \<le> length c"
  shows "length (direct_bytes c bs d m) = m * bs"
    "t < m * bs \<Longrightarrow> direct_bytes c bs d m ! t = c ! (unat (id_block d ! (t div bs)) * bs + t mod bs)"
proof -
  have l: "length (blk c bs (id_block d ! j)) = bs" if "j < m" for j using assms[OF that] by (simp add: blk_def)
  show "length (direct_bytes c bs d m) = m * bs"
    unfolding direct_bytes_def using length_concat_const[of "[0..<m]" "\<lambda>j. blk c bs (id_block d ! j)" bs] l by simp
  assume t: "t < m * bs"
  then have bs: "0 < bs" by (cases bs) simp_all
  have q: "t div bs < m" using t by (simp add: less_mult_imp_div_less)
  have "direct_bytes c bs d m ! t = blk c bs (id_block d ! (t div bs)) ! (t mod bs)"
    unfolding direct_bytes_def by (rule nth_concat_const[OF l t])
  then show "direct_bytes c bs d m ! t = c ! (unat (id_block d ! (t div bs)) * bs + t mod bs)"
    using assms[OF q] bs by (simp add: blk_def)
qed

lemma diff_cancel: "j * bs + r - (j * bs + o1) = r - (o1::nat)" by simp

lemma direct_bytes_write:
  assumes "\<And>j. j < m \<Longrightarrow> unat (id_block d ! j) * bs + bs \<le> length c"
    and "\<And>i j. i < m \<Longrightarrow> j < m \<Longrightarrow> id_block d ! i = id_block d ! j \<Longrightarrow> i = j"
    and "j < m" "o1 + length x \<le> bs"
  shows "direct_bytes (overwrite (unat (id_block d ! j) * bs + o1) x c) bs d m = overwrite (j * bs + o1) x (direct_bytes c bs d m)"
    (is "direct_bytes ?c' bs d m = _")
proof (rule nth_equalityI)
  have in1: "unat (id_block d ! j) * bs + o1 + length x \<le> length c" using assms(1)[OF assms(3)] assms(4) by simp
  then have lc: "length ?c' = length c" by simp
  have D: "length (direct_bytes c bs d m) = m * bs"
    "t < m * bs \<Longrightarrow> direct_bytes c bs d m ! t = c ! (unat (id_block d ! (t div bs)) * bs + t mod bs)" for t
    by (rule direct_bytes_nth, use assms(1) in simp)+
  have D': "length (direct_bytes ?c' bs d m) = m * bs"
    "t < m * bs \<Longrightarrow> direct_bytes ?c' bs d m ! t = ?c' ! (unat (id_block d ! (t div bs)) * bs + t mod bs)" for t
    by (rule direct_bytes_nth, use assms(1) lc in simp)+
  have jm: "j * bs + o1 + length x \<le> m * bs" using assms(3,4) mult_le_mono1[of "Suc j" m bs] by simp
  show "length (direct_bytes ?c' bs d m) = length (overwrite (j * bs + o1) x (direct_bytes c bs d m))"
    using D'(1) D(1) jm by simp
  fix t assume "t < length (direct_bytes ?c' bs d m)"
  then have t: "t < m * bs" using D'(1) by simp
  then have bs: "0 < bs" by (cases bs) simp_all
  let ?q = "t div bs" and ?r = "t mod bs"
  have q: "?q < m" using t by (simp add: less_mult_imp_div_less)
  have r: "?r < bs" using bs by simp
  have tq: "?q * bs + ?r = t" by (rule div_mult_mod_eq)
  have pos: "unat (id_block d ! ?q) * bs + ?r < length c" using assms(1)[OF q] r by simp
  have c1: "unat (id_block d ! j) * bs + o1 \<le> unat (id_block d ! ?q) * bs + ?r \<and>
      unat (id_block d ! ?q) * bs + ?r < unat (id_block d ! j) * bs + o1 + length x \<longleftrightarrow>
      j = ?q \<and> o1 \<le> ?r \<and> ?r < o1 + length x"
    using in_block[OF assms(4) r] assms(2)[OF assms(3) q] by (auto simp: word_unat_eq_iff)
  have c2: "j * bs + o1 \<le> t \<and> t < j * bs + o1 + length x \<longleftrightarrow> j = ?q \<and> o1 \<le> ?r \<and> ?r < o1 + length x"
    using in_block[OF assms(4) r, of j ?q] tq by simp
  have idx: "j = ?q \<Longrightarrow> t - (j * bs + o1) = ?r - o1" by (metis diff_cancel tq)
  show "direct_bytes ?c' bs d m ! t = overwrite (j * bs + o1) x (direct_bytes c bs d m) ! t"
    using c1 c2 idx D'(2)[OF t] D(2)[OF t] D(1) t jm pos in1 by (auto simp: nth_overwrite)
qed

lemma overwrite_more:
  assumes "a + length d1 + length d2 \<le> length b"
  shows "overwrite (a + length d1) d2 (overwrite a d1 b) = overwrite a (d1 @ d2) b"
  using assms by (intro nth_equalityI) (auto simp: nth_overwrite nth_append)

text \<open>The state of \<open>i_writeaddr\<close> after \<open>j\<close> direct blocks: \<open>min n (j * bs - a)\<close> bytes are written.\<close>

definition wrote :: "nat \<Rightarrow> nat \<Rightarrow> bytes \<Rightarrow> nat \<Rightarrow> nat" where
  "wrote bs a data j = min (length data) (j * bs - a)"

lemma wrote_step:
  assumes "wrote bs a data j < length data"
  shows "bs \<le> a - j * bs \<Longrightarrow> wrote bs a data (Suc j) = wrote bs a data j"
    "a - j * bs < bs \<Longrightarrow> wrote bs a data (Suc j) =
       wrote bs a data j + min (bs - (a - j * bs)) (length data - wrote bs a data j)"
    "a - j * bs < bs \<Longrightarrow> j * bs + (a - j * bs) = a + wrote bs a data j"
proof -
  define J where "J = j * bs"
  have w: "wrote bs a data j = J - a" "J - a < length data" using assms by (simp_all add: wrote_def J_def min_def split: if_splits)
  have S: "wrote bs a data (Suc j) = min (length data) (bs + J - a)" by (simp add: wrote_def J_def)
  show "bs \<le> a - j * bs \<Longrightarrow> wrote bs a data (Suc j) = wrote bs a data j"
    using w unfolding S J_def[symmetric] by simp
  show "a - j * bs < bs \<Longrightarrow> wrote bs a data (Suc j) =
       wrote bs a data j + min (bs - (a - j * bs)) (length data - wrote bs a data j)"
    using w unfolding S J_def[symmetric] by (cases "a \<le> J"; cases "length data \<le> bs + J - a") (auto simp: min_def)
  show "a - j * bs < bs \<Longrightarrow> j * bs + (a - j * bs) = a + wrote bs a data j"
    using w unfolding J_def[symmetric] by simp
qed

definition writing :: "('p \<Rightarrow> bool) \<Rightarrow> ('p \<Rightarrow> bytes) \<Rightarrow> 'p ext2 \<Rightarrow> InodeData \<Rightarrow> u64 \<Rightarrow> bytes \<Rightarrow> nat \<Rightarrow> nat \<Rightarrow>
    bool \<times> 'p write_args \<Rightarrow> bool" where
  "writing ok content fs d addr data m j s \<longleftrightarrow> (\<exists>w p. s = (False, w) \<and> wa_data w = d \<and>
     wa_bytes w = drop (wrote (unat (x_blockSize fs)) (unat addr) data j) data \<and>
     (wa_bytes w \<noteq> [] \<longrightarrow> unat (wa_blockNum w) = j \<and> unat (wa_addr w) = unat addr - j * unat (x_blockSize fs)) \<and>
     wa_fs w = fs\<lparr>x_part := p\<rparr> \<and> ok p \<and> length (content p) = length (content (x_part fs)) \<and>
     (\<forall>b. b \<notin> (\<lambda>j. id_block d ! j) ` {..<m} \<longrightarrow> blk (content p) (unat (x_blockSize fs)) b = blk (content (x_part fs)) (unat (x_blockSize fs)) b) \<and>
     direct_bytes (content p) (unat (x_blockSize fs)) d m = overwrite (unat addr)
       (take (wrote (unat (x_blockSize fs)) (unat addr) data j) data)
       (direct_bytes (content (x_part fs)) (unat (x_blockSize fs)) d m))"

text \<open>The direct blocks of a file that hold its first \<open>m\<close> blocks: allocated, inside the disk, distinct.\<close>

definition direct_ok :: "bytes \<Rightarrow> 'p ext2 \<Rightarrow> InodeData \<Rightarrow> nat \<Rightarrow> bool" where
  "direct_ok c fs d m \<longleftrightarrow> m \<le> 12 \<and> length c < 2 ^ 64 \<and> 0 < x_blockSize fs \<and> length (id_block d) = 15 \<and>
     (\<exists>cnt. getBlockCount (x_sb fs) d = Inr cnt \<and> m \<le> unat cnt) \<and>
     (\<forall>j<m. unat (id_block d ! j) * unat (x_blockSize fs) + unat (x_blockSize fs) < length c) \<and>
     (\<forall>i<m. \<forall>j<m. id_block d ! i = id_block d ! j \<longrightarrow> i = j)"

lemma blk_other:
  assumes "o1 + length x \<le> bs" "unat b * bs + bs \<le> length c" "b' \<noteq> b"
  shows "blk (overwrite (unat b * bs + o1) x c) bs b' = blk c bs b'"
proof -
  have "unat b' \<noteq> unat b" using assms(3) by (simp add: word_unat_eq_iff)
  then have "unat b' * bs + bs \<le> unat b * bs \<or> unat b * bs + bs \<le> unat b' * bs"
    using mult_le_mono1[of "Suc (unat b')" "unat b" bs] mult_le_mono1[of "Suc (unat b)" "unat b'" bs] by (auto simp: neq_iff)
  then show ?thesis unfolding blk_def using assms(1,2) by (intro overwrite_other) auto
qed

context byte_store
begin

lemma wa_block_writes:
  assumes "inv (x_part (wa_fs w))" "c = content (x_part (wa_fs w))" "length c < 2 ^ 64" "bs = unat (x_blockSize (wa_fs w))"
    and "wa_bytes w \<noteq> []" "unat (wa_addr w) < bs" "unat b * bs + bs < length c"
    and "n = min (bs - unat (wa_addr w)) (length (wa_bytes w))"
  obtains p where "wa_block D b w = Inr (w\<lparr>wa_fs := (wa_fs w)\<lparr>x_part := p\<rparr>, wa_bytes := drop n (wa_bytes w), wa_addr := 0\<rparr>)"
    "inv p" "content p = overwrite (unat b * bs + unat (wa_addr w)) (take n (wa_bytes w)) c"
proof -
  have d: "unat (x_blockSize (wa_fs w) - wa_addr w) = bs - unat (wa_addr w)"
    using assms(4,6) by (subst unat_sub) (simp_all add: word_le_nat_alt)
  have lt: "wa_addr w < x_blockSize (wa_fs w)" using assms(4,6) by (simp add: word_less_nat_alt)
  have p: "unat (ucast b * x_blockSize (wa_fs w)) = unat b * bs"
    using assms(3,4,7) by (subst unat_mult_lem[THEN iffD1]) simp_all
  have ad: "unat (ucast b * x_blockSize (wa_fs w) + wa_addr w) = unat b * bs + unat (wa_addr w)"
    using p assms(3,6,7) by (subst unat_add_lem[THEN iffD1]) simp_all
  have n: "0 < n" using assms(5,6,8) by simp
  have ne: "take n (wa_bytes w) \<noteq> []" using n assms(5) by simp
  have len: "length (take n (wa_bytes w)) = n" using assms(8) by simp
  have rng: "unat (ucast b * x_blockSize (wa_fs w) + wa_addr w) + length (take n (wa_bytes w)) < length c"
    using ad assms(6,7,8) len by simp
  obtain p where p: "writeaddr D (ucast b * x_blockSize (wa_fs w) + wa_addr w) (take n (wa_bytes w)) (x_part (wa_fs w)) = Inr p"
    "inv p" "content p = overwrite (unat b * bs + unat (wa_addr w)) (take n (wa_bytes w)) c"
    using write_ok[OF assms(1) ne, of "ucast b * x_blockSize (wa_fs w) + wa_addr w"] rng assms(2) ad by auto
  show thesis
    by (rule that[of p]) (use p lt d assms(8) in \<open>simp_all add: wa_block_def wa_write_def Let_def\<close>)
qed

lemma writing_step:
  assumes "direct_ok (content (x_part fs)) fs d m" "j < m" "writing inv content fs d addr data m j s"
    and "unat addr + length data \<le> m * unat (x_blockSize fs)"
  shows "\<exists>s'. write_entry D n 0 j s = Inr s' \<and> writing inv content fs d addr data m (Suc j) s'"
proof -
  let ?bs = "unat (x_blockSize fs)" and ?c = "content (x_part fs)"
  let ?k = "wrote ?bs (unat addr) data"
  from assms(3) obtain w p where w: "s = (False, w)" "wa_data w = d" "wa_bytes w = drop (?k j) data"
    "wa_bytes w \<noteq> [] \<Longrightarrow> unat (wa_blockNum w) = j \<and> unat (wa_addr w) = unat addr - j * ?bs"
    "wa_fs w = fs\<lparr>x_part := p\<rparr>" "inv p" "length (content p) = length ?c"
    "\<And>b. b \<notin> (\<lambda>j. id_block d ! j) ` {..<m} \<Longrightarrow> blk (content p) ?bs b = blk ?c ?bs b"
    "direct_bytes (content p) ?bs d m = overwrite (unat addr) (take (?k j) data) (direct_bytes ?c ?bs d m)"
    unfolding writing_def by blast
  from assms(1) obtain cnt where cnt: "getBlockCount (x_sb fs) d = Inr cnt" "m \<le> unat cnt"
    and dk: "length ?c < 2 ^ 64" "0 < ?bs" "length (id_block d) = 15" "m \<le> 12"
    and rng: "\<And>j. j < m \<Longrightarrow> unat (id_block d ! j) * ?bs + ?bs < length ?c"
    and dst: "\<And>i j. i < m \<Longrightarrow> j < m \<Longrightarrow> id_block d ! i = id_block d ! j \<Longrightarrow> i = j"
    unfolding direct_ok_def by (auto simp: word_less_nat_alt)
  have same: "d\<lparr>id_block := (id_block d)[j := id_block d ! j]\<rparr> = d" by simp
  show ?thesis
  proof (cases "wa_bytes w = []")
    case True
    then have "length data \<le> ?k j" using w(3) by simp
    then have le: "length data \<le> j * ?bs - unat addr" by (simp add: wrote_def)
    then have "length data \<le> Suc j * ?bs - unat addr" by simp
    with le have "?k (Suc j) = ?k j" by (simp only: wrote_def min.absorb1)
    then have "writing inv content fs d addr data m (Suc j) s"
      unfolding writing_def using w True by (intro exI[of _ w] exI[of _ p]) simp
    then show ?thesis using True w(1,2) same by (auto simp: write_entry_def)
  next
    case ne: False
    note wa = w(4)[OF ne]
    have lt: "?k j < length data" using ne w(3) by simp
    have skip: "canSkip 0 cnt w"
      using wa cnt(2) assms(2) w(5) by (simp add: canSkip_def word_less_nat_alt)
    have nb: "\<not> cnt \<le> wa_blockNum w" using wa cnt(2) assms(2) by (simp add: word_le_nat_alt)
    have num: "unat (wa_blockNum w + 1) = Suc j"
    proof -
      have "unat (wa_blockNum w) + unat (1 :: u32) < 2 ^ 32" using wa assms(2) dk(4) by simp
      then show ?thesis using wa by (subst unat_add_lem[THEN iffD1]) simp_all
    qed
    show ?thesis
    proof (cases "?bs \<le> unat (wa_addr w)")
      case True
      then have le: "x_blockSize fs \<le> wa_addr w" by (simp add: word_le_nat_alt)
      have k: "?k (Suc j) = ?k j" using wrote_step(1)[OF lt] True wa by simp
      have ad: "unat (wa_addr w - x_blockSize fs) = unat addr - Suc j * ?bs" using le wa by (simp add: unat_sub)
      have nm: "unat (ucast (ucast (wa_blockNum w) + 1 :: u64) :: u32) = Suc j"
      proof -
        have "(ucast (ucast (wa_blockNum w) + 1 :: u64) :: u32) = of_nat (unat (wa_blockNum w) + 1)"
          using of_nat_u32_of_u64[of "wa_blockNum w" 1 0 1] by simp
        then show ?thesis using wa assms(2) dk(4) unat_of_nat32[of "j + 1"] by simp
      qed
      have "write_entry D n 0 j s = Inr (False, wa_skip 0 w)"
        using ne w(1,2,5) cnt(1) skip le same by (simp add: write_entry_def wa_skip_def Let_def)
      moreover have "writing inv content fs d addr data m (Suc j) (False, wa_skip 0 w)"
        unfolding writing_def using w k ad nm
        by (intro exI[of _ "wa_skip 0 w"] exI[of _ p]) (simp add: wa_skip_def)
      ultimately show ?thesis by blast
    next
      case False
      then have o1: "unat (wa_addr w) < ?bs" by simp
      then have nle: "\<not> x_blockSize fs \<le> wa_addr w" by (simp add: word_le_nat_alt)
      let ?n = "min (?bs - unat (wa_addr w)) (length (wa_bytes w))"
      have k: "?k (Suc j) = ?k j + ?n" using wrote_step(2)[OF lt] o1 wa w(3) by simp
      have pos: "j * ?bs + unat (wa_addr w) = unat addr + ?k j" using wrote_step(3)[OF lt] o1 wa by simp
      have ip: "inv (x_part (wa_fs w))" and bsw: "?bs = unat (x_blockSize (wa_fs w))"
        and lc: "length (content (x_part (wa_fs w))) < 2 ^ 64"
        and rb: "unat (id_block d ! j) * ?bs + ?bs < length (content (x_part (wa_fs w)))"
        using w(5,6,7) dk(1) rng[OF assms(2)] by simp_all
      obtain q where q: "wa_block D (id_block d ! j) w =
          Inr (w\<lparr>wa_fs := (wa_fs w)\<lparr>x_part := q\<rparr>, wa_bytes := drop ?n (wa_bytes w), wa_addr := 0\<rparr>)" "inv q"
        "content q = overwrite (unat (id_block d ! j) * ?bs + unat (wa_addr w)) (take ?n (wa_bytes w)) (content (x_part (wa_fs w)))"
        by (rule wa_block_writes[OF ip refl lc bsw ne o1 rb refl])
      let ?w' = "w\<lparr>wa_fs := fs\<lparr>x_part := q\<rparr>, wa_bytes := drop ?n (wa_bytes w), wa_addr := 0, wa_blockNum := wa_blockNum w + 1\<rparr>"
      have we: "write_entry D n 0 j s = Inr (False, ?w')"
        using ne w(1,2,5) cnt(1) nle nb q(1) same by (simp add: write_entry_def Let_def)
      have cq: "content q = overwrite (unat (id_block d ! j) * ?bs + unat (wa_addr w)) (take ?n (wa_bytes w)) (content p)"
        using q(3) w(5) by simp
      have fit: "unat (wa_addr w) + length (take ?n (wa_bytes w)) \<le> ?bs" using o1 by simp
      have rp: "unat (id_block d ! i) * ?bs + ?bs \<le> length (content p)" if "i < m" for i using rng[OF that] w(7) by simp
      have "length (content q) = length (content p)" unfolding cq using rp[OF assms(2)] fit by simp
      then have lq: "length (content q) = length ?c" using w(7) by simp
      have oth: "blk (content q) ?bs b = blk ?c ?bs b" if "b \<notin> (\<lambda>j. id_block d ! j) ` {..<m}" for b
        unfolding cq using blk_other[OF fit rp[OF assms(2)], of b] w(8)[OF that] that assms(2) by force
      have dl: "length (direct_bytes ?c ?bs d m) = m * ?bs"
        by (rule direct_bytes_nth) (use rng less_imp_le in blast)
      have "direct_bytes (content q) ?bs d m =
          overwrite (j * ?bs + unat (wa_addr w)) (take ?n (wa_bytes w)) (direct_bytes (content p) ?bs d m)"
        unfolding cq by (rule direct_bytes_write[OF rp dst assms(2) fit]) auto
      also have "\<dots> = overwrite (unat addr + length (take (?k j) data)) (take ?n (drop (?k j) data))
          (overwrite (unat addr) (take (?k j) data) (direct_bytes ?c ?bs d m))"
        using pos lt by (simp add: w(3,9))
      also have "\<dots> = overwrite (unat addr) (take (?k j) data @ take ?n (drop (?k j) data)) (direct_bytes ?c ?bs d m)"
        by (rule overwrite_more) (use assms(4) dl lt w(3) in simp)
      also have "take (?k j) data @ take ?n (drop (?k j) data) = take (?k (Suc j)) data"
        by (simp add: k take_add)
      finally have db: "direct_bytes (content q) ?bs d m = overwrite (unat addr) (take (?k (Suc j)) data) (direct_bytes ?c ?bs d m)" .
      have bt: "drop ?n (wa_bytes w) = drop (?k (Suc j)) data" by (simp add: w(3) k add.commute)
      have a0: "unat addr - Suc j * ?bs = 0" using o1 wa by simp
      have "writing inv content fs d addr data m (Suc j) (False, ?w')"
        unfolding writing_def using w(2) q(2) lq oth db bt a0 num
        by (intro exI[of _ ?w'] exI[of _ q]) simp
      with we show ?thesis by blast
    qed
  qed
qed

lemma write_entries_done:
  assumes "wa_bytes w = []"
  shows "for_range (\<lambda>k. write_entry D n (l k) (f k)) a b (wr, w) = Inr (wr, w)"
proof -
  have st: "write_entry D n l j (wr, w) = Inr (wr, w)" for l j
    using assms by (cases l) (simp_all add: write_entry_def)
  have "for_list (\<lambda>k. write_entry D n (l k) (f k)) xs (wr, w) = Inr (wr, w)" for xs
    by (induction xs) (simp_all add: st)
  then show ?thesis by (simp add: for_range_def)
qed

lemma i_writeaddr_direct:
  assumes "inv (x_part fs)" "readData D fs i = Inr i'" "direct_ok (content (x_part fs)) fs (in_data i') m"
    and "unat addr + length data \<le> m * unat (x_blockSize fs)" "unat addr + length data \<le> unat (id_getSize (in_data i'))"
  shows "\<exists>p. i_writeaddr D addr data (i, fs) = Inr (i', fs\<lparr>x_part := p\<rparr>) \<and> inv p \<and> length (content p) = length (content (x_part fs)) \<and>
     (\<forall>b. b \<notin> (\<lambda>j. id_block (in_data i') ! j) ` {..<m} \<longrightarrow>
        blk (content p) (unat (x_blockSize fs)) b = blk (content (x_part fs)) (unat (x_blockSize fs)) b) \<and>
     direct_bytes (content p) (unat (x_blockSize fs)) (in_data i') m =
        overwrite (unat addr) data (direct_bytes (content (x_part fs)) (unat (x_blockSize fs)) (in_data i') m)"
proof -
  let ?d = "in_data i'" and ?bs = "unat (x_blockSize fs)"
  let ?s0 = "(False, \<lparr>wa_fs = fs, wa_data = ?d, wa_addr = addr, wa_bytes = data, wa_blockNum = 0\<rparr>)"
  let ?W = "writing inv content fs ?d addr data m"
  have m: "m \<le> 12" using assms(3) by (simp add: direct_ok_def)
  have fsid: "fs\<lparr>x_part := x_part fs\<rparr> = fs" by simp
  have w0: "?W 0 ?s0"
    unfolding writing_def wrote_def
    by (rule exI[of _ "snd ?s0"], rule exI[of _ "x_part fs"]) (simp add: assms(1) overwrite_def)
  have ex: "\<exists>s. for_range (write_entry D (in_no i') 0) 0 j ?s0 = Inr s \<and> ?W j s" if "j \<le> m" for j
    using that
  proof (induction j)
    case 0
    then show ?case using w0 by simp
  next
    case (Suc j)
    then obtain s where s: "for_range (write_entry D (in_no i') 0) 0 j ?s0 = Inr s" "?W j s" by auto
    from writing_step[OF assms(3) _ s(2) assms(4), of "in_no i'"] Suc.prems
    obtain s' where "write_entry D (in_no i') 0 j s = Inr s'" "?W (Suc j) s'" by auto
    then show ?case using s(1) by (simp add: for_range_last)
  qed
  from ex[OF order_refl] obtain s where s: "for_range (write_entry D (in_no i') 0) 0 m ?s0 = Inr s" "?W m s" by blast
  from s(2) obtain w p where e: "s = (False, w)" and w':
    "wa_data w = ?d" "wa_bytes w = drop (wrote ?bs (unat addr) data m) data" "wa_fs w = fs\<lparr>x_part := p\<rparr>" "inv p"
    "length (content p) = length (content (x_part fs))"
    "\<forall>b. b \<notin> (\<lambda>j. id_block ?d ! j) ` {..<m} \<longrightarrow> blk (content p) ?bs b = blk (content (x_part fs)) ?bs b"
    "direct_bytes (content p) ?bs ?d m = overwrite (unat addr) (take (wrote ?bs (unat addr) data m) data)
       (direct_bytes (content (x_part fs)) ?bs ?d m)" unfolding writing_def by blast
  note w = s(1)[unfolded e] w'
  have k: "wrote ?bs (unat addr) data m = length data" using assms(4) by (simp add: wrote_def)
  then have done_w: "wa_bytes w = []" using w(3) by simp
  have "[0..<12] = [0..<m] @ [m..<12]" using upt_add_eq_append[of 0 m "12 - m"] m by simp
  then have "for_range (write_entry D (in_no i') 0) 0 12 ?s0 = bnd (for_range (write_entry D (in_no i') 0) 0 m ?s0)
      (for_range (write_entry D (in_no i') 0) m 12)" unfolding for_range_def by (simp only: for_list_append)
  then have l1: "for_range (write_entry D (in_no i') 0) 0 12 ?s0 = Inr (False, w)"
    using w(1) write_entries_done[OF done_w, of "in_no i'" "\<lambda>k. 0" "\<lambda>k. k" m 12 False] by simp
  have l2: "for_range (\<lambda>k. write_entry D (in_no i') (k + 1) (12 + k)) 0 3 (False, w) = Inr (False, w)"
    by (rule write_entries_done[OF done_w])
  have ns: "\<not> id_getSize (wa_data w) < addr + of_nat (length data)"
  proof -
    have lt: "unat addr + length data < 2 ^ 64" using assms(5) unat_lt64[of "id_getSize ?d"] by linarith
    then have "unat (of_nat (length data) :: u64) = length data" by (intro unat_of_nat64) simp
    then have "unat (addr + of_nat (length data)) = unat addr + length data"
      using lt by (subst unat_add_lem[THEN iffD1]) simp_all
    then show ?thesis using assms(5) w(2) by (simp add: word_less_nat_alt)
  qed
  have "i_writeaddr D addr data (i, fs) = Inr (i', fs\<lparr>x_part := p\<rparr>)"
    using assms(2) l1 l2 ns w(2,4) by (simp add: i_writeaddr_def Let_def)
  then show ?thesis using w(5-8) k by auto
qed

end

section \<open>Reading from the direct blocks\<close>

lemma readrec_done: "ra_size a = 0 \<Longrightarrow> readrec D fs l b a = Inr a"
  by (cases l) simp_all

lemma for_range_readrec_done:
  assumes "ra_size a = 0"
  shows "for_range (\<lambda>k a. readrec D fs (l k) (b k) a) m n a = Inr a"
proof -
  have "for_list (\<lambda>k a. readrec D fs (l k) (b k) a) xs a = Inr a" for xs
    by (induction xs) (simp_all add: readrec_done[OF assms])
  then show ?thesis by (simp add: for_range_def)
qed

lemma inode_addr_part [simp]: "inode_addr (fs\<lparr>x_part := p\<rparr>) n = inode_addr fs n"
  by (simp add: inode_addr_def inode_group_def inode_index_def get_bgd_def)

context byte_store
begin

lemma i_readaddr_direct:
  assumes "inv (x_part fs)" "readData D fs i = Inr i'" "direct_ok (content (x_part fs)) fs (in_data i') m"
    and "x_blockSize fs \<le> 2 ^ 16" "unat addr + unat sz \<le> m * unat (x_blockSize fs)"
  shows "i_readaddr D fs addr sz i = Inr (i', take (unat sz) (drop (unat addr)
     (direct_bytes (content (x_part fs)) (unat (x_blockSize fs)) (in_data i') m)))"
proof -
  let ?c = "content (x_part fs)" and ?bs = "unat (x_blockSize fs)" and ?b = "\<lambda>j. id_block (in_data i') ! j"
  let ?a0 = "\<lparr>ra_addr = addr, ra_out = [], ra_size = sz\<rparr>" and ?f = "\<lambda>j a. readrec D fs 0 (?b j) a"
  have d: "m \<le> 12" "length ?c < 2 ^ 64" "0 < ?bs" "\<And>j. j < m \<Longrightarrow> blk_in ?c ?bs 0 (?b j)" "?bs \<le> 2 ^ 16"
    using assms(3,4) by (auto simp: direct_ok_def word_less_nat_alt word_le_nat_alt)
  note rr = readrec_reads[OF assms(1) refl refl d(3,5,2)]
  have "\<exists>a'. for_range ?f 0 m ?a0 = Inr a' \<and> reads ?a0 (concat (map (\<lambda>j. blk_bytes ?c ?bs 0 (?b j)) [0..<m])) a'"
    by (rule for_range_reads[of m _ "\<lambda>j. blk_bytes ?c ?bs 0 (?b j)"]) (use rr[OF _ d(4)] in simp_all)
  then obtain a where a: "for_range ?f 0 m ?a0 = Inr a" "reads ?a0 (direct_bytes ?c ?bs (in_data i') m) a"
    by (auto simp: direct_bytes_def)
  have L: "length (direct_bytes ?c ?bs (in_data i') m) = m * ?bs"
    by (rule direct_bytes_nth) (use d(4) in \<open>auto intro: less_imp_le\<close>)
  have z: "ra_size a = 0" using a(2) assms(5) L by (simp add: reads_def flip: unat_eq_0)
  have "[0..<12] = [0..<m] @ [m..<12]" using upt_add_eq_append[of 0 m "12 - m"] d(1) by simp
  then have "for_range ?f 0 12 ?a0 = bnd (for_range ?f 0 m ?a0) (for_range ?f m 12)"
    unfolding for_range_def by (simp only: for_list_append)
  then have "for_range ?f 0 12 ?a0 = Inr a"
    using a(1) for_range_readrec_done[OF z, of D fs "\<lambda>_. 0" ?b m 12] by simp
  then show ?thesis
    using assms(2) a(2) for_range_readrec_done[OF z, of D fs "\<lambda>k. k + 1" "\<lambda>k. ?b (12 + k)" 0 3]
    by (simp add: i_readaddr_def reads_def)
qed

text \<open>An inode that was written is read back.\<close>

lemma inode_write_read:
  assumes "inv (x_part fs)" "wf_inode d" "inode_addr fs n = Inr a" "unat a + 128 < length (content (x_part fs))"
  shows "\<exists>p. writeInodeData D n d fs = Inr (fs\<lparr>x_part := p\<rparr>) \<and> inv p \<and>
    content p = overwrite (unat a) (encode_inode d) (content (x_part fs)) \<and> getInodeData D n (fs\<lparr>x_part := p\<rparr>) = Inr d"
proof -
  have l: "length (encode_inode d) = 128" by (rule encode_inode_length[OF assms(2)])
  then have ne: "encode_inode d \<noteq> []" by auto
  from write_ok[OF assms(1) ne, of a] assms(4) l
  obtain p where p: "writeaddr D a (encode_inode d) (x_part fs) = Inr p" "inv p"
    "content p = overwrite (unat a) (encode_inode d) (content (x_part fs))" by auto
  have "readaddr D a (of_nat (length (encode_inode d))) p = Inr (encode_inode d)"
    using read_written[OF assms(1) ne _ _ p(1)] assms(4) l by simp
  then have "readaddr D a 128 p = Inr (encode_inode d)" using l by simp
  then show ?thesis using p assms(3) by (intro exI[of _ p]) (simp add: writeInodeData_def getInodeData_def decode_encode_inode[OF assms(2)])
qed

lemma readData_kept:
  assumes "inv (x_part fs)" "readData D fs i = Inr i'" "inode_addr fs (in_no i) = Inr a" "inv p"
    and "length (content p) = length (content (x_part fs))" "unat a + 128 < length (content (x_part fs))"
    and "unat b * bs \<le> unat a" "unat a + 128 \<le> unat b * bs + bs" "blk (content p) bs b = blk (content (x_part fs)) bs b"
  shows "readData D (fs\<lparr>x_part := p\<rparr>) i' = Inr i'"
proof -
  have slot: "take 128 (drop (unat a) c) = take 128 (drop (unat a - unat b * bs) (blk c bs b))" for c :: bytes
    using assms(7,8) by (simp add: blk_def drop_take take_take min_def)
  have r: "readaddr D a 128 q = Inr (take 128 (drop (unat a) (content q)))" if "inv q" "unat a + 128 < length (content q)" for q
    using read_ok[OF that(1), of 128 a] that(2) by simp
  have "readaddr D a 128 p = readaddr D a 128 (x_part fs)"
    using r[OF assms(4)] r[OF assms(1)] assms(5,6,9) slot[of "content p"] slot[of "content (x_part fs)"] by simp
  moreover have "in_no i' = in_no i" using assms(2) by (auto simp: readData_def res_simps)
  ultimately show ?thesis using assms(2,3) by (auto simp: readData_def getInodeData_def res_simps)
qed

end

section \<open>Properties of files\<close>




text \<open>Growing an empty file allocates no block: the inode keeps its (zero) block numbers, and
  reading the new part of the file returns the bytes of block 0 of the disk.\<close>

theorem i_resize_grow_exposes_block0:
  assumes "byte_store D ok content" "ok (x_part fs)" "readData D fs i = Inr i'" "wf_inode (in_data i')"
    and "id_size (in_data i') = 0" "id_block (in_data i') ! 0 = 0" "id_getSize (id_setSize sz (in_data i')) = sz"
    and "length (content (x_part fs)) < 2 ^ 64" "0 < x_blockSize fs" "x_blockSize fs \<le> 2 ^ 16"
    and "inode_addr fs (in_no i) = Inr a" "unat a + 128 < length (content (x_part fs))" "unat (x_blockSize fs) \<le> unat a"
    and "0 < sz" "sz \<le> x_blockSize fs" "unat (x_blockSize fs) < length (content (x_part fs))"
    and "file_in (overwrite (unat a) (encode_inode (id_setSize sz (in_data i'))) (content (x_part fs))) (unat (x_blockSize fs)) (in_data i')"
  shows "\<exists>i2 fs2. i_resize D sz (i, fs) = Inr (i2, fs2) \<and> id_blocks (in_data i2) = id_blocks (in_data i') \<and>
     x_bgd fs2 = x_bgd fs \<and> id_getSize (in_data i2) = sz \<and>
     i_readaddr D fs2 0 sz i2 = Inr (i2, take (unat sz) (content (x_part fs)))"
proof -
  let ?d = "id_setSize sz (in_data i')" and ?bs = "unat (x_blockSize fs)"
  have no: "in_no i' = in_no i" using assms(3) by (auto simp: readData_def res_simps)
  have wf: "wf_inode ?d" using assms(4) by (simp add: wf_inode_def id_setSize_def)
  from byte_store.inode_write_read[OF assms(1,2) wf assms(11,12)] obtain p where
    p: "writeInodeData D (in_no i) ?d fs = Inr (fs\<lparr>x_part := p\<rparr>)" "ok p"
    "content p = overwrite (unat a) (encode_inode ?d) (content (x_part fs))" "getInodeData D (in_no i) (fs\<lparr>x_part := p\<rparr>) = Inr ?d"
    by blast
  let ?i2 = "i'\<lparr>in_data := ?d\<rparr>" and ?fs2 = "fs\<lparr>x_part := p\<rparr>"
  have g: "\<not> sz < id_getSize (in_data i')" using assms(5) by (simp add: id_getSize_def)
  have g2: "id_getSize (in_data i') < sz" using assms(5,14) by (simp add: id_getSize_def)
  have nb: "wa_bytes \<lparr>wa_fs = fs, wa_data = in_data i', wa_addr = sz, wa_bytes = [], wa_blockNum = 0\<rparr> = []" by simp
  have "i_writeaddr D sz [] (i', fs) = Inr (?i2, ?fs2)"
  proof -
    have "readData D fs i' = Inr i'" using assms(3) by (auto simp: readData_def res_simps)
    then show ?thesis
      using byte_store.write_entries_done[OF assms(1) nb, of "in_no i'" "\<lambda>_. 0" "\<lambda>j. j" 0 12 False]
        byte_store.write_entries_done[OF assms(1) nb, of "in_no i'" "\<lambda>k. k + 1" "\<lambda>k. 12 + k" 0 3 False] g2 p(1) no
      by (simp add: i_writeaddr_def Let_def)
  qed
  then have rz: "i_resize D sz (i, fs) = Inr (?i2, ?fs2)" using assms(3) g by (simp add: i_resize_def)
  have rd: "readData D ?fs2 ?i2 = Inr ?i2" using p(4) no by (simp add: readData_def)
  have lp: "length (content p) = length (content (x_part fs))"
    using p(3) assms(12) encode_inode_length[OF wf] by simp
  have fi: "file_in (content p) ?bs ?d" using assms(17) p(3) by (simp add: file_in_def id_setSize_def)
  have read: "i_readaddr D ?fs2 0 sz ?i2 = Inr (?i2, take (unat sz) (file_bytes (content p) ?bs ?d))"
    using byte_store.i_readaddr_file[OF assms(1) _ _ _ _ rd, of 0 sz] p(2) lp assms(8-10) fi by simp
  have b0: "id_block ?d ! 0 = 0" using assms(6) by (simp add: id_setSize_def)
  have szle: "unat sz \<le> ?bs" using assms(15) by (simp add: word_le_nat_alt)
  have "take (unat sz) (file_bytes (content p) ?bs ?d) = take (unat sz) (content p)"
    using b0 szle assms(16) lp by (simp add: file_bytes_def upt_conv_Cons blk_def take_take min_absorb1)
  also have "\<dots> = take (unat sz) (content (x_part fs))"
    unfolding p(3) overwrite_def using szle assms(12,13) by (simp add: take_take min_absorb1)
  finally show ?thesis
    using rz read assms(7) by (intro exI[of _ ?i2] exI[of _ ?fs2]) (simp add: id_setSize_def)
qed

section \<open>A volume with two files\<close>

lemma ld_zero [simp]: "ld32 a (replicate n 0) = 0" "ld16 a (replicate n 0) = 0"
proof -
  have "foldr (\<lambda>x acc. unat x + 256 * acc) (replicate k (0::u8)) 0 = 0" for k by (induction k) simp_all
  then show "ld32 a (replicate n 0) = 0" "ld16 a (replicate n 0) = 0" by (simp_all add: ld32_def ld16_def le_word_def)
qed

text \<open>On the volume of \<open>Ext2Fs\<close>: inode 1 has the direct block 6 and 600 bytes, inode 2 is empty.\<close>

definition file_inode :: InodeData where
  "file_inode = zero_inode\<lparr>id_mode := 0x81A4, id_links_count := 1, id_size := 600, id_blocks := 2, id_block := 6 # replicate 14 0\<rparr>"

definition empty_inode :: InodeData where
  "empty_inode = zero_inode\<lparr>id_mode := 0x81A4, id_links_count := 1, id_block := replicate 15 0\<rparr>"

definition vol2_fs :: "bytes ext2" where
  "vol2_fs = vol_fs\<lparr>x_part := overwrite 5120 (encode_inode file_inode) (overwrite 5248 (encode_inode empty_inode) (x_part vol_fs))\<rparr>"

lemma vol2_inodes: "wf_inode file_inode" "wf_inode empty_inode"
  "length (encode_inode file_inode) = 128" "length (encode_inode empty_inode) = 128"
proof -
  show f: "wf_inode file_inode" and e: "wf_inode empty_inode"
    by (simp_all add: file_inode_def empty_inode_def zero_inode_def wf_inode_def decode_inode_def)
  show "length (encode_inode file_inode) = 128" "length (encode_inode empty_inode) = 128"
    using encode_inode_length[OF f] encode_inode_length[OF e] by simp_all
qed

lemma vol2_length: "length (x_part vol2_fs) = 8192"
  using vol_length vol2_inodes by (simp add: vol2_fs_def)

lemma vol2_fields: "x_blockSize vol2_fs = 1024" "x_sb vol2_fs = vol_sb" "x_bgd vol2_fs = [vol_bgd]"
  "sb_log_block_size vol_sb = 0" "sb_inodes_per_group vol_sb = 8" "sb_inode_size vol_sb = 128" "bg_inode_table vol_bgd = 5"
proof -
  show "sb_log_block_size vol_sb = 0" by (simp add: vol_sb_def decode_sb_def)
qed (simp_all add: vol2_fs_def vol_fs_def vol_sb_def vol_bgd_def)

lemma vol2_addr: "inode_addr vol2_fs 1 = Inr 5120" "inode_addr vol2_fs 2 = Inr 5248"
  by (simp_all add: inode_addr_def inode_group_def inode_index_def get_bgd_def vol2_fields)

lemma vol2_read:
  "readData ram_ops vol2_fs \<lparr>in_no = 1, in_data = x\<rparr> = Inr \<lparr>in_no = 1, in_data = file_inode\<rparr>"
  "readData ram_ops vol2_fs \<lparr>in_no = 2, in_data = x\<rparr> = Inr \<lparr>in_no = 2, in_data = empty_inode\<rparr>"
proof -
  have "take 128 (drop 5120 (x_part vol2_fs)) = encode_inode file_inode"
    using overwrite_same[of 5120 "encode_inode file_inode"] vol2_inodes vol_length by (simp add: vol2_fs_def)
  moreover have "take 128 (drop 5248 (x_part vol2_fs)) = encode_inode empty_inode"
    using overwrite_same[of 5248 "encode_inode empty_inode"] vol2_inodes vol_length by (simp add: vol2_fs_def overwrite_other)
  ultimately show "readData ram_ops vol2_fs \<lparr>in_no = 1, in_data = x\<rparr> = Inr \<lparr>in_no = 1, in_data = file_inode\<rparr>"
    "readData ram_ops vol2_fs \<lparr>in_no = 2, in_data = x\<rparr> = Inr \<lparr>in_no = 2, in_data = empty_inode\<rparr>"
    using ram.read_ok[of "x_part vol2_fs" 128] vol2_length vol2_inodes
    by (simp_all add: readData_def getInodeData_def vol2_addr decode_encode_inode)
qed

text \<open>A zero block is, read as an indirect block, a tree of zero blocks.\<close>

lemma blk_in_zero:
  assumes "blk c bs 0 = replicate bs 0" "bs < length c"
  shows "blk_in c bs l 0"
proof (induction l)
  case 0
  then show ?case using assms(2) by simp
next
  case (Suc l)
  with Suc assms show ?case by simp
qed

lemma vol2_block0: "take 1024 (x_part vol2_fs) = replicate 1024 0"
proof -
  have "take 1024 (x_part vol2_fs) = take 1024 (drop 0 (replicate 8192 (0::u8)))"
    unfolding vol2_fs_def vol_fs_def using vol_wf vol2_inodes by (simp add: overwrite_def take_take)
  then show ?thesis by simp
qed

lemma file_in_zero:
  assumes "take bs c = replicate bs 0" "bs < length c" "unat (id_block d ! 0) * bs + bs < length c"
    "\<And>j. 0 < j \<Longrightarrow> j < 15 \<Longrightarrow> id_block d ! j = 0"
  shows "file_in c bs d"
proof -
  have z: "blk_in c bs l 0" for l by (rule blk_in_zero) (use assms(1,2) in \<open>simp_all add: blk_def\<close>)
  have "blk_in c bs 0 (id_block d ! j)" if "j < 12" for j
    using that z[of 0] assms(3,4) by (cases "j = 0") simp_all
  moreover have "blk_in c bs (k + 1) (id_block d ! (12 + k))" if "k < 3" for k
    using that z[of "k + 1"] assms(4)[of "12 + k"] by simp
  ultimately show ?thesis by (simp add: file_in_def)
qed

lemma nth_rep0: "0 < j \<Longrightarrow> j < 15 \<Longrightarrow> (x # replicate 14 (0::u32)) ! j = 0"
  by (cases j) simp_all

lemma vol2_file_in: "file_in (x_part vol2_fs) 1024 file_inode"
  by (rule file_in_zero) (use vol2_block0 vol2_length nth_rep0 in \<open>simp_all add: file_inode_def\<close>)

lemma vol2_direct: "direct_ok (x_part vol2_fs) vol2_fs file_inode 1"
  using vol2_length by (simp add: direct_ok_def vol2_fields getBlockCount_def shl32_def Let_def)
    (simp add: file_inode_def)




theorem i_resize_grow_exposes_block0_witness:
  "\<exists>i2 fs2. i_resize ram_ops 1000 (\<lparr>in_no = 2, in_data = zero_inode\<rparr>, vol2_fs) = Inr (i2, fs2) \<and> id_blocks (in_data i2) = 0 \<and>
     i_readaddr ram_ops fs2 0 1000 i2 = Inr (i2, take 1000 (x_part vol2_fs))"
proof -
  let ?c = "overwrite 5248 (encode_inode (id_setSize 1000 empty_inode)) (x_part vol2_fs)"
  have wf: "length (encode_inode (id_setSize 1000 empty_inode)) = 128"
    by (rule encode_inode_length) (use vol2_inodes(2) in \<open>simp add: wf_inode_def id_setSize_def\<close>)
  have e: "id_size empty_inode = 0" "id_block empty_inode = replicate 15 0" "id_blocks empty_inode = 0"
    by (simp_all add: empty_inode_def zero_inode_def decode_inode_def)
  have fi: "file_in ?c 1024 empty_inode"
  proof (rule file_in_zero)
    show "take 1024 ?c = replicate 1024 0" using vol2_block0 vol2_length by (simp add: overwrite_def take_take)
  qed (use wf vol2_length nth_rep0 e in simp_all)
  have s: "id_getSize (id_setSize 1000 empty_inode) = 1000"
    by (simp add: id_getSize_def id_setSize_def)
  show ?thesis
    using i_resize_grow_exposes_block0[where sz = 1000 and a = 5248, OF ram.byte_store_axioms _ vol2_read(2)[of zero_inode]] vol2_length vol2_inodes(2) e fi s
    by (simp add: vol2_fields vol2_addr) blast
qed

end
