(* ===== verification/Ext2Dir.thy ===== *)
theory Ext2Dir
  imports Ext2File
begin

text \<open>
  Directories of the Ext2 file system (\<open>class Directory\<close> of \<open>src/src/HDD/Ext2.cpp\<close>): a
  directory's data is a sequence of records linked by their lengths, which come from the disk.
  The loops over it end only if the lengths do not keep the position in place, so the
  operations that contain them return \<open>None\<close> when they never return.
\<close>

section \<open>Operations that may not return\<close>

abbreviation lift_res :: "'a res \<Rightarrow> ('a \<Rightarrow> 'b res option) \<Rightarrow> 'b res option" where
  "lift_res r f \<equiv> (case r of Inl e \<Rightarrow> Some (Inl e) | Inr x \<Rightarrow> f x)"

abbreviation obnd :: "'a res option \<Rightarrow> ('a \<Rightarrow> 'b res option) \<Rightarrow> 'b res option" where
  "obnd m f \<equiv> Option.bind m (\<lambda>r. lift_res r f)"

section \<open>Directory entries\<close>

record DirectoryEntry =
  de_inode :: u32
  de_rec_len :: u16
  de_name_len :: u8
  de_type :: u8

definition decode_entry :: "bytes \<Rightarrow> DirectoryEntry" where
  "decode_entry b = \<lparr>de_inode = ld32 0 b, de_rec_len = ld16 4 b, de_name_len = ld8 6 b, de_type = ld8 7 b\<rparr>"

definition encode_entry :: "DirectoryEntry \<Rightarrow> bytes" where
  "encode_entry e = le32 (de_inode e) @ le16 (de_rec_len e) @ [de_name_len e, de_type e]"

datatype DirectoryFileType = FT_UNKNOWN | FT_REG_FILE | FT_DIR | FT_CHRDEV | FT_BLKDEV | FT_FIFO | FT_SOCK | FT_SYMLINK

fun ft_code :: "DirectoryFileType \<Rightarrow> u8" where
  "ft_code FT_UNKNOWN = 0"
| "ft_code FT_REG_FILE = 1"
| "ft_code FT_DIR = 2"
| "ft_code FT_CHRDEV = 3"
| "ft_code FT_BLKDEV = 4"
| "ft_code FT_FIFO = 5"
| "ft_code FT_SOCK = 6"
| "ft_code FT_SYMLINK = 7"

definition inodeToDirType :: "u16 \<Rightarrow> DirectoryFileType" where
  "inodeToDirType mode =
    (if S_ISREG mode then FT_REG_FILE
     else if S_ISDIR mode then FT_DIR
     else if S_IS 0x2000 mode then FT_CHRDEV
     else if S_IS 0x6000 mode then FT_BLKDEV
     else if S_IS 0x1000 mode then FT_FIFO
     else if S_IS 0xA000 mode then FT_SOCK
     else if S_IS 0xC000 mode then FT_SYMLINK
     else FT_UNKNOWN)"

text \<open>A C string in a buffer, and \<open>..\<close> and \<open>.\<close>.\<close>

definition c_str :: "bytes \<Rightarrow> bytes" where
  "c_str b = takeWhile (\<lambda>x. x \<noteq> 0) b"

definition dotdot :: bytes where "dotdot = [0x2E, 0x2E]"

section \<open>Iteration\<close>

text \<open>The iterator holds the last entry read and the name and inode given to the caller.\<close>

record DirIterator =
  it_entry :: DirectoryEntry
  it_pos :: u32
  it_name :: bytes
  it_ino :: u32

definition dir_open :: DirIterator where
  "dir_open = \<lparr>it_entry = decode_entry [], it_pos = 0, it_name = [], it_ino = 0\<rparr>"

definition dir_tell :: "DirIterator \<Rightarrow> u64" where
  "dir_tell it = ucast (it_pos it)"

definition dir_seek :: "u64 \<Rightarrow> DirIterator \<Rightarrow> DirIterator" where
  "dir_seek loc it = it\<lparr>it_pos := ucast loc\<rparr>"

definition dir_size :: "inode \<Rightarrow> u32" where
  "dir_size i = id_blocks (in_data i) * 512"

text \<open>\<open>read\<close> returns the inode object (whose data \<open>i_readaddr\<close> reloads), the iterator, and whether
  there was an entry.\<close>

partial_function (option) dir_read :: "'p bytes_ops \<Rightarrow> 'p ext2 \<Rightarrow> inode \<Rightarrow> DirIterator \<Rightarrow> (inode \<times> DirIterator \<times> bool) res option" where
  "dir_read D fs i it =
    (if dir_size i \<le> it_pos it then Some (Inr (i, it, False))
     else lift_res (i_readaddr D fs (ucast (it_pos it)) 8 i) (\<lambda>r1.
       lift_res (i_readaddr D fs (ucast (it_pos it) + 8) (ucast (de_name_len (decode_entry (snd r1)))) (fst r1)) (\<lambda>r2.
       let e = decode_entry (snd r1);
           it' = it\<lparr>it_entry := e, it_pos := it_pos it + ucast (de_rec_len e), it_name := snd r2\<rparr> in
       if de_inode e = 0 then dir_read D fs (fst r2) it'
       else Some (Inr (fst r2, it'\<lparr>it_name := c_str (snd r2), it_ino := de_inode e\<rparr>, True)))))"

text \<open>\<open>operator[]\<close>: the loop that remembers the inode of the last entry with the name.\<close>

partial_function (option) find_loop ::
    "'p bytes_ops \<Rightarrow> 'p ext2 \<Rightarrow> bytes \<Rightarrow> inode \<Rightarrow> DirIterator \<Rightarrow> u32 \<Rightarrow> (inode \<times> u32) res option" where
  "find_loop D fs name i it ino = obnd (dir_read D fs i it) (\<lambda>r. case r of (i, it, found) \<Rightarrow>
     if found then find_loop D fs name i it (if it_name it = name then it_ino it else ino)
     else Some (Inr (i, ino)))"

datatype fileObj = Regular inode | Direct inode

definition dir_get :: "'p bytes_ops \<Rightarrow> 'p ext2 \<Rightarrow> bytes \<Rightarrow> inode \<Rightarrow> (inode \<times> fileObj option) res option" where
  "dir_get D fs name i = obnd (find_loop D fs name i dir_open 0) (\<lambda>(i, ino).
     if ino = 0 then Some (Inr (i, None))
     else lift_res (getInodeData D ino fs) (\<lambda>d.
       let f = \<lparr>in_no = ino, in_data = d\<rparr> in
       Some (Inr (i, if S_ISDIR (id_mode d) then Some (Direct f)
         else if S_ISREG (id_mode d) then Some (Regular f) else None))))"

section \<open>Adding entries\<close>

definition entry_curSize :: "DirectoryEntry \<Rightarrow> u32" where
  "entry_curSize e = ((8 + ucast (de_name_len e) + 4 - 1) div 4) * 4"

text \<open>The position for a new record of \<open>needed\<close> bytes after the entry at \<open>curPos\<close>, if it fits.\<close>

definition place :: "u64 \<Rightarrow> u32 \<Rightarrow> u32 \<Rightarrow> u32 \<Rightarrow> bool \<Rightarrow> DirectoryEntry \<Rightarrow> u32 option" where
  "place bs needed curPos nextPos atEnd e =
    (let curSize = entry_curSize e; available = ucast (de_rec_len e) - curSize in
     if atEnd \<or> needed < available then
       if ucast (curPos + curSize) div bs = ucast (curPos + curSize + needed) div bs then Some (curPos + curSize)
       else let t = alignup32 (curPos + curSize) bs in
         if atEnd \<or> t + needed < nextPos then Some t else None
     else None)"

definition new_rec_len :: "u64 \<Rightarrow> u32 \<Rightarrow> u32 \<Rightarrow> u32 \<Rightarrow> bool \<Rightarrow> u16" where
  "new_rec_len bs target needed nextPos atEnd =
    (if atEnd then ucast (alignup32 (target + needed) bs - target) else ucast (nextPos - target))"

text \<open>Writing the new record and shortening the one before it.\<close>

definition write_record :: "'p bytes_ops \<Rightarrow> bytes \<Rightarrow> u32 \<Rightarrow> u32 \<Rightarrow> u32 \<Rightarrow> u32 \<Rightarrow> bool \<Rightarrow> DirectoryEntry \<Rightarrow>
    inode \<times> 'p ext2 \<Rightarrow> (inode \<times> 'p ext2) res" where
  "write_record D name ino curPos nextPos target atEnd e s =
    (let needed = 8 + of_nat (length name); rl = new_rec_len (x_blockSize (snd s)) target needed nextPos atEnd in
     bnd (getInodeData D ino (snd s)) (\<lambda>dat.
     let new = \<lparr>de_inode = ino, de_rec_len = rl, de_name_len = of_nat (length name),
                de_type = ft_code (inodeToDirType (id_mode dat))\<rparr> in
     bnd (i_writeaddr D (ucast target) (encode_entry new) s) (\<lambda>s.
     bnd (i_writeaddr D (ucast target + 8) (if target + needed < ucast rl then name @ [0] else name) s) (\<lambda>s.
     i_writeaddr D (ucast curPos) (encode_entry (e\<lparr>de_rec_len := ucast (target - curPos)\<rparr>)) s))))"

partial_function (option) add_loop :: "'p bytes_ops \<Rightarrow> bytes \<Rightarrow> u32 \<Rightarrow> u32 \<Rightarrow> inode \<times> 'p ext2 \<Rightarrow> (inode \<times> 'p ext2) res option" where
  "add_loop D name ino nextPos s =
    (if dir_size (fst s) \<le> nextPos then Some (Inl Bsod)
     else lift_res (i_readaddr D (snd s) (ucast nextPos) 8 (fst s)) (\<lambda>r.
       let i = fst r; e = decode_entry (snd r); nextPos' = nextPos + ucast (de_rec_len e);
           atEnd = dir_size i \<le> nextPos' in
       case place (x_blockSize (snd s)) (8 + of_nat (length name)) nextPos nextPos' atEnd e of
         Some target \<Rightarrow> Some (write_record D name ino nextPos nextPos' target atEnd e (i, snd s))
       | None \<Rightarrow> add_loop D name ino nextPos' (i, snd s)))"

text \<open>
  \<open>addEntry(name, file)\<close> for \<open>..\<close> first: for every other name of a directory, it is called on
  that directory. The directory, the file's inode object and the file system are threaded.
\<close>

definition add_dotdot :: "'p bytes_ops \<Rightarrow> inode \<times> inode \<times> 'p ext2 \<Rightarrow> (inode \<times> inode \<times> 'p ext2) res option" where
  "add_dotdot D s = (case s of (f, this, fs) \<Rightarrow>
     lift_res (link D (this, fs)) (\<lambda>(this, fs).
     lift_res (readData D fs this) (\<lambda>this.
     obnd (add_loop D dotdot (in_no this) 0 (f, fs)) (\<lambda>(f, fs). Some (Inr (f, this, fs))))))"

definition addEntry :: "'p bytes_ops \<Rightarrow> bytes \<Rightarrow> fileObj \<Rightarrow> inode \<times> 'p ext2 \<Rightarrow> (inode \<times> fileObj \<times> 'p ext2) res option" where
  "addEntry D name file s = (case s of (this, fs) \<Rightarrow>
    (case file of
       Regular f \<Rightarrow>
         lift_res (link D (f, fs)) (\<lambda>(f, fs).
         lift_res (readData D fs f) (\<lambda>f.
         obnd (add_loop D name (in_no f) 0 (this, fs)) (\<lambda>(this, fs). Some (Inr (this, Regular f, fs)))))
     | Direct f \<Rightarrow>
         obnd (if name \<noteq> dotdot then add_dotdot D (f, this, fs) else Some (Inr (f, this, fs))) (\<lambda>(f, this, fs).
         lift_res (link D (f, fs)) (\<lambda>(f, fs).
         lift_res (readData D fs f) (\<lambda>f.
         obnd (add_loop D name (in_no f) 0 (this, fs)) (\<lambda>(this, fs). Some (Inr (this, Direct f, fs))))))))"

text \<open>\<open>Directory::init\<close> and \<open>FS::getNewDirectory\<close>.\<close>

definition dir_init :: "'p bytes_ops \<Rightarrow> inode \<times> 'p ext2 \<Rightarrow> (inode \<times> 'p ext2) res" where
  "dir_init D s =
    (let e = \<lparr>de_inode = in_no (fst s), de_rec_len = ucast (x_blockSize (snd s)), de_name_len = 1, de_type = ft_code FT_DIR\<rparr> in
     bnd (i_resize D (x_blockSize (snd s)) s) (\<lambda>s.
     bnd (i_writeaddr D 0 (encode_entry e) s) (\<lambda>s.
     bnd (i_writeaddr D 8 [0x2E, 0] s) (\<lambda>s. link D s))))"

definition getNewDirectory :: "'p bytes_ops \<Rightarrow> u16 \<Rightarrow> u16 \<Rightarrow> u16 \<Rightarrow> 'p ext2 \<Rightarrow> (inode \<times> 'p ext2) res" where
  "getNewDirectory D uid gid mode fs = assertk (S_ISDIR mode)
    (bnd (getNewInode D True fs) (\<lambda>(fs, n).
     bnd (writeBlockGroupDescriptor D fs) (\<lambda>fs.
     bnd (new_inode D n uid gid mode fs) (dir_init D))))"

definition getRoot :: "'p bytes_ops \<Rightarrow> 'p ext2 \<Rightarrow> fileObj res" where
  "getRoot D fs = bnd (getInodeData D 2 fs) (\<lambda>d. Inr (Direct \<lparr>in_no = 2, in_data = d\<rparr>))"

text \<open>\<open>addEntry(name, uid, gid, mode)\<close>.\<close>

definition createEntry :: "'p bytes_ops \<Rightarrow> bytes \<Rightarrow> u16 \<Rightarrow> u16 \<Rightarrow> u16 \<Rightarrow> inode \<times> 'p ext2 \<Rightarrow> (inode \<times> fileObj \<times> 'p ext2) res option" where
  "createEntry D name uid gid mode s =
    (if S_ISREG mode then lift_res (getNewFile D uid gid mode (snd s)) (\<lambda>(f, fs). addEntry D name (Regular f) (fst s, fs))
     else if S_ISDIR mode then lift_res (getNewDirectory D uid gid mode (snd s)) (\<lambda>(f, fs). addEntry D name (Direct f) (fst s, fs))
     else Some (Inl Bsod))"

section \<open>Removing entries\<close>

text \<open>The search of \<open>removeEntry\<close>: the positions of the entry and of the one before it.\<close>

partial_function (option) remove_find ::
    "'p bytes_ops \<Rightarrow> 'p ext2 \<Rightarrow> bytes \<Rightarrow> inode \<Rightarrow> DirIterator \<Rightarrow> u32 \<Rightarrow> (inode \<times> u32 \<times> u32 \<times> DirIterator) res option" where
  "remove_find D fs name i it lastPos = obnd (dir_read D fs i it) (\<lambda>r. case r of (i, it', found) \<Rightarrow>
     if \<not> found then Some (Inl Bsod)
     else if it_name it' = name then Some (Inr (i, lastPos, it_pos it, it'))
     else remove_find D fs name i it' (it_pos it))"

definition remove_record :: "'p bytes_ops \<Rightarrow> u32 \<Rightarrow> u32 \<Rightarrow> u16 \<Rightarrow> inode \<times> 'p ext2 \<Rightarrow> (inode \<times> 'p ext2) res" where
  "remove_record D lastPos curPos rec_len s =
    bnd (i_readaddr D (snd s) (ucast lastPos) 8 (fst s)) (\<lambda>(i, b).
    let e = decode_entry b in
    i_writeaddr D (ucast lastPos) (encode_entry (e\<lparr>de_rec_len := de_rec_len e + rec_len\<rparr>)) (i, snd s))"

text \<open>
  The first record of a directory is only cleared: the fields of the local \<open>entry\<close> that the
  code does not set (\<open>rec_len\<close>) are whatever the stack holds, an argument \<open>junk\<close> here.
\<close>

definition cleared_entry :: "u16 \<Rightarrow> DirectoryEntry" where
  "cleared_entry junk = \<lparr>de_inode = 0, de_rec_len = junk, de_name_len = 0, de_type = ft_code FT_UNKNOWN\<rparr>"

definition remove_first :: "'p bytes_ops \<Rightarrow> u16 \<Rightarrow> inode \<times> 'p ext2 \<Rightarrow> (inode \<times> 'p ext2) res" where
  "remove_first D junk s =
    i_writeaddr D 0 (encode_entry (cleared_entry junk)) s"

definition remove_body :: "'p bytes_ops \<Rightarrow> u16 \<Rightarrow> (inode \<times> 'p ext2 \<Rightarrow> (inode \<times> 'p ext2) res option) \<Rightarrow>
    bytes \<Rightarrow> inode \<times> 'p ext2 \<Rightarrow> (inode \<times> 'p ext2) res option" where
  "remove_body D junk sub name s =
    obnd (remove_find D (snd s) name (fst s) dir_open 0) (\<lambda>(i, lastPos, curPos, it).
    let ino = de_inode (it_entry it) in
    lift_res (getInodeData D ino (snd s)) (\<lambda>dat.
    lift_res (unlink D (\<lparr>in_no = ino, in_data = dat\<rparr>, snd s)) (\<lambda>(_, fs).
    obnd (if de_type (it_entry it) = ft_code FT_DIR \<and> name \<noteq> dotdot
          then sub (\<lparr>in_no = ino, in_data = dat\<rparr>, fs) else Some (Inr (\<lparr>in_no = ino, in_data = dat\<rparr>, fs))) (\<lambda>(_, fs).
    Some (if curPos = 0 then remove_first D junk (i, fs)
          else remove_record D lastPos curPos (de_rec_len (it_entry it)) (i, fs))))))"

text \<open>\<open>removeEntry("..")\<close> never descends.\<close>

definition remove_dotdot :: "'p bytes_ops \<Rightarrow> u16 \<Rightarrow> inode \<times> 'p ext2 \<Rightarrow> (inode \<times> 'p ext2) res option" where
  "remove_dotdot D junk = remove_body D junk (\<lambda>s. Some (Inr s)) dotdot"

definition removeEntry :: "'p bytes_ops \<Rightarrow> u16 \<Rightarrow> bytes \<Rightarrow> inode \<times> 'p ext2 \<Rightarrow> (inode \<times> 'p ext2) res option" where
  "removeEntry D junk name = remove_body D junk (remove_dotdot D junk) name"

partial_function (option) delete_loop :: "'p bytes_ops \<Rightarrow> inode \<Rightarrow> DirIterator \<Rightarrow> 'p ext2 \<Rightarrow> (inode \<times> 'p ext2) res option" where
  "delete_loop D i it fs = obnd (dir_read D fs i it) (\<lambda>r. case r of (i, it, found) \<Rightarrow>
     if \<not> found then Some (Inr (i, fs))
     else if it_ino it = in_no i then lift_res (unlink D (i, fs)) (\<lambda>r. delete_loop D (fst r) it (snd r))
     else lift_res (getInodeData D (it_ino it) fs) (\<lambda>dat.
       lift_res (unlink D (\<lparr>in_no = it_ino it, in_data = dat\<rparr>, fs)) (\<lambda>r. delete_loop D i it (snd r))))"

definition deleteDir :: "'p bytes_ops \<Rightarrow> inode \<times> 'p ext2 \<Rightarrow> (inode \<times> 'p ext2) res option" where
  "deleteDir D s = delete_loop D (fst s) dir_open (snd s)"

definition removeDirectory :: "'p bytes_ops \<Rightarrow> u16 \<Rightarrow> bytes \<Rightarrow> inode \<times> 'p ext2 \<Rightarrow> (inode \<times> 'p ext2) res option" where
  "removeDirectory D junk name s =
    obnd (dir_get D (snd s) name (fst s)) (\<lambda>(i, f).
      case f of Some (Direct d) \<Rightarrow>
        obnd (removeEntry D junk name (i, snd s)) (\<lambda>(i, fs).
        obnd (deleteDir D (d, fs)) (\<lambda>(d, fs). Some (Inr (i, fs))))
      | _ \<Rightarrow> Some (Inl Assertion))"

section \<open>The records of a directory\<close>

text \<open>
  \<open>dir_from fb n p es\<close>: from position \<open>p\<close> on, the first \<open>n\<close> bytes of a directory with content
  \<open>fb\<close> are the records \<open>es\<close> (deleted ones included), each with its name field.
\<close>

definition entry_at :: "bytes \<Rightarrow> nat \<Rightarrow> DirectoryEntry" where
  "entry_at fb p = decode_entry (take 8 (drop p fb))"

definition name_at :: "bytes \<Rightarrow> nat \<Rightarrow> bytes" where
  "name_at fb p = take (unat (de_name_len (entry_at fb p))) (drop (p + 8) fb)"

inductive dir_from :: "bytes \<Rightarrow> nat \<Rightarrow> nat \<Rightarrow> (DirectoryEntry \<times> bytes) list \<Rightarrow> bool" where
  end_of_dir: "n \<le> p \<Longrightarrow> dir_from fb n p []"
| record_at: "p < n \<Longrightarrow> 0 < unat (de_rec_len (entry_at fb p)) \<Longrightarrow> p + unat (de_rec_len (entry_at fb p)) < 2 ^ 32 \<Longrightarrow>
    dir_from fb n (p + unat (de_rec_len (entry_at fb p))) es \<Longrightarrow>
    dir_from fb n p ((entry_at fb p, name_at fb p) # es)"

inductive_cases dir_from_NilE: "dir_from fb n p []"
inductive_cases dir_from_ConsE: "dir_from fb n p (x # es)"

text \<open>The inode of the last record in use with a name, zero if there is none.\<close>

fun last_ino :: "bytes \<Rightarrow> (DirectoryEntry \<times> bytes) list \<Rightarrow> u32 \<Rightarrow> u32" where
  "last_ino name [] acc = acc"
| "last_ino name ((e, nm) # es) acc =
    last_ino name es (if de_inode e \<noteq> 0 \<and> c_str nm = name then de_inode e else acc)"

definition reads_as :: "'p bytes_ops \<Rightarrow> 'p ext2 \<Rightarrow> inode \<Rightarrow> bytes \<Rightarrow> bool" where
  "reads_as D fs i fb \<longleftrightarrow> (\<forall>a n. i_readaddr D fs a n i = Inr (i, take (unat n) (drop (unat a) fb)))"

lemma read_record:
  assumes "reads_as D fs i fb"
  shows "i_readaddr D fs (ucast p) 8 i = Inr (i, take 8 (drop (unat p) fb))"
    "i_readaddr D fs (ucast (p :: u32) + 8) (ucast (de_name_len (entry_at fb (unat p)))) i = Inr (i, name_at fb (unat p))"
proof -
  have "unat (ucast p + 8 :: u64) = unat p + 8"
    using unat_lt32[of p] by (subst unat_add_lem[THEN iffD1]) simp_all
  moreover have "unat (ucast (x :: u8) :: u64) = unat x" for x
    using unat_lt8[of x] by (simp add: unsigned_ucast_eq take_bit_nat_eq_self)
  ultimately show "i_readaddr D fs (ucast p) 8 i = Inr (i, take 8 (drop (unat p) fb))"
    "i_readaddr D fs (ucast p + 8) (ucast (de_name_len (entry_at fb (unat p)))) i = Inr (i, name_at fb (unat p))"
    using assms by (simp_all add: reads_as_def name_at_def)
qed

lemma dir_read_step:
  assumes "reads_as D fs i fb" "unat (it_pos it) < unat (dir_size i)"
  shows "dir_read D fs i it = (let e = entry_at fb (unat (it_pos it)); nm = name_at fb (unat (it_pos it));
      it' = it\<lparr>it_entry := e, it_pos := it_pos it + ucast (de_rec_len e), it_name := nm\<rparr> in
    if de_inode e = 0 then dir_read D fs i it'
    else Some (Inr (i, it'\<lparr>it_name := c_str nm, it_ino := de_inode e\<rparr>, True)))"
proof -
  have "\<not> dir_size i \<le> it_pos it" using assms(2) by (simp add: word_le_nat_alt)
  then show ?thesis
    using read_record[OF assms(1), of "it_pos it"]
    by (subst dir_read.simps) (simp add: Let_def entry_at_def[symmetric])
qed

lemma pos_step:
  assumes "unat p + unat (r :: u16) < 2 ^ 32"
  shows "unat (p + ucast r :: u32) = unat p + unat r"
proof -
  have "unat (ucast r :: u32) = unat r" using unat_lt16[of r] by (simp add: unsigned_ucast_eq take_bit_nat_eq_self)
  then show ?thesis using assms by (subst unat_add_lem[THEN iffD1]) simp_all
qed

text \<open>\<open>read\<close> skips the deleted records and returns the next one, or the end.\<close>

lemma dir_read_next:
  assumes "reads_as D fs i fb" "dir_from fb (unat (dir_size i)) (unat (it_pos it)) es"
  shows "case dropWhile (\<lambda>x. de_inode (fst x) = 0) es of
      [] \<Rightarrow> \<exists>it'. dir_read D fs i it = Some (Inr (i, it', False))
    | (e, nm) # es' \<Rightarrow> \<exists>it'. dir_read D fs i it = Some (Inr (i, it', True)) \<and> it_ino it' = de_inode e \<and>
        it_name it' = c_str nm \<and> it_entry it' = e \<and> dir_from fb (unat (dir_size i)) (unat (it_pos it')) es'"
  using assms(2)
proof (induction es arbitrary: it rule: list.induct)
  case Nil
  from Nil have "dir_size i \<le> it_pos it" by (auto elim: dir_from_NilE simp: word_le_nat_alt)
  then show ?case by (subst dir_read.simps) simp
next
  case (Cons x es)
  let ?p = "unat (it_pos it)" and ?e = "entry_at fb (unat (it_pos it))"
  from Cons.prems have h: "x = (?e, name_at fb ?p)" "?p < unat (dir_size i)" "?p + unat (de_rec_len ?e) < 2 ^ 32"
    "dir_from fb (unat (dir_size i)) (?p + unat (de_rec_len ?e)) es"
    by (auto elim: dir_from_ConsE)
  note st = dir_read_step[OF assms(1) h(2)]
  note ps = pos_step[OF h(3)]
  show ?case
  proof (cases "de_inode ?e = 0")
    case True
    let ?it = "it\<lparr>it_entry := ?e, it_pos := it_pos it + ucast (de_rec_len ?e), it_name := name_at fb ?p\<rparr>"
    have eq: "dir_read D fs i it = dir_read D fs i ?it" using st True by (simp add: Let_def)
    have df: "dir_from fb (unat (dir_size i)) (unat (it_pos ?it)) es" using h(4) ps by simp
    have dw: "dropWhile (\<lambda>x. de_inode (fst x) = 0) (x # es) = dropWhile (\<lambda>x. de_inode (fst x) = 0) es"
      using True h(1) by simp
    show ?thesis unfolding eq dw by (rule Cons.IH[OF df])
  next
    case False
    with st h ps show ?thesis by (simp add: Let_def)
  qed
qed

lemma last_ino_dropWhile: "last_ino name (dropWhile (\<lambda>x. de_inode (fst x) = 0) es) acc = last_ino name es acc"
  by (induction es) auto

lemma find_loop_finds:
  assumes "reads_as D fs i fb" "dir_from fb (unat (dir_size i)) (unat (it_pos it)) es"
  shows "find_loop D fs name i it acc = Some (Inr (i, last_ino name es acc))"
  using assms(2)
proof (induction "length es" arbitrary: it es acc rule: less_induct)
  case less
  note nx = dir_read_next[OF assms(1) less.prems]
  let ?r = "dropWhile (\<lambda>x. de_inode (fst x) = 0) es"
  have l: "last_ino name es acc = last_ino name ?r acc" by (rule last_ino_dropWhile[symmetric])
  show ?case
  proof (cases ?r)
    case Nil
    with nx obtain it' where "dir_read D fs i it = Some (Inr (i, it', False))" by auto
    then show ?thesis by (subst find_loop.simps) (simp add: l Nil)
  next
    case (Cons x es')
    obtain e nm where x: "x = (e, nm)" by (cases x)
    from nx Cons x obtain it' where it': "dir_read D fs i it = Some (Inr (i, it', True))" "it_ino it' = de_inode e"
      "it_name it' = c_str nm" "dir_from fb (unat (dir_size i)) (unat (it_pos it')) es'" by auto
    have "de_inode e \<noteq> 0" using Cons x hd_dropWhile[of "\<lambda>x. de_inode (fst x) = 0" es] by auto
    moreover have "length es' < length es"
      using Cons length_dropWhile_le[of "\<lambda>x. de_inode (fst x) = 0" es] by simp
    ultimately show ?thesis
      using less.hyps[OF _ it'(4)] it'(1-3) by (subst find_loop.simps) (simp add: l Cons x)
  qed
qed

text \<open>A deleted record of length zero keeps the iteration in place for ever.\<close>

lemma dir_read_stuck:
  assumes "reads_as D fs i fb" "unat (it_pos it) < unat (dir_size i)"
    and "de_inode (entry_at fb (unat (it_pos it))) = 0" "de_rec_len (entry_at fb (unat (it_pos it))) = 0"
  shows "dir_read D fs i it = None"
proof (rule ccontr)
  let ?stuck = "\<lambda>D fs i it. reads_as D fs i fb \<and> unat (it_pos it) < unat (dir_size i) \<and>
     de_inode (entry_at fb (unat (it_pos it))) = 0 \<and> de_rec_len (entry_at fb (unat (it_pos it))) = 0"
  assume "dir_read D fs i it \<noteq> None"
  then obtain y where "dir_read D fs i it = Some y" by auto
  then have "\<not> ?stuck D fs i it"
  proof (rule dir_read.raw_induct[rotated])
    fix f D fs i it y
    assume ih: "\<And>(D :: 'a bytes_ops) fs i it y. f D fs i it = Some y \<Longrightarrow> \<not> ?stuck D fs i it"
      and body: "(if dir_size i \<le> it_pos it then Some (Inr (i, it, False))
       else lift_res (i_readaddr D fs (ucast (it_pos it)) 8 i) (\<lambda>r1.
         lift_res (i_readaddr D fs (ucast (it_pos it) + 8) (ucast (de_name_len (decode_entry (snd r1)))) (fst r1)) (\<lambda>r2.
         let e = decode_entry (snd r1);
             it' = it\<lparr>it_entry := e, it_pos := it_pos it + ucast (de_rec_len e), it_name := snd r2\<rparr> in
         if de_inode e = 0 then f D fs (fst r2) it'
         else Some (Inr (fst r2, it'\<lparr>it_name := c_str (snd r2), it_ino := de_inode e\<rparr>, True))))) = Some y"
    show "\<not> ?stuck D fs i it"
    proof
      assume st: "?stuck D fs i it"
      then have ns: "\<not> dir_size i \<le> it_pos it" by (simp add: word_le_nat_alt)
      from st have rd: "reads_as D fs i fb" by blast
      let ?it = "it\<lparr>it_entry := entry_at fb (unat (it_pos it)), it_pos := it_pos it, it_name := name_at fb (unat (it_pos it))\<rparr>"
      have "f D fs i ?it = Some y"
        using body ns st read_record[OF rd, of "it_pos it"] by (simp add: Let_def entry_at_def[symmetric])
      from ih[OF this] st show False by simp
    qed
  qed
  then show False using assms by blast
qed

lemma decode_encode_entry: "decode_entry (encode_entry e @ rest) = e"
proof -
  have l1: "ld8 0 (x # ys) = x" for x :: u8 and ys
    by (simp add: ld8_def le_word_def)
  have l8: "ld8 a (xs @ ys) = ld8 (a - length xs) ys" if "length xs \<le> a" for a xs ys
    using that by (simp add: ld8_def)
  have l81: "ld8 (Suc 0) (x # y # ys) = y" for x y :: u8 and ys
    by (simp add: ld8_def le_word_def)
  show ?thesis
    by (cases e) (simp add: decode_entry_def encode_entry_def ld_skip l8 l1 l81)
qed

lemma length_encode_entry [simp]: "length (encode_entry e) = 8"
  by (simp add: encode_entry_def)

lemma reads_as_file:
  assumes "byte_store D ok content" "ok (x_part fs)" "length (content (x_part fs)) < 2 ^ 64"
    and "0 < x_blockSize fs" "x_blockSize fs \<le> 2 ^ 16" "readData D fs i = Inr i"
    and "file_in (content (x_part fs)) (unat (x_blockSize fs)) (in_data i)"
  shows "reads_as D fs i (file_bytes (content (x_part fs)) (unat (x_blockSize fs)) (in_data i))"
  unfolding reads_as_def using byte_store.i_readaddr_file[OF assms] by blast

text \<open>C36. Looking a name up in a directory whose record lengths are positive returns: the file of
  the last record in use with that name, or nothing when there is none.\<close>

theorem dir_get_finds:
  assumes "reads_as D fs i fb" "dir_from fb (unat (dir_size i)) 0 es"
  shows "dir_get D fs name i =
    (if last_ino name es 0 = 0 then Some (Inr (i, None))
     else lift_res (getInodeData D (last_ino name es 0) fs) (\<lambda>d.
       Some (Inr (i, if S_ISDIR (id_mode d) then Some (Direct \<lparr>in_no = last_ino name es 0, in_data = d\<rparr>)
         else if S_ISREG (id_mode d) then Some (Regular \<lparr>in_no = last_ino name es 0, in_data = d\<rparr>) else None))))"
  unfolding dir_get_def Let_def using find_loop_finds[OF assms(1), of dir_open es name 0] assms(2)
  by (simp add: dir_open_def)

text \<open>C37. Removing the first record of a directory clears it without setting its length: when the
  uninitialised length happens to be zero, every later lookup in the directory loops for ever.\<close>

theorem dir_get_hangs_on_cleared_entry:
  assumes "reads_as D fs i fb" "0 < unat (dir_size i)" "take 8 fb = encode_entry (cleared_entry 0)"
  shows "dir_get D fs name i = None"
proof -
  have "entry_at fb 0 = cleared_entry 0"
    using decode_encode_entry[of "cleared_entry 0" "[]"] assms(3) by (simp add: entry_at_def)
  then have "dir_read D fs i dir_open = None"
    using dir_read_stuck[OF assms(1), of dir_open] assms(2) by (simp add: dir_open_def cleared_entry_def)
  then show ?thesis by (simp add: dir_get_def find_loop.simps)
qed

section \<open>Two directories\<close>

text \<open>
  On the volume of \<open>Ext2Fs\<close>: inode 2 is a directory in block 6 with the records \<open>.\<close> and \<open>a\<close>
  (inode 1, a regular file), inode 3 a directory in block 0 (all zero).
\<close>

definition dir_inode :: InodeData where
  "dir_inode = zero_inode\<lparr>id_mode := 0x41ED, id_links_count := 2, id_size := 1024, id_blocks := 2, id_block := 6 # replicate 14 0\<rparr>"

definition dir_inode0 :: InodeData where
  "dir_inode0 = zero_inode\<lparr>id_mode := 0x41ED, id_links_count := 2, id_size := 1024, id_blocks := 2, id_block := replicate 15 0\<rparr>"

definition dot_entry :: DirectoryEntry where
  "dot_entry = \<lparr>de_inode = 2, de_rec_len = 12, de_name_len = 1, de_type = 2\<rparr>"

definition a_entry :: DirectoryEntry where
  "a_entry = \<lparr>de_inode = 1, de_rec_len = 1012, de_name_len = 1, de_type = 1\<rparr>"

definition dir_block :: bytes where
  "dir_block = encode_entry dot_entry @ [0x2E, 0, 0, 0] @ encode_entry a_entry @ [0x61] @ replicate 1003 0"

definition vol3_fs :: "bytes ext2" where
  "vol3_fs = vol_fs\<lparr>x_part := overwrite 5120 (encode_inode file_inode) (overwrite 5248 (encode_inode dir_inode)
     (overwrite 5376 (encode_inode dir_inode0) (overwrite 6144 dir_block (x_part vol_fs))))\<rparr>"

lemma vol3_inodes: "wf_inode dir_inode" "wf_inode dir_inode0"
  "length (encode_inode dir_inode) = 128" "length (encode_inode dir_inode0) = 128" "length dir_block = 1024"
proof -
  show f: "wf_inode dir_inode" and e: "wf_inode dir_inode0"
    by (simp_all add: dir_inode_def dir_inode0_def zero_inode_def wf_inode_def decode_inode_def)
  show "length (encode_inode dir_inode) = 128" "length (encode_inode dir_inode0) = 128"
    using encode_inode_length[OF f] encode_inode_length[OF e] by simp_all
qed (simp add: dir_block_def)

lemma vol3_length: "length (x_part vol3_fs) = 8192"
  using vol_length vol2_inodes vol3_inodes by (simp add: vol3_fs_def)

lemma vol3_fields: "x_blockSize vol3_fs = 1024" "x_sb vol3_fs = vol_sb" "x_bgd vol3_fs = [vol_bgd]"
  by (simp_all add: vol3_fs_def vol_fs_def)

lemma vol3_addr: "inode_addr vol3_fs 1 = Inr 5120" "inode_addr vol3_fs 2 = Inr 5248" "inode_addr vol3_fs 3 = Inr 5376"
  by (simp_all add: inode_addr_def inode_group_def inode_index_def get_bgd_def vol3_fields vol2_fields)

lemma vol3_inode:
  "getInodeData ram_ops 1 vol3_fs = Inr file_inode" "getInodeData ram_ops 2 vol3_fs = Inr dir_inode"
  "getInodeData ram_ops 3 vol3_fs = Inr dir_inode0"
proof -
  have "take 128 (drop 5120 (x_part vol3_fs)) = encode_inode file_inode"
    using overwrite_same[of 5120 "encode_inode file_inode"] vol2_inodes vol3_inodes vol_length by (simp add: vol3_fs_def)
  moreover have "take 128 (drop 5248 (x_part vol3_fs)) = encode_inode dir_inode"
    using overwrite_same[of 5248 "encode_inode dir_inode"] vol2_inodes vol3_inodes vol_length by (simp add: vol3_fs_def overwrite_other)
  moreover have "take 128 (drop 5376 (x_part vol3_fs)) = encode_inode dir_inode0"
    using overwrite_same[of 5376 "encode_inode dir_inode0"] vol2_inodes vol3_inodes vol_length by (simp add: vol3_fs_def overwrite_other)
  ultimately show "getInodeData ram_ops 1 vol3_fs = Inr file_inode" "getInodeData ram_ops 2 vol3_fs = Inr dir_inode"
    "getInodeData ram_ops 3 vol3_fs = Inr dir_inode0"
    using ram.read_ok[of "x_part vol3_fs" 128] vol3_length vol2_inodes vol3_inodes
    by (simp_all add: getInodeData_def vol3_addr decode_encode_inode)
qed

lemma vol3_block0: "take 1024 (x_part vol3_fs) = replicate 1024 0"
proof -
  have "take 1024 (x_part vol3_fs) = take 1024 (drop 0 (replicate 8192 (0::u8)))"
    unfolding vol3_fs_def vol_fs_def using vol_wf vol2_inodes vol3_inodes by (simp add: overwrite_def take_take)
  then show ?thesis by simp
qed

lemma vol3_block6: "blk (x_part vol3_fs) 1024 6 = dir_block"
proof -
  have "take 1024 (drop 6144 (x_part vol3_fs)) = dir_block"
    using overwrite_same[of 6144 dir_block] vol2_inodes vol3_inodes vol_length by (simp add: vol3_fs_def overwrite_other)
  then show ?thesis by (simp add: blk_def)
qed

definition root_dir :: inode where "root_dir = \<lparr>in_no = 2, in_data = dir_inode\<rparr>"
definition zero_dir :: inode where "zero_dir = \<lparr>in_no = 3, in_data = dir_inode0\<rparr>"

lemma vol3_reads:
  "reads_as ram_ops vol3_fs root_dir (file_bytes (x_part vol3_fs) 1024 dir_inode)"
  "reads_as ram_ops vol3_fs zero_dir (file_bytes (x_part vol3_fs) 1024 dir_inode0)"
proof -
  have "file_in (x_part vol3_fs) 1024 dir_inode" "file_in (x_part vol3_fs) 1024 dir_inode0"
    by (rule file_in_zero; use vol3_block0 vol3_length nth_rep0 in \<open>simp add: dir_inode_def dir_inode0_def\<close>)+
  then show "reads_as ram_ops vol3_fs root_dir (file_bytes (x_part vol3_fs) 1024 dir_inode)"
    "reads_as ram_ops vol3_fs zero_dir (file_bytes (x_part vol3_fs) 1024 dir_inode0)"
    using reads_as_file[OF ram.byte_store_axioms, of vol3_fs root_dir] reads_as_file[OF ram.byte_store_axioms, of vol3_fs zero_dir]
      vol3_length vol3_inode by (simp_all add: vol3_fields root_dir_def zero_dir_def readData_def)
qed

lemma vol3_content:
  obtains rest rest0 where "file_bytes (x_part vol3_fs) 1024 dir_inode = dir_block @ rest"
    "file_bytes (x_part vol3_fs) 1024 dir_inode0 = replicate 1024 0 @ rest0"
proof
  have s: "[0..<12] = 0 # [1..<12]" by (simp add: upt_conv_Cons)
  show "file_bytes (x_part vol3_fs) 1024 dir_inode = dir_block @ (concat (map (\<lambda>j. blk_bytes (x_part vol3_fs) 1024 0 (id_block dir_inode ! j)) [1..<12]) @
     concat (map (\<lambda>k. blk_bytes (x_part vol3_fs) 1024 (k + 1) (id_block dir_inode ! (12 + k))) [0..<3]))"
    unfolding file_bytes_def s using vol3_block6 by (simp add: dir_inode_def)
  have "blk (x_part vol3_fs) 1024 0 = replicate 1024 0" using vol3_block0 by (simp add: blk_def)
  then show "file_bytes (x_part vol3_fs) 1024 dir_inode0 = replicate 1024 0 @ (concat (map (\<lambda>j. blk_bytes (x_part vol3_fs) 1024 0 (id_block dir_inode0 ! j)) [1..<12]) @
     concat (map (\<lambda>k. blk_bytes (x_part vol3_fs) 1024 (k + 1) (id_block dir_inode0 ! (12 + k))) [0..<3]))"
    unfolding file_bytes_def s by (simp add: dir_inode0_def)
qed

lemma dir_block_entries:
  "entry_at (dir_block @ rest) 0 = dot_entry" "name_at (dir_block @ rest) 0 = [0x2E]"
  "entry_at (dir_block @ rest) 12 = a_entry" "name_at (dir_block @ rest) 12 = [0x61]"
proof -
  show e: "entry_at (dir_block @ rest) 0 = dot_entry" "entry_at (dir_block @ rest) 12 = a_entry"
    using decode_encode_entry[of dot_entry "[]"] decode_encode_entry[of a_entry "[]"]
    by (simp_all add: entry_at_def dir_block_def)
  show "name_at (dir_block @ rest) 0 = [0x2E]" "name_at (dir_block @ rest) 12 = [0x61]"
    unfolding name_at_def e by (simp_all add: dot_entry_def a_entry_def) (simp_all add: dir_block_def)
qed

lemma vol3_records:
  "dir_from (file_bytes (x_part vol3_fs) 1024 dir_inode) 1024 0 [(dot_entry, [0x2E]), (a_entry, [0x61])]"
proof -
  obtain rest where fb: "file_bytes (x_part vol3_fs) 1024 dir_inode = dir_block @ rest" by (rule vol3_content)
  note en = dir_block_entries[of rest]
  have "dir_from (dir_block @ rest) 1024 1024 []" by (rule end_of_dir) simp
  then have "dir_from (dir_block @ rest) 1024 12 [(a_entry, [0x61])]"
    using record_at[of 12 1024 "dir_block @ rest" "[]"] unfolding en by (simp add: a_entry_def)
  then show ?thesis
    using record_at[of 0 1024 "dir_block @ rest" "[(a_entry, [0x61])]"] unfolding en fb by (simp add: dot_entry_def)
qed

theorem dir_get_finds_witness:
  "dir_get ram_ops vol3_fs [0x61] root_dir = Some (Inr (root_dir, Some (Regular \<lparr>in_no = 1, in_data = file_inode\<rparr>))) \<and>
   dir_get ram_ops vol3_fs [0x62] root_dir = Some (Inr (root_dir, None))"
proof -
  have s: "unat (dir_size root_dir) = 1024" by (simp add: dir_size_def root_dir_def dir_inode_def)
  note d = dir_get_finds[OF vol3_reads(1), unfolded s, OF vol3_records]
  have m: "id_mode file_inode = 0x81A4" by (simp add: file_inode_def)
  show ?thesis
    unfolding d by (simp add: dot_entry_def a_entry_def c_str_def vol3_inode m S_IS_def)
qed

theorem dir_get_hangs_on_cleared_entry_witness:
  "dir_get ram_ops vol3_fs [0x61] zero_dir = None"
proof -
  obtain rest0 where fb: "file_bytes (x_part vol3_fs) 1024 dir_inode0 = replicate 1024 0 @ rest0" by (rule vol3_content)
  have "encode_entry (cleared_entry 0) = replicate 8 0"
  proof -
    have "le_bytes n 0 = replicate n 0" for n by (simp add: le_bytes_def map_replicate_const)
    then have "encode_entry (cleared_entry 0) = replicate 4 0 @ replicate 2 0 @ replicate 2 0"
      by (simp add: encode_entry_def cleared_entry_def le32_def le16_def eval_nat_numeral)
    also have "\<dots> = replicate 8 0" by (simp flip: replicate_add)
    finally show ?thesis .
  qed
  then have "take 8 (file_bytes (x_part vol3_fs) 1024 dir_inode0) = encode_entry (cleared_entry 0)"
    unfolding fb by simp
  moreover have "0 < unat (dir_size zero_dir)" by (simp add: dir_size_def zero_dir_def dir_inode0_def)
  ultimately show ?thesis
    using dir_get_hangs_on_cleared_entry[OF vol3_reads(2)] by blast
qed

end
