(* ===== verification/StdMap.thy ===== *)
theory StdMap
  imports Prelude "HOL-Library.List_Lexorder" "HOL-Library.Product_Lexorder"
begin

text \<open>
  The kernel's \<open>std::map\<close> (\<open>src/libc++/map\<close>): a vector of pairs in the order of the keys, in which
  \<open>lower_bound\<close> (\<open>src/libc++/algorithm\<close>) searches by bisection. The second half is the
  contract of a finite map, which the model of the code meets.
\<close>

section \<open>The code\<close>

text \<open>\<open>std::lower_bound\<close>; \<open>lt x\<close> is \<open>comp(*x, val)\<close>.\<close>

function lower_bound_loop :: "('a \<Rightarrow> bool) \<Rightarrow> 'a list \<Rightarrow> nat \<Rightarrow> nat \<Rightarrow> nat" where
  "lower_bound_loop lt xs first count =
    (if 0 < count then
       let step = count div 2; it = first + step in
       if lt (xs ! it) then lower_bound_loop lt xs (it + 1) (count - (step + 1))
       else lower_bound_loop lt xs first step
     else first)"
  by pat_completeness auto
termination
  by (relation "measure (\<lambda>(lt, xs, first, count). count)") auto

declare lower_bound_loop.simps [simp del]

definition map_lower_bound :: "'k::linorder \<Rightarrow> ('k \<times> 'v) list \<Rightarrow> nat" where
  "map_lower_bound k xs = lower_bound_loop (\<lambda>p. fst p < k) xs 0 (length xs)"

definition map_find :: "'k::linorder \<Rightarrow> ('k \<times> 'v) list \<Rightarrow> nat option" where
  "map_find k xs =
    (let it = map_lower_bound k xs in
     if it = length xs then None
     else if \<not> fst (xs ! it) < k \<and> \<not> k < fst (xs ! it) then Some it else None)"

definition map_at :: "'k::linorder \<Rightarrow> ('k \<times> 'v) list \<Rightarrow> 'v res" where
  "map_at k xs = (case map_find k xs of None \<Rightarrow> Inl Assertion | Some it \<Rightarrow> Inr (snd (xs ! it)))"

definition map_insert :: "'k::linorder \<Rightarrow> 'v \<Rightarrow> ('k \<times> 'v) list \<Rightarrow> ('k \<times> 'v) list \<times> nat \<times> bool" where
  "map_insert k v xs =
    (let it = map_lower_bound k xs in
     if it = length xs then (xs @ [(k, v)], length xs, True)
     else if \<not> fst (xs ! it) < k \<and> \<not> k < fst (xs ! it) then (xs, it, False)
     else (take it xs @ (k, v) # drop it xs, it, True))"

definition map_erase :: "'k::linorder \<Rightarrow> ('k \<times> 'v) list \<Rightarrow> ('k \<times> 'v) list \<times> nat" where
  "map_erase k xs = (case map_find k xs of None \<Rightarrow> (xs, 0) | Some it \<Rightarrow> (take it xs @ drop (it + 1) xs, 1))"

section \<open>Bisection finds the first entry that is not smaller\<close>

lemma lower_bound_loop_takeWhile:
  assumes "\<And>i j. i \<le> j \<Longrightarrow> j < length xs \<Longrightarrow> lt (xs ! j) \<Longrightarrow> lt (xs ! i)"
    and "first + count \<le> length xs" "first \<le> length (takeWhile lt xs)" "length (takeWhile lt xs) \<le> first + count"
  shows "lower_bound_loop lt xs first count = length (takeWhile lt xs)"
  using assms
proof (induction lt xs first count rule: lower_bound_loop.induct)
  case (1 lt xs first count)
  let ?n = "length (takeWhile lt xs)"
  show ?case
  proof (cases "0 < count")
    case True
    let ?it = "first + count div 2"
    have it: "?it < length xs" using True 1(4) by linarith
    show ?thesis
    proof (cases "lt (xs ! ?it)")
      case l: True
      have "?it < ?n"
      proof (rule ccontr)
        assume "\<not> ?it < ?n"
        then have n: "?n \<le> ?it" by simp
        with it have "\<not> lt (xs ! ?n)" by (intro nth_length_takeWhile) simp
        moreover have "lt (xs ! ?n)" by (rule 1(3)[OF n it l])
        ultimately show False ..
      qed
      then have "lower_bound_loop lt xs (?it + 1) (count - (count div 2 + 1)) = ?n"
        using 1(1)[OF True refl refl l 1(3)] 1(4,6) True by simp
      with True l show ?thesis by (subst lower_bound_loop.simps) (simp add: Let_def)
    next
      case l: False
      have "?n \<le> ?it"
      proof (rule ccontr)
        assume "\<not> ?n \<le> ?it"
        then have "takeWhile lt xs ! ?it \<in> set (takeWhile lt xs)" "takeWhile lt xs ! ?it = xs ! ?it"
          by (meson not_le nth_mem, simp add: takeWhile_nth)
        with l show False by (metis set_takeWhileD)
      qed
      then have "lower_bound_loop lt xs first (count div 2) = ?n"
        using 1(2)[OF True refl refl l 1(3)] 1(4,5) it by simp
      with True l show ?thesis by (subst lower_bound_loop.simps) (simp add: Let_def)
    qed
  next
    case False
    with 1(5,6) show ?thesis by (subst lower_bound_loop.simps) simp
  qed
qed

definition map_ok :: "('k::linorder \<times> 'v) list \<Rightarrow> bool" where
  "map_ok xs \<longleftrightarrow> sorted_wrt (<) (map fst xs)"

lemma map_lower_bound:
  assumes "map_ok xs"
  shows "map_lower_bound k xs = length (takeWhile (\<lambda>p. fst p < k) xs)"
proof -
  have "fst (xs ! i) < k" if "i \<le> j" "j < length xs" "fst (xs ! j) < k" for i j
    using that assms sorted_wrt_nth_less[of "(<)" "map fst xs" i j]
    by (cases "i = j") (auto simp: map_ok_def)
  then show ?thesis unfolding map_lower_bound_def
    by (intro lower_bound_loop_takeWhile) (auto simp: length_takeWhile_le)
qed

text \<open>The map around a key: smaller keys, the key if it is there, greater keys.\<close>

lemma map_split:
  assumes "map_ok xs"
  obtains ys zs where "xs = ys @ zs" "map_lower_bound k xs = length ys" "\<forall>p\<in>set ys. fst p < k"
    "\<forall>p\<in>set (tl zs). k < fst p" "zs \<noteq> [] \<longrightarrow> k \<le> fst (hd zs)" "map_ok ys" "map_ok zs"
proof
  let ?P = "\<lambda>p. fst p < k"
  show x: "xs = takeWhile ?P xs @ dropWhile ?P xs" by simp
  show "map_lower_bound k xs = length (takeWhile ?P xs)" by (rule map_lower_bound[OF assms])
  show "\<forall>p\<in>set (takeWhile ?P xs). fst p < k" by (blast dest: set_takeWhileD)
  show h: "dropWhile ?P xs \<noteq> [] \<longrightarrow> k \<le> fst (hd (dropWhile ?P xs))"
    using hd_dropWhile[of ?P xs] by (auto simp: not_less[symmetric])
  have "map_ok (takeWhile ?P xs @ dropWhile ?P xs)" using assms by simp
  then show o: "map_ok (takeWhile ?P xs)" "map_ok (dropWhile ?P xs)"
    unfolding map_ok_def map_append sorted_wrt_append by simp_all
  have g: "\<forall>p\<in>set (tl zs). k < fst p" if "map_ok zs" "zs \<noteq> [] \<longrightarrow> k \<le> fst (hd zs)" for zs :: "('a \<times> 'b) list"
    using that by (cases zs) (auto simp: map_ok_def intro: le_less_trans)
  show "\<forall>p\<in>set (tl (dropWhile ?P xs)). k < fst p" by (rule g[OF o(2) h])
qed

lemma map_of_notin: "(\<And>p. p \<in> set xs \<Longrightarrow> fst p \<noteq> k) \<Longrightarrow> map_of xs k = None"
  by (auto simp: map_of_eq_None_iff)

lemma map_find_lookup:
  assumes "map_ok xs"
  shows "map_find k xs = None \<and> map_of xs k = None \<or>
    (\<exists>i<length xs. map_find k xs = Some i \<and> fst (xs ! i) = k \<and> map_of xs k = Some (snd (xs ! i)))"
proof -
  obtain ys zs where s: "xs = ys @ zs" "map_lower_bound k xs = length ys" "\<forall>p\<in>set ys. fst p < k"
    "\<forall>p\<in>set (tl zs). k < fst p" "zs \<noteq> [] \<longrightarrow> k \<le> fst (hd zs)" by (rule map_split[OF assms, of k])
  have ny: "map_of ys k = None" using s(3) by (intro map_of_notin) auto
  show ?thesis
  proof (cases zs)
    case Nil
    then show ?thesis using s ny by (simp add: map_find_def)
  next
    case (Cons z zs')
    have nz: "map_of zs' k = None" using s(4) Cons by (intro map_of_notin) auto
    show ?thesis
    proof (cases "fst z = k")
      case True
      then show ?thesis using s(1,2) ny Cons by (auto simp: map_find_def map_add_def)
    next
      case False
      then show ?thesis using s ny nz Cons by (auto simp: map_find_def map_add_def)
    qed
  qed
qed

text \<open>The list functions behind \<open>insert\<close> and \<open>erase\<close>.\<close>

definition m_ins :: "'k::linorder \<Rightarrow> 'v \<Rightarrow> ('k \<times> 'v) list \<Rightarrow> ('k \<times> 'v) list" where
  "m_ins k v xs = fst (map_insert k v xs)"

definition m_del :: "'k::linorder \<Rightarrow> ('k \<times> 'v) list \<Rightarrow> ('k \<times> 'v) list" where
  "m_del k xs = fst (map_erase k xs)"

definition m_look :: "('k::linorder \<times> 'v) list \<Rightarrow> 'k \<Rightarrow> 'v option" where
  "m_look xs k = map_option (\<lambda>i. snd (xs ! i)) (map_find k xs)"

lemma m_look_map_of: "map_ok xs \<Longrightarrow> m_look xs k = map_of xs k"
  using map_find_lookup[of xs k] by (auto simp: m_look_def)

lemma m_ins_props:
  assumes "map_ok xs"
  shows "map_ok (m_ins k v xs)"
    "map_of (m_ins k v xs) k' = (if k' = k \<and> map_of xs k = None then Some v else map_of xs k')"
proof -
  obtain ys zs where s: "xs = ys @ zs" "map_lower_bound k xs = length ys" "\<forall>p\<in>set ys. fst p < k"
    "\<forall>p\<in>set (tl zs). k < fst p" "zs \<noteq> [] \<longrightarrow> k \<le> fst (hd zs)" "map_ok ys" "map_ok zs"
    by (rule map_split[OF assms, of k])
  have ny: "map_of ys k = None" using s(3) by (intro map_of_notin) auto
  have "map_ok (m_ins k v xs) \<and> map_of (m_ins k v xs) k' = (if k' = k \<and> map_of xs k = None then Some v else map_of xs k')"
  proof (cases "zs \<noteq> [] \<and> fst (hd zs) = k")
    case True
    then obtain z zs' where z: "zs = z # zs'" "fst z = k" by (cases zs) auto
    then have "map_of xs k \<noteq> None" using s(1) by simp
    moreover have "m_ins k v xs = xs" using s(1,2) z by (simp add: m_ins_def map_insert_def)
    ultimately show ?thesis using assms by simp
  next
    case False
    have gt: "k < fst p" if "p \<in> set zs" for p
      using that s(4,5) False by (cases zs) (auto simp: order.order_iff_strict)
    have nz: "map_of zs k = None" using gt by (intro map_of_notin) auto
    have e: "m_ins k v xs = ys @ (k, v) # zs"
    proof (cases zs)
      case Nil
      then show ?thesis using s(1,2) by (simp add: m_ins_def map_insert_def)
    next
      case (Cons z zs')
      then have "k < fst z" using gt by simp
      then show ?thesis using s(1,2) Cons by (simp add: m_ins_def map_insert_def)
    qed
    have "map_ok (ys @ (k, v) # zs)"
      using s(3,6,7) gt by (force simp: map_ok_def sorted_wrt_append)
    then show ?thesis using e s(1) ny nz by (auto simp: map_add_def split: option.splits)
  qed
  then show "map_ok (m_ins k v xs)"
    "map_of (m_ins k v xs) k' = (if k' = k \<and> map_of xs k = None then Some v else map_of xs k')" by simp_all
qed

lemma m_del_props:
  assumes "map_ok xs"
  shows "map_ok (m_del k xs)" "map_of (m_del k xs) k' = (if k' = k then None else map_of xs k')"
proof -
  obtain ys zs where s: "xs = ys @ zs" "map_lower_bound k xs = length ys" "\<forall>p\<in>set ys. fst p < k"
    "\<forall>p\<in>set (tl zs). k < fst p" "zs \<noteq> [] \<longrightarrow> k \<le> fst (hd zs)" "map_ok ys" "map_ok zs"
    by (rule map_split[OF assms, of k])
  have ny: "map_of ys k = None" using s(3) by (intro map_of_notin) auto
  have "map_ok (m_del k xs) \<and> map_of (m_del k xs) k' = (if k' = k then None else map_of xs k')"
  proof (cases "zs \<noteq> [] \<and> fst (hd zs) = k")
    case True
    then obtain z zs' where z: "zs = z # zs'" "fst z = k" by (cases zs) auto
    have nz: "map_of zs' k = None" using s(4) z by (intro map_of_notin) auto
    have e: "m_del k xs = ys @ zs'" using s(1,2) z by (simp add: m_del_def map_erase_def map_find_def)
    have "map_ok (ys @ zs')" using assms s(1) z by (auto simp: map_ok_def sorted_wrt_append)
    then show ?thesis using e s(1) z ny nz by (cases z) (auto simp: map_add_def split: option.splits)
  next
    case False
    then have gt: "k < fst p" if "p \<in> set zs" for p
      using that s(4,5) by (cases zs) (auto simp: order.order_iff_strict)
    have nz: "map_of zs k = None" using gt by (intro map_of_notin) auto
    have "map_find k xs = None" using map_find_lookup[OF assms, of k] s(1) ny nz by (auto simp: map_add_def)
    then have "m_del k xs = xs" by (simp add: m_del_def map_erase_def)
    then show ?thesis using assms s(1) ny nz by (auto simp: map_add_def)
  qed
  then show "map_ok (m_del k xs)" "map_of (m_del k xs) k' = (if k' = k then None else map_of xs k')" by simp_all
qed

section \<open>The contract of a map for its clients\<close>

locale finite_map =
  fixes look :: "'m \<Rightarrow> 'k \<Rightarrow> 'v option"
    and ins :: "'k \<Rightarrow> 'v \<Rightarrow> 'm \<Rightarrow> 'm"
    and del :: "'k \<Rightarrow> 'm \<Rightarrow> 'm"
    and ok :: "'m \<Rightarrow> bool"
  assumes look_ins: "ok m \<Longrightarrow> look (ins k v m) k' = (if k' = k \<and> look m k = None then Some v else look m k')"
    and look_del: "ok m \<Longrightarrow> look (del k m) k' = (if k' = k then None else look m k')"
    and ok_ins: "ok m \<Longrightarrow> ok (ins k v m)"
    and ok_del: "ok m \<Longrightarrow> ok (del k m)"
begin

lemma ins_new: "ok m \<Longrightarrow> look m k = None \<Longrightarrow> look (ins k v m) k = Some v"
  by (simp add: look_ins)

lemma ins_old: "ok m \<Longrightarrow> look m k = Some w \<Longrightarrow> look (ins k v m) = look m"
  by (auto simp: look_ins fun_eq_iff)

lemma ins_other: "ok m \<Longrightarrow> k' \<noteq> k \<Longrightarrow> look (ins k v m) k' = look m k'"
  by (simp add: look_ins)

lemma del_ins: "ok m \<Longrightarrow> look m k = None \<Longrightarrow> look (del k (ins k v m)) = look m"
  by (auto simp: look_del look_ins ok_ins fun_eq_iff)

lemma replace: "ok m \<Longrightarrow> look (ins k v (del k m)) k = Some v"
  by (simp add: look_del look_ins ok_del)

end

interpretation std: finite_map m_look m_ins m_del map_ok
  by unfold_locales (simp_all add: m_look_map_of m_ins_props m_del_props)

text \<open>C28. The bisecting search, insertion and removal of \<open>std::map\<close> are those of a finite map: on a
  sorted vector \<open>find\<close> agrees with a linear search, \<open>insert\<close> adds a missing key and keeps the
  value of one that is there, \<open>erase\<close> removes one key, and the vector stays sorted.\<close>

theorem std_map_is_map:
  assumes "map_ok xs"
  shows "m_look xs k = map_of xs k \<and>
    map_ok (m_ins k v xs) \<and> map_of (m_ins k v xs) = (if map_of xs k = None then (map_of xs)(k \<mapsto> v) else map_of xs) \<and>
    map_ok (m_del k xs) \<and> map_of (m_del k xs) = (map_of xs)(k := None)"
  using m_look_map_of[OF assms] m_ins_props[OF assms] m_del_props[OF assms] by (auto simp: fun_eq_iff)

theorem std_map_is_map_witness:
  "m_look [(1::nat, ''a''), (3, ''b'')] 3 = Some ''b'' \<and> map_of (m_ins 2 ''c'' [(1::nat, ''a''), (3, ''b'')]) 2 = Some ''c'' \<and>
   map_of (m_del 1 [(1::nat, ''a''), (3, ''b'')]) 1 = None"
  using std_map_is_map[of "[(1::nat, ''a''), (3, ''b'')]" 3] std_map_is_map[of "[(1::nat, ''a''), (3, ''b'')]" 2 "''c''"]
    std_map_is_map[of "[(1::nat, ''a''), (3, ''b'')]" 1] by (simp add: map_ok_def)

end
