(* ===== verification/RamFS.thy ===== *)
theory RamFS
  imports StdMap Ext2File
begin

text \<open>
  The in-memory file system (\<open>src/src/HDD/RamFS.cpp\<close>) and the device file system on top of it
  (\<open>DevFS.cpp\<close>). The files are the objects allocated so far, and a pointer to a file is its
  position in that list (\<open>RamFS\<close> never frees a file). A directory's entries are a \<open>std::map\<close>
  from names to files; names are compared as byte strings. \<open>getRoot\<close> and the entries hand out
  pointers the caller must not delete.
\<close>

section \<open>Files\<close>

datatype ram_kind = RamReg bytes | RamDir "(bytes \<times> nat) list" | RamBlk nat | RamChr nat

record ram_file =
  rf_kind :: ram_kind
  rf_ino :: u32
  rf_mode :: u16
  rf_nlink :: u16
  rf_uid :: u16
  rf_gid :: u16

record ramfs =
  fs_files :: "ram_file list"
  fs_root :: nat
  fs_nextInode :: u32

definition dot :: bytes where "dot = [0x2E]"
definition dots :: bytes where "dots = [0x2E, 0x2E]"

definition ram_new :: "ram_kind \<Rightarrow> u16 \<Rightarrow> u16 \<Rightarrow> u16 \<Rightarrow> ramfs \<Rightarrow> ramfs \<times> nat" where
  "ram_new k mode uid gid s =
    (s\<lparr>fs_files := fs_files s @ [\<lparr>rf_kind = k, rf_ino = fs_nextInode s, rf_mode = mode, rf_nlink = 0, rf_uid = uid, rf_gid = gid\<rparr>],
       fs_nextInode := fs_nextInode s + 1\<rparr>, length (fs_files s))"

definition ram_upd :: "nat \<Rightarrow> (ram_file \<Rightarrow> ram_file) \<Rightarrow> ramfs \<Rightarrow> ramfs" where
  "ram_upd f g s = s\<lparr>fs_files := (fs_files s)[f := g (fs_files s ! f)]\<rparr>"

definition ram_link :: "nat \<Rightarrow> ramfs \<Rightarrow> ramfs" where
  "ram_link f = ram_upd f (\<lambda>r. r\<lparr>rf_nlink := rf_nlink r + 1\<rparr>)"

definition ram_unlink :: "nat \<Rightarrow> ramfs \<Rightarrow> ramfs" where
  "ram_unlink f = ram_upd f (\<lambda>r. r\<lparr>rf_nlink := rf_nlink r - 1\<rparr>)"

fun ram_is_dir :: "ram_kind \<Rightarrow> bool" where
  "ram_is_dir (RamDir es) = True"
| "ram_is_dir _ = False"

fun ram_is_reg :: "ram_kind \<Rightarrow> bool" where
  "ram_is_reg (RamReg c) = True"
| "ram_is_reg _ = False"

fun kind_entries :: "ram_kind \<Rightarrow> (bytes \<times> nat) list" where
  "kind_entries (RamDir es) = es"
| "kind_entries _ = []"

definition ram_entries :: "nat \<Rightarrow> ramfs \<Rightarrow> (bytes \<times> nat) list" where
  "ram_entries d s = kind_entries (rf_kind (fs_files s ! d))"

definition ram_set_entries :: "nat \<Rightarrow> (bytes \<times> nat) list \<Rightarrow> ramfs \<Rightarrow> ramfs" where
  "ram_set_entries d es = ram_upd d (\<lambda>r. r\<lparr>rf_kind := RamDir es\<rparr>)"

text \<open>\<open>size()\<close> of a file; the size of a block device is that of its implementation.\<close>

fun ram_size :: "(nat \<Rightarrow> u64) \<Rightarrow> ram_kind \<Rightarrow> u64" where
  "ram_size devsize (RamReg c) = ram_getSize c"
| "ram_size devsize (RamDir es) = 0"
| "ram_size devsize (RamBlk d) = devsize d"
| "ram_size devsize (RamChr d) = 0"

definition ram_getStats :: "(nat \<Rightarrow> u64) \<Rightarrow> stat \<Rightarrow> nat \<Rightarrow> ramfs \<Rightarrow> stat" where
  "ram_getStats devsize buf f s =
    (let r = fs_files s ! f; sz = ram_size devsize (rf_kind r) in
     buf\<lparr>st_ino := rf_ino r, st_mode := rf_mode r, st_nlink := rf_nlink r, st_uid := rf_uid r, st_gid := rf_gid r,
         st_size := sz, st_blksize := ucast (sz div 512), st_blocks := ucast (sz div 512)\<rparr>)"

section \<open>Directories\<close>

definition ram_get :: "bytes \<Rightarrow> nat \<Rightarrow> ramfs \<Rightarrow> nat option" where
  "ram_get name d s = m_look (ram_entries d s) name"

text \<open>\<open>addEntry(name, file)\<close>: \<open>add_one\<close> links and inserts, and a directory that gets a name other
  than \<open>.\<close> and \<open>..\<close> is given the entry \<open>..\<close>.\<close>

definition ram_add_one :: "bytes \<Rightarrow> nat \<Rightarrow> nat \<Rightarrow> ramfs \<Rightarrow> ramfs" where
  "ram_add_one name f d s =
    (let k = rf_kind (fs_files s ! f);
         s1 = (if ram_is_reg k \<or> ram_is_dir k then ram_link f s else s) in
     ram_set_entries d (m_ins name f (ram_entries d s1)) s1)"

definition ram_addEntry :: "bytes \<Rightarrow> nat \<Rightarrow> nat \<Rightarrow> ramfs \<Rightarrow> ramfs" where
  "ram_addEntry name f d s =
    (let s1 = ram_add_one name f d s in
     if ram_is_dir (rf_kind (fs_files s ! f)) \<and> name \<noteq> dot \<and> name \<noteq> dots then ram_add_one dots d f s1 else s1)"

definition ram_getNewFile :: "u16 \<Rightarrow> u16 \<Rightarrow> u16 \<Rightarrow> ramfs \<Rightarrow> ramfs \<times> nat" where
  "ram_getNewFile uid gid mode s = ram_new (RamReg []) mode uid gid s"

definition ram_getNewDirectory :: "u16 \<Rightarrow> u16 \<Rightarrow> u16 \<Rightarrow> ramfs \<Rightarrow> ramfs \<times> nat" where
  "ram_getNewDirectory uid gid mode s = (case ram_new (RamDir []) mode uid gid s of (s, f) \<Rightarrow> (ram_addEntry dot f f s, f))"

definition ram_getNewBlockDevice :: "nat \<Rightarrow> u16 \<Rightarrow> u16 \<Rightarrow> u16 \<Rightarrow> ramfs \<Rightarrow> ramfs \<times> nat" where
  "ram_getNewBlockDevice impl uid gid mode s = ram_new (RamBlk impl) mode uid gid s"

definition ram_getNewCharacterDevice :: "nat \<Rightarrow> u16 \<Rightarrow> u16 \<Rightarrow> u16 \<Rightarrow> ramfs \<Rightarrow> ramfs \<times> nat" where
  "ram_getNewCharacterDevice impl uid gid mode s = ram_new (RamChr impl) mode uid gid s"

text \<open>\<open>S_IFDIR | S_IRWXU | S_IRGRP | S_IXGRP | S_IROTH | S_IXOTH\<close>.\<close>

definition ram_FS :: ramfs where
  "ram_FS = (case ram_getNewDirectory 0 0 0x41ED \<lparr>fs_files = [], fs_root = 0, fs_nextInode = 0\<rparr> of (s, r) \<Rightarrow>
     ram_addEntry dots r r (s\<lparr>fs_root := r\<rparr>))"

definition ram_createEntry :: "bytes \<Rightarrow> u16 \<Rightarrow> u16 \<Rightarrow> u16 \<Rightarrow> nat \<Rightarrow> ramfs \<Rightarrow> (ramfs \<times> nat) res" where
  "ram_createEntry name uid gid mode d s =
    (if S_ISREG mode then (case ram_getNewFile uid gid mode s of (s, f) \<Rightarrow> Inr (ram_addEntry name f d s, f))
     else if S_ISDIR mode then (case ram_getNewDirectory uid gid mode s of (s, f) \<Rightarrow> Inr (ram_addEntry name f d s, f))
     else Inl Bsod)"

definition ram_removeEntry :: "bytes \<Rightarrow> nat \<Rightarrow> ramfs \<Rightarrow> ramfs res" where
  "ram_removeEntry name d s =
    (case map_erase name (ram_entries d s) of (es, n) \<Rightarrow> assertk (n \<noteq> 0) (Inr (ram_set_entries d es s)))"

text \<open>
  Iteration: the iterator is a position in the vector behind the map (\<open>std::map\<close> iterators are
  pointers into it); reading at a position past the end is out of bounds. \<open>strncpy\<close> copies at
  most 256 bytes of the name.
\<close>

definition ram_read :: "nat \<Rightarrow> nat \<Rightarrow> ramfs \<Rightarrow> (nat \<times> (bytes \<times> u32) option) res" where
  "ram_read d it s =
    (let es = ram_entries d s in
     if it = length es then Inr (it, None)
     else check (it < length es) OutOfBounds
       (Inr (it + 1, Some (take 256 (fst (es ! it)), rf_ino (fs_files s ! snd (es ! it))))))"

definition ram_tell :: "nat \<Rightarrow> nat" where "ram_tell it = it"

definition ram_seek :: "nat \<Rightarrow> nat" where "ram_seek loc = 0 + loc"

section \<open>Properties of the in-memory file system\<close>

text \<open>Every directory is a sorted map whose entries are existing files.\<close>

definition ram_ok :: "ramfs \<Rightarrow> bool" where
  "ram_ok s \<longleftrightarrow> (\<forall>r\<in>set (fs_files s). map_ok (kind_entries (rf_kind r)) \<and>
     (\<forall>f\<in>snd ` set (kind_entries (rf_kind r)). f < length (fs_files s)))"

lemma set_m_ins: "snd ` set (m_ins k v xs) \<subseteq> insert v (snd ` set xs)"
proof -
  let ?i = "map_lower_bound k xs"
  have "set (take ?i xs) \<union> set (drop ?i xs) \<subseteq> set xs" using set_take_subset set_drop_subset by fast
  then show ?thesis by (auto simp: m_ins_def map_insert_def Let_def)
qed

lemma set_m_del: "set (fst (map_erase k xs)) \<subseteq> set xs"
  by (auto simp: map_erase_def split: option.splits dest: in_set_takeD in_set_dropD)

lemma ram_upd_length [simp]: "length (fs_files (ram_upd f g s)) = length (fs_files s)"
  by (simp add: ram_upd_def)

lemma ram_ok_entries:
  assumes "ram_ok s" "d < length (fs_files s)"
  shows "map_ok (ram_entries d s)" "\<And>f. f \<in> snd ` set (ram_entries d s) \<Longrightarrow> f < length (fs_files s)"
  using assms nth_mem[OF assms(2)] unfolding ram_ok_def ram_entries_def by blast+

lemma ram_ok_upd:
  assumes "ram_ok s" "map_ok (kind_entries (rf_kind (g (fs_files s ! f))))"
    "\<forall>x\<in>snd ` set (kind_entries (rf_kind (g (fs_files s ! f)))). x < length (fs_files s)"
  shows "ram_ok (ram_upd f g s)"
  unfolding ram_ok_def
proof (intro ballI)
  fix r assume "r \<in> set (fs_files (ram_upd f g s))"
  then have "r = g (fs_files s ! f) \<or> r \<in> set (fs_files s)"
    using set_update_subset_insert[of "fs_files s" f "g (fs_files s ! f)"] by (auto simp: ram_upd_def)
  then show "map_ok (kind_entries (rf_kind r)) \<and>
     (\<forall>x\<in>snd ` set (kind_entries (rf_kind r)). x < length (fs_files (ram_upd f g s)))"
    using assms unfolding ram_ok_def by auto
qed

lemma ram_ok_link: "ram_ok s \<Longrightarrow> f < length (fs_files s) \<Longrightarrow> ram_ok (ram_link f s)"
  using ram_ok_entries[of s f] unfolding ram_link_def ram_entries_def by (intro ram_ok_upd) auto

lemma ram_link_entries: "ram_entries d (ram_link f s) = ram_entries d s"
  by (cases "f < length (fs_files s)") (auto simp: ram_link_def ram_entries_def ram_upd_def nth_list_update list_update_beyond)

lemma ram_ok_set_entries:
  "ram_ok s \<Longrightarrow> map_ok es \<Longrightarrow> \<forall>x\<in>snd ` set es. x < length (fs_files s) \<Longrightarrow> ram_ok (ram_set_entries d es s)"
  unfolding ram_set_entries_def by (intro ram_ok_upd) auto

lemma ram_set_entries_entries:
  "d < length (fs_files s) \<Longrightarrow> ram_entries d' (ram_set_entries d es s) = (if d' = d then es else ram_entries d' s)"
  by (simp add: ram_set_entries_def ram_entries_def ram_upd_def nth_list_update)

lemma ram_add_one_facts:
  assumes "ram_ok s" "f < length (fs_files s)" "d < length (fs_files s)"
  shows "ram_ok (ram_add_one name f d s)" "length (fs_files (ram_add_one name f d s)) = length (fs_files s)"
    "ram_entries d' (ram_add_one name f d s) = (if d' = d then m_ins name f (ram_entries d s) else ram_entries d' s)"
proof -
  let ?s = "if ram_is_reg (rf_kind (fs_files s ! f)) \<or> ram_is_dir (rf_kind (fs_files s ! f)) then ram_link f s else s"
  have s: "ram_ok ?s" "length (fs_files ?s) = length (fs_files s)" "\<And>x. ram_entries x ?s = ram_entries x s"
    using assms ram_ok_link ram_link_entries by (auto simp: ram_link_def)
  note e = ram_ok_entries[OF assms(1,3)]
  have a: "ram_add_one name f d s = ram_set_entries d (m_ins name f (ram_entries d s)) ?s"
    using s(3) by (simp add: ram_add_one_def Let_def)
  show "ram_ok (ram_add_one name f d s)"
  proof -
    have "\<forall>x\<in>snd ` set (m_ins name f (ram_entries d s)). x < length (fs_files s)"
      using set_m_ins[of name f "ram_entries d s"] e(2) assms(2) by blast
    then show ?thesis unfolding a using s(1,2) m_ins_props(1)[OF e(1)] by (intro ram_ok_set_entries) simp_all
  qed
  show "length (fs_files (ram_add_one name f d s)) = length (fs_files s)"
    unfolding a using s(2) by (simp add: ram_set_entries_def)
  show "ram_entries d' (ram_add_one name f d s) = (if d' = d then m_ins name f (ram_entries d s) else ram_entries d' s)"
    unfolding a using assms(3) s(2,3) by (subst ram_set_entries_entries) auto
qed

lemma ram_addEntry_ok:
  assumes "ram_ok s" "f < length (fs_files s)" "d < length (fs_files s)"
  shows "ram_ok (ram_addEntry name f d s) \<and> length (fs_files (ram_addEntry name f d s)) = length (fs_files s)"
proof -
  note a = ram_add_one_facts[OF assms, where name = name]
  have "ram_ok (ram_add_one dots d f (ram_add_one name f d s)) \<and>
     length (fs_files (ram_add_one dots d f (ram_add_one name f d s))) = length (fs_files s)"
    using ram_add_one_facts[where name = dots, OF a(1), of d f] a(2) assms by simp
  then show ?thesis using a unfolding ram_addEntry_def Let_def by simp
qed

lemma ram_new_ok:
  assumes "ram_ok s" "kind_entries k = []"
  shows "ram_ok (fst (ram_new k mode uid gid s))" "snd (ram_new k mode uid gid s) = length (fs_files s)"
    "length (fs_files (fst (ram_new k mode uid gid s))) = Suc (length (fs_files s))"
  using assms by (auto simp: ram_ok_def ram_new_def map_ok_def less_Suc_eq)

lemma ram_getNewDirectory_ok:
  assumes "ram_ok s"
  shows "ram_ok (fst (ram_getNewDirectory uid gid mode s))" "snd (ram_getNewDirectory uid gid mode s) = length (fs_files s)"
    "length (fs_files (fst (ram_getNewDirectory uid gid mode s))) = Suc (length (fs_files s))"
proof -
  obtain s1 f where n: "ram_new (RamDir []) mode uid gid s = (s1, f)" by fastforce
  from ram_new_ok[OF assms, of "RamDir []" mode uid gid] n
  have s1: "ram_ok s1" "f = length (fs_files s)" "length (fs_files s1) = Suc (length (fs_files s))" by simp_all
  then show "ram_ok (fst (ram_getNewDirectory uid gid mode s))" "snd (ram_getNewDirectory uid gid mode s) = length (fs_files s)"
    "length (fs_files (fst (ram_getNewDirectory uid gid mode s))) = Suc (length (fs_files s))"
    using ram_addEntry_ok[of s1 f f dot] n by (simp_all add: ram_getNewDirectory_def)
qed

text \<open>The operations of a \<open>RamFS\<close> as steps; the pointers passed are to files that exist.\<close>

inductive ram_step :: "ramfs \<Rightarrow> ramfs \<Rightarrow> bool" where
  add: "f < length (fs_files s) \<Longrightarrow> d < length (fs_files s) \<Longrightarrow> ram_step s (ram_addEntry name f d s)"
| create: "d < length (fs_files s) \<Longrightarrow> ram_createEntry name uid gid mode d s = Inr (s', f) \<Longrightarrow> ram_step s s'"
| remove: "d < length (fs_files s) \<Longrightarrow> ram_removeEntry name d s = Inr s' \<Longrightarrow> ram_step s s'"
| block: "ram_getNewBlockDevice impl uid gid mode s = (s', f) \<Longrightarrow> ram_step s s'"
| char: "ram_getNewCharacterDevice impl uid gid mode s = (s', f) \<Longrightarrow> ram_step s s'"

inductive ram_reachable :: "ramfs \<Rightarrow> bool" where
  init: "ram_reachable ram_FS"
| step: "ram_reachable s \<Longrightarrow> ram_step s s' \<Longrightarrow> ram_reachable s'"

lemma ram_step_ok: "ram_step s s' \<Longrightarrow> ram_ok s \<Longrightarrow> ram_ok s' \<and> length (fs_files s) \<le> length (fs_files s')"
proof (induction rule: ram_step.induct)
  case (add f s d name)
  then show ?case using ram_addEntry_ok by simp
next
  case (create d s name uid gid mode s' f)
  obtain s1 f1 where n1: "ram_getNewFile uid gid mode s = (s1, f1)" by fastforce
  obtain s2 f2 where n2: "ram_getNewDirectory uid gid mode s = (s2, f2)" by fastforce
  have "ram_ok s1" "f1 = length (fs_files s)" "length (fs_files s1) = Suc (length (fs_files s))"
    using n1 ram_new_ok[OF create.prems, of "RamReg []" mode uid gid] by (simp_all add: ram_getNewFile_def)
  moreover have "ram_ok s2" "f2 = length (fs_files s)" "length (fs_files s2) = Suc (length (fs_files s))"
    using n2 ram_getNewDirectory_ok[OF create.prems, of uid gid mode] by simp_all
  ultimately show ?case using create n1 n2 ram_addEntry_ok[of s1 f1 d name] ram_addEntry_ok[of s2 f2 d name]
    by (auto simp: ram_createEntry_def split: if_splits)
next
  case (remove d s name s')
  note e = ram_ok_entries[OF remove.prems remove.hyps(1)]
  have "s' = ram_set_entries d (m_del name (ram_entries d s)) s"
    using remove.hyps(2) by (auto simp: ram_removeEntry_def m_del_def check_eq_Inr split: prod.splits)
  moreover have "ram_ok (ram_set_entries d (m_del name (ram_entries d s)) s)"
    using m_del_props(1)[OF e(1)] set_m_del[of name "ram_entries d s"] e(2) remove.prems
    by (intro ram_ok_set_entries) (auto simp: m_del_def)
  ultimately show ?case by (simp add: ram_set_entries_def)
next
  case (block impl uid gid mode s s' f)
  then show ?case using ram_new_ok[OF block.prems, of "RamBlk impl" mode uid gid] by (simp add: ram_getNewBlockDevice_def)
next
  case (char impl uid gid mode s s' f)
  then show ?case using ram_new_ok[OF char.prems, of "RamChr impl" mode uid gid] by (simp add: ram_getNewCharacterDevice_def)
qed

lemma ram_FS_ok: "ram_ok ram_FS" "0 < length (fs_files ram_FS)"
proof -
  let ?e = "\<lparr>fs_files = [], fs_root = 0, fs_nextInode = 0\<rparr>"
  obtain s r where n: "ram_getNewDirectory 0 0 0x41ED ?e = (s, r)" by fastforce
  have "ram_ok ?e" by (simp add: ram_ok_def)
  from ram_getNewDirectory_ok[OF this, of 0 0 "0x41ED"] n
  have s: "ram_ok s" "r = 0" "length (fs_files s) = 1" by simp_all
  then have "ram_ok (s\<lparr>fs_root := r\<rparr>)" by (simp add: ram_ok_def)
  from ram_addEntry_ok[OF this, of r r dots] s show "ram_ok ram_FS" "0 < length (fs_files ram_FS)"
    by (simp_all add: ram_FS_def n)
qed





section \<open>The device file system\<close>

text \<open>
  The three streams of \<open>DevFS::DevFS\<close> and the drive and its partitions of \<open>addHardDrive\<close> are
  numbered: a \<open>PartitionTableEntry\<close> counts by its size only, and \<open>part i\<close> is the
  \<open>Partition\<close> object allocated for entry \<open>i\<close>.
\<close>

definition devfs_new :: "nat \<Rightarrow> nat \<Rightarrow> nat \<Rightarrow> ramfs" where
  "devfs_new streamZero streamNull streamRandom =
    (case ram_getNewCharacterDevice streamZero 0 0 0x21B6 ram_FS of (s, zero) \<Rightarrow>
     case ram_getNewCharacterDevice streamNull 0 0 0x21B6 s of (s, null) \<Rightarrow>
     case ram_getNewCharacterDevice streamRandom 0 0 0x21B6 s of (s, random) \<Rightarrow>
       let r = fs_root s in
       ram_addEntry [0x72, 0x61, 0x6E, 0x64, 0x6F, 0x6D] random r
         (ram_addEntry [0x6E, 0x75, 0x6C, 0x6C] null r (ram_addEntry [0x7A, 0x65, 0x72, 0x6F] zero r s)))"

fun devfs_partitions :: "bytes \<Rightarrow> u32 list \<Rightarrow> (nat \<Rightarrow> nat) \<Rightarrow> nat \<Rightarrow> ramfs \<Rightarrow> ramfs" where
  "devfs_partitions name [] part i s = s"
| "devfs_partitions name (sz # szs) part i s =
    (if sz = 0 then devfs_partitions name szs part (i + 1) s
     else (case ram_getNewBlockDevice (part i) 0 0 0x61B0 s of (s, block) \<Rightarrow>
       devfs_partitions name szs part (i + 1) (ram_addEntry (name @ [of_nat (0x31 + i)]) block (fs_root s) s)))"

definition devfs_addHardDrive :: "bytes \<Rightarrow> nat \<Rightarrow> u32 list \<Rightarrow> (nat \<Rightarrow> nat) \<Rightarrow> ramfs \<Rightarrow> ramfs" where
  "devfs_addHardDrive name hdd sizes part s =
    (case ram_getNewBlockDevice hdd 0 0 0x61B0 s of (s, block) \<Rightarrow>
       devfs_partitions name (take 4 sizes) part 0 (ram_addEntry name block (fs_root s) s))"

end
