(* ===== verification/VFS.thy ===== *)
theory VFS
  imports StdMap Util ByteStore
begin

text \<open>
  The virtual file system (\<open>src/src/HDD/VFS.cpp\<close>) and path resolution (\<open>FileSystem.cpp\<close>). A file
  of the VFS is a file of a mounted file system together with a device number. The mounted file
  systems are arguments: \<open>file_ops\<close> says how to look a name up in a directory, which inode number
  and which type a file has. The forwarding methods of the VFS files are the identity on
  the wrapped file.
\<close>

datatype FileType = RegularFile | Directory | BlockDevice | CharacterDevice

record 'f file_ops =
  fo_get :: "'f \<Rightarrow> bytes \<Rightarrow> 'f option"
  fo_inode :: "'f \<Rightarrow> u32"
  fo_type :: "'f \<Rightarrow> FileType"

record 'f vfile =
  vf_impl :: 'f
  vf_dev :: u32

record 'f vfs =
  v_nextDev :: u32
  v_root :: 'f
  v_mounted :: "((u32 \<times> u32) \<times> 'f vfile) list"
  v_reverse :: "((u32 \<times> u32) \<times> 'f vfile) list"

definition dot_dot :: bytes where "dot_dot = [0x2E, 0x2E]"

definition vfs_new :: "'f \<Rightarrow> 'f vfs" where
  "vfs_new fsroot = \<lparr>v_nextDev = 1, v_root = fsroot, v_mounted = [], v_reverse = []\<rparr>"

definition vfs_getRoot :: "'f vfs \<Rightarrow> 'f vfile" where
  "vfs_getRoot v = \<lparr>vf_impl = v_root v, vf_dev = 0\<rparr>"

definition vf_inode :: "'f file_ops \<Rightarrow> 'f vfile \<Rightarrow> u32" where
  "vf_inode F d = fo_inode F (vf_impl d)"

definition vfs_mount :: "'f file_ops \<Rightarrow> 'f vfile \<Rightarrow> 'f \<Rightarrow> 'f vfs \<Rightarrow> 'f vfs" where
  "vfs_mount F dir fsroot v =
    v\<lparr>v_mounted := m_ins (vf_dev dir, vf_inode F dir) \<lparr>vf_impl = fsroot, vf_dev = v_nextDev v\<rparr> (v_mounted v),
      v_reverse := m_ins (v_nextDev v, fo_inode F fsroot) dir (v_reverse v),
      v_nextDev := v_nextDev v + 1\<rparr>"

definition vfs_umount :: "'f vfile \<Rightarrow> 'f vfs \<Rightarrow> 'f vfs res" where
  "vfs_umount dir v = Inl Bsod"

definition toMounted :: "u32 \<Rightarrow> u32 \<Rightarrow> 'f vfs \<Rightarrow> 'f vfile option" where
  "toMounted ino dev v = m_look (v_mounted v) (dev, ino)"

definition fromMounted :: "u32 \<Rightarrow> u32 \<Rightarrow> 'f vfs \<Rightarrow> 'f vfile option" where
  "fromMounted ino dev v = m_look (v_reverse v) (dev, ino)"

definition vfs_convert :: "'f \<Rightarrow> u32 \<Rightarrow> 'f vfile" where
  "vfs_convert f dev = \<lparr>vf_impl = f, vf_dev = dev\<rparr>"

definition vf_getType :: "'f file_ops \<Rightarrow> 'f vfile \<Rightarrow> FileType" where
  "vf_getType F d = fo_type F (vf_impl d)"

text \<open>\<open>i_getStats\<close> sets the device in what the implementation reports.\<close>

definition vf_getStats :: "('f \<Rightarrow> 'st) \<Rightarrow> 'f vfile \<Rightarrow> 'st \<times> u32" where
  "vf_getStats stats d = (stats (vf_impl d), vf_dev d)"

section \<open>Lookup\<close>

text \<open>\<open>operator[]\<close> of a VFS directory: \<open>None\<close> when the recursion on \<open>..\<close> never ends.\<close>

partial_function (option) vfs_get :: "'f file_ops \<Rightarrow> 'f vfs \<Rightarrow> 'f vfile \<Rightarrow> bytes \<Rightarrow> 'f vfile option option" where
  "vfs_get F v dir name =
    (case (if name = dot_dot then fromMounted (vf_inode F dir) (vf_dev dir) v else None) of
       Some d \<Rightarrow> vfs_get F v d dot_dot
     | None \<Rightarrow> Some (case fo_get F (vf_impl dir) name of
         None \<Rightarrow> None
       | Some res \<Rightarrow> (case toMounted (fo_inode F res) (vf_dev dir) v of
           Some d \<Rightarrow> Some d
         | None \<Rightarrow> Some (vfs_convert res (vf_dev dir)))))"

text \<open>The inode number \<open>read\<close> reports for an entry \<open>(name, ino)\<close> of the wrapped directory.\<close>

definition vfs_read_ino :: "'f file_ops \<Rightarrow> 'f vfs \<Rightarrow> 'f vfile \<Rightarrow> bytes \<Rightarrow> u32 \<Rightarrow> u32 res option" where
  "vfs_read_ino F v this name ino =
    (case (if name = dot_dot then fromMounted (vf_inode F this) (vf_dev this) v else None) of
       Some dir \<Rightarrow> (case vfs_get F v dir dot_dot of
           None \<Rightarrow> None
         | Some None \<Rightarrow> Some (Inl NullAccess)
         | Some (Some p) \<Rightarrow> Some (Inr (vf_inode F p)))
     | None \<Rightarrow> (case toMounted ino (vf_dev this) v of
           Some dir \<Rightarrow> Some (Inr (vf_inode F dir))
         | None \<Rightarrow> Some (Inr ino)))"

text \<open>\<open>addEntry\<close> in its two forms hands the wrapped file down or wraps the new one.\<close>

definition vfs_addEntry :: "(bytes \<Rightarrow> 'f \<Rightarrow> 'f \<Rightarrow> 's \<Rightarrow> 's) \<Rightarrow> bytes \<Rightarrow> 'f vfile \<Rightarrow> 'f vfile \<Rightarrow> 's \<Rightarrow> 's" where
  "vfs_addEntry impl_add name file this s = impl_add name (vf_impl file) (vf_impl this) s"

definition vfs_createEntry :: "(bytes \<Rightarrow> u16 \<Rightarrow> u16 \<Rightarrow> u16 \<Rightarrow> 'f \<Rightarrow> 's \<Rightarrow> ('s \<times> 'f) res) \<Rightarrow>
    bytes \<Rightarrow> u16 \<Rightarrow> u16 \<Rightarrow> u16 \<Rightarrow> 'f vfile \<Rightarrow> 's \<Rightarrow> ('s \<times> 'f vfile) res" where
  "vfs_createEntry impl_create name uid gid mode this s =
    bnd (impl_create name uid gid mode (vf_impl this) s) (\<lambda>(s, f). Inr (s, vfs_convert f (vf_dev this)))"

section \<open>Directories and paths\<close>

text \<open>\<open>isEmpty\<close>: the loop over the names the directory lists.\<close>

definition is_dot_name :: "bytes \<Rightarrow> bool" where
  "is_dot_name name \<longleftrightarrow> name = [0x2E] \<or> name = [0x2E, 0x2E]"

fun isEmpty_loop :: "u32 \<Rightarrow> bytes list \<Rightarrow> bool" where
  "isEmpty_loop count [] = True"
| "isEmpty_loop count (name # names) =
    (if 2 < count + 1 then False else if \<not> is_dot_name name then False else isEmpty_loop (count + 1) names)"

definition isEmpty :: "bytes list \<Rightarrow> bool" where
  "isEmpty names = isEmpty_loop 0 names"

fun resolve_loop :: "('d \<Rightarrow> 'n \<Rightarrow> 'd option option) \<Rightarrow> ('d \<Rightarrow> bool) \<Rightarrow> 'd option \<Rightarrow> 'n list \<Rightarrow> 'd option option" where
  "resolve_loop get isdir cur [] = Some cur"
| "resolve_loop get isdir cur (name # names) =
    (case cur of
       None \<Rightarrow> Some None
     | Some d \<Rightarrow> if \<not> isdir d then Some None
         else (case get d name of None \<Rightarrow> None | Some cur' \<Rightarrow> resolve_loop get isdir cur' names))"

definition resolvePath :: "('d \<Rightarrow> bytes \<Rightarrow> 'd option option) \<Rightarrow> ('d \<Rightarrow> bool) \<Rightarrow> 'd \<Rightarrow> char list \<Rightarrow> 'd option option" where
  "resolvePath get isdir this path =
    resolve_loop (\<lambda>d n. get d (map of_char n)) isdir (Some this) (split path (CHR 0x2F) False)"

definition vfs_resolvePath :: "'f file_ops \<Rightarrow> 'f vfs \<Rightarrow> 'f vfile \<Rightarrow> char list \<Rightarrow> 'f vfile option option" where
  "vfs_resolvePath F v = resolvePath (vfs_get F v) (\<lambda>d. vf_getType F d = Directory)"

section \<open>Properties\<close>

lemma isEmpty_iff: "isEmpty names \<longleftrightarrow> length names \<le> 2 \<and> (\<forall>n\<in>set names. is_dot_name n)"
proof -
  have two: "isEmpty_loop 2 ns \<longleftrightarrow> ns = []" for ns by (cases ns) simp_all
  have one: "isEmpty_loop 1 ns \<longleftrightarrow> ns = [] \<or> (\<exists>n. ns = [n] \<and> is_dot_name n)" for ns
    by (cases ns) (auto simp: two)
  show ?thesis unfolding isEmpty_def by (cases names) (auto simp: one length_Suc_conv le_Suc_eq)
qed

text \<open>
  Mount tables: sorted maps, and a file system is mounted on a directory of a device with a
  smaller number, so the way up through \<open>..\<close> ends.
\<close>

definition vfs_ok :: "'f vfs \<Rightarrow> bool" where
  "vfs_ok v \<longleftrightarrow> map_ok (v_mounted v) \<and> map_ok (v_reverse v) \<and>
     (\<forall>dev ino d. map_of (v_reverse v) (dev, ino) = Some d \<longrightarrow> vf_dev d < dev \<and> dev < v_nextDev v)"

lemma vfs_new_ok: "vfs_ok (vfs_new r)"
  by (simp add: vfs_ok_def vfs_new_def map_ok_def)

lemma vfs_mount_ok:
  assumes "vfs_ok v" "vf_dev dir < v_nextDev v" "v_nextDev v \<noteq> - 1"
  shows "vfs_ok (vfs_mount F dir r v)"
proof -
  have inc: "v_nextDev v < v_nextDev v + 1"
  proof -
    have "1 + v_nextDev v \<noteq> 0" using assms(3) by (metis add.commute add_eq_0_iff)
    then show ?thesis using unatSuc[of "v_nextDev v"] by (simp add: word_less_nat_alt add.commute)
  qed
  show ?thesis
    using assms inc m_ins_props[of "v_mounted v"] m_ins_props[of "v_reverse v"] less_trans[OF _ inc]
    by (auto simp: vfs_ok_def vfs_mount_def)
qed



text \<open>C17. Crossing a mount point: after \<open>mount\<close>, looking up an entry that is the directory gives
  the root of the mounted file system, \<open>..\<close> of that root is \<open>..\<close> of the directory, and lookups
  of entries other than the mount point are what they were.\<close>

theorem vfs_mount_crossing:
  assumes "vfs_ok v" "vf_dev dir < v_nextDev v" "v_nextDev v \<noteq> - 1"
    and "toMounted (vf_inode F dir) (vf_dev dir) v = None"
    and "vf_dev p = vf_dev dir" "name \<noteq> dot_dot" "fo_get F (vf_impl p) name = Some res" "fo_inode F res = vf_inode F dir"
    and "fo_get F (vf_impl q) name' = Some res'" "name' \<noteq> dot_dot" "(vf_dev q, fo_inode F res') \<noteq> (vf_dev dir, vf_inode F dir)"
  shows "vfs_get F (vfs_mount F dir r v) p name = Some (Some \<lparr>vf_impl = r, vf_dev = v_nextDev v\<rparr>) \<and>
    vfs_get F (vfs_mount F dir r v) \<lparr>vf_impl = r, vf_dev = v_nextDev v\<rparr> dot_dot = vfs_get F (vfs_mount F dir r v) dir dot_dot \<and>
    vfs_get F (vfs_mount F dir r v) q name' = vfs_get F v q name'"
proof -
  let ?v = "vfs_mount F dir r v" and ?root = "\<lparr>vf_impl = r, vf_dev = v_nextDev v\<rparr>"
  have ok: "map_ok (v_mounted v)" "map_ok (v_reverse v)" using assms(1) by (simp_all add: vfs_ok_def)
  note wf = vfs_mount_ok[OF assms(1-3), of F r]
  have to: "toMounted ino dev ?v = (if (dev, ino) = (vf_dev dir, vf_inode F dir) then Some ?root else toMounted ino dev v)" for ino dev
    using std.look_ins[OF ok(1)] assms(4) by (auto simp: toMounted_def vfs_mount_def)
  have nr: "m_look (v_reverse v) (v_nextDev v, fo_inode F r) = None"
  proof (rule ccontr)
    assume "m_look (v_reverse v) (v_nextDev v, fo_inode F r) \<noteq> None"
    then obtain d where "map_of (v_reverse v) (v_nextDev v, fo_inode F r) = Some d" using m_look_map_of[OF ok(2)] by auto
    then have "v_nextDev v < v_nextDev v" using assms(1) unfolding vfs_ok_def by blast
    then show False by simp
  qed
  have from_: "fromMounted (fo_inode F r) (v_nextDev v) ?v = Some dir"
    using std.ins_new[OF ok(2) nr] by (simp add: fromMounted_def vfs_mount_def)
  have "vfs_get F ?v p name = Some (Some ?root)"
    using assms(5-8) to by (subst vfs_get.simps) simp
  moreover have "vfs_get F ?v ?root dot_dot = vfs_get F ?v dir dot_dot"
    using from_ by (subst vfs_get.simps) (simp add: vf_inode_def)
  moreover have "vfs_get F ?v q name' = vfs_get F v q name'"
  proof -
    have "toMounted (fo_inode F res') (vf_dev q) ?v = toMounted (fo_inode F res') (vf_dev q) v"
      unfolding to using assms(11) by (simp only: if_False)
    then show ?thesis using assms(9,10) by (simp add: vfs_get.simps)
  qed
  ultimately show ?thesis by blast
qed

text \<open>Two file systems: files 0 and 1, and the root 5 mounted on 1.\<close>

definition two_fs :: "nat file_ops" where
  "two_fs = \<lparr>fo_get = (\<lambda>f n. if f = 0 \<and> n = [0x61] then Some 1 else if f = 0 \<and> n = [0x62] then Some 2
       else if f = 1 \<and> n = dot_dot then Some 0 else None),
     fo_inode = of_nat, fo_type = (\<lambda>f. Directory)\<rparr>"

theorem vfs_mount_crossing_witness:
  "vfs_get two_fs (vfs_mount two_fs \<lparr>vf_impl = 1, vf_dev = 0\<rparr> 5 (vfs_new 0)) \<lparr>vf_impl = 0, vf_dev = 0\<rparr> [0x61] =
    Some (Some \<lparr>vf_impl = 5, vf_dev = 1\<rparr>)"
proof -
  have "vfs_get two_fs (vfs_mount two_fs \<lparr>vf_impl = 1, vf_dev = 0\<rparr> 5 (vfs_new 0)) \<lparr>vf_impl = 0, vf_dev = 0\<rparr> [0x61] =
      Some (Some \<lparr>vf_impl = 5, vf_dev = v_nextDev (vfs_new (0::nat))\<rparr>)"
    using vfs_mount_crossing[where F = two_fs and v = "vfs_new 0" and dir = "\<lparr>vf_impl = 1, vf_dev = 0\<rparr>" and
        p = "\<lparr>vf_impl = 0, vf_dev = 0\<rparr>" and q = "\<lparr>vf_impl = 0, vf_dev = 0\<rparr>" and name = "[0x61]" and name' = "[0x62]"
        and r = 5 and res = 1 and res' = 2, OF vfs_new_ok]
    by (simp add: vfs_new_def two_fs_def vf_inode_def dot_dot_def toMounted_def m_look_map_of map_ok_def)
  then show ?thesis by (simp add: vfs_new_def)
qed

end
