(* ===== verification/Twister.thy ===== *)
theory Twister
  imports Prelude
begin

text \<open>
  The pseudo random generator of \<open>src/src/Random.cpp\<close>, a Mersenne twister with 32 bit words that
  works in place on an array of 624 words. The reference is the linear recurrence the generator is
  defined by; \<open>rand_is_mt\<close> shows that the array code produces the tempered terms of it.
\<close>

definition mt_N :: nat where "mt_N = 624"
definition mt_M :: nat where "mt_M = 397"

definition mask_lower :: u32 where "mask_lower = 0x7FFFFFFF"
definition mask_upper :: u32 where "mask_upper = 0x80000000"

record random =
  r_mt :: "u32 list"
  r_index :: u16

text \<open>\<open>seed\<close>: the loop from \<open>1\<close> to \<open>N - 1\<close> fills the array from its first word.\<close>

fun seed_loop :: "nat \<Rightarrow> nat \<Rightarrow> u32 list \<Rightarrow> u32 list" where
  "seed_loop i 0 mt = mt"
| "seed_loop i (Suc n) mt =
    seed_loop (i + 1) n (mt[i := 1812433253 * (mt ! (i - 1) XOR drop_bit 30 (mt ! (i - 1))) + of_nat i])"

definition seed :: "u32 \<Rightarrow> random \<Rightarrow> random" where
  "seed s r = r\<lparr>r_mt := seed_loop 1 (mt_N - 1) ((r_mt r)[0 := s]), r_index := of_nat mt_N\<rparr>"

text \<open>\<open>Random()\<close>; the array is not initialised before \<open>seed\<close>, its content is a parameter.\<close>

definition random_new :: "u32 list \<Rightarrow> random" where
  "random_new garbage = seed 42 \<lparr>r_mt = garbage, r_index = 0\<rparr>"

definition twist_xA :: "u32 \<Rightarrow> u32" where
  "twist_xA x = (let xA = drop_bit 1 x in if x AND 1 \<noteq> 0 then xA XOR 0x9908B0DF else xA)"

definition twist_word :: "nat \<Rightarrow> u32 list \<Rightarrow> u32" where
  "twist_word i mt =
    mt ! ((i + mt_M) mod mt_N) XOR twist_xA ((mt ! i AND mask_upper) + (mt ! ((i + 1) mod mt_N) AND mask_lower))"

fun twist_loop :: "nat \<Rightarrow> nat \<Rightarrow> u32 list \<Rightarrow> u32 list" where
  "twist_loop i 0 mt = mt"
| "twist_loop i (Suc n) mt = twist_loop (i + 1) n (mt[i := twist_word i mt])"

definition twist :: "random \<Rightarrow> random" where
  "twist r = r\<lparr>r_mt := twist_loop 0 mt_N (r_mt r), r_index := 0\<rparr>"

definition temper :: "u32 \<Rightarrow> u32" where
  "temper w =
    (let y = w XOR drop_bit 11 w;
         y = y XOR (push_bit 7 y AND 0x9D2C5680);
         y = y XOR (push_bit 15 y AND 0xEFC60000) in
     y XOR drop_bit 18 y)"

definition rand :: "random \<Rightarrow> u32 \<times> random" where
  "rand r =
    (let r1 = (if of_nat mt_N \<le> r_index r then twist r else r) in
     (temper (r_mt r1 ! unat (r_index r1)), r1\<lparr>r_index := r_index r1 + 1\<rparr>))"

section \<open>The recurrence\<close>

text \<open>
  The sequence the generator is defined by: the first \<open>N\<close> terms are given, and every later one
  comes from the terms \<open>N\<close>, \<open>N - 1\<close> and \<open>N - M\<close> places before it.
\<close>

function mt_seq :: "u32 list \<Rightarrow> nat \<Rightarrow> u32" where
  "mt_seq x0 k =
    (if k < mt_N then x0 ! k
     else mt_seq x0 (k - mt_N + mt_M) XOR
       twist_xA ((mt_seq x0 (k - mt_N) AND mask_upper) + (mt_seq x0 (k - mt_N + 1) AND mask_lower)))"
  by pat_completeness auto
termination
  by (relation "measure (\<lambda>(x0, k). k)") (auto simp: mt_N_def mt_M_def)

declare mt_seq.simps [simp del]

text \<open>\<open>window x0 k i\<close>: the array in the middle of the \<open>twist\<close> that leads from the terms \<open>k..\<close> to the
  terms \<open>k + N..\<close>, with \<open>i\<close> words done.\<close>

definition window :: "u32 list \<Rightarrow> nat \<Rightarrow> nat \<Rightarrow> u32 list" where
  "window x0 k i = map (\<lambda>j. mt_seq x0 (if j < i then k + mt_N + j else k + j)) [0..<mt_N]"

lemma length_window [simp]: "length (window x0 k i) = mt_N"
  by (simp add: window_def)

lemma nth_window: "j < mt_N \<Longrightarrow> window x0 k i ! j = mt_seq x0 (if j < i then k + mt_N + j else k + j)"
  by (simp add: window_def)

lemma mt_N_pos: "0 < mt_N" "mt_M < mt_N" "mt_N < 2 ^ 16" "1 < mt_N" "0 < mt_M"
  by (simp_all add: mt_N_def mt_M_def)

lemma window_mod:
  assumes "i \<le> j" "j < i + mt_N" "i < mt_N" "i = j \<longrightarrow> \<not> j < i"
  shows "window x0 k i ! (j mod mt_N) = mt_seq x0 (k + j)"
proof (cases "j < mt_N")
  case True
  then show ?thesis using assms by (simp add: nth_window)
next
  case False
  then obtain d where j: "j = mt_N + d" using le_Suc_ex not_less by blast
  have "d < i" using assms j by simp
  then show ?thesis using assms by (simp add: j nth_window add.assoc)
qed

lemma twist_word_window:
  assumes "i < mt_N"
  shows "twist_word i (window x0 k i) = mt_seq x0 (k + mt_N + i)"
proof -
  have "window x0 k i ! ((i + mt_M) mod mt_N) = mt_seq x0 (k + (i + mt_M))"
    using assms mt_N_pos by (intro window_mod) auto
  moreover have "window x0 k i ! ((i + 1) mod mt_N) = mt_seq x0 (k + (i + 1))"
    using assms mt_N_pos by (intro window_mod) auto
  moreover have "window x0 k i ! i = mt_seq x0 (k + i)" using assms by (simp add: nth_window)
  ultimately show ?thesis using mt_seq.simps[of x0 "k + mt_N + i"]
    by (simp add: twist_word_def ac_simps)
qed

lemma window_step:
  assumes "i < mt_N"
  shows "(window x0 k i)[i := twist_word i (window x0 k i)] = window x0 k (i + 1)"
  using assms by (intro nth_equalityI) (auto simp: nth_list_update nth_window twist_word_window less_Suc_eq)

lemma twist_loop_window:
  "i + n = mt_N \<Longrightarrow> twist_loop i n (window x0 k i) = window x0 k mt_N"
  by (induction n arbitrary: i) (auto simp: window_step[simplified])

lemma window_next: "window x0 k mt_N = window x0 (k + mt_N) 0"
  by (intro nth_equalityI) (simp_all add: nth_window)

lemma twist_window: "twist_loop 0 mt_N (window x0 k 0) = window x0 (k + mt_N) 0"
  using twist_loop_window[of 0 mt_N x0 k] by (simp add: window_next)

text \<open>\<open>mt_at x0 k r\<close>: the next output of \<open>r\<close> is the term \<open>k\<close>.\<close>

definition mt_at :: "u32 list \<Rightarrow> nat \<Rightarrow> random \<Rightarrow> bool" where
  "mt_at x0 k r \<longleftrightarrow> unat (r_index r) \<le> mt_N \<and> (\<exists>b. r_mt r = window x0 b 0 \<and> k = b + unat (r_index r))"

lemma unat_N: "unat (of_nat mt_N :: u16) = mt_N"
  using mt_N_pos by (simp add: mt_N_def)

lemma rand_step:
  assumes "mt_at x0 k r"
  shows "fst (rand r) = temper (mt_seq x0 k) \<and> mt_at x0 (k + 1) (snd (rand r))"
proof -
  from assms obtain b where b: "r_mt r = window x0 b 0" "k = b + unat (r_index r)" "unat (r_index r) \<le> mt_N"
    by (auto simp: mt_at_def)
  have out: "fst (rand r) = temper (mt_seq x0 k) \<and> mt_at x0 (k + 1) (snd (rand r))"
    if "r1 = (if of_nat mt_N \<le> r_index r then twist r else r)" "r_mt r1 = window x0 c 0"
      "k = c + unat (r_index r1)" "unat (r_index r1) < mt_N" for r1 c
  proof -
    have r: "rand r = (temper (r_mt r1 ! unat (r_index r1)), r1\<lparr>r_index := r_index r1 + 1\<rparr>)"
      by (simp add: rand_def that(1) Let_def)
    have u: "unat (r_index r1 + 1) = unat (r_index r1) + 1"
      using that(4) mt_N_pos(3) by (subst unat_add_lem[THEN iffD1]) simp_all
    show ?thesis using that(2-4) u by (auto simp: r nth_window mt_at_def)
  qed
  show ?thesis
  proof (cases "(of_nat mt_N :: u16) \<le> r_index r")
    case True
    then have "unat (r_index r) = mt_N" using b(3) unat_N by (simp add: word_le_nat_alt)
    then show ?thesis using b True twist_window mt_N_pos by (intro out[of "twist r" "b + mt_N"]) (simp_all add: twist_def)
  next
    case False
    then have "unat (r_index r) < mt_N" using unat_N by (simp add: word_le_nat_alt not_le)
    then show ?thesis using b False by (intro out[of r b]) simp_all
  qed
qed

fun rands :: "nat \<Rightarrow> random \<Rightarrow> u32 list \<times> random" where
  "rands 0 r = ([], r)"
| "rands (Suc n) r = (case rand r of (x, r1) \<Rightarrow> case rands n r1 of (xs, r2) \<Rightarrow> (x # xs, r2))"

lemma rands_at:
  "mt_at x0 k r \<Longrightarrow> fst (rands n r) = map (\<lambda>i. temper (mt_seq x0 (k + i))) [0..<n]"
proof (induction n arbitrary: k r)
  case 0
  then show ?case by simp
next
  case (Suc n)
  obtain x r1 where r: "rand r = (x, r1)" by fastforce
  from rand_step[OF Suc.prems] r have x: "x = temper (mt_seq x0 k)" "mt_at x0 (k + 1) r1" by simp_all
  have "[0..<Suc n] = 0 # map Suc [0..<n]" by (simp add: map_Suc_upt upt_conv_Cons)
  then show ?case using Suc.IH[OF x(2)] x(1) r by (simp add: split_beta comp_def)
qed

lemma length_seed_loop: "length (seed_loop i n mt) = length mt"
  by (induction n arbitrary: i mt) simp_all

lemma seed_mt_at:
  assumes "length (r_mt r) = mt_N"
  shows "mt_at (r_mt (seed s r)) mt_N (seed s r)"
proof -
  let ?m = "r_mt (seed s r)"
  have "length ?m = mt_N" using assms by (simp add: seed_def length_seed_loop)
  then have "?m = window ?m 0 0" by (intro nth_equalityI) (simp_all add: nth_window mt_seq.simps)
  then show ?thesis using unat_N by (auto simp: mt_at_def seed_def)
qed

text \<open>After seeding, the outputs of \<open>rand\<close> are the tempered terms of the recurrence, from term
  \<open>N\<close> on, however many are drawn: the in-place twist never reads a word it should not have
  overwritten yet, nor one it should have.\<close>

theorem rand_is_mt:
  assumes "length (r_mt r) = mt_N"
  shows "fst (rands n (seed s r)) = map (\<lambda>i. temper (mt_seq (r_mt (seed s r)) (mt_N + i))) [0..<n]"
  by (rule rands_at[OF seed_mt_at[OF assms]])

theorem rand_is_mt_witness:
  "fst (rands 2 (random_new (replicate mt_N 0))) =
    map (\<lambda>i. temper (mt_seq (r_mt (random_new (replicate mt_N 0))) (mt_N + i))) [0..<2]"
  unfolding random_new_def by (rule rand_is_mt) simp

end
