(* ===== verification/Streams.thy ===== *)
theory Streams
  imports RamFile Twister
begin

text \<open>
  The streams of \<open>src/src/Streams\<close>: the three basic devices, the stream over a byte sequence, pipes,
  the prefixing stream of the log and the stream that copies to several others. A result of a
  \<open>size_t\<close> function that stands for an error is the two's complement of the error number, as in the
  code. A \<open>read\<close> returns its count together with the bytes it stored.
\<close>

definition EPIPE :: u64 where "EPIPE = 3"

definition READABLE :: u64 where "READABLE = 1"
definition WRITABLE :: u64 where "WRITABLE = 2"
definition SEEKABLE :: u64 where "SEEKABLE = 4"
definition APPENDABLE :: u64 where "APPENDABLE = 8"
definition WAITABLE :: u64 where "WAITABLE = 16"

datatype seek_mod = BEG | CUR | END

text \<open>\<open>Stream::check\<close>: the test takes the mask as a \<open>u8\<close>.\<close>

definition stream_check :: "u64 \<Rightarrow> u8 \<Rightarrow> bool" where
  "stream_check msk val \<longleftrightarrow> msk AND ucast val \<noteq> 0"

text \<open>The defaults of the base class, which streams that do not override them have.\<close>

definition default_read :: "u64 \<Rightarrow> u64" where "default_read count = - 1"
definition default_eof :: bool where "default_eof = True"
definition default_write :: "bytes \<Rightarrow> u64" where "default_write buf = - 1"
definition default_tell :: u64 where "default_tell = - 1"
definition default_seek :: "u64 \<Rightarrow> seek_mod \<Rightarrow> u64" where "default_seek count m = - 1"
definition default_end :: "u64 \<Rightarrow> u64" where "default_end msk = (if stream_check msk 4 then 0 else - 1)"

text \<open>
  \<open>bwrite\<close>: writes until everything is written or \<open>write\<close> fails; \<open>None\<close> when it never returns. A
  \<open>write\<close> takes at most what it is given.
\<close>

partial_function (option) bwrite_loop :: "(bytes \<Rightarrow> 's \<Rightarrow> u64 \<times> 's) \<Rightarrow> bytes \<Rightarrow> u64 \<Rightarrow> 's \<Rightarrow> (u64 \<times> 's) option" where
  "bwrite_loop wr buf ret s =
    (if buf = [] then Some (ret, s)
     else (case wr buf s of (res, s1) \<Rightarrow>
       if sint res \<le> 0 then Some (res, s1) else bwrite_loop wr (drop (unat res) buf) ret s1))"

definition bwrite :: "(bytes \<Rightarrow> 's \<Rightarrow> u64 \<times> 's) \<Rightarrow> bytes \<Rightarrow> 's \<Rightarrow> (u64 \<times> 's) option" where
  "bwrite wr buf s = bwrite_loop wr buf (of_nat (length buf)) s"

section \<open>Basic devices\<close>

definition basic_mask :: u64 where "basic_mask = READABLE OR WRITABLE OR SEEKABLE OR APPENDABLE"

definition zero_read :: "u64 \<Rightarrow> u64 \<times> bytes" where
  "zero_read count = (count, replicate (unat count) 0)"

definition zero_write :: "bytes \<Rightarrow> u64" where "zero_write buf = of_nat (length buf)"

definition null_read :: "u64 \<Rightarrow> u64 \<times> bytes" where "null_read count = (0, [])"

definition null_write :: "bytes \<Rightarrow> u64" where "null_write buf = of_nat (length buf)"

definition basic_tell :: u64 where "basic_tell = 0"

definition basic_seek :: "u64 \<Rightarrow> seek_mod \<Rightarrow> u64" where "basic_seek count m = 0"

definition zero_eof :: bool where "zero_eof = False"
definition null_eof :: bool where "null_eof = True"
definition random_eof :: bool where "random_eof = False"

definition random_write :: "bytes \<Rightarrow> u64" where "random_write buf = of_nat (length buf)"

text \<open>\<open>StreamRandom::read\<close>: whole words first, stored little endian, then the low bytes of one more.\<close>

fun random_words :: "nat \<Rightarrow> random \<Rightarrow> bytes \<times> random" where
  "random_words 0 r = ([], r)"
| "random_words (Suc n) r =
    (case rand r of (w, r1) \<Rightarrow> case random_words n r1 of (bs, r2) \<Rightarrow> (le_bytes 4 (unat w) @ bs, r2))"

fun random_rest :: "nat \<Rightarrow> u32 \<Rightarrow> bytes" where
  "random_rest 0 rest = []"
| "random_rest (Suc n) rest = ucast (rest AND 0xFF) # random_rest n (drop_bit 8 rest)"

definition random_read :: "u64 \<Rightarrow> random \<Rightarrow> u64 \<times> bytes \<times> random" where
  "random_read count r =
    (case random_words (unat (count div 4)) r of (bs, r1) \<Rightarrow>
       if count mod 4 = 0 then (count, bs, r1)
       else (case rand r1 of (rest, r2) \<Rightarrow> (count, bs @ random_rest (unat count - 4 * unat (count div 4)) rest, r2)))"

section \<open>The stream over a byte sequence\<close>

record 'p bstream =
  bst_data :: 'p
  bst_addr :: u64

definition bst_new :: "'p \<Rightarrow> 'p bstream" where
  "bst_new d = \<lparr>bst_data = d, bst_addr = 0\<rparr>"

definition bst_mask :: u64 where "bst_mask = READABLE OR WRITABLE OR APPENDABLE OR SEEKABLE"

definition bst_read :: "'p bytes_ops \<Rightarrow> u64 \<Rightarrow> 'p bstream \<Rightarrow> (u64 \<times> bytes \<times> 'p bstream) res" where
  "bst_read B count s =
    (let toRead = max 0 (min count (bsize B (bst_data s) - bst_addr s)) in
     if toRead = 0 then Inr (0, [], s)
     else bnd (readaddr B (bst_addr s) toRead (bst_data s))
       (\<lambda>bs. Inr (toRead, bs, s\<lparr>bst_addr := bst_addr s + toRead\<rparr>)))"

text \<open>\<open>eof()\<close> is not \<open>const\<close>, so it hides the one of \<open>Stream\<close> and does not override it: a caller that
  has a \<open>Stream\<close> gets \<open>default_eof\<close>.\<close>

definition bst_eof :: "'p bytes_ops \<Rightarrow> 'p bstream \<Rightarrow> bool" where
  "bst_eof B s \<longleftrightarrow> bst_addr s = bsize B (bst_data s)"

definition bst_write :: "'p bytes_ops \<Rightarrow> bool \<Rightarrow> bytes \<Rightarrow> 'p bstream \<Rightarrow> (u64 \<times> 'p bstream) res" where
  "bst_write B appendable buf s =
    (let toWrite = (if appendable then of_nat (length buf)
                    else max 0 (min (of_nat (length buf)) (bsize B (bst_data s) - bst_addr s))) in
     if toWrite = 0 then Inr (0, s)
     else bnd (writeaddr B (bst_addr s) (take (unat toWrite) buf) (bst_data s))
       (\<lambda>d. Inr (toWrite, \<lparr>bst_data = d, bst_addr = bst_addr s + toWrite\<rparr>)))"

definition bst_tell :: "'p bstream \<Rightarrow> u64" where "bst_tell s = bst_addr s"

definition bst_end :: "'p bytes_ops \<Rightarrow> 'p bstream \<Rightarrow> u64" where
  "bst_end B s = bsize B (bst_data s)"

fun seek_target :: "'p bytes_ops \<Rightarrow> u64 \<Rightarrow> seek_mod \<Rightarrow> 'p bstream \<Rightarrow> u64" where
  "seek_target B count BEG s = count"
| "seek_target B count CUR s = bst_addr s + count"
| "seek_target B count END s = bsize B (bst_data s) + count"

definition bst_seek :: "'p bytes_ops \<Rightarrow> u64 \<Rightarrow> seek_mod \<Rightarrow> 'p bstream \<Rightarrow> u64 \<times> 'p bstream" where
  "bst_seek B count m s =
    (let toSet = seek_target B count m s in
     if bsize B (bst_data s) < toSet then (- 1, s) else (toSet, s\<lparr>bst_addr := toSet\<rparr>))"

section \<open>Pipes\<close>

text \<open>
  The shared \<open>PipeStream\<close>. \<open>pp_out\<close> says whether the reading end exists, \<open>pp_live\<close> whether the
  object has not been deleted. \<open>write\<close> also says whether it wakes the threads that wait for the
  reading end.
\<close>

record pipe =
  pp_deque :: bytes
  pp_out :: bool
  pp_eof :: bool
  pp_nbRef :: u8
  pp_live :: bool

definition pipe_new :: pipe where
  "pipe_new = \<lparr>pp_deque = [], pp_out = True, pp_eof = False, pp_nbRef = 2, pp_live = True\<rparr>"

definition pipe_mask :: u64 where "pipe_mask = READABLE OR WRITABLE OR APPENDABLE"
definition pipe_in_mask :: u64 where "pipe_in_mask = WRITABLE OR APPENDABLE"
definition pipe_out_mask :: u64 where "pipe_out_mask = READABLE OR WAITABLE"

fun pipe_read_loop :: "nat \<Rightarrow> bytes \<Rightarrow> bytes \<times> bytes" where
  "pipe_read_loop 0 dq = ([], dq)"
| "pipe_read_loop (Suc n) [] = ([], [])"
| "pipe_read_loop (Suc n) (x # dq) = (case pipe_read_loop n dq of (bs, dq') \<Rightarrow> (x # bs, dq'))"

definition pipe_read :: "u64 \<Rightarrow> pipe \<Rightarrow> u64 \<times> bytes \<times> pipe" where
  "pipe_read count p =
    (case pipe_read_loop (unat count) (pp_deque p) of (bs, dq) \<Rightarrow> (of_nat (length bs), bs, p\<lparr>pp_deque := dq\<rparr>))"

definition pipe_write :: "bytes \<Rightarrow> pipe \<Rightarrow> u64 \<times> bool \<times> pipe" where
  "pipe_write buf p =
    (let p1 = p\<lparr>pp_deque := fold (\<lambda>c dq. dq @ [c]) buf (pp_deque p)\<rparr> in
     if pp_out p1 then (of_nat (length buf), True, p1) else (- EPIPE, False, p1))"

definition pipe_decrRef :: "pipe \<Rightarrow> pipe" where
  "pipe_decrRef p = (let n = pp_nbRef p - 1 in p\<lparr>pp_nbRef := n, pp_live := pp_live p \<and> n \<noteq> 0\<rparr>)"

definition pipe_sendEof :: "pipe \<Rightarrow> pipe" where "pipe_sendEof p = p\<lparr>pp_eof := True\<rparr>"

text \<open>The destructors of the two ends; a store to the deleted pipe is a fault.\<close>

definition pipe_in_close :: "pipe \<Rightarrow> pipe res" where
  "pipe_in_close p = check (pp_live p) OutOfBounds (Inr (pipe_decrRef (pipe_sendEof p)))"

definition pipe_out_close :: "pipe \<Rightarrow> pipe res" where
  "pipe_out_close p =
    check (pp_live p) OutOfBounds
      (let p1 = pipe_decrRef p in check (pp_live p1) OutOfBounds (Inr (p1\<lparr>pp_out := False\<rparr>)))"

section \<open>Prefixing and copying streams\<close>

record prefix_stream =
  ps_prefix :: bytes
  ps_buffer :: bytes

definition prefix_new :: "bytes \<Rightarrow> prefix_stream" where
  "prefix_new pre = \<lparr>ps_prefix = pre, ps_buffer = []\<rparr>"

text \<open>\<open>PrefixStream::write\<close>; the third component is what it hands to the \<open>bwrite\<close> of the underlying
  stream, in order.\<close>

fun prefix_loop :: "bytes \<Rightarrow> prefix_stream \<Rightarrow> prefix_stream \<times> bytes" where
  "prefix_loop [] s = (s, [])"
| "prefix_loop (c # cs) s =
    (let s1 = s\<lparr>ps_buffer := ps_buffer s @ [c]\<rparr> in
     if c = 10 then
       (case prefix_loop cs (s1\<lparr>ps_buffer := []\<rparr>) of (s2, out) \<Rightarrow> (s2, ps_prefix s1 @ ps_buffer s1 @ out))
     else prefix_loop cs s1)"

definition prefix_write :: "bytes \<Rightarrow> prefix_stream \<Rightarrow> u64 \<times> prefix_stream \<times> bytes" where
  "prefix_write buf s = (case prefix_loop buf s of (s1, out) \<Rightarrow> (of_nat (length buf), s1, out))"

definition prefix_mask :: "u64 \<Rightarrow> u64" where
  "prefix_mask m = m AND (WRITABLE OR APPENDABLE)"

text \<open>\<open>OutMixStream::write\<close>: each of the streams must take everything.\<close>

fun outmix_write :: "(bytes \<Rightarrow> 's \<Rightarrow> u64 \<times> 's) list \<Rightarrow> bytes \<Rightarrow> 's \<Rightarrow> (u64 \<times> 's) res option" where
  "outmix_write [] buf s = Some (Inr (of_nat (length buf), s))"
| "outmix_write (wr # ws) buf s =
    (case bwrite wr buf s of
       None \<Rightarrow> None
     | Some (v, s1) \<Rightarrow> if v = of_nat (length buf) then outmix_write ws buf s1 else Some (Inl Assertion))"

definition outmix_new :: "u64 list \<Rightarrow> unit res" where
  "outmix_new masks = assertk (\<forall>m\<in>set masks. stream_check m 2) (Inr ())"

section \<open>Properties\<close>

lemma fold_snoc: "fold (\<lambda>c dq. dq @ [c]) xs ys = ys @ xs"
  by (induction xs arbitrary: ys) simp_all

lemma pipe_read_loop_eq: "pipe_read_loop n dq = (take n dq, drop n dq)"
  by (induction n dq rule: pipe_read_loop.induct) simp_all

lemma pipe_read_eq:
  "pipe_read n p = (of_nat (length (take (unat n) (pp_deque p))), take (unat n) (pp_deque p), p\<lparr>pp_deque := drop (unat n) (pp_deque p)\<rparr>)"
  by (simp add: pipe_read_def pipe_read_loop_eq)

lemma pipe_write_deque: "pp_deque (snd (snd (pipe_write buf p))) = pp_deque p @ buf"
  by (simp add: pipe_write_def fold_snoc Let_def)

text \<open>
  The life of a pipe: what was written to it and read from it so far, and which ends are open. An
  end is closed once; the writer writes and the reader reads only through its open end.
\<close>

inductive pipe_run :: "bool \<Rightarrow> bool \<Rightarrow> bytes \<Rightarrow> bytes \<Rightarrow> pipe \<Rightarrow> bool" where
  start: "pipe_run True True [] [] pipe_new"
| wrote: "pipe_run True r w o' p \<Longrightarrow> pipe_write buf p = (n, wk, p') \<Longrightarrow> pipe_run True r (w @ buf) o' p'"
| got: "pipe_run a True w o' p \<Longrightarrow> pipe_read n p = (k, bs, p') \<Longrightarrow> pipe_run a True w (o' @ bs) p'"
| close_in: "pipe_run True r w o' p \<Longrightarrow> pipe_in_close p = Inr p' \<Longrightarrow> pipe_run False r w o' p'"
| close_out: "pipe_run a True w o' p \<Longrightarrow> pipe_out_close p = Inr p' \<Longrightarrow> pipe_run a False w o' p'"

lemma pipe_run_state:
  assumes "pipe_run a r w out p"
  shows "w = out @ pp_deque p \<and> pp_out p = r \<and> pp_eof p = (\<not> a) \<and>
    pp_nbRef p = (if a then 1 else 0) + (if r then 1 else 0) \<and> pp_live p = (a \<or> r)"
  using assms
proof (induction rule: pipe_run.induct)
  case (wrote r w o' p buf n wk p')
  then have "p' = p\<lparr>pp_deque := pp_deque p @ buf\<rparr>"
    by (auto simp: pipe_write_def fold_snoc Let_def split: if_splits)
  then show ?case using wrote.IH by simp
next
  case (got a w o' p n k bs p')
  then show ?case by (auto simp: pipe_read_eq)
next
  case (close_in r w o' p p')
  then show ?case
    by (cases r) (auto simp: pipe_in_close_def pipe_decrRef_def pipe_sendEof_def check_def Let_def split: if_splits)
next
  case (close_out a w o' p p')
  then show ?case
    by (cases a) (auto simp: pipe_out_close_def pipe_decrRef_def check_def Let_def split: if_splits)
qed (simp add: pipe_new_def)

text \<open>C25. A pipe is a first in, first out channel: whatever the writes, reads and closings, what was
  read and then what is still queued is what was written, and the reader sees the end of
  file exactly when the queue is drained and the writing end was closed.\<close>

theorem pipe_fifo:
  assumes "pipe_run a True w out p" "0 < n"
  shows "(case pipe_read n p of (k, bs, p') \<Rightarrow> w = out @ bs @ pp_deque p' \<and> unat k = length bs \<and>
    (k = 0 \<longleftrightarrow> w = out) \<and> (pp_eof p' \<longleftrightarrow> \<not> a))"
proof -
  note s = pipe_run_state[OF assms(1)]
  let ?bs = "take (unat n) (pp_deque p)"
  have l: "length ?bs \<le> unat n" by simp
  then have "length ?bs < 2 ^ 64" using unsigned_less[where ?'a = nat and w = n] by simp
  then have u: "unat (of_nat (length ?bs) :: u64) = length ?bs" unfolding unat_of_nat by simp
  have n: "0 < unat n" using assms(2) by (simp add: word_less_nat_alt)
  have "(of_nat (length ?bs) :: u64) = 0 \<longleftrightarrow> pp_deque p = []"
    using u n by (metis length_0_conv take_eq_Nil unat_0 unat_eq_zero less_irrefl)
  then show ?thesis using s u by (simp add: pipe_read_eq)
qed

lemma pipe_run_demo: "pipe_run True True [1, 2, 3] [] (pipe_new\<lparr>pp_deque := [1, 2, 3]\<rparr>)"
  using pipe_run.wrote[OF pipe_run.start, of "[1, 2, 3]"] by (simp add: pipe_write_def pipe_new_def)

theorem pipe_fifo_witness:
  "case pipe_read 2 (pipe_new\<lparr>pp_deque := [1, 2, 3]\<rparr>) of (k, bs, p') \<Rightarrow> [1, 2, 3] = [] @ bs @ pp_deque p' \<and> bs = [1, 2]"
  using pipe_fifo[OF pipe_run_demo, of 2] by (simp add: pipe_read_eq)

text \<open>Closing the ends: closing the reading end first leaves a pipe on which every write reports
  \<open>EPIPE\<close>; but when the reading end is the last one, its destructor stores to the pipe
  it has just deleted.\<close>

theorem pipe_close_reader:
  assumes "pipe_run a True w out p"
  shows "(if a then (\<exists>p'. pipe_out_close p = Inr p' \<and> fst (pipe_write buf p') = - EPIPE \<and> pipe_in_close p' \<noteq> Inl OutOfBounds)
     else pipe_out_close p = Inl OutOfBounds)"
  using pipe_run_state[OF assms]
  by (cases a) (auto simp: pipe_out_close_def pipe_in_close_def pipe_decrRef_def pipe_write_def check_def Let_def)

theorem pipe_close_reader_witness: "pipe_out_close (pipe_new\<lparr>pp_eof := True, pp_nbRef := 1\<rparr>) = Inl OutOfBounds"
proof -
  have "pipe_run False True [] [] (pipe_new\<lparr>pp_eof := True, pp_nbRef := 1\<rparr>)"
    using pipe_run.close_in[OF pipe_run.start, of "pipe_new\<lparr>pp_eof := True, pp_nbRef := 1\<rparr>"]
    by (simp add: pipe_in_close_def pipe_new_def pipe_decrRef_def pipe_sendEof_def)
  from pipe_close_reader[OF this] show ?thesis by simp
qed

subsection \<open>Prefixed lines\<close>

lemma prefix_loop_append:
  "prefix_loop (xs @ ys) s = (case prefix_loop xs s of (s1, o1) \<Rightarrow> case prefix_loop ys s1 of (s2, o2) \<Rightarrow> (s2, o1 @ o2))"
  by (induction xs arbitrary: s) (auto simp: Let_def split: prod.splits)

lemma prefix_loop_line:
  "10 \<notin> set l \<Longrightarrow> prefix_loop (l @ [10]) s = (s\<lparr>ps_buffer := []\<rparr>, ps_prefix s @ ps_buffer s @ l @ [10])"
  by (induction l arbitrary: s) (simp_all add: Let_def)

lemma prefix_loop_rest: "10 \<notin> set l \<Longrightarrow> prefix_loop l s = (s\<lparr>ps_buffer := ps_buffer s @ l\<rparr>, [])"
  by (induction l arbitrary: s) (simp_all add: Let_def)

fun prefix_writes :: "bytes list \<Rightarrow> prefix_stream \<Rightarrow> prefix_stream \<times> bytes" where
  "prefix_writes [] s = (s, [])"
| "prefix_writes (b # bs) s =
    (case prefix_write b s of (n, s1, o1) \<Rightarrow> case prefix_writes bs s1 of (s2, o2) \<Rightarrow> (s2, o1 @ o2))"

lemma prefix_writes_concat: "prefix_writes bs s = prefix_loop (concat bs) s"
  by (induction bs arbitrary: s) (auto simp: prefix_write_def prefix_loop_append split: prod.splits)

text \<open>C40. However the text is cut into writes, every complete line comes out once, in order, behind
  the prefix, and the incomplete last line is held back.\<close>

theorem prefix_lines:
  assumes "concat bufs = concat (map (\<lambda>l. l @ [10]) ls) @ rest" "10 \<notin> set rest" "\<forall>l\<in>set ls. 10 \<notin> set l"
  shows "prefix_writes bufs (prefix_new pre) =
    (\<lparr>ps_prefix = pre, ps_buffer = rest\<rparr>, concat (map (\<lambda>l. pre @ l @ [10]) ls))"
proof -
  have ls: "prefix_loop (concat (map (\<lambda>l. l @ [10]) ls)) (prefix_new pre) =
     (prefix_new pre, concat (map (\<lambda>l. pre @ l @ [10]) ls))"
    using assms(3)
  proof (induction ls)
    case (Cons l ls)
    have l: "prefix_loop (l @ [10]) (prefix_new pre) = (prefix_new pre, pre @ l @ [10])"
      using Cons.prems prefix_loop_line[of l "prefix_new pre"] by (simp add: prefix_new_def)
    have e: "concat (map (\<lambda>l. l @ [10]) (l # ls)) = (l @ [10]) @ concat (map (\<lambda>l. l @ [10]) ls)" by simp
    show ?case unfolding e prefix_loop_append[of "l @ [10]"] l using Cons by simp
  qed simp
  show ?thesis
    unfolding prefix_writes_concat assms(1) prefix_loop_append ls
    using prefix_loop_rest[OF assms(2), of "prefix_new pre"] by (simp add: prefix_new_def)
qed

theorem prefix_lines_witness:
  "prefix_writes [[65], [66, 10, 67], [10, 68]] (prefix_new [62]) =
    (\<lparr>ps_prefix = [62], ps_buffer = [68]\<rparr>, [62, 65, 66, 10, 62, 67, 10])"
  using prefix_lines[of "[[65], [66, 10, 67], [10, 68]]" "[[65, 66], [67]]" "[68]" "[62]"] by simp

subsection \<open>Streams over byte sequences\<close>

text \<open>Writing through the stream of an in-memory file, seeking back and reading gives
  what was written, with the position behind it.\<close>

theorem bst_write_seek_read:
  assumes "unat (bst_addr s) + length buf < 2 ^ 64" "length (bst_data s) < 2 ^ 64" "buf \<noteq> []"
  shows "\<exists>s1 s2 s3. bst_write ram_ops True buf s = Inr (of_nat (length buf), s1) \<and>
    bst_addr s1 = bst_addr s + of_nat (length buf) \<and>
    bst_seek ram_ops (bst_addr s) BEG s1 = (bst_addr s, s2) \<and>
    bst_read ram_ops (of_nat (length buf)) s2 = Inr (of_nat (length buf), buf, s3) \<and> bst_tell s3 = bst_tell s1"
proof -
  define c where "c = (if unat (bst_addr s) + length buf \<le> length (bst_data s) then bst_data s
     else bst_data s @ replicate (unat (bst_addr s) + length buf - length (bst_data s)) 0)"
  have le: "unat (bst_addr s) + length buf \<le> length c" and c64: "length c < 2 ^ 64" using assms by (auto simp: c_def)
  let ?c = "overwrite (unat (bst_addr s)) buf c"
  let ?n = "of_nat (length buf) :: u64"
  have lc: "length ?c = length c" using le by simp
  have u: "unat ?n = length buf" unfolding unat_of_nat using assms(1) by simp
  have n0: "?n \<noteq> 0" using u assms(3) by (metis length_0_conv unat_0)
  have w: "ram_writeaddr (bst_addr s) buf (bst_data s) = Inr ?c"
    using ram_write[OF assms(1,2)] by (simp add: c_def)
  let ?s1 = "\<lparr>bst_data = ?c, bst_addr = bst_addr s + ?n\<rparr>"
  have 1: "bst_write ram_ops True buf s = Inr (?n, ?s1)"
    using w n0 u by (simp add: bst_write_def Let_def ram_ops_def)
  have sz: "unat (of_nat (length c) :: u64) = length c" unfolding unat_of_nat using c64 by simp
  have 2: "bst_seek ram_ops (bst_addr s) BEG ?s1 = (bst_addr s, ?s1\<lparr>bst_addr := bst_addr s\<rparr>)"
    using le sz lc by (simp add: bst_seek_def Let_def ram_ops_def ram_getSize_def word_less_nat_alt)
  have sub: "unat (of_nat (length c) - bst_addr s) = length c - unat (bst_addr s)"
    using sz le by (subst unat_sub) (simp_all add: word_le_nat_alt)
  have "?n \<le> of_nat (length c) - bst_addr s" using sub le u by (simp add: word_le_nat_alt)
  then have toRead: "max 0 (min ?n (of_nat (length c) - bst_addr s)) = ?n"
    by (simp add: min_def max_def)
  have r: "ram_readaddr (bst_addr s) ?n ?c = Inr buf"
    using ram_read[of ?c "bst_addr s" ?n] lc c64 le u overwrite_same[OF le] by simp
  have 3: "bst_read ram_ops ?n (?s1\<lparr>bst_addr := bst_addr s\<rparr>) = Inr (?n, buf, ?s1)"
    using toRead r n0 lc by (simp add: bst_read_def Let_def ram_ops_def ram_getSize_def)
  show ?thesis using 1 2 3 by auto
qed

theorem bst_write_seek_read_witness:
  "\<exists>s1 s2 s3. bst_write ram_ops True [7, 8] (bst_new [1]) = Inr (2, s1) \<and> bst_seek ram_ops 0 BEG s1 = (0, s2) \<and>
    bst_read ram_ops 2 s2 = Inr (2, [7, 8], s3)"
  using bst_write_seek_read[of "bst_new [1]" "[7, 8]"] by (simp add: bst_new_def) metis

end
