(* ===== verification/Waits.thy ===== *)
theory Waits
  imports Prelude
begin

text \<open>
  The waiting protocol of \<open>src/src/Processes/Waiting.h\<close>: objects that can be waited for
  (\<open>Waitable\<close>) and objects that wait (\<open>Waiting\<close>, the threads). The fields of all objects of the two
  classes are kept together in one record, as functions of the object; \<open>'w\<close> are the waitable objects,
  \<open>'t\<close> the waiting ones and \<open>'c\<close> the checkers.
\<close>

record ('w, 't, 'c) wait_state =
  ws_waitings :: "'w \<Rightarrow> 't set"
  ws_waiting :: "'t \<Rightarrow> 'w set"
  ws_waited :: "'t \<Rightarrow> 'w option"
  ws_checker :: "'t \<Rightarrow> 'c option"

definition ws_init :: "('w, 't, 'c) wait_state" where
  "ws_init = \<lparr>ws_waitings = (\<lambda>w. {}), ws_waiting = (\<lambda>t. {}), ws_waited = (\<lambda>t. None), ws_checker = (\<lambda>t. None)\<rparr>"

definition wt_wait :: "'w set \<Rightarrow> 'c \<Rightarrow> 't \<Rightarrow> ('w, 't, 'c) wait_state \<Rightarrow> ('w, 't, 'c) wait_state res" where
  "wt_wait ws chk t s =
    assertk (ws_waited s t = None \<and> ws_waiting s t = {})
      (Inr (s\<lparr>ws_checker := (ws_checker s)(t := Some chk), ws_waiting := (ws_waiting s)(t := ws),
              ws_waitings := (\<lambda>w. if w \<in> ws then insert t (ws_waitings s w) else ws_waitings s w)\<rparr>))"

definition wt_accept :: "'t \<Rightarrow> ('w, 't, 'c) wait_state \<Rightarrow> ('w, 't, 'c) wait_state" where
  "wt_accept t s = s\<lparr>ws_waiting := (ws_waiting s)(t := {})\<rparr>"

definition wt_refuse :: "'t \<Rightarrow> ('w, 't, 'c) wait_state \<Rightarrow> ('w, 't, 'c) wait_state" where
  "wt_refuse t s =
    s\<lparr>ws_waitings := (\<lambda>w. if w \<in> ws_waiting s t then insert t (ws_waitings s w) else ws_waitings s w)\<rparr>"

text \<open>The first half of \<open>OK()\<close>: takes the signal, which is handed to the checker.\<close>

definition wt_take :: "'t \<Rightarrow> ('w, 't, 'c) wait_state \<Rightarrow> ('w, 't, 'c) wait_state" where
  "wt_take t s = s\<lparr>ws_waited := (ws_waited s)(t := None)\<rparr>"

definition wb_free :: "'w \<Rightarrow> ('w, 't, 'c) wait_state \<Rightarrow> ('w, 't, 'c) wait_state" where
  "wb_free w s =
    s\<lparr>ws_waited := (\<lambda>t. if t \<in> ws_waitings s w then Some w else ws_waited s t),
      ws_waitings := (ws_waitings s)(w := {})\<rparr>"

definition wt_destroy :: "'t \<Rightarrow> ('w, 't, 'c) wait_state \<Rightarrow> ('w, 't, 'c) wait_state res" where
  "wt_destroy t s = assertk (ws_waited s t = None \<and> ws_waiting s t = {}) (Inr s)"

definition wb_destroy :: "'w \<Rightarrow> ('w, 't, 'c) wait_state \<Rightarrow> ('w, 't, 'c) wait_state res" where
  "wb_destroy w s = assertk (ws_waitings s w = {}) (Inr s)"

section \<open>The protocol\<close>

text \<open>
  A registered thread waits for the object it is registered at, and has not been signalled. This is
  the invariant the class comment states, and what keeps the assertions of \<open>wait\<close> from failing.
\<close>

definition registered_ok :: "('w, 't, 'c) wait_state \<Rightarrow> bool" where
  "registered_ok s \<longleftrightarrow>
    (\<forall>w t. t \<in> ws_waitings s w \<longrightarrow> ws_waiting s t = {w} \<and> ws_waited s t = None) \<and>
    (\<forall>w t. ws_waited s t = Some w \<longrightarrow> ws_waiting s t = {w})"

text \<open>
  Steps: a thread starts to wait for the set \<open>ws\<close>, an object signals, and a signalled thread takes
  the signal and its checker accepts or refuses.
\<close>

inductive wait_step :: "('w set \<Rightarrow> bool) \<Rightarrow> ('w, 't, 'c) wait_state \<Rightarrow> ('w, 't, 'c) wait_state \<Rightarrow> bool"
  for allowed :: "'w set \<Rightarrow> bool" where
  begin_wait: "allowed ws \<Longrightarrow> wt_wait ws chk t s = Inr s' \<Longrightarrow> wait_step allowed s s'"
| signal: "wait_step allowed s (wb_free w s)"
| accept: "ws_waited s t = Some w \<Longrightarrow> wait_step allowed s (wt_accept t (wt_take t s))"
| refuse: "ws_waited s t = Some w \<Longrightarrow> wait_step allowed s (wt_refuse t (wt_take t s))"

inductive wait_run :: "('w set \<Rightarrow> bool) \<Rightarrow> ('w, 't, 'c) wait_state \<Rightarrow> bool" for allowed where
  init: "wait_run allowed ws_init"
| step: "wait_run allowed s \<Longrightarrow> wait_step allowed s s' \<Longrightarrow> wait_run allowed s'"

named_theorems wait_simps \<open>definitions of the operations on waiting states\<close>

lemmas wait_defs [wait_simps] = wt_wait_def wt_accept_def wt_refuse_def wt_take_def wb_free_def
  wt_destroy_def wb_destroy_def

lemma registered_wait:
  assumes "registered_ok s" "wt_wait {w} chk t s = Inr s'"
  shows "registered_ok s'"
proof -
  have t: "ws_waited s t = None" "ws_waiting s t = {}" using assms(2) by (auto simp: wt_wait_def res_simps)
  have "t \<notin> ws_waitings s v" for v using assms(1) t(2) unfolding registered_ok_def by force
  then show ?thesis using assms t by (auto simp: wt_wait_def registered_ok_def res_simps split: if_splits)
qed

lemma registered_free:
  assumes "registered_ok s"
  shows "registered_ok (wb_free w s)"
proof -
  have "t \<notin> ws_waitings s v" if "t \<in> ws_waitings s w" "v \<noteq> w" for t v
    using assms that unfolding registered_ok_def by (metis singleton_inject)
  then show ?thesis using assms by (auto simp: wb_free_def registered_ok_def)
qed

lemma registered_accept:
  assumes "registered_ok s" "ws_waited s t = Some w"
  shows "registered_ok (wt_accept t (wt_take t s))"
proof -
  have "t \<notin> ws_waitings s v" for v using assms unfolding registered_ok_def by fastforce
  then show ?thesis using assms by (auto simp: wt_accept_def wt_take_def registered_ok_def)
qed

lemma registered_refuse:
  assumes "registered_ok s" "ws_waited s t = Some w"
  shows "registered_ok (wt_refuse t (wt_take t s))"
  using assms by (auto simp: wt_refuse_def wt_take_def registered_ok_def)

lemma registered_run:
  "wait_run (\<lambda>ws. \<exists>w. ws = {w}) s \<Longrightarrow> registered_ok s"
proof (induction rule: wait_run.induct)
  case init
  show ?case by (simp add: registered_ok_def ws_init_def)
next
  case (step s s')
  from step.hyps(2) step.IH show ?case
    by cases (auto intro: registered_wait registered_free registered_accept registered_refuse)
qed



text \<open>Waiting for two objects breaks it: after one of them signals and the checker accepts, the
  thread stays registered at the other, whose later signal marks a thread that does not wait, so that
  the next \<open>wait\<close> and the destructor both fail their assertions.\<close>

theorem wait_two_breaks:
  assumes "a \<noteq> b"
  shows "\<exists>s1 s2 s3 s4. wt_wait {a, b} c t ws_init = Inr s1 \<and> s2 = wb_free a s1 \<and> s3 = wt_accept t (wt_take t s2) \<and>
    ws_waiting s3 t = {} \<and> ws_waited s3 t = None \<and> s4 = wb_free b s3 \<and>
    wt_wait {w} c' t s4 = Inl Assertion \<and> wt_destroy t s4 = Inl Assertion"
  using assms by (auto simp: wait_simps ws_init_def)

theorem wait_two_breaks_witness:
  "\<exists>s4 :: (nat, nat, nat) wait_state. wt_destroy 7 s4 = Inl Assertion"
  using wait_two_breaks[of "1 :: nat" "2 :: nat" "0 :: nat" "7 :: nat" 0 0] by auto

end
