(* ===== verification/Processes.thy ===== *)
theory Processes
  imports Bitset Waits
begin

text \<open>
  Processes, threads, process groups and the scheduler (\<open>src/src/Processes\<close>). The state is the
  object \<open>schedul\<close> with the objects reachable from it. A pointer to a process, thread or group is
  its id: ids are drawn from the free bits of \<open>_tids\<close> and given back when the object is destroyed,
  so an id designates one object at a time. What a process owns beyond its place in the hierarchy
  (memory, file descriptors, working directory) is the type \<open>'x\<close>, and the operations on it that
  scheduling calls are the record \<open>proc_env\<close>, which the system calls provide.
\<close>

section \<open>State\<close>

record cpu_context =
  cx_rip :: u64
  cx_rsp :: u64
  cx_rax :: u64
  cx_rdi :: u64
  cx_rsi :: u64
  cx_rflags :: u64
  cx_rest :: "u64 list"

datatype waitable = WProcess u16 | WStream nat

text \<open>The checkers threads wait with: for any child or one child, with the user address the status
  goes to, and those of the streams.\<close>

datatype 'c checker = AnyChild u64 | OneChild u16 u64 | StreamCheck 'c

record thread =
  t_pid :: u16
  t_gid :: u16
  t_first :: bool
  t_ctx :: cpu_context

record process =
  p_gid :: u16
  p_threads :: "u16 set"
  p_parent :: "u16 option"
  p_sons :: "u16 set"
  p_terminated :: bool
  p_mainTerminated :: bool
  p_returnCode :: u64

record ('c, 'x) kernel =
  k_procs :: "u16 \<rightharpoonup> process"
  k_threads :: "u16 \<rightharpoonup> thread"
  k_groups :: "u16 \<rightharpoonup> u16 set"
  k_fifo :: "u16 list"
  k_current :: "u16 option"
  k_remaining :: u8
  k_toRender :: u8
  k_halted :: bool
  k_tryNum :: nat
  k_tids :: bitset
  k_wait :: "(waitable, u16, 'c checker) wait_state"
  k_last :: "cpu_context option"
  k_active :: "u16 option"
  k_env :: 'x

text \<open>
  \<open>pe_order\<close> is the order in which a \<open>std::set\<close> of pointers iterates (by address), \<open>pe_ctx\<close> the
  registers of a fresh thread before they are set.
\<close>

record ('c, 'x) proc_env =
  pe_order :: "u16 set \<Rightarrow> u16 list"
  pe_ctx :: cpu_context
  pe_fork :: "u16 \<Rightarrow> u16 \<Rightarrow> 'x \<Rightarrow> 'x res"
  pe_clear :: "u16 \<Rightarrow> 'x \<Rightarrow> 'x"
  pe_delete :: "u16 \<Rightarrow> 'x \<Rightarrow> 'x"
  pe_poke :: "u16 \<Rightarrow> u64 \<Rightarrow> u64 \<Rightarrow> 'x \<Rightarrow> 'x"
  pe_in :: "u16 \<Rightarrow> u64 \<Rightarrow> 'x \<Rightarrow> bool"
  pe_check :: "'c \<Rightarrow> u16 \<Rightarrow> 'x \<Rightarrow> u64 \<times> 'x"
  pe_kloop :: "'x \<Rightarrow> 'x"

definition ECHILD :: u64 where "ECHILD = 2"
definition EFAULT :: u64 where "EFAULT = 5"
definition EBLOCK :: u64 where "EBLOCK = 7"

definition processQuantum :: u8 where "processQuantum = 5"
definition renderingQuantum :: u8 where "renderingQuantum = 60"

text \<open>A pointer that is followed must designate an object.\<close>

definition deref :: "'a option \<Rightarrow> 'a res" where
  "deref x = (case x of None \<Rightarrow> Inl NullAccess | Some v \<Rightarrow> Inr v)"

definition upd_proc :: "u16 \<Rightarrow> (process \<Rightarrow> process) \<Rightarrow> ('c, 'x) kernel \<Rightarrow> ('c, 'x) kernel" where
  "upd_proc pid f k = k\<lparr>k_procs := (k_procs k)(pid := map_option f (k_procs k pid))\<rparr>"

definition upd_thread :: "u16 \<Rightarrow> (thread \<Rightarrow> thread) \<Rightarrow> ('c, 'x) kernel \<Rightarrow> ('c, 'x) kernel" where
  "upd_thread tid f k = k\<lparr>k_threads := (k_threads k)(tid := map_option f (k_threads k tid))\<rparr>"

section \<open>Identifiers\<close>

definition set_tid :: "u16 \<Rightarrow> ('c, 'x) kernel \<Rightarrow> ('c, 'x) kernel res" where
  "set_tid i k = bnd (bs_set (k_tids k) (ucast i)) (\<lambda>b. Inr (k\<lparr>k_tids := b\<rparr>))"

definition getFreshTid :: "('c, 'x) kernel \<Rightarrow> (u16 \<times> ('c, 'x) kernel) res" where
  "getFreshTid k =
    bnd (bs_bsf (k_tids k)) (\<lambda>r. let res = ucast r in
      bnd (bs_unset (k_tids k) (ucast res)) (\<lambda>b. Inr (res, k\<lparr>k_tids := b\<rparr>)))"

definition addT :: "u16 \<Rightarrow> thread \<Rightarrow> ('c, 'x) kernel \<Rightarrow> ('c, 'x) kernel" where
  "addT tid th k = k\<lparr>k_threads := (k_threads k)(tid \<mapsto> th), k_fifo := k_fifo k @ [tid]\<rparr>"

definition addP :: "u16 \<Rightarrow> process \<Rightarrow> ('c, 'x) kernel \<Rightarrow> ('c, 'x) kernel" where
  "addP pid p k = k\<lparr>k_procs := (k_procs k)(pid \<mapsto> p)\<rparr>"

definition addG :: "u16 \<Rightarrow> u16 set \<Rightarrow> ('c, 'x) kernel \<Rightarrow> ('c, 'x) kernel" where
  "addG gid g k = k\<lparr>k_groups := (k_groups k)(gid \<mapsto> g)\<rparr>"

definition freeT :: "u16 \<Rightarrow> ('c, 'x) kernel \<Rightarrow> ('c, 'x) kernel res" where
  "freeT tid k =
    assertk (k_current k \<noteq> Some tid) (assertk (k_threads k tid \<noteq> None)
      (let k1 = k\<lparr>k_threads := (k_threads k)(tid := None)\<rparr> in
       if k_groups k1 tid = None \<and> k_procs k1 tid = None then set_tid tid k1 else Inr k1))"

definition freeP :: "u16 \<Rightarrow> ('c, 'x) kernel \<Rightarrow> ('c, 'x) kernel res" where
  "freeP pid k =
    assertk (k_procs k pid \<noteq> None)
      (let k1 = k\<lparr>k_procs := (k_procs k)(pid := None)\<rparr> in
       if k_groups k1 pid = None then set_tid pid k1 else Inr k1)"

definition freeG :: "u16 \<Rightarrow> ('c, 'x) kernel \<Rightarrow> ('c, 'x) kernel res" where
  "freeG gid k =
    assertk (k_groups k gid \<noteq> None) (set_tid gid (k\<lparr>k_groups := (k_groups k)(gid := None)\<rparr>))"

definition group_rem :: "u16 \<Rightarrow> u16 \<Rightarrow> ('c, 'x) kernel \<Rightarrow> ('c, 'x) kernel res" where
  "group_rem gid pid k =
    bnd (case k_groups k gid of None \<Rightarrow> Inl Assertion | Some g \<Rightarrow> Inr g) (\<lambda>g.
      assertk (pid \<in> g)
        (let g1 = g - {pid}; k1 = k\<lparr>k_groups := (k_groups k)(gid \<mapsto> g1)\<rparr> in
         if g1 = {} then freeG gid k1 else Inr k1))"

section \<open>Threads\<close>

definition thread_new :: "('c, 'x) proc_env \<Rightarrow> u16 \<Rightarrow> u64 \<Rightarrow> u16 \<Rightarrow> ('c, 'x) kernel \<Rightarrow> ('c, 'x) kernel res" where
  "thread_new E tid rip pid k =
    bnd (deref (k_procs k pid)) (\<lambda>p.
      Inr (upd_proc pid (\<lambda>p. p\<lparr>p_threads := insert tid (p_threads p)\<rparr>)
        (addT tid \<lparr>t_pid = pid, t_gid = p_gid p, t_first = True, t_ctx = (pe_ctx E)\<lparr>cx_rip := rip, cx_rflags := 2 OR 512\<rparr>\<rparr> k)))"

definition thread_delete :: "u16 \<Rightarrow> ('c, 'x) kernel \<Rightarrow> ('c, 'x) kernel res" where
  "thread_delete tid k = bnd (freeT tid k) (\<lambda>k. bnd (wt_destroy tid (k_wait k)) (\<lambda>w. Inr k))"

section \<open>Processes\<close>

definition process_terminate :: "('c, 'x) proc_env \<Rightarrow> u64 \<Rightarrow> u16 \<Rightarrow> ('c, 'x) kernel \<Rightarrow> ('c, 'x) kernel res" where
  "process_terminate E rc pid k =
    bnd (deref (k_procs k pid)) (\<lambda>p.
      let k1 = upd_proc pid (\<lambda>p. p\<lparr>p_returnCode := rc, p_terminated := True\<rparr>) k;
          k2 = k1\<lparr>k_env := pe_clear E pid (k_env k1)\<rparr> in
      bnd (for_list thread_delete (pe_order E (p_threads p)) k2) (\<lambda>k3.
      let k4 = upd_proc pid (\<lambda>p. p\<lparr>p_threads := {}\<rparr>) k3 in
      if pid = 1 then Inl Shutdown
      else (case p_parent p of
          None \<Rightarrow> Inl Assertion
        | Some q \<Rightarrow> Inr (k4\<lparr>k_wait := wb_free (WProcess q) (k_wait k4)\<rparr>))))"

definition process_clear :: "('c, 'x) proc_env \<Rightarrow> u16 \<Rightarrow> ('c, 'x) kernel \<Rightarrow> ('c, 'x) kernel res" where
  "process_clear E pid k =
    bnd (deref (k_procs k pid)) (\<lambda>p.
      bnd (for_list thread_delete (pe_order E (p_threads p)) (k\<lparr>k_env := pe_clear E pid (k_env k)\<rparr>)) (\<lambda>k1.
      Inr (upd_proc pid (\<lambda>p. p\<lparr>p_threads := {}\<rparr>) k1)))"

definition remThread :: "('c, 'x) proc_env \<Rightarrow> u16 \<Rightarrow> u16 \<Rightarrow> ('c, 'x) kernel \<Rightarrow> ('c, 'x) kernel res" where
  "remThread E pid tid k =
    (let k1 = upd_proc pid (\<lambda>p. p\<lparr>p_threads := p_threads p - {tid}\<rparr>) k in
     bnd (deref (k_procs k1 pid)) (\<lambda>p.
       if p_threads p = {} then assertk (p_mainTerminated p) (process_terminate E (p_returnCode p) pid k1)
       else Inr k1))"

definition mainTerm :: "('c, 'x) proc_env \<Rightarrow> u16 \<Rightarrow> u16 \<Rightarrow> u64 \<Rightarrow> ('c, 'x) kernel \<Rightarrow> ('c, 'x) kernel res" where
  "mainTerm E pid tid rc k =
    assertk (tid = pid)
      (remThread E pid tid (upd_proc pid (\<lambda>p. p\<lparr>p_mainTerminated := True, p_returnCode := rc\<rparr>) k))"

definition thread_terminate :: "('c, 'x) proc_env \<Rightarrow> u16 \<Rightarrow> u64 \<Rightarrow> ('c, 'x) kernel \<Rightarrow> ('c, 'x) kernel res" where
  "thread_terminate E tid rc k =
    bnd (deref (k_threads k tid)) (\<lambda>th.
      if tid = t_pid th then mainTerm E (t_pid th) tid rc k else remThread E (t_pid th) tid k)"

definition process_orphan :: "u16 \<Rightarrow> ('c, 'x) kernel \<Rightarrow> ('c, 'x) kernel res" where
  "process_orphan pid k =
    assertk (k_procs k 1 \<noteq> None)
      (Inr (upd_proc 1 (\<lambda>p. p\<lparr>p_sons := insert pid (p_sons p)\<rparr>) (upd_proc pid (\<lambda>p. p\<lparr>p_parent := Some 1\<rparr>) k)))"

text \<open>The destructor: it runs on the object after \<open>freeP\<close> took it out of the map.\<close>

definition process_delete :: "('c, 'x) proc_env \<Rightarrow> u16 \<Rightarrow> ('c, 'x) kernel \<Rightarrow> ('c, 'x) kernel res" where
  "process_delete E pid k =
    bnd (deref (k_procs k pid)) (\<lambda>p.
      assertk (p_terminated p)
        (bnd (freeP pid k) (\<lambda>k1.
         bnd (for_list process_orphan (pe_order E (p_sons p)) k1) (\<lambda>k2.
         bnd (group_rem (p_gid p) pid k2) (\<lambda>k3.
         bnd (deref (p_parent p)) (\<lambda>q.
         bnd (wb_destroy (WProcess pid) (k_wait k3)) (\<lambda>w.
         Inr (upd_proc q (\<lambda>p. p\<lparr>p_sons := p_sons p - {pid}\<rparr>) (k3\<lparr>k_env := pe_delete E pid (k_env k3)\<rparr>)))))))))"

text \<open>\<open>Process(pid, group)\<close> and the copy \<open>fork\<close> makes.\<close>

definition process_new :: "u16 \<Rightarrow> u16 \<Rightarrow> ('c, 'x) kernel \<Rightarrow> ('c, 'x) kernel res" where
  "process_new pid gid k =
    (let k1 = addP pid \<lparr>p_gid = gid, p_threads = {}, p_parent = None, p_sons = {}, p_terminated = False,
                p_mainTerminated = False, p_returnCode = 0\<rparr> k in
     bnd (deref (k_groups k1 gid)) (\<lambda>g. Inr (k1\<lparr>k_groups := (k_groups k1)(gid \<mapsto> insert pid g)\<rparr>)))"

definition process_fork :: "('c, 'x) proc_env \<Rightarrow> u16 \<Rightarrow> u16 \<Rightarrow> u16 \<Rightarrow> ('c, 'x) kernel \<Rightarrow> ('c, 'x) kernel res" where
  "process_fork E other toth pid k =
    bnd (deref (k_procs k other)) (\<lambda>po.
    bnd (deref (k_threads k toth)) (\<lambda>th.
    assertk (k_groups k (p_gid po) \<noteq> None)
    (bnd (process_new pid (p_gid po) k) (\<lambda>k1.
     bnd (pe_fork E pid other (k_env k1)) (\<lambda>x.
     bnd (thread_new E pid 0 pid (k1\<lparr>k_env := x\<rparr>)) (\<lambda>k2.
     Inr (upd_thread pid (\<lambda>t. t\<lparr>t_ctx := (t_ctx th)\<lparr>cx_rax := 0\<rparr>\<rparr>)
       (upd_proc other (\<lambda>p. p\<lparr>p_sons := insert pid (p_sons p)\<rparr>)
         (upd_proc pid (\<lambda>p. p\<lparr>p_parent := Some other\<rparr>) k2)))))))))"

section \<open>Waiting for children\<close>

definition nbwaitp_any :: "('c, 'x) proc_env \<Rightarrow> u16 \<Rightarrow> u64 \<Rightarrow> ('c, 'x) kernel \<Rightarrow> (u64 \<times> ('c, 'x) kernel) res" where
  "nbwaitp_any E tid status k =
    bnd (deref (k_threads k tid)) (\<lambda>th.
    bnd (deref (k_procs k (t_pid th))) (\<lambda>pr.
      if p_sons pr = {} then Inr (- ECHILD, k)
      else (case find (\<lambda>s. case k_procs k s of Some p \<Rightarrow> p_terminated p | None \<Rightarrow> False) (pe_order E (p_sons pr)) of
          None \<Rightarrow> Inr (- EBLOCK, k)
        | Some s \<Rightarrow>
            let k1 = (if status \<noteq> 0 then k\<lparr>k_env := pe_poke E (t_pid th) status (p_returnCode (the (k_procs k s))) (k_env k)\<rparr> else k) in
            bnd (process_delete E s k1) (\<lambda>k2. Inr (ucast s, k2)))))"

definition nbwaitp_one :: "('c, 'x) proc_env \<Rightarrow> u16 \<Rightarrow> u16 \<Rightarrow> u64 \<Rightarrow> ('c, 'x) kernel \<Rightarrow> (u64 \<times> ('c, 'x) kernel) res" where
  "nbwaitp_one E tid s status k =
    bnd (deref (k_threads k tid)) (\<lambda>th.
    bnd (deref (k_procs k (t_pid th))) (\<lambda>pr.
      if s \<notin> p_sons pr then Inr (- ECHILD, k)
      else bnd (deref (k_procs k s)) (\<lambda>p.
        if p_terminated p then
          let k1 = (if status \<noteq> 0 then k\<lparr>k_env := pe_poke E (t_pid th) status (p_returnCode p) (k_env k)\<rparr> else k) in
          bnd (process_delete E s k1) (\<lambda>k2. Inr (ucast s, k2))
        else Inr (- EBLOCK, k))))"

text \<open>What a checker tries again; \<open>prepare()\<close> activates the memory of the process first.\<close>

definition run_check :: "('c, 'x) proc_env \<Rightarrow> u16 \<Rightarrow> 'c checker \<Rightarrow> ('c, 'x) kernel \<Rightarrow> (u64 \<times> ('c, 'x) kernel) res" where
  "run_check E tid c k =
    (case c of
       AnyChild status \<Rightarrow> nbwaitp_any E tid status k
     | OneChild s status \<Rightarrow> nbwaitp_one E tid s status k
     | StreamCheck a \<Rightarrow> (case pe_check E a tid (k_env k) of (r, x) \<Rightarrow> Inr (r, k\<lparr>k_env := x\<rparr>)))"

definition checker_call :: "('c, 'x) proc_env \<Rightarrow> u16 \<Rightarrow> ('c, 'x) kernel \<Rightarrow> ('c, 'x) kernel res" where
  "checker_call E tid k =
    bnd (deref (k_threads k tid)) (\<lambda>th.
    bnd (deref (ws_checker (k_wait k) tid)) (\<lambda>c.
    bnd (run_check E tid c (k\<lparr>k_active := Some (t_pid th)\<rparr>)) (\<lambda>(r, k1).
      if r = - EBLOCK then Inr (k1\<lparr>k_wait := wt_refuse tid (k_wait k1)\<rparr>)
      else Inr (upd_thread tid (\<lambda>t. t\<lparr>t_ctx := (t_ctx t)\<lparr>cx_rax := r\<rparr>\<rparr>) (k1\<lparr>k_wait := wt_accept tid (k_wait k1)\<rparr>)))))"

text \<open>
  \<open>OK()\<close>: when the thread was signalled, its checker runs and \<open>OK()\<close> starts again; no checker
  signals a thread, so the second call only looks at the set.
\<close>

definition thread_OK :: "('c, 'x) proc_env \<Rightarrow> u16 \<Rightarrow> ('c, 'x) kernel \<Rightarrow> (bool \<times> ('c, 'x) kernel) res" where
  "thread_OK E tid k =
    (case ws_waited (k_wait k) tid of
       None \<Rightarrow> Inr (ws_waiting (k_wait k) tid = {}, k)
     | Some w \<Rightarrow> bnd (checker_call E tid (k\<lparr>k_wait := wt_take tid (k_wait k)\<rparr>)) (\<lambda>k1.
         Inr (ws_waiting (k_wait k1) tid = {}, k1)))"

section \<open>The scheduler\<close>

text \<open>How a function that does not return goes on: a thread runs in user mode, or the processor
  sleeps until the next interrupt.\<close>

datatype outcome = Running u16 | Idle | Returns

text \<open>\<open>run\<close>: the tail calls are the recursion, over the candidates not yet tried.\<close>

partial_function (option) sched_run :: "('c, 'x) proc_env \<Rightarrow> ('c, 'x) kernel \<Rightarrow> (outcome \<times> ('c, 'x) kernel) res option" where
  "sched_run E k =
    (if k_current k \<noteq> None \<or> k_last k \<noteq> None \<or> k_fifo k = [] then Some (Inl Assertion)
     else if length (k_fifo k) \<le> k_tryNum k then Some (Inr (Idle, k\<lparr>k_tryNum := 0, k_halted := True\<rparr>))
     else let tid = hd (k_fifo k); k1 = k\<lparr>k_fifo := tl (k_fifo k)\<rparr> in
       if k_threads k1 tid = None then sched_run E k1
       else (case thread_OK E tid k1 of
           Inl e \<Rightarrow> Some (Inl e)
         | Inr (ok, k2) \<Rightarrow>
             if \<not> ok then sched_run E (k2\<lparr>k_tryNum := k_tryNum k2 + 1, k_fifo := k_fifo k2 @ [tid]\<rparr>)
             else (case k_threads k2 tid of
                 None \<Rightarrow> Some (Inl NullAccess)
               | Some th \<Rightarrow> Some (Inr (Running tid,
                   k2\<lparr>k_current := Some tid, k_remaining := processQuantum, k_tryNum := 0, k_active := Some (t_pid th)\<rparr>)))))"

definition run_after :: "('c, 'x) proc_env \<Rightarrow> ('c, 'x) kernel res \<Rightarrow> (outcome \<times> ('c, 'x) kernel) res option" where
  "run_after E m = (case m of Inl e \<Rightarrow> Some (Inl e) | Inr k \<Rightarrow> sched_run E k)"

definition enterSys :: "('c, 'x) kernel \<Rightarrow> (u16 \<times> ('c, 'x) kernel) res" where
  "enterSys k =
    (case k_current k of
       None \<Rightarrow> Inl Assertion
     | Some tid \<Rightarrow> bnd (deref (k_last k)) (\<lambda>c.
         Inr (tid, (upd_thread tid (\<lambda>t. t\<lparr>t_ctx := c\<rparr>) k)\<lparr>k_last := None\<rparr>)))"

definition stopCurent :: "('c, 'x) kernel \<Rightarrow> ('c, 'x) kernel res" where
  "stopCurent k =
    bnd (if k_last k \<noteq> None then bnd (enterSys k) (\<lambda>(t, k). Inr k) else Inr k) (\<lambda>k1.
    bnd (deref (k_current k1)) (\<lambda>tid.
    Inr ((upd_thread tid (\<lambda>t. t\<lparr>t_first := False\<rparr>) k1)\<lparr>k_fifo := k_fifo k1 @ [tid], k_current := None\<rparr>)))"

definition sched_exit :: "('c, 'x) proc_env \<Rightarrow> u64 \<Rightarrow> ('c, 'x) kernel \<Rightarrow> (outcome \<times> ('c, 'x) kernel) res option" where
  "sched_exit E rc k =
    run_after E (case k_current k of
       None \<Rightarrow> Inl Assertion
     | Some tid \<Rightarrow> bnd (deref (k_threads k tid)) (\<lambda>th.
         process_terminate E rc (t_pid th) (k\<lparr>k_current := None, k_last := None\<rparr>)))"

definition sched_texit :: "('c, 'x) proc_env \<Rightarrow> u64 \<Rightarrow> ('c, 'x) kernel \<Rightarrow> (outcome \<times> ('c, 'x) kernel) res option" where
  "sched_texit E rc k =
    run_after E (case k_current k of
       None \<Rightarrow> Inl Assertion
     | Some tid \<Rightarrow> bnd (thread_terminate E tid rc (k\<lparr>k_current := None, k_last := None\<rparr>)) (\<lambda>k1. thread_delete tid k1))"

definition sched_fork :: "('c, 'x) proc_env \<Rightarrow> ('c, 'x) kernel \<Rightarrow> (u16 \<times> ('c, 'x) kernel) res" where
  "sched_fork E k =
    bnd (enterSys k) (\<lambda>(old, k1).
    bnd (deref (k_threads k1 old)) (\<lambda>th.
    bnd (getFreshTid k1) (\<lambda>(newTid, k2).
    bnd (process_fork E (t_pid th) old newTid k2) (\<lambda>k3. Inr (newTid, k3)))))"

text \<open>\<open>clone\<close> returns a \<open>u16\<close>, its error number included.\<close>

definition sched_clone :: "('c, 'x) proc_env \<Rightarrow> u64 \<Rightarrow> u64 \<Rightarrow> ('c, 'x) kernel \<Rightarrow> (u16 \<times> ('c, 'x) kernel) res" where
  "sched_clone E rip stack k =
    bnd (enterSys k) (\<lambda>(old, k1).
    bnd (deref (k_threads k1 old)) (\<lambda>th.
      if \<not> pe_in E (t_pid th) rip (k_env k1) then Inr (ucast (- EFAULT), k1)
      else if \<not> pe_in E (t_pid th) (stack - 1) (k_env k1) then Inr (ucast (- EFAULT), k1)
      else bnd (getFreshTid k1) (\<lambda>(newTid, k2).
        bnd (thread_new E newTid rip (t_pid th) k2) (\<lambda>k3.
        Inr (newTid, upd_thread newTid (\<lambda>t. t\<lparr>t_ctx := (t_ctx t)\<lparr>cx_rsp := stack\<rparr>\<rparr>) k3)))))"

text \<open>The blocking \<open>waitp\<close>: \<open>Returns\<close> with a result, or the caller is suspended.\<close>

definition suspend :: "('c, 'x) proc_env \<Rightarrow> waitable \<Rightarrow> 'c checker \<Rightarrow> u16 \<Rightarrow> ('c, 'x) kernel \<Rightarrow> ('c, 'x) kernel res" where
  "suspend E w c tid k = bnd (wt_wait {w} c tid (k_wait k)) (\<lambda>ws. stopCurent (k\<lparr>k_wait := ws\<rparr>))"

definition sched_waitp :: "('c, 'x) proc_env \<Rightarrow> 'c checker \<Rightarrow> u16 \<Rightarrow> ('c, 'x) kernel \<Rightarrow> (u64 \<times> outcome \<times> ('c, 'x) kernel) res option" where
  "sched_waitp E c tid k =
    (case run_check E tid c k of
       Inl e \<Rightarrow> Some (Inl e)
     | Inr (r, k1) \<Rightarrow>
         if r \<noteq> - EBLOCK then Some (Inr (r, Returns, k1))
         else (case k_threads k1 tid of
             None \<Rightarrow> Some (Inl NullAccess)
           | Some th \<Rightarrow> map_option (\<lambda>m. bnd m (\<lambda>(o', k2). Inr (r, o', k2)))
               (run_after E (suspend E (WProcess (t_pid th)) c tid k1))))"

text \<open>\<open>syswait\<close>: the pid comes from the user, and \<open>getP\<close> asserts that it exists.\<close>

definition syswait :: "('c, 'x) proc_env \<Rightarrow> u64 \<Rightarrow> u64 \<Rightarrow> ('c, 'x) kernel \<Rightarrow> (u64 \<times> outcome \<times> ('c, 'x) kernel) res option" where
  "syswait E pid status k =
    (case enterSys k of
       Inl e \<Rightarrow> Some (Inl e)
     | Inr (tid, k1) \<Rightarrow> (case k_threads k1 tid of
         None \<Rightarrow> Some (Inl NullAccess)
       | Some th \<Rightarrow>
           if status \<noteq> 0 \<and> \<not> pe_in E (t_pid th) status (k_env k1) then Some (Inr (- EFAULT, Returns, k1))
           else if pid = 0 then sched_waitp E (AnyChild status) tid k1
           else if k_procs k1 (ucast pid) = None then Some (Inl Assertion)
           else sched_waitp E (OneChild (ucast pid) status) tid k1))"

definition context_save :: "cpu_context \<Rightarrow> ('c, 'x) kernel \<Rightarrow> ('c, 'x) kernel res" where
  "context_save c k = assertk (0 <s cx_rip c) (Inr (k\<lparr>k_last := Some c\<rparr>))"

text \<open>The timer interrupt, with the interrupted context.\<close>

definition timer_ticks :: "('c, 'x) kernel \<Rightarrow> ('c, 'x) kernel" where
  "timer_ticks k =
    (let k1 = (if 0 < k_remaining k then k\<lparr>k_remaining := k_remaining k - 1\<rparr> else k) in
     if 0 < k_toRender k1 then k1\<lparr>k_toRender := k_toRender k1 - 1\<rparr> else k1)"

definition render :: "('c, 'x) proc_env \<Rightarrow> ('c, 'x) kernel \<Rightarrow> ('c, 'x) kernel" where
  "render E k = k\<lparr>k_env := pe_kloop E (k_env k), k_toRender := renderingQuantum\<rparr>"

definition timerHandler :: "('c, 'x) proc_env \<Rightarrow> cpu_context \<Rightarrow> ('c, 'x) kernel \<Rightarrow> (outcome \<times> ('c, 'x) kernel) res option" where
  "timerHandler E c k =
    (let k1 = timer_ticks k in
     if k_halted k1 then
       run_after E (assertk (cx_rip c <s 0)
         (let k2 = k1\<lparr>k_halted := False\<rparr> in Inr (if k_toRender k2 = 0 then render E k2 else k2)))
     else if cx_rip c <s 0 then Some (Inr (Returns, k1))
     else (case context_save c k1 of
         Inl e \<Rightarrow> Some (Inl e)
       | Inr k2 \<Rightarrow>
           if k_toRender k2 = 0 then run_after E (bnd (stopCurent k2) (\<lambda>k3. Inr (render E k3)))
           else if k_remaining k2 = 0 then run_after E (stopCurent k2)
           else Some (Inr (Returns, k2))))"

text \<open>The end of a system call that returns \<open>ret\<close>.\<close>

definition sched_setRet :: "u64 \<Rightarrow> ('c, 'x) kernel \<Rightarrow> ('c, 'x) kernel res" where
  "sched_setRet v k =
    (case k_current k of
       None \<Rightarrow> Inl Assertion
     | Some tid \<Rightarrow> Inr (upd_thread tid (\<lambda>t. t\<lparr>t_ctx := (t_ctx t)\<lparr>cx_rax := v\<rparr>\<rparr>) k))"

definition sysleave :: "('c, 'x) proc_env \<Rightarrow> u64 \<Rightarrow> ('c, 'x) kernel \<Rightarrow> (outcome \<times> ('c, 'x) kernel) res option" where
  "sysleave E ret k =
    (if \<not> 0 < k_remaining k then
       run_after E (bnd (sched_setRet ret k) (\<lambda>k1. bnd (stopCurent k1) (\<lambda>k2.
         Inr (if k_toRender k2 = 0 then render E k2 else k2))))
     else Some (Inr (Returns, k)))"

text \<open>The part of \<open>sysexec\<close> that replaces the threads: \<open>load\<close> is the effect of loading the file.\<close>

definition exec_threads :: "('c, 'x) proc_env \<Rightarrow> ('x \<Rightarrow> 'x res) \<Rightarrow> u64 \<Rightarrow> u64 \<Rightarrow> u16 \<Rightarrow> ('c, 'x) kernel \<Rightarrow> ('c, 'x) kernel res" where
  "exec_threads E load entry rsp pid k =
    bnd (stopCurent k) (\<lambda>k1.
    bnd (process_clear E pid k1) (\<lambda>k2.
    bnd (load (k_env k2)) (\<lambda>x.
    bnd (thread_new E pid entry pid (k2\<lparr>k_env := x\<rparr>)) (\<lambda>k3.
    Inr (upd_thread pid (\<lambda>t. t\<lparr>t_ctx := (t_ctx t)\<lparr>cx_rsp := rsp\<rparr>\<rparr>) k3)))))"

text \<open>\<open>init\<close>: the bitset of ids, on the words of the page mapped for it.\<close>

definition sched_init :: "u16 \<Rightarrow> u64 list \<Rightarrow> u64 \<Rightarrow> ('c, 'x) kernel \<Rightarrow> ('c, 'x) kernel res" where
  "sched_init tid page bits k =
    assertk (tid = 1)
      (bnd (bs_fill (bs_init page bits)) (\<lambda>b.
       bnd (bs_ref_assign b 0 False) (\<lambda>b.
       bnd (bs_ref_assign b 1 False) (\<lambda>b. Inr (k\<lparr>k_tids := b\<rparr>)))))"

definition sched_new :: "bitset \<Rightarrow> 'x \<Rightarrow> ('c, 'x) kernel" where
  "sched_new b x = \<lparr>k_procs = (\<lambda>_. None), k_threads = (\<lambda>_. None), k_groups = (\<lambda>_. None), k_fifo = [],
    k_current = None, k_remaining = 0, k_toRender = 0, k_halted = False, k_tryNum = 0, k_tids = b,
    k_wait = ws_init, k_last = None, k_active = None, k_env = x\<rparr>"

end
