(* ===== verification/ProcInv.thy ===== *)
theory ProcInv
  imports Processes
begin

text \<open>
  The invariant of the kernel state: processes, threads, parents, sons and groups agree
  (\<open>hier_ok\<close>), the free ids are exactly those nothing uses (\<open>ids_ok\<close>), waiting threads are
  registered (\<open>waits_ok\<close>), and no thread is lost (\<open>queue_ok\<close>). Each operation on the hierarchy
  (creating, terminating, reaping, orphaning) keeps it.
\<close>

section \<open>The process hierarchy\<close>

text \<open>
  The references between processes, threads and groups, as the protocol page of \<open>Process.h\<close>
  lists them. Threads and processes know each other, a zombie has no threads, the first process
  never is one, and the id of a thread that is not the main thread of its process is not
  the id of a process or group.
\<close>

definition threads_ok :: "(u16 \<rightharpoonup> process) \<Rightarrow> (u16 \<rightharpoonup> thread) \<Rightarrow> (u16 \<rightharpoonup> u16 set) \<Rightarrow> bool" where
  "threads_ok P T G \<longleftrightarrow>
    (\<forall>t th. T t = Some th \<longrightarrow> (\<exists>p. P (t_pid th) = Some p \<and> t \<in> p_threads p) \<and>
       (t_pid th \<noteq> t \<longrightarrow> P t = None \<and> G t = None)) \<and>
    (\<forall>i p. P i = Some p \<longrightarrow> (p_terminated p \<longrightarrow> p_threads p = {}) \<and>
       (\<forall>t\<in>p_threads p. \<exists>th. T t = Some th \<and> t_pid th = i)) \<and>
    (\<exists>p. P 1 = Some p \<and> \<not> p_terminated p)"

text \<open>Parents and sons agree, and only the first process has no parent.\<close>

definition tree_of :: "(u16 \<rightharpoonup> process) \<Rightarrow> u16 \<rightharpoonup> u16 option \<times> u16 set" where
  "tree_of P = (\<lambda>i. map_option (\<lambda>p. (p_parent p, p_sons p)) (P i))"

definition tree_ok :: "(u16 \<rightharpoonup> u16 option \<times> u16 set) \<Rightarrow> bool" where
  "tree_ok R \<longleftrightarrow>
    (\<forall>i q S s. R i = Some (q, S) \<and> s \<in> S \<longrightarrow> (\<exists>S'. R s = Some (Some i, S'))) \<and>
    (\<forall>i q S. R i = Some (Some q, S) \<longrightarrow> q \<noteq> i \<and> (\<exists>q' S'. R q = Some (q', S') \<and> i \<in> S')) \<and>
    (\<exists>S. R 1 = Some (None, S)) \<and> (\<forall>i S. R i = Some (None, S) \<longrightarrow> i = 1)"

text \<open>Groups and members agree, no group is empty, and a process with the id of a group belongs to it.\<close>

definition gids_of :: "(u16 \<rightharpoonup> process) \<Rightarrow> u16 \<rightharpoonup> u16" where
  "gids_of P = (\<lambda>i. map_option p_gid (P i))"

definition groups_ok :: "(u16 \<rightharpoonup> u16) \<Rightarrow> (u16 \<rightharpoonup> u16 set) \<Rightarrow> bool" where
  "groups_ok g G \<longleftrightarrow>
    (\<forall>i j. g i = Some j \<longrightarrow> (\<exists>M. G j = Some M \<and> i \<in> M)) \<and>
    (\<forall>j M i. G j = Some M \<and> i \<in> M \<longrightarrow> g i = Some j) \<and>
    (\<forall>j M. G j = Some M \<longrightarrow> M \<noteq> {} \<and> (g j = None \<or> g j = Some j))"

definition hier_ok :: "(u16 \<rightharpoonup> process) \<Rightarrow> (u16 \<rightharpoonup> thread) \<Rightarrow> (u16 \<rightharpoonup> u16 set) \<Rightarrow> bool" where
  "hier_ok P T G \<longleftrightarrow> threads_ok P T G \<and> tree_ok (tree_of P) \<and> groups_ok (gids_of P) G"

lemma threadsD:
  assumes "threads_ok P T G"
  shows "T t = Some th \<Longrightarrow> \<exists>p. P (t_pid th) = Some p \<and> t \<in> p_threads p"
    and "T t = Some th \<Longrightarrow> t_pid th \<noteq> t \<Longrightarrow> P t = None \<and> G t = None"
    and "P i = Some p \<Longrightarrow> p_terminated p \<Longrightarrow> p_threads p = {}"
    and "P i = Some p \<Longrightarrow> t \<in> p_threads p \<Longrightarrow> \<exists>th. T t = Some th \<and> t_pid th = i"
    and "\<exists>p. P 1 = Some p \<and> \<not> p_terminated p"
  using assms unfolding threads_ok_def by blast+

lemma threads_okI:
  assumes "\<And>t th. T t = Some th \<Longrightarrow> \<exists>p. P (t_pid th) = Some p \<and> t \<in> p_threads p"
    and "\<And>t th. T t = Some th \<Longrightarrow> t_pid th \<noteq> t \<Longrightarrow> P t = None \<and> G t = None"
    and "\<And>i p. P i = Some p \<Longrightarrow> p_terminated p \<Longrightarrow> p_threads p = {}"
    and "\<And>i p t. P i = Some p \<Longrightarrow> t \<in> p_threads p \<Longrightarrow> \<exists>th. T t = Some th \<and> t_pid th = i"
    and "\<exists>p. P 1 = Some p \<and> \<not> p_terminated p"
  shows "threads_ok P T G"
  unfolding threads_ok_def using assms by blast

lemma threads_own:
  assumes "threads_ok P T G" "P i = Some p" "T t = Some th"
  shows "t \<in> p_threads p \<longleftrightarrow> t_pid th = i"
  using threadsD(1)[OF assms(1,3)] threadsD(4)[OF assms(1,2), of t] assms(2,3) by auto

lemma threads_disjoint:
  assumes "threads_ok P T G" "P i = Some p" "P j = Some q" "t \<in> p_threads p" "t \<in> p_threads q"
  shows "i = j"
  using threadsD(4)[OF assms(1,2,4)] threadsD(4)[OF assms(1,3,5)] by auto

text \<open>A process loses a set \<open>D\<close> of its threads, and possibly dies.\<close>

lemma threads_drop:
  assumes "threads_ok P T G" "P i = Some p" "D \<subseteq> p_threads p" "p_threads p' = p_threads p - D"
    and "p_terminated p' \<longrightarrow> p_threads p' = {} \<and> i \<noteq> 1 \<or> p_terminated p"
  shows "threads_ok (P(i \<mapsto> p')) (T |` (- D)) G"
proof (rule threads_okI)
  note h = threadsD[OF assms(1)]
  note own = threads_own[OF assms(1)] and dis = threads_disjoint[OF assms(1)]
  fix t th assume "(T |` (- D)) t = Some th"
  then have t: "T t = Some th" "t \<notin> D" by (auto simp: restrict_map_def split: if_splits)
  show "\<exists>q. (P(i \<mapsto> p')) (t_pid th) = Some q \<and> t \<in> p_threads q"
    using h(1)[OF t(1)] own[OF assms(2) t(1)] t(2) assms(4) by auto
  show "t_pid th \<noteq> t \<Longrightarrow> (P(i \<mapsto> p')) t = None \<and> G t = None"
    using h(2)[OF t(1)] assms(2) by auto
next
  note h = threadsD[OF assms(1)]
  fix j q assume q: "(P(i \<mapsto> p')) j = Some q"
  show "p_terminated q \<Longrightarrow> p_threads q = {}"
    using q h(3)[of j q] h(3)[OF assms(2)] assms(4,5) by (auto split: if_splits)
  fix t assume "t \<in> p_threads q"
  then show "\<exists>th. (T |` (- D)) t = Some th \<and> t_pid th = j"
    using q h(4)[of j q t] h(4)[OF assms(2), of t] threads_disjoint[OF assms(1,2), of j q t] assms(3,4)
    by (auto simp: restrict_map_def split: if_splits)
next
  show "\<exists>q. (P(i \<mapsto> p')) 1 = Some q \<and> \<not> p_terminated q"
    using threadsD(5)[OF assms(1)] assms(2,5) threadsD(3)[OF assms(1,2)] by auto
qed

lemma threads_add:
  assumes "threads_ok P T G" "P i = Some p" "\<not> p_terminated p" "T t = None" "t_pid th = i"
    and "t = i \<or> P t = None \<and> G t = None" "p' = p\<lparr>p_threads := insert t (p_threads p)\<rparr>"
  shows "threads_ok (P(i \<mapsto> p')) (T(t \<mapsto> th)) G"
proof (rule threads_okI)
  note h = threadsD[OF assms(1)]
  fix u uh assume u: "(T(t \<mapsto> th)) u = Some uh"
  show "\<exists>q. (P(i \<mapsto> p')) (t_pid uh) = Some q \<and> u \<in> p_threads q"
    using u h(1)[of u uh] assms(2,5,7) by (auto split: if_splits)
  show "t_pid uh \<noteq> u \<Longrightarrow> (P(i \<mapsto> p')) u = None \<and> G u = None"
    using u h(2)[of u uh] assms(2,5,6) by (auto split: if_splits)
next
  note h = threadsD[OF assms(1)]
  have n: "t \<notin> p_threads q" if "P j = Some q" for j q using h(4)[OF that] assms(4) by fastforce
  fix j q assume q: "(P(i \<mapsto> p')) j = Some q"
  show "p_terminated q \<Longrightarrow> p_threads q = {}" using q h(3)[of j q] assms(3,7) by (auto split: if_splits)
  fix u assume "u \<in> p_threads q"
  then show "\<exists>uh. (T(t \<mapsto> th)) u = Some uh \<and> t_pid uh = j"
    using q h(4)[of j q u] h(4)[OF assms(2), of u] n[of j q] assms(5,7) by (auto split: if_splits)
next
  show "\<exists>q. (P(i \<mapsto> p')) 1 = Some q \<and> \<not> p_terminated q"
    using threadsD(5)[OF assms(1)] assms(2,3,7) by auto
qed

lemma tree_of_upd: "p_parent p' = p_parent p \<Longrightarrow> p_sons p' = p_sons p \<Longrightarrow> P i = Some p \<Longrightarrow> tree_of (P(i \<mapsto> p')) = tree_of P"
  by (auto simp: tree_of_def fun_eq_iff)

lemma gids_of_upd: "p_gid p' = p_gid p \<Longrightarrow> P i = Some p \<Longrightarrow> gids_of (P(i \<mapsto> p')) = gids_of P"
  by (auto simp: gids_of_def fun_eq_iff)

lemma treeD:
  assumes "tree_ok R"
  shows "R i = Some (q, S) \<Longrightarrow> s \<in> S \<Longrightarrow> \<exists>S'. R s = Some (Some i, S')"
    and "R i = Some (Some q', S) \<Longrightarrow> q' \<noteq> i \<and> (\<exists>q'' S'. R q' = Some (q'', S') \<and> i \<in> S')"
    and "\<exists>S. R 1 = Some (None, S)"
    and "R i = Some (None, S) \<Longrightarrow> i = 1"
  using assms unfolding tree_ok_def by blast+

lemma tree_okI:
  assumes "\<And>i q S s. R i = Some (q, S) \<Longrightarrow> s \<in> S \<Longrightarrow> \<exists>S'. R s = Some (Some i, S')"
    and "\<And>i q S. R i = Some (Some q, S) \<Longrightarrow> q \<noteq> i \<and> (\<exists>q'' S'. R q = Some (q'', S') \<and> i \<in> S')"
    and "\<exists>S. R 1 = Some (None, S)"
    and "\<And>i S. R i = Some (None, S) \<Longrightarrow> i = 1"
  shows "tree_ok R"
  unfolding tree_ok_def using assms by blast

lemma tree_new:
  assumes "tree_ok R" "R o' = Some (q, S)" "R n = None"
  shows "tree_ok (R(n \<mapsto> (Some o', {}), o' \<mapsto> (q, insert n S)))"
proof -
  note t = treeD[OF assms(1)]
  have no: "n \<noteq> o'" using assms by auto
  have nS: "n \<notin> S'" if "R i = Some (q', S')" for i q' S' using t(1)[OF that, of n] assms(3) by auto
  have nq: "q' \<noteq> n" if "R i = Some (Some q', S')" for i q' S' using t(2)[OF that] assms(3) by auto
  show ?thesis
  proof (rule tree_okI)
    fix i q' S' s assume a: "(R(n \<mapsto> (Some o', {}), o' \<mapsto> (q, insert n S))) i = Some (q', S')" "s \<in> S'"
    have "s \<noteq> n \<Longrightarrow> \<exists>S''. R s = Some (Some i, S'')"
      using a no t(1)[of i q' S' s] t(1)[OF assms(2), of s] by (auto split: if_splits)
    moreover have "s = n \<Longrightarrow> i = o'" using a no nS[of i] by (auto split: if_splits)
    ultimately show "\<exists>S''. (R(n \<mapsto> (Some o', {}), o' \<mapsto> (q, insert n S))) s = Some (Some i, S'')"
      using no assms(2) by (cases "s = n"; cases "s = o'") auto
  next
    fix i q' S' assume a: "(R(n \<mapsto> (Some o', {}), o' \<mapsto> (q, insert n S))) i = Some (Some q', S')"
    show "q' \<noteq> i \<and> (\<exists>q'' S'. (R(n \<mapsto> (Some o', {}), o' \<mapsto> (q, insert n S))) q' = Some (q'', S') \<and> i \<in> S')"
    proof (cases "i = n")
      case True
      then show ?thesis using a no by auto
    next
      case False
      then have "\<exists>S''. R i = Some (Some q', S'')" using a assms(2) by (auto split: if_splits)
      then obtain S'' where i: "R i = Some (Some q', S'')" by blast
      from t(2)[OF i] nq[OF i] assms(2) no show ?thesis by (cases "q' = o'") auto
    qed
  next
    show "\<exists>S'. (R(n \<mapsto> (Some o', {}), o' \<mapsto> (q, insert n S))) 1 = Some (None, S')"
      using t(3) assms(2,3) by auto
  next
    fix i S' assume "(R(n \<mapsto> (Some o', {}), o' \<mapsto> (q, insert n S))) i = Some (None, S')"
    then show "i = 1" using t(4)[of i] t(4)[of o'] assms(2) by (auto split: if_splits)
  qed
qed

text \<open>A process leaves: its sons go to the first process, its parent forgets it.\<close>

definition adopt :: "u16 \<Rightarrow> u16 set \<Rightarrow> u16 \<Rightarrow> (u16 \<rightharpoonup> u16 option \<times> u16 set) \<Rightarrow> u16 \<rightharpoonup> u16 option \<times> u16 set" where
  "adopt i S q R = (\<lambda>x. if x = i then None else map_option (\<lambda>(p, C).
     (if x \<in> S then Some 1 else p, (if x = 1 then C \<union> S else C) - (if x = q then {i} else {}))) (R x))"

lemma tree_delete:
  assumes "tree_ok R" "R i = Some (Some q, S)"
  shows "tree_ok (adopt i S q R)"
proof -
  note t = treeD[OF assms(1)]
  from t(2)[OF assms(2)] have qi: "q \<noteq> i" by simp
  have i1: "i \<noteq> 1" using t(3) assms(2) by auto
  have nS: "1 \<notin> S" using t(1)[OF assms(2), of 1] t(3) by auto
  have iS: "i \<notin> S" using t(1)[OF assms(2), of i] assms(2) qi t(2)[OF assms(2)] by auto
  have par: "s \<in> C \<Longrightarrow> R x = Some (p, C) \<Longrightarrow> (s \<in> S \<longleftrightarrow> x = i)" for s C x p
    using t(1)[of x p C s] t(1)[OF assms(2), of s] assms(2) by auto
  have adx: "adopt i S q R x = Some (p, C) \<longleftrightarrow> x \<noteq> i \<and> (\<exists>p0 C0. R x = Some (p0, C0) \<and>
     p = (if x \<in> S then Some 1 else p0) \<and> C = (if x = 1 then C0 \<union> S else C0) - (if x = q then {i} else {}))" for x p C
    by (auto simp: adopt_def)
  show ?thesis
  proof (rule tree_okI)
    fix x p C s assume "adopt i S q R x = Some (p, C)" "s \<in> C"
    then obtain p0 C0 where x: "x \<noteq> i" "R x = Some (p0, C0)" "s \<in> C0 \<or> x = 1 \<and> s \<in> S" "x = q \<longrightarrow> s \<noteq> i"
      unfolding adx by (auto split: if_splits)
    show "\<exists>S'. adopt i S q R s = Some (Some x, S')"
    proof (cases "s \<in> S")
      case True
      then have "x = 1" using x par[OF _ x(2), of s] by auto
      moreover have "s \<noteq> i" using True iS by auto
      ultimately show ?thesis using t(1)[OF assms(2) True] True by (auto simp: adopt_def)
    next
      case False
      then have s: "s \<in> C0" using x by auto
      obtain S' where S': "R s = Some (Some x, S')" using t(1)[OF x(2) s] by auto
      have "s \<noteq> i" using S' assms(2) x(4) by auto
      then show ?thesis using S' False by (auto simp: adopt_def)
    qed
  next
    fix x p C assume "adopt i S q R x = Some (Some p, C)"
    then obtain p0 C0 where x: "x \<noteq> i" "R x = Some (p0, C0)" "Some p = (if x \<in> S then Some 1 else p0)"
      unfolding adx by auto
    show "p \<noteq> x \<and> (\<exists>q'' S'. adopt i S q R p = Some (q'', S') \<and> x \<in> S')"
    proof (cases "x \<in> S")
      case True
      then have p: "p = 1" using x by simp
      obtain C1 where "R 1 = Some (None, C1)" using t(3) by blast
      then show ?thesis using p True nS i1 x(1) by (auto simp: adopt_def)
    next
      case False
      then have p0: "p0 = Some p" using x by simp
      from t(2)[of x p C0] x(2) p0 obtain q'' S' where p: "p \<noteq> x" "R p = Some (q'', S')" "x \<in> S'" by auto
      have "p \<noteq> i" using False p assms(2) by auto
      then show ?thesis using p x(1) by (auto simp: adopt_def)
    qed
  next
    show "\<exists>C. adopt i S q R 1 = Some (None, C)" using t(3) i1 nS by (auto simp: adopt_def)
  next
    fix x C assume "adopt i S q R x = Some (None, C)"
    then show "x = 1" using t(4)[of x] unfolding adx by (auto split: if_splits)
  qed
qed

lemma groups_new:
  assumes "groups_ok g G" "G j = Some M" "g n = None" "G n = None"
  shows "groups_ok (g(n \<mapsto> j)) (G(j \<mapsto> insert n M))"
proof -
  have o': "\<And>x y. g x = Some y \<Longrightarrow> \<exists>M. G y = Some M \<and> x \<in> M" "\<And>y M x. G y = Some M \<Longrightarrow> x \<in> M \<Longrightarrow> g x = Some y"
    "\<And>y M. G y = Some M \<Longrightarrow> M \<noteq> {} \<and> (g y = None \<or> g y = Some y)"
    using assms(1) unfolding groups_ok_def by blast+
  have nj: "n \<noteq> j" using assms by auto
  have nM: "n \<notin> N" if "G y = Some N" for y N using o'(2)[OF that] assms(3) by auto
  show ?thesis
    unfolding groups_ok_def
  proof (intro conjI allI impI)
    fix x y assume "(g(n \<mapsto> j)) x = Some y"
    then show "\<exists>N. (G(j \<mapsto> insert n M)) y = Some N \<and> x \<in> N"
      using o'(1)[of x y] assms(2) by (auto split: if_splits)
  next
    fix y N x assume "(G(j \<mapsto> insert n M)) y = Some N \<and> x \<in> N"
    then show "(g(n \<mapsto> j)) x = Some y"
      using o'(2)[of y N x] o'(2)[OF assms(2), of x] nM[of y N] by (auto split: if_splits)
  next
    fix y N assume a: "(G(j \<mapsto> insert n M)) y = Some N"
    then show "N \<noteq> {}" using o'(3)[of y N] by (auto split: if_splits)
    show "(g(n \<mapsto> j)) y = None \<or> (g(n \<mapsto> j)) y = Some y"
      using a o'(3)[of y N] o'(3)[OF assms(2)] assms(4) nj by (auto split: if_splits)
  qed
qed

lemma groups_delete:
  assumes "groups_ok g G" "G j = Some M" "i \<in> M"
  shows "groups_ok (g(i := None)) (if M - {i} = {} then G(j := None) else G(j \<mapsto> M - {i}))"
proof -
  have gi: "g i = Some j" using assms unfolding groups_ok_def by blast
  have o': "\<And>x y. g x = Some y \<Longrightarrow> \<exists>M. G y = Some M \<and> x \<in> M" "\<And>y M x. G y = Some M \<Longrightarrow> x \<in> M \<Longrightarrow> g x = Some y"
    "\<And>y M. G y = Some M \<Longrightarrow> M \<noteq> {} \<and> (g y = None \<or> g y = Some y)"
    using assms(1) unfolding groups_ok_def by blast+
  show ?thesis
    unfolding groups_ok_def
  proof (intro conjI allI impI)
    fix x y assume a: "(g(i := None)) x = Some y"
    then have x: "x \<noteq> i" "g x = Some y" by (auto split: if_splits)
    from o'(1)[OF x(2)] obtain N where N: "G y = Some N" "x \<in> N" by blast
    show "\<exists>N. (if M - {i} = {} then G(j := None) else G(j \<mapsto> M - {i})) y = Some N \<and> x \<in> N"
      using N x(1) assms(2) by (cases "y = j") auto
  next
    fix y N x assume "(if M - {i} = {} then G(j := None) else G(j \<mapsto> M - {i})) y = Some N \<and> x \<in> N"
    then have "x \<noteq> i \<or> y \<noteq> j" "\<exists>N. G y = Some N \<and> x \<in> N" using assms(2) by (auto split: if_splits)
    then show "(g(i := None)) x = Some y" using o'(2) gi by auto
  next
    fix y N assume a: "(if M - {i} = {} then G(j := None) else G(j \<mapsto> M - {i})) y = Some N"
    then show "N \<noteq> {}" using o'(3)[of y] by (auto split: if_splits)
    have "\<exists>N. G y = Some N" using a assms(2) by (auto split: if_splits)
    then show "(g(i := None)) y = None \<or> (g(i := None)) y = Some y" using o'(3)[of y] by auto
  qed
qed

text \<open>The free bits are exactly the usable ids that nothing has.\<close>

definition free_ids :: "bitset \<Rightarrow> u16 set" where
  "free_ids b = {i. bits_of b (unat i)}"

definition tids_wf :: "bitset \<Rightarrow> bool" where
  "tids_wf b \<longleftrightarrow> bs_wf b \<and> unat (bs_size b) < 2 ^ 16"

definition ids_ok :: "bitset \<Rightarrow> (u16 \<rightharpoonup> process) \<Rightarrow> (u16 \<rightharpoonup> thread) \<Rightarrow> (u16 \<rightharpoonup> u16 set) \<Rightarrow> bool" where
  "ids_ok b P T G \<longleftrightarrow> tids_wf b \<and>
    (\<forall>i. i \<in> free_ids b \<longleftrightarrow> 2 \<le> unat i \<and> unat i < unat (bs_size b) \<and> P i = None \<and> T i = None \<and> G i = None) \<and>
    (\<forall>i. P i \<noteq> None \<or> T i \<noteq> None \<or> G i \<noteq> None \<longrightarrow> 1 \<le> unat i \<and> unat i < unat (bs_size b))"

lemma set_tid_effect:
  assumes "tids_wf (k_tids k)" "unat i < unat (bs_size (k_tids k))"
  shows "\<exists>b. set_tid i k = Inr (k\<lparr>k_tids := b\<rparr>) \<and> tids_wf b \<and> bs_size b = bs_size (k_tids k) \<and>
    free_ids b = insert i (free_ids (k_tids k))"
proof -
  have "(ucast i :: u64) < bs_size (k_tids k)" using assms(2) by (simp add: word_less_nat_alt)
  from bs_set_spec[OF _ this] assms(1) obtain b where b: "bs_set (k_tids k) (ucast i) = Inr b" and s: "same_window (k_tids k) b" "bits_of b = (bits_of (k_tids k))(unat (ucast i :: u64) := True)"
    by (auto simp: tids_wf_def)
  have "tids_wf b" "bs_size b = bs_size (k_tids k)" using s(1) assms(1) same_window_wf[OF s(1)] by (simp_all add: tids_wf_def same_window_def)
  moreover have "free_ids b = insert i (free_ids (k_tids k))"
    using s(2) by (auto simp: free_ids_def word_unat_eq_iff)
  ultimately show ?thesis using b by (intro exI[of _ b]) (simp add: set_tid_def)
qed

lemma minus_one_16: "(ucast (- 1 :: u64) :: u16) = 65535"
  by code_simp

lemma getFreshTid_effect:
  assumes "getFreshTid k = Inr (i, k')" "tids_wf (k_tids k)"
  shows "\<exists>b. k' = k\<lparr>k_tids := b\<rparr> \<and> tids_wf b \<and> bs_size b = bs_size (k_tids k) \<and> i \<in> free_ids (k_tids k) \<and> free_ids b = free_ids (k_tids k) - {i}"
proof -
  from assms(2) have wf: "bs_wf (k_tids k)" "unat (bs_size (k_tids k)) < 2 ^ 16" by (simp_all add: tids_wf_def)
  from bs_bsf_spec[OF wf(1)] obtain r where r: "bs_bsf (k_tids k) = Inr r" "found_first (k_tids k) 0 (scanned (k_tids k)) r" by blast
  from assms(1) r(1) obtain b where i: "i = ucast r" and b: "bs_unset (k_tids k) (ucast i) = Inr b" "k' = k\<lparr>k_tids := b\<rparr>"
    by (auto simp: getFreshTid_def res_simps Let_def)
  have lt: "(ucast i :: u64) < bs_size (k_tids k)" using b(1) bs_unset_outside[of "ucast i" "k_tids k"] by fastforce
  from bs_unset_spec[OF wf(1) lt] b have s: "same_window (k_tids k) b" "bits_of b = (bits_of (k_tids k))(unat (ucast i :: u64) := False)" by auto
  have "r \<noteq> - 1"
  proof
    assume "r = - 1"
    then have "unat (ucast i :: u64) = 65535" by (simp only: i minus_one_16) simp
    then show False using lt wf(2) by (simp add: word_less_nat_alt)
  qed
  then have f: "unat r < scanned (k_tids k)" "bits_of (k_tids k) (unat r)" using r(2) by (auto simp: found_first_def)
  have "unat r < 2 ^ 16" using f(1) scanned_le[of "k_tids k"] wf(2) by simp
  then have "unat i = unat r" by (simp add: i unsigned_ucast_eq take_bit_nat_eq_self)
  then have "i \<in> free_ids (k_tids k)" using f(2) by (simp add: free_ids_def)
  moreover have "tids_wf b" "bs_size b = bs_size (k_tids k)" using s(1) assms(2) same_window_wf[OF s(1)] by (simp_all add: tids_wf_def same_window_def)
  moreover have "free_ids b = free_ids (k_tids k) - {i}"
    using s(2) by (auto simp: free_ids_def word_unat_eq_iff)
  ultimately show ?thesis using b(2) by blast
qed

section \<open>The invariant of the kernel state\<close>

text \<open>Only suspended threads wait, with a checker, and for children at their own process.\<close>

definition waits_ok :: "('c, 'x) kernel \<Rightarrow> bool" where
  "waits_ok k \<longleftrightarrow> registered_ok (k_wait k) \<and>
    (\<forall>t w. w \<in> ws_waiting (k_wait k) t \<longrightarrow> k_current k \<noteq> Some t \<and> ws_checker (k_wait k) t \<noteq> None \<and>
       (\<exists>th. k_threads k t = Some th \<and> (\<forall>i. w = WProcess i \<longrightarrow> i = t_pid th)))"

definition core_ok :: "('c, 'x) kernel \<Rightarrow> bool" where
  "core_ok k \<longleftrightarrow> hier_ok (k_procs k) (k_threads k) (k_groups k) \<and>
    ids_ok (k_tids k) (k_procs k) (k_threads k) (k_groups k) \<and> waits_ok k"

text \<open>No thread is lost: every one is queued or running, the running one exists, and every process
  that is not a zombie has a thread. Outside \<open>run\<close>, \<open>_runTryNum\<close> is zero.\<close>

definition live_ok :: "(u16 \<rightharpoonup> process) \<Rightarrow> bool" where
  "live_ok P \<longleftrightarrow> (\<forall>i p. P i = Some p \<and> \<not> p_terminated p \<longrightarrow> p_threads p \<noteq> {})"

definition queue_ok :: "('c, 'x) kernel \<Rightarrow> bool" where
  "queue_ok k \<longleftrightarrow> (\<forall>t. k_threads k t \<noteq> None \<longrightarrow> t \<in> set (k_fifo k) \<or> k_current k = Some t) \<and>
    (\<forall>t. k_current k = Some t \<longrightarrow> k_threads k t \<noteq> None) \<and>
    live_ok (k_procs k)"

definition kernel_ok :: "('c, 'x) kernel \<Rightarrow> bool" where
  "kernel_ok k \<longleftrightarrow> core_ok k \<and> queue_ok k \<and> k_tryNum k = 0 \<and> (k_current k = None \<longrightarrow> k_last k = None) \<and>
    (k_halted k \<longrightarrow> k_current k = None)"

definition order_ok :: "('c, 'x) proc_env \<Rightarrow> bool" where
  "order_ok E \<longleftrightarrow> (\<forall>S. set (pe_order E S) = S \<and> distinct (pe_order E S))"

lemma core_okD:
  assumes "core_ok k"
  shows "threads_ok (k_procs k) (k_threads k) (k_groups k)" "tree_ok (tree_of (k_procs k))"
    "groups_ok (gids_of (k_procs k)) (k_groups k)" "ids_ok (k_tids k) (k_procs k) (k_threads k) (k_groups k)"
    "waits_ok k"
  using assms by (simp_all add: core_ok_def hier_ok_def)

text \<open>What the work of the scheduler on other processes leaves alone.\<close>

definition same_queue :: "('c, 'x) kernel \<Rightarrow> ('c, 'x) kernel \<Rightarrow> bool" where
  "same_queue k k' \<longleftrightarrow> k_fifo k' = k_fifo k \<and> k_tryNum k' = k_tryNum k \<and> k_current k' = k_current k \<and>
    k_last k' = k_last k \<and> k_halted k' = k_halted k"

lemma same_queue_refl [simp]: "same_queue k k"
  by (simp add: same_queue_def)

lemma same_queue_trans: "same_queue k k1 \<Longrightarrow> same_queue k1 k2 \<Longrightarrow> same_queue k k2"
  by (simp add: same_queue_def)

definition orphaned :: "u16 set \<Rightarrow> (u16 \<rightharpoonup> process) \<Rightarrow> u16 \<rightharpoonup> process" where
  "orphaned S P = (\<lambda>x. map_option (\<lambda>p. p\<lparr>p_parent := if x \<in> S then Some 1 else p_parent p,
     p_sons := if x = 1 then p_sons p \<union> S else p_sons p\<rparr>) (P x))"

lemma orphan_loop:
  assumes "k_procs k 1 \<noteq> None"
  shows "for_list process_orphan xs k = Inr (k\<lparr>k_procs := orphaned (set xs) (k_procs k)\<rparr>)"
  using assms
proof (induction xs arbitrary: k)
  case Nil
  have "orphaned {} (k_procs k) x = k_procs k x" for x by (cases "k_procs k x") (simp_all add: orphaned_def)
  then have "orphaned {} (k_procs k) = k_procs k" by (simp add: fun_eq_iff)
  then show ?case by simp
next
  case (Cons x xs)
  let ?k = "upd_proc 1 (\<lambda>p. p\<lparr>p_sons := insert x (p_sons p)\<rparr>) (upd_proc x (\<lambda>p. p\<lparr>p_parent := Some 1\<rparr>) k)"
  have "k_procs ?k 1 \<noteq> None" using Cons.prems by (simp add: upd_proc_def)
  moreover have "?k\<lparr>k_procs := orphaned (set xs) (k_procs ?k)\<rparr> = k\<lparr>k_procs := orphaned (set (x # xs)) (k_procs k)\<rparr>"
  proof -
    have "orphaned (set xs) (k_procs ?k) y = orphaned (set (x # xs)) (k_procs k) y" for y
      by (cases "k_procs k y") (auto simp: orphaned_def upd_proc_def)
    then show ?thesis by (simp add: upd_proc_def fun_eq_iff)
  qed
  ultimately show ?case using Cons.IH[of ?k] Cons.prems by (simp add: process_orphan_def)
qed

lemma threads_delete:
  assumes "threads_ok P T G" "P i = Some p" "p_threads p = {}" "i \<noteq> 1" "P' i = None"
    and "\<And>x. x \<noteq> i \<Longrightarrow> map_option (\<lambda>p. (p_threads p, p_terminated p)) (P' x) = map_option (\<lambda>p. (p_threads p, p_terminated p)) (P x)"
    and "\<And>x. G x = None \<Longrightarrow> G' x = None"
  shows "threads_ok P' T G'"
proof -
  note h = threadsD[OF assms(1)]
  have v: "\<exists>r. P' x = Some r \<and> p_threads r = p_threads q \<and> p_terminated r = p_terminated q" if "P x = Some q" "x \<noteq> i" for x q
    using assms(6)[OF that(2)] that(1) by (cases "P' x") auto
  have v': "x \<noteq> i \<and> (\<exists>r. P x = Some r \<and> p_threads r = p_threads q \<and> p_terminated r = p_terminated q)" if "P' x = Some q" for x q
    using assms(5) assms(6)[of x] that by (cases "x = i"; cases "P x") auto
  show ?thesis
  proof (rule threads_okI)
    fix t th assume t: "T t = Some th"
    from h(1)[OF t] obtain q where q: "P (t_pid th) = Some q" "t \<in> p_threads q" by blast
    have "t_pid th \<noteq> i" using q assms(2,3) by auto
    from v[OF q(1) this] q(2) show "\<exists>q. P' (t_pid th) = Some q \<and> t \<in> p_threads q" by auto
    show "t_pid th \<noteq> t \<Longrightarrow> P' t = None \<and> G' t = None"
      using h(2)[OF t] assms(7) v'[of t] by (cases "P' t") auto
  next
    fix j q assume "P' j = Some q"
    from v'[OF this] obtain r where r: "P j = Some r" "p_threads r = p_threads q" "p_terminated r = p_terminated q" by blast
    show "p_terminated q \<Longrightarrow> p_threads q = {}" using h(3)[OF r(1)] r by simp
    show "\<And>t. t \<in> p_threads q \<Longrightarrow> \<exists>th. T t = Some th \<and> t_pid th = j" using h(4)[OF r(1)] r by simp
  next
    show "\<exists>q. P' 1 = Some q \<and> \<not> p_terminated q" using h(5) v[of 1] assms(4) by auto
  qed
qed

lemma zombie_no_waiters:
  assumes "core_ok k" "k_procs k i = Some p" "p_terminated p"
  shows "ws_waitings (k_wait k) (WProcess i) = {}"
proof (rule equals0I)
  fix t assume "t \<in> ws_waitings (k_wait k) (WProcess i)"
  then have "WProcess i \<in> ws_waiting (k_wait k) t" using core_okD(5)[OF assms(1)] by (auto simp: waits_ok_def registered_ok_def)
  then obtain th where th: "k_threads k t = Some th" "i = t_pid th" using core_okD(5)[OF assms(1)] unfolding waits_ok_def by blast
  show False using threadsD(1,3)[OF core_okD(1)[OF assms(1)]] th assms(2,3) by fastforce
qed

lemma freeP_effect:
  assumes "ids_ok (k_tids k) (k_procs k) (k_threads k) (k_groups k)" "k_procs k i \<noteq> None"
  shows "\<exists>b. freeP i k = Inr (k\<lparr>k_procs := (k_procs k)(i := None), k_tids := b\<rparr>) \<and> tids_wf b \<and>
    bs_size b = bs_size (k_tids k) \<and> free_ids b = free_ids (k_tids k) \<union> (if k_groups k i = None then {i} else {})"
proof -
  let ?k = "k\<lparr>k_procs := (k_procs k)(i := None)\<rparr>"
  have "tids_wf (k_tids ?k)" "unat i < unat (bs_size (k_tids ?k))" using assms by (auto simp: ids_ok_def)
  from set_tid_effect[OF this] obtain b where b: "set_tid i ?k = Inr (?k\<lparr>k_tids := b\<rparr>)" "tids_wf b"
    "bs_size b = bs_size (k_tids k)" "free_ids b = insert i (free_ids (k_tids k))" by auto
  show ?thesis
  proof (cases "k_groups k i")
    case None
    then show ?thesis using b assms(2) by (intro exI[of _ b]) (simp add: freeP_def Let_def)
  next
    case (Some g)
    then show ?thesis using assms by (intro exI[of _ "k_tids k"]) (simp add: freeP_def Let_def ids_ok_def)
  qed
qed

lemma group_rem_effect:
  assumes "G g = Some M" "i \<in> M" "tids_wf (k_tids k)" "unat g < unat (bs_size (k_tids k))" "k_groups k = G"
  shows "\<exists>b. group_rem g i k = Inr (k\<lparr>k_groups := if M - {i} = {} then G(g := None) else G(g \<mapsto> M - {i}),
      k_tids := b\<rparr>) \<and> tids_wf b \<and> bs_size b = bs_size (k_tids k) \<and>
    free_ids b = free_ids (k_tids k) \<union> (if M - {i} = {} then {g} else {})"
proof (cases "M - {i} = {}")
  case True
  let ?k = "k\<lparr>k_groups := G(g := None)\<rparr>"
  from set_tid_effect[of ?k g] assms(3,4) obtain b where b: "set_tid g ?k = Inr (?k\<lparr>k_tids := b\<rparr>)" "tids_wf b"
    "bs_size b = bs_size (k_tids k)" "free_ids b = insert g (free_ids (k_tids k))" by auto
  have "group_rem g i k = Inr (?k\<lparr>k_tids := b\<rparr>)"
    using b(1) assms(1,2,5) True by (simp add: group_rem_def freeG_def Let_def)
  then show ?thesis using b True by (intro exI[of _ b]) simp
next
  case False
  then have "group_rem g i k = Inr (k\<lparr>k_groups := G(g \<mapsto> M - {i})\<rparr>)"
    using assms(1,2,5) by (simp add: group_rem_def Let_def)
  then show ?thesis using False assms(3) by (intro exI[of _ "k_tids k"]) simp
qed

lemma waits_ok_cong:
  "waits_ok k \<Longrightarrow> k_wait k' = k_wait k \<Longrightarrow> k_current k' = k_current k \<Longrightarrow> k_threads k' = k_threads k \<Longrightarrow> waits_ok k'"
  by (simp add: waits_ok_def)

lemma groupsD:
  assumes "groups_ok (gids_of P) G"
  shows "P i = Some p \<Longrightarrow> \<exists>M. G (p_gid p) = Some M \<and> i \<in> M"
    and "G j = Some M \<Longrightarrow> i \<in> M \<Longrightarrow> \<exists>p. P i = Some p \<and> p_gid p = j"
    and "G j = Some M \<Longrightarrow> P j = Some p \<Longrightarrow> p_gid p = j"
    and "G j = Some M \<Longrightarrow> M \<noteq> {}"
proof -
  have g: "gids_of P i = Some j \<longleftrightarrow> (\<exists>p. P i = Some p \<and> p_gid p = j)" for i j by (simp add: gids_of_def)
  note o' = assms[unfolded groups_ok_def]
  show "P i = Some p \<Longrightarrow> \<exists>M. G (p_gid p) = Some M \<and> i \<in> M" using o' g by blast
  show "G j = Some M \<Longrightarrow> i \<in> M \<Longrightarrow> \<exists>p. P i = Some p \<and> p_gid p = j" using o' g by blast
  show "G j = Some M \<Longrightarrow> P j = Some p \<Longrightarrow> p_gid p = j" using o' g[of j j] g[of j "p_gid p"] by (metis option.inject option.distinct(1))
  show "G j = Some M \<Longrightarrow> M \<noteq> {}" using o' by blast
qed

text \<open>The processes after \<open>i\<close>, with sons \<open>S\<close> and parent \<open>q\<close>, is gone.\<close>

definition leave :: "u16 \<Rightarrow> u16 set \<Rightarrow> u16 \<Rightarrow> (u16 \<rightharpoonup> process) \<Rightarrow> u16 \<rightharpoonup> process" where
  "leave i S q P = (\<lambda>x. if x = i then None else map_option (\<lambda>p. p\<lparr>p_parent := if x \<in> S then Some 1 else p_parent p,
     p_sons := (if x = 1 then p_sons p \<union> S else p_sons p) - (if x = q then {i} else {})\<rparr>) (P x))"

lemma leave_eq:
  assumes "q \<noteq> i"
  shows "(orphaned S (P(i := None)))(q := map_option (\<lambda>p. p\<lparr>p_sons := p_sons p - {i}\<rparr>) (orphaned S (P(i := None)) q)) = leave i S q P"
proof
  fix x
  show "((orphaned S (P(i := None)))(q := map_option (\<lambda>p. p\<lparr>p_sons := p_sons p - {i}\<rparr>) (orphaned S (P(i := None)) q))) x = leave i S q P x"
    using assms by (cases "P x"; cases "x = q"; cases "x = i") (simp_all add: orphaned_def leave_def)
qed

lemma leave_view:
  "x \<noteq> i \<Longrightarrow> (\<And>p a b. f (p\<lparr>p_parent := a, p_sons := b\<rparr>) = f p) \<Longrightarrow> map_option f (leave i S q P x) = map_option f (P x)"
  by (cases "P x") (simp_all add: leave_def)

lemma leave_none: "leave i S q P x = None \<longleftrightarrow> x = i \<or> P x = None"
  by (simp add: leave_def)

lemma process_delete_ok:
  assumes "core_ok k" "k_procs k i = Some p" "p_terminated p" "order_ok E"
  shows "\<exists>k'. process_delete E i k = Inr k' \<and> (\<forall>q. p_parent p = Some q \<longrightarrow> k_procs k' = leave i (p_sons p) q (k_procs k)) \<and> core_ok k' \<and>
    same_queue k k' \<and> k_wait k' = k_wait k \<and> k_threads k' = k_threads k \<and>
    k_env k' = pe_delete E i (k_env k) \<and> bs_size (k_tids k') = bs_size (k_tids k) \<and>
    k_procs k' i = None \<and> (\<forall>x. x \<noteq> i \<longrightarrow> map_option (\<lambda>p. (p_threads p, p_terminated p)) (k_procs k' x) =
      map_option (\<lambda>p. (p_threads p, p_terminated p)) (k_procs k x))"
proof -
  note ko = core_okD[OF assms(1)]
  note th = threadsD[OF ko(1)] and tr = treeD[OF ko(2)]
  let ?P = "k_procs k" and ?T = "k_threads k" and ?G = "k_groups k"
  have pt: "p_threads p = {}" using th(3)[OF assms(2,3)] .
  have i1: "i \<noteq> 1" using th(5) assms(2,3) by auto
  have Ti: "?T i = None"
  proof (rule ccontr)
    assume "?T i \<noteq> None"
    then obtain t where t: "?T i = Some t" by blast
    have "t_pid t = i" using th(2)[OF t] assms(2) by auto
    then show False using th(1)[OF t] assms(2) pt by simp
  qed
  have Ri: "tree_of ?P i = Some (p_parent p, p_sons p)" using assms(2) by (simp add: tree_of_def)
  obtain q where q: "p_parent p = Some q" using Ri tr(4) i1 by (cases "p_parent p") auto
  from tr(2)[of i q] Ri q obtain r where r: "q \<noteq> i" "?P q = Some r" "i \<in> p_sons r"
    by (auto simp: tree_of_def)
  have "gids_of ?P i = Some (p_gid p)" using assms(2) by (simp add: gids_of_def)
  then obtain M where M: "?G (p_gid p) = Some M" "i \<in> M" using ko(3) unfolding groups_ok_def by blast
  have P1: "?P 1 \<noteq> None" using th(5) by auto
  from freeP_effect[OF ko(4), of i] assms(2) obtain b1 where b1: "freeP i k = Inr (k\<lparr>k_procs := ?P(i := None), k_tids := b1\<rparr>)"
    "tids_wf b1" "bs_size b1 = bs_size (k_tids k)" "free_ids b1 = free_ids (k_tids k) \<union> (if ?G i = None then {i} else {})" by auto
  let ?k1 = "k\<lparr>k_procs := ?P(i := None), k_tids := b1\<rparr>"
  let ?S = "p_sons p"
  have so: "set (pe_order E ?S) = ?S" using assms(4) by (simp add: order_ok_def)
  have o': "for_list process_orphan (pe_order E ?S) ?k1 = Inr (?k1\<lparr>k_procs := orphaned ?S (?P(i := None))\<rparr>)"
    using orphan_loop[of ?k1 "pe_order E ?S"] P1 i1 so by simp
  let ?k2 = "?k1\<lparr>k_procs := orphaned ?S (?P(i := None))\<rparr>"
  have "unat (p_gid p) < unat (bs_size b1)" using ko(4) M(1) b1(3) unfolding ids_ok_def by (metis option.distinct(1))
  from group_rem_effect[of ?G "p_gid p" M i ?k2] this M b1(2) obtain b2 where b2:
    "group_rem (p_gid p) i ?k2 = Inr (?k2\<lparr>k_groups := if M - {i} = {} then ?G(p_gid p := None) else ?G(p_gid p \<mapsto> M - {i}), k_tids := b2\<rparr>)"
    "tids_wf b2" "bs_size b2 = bs_size b1" "free_ids b2 = free_ids b1 \<union> (if M - {i} = {} then {p_gid p} else {})" by auto
  let ?G' = "if M - {i} = {} then ?G(p_gid p := None) else ?G(p_gid p \<mapsto> M - {i})"
  let ?P' = "leave i ?S q ?P"
  let ?k3 = "k\<lparr>k_procs := ?P', k_groups := ?G', k_tids := b2, k_env := pe_delete E i (k_env k)\<rparr>"
  have w: "wb_destroy (WProcess i) (k_wait k) = Inr (k_wait k)"
    using zombie_no_waiters[OF assms(1-3)] by (simp add: wb_destroy_def)
  have del: "process_delete E i k = Inr ?k3"
    using assms(2,3) b1(1) o' b2(1) q w by (simp add: process_delete_def deref_def upd_proc_def leave_eq[OF r(1)])
  note view = leave_view[of _ i _ ?S q ?P] and Pnone = leave_none[of i ?S q ?P]
  have Pi: "?P' i = None" by (simp add: leave_def)
  have "threads_ok ?P' ?T ?G'"
    by (rule threads_delete[where P' = ?P', OF ko(1) assms(2) pt i1 Pi]) (use M in \<open>auto intro!: leave_view split: if_splits\<close>)
  moreover have "tree_ok (tree_of ?P')"
  proof -
    have "tree_of ?P' x = adopt i ?S q (tree_of ?P) x" for x
      using r(1) by (cases "?P x") (simp_all add: tree_of_def adopt_def leave_def)
    then have "tree_of ?P' = adopt i ?S q (tree_of ?P)" by (simp add: fun_eq_iff)
    then show ?thesis using tree_delete[OF ko(2), of i q ?S] Ri q by simp
  qed
  moreover have "groups_ok (gids_of ?P') ?G'"
  proof -
    have "gids_of ?P' x = ((gids_of ?P)(i := None)) x" for x
      using leave_view[of x i p_gid ?S q ?P] Pi by (cases "x = i") (simp_all add: gids_of_def)
    then have "gids_of ?P' = (gids_of ?P)(i := None)" by (simp add: fun_eq_iff)
    then show ?thesis using groups_delete[OF ko(3) M] by simp
  qed
  moreover have "ids_ok b2 ?P' ?T ?G'"
  proof -
    have g1: "?P (p_gid p) = None \<or> p_gid p = i \<and> M - {i} = {} \<or> M - {i} \<noteq> {}"
    proof (cases "?P (p_gid p)")
      case (Some pg)
      then have "p_gid pg = p_gid p" using groupsD(3)[OF ko(3) M(1)] by simp
      then have "p_gid p \<in> M" using groupsD(1)[OF ko(3) Some] M(1) by simp
      then show ?thesis by auto
    qed simp
    have g2: "?T (p_gid p) = None" if "M - {i} = {}"
    proof (rule ccontr)
      assume "?T (p_gid p) \<noteq> None"
      then obtain t where t: "?T (p_gid p) = Some t" by blast
      then have "t_pid t = p_gid p" using th(2)[OF t] M(1) by auto
      then show False using th(1)[OF t] g1 that pt assms(2) Ti t by auto
    qed
    have g3: "2 \<le> unat (p_gid p)" if "M - {i} = {}"
    proof -
      have "p_gid p \<noteq> 1" using g1 that P1 i1 by auto
      then have "unat (p_gid p) \<noteq> 1" by (metis unat_1 word_unat_eq_iff)
      moreover have "1 \<le> unat (p_gid p)" using ko(4) M(1) unfolding ids_ok_def by (metis option.distinct(1))
      ultimately show ?thesis by simp
    qed
    have i2: "2 \<le> unat i" "unat i < unat (bs_size (k_tids k))"
    proof -
      have "unat i \<noteq> 1" using i1 by (metis unat_1 word_unat_eq_iff)
      moreover have "1 \<le> unat i \<and> unat i < unat (bs_size (k_tids k))" using ko(4) assms(2) unfolding ids_ok_def by blast
      ultimately show "2 \<le> unat i" "unat i < unat (bs_size (k_tids k))" by simp_all
    qed
    have gs: "unat (p_gid p) < unat (bs_size (k_tids k))" using ko(4) M(1) unfolding ids_ok_def by (metis option.distinct(1))
    have fr: "x \<in> free_ids (k_tids k) \<longleftrightarrow> 2 \<le> unat x \<and> unat x < unat (bs_size (k_tids k)) \<and> ?P x = None \<and> ?T x = None \<and> ?G x = None" for x
      using ko(4) unfolding ids_ok_def by blast
    have "x \<in> free_ids b2 \<longleftrightarrow> 2 \<le> unat x \<and> unat x < unat (bs_size b2) \<and> ?P' x = None \<and> ?T x = None \<and> ?G' x = None" for x
    proof (cases "x = i")
      case True
      then show ?thesis using b2 b1 i2 Ti M fr Pnone by (auto split: if_splits)
    next
      case False
      then show ?thesis using b2 b1 fr[of x] Pnone[of x] g1 g2 g3 gs M by (auto split: if_splits)
    qed
    moreover have "1 \<le> unat x \<and> unat x < unat (bs_size b2)" if "?P' x \<noteq> None \<or> ?T x \<noteq> None \<or> ?G' x \<noteq> None" for x
    proof -
      have "?P x \<noteq> None \<or> ?T x \<noteq> None \<or> ?G x \<noteq> None" using that Pnone[of x] M(1) by (auto split: if_splits)
      then show ?thesis using ko(4) unfolding ids_ok_def b2(3) b1(3) by blast
    qed
    ultimately show ?thesis using b2(2) unfolding ids_ok_def by blast
  qed
  moreover have "waits_ok ?k3" by (rule waits_ok_cong[OF ko(5)]) simp_all
  ultimately have "core_ok ?k3" by (simp add: core_ok_def hier_ok_def)
  moreover have "\<forall>x. x \<noteq> i \<longrightarrow> map_option (\<lambda>p. (p_threads p, p_terminated p)) (?P' x) =
      map_option (\<lambda>p. (p_threads p, p_terminated p)) (?P x)" by (auto intro!: leave_view)
  ultimately show ?thesis using del Pi q b1(3) b2(3) by (intro exI[of _ ?k3]) (simp add: same_queue_def)
qed

lemma core_ok_simps [simp]:
  "core_ok (k\<lparr>k_env := x\<rparr>) = core_ok k" "core_ok (k\<lparr>k_active := a\<rparr>) = core_ok k"
  "core_ok (k\<lparr>k_last := l\<rparr>) = core_ok k" "core_ok (k\<lparr>k_fifo := f\<rparr>) = core_ok k"
  "core_ok (k\<lparr>k_tryNum := n\<rparr>) = core_ok k" "core_ok (k\<lparr>k_halted := h\<rparr>) = core_ok k"
  "core_ok (k\<lparr>k_remaining := r\<rparr>) = core_ok k" "core_ok (k\<lparr>k_toRender := r\<rparr>) = core_ok k"
  by (simp_all add: core_ok_def waits_ok_def)

lemma core_ok_upd_thread:
  assumes "core_ok k" "\<And>t. t_pid (f t) = t_pid t"
  shows "core_ok (upd_thread t f k)"
proof -
  let ?T = "(k_threads k)(t := map_option f (k_threads k t))"
  note c = core_okD[OF assms(1)]
  note h = threadsD[OF c(1)]
  have v: "?T u = Some uh \<Longrightarrow> \<exists>vh. k_threads k u = Some vh \<and> t_pid vh = t_pid uh" for u uh
    using assms(2) by (auto split: if_splits)
  have v': "k_threads k u = Some vh \<Longrightarrow> \<exists>uh. ?T u = Some uh \<and> t_pid uh = t_pid vh" for u vh
    using assms(2) by auto
  have n: "?T u = None \<longleftrightarrow> k_threads k u = None" for u by auto
  have "threads_ok (k_procs k) ?T (k_groups k)"
  proof (rule threads_okI)
    fix u uh assume "?T u = Some uh"
    from v[OF this] obtain vh where u: "k_threads k u = Some vh" "t_pid vh = t_pid uh" by blast
    show "\<exists>p. k_procs k (t_pid uh) = Some p \<and> u \<in> p_threads p" using h(1)[OF u(1)] u(2) by simp
    show "t_pid uh \<noteq> u \<Longrightarrow> k_procs k u = None \<and> k_groups k u = None" using h(2)[OF u(1)] u(2) by simp
  next
    fix i p u assume "k_procs k i = Some p" "u \<in> p_threads p"
    from h(4)[OF this] show "\<exists>uh. ?T u = Some uh \<and> t_pid uh = i" using v'[of u] by blast
  qed (use h(3,5) in blast)+
  moreover have "waits_ok (upd_thread t f k)"
    using c(5) assms(2) unfolding waits_ok_def upd_thread_def by fastforce
  ultimately show ?thesis using c n by (simp add: core_ok_def hier_ok_def upd_thread_def ids_ok_def)
qed

definition same_threads :: "('c, 'x) kernel \<Rightarrow> ('c, 'x) kernel \<Rightarrow> bool" where
  "same_threads k k' \<longleftrightarrow> (\<forall>t. k_threads k' t = None \<longleftrightarrow> k_threads k t = None) \<and>
    (live_ok (k_procs k) \<longrightarrow> live_ok (k_procs k'))"

lemma same_threads_refl [simp]: "same_threads k k"
  by (simp add: same_threads_def)

lemma view_live:
  assumes "\<And>x. x \<noteq> i \<Longrightarrow> map_option (\<lambda>p. (p_threads p, p_terminated p)) (P' x) = map_option (\<lambda>p. (p_threads p, p_terminated p)) (P x)"
    "P' i = None" "live_ok P"
  shows "live_ok P'"
  unfolding live_ok_def
proof (intro allI impI)
  fix j q assume q: "P' j = Some q \<and> \<not> p_terminated q"
  then have ji: "j \<noteq> i" using assms(2) by auto
  from assms(1)[OF ji] q obtain r where "P j = Some r" "p_threads r = p_threads q" "p_terminated r = p_terminated q"
    by (cases "P j") auto
  then show "p_threads q \<noteq> {}" using assms(3) q unfolding live_ok_def by metis
qed

text \<open>Reaping a child that is a zombie, with the status stored first when asked for.\<close>

lemma reap_ok:
  assumes "core_ok k" "k_procs k s = Some p" "p_terminated p" "order_ok E"
  shows "\<exists>k'. process_delete E s (if c then k\<lparr>k_env := x\<rparr> else k) = Inr k' \<and> core_ok k' \<and> same_queue k k' \<and>
    k_wait k' = k_wait k \<and> same_threads k k'"
proof -
  let ?k = "if c then k\<lparr>k_env := x\<rparr> else k"
  have k: "core_ok ?k" "k_procs ?k s = Some p" using assms by simp_all
  from process_delete_ok[OF k assms(3,4)] obtain k' where k':
    "process_delete E s ?k = Inr k'" "core_ok k'" "same_queue ?k k'" "k_wait k' = k_wait ?k" "k_threads k' = k_threads ?k"
    "k_procs k' s = None" "\<And>x. x \<noteq> s \<Longrightarrow> map_option (\<lambda>p. (p_threads p, p_terminated p)) (k_procs k' x) =
      map_option (\<lambda>p. (p_threads p, p_terminated p)) (k_procs ?k x)" by blast
  have "same_threads ?k k'" unfolding same_threads_def using k'(5) view_live[of s "k_procs k'" "k_procs ?k", OF k'(7) k'(6)] by auto
  then have "same_threads k k'" by (simp add: same_threads_def split: if_splits)
  moreover have "same_queue k k'" using k'(3) by (simp add: same_queue_def split: if_splits)
  ultimately show ?thesis using k' by auto
qed

lemma run_check_ok:
  assumes "core_ok k" "k_threads k tid \<noteq> None" "order_ok E"
  shows "\<exists>r k'. run_check E tid c k = Inr (r, k') \<and> core_ok k' \<and> same_queue k k' \<and> k_wait k' = k_wait k \<and> same_threads k k'"
proof -
  note co = core_okD[OF assms(1)]
  obtain th where th: "k_threads k tid = Some th" using assms(2) by blast
  from threadsD(1)[OF co(1) th] obtain pr where pr: "k_procs k (t_pid th) = Some pr" by blast
  have son: "\<exists>p. k_procs k s = Some p" if "s \<in> p_sons pr" for s
    using treeD(1)[OF co(2), of "t_pid th" "p_parent pr" "p_sons pr" s] pr that by (auto simp: tree_of_def)
  show ?thesis
  proof (cases c)
    case (AnyChild st)
    let ?z = "\<lambda>s. case k_procs k s of Some p \<Rightarrow> p_terminated p | None \<Rightarrow> False"
    show ?thesis
    proof (cases "p_sons pr = {} \<or> find ?z (pe_order E (p_sons pr)) = None")
      case True
      then show ?thesis using th pr assms(1) AnyChild
        by (auto simp: run_check_def nbwaitp_any_def deref_def)
    next
      case False
      then obtain s where f: "find ?z (pe_order E (p_sons pr)) = Some s" and ne: "p_sons pr \<noteq> {}" by auto
      then have "?z s" by (auto simp: find_Some_iff)
      then obtain p where p: "k_procs k s = Some p" "p_terminated p" by (auto split: option.splits)
      from reap_ok[OF assms(1) p assms(3), of "st \<noteq> 0" "pe_poke E (t_pid th) st (p_returnCode p) (k_env k)"] f ne th pr p AnyChild
      show ?thesis by (auto simp: run_check_def nbwaitp_any_def deref_def Let_def)
    qed
  next
    case (OneChild s st)
    show ?thesis
    proof (cases "s \<in> p_sons pr \<and> p_terminated (the (k_procs k s))")
      case True
      then obtain p where p: "k_procs k s = Some p" "p_terminated p" using son by fastforce
      from reap_ok[OF assms(1) p assms(3), of "st \<noteq> 0" "pe_poke E (t_pid th) st (p_returnCode p) (k_env k)"] True th pr p OneChild
      show ?thesis by (auto simp: run_check_def nbwaitp_one_def deref_def Let_def)
    next
      case False
      then show ?thesis using th pr son[of s] assms(1) OneChild
        by (cases "s \<in> p_sons pr") (auto simp: run_check_def nbwaitp_one_def deref_def)
    qed
  next
    case (StreamCheck a)
    then show ?thesis using assms(1)
      by (cases "pe_check E a tid (k_env k)") (simp add: run_check_def same_queue_def same_threads_def)
  qed
qed

end
