(* ===== verification/ProcSched.thy ===== *)
theory ProcSched
  imports ProcInv
begin

text \<open>
  The scheduler proper: \<open>run\<close> returns from every parked state, every handler (system calls, the
  timer, \<open>fork\<close>, \<open>clone\<close>, \<open>waitp\<close>, \<open>exit\<close>) keeps the invariant of ProcInv, and so every state
  reachable from boot satisfies it.
\<close>

lemma same_threads_trans: "same_threads k k1 \<Longrightarrow> same_threads k1 k2 \<Longrightarrow> same_threads k k2"
  by (simp add: same_threads_def)

lemma upd_thread_simps [simp]:
  "k_procs (upd_thread t f k) = k_procs k" "k_groups (upd_thread t f k) = k_groups k" "k_wait (upd_thread t f k) = k_wait k"
  "k_fifo (upd_thread t f k) = k_fifo k" "k_current (upd_thread t f k) = k_current k" "k_tryNum (upd_thread t f k) = k_tryNum k"
  "k_last (upd_thread t f k) = k_last k" "k_halted (upd_thread t f k) = k_halted k" "k_tids (upd_thread t f k) = k_tids k"
  "k_env (upd_thread t f k) = k_env k" "k_threads (upd_thread t f k) u = None \<longleftrightarrow> k_threads k u = None"
  by (auto simp: upd_thread_def)

lemma wt_take_simps [simp]: "ws_checker (wt_take t s) = ws_checker s" "ws_waiting (wt_take t s) = ws_waiting s"
  by (simp_all add: wt_take_def)

lemma core_ok_wait:
  "core_ok k \<Longrightarrow> waits_ok (k\<lparr>k_wait := w\<rparr>) \<Longrightarrow> core_ok (k\<lparr>k_wait := w\<rparr>)"
  by (simp add: core_ok_def)

lemma waits_take:
  assumes "waits_ok k"
  shows "waits_ok (k\<lparr>k_wait := wt_take t (k_wait k)\<rparr>)"
  using assms unfolding waits_ok_def registered_ok_def by (auto simp: wt_take_def split: if_splits)

lemma waits_accept:
  assumes "waits_ok k" "ws_waited (k_wait k) t = Some w" "k_threads k' = k_threads k" "k_current k' = k_current k"
    "k_wait k' = wt_accept t (wt_take t (k_wait k))"
  shows "waits_ok k'"
  using assms registered_accept[OF _ assms(2)] unfolding waits_ok_def by (auto simp: wt_take_def wt_accept_def split: if_splits)

lemma waits_refuse:
  assumes "waits_ok k" "ws_waited (k_wait k) t = Some w" "k_threads k' = k_threads k" "k_current k' = k_current k"
    "k_wait k' = wt_refuse t (wt_take t (k_wait k))"
  shows "waits_ok k'"
  using assms registered_refuse[OF _ assms(2)] unfolding waits_ok_def by (auto simp: wt_take_def wt_refuse_def split: if_splits)

text \<open>
  \<open>OK()\<close> never faults; it keeps the invariant and the queue, and only touches the waiting state of
  its own thread. After it no signal is pending, so that the second call of the code
  ends there.
\<close>

lemma thread_OK_ok:
  assumes "core_ok k" "k_threads k tid \<noteq> None" "order_ok E"
  shows "\<exists>b k'. thread_OK E tid k = Inr (b, k') \<and> core_ok k' \<and> same_queue k k' \<and> same_threads k k' \<and>
    ws_waited (k_wait k') tid = None \<and> (b \<longleftrightarrow> ws_waiting (k_wait k') tid = {}) \<and>
    (\<forall>u. u \<noteq> tid \<longrightarrow> ws_waited (k_wait k') u = ws_waited (k_wait k) u \<and> ws_waiting (k_wait k') u = ws_waiting (k_wait k) u)"
proof (cases "ws_waited (k_wait k) tid")
  case None
  then show ?thesis using assms(1) by (simp add: thread_OK_def)
next
  case (Some w)
  let ?k0 = "k\<lparr>k_wait := wt_take tid (k_wait k)\<rparr>"
  obtain th where th: "k_threads k tid = Some th" using assms(2) by blast
  note wo = core_okD(5)[OF assms(1)]
  have "w \<in> ws_waiting (k_wait k) tid" using wo Some unfolding waits_ok_def registered_ok_def by blast
  then obtain c where c: "ws_checker (k_wait k) tid = Some c" using wo unfolding waits_ok_def by blast
  have "core_ok (?k0\<lparr>k_active := Some (t_pid th)\<rparr>)" using core_ok_wait[OF assms(1) waits_take[OF wo]] by simp
  from run_check_ok[OF this _ assms(3), of tid c] assms(2) obtain r k1 where k1:
    "run_check E tid c (?k0\<lparr>k_active := Some (t_pid th)\<rparr>) = Inr (r, k1)" "core_ok k1" "same_queue (?k0\<lparr>k_active := Some (t_pid th)\<rparr>) k1"
    "k_wait k1 = wt_take tid (k_wait k)" "same_threads (?k0\<lparr>k_active := Some (t_pid th)\<rparr>) k1" by auto
  have q: "same_queue k k1" using k1(3) by (simp add: same_queue_def)
  have t: "same_threads k k1" using k1(5) by (simp add: same_threads_def)
  have wk1: "waits_ok (k1\<lparr>k_wait := k_wait k\<rparr>)"
  proof -
    have "registered_ok (k_wait k)" using wo by (simp add: waits_ok_def)
    then show ?thesis using core_okD(5)[OF k1(2)] k1(4) by (simp add: waits_ok_def wt_take_def)
  qed
  show ?thesis
  proof (cases "r = - EBLOCK")
    case True
    let ?k2 = "k1\<lparr>k_wait := wt_refuse tid (k_wait k1)\<rparr>"
    have "waits_ok ?k2" using waits_refuse[OF wk1, of tid w ?k2] Some k1(4) by simp
    then have "core_ok ?k2" using core_ok_wait[OF k1(2)] by simp
    moreover have "thread_OK E tid k = Inr (ws_waiting (k_wait ?k2) tid = {}, ?k2)"
      using Some th c k1(1) True by (simp add: thread_OK_def checker_call_def deref_def)
    moreover have "same_queue k ?k2" "same_threads k ?k2" using q t by (simp_all add: same_queue_def same_threads_def)
    moreover have "k_wait ?k2 = wt_refuse tid (wt_take tid (k_wait k))" using k1(4) by simp
    ultimately show ?thesis
      by (intro exI[of _ "ws_waiting (k_wait ?k2) tid = {}"] exI[of _ ?k2]) (simp only:, simp add: wt_take_def wt_refuse_def)
  next
    case False
    let ?k2 = "k1\<lparr>k_wait := wt_accept tid (k_wait k1)\<rparr>"
    let ?k3 = "upd_thread tid (\<lambda>t. t\<lparr>t_ctx := (t_ctx t)\<lparr>cx_rax := r\<rparr>\<rparr>) ?k2"
    have "waits_ok ?k2" using waits_accept[OF wk1, of tid w ?k2] Some k1(4) by simp
    then have "core_ok ?k3" using core_ok_wait[OF k1(2)] by (intro core_ok_upd_thread) simp_all
    moreover have "thread_OK E tid k = Inr (ws_waiting (k_wait ?k3) tid = {}, ?k3)"
      using Some th c k1(1) False by (simp add: thread_OK_def checker_call_def deref_def)
    moreover have "same_queue k ?k3" "same_threads k ?k3" using q t by (simp_all add: same_queue_def same_threads_def)
    moreover have "k_wait ?k3 = wt_accept tid (wt_take tid (k_wait k))" using k1(4) by simp
    ultimately show ?thesis
      by (intro exI[of _ "ws_waiting (k_wait ?k3) tid = {}"] exI[of _ ?k3]) (simp only:, simp add: wt_take_def wt_accept_def)
  qed
qed

definition blocked :: "u16 \<Rightarrow> ('c, 'x) kernel \<Rightarrow> bool" where
  "blocked t k \<longleftrightarrow> ws_waiting (k_wait k) t \<noteq> {} \<and> ws_waited (k_wait k) t = None"

text \<open>In the middle of \<open>run\<close>: the last \<open>tryNum\<close> entries of the queue are threads that cannot run.\<close>

definition run_ok :: "('c, 'x) kernel \<Rightarrow> bool" where
  "run_ok k \<longleftrightarrow> core_ok k \<and> k_current k = None \<and> k_last k = None \<and> \<not> k_halted k \<and> live_ok (k_procs k) \<and>
    (\<forall>t. k_threads k t \<noteq> None \<longrightarrow> t \<in> set (k_fifo k)) \<and>
    (\<exists>xs ys. k_fifo k = xs @ ys \<and> length ys = k_tryNum k \<and> (\<forall>t\<in>set ys. blocked t k))"

lemma run_okI:
  assumes "core_ok k" "k_current k = None" "k_last k = None" "\<not> k_halted k" "live_ok (k_procs k)"
    "\<And>t. k_threads k t \<noteq> None \<Longrightarrow> t \<in> set (k_fifo k)"
    "k_fifo k = xs @ ys" "length ys = k_tryNum k" "\<And>t. t \<in> set ys \<Longrightarrow> blocked t k"
  shows "run_ok k"
  unfolding run_ok_def using assms by blast

lemma run_ok_fifo:
  assumes "run_ok k"
  shows "k_fifo k \<noteq> []"
proof -
  from threadsD(5)[OF core_okD(1)] assms obtain p where p: "k_procs k 1 = Some p" "\<not> p_terminated p"
    unfolding run_ok_def by blast
  then have "p_threads p \<noteq> {}" using assms unfolding run_ok_def live_ok_def by blast
  then obtain t where "t \<in> p_threads p" by blast
  then have "k_threads k t \<noteq> None" using threadsD(4)[OF core_okD(1) p(1)] assms unfolding run_ok_def by fastforce
  then show ?thesis using assms unfolding run_ok_def by fastforce
qed

definition ran_ok :: "outcome \<times> ('c, 'x) kernel \<Rightarrow> bool" where
  "ran_ok r \<longleftrightarrow> (case r of
     (Running t, k) \<Rightarrow> kernel_ok k \<and> k_current k = Some t \<and> k_last k = None \<and> k_remaining k = processQuantum
   | (Idle, k) \<Rightarrow> kernel_ok k \<and> k_current k = None \<and> k_last k = None \<and> k_halted k \<and>
       (\<forall>t. k_threads k t \<noteq> None \<longrightarrow> blocked t k)
   | (Returns, k) \<Rightarrow> False)"

lemma sched_run_ok:
  assumes "order_ok E" "run_ok k"
  shows "\<exists>r. sched_run E k = Some (Inr r) \<and> ran_ok r"
  using assms(2)
proof (induction "length (k_fifo k) - k_tryNum k" arbitrary: k rule: less_induct)
  case less
  note r = less.prems[unfolded run_ok_def]
  from r obtain xs ys where f: "k_fifo k = xs @ ys" "length ys = k_tryNum k" "\<forall>t\<in>set ys. blocked t k" by blast
  show ?case
  proof (cases xs)
    case Nil
    then have s: "sched_run E k = Some (Inr (Idle, k\<lparr>k_tryNum := 0, k_halted := True\<rparr>))"
      using run_ok_fifo[OF less.prems] r f by (subst sched_run.simps) simp
    have "kernel_ok (k\<lparr>k_tryNum := 0, k_halted := True\<rparr>)" using r by (simp add: kernel_ok_def queue_ok_def)
    moreover have "\<forall>t. k_threads k t \<noteq> None \<longrightarrow> blocked t k" using r f Nil by auto
    ultimately show ?thesis using s r by (auto simp: ran_ok_def blocked_def)
  next
    case (Cons tid xs')
    let ?k1 = "k\<lparr>k_fifo := xs' @ ys\<rparr>"
    have un: "sched_run E k = (if k_threads ?k1 tid = None then sched_run E ?k1
       else (case thread_OK E tid ?k1 of
           Inl e \<Rightarrow> Some (Inl e)
         | Inr (ok, k2) \<Rightarrow>
             if \<not> ok then sched_run E (k2\<lparr>k_tryNum := k_tryNum k2 + 1, k_fifo := k_fifo k2 @ [tid]\<rparr>)
             else (case k_threads k2 tid of
                 None \<Rightarrow> Some (Inl NullAccess)
               | Some th \<Rightarrow> Some (Inr (Running tid,
                   k2\<lparr>k_current := Some tid, k_remaining := processQuantum, k_tryNum := 0, k_active := Some (t_pid th)\<rparr>)))))"
      using r f Cons by (subst sched_run.simps) (simp add: Let_def)
    show ?thesis
    proof (cases "k_threads k tid")
      case None
      have "run_ok ?k1"
        by (rule run_okI[where xs = xs' and ys = ys]) (use r f None Cons in \<open>auto simp: blocked_def\<close>)
      moreover have "length (k_fifo ?k1) - k_tryNum ?k1 < length (k_fifo k) - k_tryNum k" using f Cons by simp
      ultimately show ?thesis using less.hyps[of ?k1] un None by simp
    next
      case (Some th)
      have c1: "core_ok ?k1" "k_threads ?k1 tid \<noteq> None" using r Some by simp_all
      from thread_OK_ok[OF c1 assms(1)] obtain b k2 where ok: "thread_OK E tid ?k1 = Inr (b, k2)" "core_ok k2" "same_queue ?k1 k2"
        "same_threads ?k1 k2" "ws_waited (k_wait k2) tid = None" "b \<longleftrightarrow> ws_waiting (k_wait k2) tid = {}"
        "\<And>u. u \<noteq> tid \<Longrightarrow> ws_waited (k_wait k2) u = ws_waited (k_wait k) u \<and> ws_waiting (k_wait k2) u = ws_waiting (k_wait k) u"
        by auto
      have sq: "k_fifo k2 = xs' @ ys" "k_tryNum k2 = k_tryNum k" "k_current k2 = None" "k_last k2 = None" "\<not> k_halted k2"
        using ok(3) r by (simp_all add: same_queue_def)
      have st: "live_ok (k_procs k2)" "\<And>t. k_threads k2 t = None \<longleftrightarrow> k_threads k t = None"
        using ok(4) r by (simp_all add: same_threads_def)
      have inq: "t \<in> set (xs' @ ys) \<or> t = tid" if "k_threads k2 t \<noteq> None" for t
        using that st(2) r f Cons by auto
      show ?thesis
      proof (cases b)
        case False
        let ?k3 = "k2\<lparr>k_tryNum := k_tryNum k2 + 1, k_fifo := k_fifo k2 @ [tid]\<rparr>"
        have bl: "blocked tid k2" using ok(5,6) False by (simp add: blocked_def)
        have "blocked t k2" if "t \<in> set ys" for t
          using f(3) that ok(7)[of t] bl by (cases "t = tid") (auto simp: blocked_def)
        then have "run_ok ?k3"
          by (intro run_okI[where xs = xs' and ys = "ys @ [tid]"]) (use ok(2) sq st inq f bl in \<open>auto simp: blocked_def\<close>)
        moreover have "length (k_fifo ?k3) - k_tryNum ?k3 < length (k_fifo k) - k_tryNum k" using f Cons sq by simp
        ultimately show ?thesis using less.hyps[of ?k3] un Some ok(1) False by simp
      next
        case True
        obtain th2 where th2: "k_threads k2 tid = Some th2" using st(2)[of tid] Some by auto
        let ?k3 = "k2\<lparr>k_current := Some tid, k_remaining := processQuantum, k_tryNum := 0, k_active := Some (t_pid th2)\<rparr>"
        have "waits_ok ?k3" using core_okD(5)[OF ok(2)] ok(6) True unfolding waits_ok_def by auto
        then have "core_ok ?k3" using ok(2) by (simp add: core_ok_def)
        moreover have "queue_ok ?k3" using inq st(1) th2 sq by (auto simp: queue_ok_def)
        ultimately have "ran_ok (Running tid, ?k3)" using sq by (simp add: ran_ok_def kernel_ok_def)
        then show ?thesis using un Some ok(1) True th2 by simp
      qed
    qed
  qed
qed

section \<open>The operations keep the invariant\<close>

text \<open>Threads \<open>D\<close> of process \<open>i\<close> are destroyed.\<close>

lemma core_drop:
  assumes "core_ok k" "k_procs k i = Some p" "D \<subseteq> p_threads p" "p_threads p' = p_threads p - D"
    and "p_gid p' = p_gid p" "p_parent p' = p_parent p" "p_sons p' = p_sons p"
    and "p_terminated p' \<longrightarrow> p_threads p' = {} \<and> i \<noteq> 1 \<or> p_terminated p"
    and "k_procs k' = (k_procs k)(i \<mapsto> p')" "k_threads k' = k_threads k |` (- D)" "k_groups k' = k_groups k"
    and "tids_wf (k_tids k')" "bs_size (k_tids k') = bs_size (k_tids k)"
    and "free_ids (k_tids k') = free_ids (k_tids k) \<union> {x \<in> D. k_procs k x = None \<and> k_groups k x = None}"
    and "registered_ok (k_wait k')" "ws_waiting (k_wait k') = ws_waiting (k_wait k)" "ws_checker (k_wait k') = ws_checker (k_wait k)"
    and "\<And>t. t \<in> D \<Longrightarrow> ws_waiting (k_wait k) t = {}" "k_current k' = k_current k"
  shows "core_ok k'"
proof -
  note co = core_okD[OF assms(1)]
  have Pn: "k_procs k' x = None \<longleftrightarrow> k_procs k x = None" for x using assms(2,9) by auto
  have DT: "k_threads k x \<noteq> None" if "x \<in> D" for x using threadsD(4)[OF co(1) assms(2), of x] that assms(3) by auto
  have Tn: "k_threads k' x = None \<longleftrightarrow> k_threads k x = None \<or> x \<in> D" for x
    using assms(10) DT by (auto simp: restrict_map_def)
  have "threads_ok (k_procs k') (k_threads k') (k_groups k')"
    unfolding assms(9-11) by (rule threads_drop[OF co(1) assms(2-4,8)])
  moreover have "tree_ok (tree_of (k_procs k'))" using co(2) tree_of_upd[OF assms(6,7), of "k_procs k" i] assms(2,9) by simp
  moreover have "groups_ok (gids_of (k_procs k')) (k_groups k')" using co(3) gids_of_upd[OF assms(5), of "k_procs k" i] assms(2,9,11) by simp
  moreover have "ids_ok (k_tids k') (k_procs k') (k_threads k') (k_groups k')"
  proof -
    have P1: "k_procs k 1 \<noteq> None" using threadsD(5)[OF co(1)] by auto
    have in_range: "2 \<le> unat x \<and> unat x < unat (bs_size (k_tids k))" if "x \<in> D" "k_procs k x = None" for x
    proof -
      have "1 \<le> unat x \<and> unat x < unat (bs_size (k_tids k))" using co(4) DT[OF that(1)] unfolding ids_ok_def by blast
      moreover have "unat x \<noteq> 1" using that(2) P1 by (metis unat_1 word_unat_eq_iff)
      ultimately show ?thesis by simp
    qed
    have fr: "x \<in> free_ids (k_tids k) \<longleftrightarrow> 2 \<le> unat x \<and> unat x < unat (bs_size (k_tids k)) \<and> k_procs k x = None \<and> k_threads k x = None \<and> k_groups k x = None" for x
      using co(4) unfolding ids_ok_def by blast
    have "x \<in> free_ids (k_tids k') \<longleftrightarrow> 2 \<le> unat x \<and> unat x < unat (bs_size (k_tids k')) \<and> k_procs k' x = None \<and> k_threads k' x = None \<and> k_groups k' x = None" for x
      using fr[of x] in_range[of x] Pn[of x] Tn[of x] assms(11,13,14) by auto
    moreover have "1 \<le> unat x \<and> unat x < unat (bs_size (k_tids k'))" if "k_procs k' x \<noteq> None \<or> k_threads k' x \<noteq> None \<or> k_groups k' x \<noteq> None" for x
      using co(4) that Pn[of x] Tn[of x] assms(11,13) unfolding ids_ok_def by auto
    ultimately show ?thesis using assms(12) unfolding ids_ok_def by blast
  qed
  moreover have "waits_ok k'"
    unfolding waits_ok_def
  proof (intro conjI allI impI)
    show "registered_ok (k_wait k')" by fact
    fix t w assume "w \<in> ws_waiting (k_wait k') t"
    then have w: "w \<in> ws_waiting (k_wait k) t" "t \<notin> D" using assms(16,18) by auto
    from co(5) w(1) have "k_current k \<noteq> Some t \<and> ws_checker (k_wait k) t \<noteq> None \<and> (\<exists>th. k_threads k t = Some th \<and> (\<forall>i. w = WProcess i \<longrightarrow> i = t_pid th))"
      unfolding waits_ok_def by blast
    then show "k_current k' \<noteq> Some t" "ws_checker (k_wait k') t \<noteq> None"
      "\<exists>th. k_threads k' t = Some th \<and> (\<forall>i. w = WProcess i \<longrightarrow> i = t_pid th)"
      using assms(10,17,19) w(2) by (auto simp: restrict_map_def)
  qed
  ultimately show ?thesis by (simp add: core_ok_def hier_ok_def)
qed

lemma thread_delete_effect:
  assumes "thread_delete t k = Inr k'" "tids_wf (k_tids k)" "\<And>x. k_threads k x \<noteq> None \<Longrightarrow> unat x < unat (bs_size (k_tids k))"
  shows "\<exists>b. k' = k\<lparr>k_threads := (k_threads k)(t := None), k_tids := b\<rparr> \<and> tids_wf b \<and> bs_size b = bs_size (k_tids k) \<and>
    free_ids b = free_ids (k_tids k) \<union> (if k_procs k t = None \<and> k_groups k t = None then {t} else {}) \<and>
    k_current k \<noteq> Some t \<and> k_threads k t \<noteq> None \<and> ws_waiting (k_wait k) t = {} \<and> ws_waited (k_wait k) t = None"
proof -
  let ?k = "k\<lparr>k_threads := (k_threads k)(t := None)\<rparr>"
  from assms(1) have a: "k_current k \<noteq> Some t" "k_threads k t \<noteq> None"
    by (auto simp: thread_delete_def freeT_def res_simps check_def split: if_splits)
  from set_tid_effect[of ?k t] assms(2,3) a(2) obtain b where b: "set_tid t ?k = Inr (?k\<lparr>k_tids := b\<rparr>)" "tids_wf b"
    "bs_size b = bs_size (k_tids k)" "free_ids b = insert t (free_ids (k_tids k))" by auto
  show ?thesis
  proof (cases "k_procs k t = None \<and> k_groups k t = None")
    case True
    then have "freeT t k = Inr (?k\<lparr>k_tids := b\<rparr>)" using a b by (simp add: freeT_def Let_def)
    then show ?thesis using assms(1) a b True by (intro exI[of _ b]) (auto simp: thread_delete_def wt_destroy_def res_simps)
  next
    case False
    then have "freeT t k = Inr ?k" using a by (auto simp: freeT_def Let_def)
    then show ?thesis using assms(1,2) a False by (intro exI[of _ "k_tids k"]) (auto simp: thread_delete_def wt_destroy_def res_simps)
  qed
qed

lemma delete_loop:
  assumes "for_list thread_delete ts k = Inr k'" "tids_wf (k_tids k)" "\<And>x. k_threads k x \<noteq> None \<Longrightarrow> unat x < unat (bs_size (k_tids k))"
  shows "\<exists>b. k' = k\<lparr>k_threads := k_threads k |` (- set ts), k_tids := b\<rparr> \<and> tids_wf b \<and> bs_size b = bs_size (k_tids k) \<and>
    free_ids b = free_ids (k_tids k) \<union> {x \<in> set ts. k_procs k x = None \<and> k_groups k x = None} \<and>
    (\<forall>t\<in>set ts. ws_waiting (k_wait k) t = {} \<and> ws_waited (k_wait k) t = None)"
  using assms
proof (induction ts arbitrary: k)
  case Nil
  then show ?case by (intro exI[of _ "k_tids k"]) simp
next
  case (Cons t ts)
  from Cons.prems(1) obtain k1 where k1: "thread_delete t k = Inr k1" "for_list thread_delete ts k1 = Inr k'" by (auto simp: res_simps)
  from thread_delete_effect[OF k1(1) Cons.prems(2,3)] obtain b where b: "k1 = k\<lparr>k_threads := (k_threads k)(t := None), k_tids := b\<rparr>"
    "tids_wf b" "bs_size b = bs_size (k_tids k)" "ws_waiting (k_wait k) t = {}" "ws_waited (k_wait k) t = None"
    "free_ids b = free_ids (k_tids k) \<union> (if k_procs k t = None \<and> k_groups k t = None then {t} else {})" by blast
  have "\<And>x. k_threads k1 x \<noteq> None \<Longrightarrow> unat x < unat (bs_size (k_tids k1))" using Cons.prems(3) b(1,3) by (auto split: if_splits)
  from Cons.IH[OF k1(2) _ this] b(1,2) obtain b' where b': "k' = k1\<lparr>k_threads := k_threads k1 |` (- set ts), k_tids := b'\<rparr>"
    "tids_wf b'" "bs_size b' = bs_size b" "free_ids b' = free_ids b \<union> {x \<in> set ts. k_procs k x = None \<and> k_groups k x = None}"
    "\<forall>t\<in>set ts. ws_waiting (k_wait k) t = {} \<and> ws_waited (k_wait k) t = None" by (auto simp del: restrict_fun_upd fun_upd_apply)
  have "(k_threads k)(t := None) |` (- set ts) = k_threads k |` (- set (t # ts))"
    by (auto simp: restrict_map_def fun_eq_iff)
  then have "k' = k\<lparr>k_threads := k_threads k |` (- set (t # ts)), k_tids := b'\<rparr>" using b'(1) b(1) by simp
  moreover have "free_ids b' = free_ids (k_tids k) \<union> {x \<in> set (t # ts). k_procs k x = None \<and> k_groups k x = None}"
    using b'(4) b(6) by auto
  ultimately show ?case using b' b by (intro exI[of _ b']) simp
qed

text \<open>What a change of a process's threads leaves of the queue.\<close>

definition fewer_threads :: "('c, 'x) kernel \<Rightarrow> ('c, 'x) kernel \<Rightarrow> bool" where
  "fewer_threads k k' \<longleftrightarrow> same_queue k k' \<and> (\<forall>t. k_threads k' t \<noteq> None \<longrightarrow> k_threads k t \<noteq> None) \<and>
    (live_ok (k_procs k) \<longrightarrow> live_ok (k_procs k'))"

lemma ids_range: "core_ok k \<Longrightarrow> k_threads k x \<noteq> None \<Longrightarrow> unat x < unat (bs_size (k_tids k))"
  using core_okD(4)[of k] unfolding ids_ok_def by blast

lemma terminate_effect:
  assumes "core_ok k" "order_ok E" "process_terminate E rc i k = Inr k'"
  obtains p q b where "k_procs k i = Some p" "p_parent p = Some q" "i \<noteq> 1"
    and "k_procs k' = (k_procs k)(i \<mapsto> p\<lparr>p_returnCode := rc, p_terminated := True, p_threads := {}\<rparr>)"
    and "k_threads k' = k_threads k |` (- p_threads p)" "k_groups k' = k_groups k" "k_current k' = k_current k"
    and "k_wait k' = wb_free (WProcess q) (k_wait k)" "k_env k' = pe_clear E i (k_env k)" "same_queue k k'"
    and "k_tids k' = b" "tids_wf b" "bs_size b = bs_size (k_tids k)"
    and "free_ids b = free_ids (k_tids k) \<union> {x \<in> p_threads p. k_procs k x = None \<and> k_groups k x = None}"
    and "\<And>t. t \<in> p_threads p \<Longrightarrow> ws_waiting (k_wait k) t = {}"
proof -
  note co = core_okD[OF assms(1)]
  from assms(3) obtain p where p: "k_procs k i = Some p" by (auto simp: process_terminate_def deref_def res_simps split: option.splits)
  let ?k2 = "(upd_proc i (\<lambda>p. p\<lparr>p_returnCode := rc, p_terminated := True\<rparr>) k)\<lparr>k_env := pe_clear E i (k_env k)\<rparr>"
  have k2: "k_procs ?k2 = (k_procs k)(i \<mapsto> p\<lparr>p_returnCode := rc, p_terminated := True\<rparr>)" using p by (simp add: upd_proc_def)
  have ts: "set (pe_order E (p_threads p)) = p_threads p" using assms(2) by (simp add: order_ok_def)
  from assms(3) p obtain k3 q where k3: "for_list thread_delete (pe_order E (p_threads p)) ?k2 = Inr k3" and q: "i \<noteq> 1" "p_parent p = Some q"
    and k': "k' = (upd_proc i (\<lambda>p. p\<lparr>p_threads := {}\<rparr>) k3)\<lparr>k_wait := wb_free (WProcess q) (k_wait k3)\<rparr>"
    by (auto simp: process_terminate_def deref_def res_simps Let_def upd_proc_def split: option.splits if_splits)
  have r: "\<And>x. k_threads ?k2 x \<noteq> None \<Longrightarrow> unat x < unat (bs_size (k_tids ?k2))"
    using ids_range[OF assms(1)] by (simp add: upd_proc_def)
  have "tids_wf (k_tids ?k2)" using co(4) by (simp add: upd_proc_def ids_ok_def)
  from delete_loop[OF k3 this r] obtain b where b: "k3 = ?k2\<lparr>k_threads := k_threads ?k2 |` (- p_threads p), k_tids := b\<rparr>"
    "tids_wf b" "bs_size b = bs_size (k_tids k)" "\<And>t. t \<in> p_threads p \<Longrightarrow> ws_waiting (k_wait k) t = {}"
    "free_ids b = free_ids (k_tids k) \<union> {x \<in> p_threads p. k_procs ?k2 x = None \<and> k_groups ?k2 x = None}"
    unfolding ts by (auto simp: upd_proc_def)
  show ?thesis
  proof (rule that[OF p q(2,1)])
    show "k_procs k' = (k_procs k)(i \<mapsto> p\<lparr>p_returnCode := rc, p_terminated := True, p_threads := {}\<rparr>)"
      "k_threads k' = k_threads k |` (- p_threads p)" using k' b(1) p by (simp_all add: upd_proc_def)
    show "free_ids b = free_ids (k_tids k) \<union> {x \<in> p_threads p. k_procs k x = None \<and> k_groups k x = None}"
      using b(5) p by (auto simp: upd_proc_def)
  qed (use k' b in \<open>simp_all add: upd_proc_def same_queue_def\<close>)
qed

lemma terminate_core:
  assumes "core_ok k" "order_ok E" "process_terminate E rc i k = Inr k'"
  shows "core_ok k' \<and> fewer_threads k k' \<and> i \<noteq> 1 \<and> (\<forall>p. k_procs k i = Some p \<longrightarrow> (\<forall>t\<in>p_threads p. k_threads k' t = None))"
proof (rule terminate_effect[OF assms])
  fix p q b
  assume p: "k_procs k i = Some p" and q: "p_parent p = Some q" "i \<noteq> 1"
    and P': "k_procs k' = (k_procs k)(i \<mapsto> p\<lparr>p_returnCode := rc, p_terminated := True, p_threads := {}\<rparr>)"
    and T': "k_threads k' = k_threads k |` (- p_threads p)"
    and rest: "k_groups k' = k_groups k" "k_current k' = k_current k" "k_wait k' = wb_free (WProcess q) (k_wait k)" "same_queue k k'"
    and b: "k_tids k' = b" "tids_wf b" "bs_size b = bs_size (k_tids k)"
      "free_ids b = free_ids (k_tids k) \<union> {x \<in> p_threads p. k_procs k x = None \<and> k_groups k x = None}"
      "\<And>t. t \<in> p_threads p \<Longrightarrow> ws_waiting (k_wait k) t = {}"
  have reg: "registered_ok (k_wait k')" using registered_free[of "k_wait k"] core_okD(5)[OF assms(1)] rest(3) by (simp add: waits_ok_def)
  have "core_ok k'"
    by (rule core_drop[OF assms(1) p, where D = "p_threads p" and p' = "p\<lparr>p_returnCode := rc, p_terminated := True, p_threads := {}\<rparr>"])
      (use q P' T' rest reg b in \<open>auto simp: wb_free_def\<close>)
  moreover have "fewer_threads k k'"
    unfolding fewer_threads_def using rest(4) T' P' by (auto simp: restrict_map_def live_ok_def split: if_splits)
  ultimately show ?thesis using q(2) p T' by simp
qed

lemma core_current_none: "core_ok k \<Longrightarrow> core_ok (k\<lparr>k_current := None\<rparr>)"
  by (auto simp: core_ok_def waits_ok_def)

lemma upd_proc_some: "k_procs k i = Some p \<Longrightarrow> upd_proc i f k = k\<lparr>k_procs := (k_procs k)(i \<mapsto> f p)\<rparr>"
  by (simp add: upd_proc_def)

text \<open>Entering \<open>run\<close>.\<close>

lemma run_after_ok:
  assumes "order_ok E" "run_after E m = Some (Inr (r, k'))"
    and "\<And>k. m = Inr k \<Longrightarrow> core_ok k \<and> k_current k = None \<and> k_last k = None \<and> \<not> k_halted k \<and> k_tryNum k = 0 \<and> live_ok (k_procs k) \<and>
      (\<forall>t. k_threads k t \<noteq> None \<longrightarrow> t \<in> set (k_fifo k))"
  shows "ran_ok (r, k')"
proof -
  from assms(2) obtain k where k: "m = Inr k" "sched_run E k = Some (Inr (r, k'))"
    by (auto simp: run_after_def split: sum.splits)
  have "run_ok k" by (rule run_okI[where xs = "k_fifo k" and ys = "[]"]) (use assms(3)[OF k(1)] in auto)
  from sched_run_ok[OF assms(1) this] k(2) show ?thesis by auto
qed

lemma ran_kernel_ok: "ran_ok (r, k) \<Longrightarrow> kernel_ok k"
  by (cases r) (simp_all add: ran_ok_def)

text \<open>Leaving the running thread: it goes to the end of the queue.\<close>

lemma enterSys_ok:
  assumes "enterSys k = Inr (t, k')"
  shows "k_current k = Some t \<and> (\<exists>c. k' = (upd_thread t (\<lambda>t. t\<lparr>t_ctx := c\<rparr>) k)\<lparr>k_last := None\<rparr>)"
  using assms by (auto simp: enterSys_def res_simps deref_def split: option.splits)

lemma enterSys_kernel:
  assumes "kernel_ok k" "enterSys k = Inr (t, k')"
  shows "kernel_ok k' \<and> k_current k' = Some t \<and> k_last k' = None \<and> same_threads k k'"
proof -
  from enterSys_ok[OF assms(2)] obtain c where c: "k_current k = Some t" "k' = (upd_thread t (\<lambda>t. t\<lparr>t_ctx := c\<rparr>) k)\<lparr>k_last := None\<rparr>" by blast
  have "core_ok (upd_thread t (\<lambda>t. t\<lparr>t_ctx := c\<rparr>) k)" using assms(1) by (intro core_ok_upd_thread) (simp_all add: kernel_ok_def)
  then show ?thesis using c assms(1) by (simp add: kernel_ok_def queue_ok_def same_threads_def)
qed

lemma kernel_ok_upd_thread:
  "kernel_ok k \<Longrightarrow> (\<And>t. t_pid (f t) = t_pid t) \<Longrightarrow> kernel_ok (upd_thread t f k)"
  using core_ok_upd_thread[of k f t] by (simp add: kernel_ok_def queue_ok_def)

definition parked :: "('c, 'x) kernel \<Rightarrow> bool" where
  "parked k \<longleftrightarrow> core_ok k \<and> k_current k = None \<and> k_last k = None \<and> \<not> k_halted k \<and> k_tryNum k = 0 \<and> live_ok (k_procs k) \<and>
    (\<forall>t. k_threads k t \<noteq> None \<longrightarrow> t \<in> set (k_fifo k))"

lemma parked_env [simp]: "parked (k\<lparr>k_env := x\<rparr>) = parked k" "parked (k\<lparr>k_toRender := r\<rparr>) = parked k"
  by (simp_all add: parked_def)

lemma stopCurent_parked:
  assumes "core_ok k" "queue_ok k" "k_tryNum k = 0" "\<not> k_halted k" "stopCurent k = Inr k'"
  shows "parked k' \<and> k_env k' = k_env k \<and> k_fifo k' = k_fifo k @ [the (k_current k)] \<and> (\<forall>t. k_threads k' t = None \<longleftrightarrow> k_threads k t = None) \<and>
    k_procs k' = k_procs k"
proof -
  obtain k1 t where k1: "k1 = k \<and> k_last k = None \<or> (\<exists>c. k1 = (upd_thread t (\<lambda>t. t\<lparr>t_ctx := c\<rparr>) k)\<lparr>k_last := None\<rparr>)"
    and t: "k_current k = Some t" "k' = (upd_thread t (\<lambda>t. t\<lparr>t_first := False\<rparr>) k1)\<lparr>k_fifo := k_fifo k1 @ [t], k_current := None\<rparr>"
  proof (cases "k_last k")
    case None
    then show ?thesis using assms(5) by (intro that[of k "the (k_current k)"]) (auto simp: stopCurent_def res_simps deref_def split: option.splits)
  next
    case (Some c)
    from assms(5) obtain t k1 where e: "enterSys k = Inr (t, k1)"
      "bnd (deref (k_current k1)) (\<lambda>tid. Inr ((upd_thread tid (\<lambda>t. t\<lparr>t_first := False\<rparr>) k1)\<lparr>k_fifo := k_fifo k1 @ [tid], k_current := None\<rparr>)) = Inr k'"
      by (auto simp: stopCurent_def res_simps Some)
    from enterSys_ok[OF e(1)] e(2) show ?thesis by (intro that[of k1 t]) (auto simp: deref_def)
  qed
  have c1: "core_ok k1" using k1 assms(1) by (auto intro!: core_ok_upd_thread)
  have s: "k_fifo k1 = k_fifo k" "k_tryNum k1 = 0" "k_procs k1 = k_procs k" "k_last k1 = None" "k_env k1 = k_env k"
    "\<And>u. k_threads k1 u = None \<longleftrightarrow> k_threads k u = None" using k1 assms(3) by auto
  have h: "\<not> k_halted k1" using k1 assms(4) by auto
  have "core_ok (upd_thread t (\<lambda>t. t\<lparr>t_first := False\<rparr>) k1)" using c1 by (rule core_ok_upd_thread) simp
  then have "core_ok k'" unfolding t(2) using core_current_none[of "(upd_thread t (\<lambda>t. t\<lparr>t_first := False\<rparr>) k1)\<lparr>k_fifo := k_fifo k1 @ [t]\<rparr>"] by simp
  then show ?thesis using s t h assms(2) by (auto simp: parked_def queue_ok_def)
qed

text \<open>\<open>exit\<close> and \<open>texit\<close>.\<close>

lemma exit_parked:
  assumes "kernel_ok k" "order_ok E" "k_current k = Some t" "process_terminate E rc i (k\<lparr>k_current := None, k_last := None\<rparr>) = Inr k'"
    "k_threads k t = Some th" "t_pid th = i"
  shows "parked k'"
proof -
  let ?k = "k\<lparr>k_current := None, k_last := None\<rparr>"
  have c: "core_ok ?k" using assms(1) core_current_none[of k] by (simp add: kernel_ok_def)
  from terminate_core[OF c assms(2,4)] have k': "core_ok k'" "fewer_threads ?k k'"
    "\<And>p u. k_procs k i = Some p \<Longrightarrow> u \<in> p_threads p \<Longrightarrow> k_threads k' u = None" by auto
  have "t \<in> p_threads p" if "k_procs k i = Some p" for p
    using threadsD(1)[OF core_okD(1)[of k] assms(5)] assms(1,6) that by (auto simp: kernel_ok_def)
  moreover obtain p where "k_procs k i = Some p" using threadsD(1)[OF core_okD(1)[of k] assms(5)] assms(1,6) by (auto simp: kernel_ok_def)
  ultimately have "k_threads k' t = None" using k'(3) by blast
  then have "u \<in> set (k_fifo k)" if "k_threads k' u \<noteq> None" for u
    using that k'(2) assms(1,3) unfolding fewer_threads_def kernel_ok_def queue_ok_def by fastforce
  then show ?thesis using k'(1,2) assms(1,3) unfolding fewer_threads_def parked_def kernel_ok_def queue_ok_def same_queue_def by simp
qed

lemma texit_parked:
  assumes "kernel_ok k" "order_ok E" "k_current k = Some t"
    "thread_terminate E t rc (k\<lparr>k_current := None, k_last := None\<rparr>) = Inr k1" "thread_delete t k1 = Inr k2"
  shows "parked k2"
proof -
  let ?k = "k\<lparr>k_current := None, k_last := None\<rparr>"
  have c: "core_ok ?k" using assms(1) core_current_none[of k] by (simp add: kernel_ok_def)
  note co = core_okD[OF c, simplified]
  from assms(4) obtain th where th: "k_threads k t = Some th" by (auto simp: thread_terminate_def deref_def res_simps split: option.splits)
  from threadsD(1)[OF co(1) th] obtain p where p: "k_procs k (t_pid th) = Some p" "t \<in> p_threads p" by blast
  let ?i = "t_pid th"
  obtain p1 k0 where p1: "k0 = ?k\<lparr>k_procs := (k_procs k)(?i \<mapsto> p1)\<rparr>" "p_threads p1 = p_threads p" "p_gid p1 = p_gid p"
      "p_parent p1 = p_parent p" "p_sons p1 = p_sons p" "p_terminated p1 = p_terminated p" "remThread E ?i t k0 = Inr k1"
  proof (cases "t = ?i")
    case True
    show ?thesis
      by (rule that[of _ "p\<lparr>p_mainTerminated := True, p_returnCode := rc\<rparr>"])
        (use assms(4) th p True in \<open>auto simp: thread_terminate_def mainTerm_def deref_def upd_proc_def\<close>)
  next
    case False
    show ?thesis
      by (rule that[of ?k p]) (use assms(4) th p False in \<open>auto simp: thread_terminate_def deref_def map_upd_triv\<close>)
  qed
  let ?p2 = "p1\<lparr>p_threads := p_threads p - {t}\<rparr>"
  have rem: "(if p_threads ?p2 = {} then assertk (p_mainTerminated ?p2)
      (process_terminate E (p_returnCode ?p2) ?i (k0\<lparr>k_procs := (k_procs k)(?i \<mapsto> ?p2)\<rparr>)) else Inr (k0\<lparr>k_procs := (k_procs k)(?i \<mapsto> ?p2)\<rparr>)) = Inr k1"
    using p1 by (auto simp: remThread_def upd_proc_def deref_def Let_def split: if_splits)
  have ow: "order_ok E \<Longrightarrow> pe_order E {} = []" by (metis order_ok_def set_empty)
  obtain p3 w where k1: "k1 = k1\<lparr>k_procs := (k_procs k)(?i \<mapsto> p3), k_wait := w\<rparr>" "p_threads p3 = p_threads p - {t}" "p_gid p3 = p_gid p"
      "p_parent p3 = p_parent p" "p_sons p3 = p_sons p" "p_terminated p3 \<longrightarrow> p_threads p3 = {} \<and> ?i \<noteq> 1 \<or> p_terminated p"
      "p_threads p3 = {} \<longrightarrow> p_terminated p3"
      "registered_ok w" "ws_waiting w = ws_waiting (k_wait k)" "ws_checker w = ws_checker (k_wait k)"
      "k_threads k1 = k_threads k" "k_groups k1 = k_groups k" "k_tids k1 = k_tids k" "same_queue ?k k1"
  proof (cases "p_threads p = {t}")
    case True
    from rem obtain q where q: "?i \<noteq> 1" "p_parent p = Some q"
      "k1 = (k0\<lparr>k_procs := (k_procs k)(?i \<mapsto> ?p2\<lparr>p_returnCode := p_returnCode p1, p_terminated := True, p_threads := {}\<rparr>),
        k_env := pe_clear E ?i (k_env k), k_wait := wb_free (WProcess q) (k_wait k)\<rparr>)"
      using True p1 ow[OF assms(2)]
      by (auto simp: process_terminate_def res_simps deref_def Let_def upd_proc_def split: option.splits if_splits)
    show ?thesis
      by (rule that[of "wb_free (WProcess q) (k_wait k)" "?p2\<lparr>p_returnCode := p_returnCode p1, p_terminated := True, p_threads := {}\<rparr>"])
        (use q p1 True co(5) registered_free[of "k_wait k"] in \<open>auto simp: wb_free_def same_queue_def waits_ok_def\<close>)
  next
    case False
    then have ne: "p_threads p - {t} \<noteq> {}" using p(2) by auto
    then have "k1 = k0\<lparr>k_procs := (k_procs k)(?i \<mapsto> ?p2)\<rparr>" using rem by simp
    then show ?thesis
      by (intro that[of "k_wait k" ?p2]) (use p1 ne co(5) threadsD(3)[OF co(1) p(1)] in \<open>auto simp: same_queue_def waits_ok_def\<close>)
  qed
  have r: "\<And>x. k_threads k1 x \<noteq> None \<Longrightarrow> unat x < unat (bs_size (k_tids k1))"
    using ids_range[OF c] k1 by simp
  have "tids_wf (k_tids k1)" using co(4) k1 by (simp add: ids_ok_def)
  from thread_delete_effect[OF assms(5) this r] obtain b where b: "k2 = k1\<lparr>k_threads := (k_threads k1)(t := None), k_tids := b\<rparr>"
    "tids_wf b" "bs_size b = bs_size (k_tids k1)" "ws_waiting (k_wait k1) t = {}"
    "free_ids b = free_ids (k_tids k1) \<union> (if k_procs k1 t = None \<and> k_groups k1 t = None then {t} else {})" by auto
  have k1P: "k_procs k1 = (k_procs k)(?i \<mapsto> p3)" "k_wait k1 = w" using arg_cong[OF k1(1), of k_procs] arg_cong[OF k1(1), of k_wait] by simp_all
  have "core_ok k2"
  proof (rule core_drop[OF c, where i = ?i and p = p and D = "{t}" and p' = p3])
    show "k_threads k2 = k_threads ?k |` (- {t})" using b(1) k1(11) by (auto simp: restrict_map_def fun_eq_iff)
    show "free_ids (k_tids k2) = free_ids (k_tids ?k) \<union> {x \<in> {t}. k_procs ?k x = None \<and> k_groups ?k x = None}"
      using b(1,5) k1(11-13) k1P p(1) by auto
  qed (use p b k1 k1P in \<open>auto simp: same_queue_def\<close>)
  moreover have "live_ok (k_procs k2)"
    using b(1) k1P k1(7) assms(1) unfolding kernel_ok_def queue_ok_def live_ok_def by (auto split: if_splits)
  moreover have "k_threads k2 t = None" using b(1) by simp
  ultimately show ?thesis
    using b(1) k1(11,14) assms(1,3) unfolding parked_def kernel_ok_def queue_ok_def same_queue_def by (auto split: if_splits)
qed

lemma waits_more_threads:
  assumes "waits_ok k" "k_wait k' = k_wait k" "k_current k' = k_current k" "\<And>t th. k_threads k t = Some th \<Longrightarrow> k_threads k' t = Some th"
  shows "waits_ok k'"
  using assms unfolding waits_ok_def by (metis (no_types, lifting))

text \<open>A new thread with a fresh id, or the main thread after \<open>exec\<close>.\<close>

lemma core_new_thread:
  assumes "core_ok k" "k_procs k i = Some p" "\<not> p_terminated p" "k_threads k t = None"
    and "t \<in> free_ids (k_tids k) \<or> t = i" "t_pid th = i" "p' = p\<lparr>p_threads := insert t (p_threads p)\<rparr>"
    and "k_procs k' = (k_procs k)(i \<mapsto> p')" "k_threads k' = (k_threads k)(t \<mapsto> th)" "k_groups k' = k_groups k"
    and "tids_wf (k_tids k')" "bs_size (k_tids k') = bs_size (k_tids k)" "free_ids (k_tids k') = free_ids (k_tids k) - {t}"
    and "k_wait k' = k_wait k" "k_current k' = k_current k"
  shows "core_ok k'"
proof -
  note co = core_okD[OF assms(1)]
  have fr: "x \<in> free_ids (k_tids k) \<longleftrightarrow> 2 \<le> unat x \<and> unat x < unat (bs_size (k_tids k)) \<and> k_procs k x = None \<and> k_threads k x = None \<and> k_groups k x = None"
    and us: "k_procs k x \<noteq> None \<or> k_threads k x \<noteq> None \<or> k_groups k x \<noteq> None \<Longrightarrow> 1 \<le> unat x \<and> unat x < unat (bs_size (k_tids k))" for x
    using co(4) unfolding ids_ok_def by blast+
  have t: "t = i \<or> k_procs k t = None \<and> k_groups k t = None" using assms(5) fr[of t] by blast
  have "threads_ok (k_procs k') (k_threads k') (k_groups k')"
    unfolding assms(8-10) by (rule threads_add[OF co(1) assms(2-4,6) t assms(7)])
  moreover have "tree_ok (tree_of (k_procs k'))" using co(2) tree_of_upd[of p' p "k_procs k" i] assms(2,7,8) by simp
  moreover have "groups_ok (gids_of (k_procs k')) (k_groups k')" using co(3) gids_of_upd[of p' p "k_procs k" i] assms(2,7,8,10) by simp
  moreover have "ids_ok (k_tids k') (k_procs k') (k_threads k') (k_groups k')"
  proof -
    have "1 \<le> unat t \<and> unat t < unat (bs_size (k_tids k))" using assms(2,5) fr[of t] us[of i] by auto
    then show ?thesis using fr us assms(2,8-13) unfolding ids_ok_def by (auto split: if_splits)
  qed
  moreover have "waits_ok k'" using assms(4,9,14,15) by (intro waits_more_threads[OF co(5)]) auto
  ultimately show ?thesis by (simp add: core_ok_def hier_ok_def)
qed

lemma threads_cong:
  assumes "threads_ok P T G" "\<And>x. map_option (\<lambda>p. (p_threads p, p_terminated p)) (P' x) = map_option (\<lambda>p. (p_threads p, p_terminated p)) (P x)"
    "\<And>x. G x = None \<Longrightarrow> G' x = None"
  shows "threads_ok P' T G'"
proof -
  note h = threadsD[OF assms(1)]
  have v: "\<exists>r. P' x = Some r \<and> p_threads r = p_threads q \<and> p_terminated r = p_terminated q" if "P x = Some q" for x q
    using assms(2)[of x] that by (cases "P' x") auto
  have v': "\<exists>r. P x = Some r \<and> p_threads r = p_threads q \<and> p_terminated r = p_terminated q" if "P' x = Some q" for x q
    using assms(2)[of x] that by (cases "P x") auto
  show ?thesis
  proof (rule threads_okI)
    fix t th assume t: "T t = Some th"
    show "\<exists>q. P' (t_pid th) = Some q \<and> t \<in> p_threads q" using h(1)[OF t] v by metis
    show "t_pid th \<noteq> t \<Longrightarrow> P' t = None \<and> G' t = None" using h(2)[OF t] assms(3) v'[of t] by (cases "P' t") auto
  next
    fix j q assume "P' j = Some q"
    from v'[OF this] obtain r where r: "P j = Some r" "p_threads r = p_threads q" "p_terminated r = p_terminated q" by blast
    show "p_terminated q \<Longrightarrow> p_threads q = {}" using h(3)[OF r(1)] r by simp
    show "\<And>t. t \<in> p_threads q \<Longrightarrow> \<exists>th. T t = Some th \<and> t_pid th = j" using h(4)[OF r(1)] r by simp
  qed (use h(5) v in metis)
qed

text \<open>A new process with its only thread.\<close>

lemma core_fork:
  assumes "core_ok k" "k_procs k o' = Some po" "n \<in> free_ids (k_tids k)" "t_pid th = n" "k_groups k (p_gid po) = Some M"
    and "np = \<lparr>p_gid = p_gid po, p_threads = {n}, p_parent = Some o', p_sons = {}, p_terminated = False, p_mainTerminated = False, p_returnCode = 0\<rparr>"
    and "k_procs k' = (k_procs k)(n \<mapsto> np, o' \<mapsto> po\<lparr>p_sons := insert n (p_sons po)\<rparr>)"
    and "k_threads k' = (k_threads k)(n \<mapsto> th)" "k_groups k' = (k_groups k)(p_gid po \<mapsto> insert n M)"
    and "tids_wf (k_tids k')" "bs_size (k_tids k') = bs_size (k_tids k)" "free_ids (k_tids k') = free_ids (k_tids k) - {n}"
    and "k_wait k' = k_wait k" "k_current k' = k_current k"
  shows "core_ok k'"
proof -
  note co = core_okD[OF assms(1)]
  let ?P = "k_procs k" and ?T = "k_threads k" and ?G = "k_groups k"
  have fr: "x \<in> free_ids (k_tids k) \<longleftrightarrow> 2 \<le> unat x \<and> unat x < unat (bs_size (k_tids k)) \<and> ?P x = None \<and> ?T x = None \<and> ?G x = None"
    and us: "?P x \<noteq> None \<or> ?T x \<noteq> None \<or> ?G x \<noteq> None \<Longrightarrow> 1 \<le> unat x \<and> unat x < unat (bs_size (k_tids k))" for x
    using co(4) unfolding ids_ok_def by blast+
  have n: "2 \<le> unat n" "unat n < unat (bs_size (k_tids k))" "?P n = None" "?T n = None" "?G n = None" using fr[of n] assms(3) by auto
  have no: "n \<noteq> o'" using n(3) assms(2) by auto
  let ?np0 = "np\<lparr>p_threads := {}\<rparr>"
  have t0: "threads_ok (?P(n \<mapsto> ?np0)) ?T ?G"
  proof (rule threads_okI)
    note h = threadsD[OF co(1)]
    fix t uh assume t: "?T t = Some uh"
    then show "\<exists>q. (?P(n \<mapsto> ?np0)) (t_pid uh) = Some q \<and> t \<in> p_threads q" using h(1)[OF t] n(3) by auto
    show "t_pid uh \<noteq> t \<Longrightarrow> (?P(n \<mapsto> ?np0)) t = None \<and> ?G t = None" using h(2)[OF t] t n(4) by auto
  next
    note h = threadsD[OF co(1)]
    fix j q assume "(?P(n \<mapsto> ?np0)) j = Some q"
    then show "p_terminated q \<Longrightarrow> p_threads q = {}" "\<And>t. t \<in> p_threads q \<Longrightarrow> \<exists>th. ?T t = Some th \<and> t_pid th = j"
      using h(3)[of j q] h(4)[of j q] by (auto split: if_splits)
  next
    show "\<exists>q. (?P(n \<mapsto> ?np0)) 1 = Some q \<and> \<not> p_terminated q" using threadsD(5)[OF co(1)] n(3) by auto
  qed
  have "threads_ok ((?P(n \<mapsto> ?np0))(n \<mapsto> np)) (?T(n \<mapsto> th)) ?G"
    by (rule threads_add[OF t0, of n ?np0]) (use assms(4,6) n in auto)
  then have "threads_ok (k_procs k') (k_threads k') (k_groups k')"
    unfolding assms(7-9) by (rule threads_cong) (use assms(2,5) no in auto)
  moreover have "tree_ok (tree_of (k_procs k'))"
  proof -
    have "tree_of (k_procs k') = (tree_of ?P)(n \<mapsto> (Some o', {}), o' \<mapsto> (p_parent po, insert n (p_sons po)))"
      unfolding assms(6,7) by (auto simp: tree_of_def fun_eq_iff)
    then show ?thesis using tree_new[OF co(2), of o' "p_parent po" "p_sons po" n] assms(2) n(3) by (simp add: tree_of_def)
  qed
  moreover have "groups_ok (gids_of (k_procs k')) (k_groups k')"
  proof -
    have "gids_of (k_procs k') = (gids_of ?P)(n \<mapsto> p_gid po)"
      unfolding assms(6,7) using assms(2) no by (auto simp: gids_of_def fun_eq_iff)
    then show ?thesis using groups_new[OF co(3) assms(5), of n] n by (simp add: assms(9) gids_of_def)
  qed
  moreover have "ids_ok (k_tids k') (k_procs k') (k_threads k') (k_groups k')"
    using fr us n assms(2,5,7-12) no unfolding ids_ok_def by (auto split: if_splits)
  moreover have "waits_ok k'" using assms(8,13,14) n(4) by (intro waits_more_threads[OF co(5)]) auto
  ultimately show ?thesis by (simp add: core_ok_def hier_ok_def)
qed

lemma current_process:
  assumes "kernel_ok k" "k_threads k t = Some th"
  shows "\<exists>p. k_procs k (t_pid th) = Some p \<and> \<not> p_terminated p"
proof -
  have c: "threads_ok (k_procs k) (k_threads k) (k_groups k)" using assms(1) core_okD(1) by (auto simp: kernel_ok_def)
  from threadsD(1)[OF c assms(2)] obtain p where "k_procs k (t_pid th) = Some p" "t \<in> p_threads p" by blast
  then show ?thesis using threadsD(3)[OF c] by fastforce
qed

lemma ids_wf: "core_ok k \<Longrightarrow> tids_wf (k_tids k)"
  using core_okD(4)[of k] by (simp add: ids_ok_def)

lemma fork_effect:
  assumes "kernel_ok k" "sched_fork E k = Inr (n, k')"
  obtains old k1 th po M b np uh where "enterSys k = Inr (old, k1)" "kernel_ok k1" "k_current k1 = Some old" "k_last k1 = None"
    and "k_threads k1 old = Some th" "k_procs k1 (t_pid th) = Some po" "k_groups k1 (p_gid po) = Some M"
    and "n \<in> free_ids (k_tids k1)" "k_procs k1 n = None" "k_threads k1 n = None" "k_groups k1 n = None" "2 \<le> unat n"
    and "tids_wf b" "bs_size b = bs_size (k_tids k1)" "free_ids b = free_ids (k_tids k1) - {n}"
    and "np = \<lparr>p_gid = p_gid po, p_threads = {n}, p_parent = Some (t_pid th), p_sons = {}, p_terminated = False,
      p_mainTerminated = False, p_returnCode = 0\<rparr>"
    and "uh = \<lparr>t_pid = n, t_gid = p_gid po, t_first = True, t_ctx = (t_ctx th)\<lparr>cx_rax := 0\<rparr>\<rparr>"
    and "k_procs k' = (k_procs k1)(n \<mapsto> np, t_pid th \<mapsto> po\<lparr>p_sons := insert n (p_sons po)\<rparr>)"
    and "k_threads k' = (k_threads k1)(n \<mapsto> uh)" "k_groups k' = (k_groups k1)(p_gid po \<mapsto> insert n M)"
    and "k_tids k' = b" "k_wait k' = k_wait k1" "k_current k' = k_current k1" "k_fifo k' = k_fifo k1 @ [n]"
    and "k_tryNum k' = k_tryNum k1" "k_halted k' = k_halted k1" "pe_fork E n (t_pid th) (k_env k1) = Inr (k_env k')"
proof -
  from assms(2) obtain old k1 th k2 where e: "enterSys k = Inr (old, k1)" and th: "k_threads k1 old = Some th"
    and g: "getFreshTid k1 = Inr (n, k2)" and f: "process_fork E (t_pid th) old n k2 = Inr k'"
    by (auto simp: sched_fork_def res_simps deref_def split: option.splits)
  from enterSys_kernel[OF assms(1) e] have k1: "kernel_ok k1" "k_current k1 = Some old" "k_last k1 = None" by auto
  then have c1: "core_ok k1" by (simp add: kernel_ok_def)
  from getFreshTid_effect[OF g ids_wf[OF c1]] obtain b where b: "k2 = k1\<lparr>k_tids := b\<rparr>" "tids_wf b" "bs_size b = bs_size (k_tids k1)"
    "n \<in> free_ids (k_tids k1)" "free_ids b = free_ids (k_tids k1) - {n}" by blast
  have n: "k_procs k1 n = None" "k_threads k1 n = None" "k_groups k1 n = None" "2 \<le> unat n"
    using core_okD(4)[OF c1] b(4) unfolding ids_ok_def by blast+
  from f b(1) th obtain po M x where po: "k_procs k1 (t_pid th) = Some po" "k_groups k1 (p_gid po) = Some M"
    and x: "pe_fork E n (t_pid th) (k_env k1) = Inr x"
    by (auto simp: process_fork_def process_new_def addP_def res_simps deref_def Let_def split: option.splits)
  have no: "n \<noteq> t_pid th" using n(1) po(1) by auto
  note defs = process_fork_def process_new_def thread_new_def addP_def addT_def upd_proc_def upd_thread_def deref_def
  show ?thesis
  proof (rule that[OF e k1 th po b(4) n b(2,3,5) refl refl])
    show "k_procs k' = (k_procs k1)(n \<mapsto> \<lparr>p_gid = p_gid po, p_threads = {n}, p_parent = Some (t_pid th), p_sons = {},
        p_terminated = False, p_mainTerminated = False, p_returnCode = 0\<rparr>, t_pid th \<mapsto> po\<lparr>p_sons := insert n (p_sons po)\<rparr>)"
      using f b(1) po x no th by (auto simp: defs fun_eq_iff)
  qed (use f b(1) po x no th in \<open>auto simp: defs\<close>)
qed

lemma fork_kernel:
  assumes "kernel_ok k" "sched_fork E k = Inr (n, k')"
  shows "kernel_ok k'"
proof (rule fork_effect[OF assms])
  fix old k1 th po M b np uh
  assume a: "kernel_ok k1" "k_last k1 = None" "k_current k1 = Some old" "k_procs k1 (t_pid th) = Some po" "k_groups k1 (p_gid po) = Some M"
    "n \<in> free_ids (k_tids k1)" "tids_wf b" "bs_size b = bs_size (k_tids k1)" "free_ids b = free_ids (k_tids k1) - {n}"
    and np: "np = \<lparr>p_gid = p_gid po, p_threads = {n}, p_parent = Some (t_pid th), p_sons = {}, p_terminated = False,
      p_mainTerminated = False, p_returnCode = 0\<rparr>"
    and uh: "uh = \<lparr>t_pid = n, t_gid = p_gid po, t_first = True, t_ctx = (t_ctx th)\<lparr>cx_rax := 0\<rparr>\<rparr>"
    and k': "k_procs k' = (k_procs k1)(n \<mapsto> np, t_pid th \<mapsto> po\<lparr>p_sons := insert n (p_sons po)\<rparr>)"
      "k_threads k' = (k_threads k1)(n \<mapsto> uh)" "k_groups k' = (k_groups k1)(p_gid po \<mapsto> insert n M)"
      "k_tids k' = b" "k_wait k' = k_wait k1" "k_current k' = k_current k1" "k_fifo k' = k_fifo k1 @ [n]"
      "k_tryNum k' = k_tryNum k1" "k_halted k' = k_halted k1"
  have c1: "core_ok k1" using a(1) by (simp add: kernel_ok_def)
  have "t_pid uh = n" by (simp add: uh)
  from core_fork[OF c1 a(4,6) this a(5) np k'(1-3)] a k' have "core_ok k'" by simp
  moreover have "queue_ok k'" using a(1,4) k'(1,2,6,7) unfolding kernel_ok_def queue_ok_def live_ok_def np by (auto split: if_splits)
  ultimately show ?thesis using a k' by (simp add: kernel_ok_def)
qed

lemma clone_kernel:
  assumes "kernel_ok k" "sched_clone E rip stk k = Inr (n, k')"
  shows "kernel_ok k'"
proof -
  from assms(2) obtain old k1 th where e: "enterSys k = Inr (old, k1)" and th: "k_threads k1 old = Some th"
    by (auto simp: sched_clone_def res_simps deref_def split: option.splits)
  from enterSys_kernel[OF assms(1) e] have k1: "kernel_ok k1" "k_current k1 = Some old" "k_last k1 = None" by auto
  then have c1: "core_ok k1" by (simp add: kernel_ok_def)
  show ?thesis
  proof (cases "pe_in E (t_pid th) rip (k_env k1) \<and> pe_in E (t_pid th) (stk - 1) (k_env k1)")
    case False
    then have "k' = k1" using assms(2) e th by (auto simp: sched_clone_def deref_def split: if_splits)
    then show ?thesis using k1 by simp
  next
    case True
    then obtain k2 k3 where g: "getFreshTid k1 = Inr (n, k2)" and f: "thread_new E n rip (t_pid th) k2 = Inr k3"
      and k': "k' = upd_thread n (\<lambda>t. t\<lparr>t_ctx := (t_ctx t)\<lparr>cx_rsp := stk\<rparr>\<rparr>) k3"
      using assms(2) e th by (auto simp: sched_clone_def deref_def res_simps)
    from getFreshTid_effect[OF g ids_wf[OF c1]] obtain b where b: "k2 = k1\<lparr>k_tids := b\<rparr>" "tids_wf b" "bs_size b = bs_size (k_tids k1)"
      "n \<in> free_ids (k_tids k1)" "free_ids b = free_ids (k_tids k1) - {n}" by blast
    have n: "k_threads k1 n = None" using core_okD(4)[OF c1] b(4) unfolding ids_ok_def by blast
    from current_process[OF k1(1) th] obtain p where p: "k_procs k1 (t_pid th) = Some p" "\<not> p_terminated p" by blast
    let ?uh = "\<lparr>t_pid = t_pid th, t_gid = p_gid p, t_first = True, t_ctx = (pe_ctx E)\<lparr>cx_rip := rip, cx_rflags := 2 OR 512\<rparr>\<rparr>"
    let ?p = "p\<lparr>p_threads := insert n (p_threads p)\<rparr>"
    have k3: "k3 = k1\<lparr>k_tids := b, k_threads := (k_threads k1)(n \<mapsto> ?uh), k_fifo := k_fifo k1 @ [n], k_procs := (k_procs k1)(t_pid th \<mapsto> ?p)\<rparr>"
      using f b(1) p by (simp add: thread_new_def addT_def upd_proc_def deref_def)
    have "core_ok k3" by (rule core_new_thread[OF c1 p n, where th = ?uh]) (use b k3 in simp_all)
    moreover have "queue_ok k3" using k1(1) k3 p unfolding kernel_ok_def queue_ok_def live_ok_def by (auto split: if_splits)
    ultimately have "kernel_ok k3" using k1 k3 by (simp add: kernel_ok_def)
    then show ?thesis unfolding k' by (rule kernel_ok_upd_thread) simp
  qed
qed

lemma check_kernel:
  assumes "kernel_ok k" "k_threads k tid \<noteq> None" "order_ok E" "run_check E tid c k = Inr (r, k')"
  shows "kernel_ok k' \<and> same_queue k k' \<and> same_threads k k'"
proof -
  from run_check_ok[OF _ assms(2,3), of c] assms(1,4) have "core_ok k'" "same_queue k k'" "same_threads k k'"
    by (auto simp: kernel_ok_def)
  then show ?thesis using assms(1) by (simp add: kernel_ok_def queue_ok_def same_queue_def same_threads_def)
qed

lemma stop_kernel_parked:
  assumes "kernel_ok k" "stopCurent k = Inr k'"
  shows "parked k' \<and> k_env k' = k_env k \<and> k_fifo k' = k_fifo k @ [the (k_current k)] \<and>
    (\<forall>t. k_threads k' t = None \<longleftrightarrow> k_threads k t = None) \<and> k_procs k' = k_procs k"
proof -
  have "k_current k \<noteq> None" using assms(2)
    by (auto simp: stopCurent_def enterSys_def deref_def res_simps split: option.splits if_splits)
  moreover from this have "\<not> k_halted k" using assms(1) by (auto simp: kernel_ok_def)
  ultimately show ?thesis using stopCurent_parked[of k k'] assms by (simp add: kernel_ok_def)
qed

lemma stopCurent_wait: "stopCurent (k\<lparr>k_wait := w\<rparr>) = bnd (stopCurent k) (\<lambda>k'. Inr (k'\<lparr>k_wait := w\<rparr>))"
  by (auto simp: stopCurent_def enterSys_def upd_thread_def deref_def split: option.splits)

lemma waits_wait:
  assumes "waits_ok k" "wt_wait {w} c t (k_wait k) = Inr ws" "k_current k \<noteq> Some t" "k_threads k t = Some th"
    and "\<And>i. w = WProcess i \<Longrightarrow> i = t_pid th"
  shows "waits_ok (k\<lparr>k_wait := ws\<rparr>)"
proof -
  have "registered_ok ws" using registered_wait[OF _ assms(2)] assms(1) by (simp add: waits_ok_def)
  moreover have w: "ws_waiting ws = (ws_waiting (k_wait k))(t := {w})" "ws_checker ws = (ws_checker (k_wait k))(t \<mapsto> c)"
    using assms(2) by (auto simp: wt_wait_def res_simps)
  moreover have "k_current k \<noteq> Some u \<and> ws_checker ws u \<noteq> None \<and> (\<exists>th. k_threads k u = Some th \<and> (\<forall>i. v = WProcess i \<longrightarrow> i = t_pid th))"
    if "v \<in> ws_waiting ws u" for u v
  proof (cases "u = t")
    case True
    then show ?thesis using that w assms(3-5) by auto
  next
    case False
    then have "v \<in> ws_waiting (k_wait k) u" using that w by simp
    then show ?thesis using assms(1) False w unfolding waits_ok_def by auto
  qed
  ultimately show ?thesis by (simp add: waits_ok_def)
qed

lemma suspend_parked:
  assumes "kernel_ok k" "k_current k = Some t" "k_threads k t = Some th" "\<And>i. w = WProcess i \<Longrightarrow> i = t_pid th"
    "suspend E w c t k = Inr k'"
  shows "parked k'"
proof -
  from assms(5) obtain ws k1 where ws: "wt_wait {w} c t (k_wait k) = Inr ws" and k1: "stopCurent k = Inr k1" "k' = k1\<lparr>k_wait := ws\<rparr>"
    by (auto simp: suspend_def res_simps stopCurent_wait)
  from stop_kernel_parked[OF assms(1) k1(1)] have p: "parked k1" "\<And>u. k_threads k1 u = None \<longleftrightarrow> k_threads k u = None" "k_procs k1 = k_procs k"
    by auto
  then obtain th1 where th1: "k_threads k1 t = Some th1" using assms(3) by fastforce
  have "t_pid th1 = t_pid th"
  proof -
    have c: "threads_ok (k_procs k) (k_threads k) (k_groups k)" "threads_ok (k_procs k) (k_threads k1) (k_groups k1)"
      using assms(1) p core_okD(1)[of k] core_okD(1)[of k1] by (simp_all add: kernel_ok_def parked_def)
    from threadsD(1)[OF c(1) assms(3)] obtain q where "k_procs k (t_pid th) = Some q" "t \<in> p_threads q" by blast
    then show ?thesis using threadsD(4)[OF c(2), of "t_pid th" q t] th1 by auto
  qed
  moreover have "k_wait k1 = k_wait k"
    using k1(1) by (auto simp: stopCurent_def res_simps enterSys_def deref_def split: option.splits if_splits)
  ultimately have "waits_ok k'" unfolding k1(2)
    using p(1) ws assms(4) th1 by (intro waits_wait[where th = th1 and w = w and c = c and t = t]) (auto simp: parked_def core_ok_def)
  then show ?thesis using p(1) k1(2) by (simp add: parked_def core_ok_def)
qed

lemma run_after_kernel:
  assumes "order_ok E" "run_after E m = Some (Inr (r, k'))" "\<And>k. m = Inr k \<Longrightarrow> parked k"
  shows "kernel_ok k'"
  using run_after_ok[OF assms(1,2)] assms(3) ran_kernel_ok unfolding parked_def by blast

lemma waitp_kernel:
  assumes "kernel_ok k" "k_current k = Some tid" "order_ok E" "sched_waitp E c tid k = Some (Inr (r, o', k'))"
  shows "kernel_ok k'"
proof -
  have tid: "k_threads k tid \<noteq> None" using assms(1,2) by (auto simp: kernel_ok_def queue_ok_def)
  from assms(4) obtain r1 k1 where k1: "run_check E tid c k = Inr (r1, k1)" by (auto simp: sched_waitp_def split: sum.splits)
  from check_kernel[OF assms(1) tid assms(3) k1] have ok1: "kernel_ok k1" "k_current k1 = Some tid" using assms(2)
    by (simp_all add: same_queue_def)
  show ?thesis
  proof (cases "r1 = - EBLOCK")
    case False
    then show ?thesis using assms(4) k1 ok1 by (simp add: sched_waitp_def)
  next
    case True
    from assms(4) k1 True obtain th where th: "k_threads k1 tid = Some th"
      and ra: "run_after E (suspend E (WProcess (t_pid th)) c tid k1) = Some (Inr (o', k'))"
      by (auto simp: sched_waitp_def res_simps split: option.splits)
    show ?thesis by (rule run_after_kernel[OF assms(3) ra]) (use suspend_parked[OF ok1 th, where w = "WProcess (t_pid th)"] in blast)
  qed
qed

lemma syswait_kernel:
  assumes "kernel_ok k" "order_ok E" "syswait E pid st k = Some (Inr (r, o', k'))"
  shows "kernel_ok k'"
proof -
  from assms(3) obtain tid k1 th where e: "enterSys k = Inr (tid, k1)" and th: "k_threads k1 tid = Some th"
    by (auto simp: syswait_def split: sum.splits option.splits)
  from enterSys_kernel[OF assms(1) e] have k1: "kernel_ok k1" "k_current k1 = Some tid" by auto
  note w = waitp_kernel[OF k1 assms(2)]
  show ?thesis using assms(3) e th k1 w[where c = "AnyChild st"] w[where c = "OneChild (ucast pid) st"]
    by (auto simp: syswait_def split: if_splits)
qed

lemma ticks_ok: "kernel_ok k \<Longrightarrow> kernel_ok (timer_ticks k)"
  "k_current (timer_ticks k) = k_current k" "k_halted (timer_ticks k) = k_halted k"
  by (auto simp: timer_ticks_def Let_def kernel_ok_def queue_ok_def)

lemma kernel_parked: "kernel_ok k \<Longrightarrow> k_current k = None \<Longrightarrow> parked (k\<lparr>k_halted := False\<rparr>)"
  by (auto simp: kernel_ok_def parked_def queue_ok_def)


lemma timer_kernel:
  assumes "kernel_ok k" "order_ok E" "timerHandler E c k = Some (Inr (r, k'))" "k_current k \<noteq> None \<or> k_halted k \<or> cx_rip c <s 0"
  shows "kernel_ok k'"
proof -
  note t = ticks_ok[of k]
  let ?k = "timer_ticks k"
  show ?thesis
  proof (cases "k_halted ?k")
    case True
    then have ra: "run_after E (assertk (cx_rip c <s 0) (Inr (if k_toRender ?k = 0 then render E (?k\<lparr>k_halted := False\<rparr>) else ?k\<lparr>k_halted := False\<rparr>))) = Some (Inr (r, k'))"
      using assms(3) by (simp add: timerHandler_def Let_def)
    have "parked (?k\<lparr>k_halted := False\<rparr>)" using kernel_parked[OF t(1)[OF assms(1)]] t(1)[OF assms(1)] True by (simp add: kernel_ok_def)
    then show ?thesis by (intro run_after_kernel[OF assms(2) ra]) (auto simp: res_simps render_def split: if_splits)
  next
    case False
    show ?thesis
    proof (cases "cx_rip c <s 0")
      case True
      then show ?thesis using assms(1,3) False t by (simp add: timerHandler_def Let_def)
    next
      case nk: False
      with assms(3) False obtain k2 where k2: "k2 = ?k\<lparr>k_last := Some c\<rparr>" and
        r: "(if k_toRender k2 = 0 then run_after E (bnd (stopCurent k2) (\<lambda>k3. Inr (render E k3)))
           else if k_remaining k2 = 0 then run_after E (stopCurent k2) else Some (Inr (Returns, k2))) = Some (Inr (r, k'))"
        by (auto simp: timerHandler_def Let_def context_save_def check_def split: sum.splits if_splits)
      have k: "kernel_ok k2" using t(1)[OF assms(1)] t(2,3) assms(4) False nk k2 by (auto simp: kernel_ok_def queue_ok_def)
      have p: "parked k3" if "stopCurent k2 = Inr k3" for k3 using stop_kernel_parked[OF k that] by blast
      show ?thesis
      proof (cases "k_toRender k2 = 0")
        case True
        show ?thesis by (rule run_after_kernel[OF assms(2)], use r True in simp) (use p in \<open>auto simp: res_simps render_def\<close>)
      next
        case nr: False
        show ?thesis
        proof (cases "k_remaining k2 = 0")
          case True
          show ?thesis by (rule run_after_kernel[OF assms(2)], use r True nr in simp) (use p in auto)
        qed (use r nr k in auto)
      qed
    qed
  qed
qed

lemma sysleave_kernel:
  assumes "kernel_ok k" "order_ok E" "sysleave E ret k = Some (Inr (r, k'))"
  shows "kernel_ok k'"
proof (cases "0 < k_remaining k")
  case True
  then show ?thesis using assms by (simp add: sysleave_def)
next
  case False
  have "parked k2" if "sched_setRet ret k = Inr k1" "stopCurent k1 = Inr k2" for k1 k2
  proof -
    have "kernel_ok k1" using that(1) assms(1) by (auto simp: sched_setRet_def intro!: kernel_ok_upd_thread split: option.splits)
    then show ?thesis using stop_kernel_parked that(2) by blast
  qed
  then show ?thesis using assms(3) False
    by (intro run_after_kernel[OF assms(2), where r = r and m = "bnd (sched_setRet ret k) (\<lambda>k1. bnd (stopCurent k1) (\<lambda>k2.
         Inr (if k_toRender k2 = 0 then render E k2 else k2)))"]) (auto simp: sysleave_def res_simps render_def split: if_splits)
qed

lemma exec_parked:
  assumes "kernel_ok k" "order_ok E" "k_current k = Some t" "k_threads k t = Some th" "exec_threads E load entry rsp (t_pid th) k = Inr k'"
  shows "parked k' \<and> k_fifo k' = k_fifo k @ [t, t_pid th]"
proof -
  let ?i = "t_pid th"
  from assms(5) obtain k1 k2 x k3 where k1: "stopCurent k = Inr k1" and k2: "process_clear E ?i k1 = Inr k2"
    and k3: "thread_new E ?i entry ?i (k2\<lparr>k_env := x\<rparr>) = Inr k3" and k': "k' = upd_thread ?i (\<lambda>t. t\<lparr>t_ctx := (t_ctx t)\<lparr>cx_rsp := rsp\<rparr>\<rparr>) k3"
    by (auto simp: exec_threads_def res_simps)
  from stop_kernel_parked[OF assms(1) k1] assms(3) have p1: "parked k1" "k_fifo k1 = k_fifo k @ [t]" "k_procs k1 = k_procs k"
    by auto
  have c1: "core_ok k1" using p1(1) by (simp add: parked_def)
  from current_process[OF assms(1,4)] p1(3) obtain p where p: "k_procs k1 ?i = Some p" "\<not> p_terminated p" by auto
  have ts: "set (pe_order E (p_threads p)) = p_threads p" using assms(2) by (simp add: order_ok_def)
  from k2 p(1) obtain k2a where k2a: "for_list thread_delete (pe_order E (p_threads p)) (k1\<lparr>k_env := pe_clear E ?i (k_env k1)\<rparr>) = Inr k2a"
    "k2 = upd_proc ?i (\<lambda>p. p\<lparr>p_threads := {}\<rparr>) k2a" by (auto simp: process_clear_def deref_def res_simps)
  have wf1: "tids_wf (k_tids (k1\<lparr>k_env := pe_clear E ?i (k_env k1)\<rparr>))" using ids_wf[OF c1] by simp
  have r1: "\<And>x. k_threads (k1\<lparr>k_env := pe_clear E ?i (k_env k1)\<rparr>) x \<noteq> None \<Longrightarrow>
      unat x < unat (bs_size (k_tids (k1\<lparr>k_env := pe_clear E ?i (k_env k1)\<rparr>)))" using ids_range[OF c1] by simp
  from delete_loop[OF k2a(1) wf1 r1] obtain b where b: "k2a = k1\<lparr>k_env := pe_clear E ?i (k_env k1), k_threads := k_threads k1 |` (- p_threads p), k_tids := b\<rparr>"
    "tids_wf b" "bs_size b = bs_size (k_tids k1)" "\<And>u. u \<in> p_threads p \<Longrightarrow> ws_waiting (k_wait k1) u = {}"
    "free_ids b = free_ids (k_tids k1) \<union> {x \<in> p_threads p. k_procs k1 x = None \<and> k_groups k1 x = None}" unfolding ts by auto
  let ?p0 = "p\<lparr>p_threads := {}\<rparr>"
  have k2P: "k_procs k2 = (k_procs k1)(?i \<mapsto> ?p0)" using k2a(2) b(1) p(1) by (simp add: upd_proc_def)
  have k2r: "k_threads k2 = k_threads k1 |` (- p_threads p)" "k_groups k2 = k_groups k1" "k_tids k2 = b" "k_wait k2 = k_wait k1"
    "k_current k2 = k_current k1" "k_fifo k2 = k_fifo k1" "k_last k2 = k_last k1" "k_tryNum k2 = k_tryNum k1" "k_halted k2 = k_halted k1"
    using k2a(2) b(1) by (simp_all add: upd_proc_def)
  have "waits_ok k1" using core_okD(5)[OF c1] .
  then have c2: "core_ok k2"
    by (intro core_drop[OF c1 p(1), where D = "p_threads p" and p' = ?p0]) (use k2P k2r b p(2) in \<open>auto simp: waits_ok_def\<close>)
  have Ti: "k_threads k2 ?i = None"
  proof (rule ccontr)
    assume "k_threads k2 ?i \<noteq> None"
    then obtain uh where uh: "k_threads k2 ?i = Some uh" by blast
    have "t_pid uh = ?i" using threadsD(2)[OF core_okD(1)[OF c2] uh] k2P by auto
    then show False using threadsD(1)[OF core_okD(1)[OF c2] uh] k2P by auto
  qed
  let ?uh = "\<lparr>t_pid = ?i, t_gid = p_gid p, t_first = True, t_ctx = (pe_ctx E)\<lparr>cx_rip := entry, cx_rflags := 2 OR 512\<rparr>\<rparr>"
  have k3f: "k_procs k3 = (k_procs k2)(?i \<mapsto> ?p0\<lparr>p_threads := insert ?i (p_threads ?p0)\<rparr>)" "k_threads k3 = (k_threads k2)(?i \<mapsto> ?uh)"
    "k_groups k3 = k_groups k2" "k_tids k3 = k_tids k2" "k_wait k3 = k_wait k2" "k_current k3 = k_current k2" "k_fifo k3 = k_fifo k2 @ [?i]"
    "k_last k3 = k_last k2" "k_tryNum k3 = k_tryNum k2" "k_halted k3 = k_halted k2"
    using k3 k2P by (auto simp: thread_new_def addT_def upd_proc_def deref_def)
  have nf: "?i \<notin> free_ids (k_tids k2)" using core_okD(4)[OF c2] k2P unfolding ids_ok_def by auto
  have "core_ok k3"
    by (rule core_new_thread[OF c2, where i = ?i and p = ?p0 and th = ?uh and t = ?i]) (use k3f k2P p(2) Ti nf ids_wf[OF c2] in simp_all)
  then have "core_ok k'" unfolding k' by (rule core_ok_upd_thread) simp
  moreover have "live_ok (k_procs k')" using p1 k3f k2P k' unfolding parked_def live_ok_def by (auto split: if_splits)
  moreover have "u \<in> set (k_fifo k')" if "k_threads k' u \<noteq> None" for u
    using that p1 k3f k2r k' unfolding parked_def by (auto simp: restrict_map_def split: if_splits)
  ultimately show ?thesis using p1 k3f k2r k' unfolding parked_def by simp
qed

section \<open>Reachable states\<close>

text \<open>\<open>kmain\<close> creates the first group, process and thread and then the bitset of ids, on the 512 words of
  a page.\<close>

definition boot :: "('c, 'x) proc_env \<Rightarrow> u64 \<Rightarrow> u64 list \<Rightarrow> ('c, 'x) kernel \<Rightarrow> ('c, 'x) kernel res" where
  "boot E entry page k =
    bnd (process_new 1 1 (addG 1 {} k)) (\<lambda>k. bnd (thread_new E 1 entry 1 k) (sched_init 1 page (0x1000 * 8)))"

text \<open>
  The entries into the scheduler: a trap or interrupt of the running thread saves its context, the
  system calls about processes, the timer, streams that signal or suspend, and changes of
  the resources. A result \<open>Inl\<close> ends the machine.
\<close>

inductive kernel_step :: "('c, 'x) proc_env \<Rightarrow> ('c, 'x) kernel \<Rightarrow> ('c, 'x) kernel \<Rightarrow> bool" for E where
  trap: "k_current k \<noteq> None \<Longrightarrow> kernel_step E k (k\<lparr>k_last := Some c\<rparr>)"
| fork: "sched_fork E k = Inr (n, k') \<Longrightarrow> kernel_step E k k'"
| clone: "sched_clone E rip stk k = Inr (n, k') \<Longrightarrow> kernel_step E k k'"
| exit: "sched_exit E rc k = Some (Inr (r, k')) \<Longrightarrow> kernel_step E k k'"
| texit: "sched_texit E rc k = Some (Inr (r, k')) \<Longrightarrow> kernel_step E k k'"
| wait_child: "syswait E pid st k = Some (Inr (v, r, k')) \<Longrightarrow> kernel_step E k k'"
| exec_file: "k_current k = Some t \<Longrightarrow> k_threads k t = Some th \<Longrightarrow>
    run_after E (exec_threads E load entry rsp (t_pid th) k) = Some (Inr (r, k')) \<Longrightarrow> kernel_step E k k'"
| timer: "k_current k \<noteq> None \<or> k_halted k \<or> cx_rip c <s 0 \<Longrightarrow> timerHandler E c k = Some (Inr (r, k')) \<Longrightarrow> kernel_step E k k'"
| leave: "sysleave E ret k = Some (Inr (r, k')) \<Longrightarrow> kernel_step E k k'"
| block: "k_current k = Some t \<Longrightarrow> run_after E (suspend E (WStream s) c t k) = Some (Inr (r, k')) \<Longrightarrow> kernel_step E k k'"
| signal: "kernel_step E k (k\<lparr>k_wait := wb_free (WStream s) (k_wait k)\<rparr>)"
| resources: "kernel_step E k (k\<lparr>k_env := x\<rparr>)"

inductive kernel_reach :: "('c, 'x) proc_env \<Rightarrow> ('c, 'x) kernel \<Rightarrow> bool" for E where
  booted: "length page = 512 \<Longrightarrow> boot E entry page (sched_new b x) = Inr k \<Longrightarrow> kernel_reach E k"
| run: "kernel_reach E k \<Longrightarrow> k_current k = None \<Longrightarrow> \<not> k_halted k \<Longrightarrow> sched_run E k = Some (Inr (r, k')) \<Longrightarrow> kernel_reach E k'"
| step: "kernel_reach E k \<Longrightarrow> kernel_step E k k' \<Longrightarrow> kernel_reach E k'"

lemma exit_kernel:
  assumes "kernel_ok k" "order_ok E" "sched_exit E rc k = Some (Inr (r, k'))"
  shows "kernel_ok k'"
proof -
  have "\<exists>t th. k_current k = Some t \<and> k_threads k t = Some th"
    using assms(3) by (auto simp: sched_exit_def run_after_def deref_def split: option.splits sum.splits)
  then obtain t th where t: "k_current k = Some t" "k_threads k t = Some th" by blast
  then have "run_after E (process_terminate E rc (t_pid th) (k\<lparr>k_current := None, k_last := None\<rparr>)) = Some (Inr (r, k'))"
    using assms(3) by (simp add: sched_exit_def deref_def)
  then show ?thesis using run_after_kernel[OF assms(2)] exit_parked[OF assms(1,2) t(1) _ t(2)] by blast
qed

lemma texit_kernel:
  assumes "kernel_ok k" "order_ok E" "sched_texit E rc k = Some (Inr (r, k'))"
  shows "kernel_ok k'"
proof -
  obtain t where t: "k_current k = Some t" using assms(3) by (auto simp: sched_texit_def run_after_def split: option.splits)
  then have ra: "run_after E (bnd (thread_terminate E t rc (k\<lparr>k_current := None, k_last := None\<rparr>)) (\<lambda>k1. thread_delete t k1)) = Some (Inr (r, k'))"
    using assms(3) by (simp add: sched_texit_def)
  show ?thesis
    by (rule run_after_kernel[OF assms(2) ra]) (use texit_parked[OF assms(1,2) t] in \<open>auto simp: res_simps\<close>)
qed

lemma step_kernel:
  assumes "kernel_step E k k'" "kernel_ok k" "order_ok E"
  shows "kernel_ok k'"
  using assms(1)
proof cases
  case (trap c)
  then show ?thesis using assms(2) by (simp add: kernel_ok_def queue_ok_def)
next
  case (exec_file t th load entry rsp r)
  show ?thesis
    by (rule run_after_kernel[OF assms(3) exec_file(3)]) (use exec_parked[OF assms(2,3) exec_file(1,2)] in blast)
next
  case (block t s c r)
  then obtain th where th: "k_threads k t = Some th" using assms(2) by (auto simp: kernel_ok_def queue_ok_def)
  show ?thesis
    by (rule run_after_kernel[OF assms(3) block(2)]) (use suspend_parked[OF assms(2) block(1) th, of "WStream s"] in auto)
next
  case (signal s)
  have "waits_ok k'" using assms(2) registered_free[of "k_wait k"] unfolding signal kernel_ok_def core_ok_def waits_ok_def
    by (auto simp: wb_free_def)
  then show ?thesis using assms(2) by (simp add: signal kernel_ok_def core_ok_def queue_ok_def)
next
  case (resources x)
  then show ?thesis using assms(2) by (simp add: kernel_ok_def queue_ok_def)
qed (use assms(2,3) in \<open>blast intro: fork_kernel clone_kernel exit_kernel texit_kernel syswait_kernel timer_kernel sysleave_kernel\<close>)+

text \<open>The state \<open>boot\<close> builds, with the bitset \<open>b\<close>.\<close>

definition first_state :: "('c, 'x) proc_env \<Rightarrow> u64 \<Rightarrow> bitset \<Rightarrow> 'x \<Rightarrow> ('c, 'x) kernel" where
  "first_state E entry b x = (sched_new b x)\<lparr>k_groups := [1 \<mapsto> {1}],
     k_procs := [1 \<mapsto> \<lparr>p_gid = 1, p_threads = {1}, p_parent = None, p_sons = {}, p_terminated = False,
       p_mainTerminated = False, p_returnCode = 0\<rparr>],
     k_threads := [1 \<mapsto> \<lparr>t_pid = 1, t_gid = 1, t_first = True, t_ctx = (pe_ctx E)\<lparr>cx_rip := entry, cx_rflags := 2 OR 512\<rparr>\<rparr>],
     k_fifo := [1]\<rparr>"

lemma first_state_ok:
  assumes "tids_wf b" "1 < unat (bs_size b)" "\<And>i. i \<in> free_ids b \<longleftrightarrow> 2 \<le> unat i \<and> unat i < unat (bs_size b)"
  shows "parked (first_state E entry b x) \<and> kernel_ok (first_state E entry b x)"
proof -
  define k where k: "k = first_state E entry b x"
  note fs = k[unfolded first_state_def sched_new_def]
  have "threads_ok (k_procs k) (k_threads k) (k_groups k)"
    by (rule threads_okI) (auto simp: fs split: if_splits)
  moreover have "tree_ok (tree_of (k_procs k))" by (auto simp: fs tree_of_def tree_ok_def)
  moreover have "groups_ok (gids_of (k_procs k)) (k_groups k)" by (auto simp: fs gids_of_def groups_ok_def)
  moreover have "ids_ok (k_tids k) (k_procs k) (k_threads k) (k_groups k)"
  proof -
    have "2 \<le> unat i \<Longrightarrow> i \<noteq> 1" for i :: u16 by auto
    then show ?thesis using assms by (auto simp: fs ids_ok_def split: if_splits)
  qed
  moreover have "waits_ok k" by (simp add: fs waits_ok_def ws_init_def registered_ok_def)
  ultimately have "core_ok k" by (simp add: core_ok_def hier_ok_def)
  then show ?thesis unfolding k[symmetric] by (auto simp: parked_def kernel_ok_def queue_ok_def live_ok_def fs split: if_splits)
qed

lemma boot_eq:
  assumes "length page = 512"
  shows "\<exists>b'. boot E entry page (sched_new b x) = Inr (first_state E entry b' x) \<and> tids_wf b' \<and> unat (bs_size b') = 32768 \<and>
    (\<forall>i. i \<in> free_ids b' \<longleftrightarrow> 2 \<le> unat i \<and> unat i < 32768)"
proof -
  let ?b = "bs_init page 32768"
  have wf: "bs_wf ?b" "bs_size ?b = 32768" "length (bs_data ?b) = 512" using assms(1) by (simp_all add: bs_wf_def bs_init_def)
  from bs_fill_spec[OF wf(1)] obtain b1 where b1: "bs_fill ?b = Inr b1" "same_window ?b b1" "bits_of b1 = put_range True 0 32768 (bits_of ?b)"
    using wf(2) by auto
  have w1: "bs_wf b1" "bs_size b1 = 32768" "length (bs_data b1) = 512" using b1(2) wf same_window_wf[OF b1(2)] by (simp_all add: same_window_def)
  from bs_unset_spec[OF w1(1), of 0] w1(2) obtain b2 where b2: "bs_unset b1 0 = Inr b2" "same_window b1 b2" "bits_of b2 = (bits_of b1)(0 := False)" by auto
  have w2: "bs_wf b2" "bs_size b2 = 32768" using b2(2) w1 same_window_wf[OF b2(2)] by (simp_all add: same_window_def)
  from bs_unset_spec[OF w2(1), of 1] w2(2) obtain b3 where b3: "bs_unset b2 1 = Inr b3" "same_window b2 b3" "bits_of b3 = (bits_of b2)(1 := False)" by auto
  have w3: "bs_wf b3" "bs_size b3 = 32768" using b3(2) w2 same_window_wf[OF b3(2)] by (simp_all add: same_window_def)
  have k: "boot E entry page (sched_new b x) = Inr (first_state E entry b3 x)"
    using b1(1) b2(1) b3(1)
    by (simp add: boot_def addG_def process_new_def addP_def thread_new_def addT_def upd_proc_def deref_def sched_new_def sched_init_def
        bs_ref_assign_eq first_state_def)
  have "i \<in> free_ids b3 \<longleftrightarrow> 2 \<le> unat i \<and> unat i < 32768" for i
  proof -
    have "bits_of b1 n \<longleftrightarrow> n < 32768" for n
    proof (cases "n < 32768")
      case False
      then have "\<not> bits_of ?b n" using wf(3) by (auto simp: bits_of_def)
      then show ?thesis using False b1(3) by (simp add: put_range_def)
    qed (simp add: b1(3) put_range_def)
    then show ?thesis by (auto simp: free_ids_def b2(3) b3(3))
  qed
  then show ?thesis using k w3 by (intro exI[of _ b3]) (simp add: tids_wf_def)
qed

lemma boot_parked:
  assumes "length page = 512" "boot E entry page (sched_new b x) = Inr k"
  shows "parked k \<and> kernel_ok k"
  using boot_eq[OF assms(1), of E entry b x] assms(2) first_state_ok by fastforce

lemma kernel_reach_ok: "kernel_reach E k \<Longrightarrow> order_ok E \<Longrightarrow> kernel_ok k"
proof (induction rule: kernel_reach.induct)
  case (booted page entry b x k)
  then show ?case using boot_parked[OF booted.hyps] by simp
next
  case (run k r k')
  then have "kernel_ok k" by simp
  then have "parked (k\<lparr>k_halted := False\<rparr>)" using kernel_parked run.hyps by blast
  moreover have "k\<lparr>k_halted := False\<rparr> = k" using run.hyps(3) by simp
  ultimately have "parked k" by simp
  then show ?case using run_after_kernel[of E "Inr k" r k'] run by (simp add: run_after_def)
next
  case (step k k')
  then show ?case using step_kernel by blast
qed

section \<open>What the invariant gives\<close>

text \<open>C1. In every state the kernel reaches from boot, whatever the system calls and interrupts: threads,
  processes, parents, sons and groups refer to each other consistently and zombies own no thread; no
  thread is lost from the queue; and the free ids are exactly those nothing uses, so ids
  are neither leaked nor handed out twice.\<close>

theorem kernel_invariant:
  assumes "kernel_reach E k" "order_ok E"
  shows "hier_ok (k_procs k) (k_threads k) (k_groups k) \<and> queue_ok k \<and>
    (\<forall>i. bits_of (k_tids k) (unat i) \<longleftrightarrow>
       2 \<le> unat i \<and> unat i < unat (bs_size (k_tids k)) \<and> k_procs k i = None \<and> k_threads k i = None \<and> k_groups k i = None)"
  using kernel_reach_ok[OF assms] by (simp add: kernel_ok_def core_ok_def ids_ok_def free_ids_def)

text \<open>A small instance: resources are trivial, sets iterate in the order of ids, and there are 64 ids.\<close>

definition demo_env :: "(unit, u64) proc_env" where
  "demo_env = \<lparr>pe_order = sorted_list_of_set, pe_ctx = \<lparr>cx_rip = 0, cx_rsp = 0, cx_rax = 0, cx_rdi = 0, cx_rsi = 0, cx_rflags = 0, cx_rest = []\<rparr>,
    pe_fork = (\<lambda>c p x. Inr x), pe_clear = (\<lambda>p x. x), pe_delete = (\<lambda>p x. x), pe_poke = (\<lambda>p a v x. v), pe_in = (\<lambda>p a x. a = 16),
    pe_check = (\<lambda>c t x. (0, x)), pe_kloop = (\<lambda>x. x)\<rparr>"

definition demo_ids :: bitset where
  "demo_ids = \<lparr>bs_data = [0xFFFFFFFFFFFFFFFC], bs_size = 64\<rparr>"

definition demo_ctx :: cpu_context where
  "demo_ctx = \<lparr>cx_rip = 4096, cx_rsp = 8192, cx_rax = 57, cx_rdi = 0, cx_rsi = 0, cx_rflags = 514, cx_rest = []\<rparr>"

definition demo_kernel :: "(unit, u64) kernel" where
  "demo_kernel = (first_state demo_env 4096 demo_ids 0)\<lparr>k_fifo := [], k_current := Some 1, k_last := Some demo_ctx\<rparr>"

lemma demo_order: "order_ok demo_env"
  by (simp add: order_ok_def demo_env_def)

lemma demo_ids_ok: "parked (first_state E entry demo_ids x) \<and> kernel_ok (first_state E entry demo_ids x)"
proof (rule first_state_ok)
  show "tids_wf demo_ids" "1 < unat (bs_size demo_ids)" by (simp_all add: tids_wf_def bs_wf_def demo_ids_def)
  fix i :: u16
  have w: "(0xFFFFFFFFFFFFFFFC :: u64) = push_bit 2 (mask 62)" by (simp add: mask_eq_exp_minus_1)
  have "bits_of demo_ids (unat i) \<longleftrightarrow> 2 \<le> unat i \<and> unat i < 64"
  proof (cases "unat i < 64")
    case True
    then have "bits_of demo_ids (unat i) \<longleftrightarrow> bit (push_bit 2 (mask 62) :: u64) (unat i)"
      by (simp only: bits_of_def demo_ids_def w bitset.select_convs div_less mod_less list.size nth_Cons_0) simp
    with True show ?thesis by (auto simp: bit_simps)
  next
    case False
    then have "0 < unat i div 64" by (simp add: div_greater_zero_iff)
    with False show ?thesis by (simp add: bits_of_def demo_ids_def)
  qed
  moreover have "unat (bs_size demo_ids) = 64" by (simp add: demo_ids_def)
  ultimately show "i \<in> free_ids demo_ids \<longleftrightarrow> 2 \<le> unat i \<and> unat i < unat (bs_size demo_ids)"
    by (simp add: free_ids_def)
qed

lemmas demo_first = demo_ids_ok[of demo_env 4096 0]

lemma demo_kernel_ok: "kernel_ok demo_kernel"
proof -
  have "core_ok (first_state demo_env 4096 demo_ids 0)" using demo_first by (simp add: kernel_ok_def)
  then have "core_ok demo_kernel"
    by (simp add: demo_kernel_def core_ok_def waits_ok_def first_state_def sched_new_def ws_init_def)
  then show ?thesis
    by (auto simp: kernel_ok_def queue_ok_def live_ok_def demo_kernel_def first_state_def sched_new_def split: if_splits)
qed

theorem kernel_invariant_witness:
  "\<exists>k. boot demo_env 4096 (replicate 512 0) (sched_new demo_ids 0) = Inr k \<and> hier_ok (k_procs k) (k_threads k) (k_groups k)"
proof -
  from boot_eq[of "replicate 512 0" demo_env 4096 demo_ids 0] obtain k where
    k: "boot demo_env 4096 (replicate 512 0) (sched_new demo_ids 0) = Inr k" by auto
  from kernel_invariant[OF kernel_reach.booted[OF _ k] demo_order] k show ?thesis by auto
qed



end
