(* ===== verification/ProcLife.thy ===== *)
theory ProcLife
  imports ProcSched
begin

text \<open>
  The life of a process on top of ProcSched: what \<open>fork\<close> creates, how the exit code reaches the
  parent and the process is reaped, and when \<open>exit\<close> stops the kernel.
\<close>

section \<open>Creation and end of processes\<close>

lemma exit_threads_fault:
  assumes "tids_wf (k_tids k)" "\<And>x. k_threads k x \<noteq> None \<Longrightarrow> unat x < unat (bs_size (k_tids k))"
  shows "(\<exists>k'. for_list thread_delete ts k = Inr k') \<or> for_list thread_delete ts k = Inl Assertion"
  using assms
proof (induction ts arbitrary: k)
  case Nil
  then show ?case by simp
next
  case (Cons t ts)
  have a: "(\<exists>k1. thread_delete t k = Inr k1) \<or> thread_delete t k = Inl Assertion"
  proof (cases "k_current k \<noteq> Some t \<and> k_threads k t \<noteq> None")
    case True
    from set_tid_effect[of "k\<lparr>k_threads := (k_threads k)(t := None)\<rparr>" t] Cons.prems True obtain b where
      "set_tid t (k\<lparr>k_threads := (k_threads k)(t := None)\<rparr>) = Inr (k\<lparr>k_threads := (k_threads k)(t := None), k_tids := b\<rparr>)" by auto
    then show ?thesis using True by (auto simp: thread_delete_def freeT_def wt_destroy_def check_def Let_def)
  next
    case False
    then show ?thesis by (auto simp: thread_delete_def freeT_def check_def)
  qed
  then show ?case
  proof
    assume "\<exists>k1. thread_delete t k = Inr k1"
    then obtain k1 where k1: "thread_delete t k = Inr k1" by blast
    from thread_delete_effect[OF this Cons.prems] have w: "tids_wf (k_tids k1)" "bs_size (k_tids k1) = bs_size (k_tids k)"
      "k_threads k1 = (k_threads k)(t := None)" by auto
    have "k_threads k1 x \<noteq> None \<Longrightarrow> unat x < unat (bs_size (k_tids k1))" for x
      using Cons.prems(2)[of x] w(2,3) by (auto split: if_splits)
    from Cons.IH[OF w(1) this] k1 show ?thesis by simp
  qed simp
qed

text \<open>\<open>exit\<close> by one thread while another thread of the process is blocked in a system call stops the
  kernel: the destructor of the waiting thread asserts that it does not wait.\<close>

theorem exit_waiting_crashes:
  assumes "kernel_ok k" "order_ok E" "k_current k = Some t" "k_threads k t = Some th"
    and "k_threads k u = Some uh" "t_pid uh = t_pid th" "ws_waiting (k_wait k) u \<noteq> {}"
  shows "sched_exit E rc k = Some (Inl Assertion)"
proof -
  let ?k = "k\<lparr>k_current := None, k_last := None\<rparr>" and ?i = "t_pid th"
  have c: "core_ok ?k" using core_current_none[of k] assms(1) by (simp add: kernel_ok_def)
  note co = core_okD[OF c, simplified]
  from threadsD(1)[OF co(1) assms(5)] assms(6) obtain p where p: "k_procs k ?i = Some p" "u \<in> p_threads p" by auto
  let ?k2 = "(upd_proc ?i (\<lambda>p. p\<lparr>p_returnCode := rc, p_terminated := True\<rparr>) ?k)\<lparr>k_env := pe_clear E ?i (k_env k)\<rparr>"
  have u: "u \<in> set (pe_order E (p_threads p))" using p(2) assms(2) by (simp add: order_ok_def)
  have wf: "tids_wf (k_tids ?k2)" "\<And>x. k_threads ?k2 x \<noteq> None \<Longrightarrow> unat x < unat (bs_size (k_tids ?k2))"
    using ids_range[OF c] co(4) by (simp_all add: upd_proc_def ids_ok_def)
  have "for_list thread_delete (pe_order E (p_threads p)) ?k2 \<noteq> Inr k3" for k3
    using delete_loop[OF _ wf, of "pe_order E (p_threads p)" k3] u assms(7) by (auto simp: upd_proc_def)
  then have "for_list thread_delete (pe_order E (p_threads p)) ?k2 = Inl Assertion"
    using exit_threads_fault[OF wf, of "pe_order E (p_threads p)"] by blast
  then have "process_terminate E rc ?i ?k = Inl Assertion"
    using p(1) by (simp add: process_terminate_def deref_def Let_def upd_proc_def)
  then show ?thesis using assms(3,4) by (simp add: sched_exit_def deref_def run_after_def)
qed

text \<open>C16. \<open>fork\<close> creates a process under an id nothing used: a son of the caller's process in the same
  group, with one thread that resumes where the caller does but with result 0, queued last; the
  caller's own context is saved and it gets the id of the child.\<close>

theorem fork_creates:
  assumes "kernel_ok k" "k_last k = Some c" "k_current k = Some t" "k_threads k t = Some th"
    and "k_procs k (t_pid th) = Some po" "sched_fork E k = Inr (n, k')"
  shows "k_procs k n = None \<and> k_threads k n = None \<and> k_groups k n = None \<and> n \<noteq> 0 \<and>
    k_procs k' = (k_procs k)(t_pid th \<mapsto> po\<lparr>p_sons := insert n (p_sons po)\<rparr>,
      n \<mapsto> \<lparr>p_gid = p_gid po, p_threads = {n}, p_parent = Some (t_pid th), p_sons = {}, p_terminated = False,
        p_mainTerminated = False, p_returnCode = 0\<rparr>) \<and>
    k_threads k' = (k_threads k)(t \<mapsto> th\<lparr>t_ctx := c\<rparr>, n \<mapsto> \<lparr>t_pid = n, t_gid = p_gid po, t_first = True, t_ctx = c\<lparr>cx_rax := 0\<rparr>\<rparr>) \<and>
    k_fifo k' = k_fifo k @ [n] \<and> k_current k' = Some t \<and> k_wait k' = k_wait k \<and>
    pe_fork E n (t_pid th) (k_env k) = Inr (k_env k')"
proof -
  have e: "enterSys k = Inr (t, (upd_thread t (\<lambda>t. t\<lparr>t_ctx := c\<rparr>) k)\<lparr>k_last := None\<rparr>)"
    using assms(2,3) by (simp add: enterSys_def deref_def)
  show ?thesis
  proof (rule fork_effect[OF assms(1,6)])
    fix old k1 th1 po1 M b np uh
    assume a: "enterSys k = Inr (old, k1)" "k_current k1 = Some old" "k_threads k1 old = Some th1" "k_procs k1 (t_pid th1) = Some po1"
      and n: "k_procs k1 n = None" "k_threads k1 n = None" "k_groups k1 n = None" "2 \<le> unat n"
      and np: "np = \<lparr>p_gid = p_gid po1, p_threads = {n}, p_parent = Some (t_pid th1), p_sons = {}, p_terminated = False,
        p_mainTerminated = False, p_returnCode = 0\<rparr>"
      and uh: "uh = \<lparr>t_pid = n, t_gid = p_gid po1, t_first = True, t_ctx = (t_ctx th1)\<lparr>cx_rax := 0\<rparr>\<rparr>"
      and k': "k_procs k' = (k_procs k1)(n \<mapsto> np, t_pid th1 \<mapsto> po1\<lparr>p_sons := insert n (p_sons po1)\<rparr>)"
        "k_threads k' = (k_threads k1)(n \<mapsto> uh)" "k_wait k' = k_wait k1" "k_current k' = k_current k1" "k_fifo k' = k_fifo k1 @ [n]"
        "pe_fork E n (t_pid th1) (k_env k1) = Inr (k_env k')"
    from a(1)[unfolded e] have k1: "old = t" "k1 = (upd_thread t (\<lambda>t. t\<lparr>t_ctx := c\<rparr>) k)\<lparr>k_last := None\<rparr>" by auto
    have th1: "th1 = th\<lparr>t_ctx := c\<rparr>" using a(3) assms(4) by (simp add: k1 upd_thread_def)
    have po1: "po1 = po" using a(4) assms(5) by (simp add: k1 th1 upd_thread_def)
    have "t_pid th \<noteq> n" "t \<noteq> n" using n(1,2) a(3,4) th1 po1 k1(1) by auto
    moreover have "n \<noteq> 0" using n(4) by auto
    ultimately show ?thesis using n k' assms(3,4)
      by (simp add: k1 th1 po1 np uh upd_thread_def fun_upd_twist split: if_splits)
  qed
qed

lemma demo_fork: "map_sum id fst (sched_fork demo_env demo_kernel) = Inr 2"
  by code_simp

theorem fork_creates_witness:
  "\<exists>k'. sched_fork demo_env demo_kernel = Inr (2, k') \<and> k_fifo k' = [2] \<and> map_option p_parent (k_procs k' 2) = Some (Some 1)"
proof -
  obtain k' where k': "sched_fork demo_env demo_kernel = Inr (2, k')"
    using demo_fork by (cases "sched_fork demo_env demo_kernel") auto
  have p: "k_last demo_kernel = Some demo_ctx" "k_current demo_kernel = Some 1" "k_fifo demo_kernel = []"
    by (simp_all add: demo_kernel_def)
  obtain th po where t: "k_threads demo_kernel 1 = Some th" "k_procs demo_kernel (t_pid th) = Some po" "t_pid th = 1"
    by (simp add: demo_kernel_def first_state_def)
  from fork_creates[OF demo_kernel_ok p(1,2) t(1,2) k'] k' p(3) t(3) show ?thesis by simp
qed

text \<open>C23. The code a process exits with reaches its parent: once the process has terminated, every thread
  waiting for the parent's children is signalled, and a \<open>wait\<close> for that process by a thread of the parent
  stores the code at the address given, returns the pid and removes the process; the id is free again
  unless it still names a group, and the children of the process become children of process 1.\<close>

theorem wait_gets_exit_code:
  assumes "core_ok k" "order_ok E" "k_procs k s = Some p" "p_parent p = Some q"
    and "k_threads k t = Some th" "t_pid th = q" "process_terminate E rc s k = Inr k1"
  shows "(\<forall>u. u \<in> ws_waitings (k_wait k) (WProcess q) \<longrightarrow> ws_waited (k_wait k1) u = Some (WProcess q)) \<and>
    (\<exists>k2. nbwaitp_one E t s st k1 = Inr (ucast s, k2) \<and> core_ok k2 \<and> k_procs k2 s = None \<and>
      (k_groups k2 s = None \<longrightarrow> s \<in> free_ids (k_tids k2)) \<and>
      k_env k2 = pe_delete E s (if st \<noteq> 0 then pe_poke E q st rc (k_env k1) else k_env k1) \<and>
      (\<forall>c\<in>p_sons p. map_option p_parent (k_procs k2 c) = Some (Some 1)))"
proof (rule terminate_effect[OF assms(1,2,7)])
  fix p' q' b
  assume "k_procs k s = Some p'" "p_parent p' = Some q'" "s \<noteq> 1"
    and P0: "k_procs k1 = (k_procs k)(s \<mapsto> p'\<lparr>p_returnCode := rc, p_terminated := True, p_threads := {}\<rparr>)"
    and T0: "k_threads k1 = k_threads k |` (- p_threads p')" and W0: "k_wait k1 = wb_free (WProcess q') (k_wait k)"
  then have P: "k_procs k1 = (k_procs k)(s \<mapsto> p\<lparr>p_returnCode := rc, p_terminated := True, p_threads := {}\<rparr>)"
    and T: "k_threads k1 = k_threads k |` (- p_threads p)" and W: "k_wait k1 = wb_free (WProcess q) (k_wait k)" and s1: "s \<noteq> 1"
    using assms(3,4) by auto
  note co = core_okD[OF assms(1)]
  have c1: "core_ok k1" using terminate_core[OF assms(1,2,7)] by blast
  have Rs: "tree_of (k_procs k) s = Some (Some q, p_sons p)" using assms(3,4) by (simp add: tree_of_def)
  then have qs: "q \<noteq> s" using treeD(2)[OF co(2)] by blast
  then have t: "k_threads k1 t = Some th" using assms(5,6) threadsD(4)[OF co(1) assms(3), of t] by (auto simp: T restrict_map_def)
  obtain pq where pq: "k_procs k q = Some pq" "s \<in> p_sons pq"
    using treeD(2)[OF co(2) Rs] by (auto simp: tree_of_def)
  have s: "k_procs k1 s = Some (p\<lparr>p_returnCode := rc, p_terminated := True, p_threads := {}\<rparr>)" by (simp add: P)
  let ?k = "if st \<noteq> 0 then k1\<lparr>k_env := pe_poke E q st rc (k_env k1)\<rparr> else k1"
  have "core_ok ?k" "k_procs ?k = k_procs k1" using c1 by simp_all
  from process_delete_ok[OF this(1), of s, unfolded this(2), OF s _ assms(2)] obtain k2 where k2: "process_delete E s ?k = Inr k2" "core_ok k2"
    "k_procs k2 = leave s (p_sons p) q (k_procs k1)" "k_procs k2 s = None" "k_threads k2 = k_threads ?k" "k_env k2 = pe_delete E s (k_env ?k)" "bs_size (k_tids k2) = bs_size (k_tids ?k)"
    using assms(4) by auto
  have "nbwaitp_one E t s st k1 = Inr (ucast s, k2)"
    using t s pq qs assms(6) k2(1) by (simp add: nbwaitp_one_def deref_def P Let_def split: if_splits)
  moreover have "k_env k2 = pe_delete E s (if st \<noteq> 0 then pe_poke E q st rc (k_env k1) else k_env k1)"
    using k2(6) by simp
  moreover have "s \<in> free_ids (k_tids k2)" if "k_groups k2 s = None"
  proof -
    have "k_threads k s = Some u \<Longrightarrow> s \<in> p_threads p" for u
      using threadsD(1,2)[OF co(1), of s u] assms(3) by fastforce
    then have "k_threads k2 s = None" by (cases "k_threads k s") (auto simp: k2(5) T restrict_map_def)
    moreover have "1 \<le> unat s \<and> unat s < unat (bs_size (k_tids k1))" using core_okD(4)[OF c1] s unfolding ids_ok_def by blast
    moreover have "unat s \<noteq> 1" using s1 by (metis unat_1 word_unat_eq_iff)
    ultimately show ?thesis using core_okD(4)[OF k2(2)] that k2(4) k2(7) unfolding ids_ok_def by simp
  qed
  moreover have "map_option p_parent (k_procs k2 c) = Some (Some 1)" if c: "c \<in> p_sons p" for c
  proof -
    obtain pc where pc: "k_procs k c = Some pc" "p_parent pc = Some s" using treeD(1)[OF co(2) Rs c] by (auto simp: tree_of_def)
    then have "c \<noteq> s" using assms(3,4) qs by auto
    then show ?thesis using c pc(1) by (simp add: k2(3) leave_def P)
  qed
  ultimately show ?thesis using k2(2,4) W by (auto simp: wb_free_def)
qed

text \<open>An instance with a child: process 2, in which a second thread 3 waits for a stream.\<close>

definition demo_child :: "(unit, u64) kernel" where
  "demo_child = (case sched_fork demo_env demo_kernel of Inr (n, k) \<Rightarrow> k | Inl e \<Rightarrow> demo_kernel)"

lemma demo_child_ok:
  "kernel_ok demo_child" "map_option p_parent (k_procs demo_child 2) = Some (Some 1)"
  "map_option t_pid (k_threads demo_child 1) = Some 1" "k_current demo_child = Some 1"
proof -
  obtain k' where k': "sched_fork demo_env demo_kernel = Inr (2, k')"
    using demo_fork by (cases "sched_fork demo_env demo_kernel") auto
  then have d: "demo_child = k'" by (simp add: demo_child_def)
  show "kernel_ok demo_child" using fork_kernel[OF demo_kernel_ok k'] by (simp add: d)
  show "map_option p_parent (k_procs demo_child 2) = Some (Some 1)"
    "map_option t_pid (k_threads demo_child 1) = Some 1" "k_current demo_child = Some 1"
    by code_simp+
qed

lemma demo_child_exit: "map_sum id (\<lambda>k. ()) (process_terminate demo_env 7 2 (demo_child :: (unit, u64) kernel)) = Inr ()"
  by code_simp

theorem wait_gets_exit_code_witness:
  "\<exists>k1 k2. process_terminate demo_env 7 2 demo_child = Inr k1 \<and> nbwaitp_one demo_env 1 2 4096 k1 = Inr (2, k2) \<and> k_procs k2 2 = None"
proof -
  obtain k1 where k1: "process_terminate demo_env 7 2 demo_child = Inr k1"
    using demo_child_exit by (cases "process_terminate demo_env 7 2 demo_child") auto
  obtain p where p: "k_procs demo_child 2 = Some p" "p_parent p = Some 1" using demo_child_ok(2) by auto
  obtain th where th: "k_threads demo_child 1 = Some th" "t_pid th = 1" using demo_child_ok(3) by auto
  have "core_ok demo_child" using demo_child_ok(1) by (simp add: kernel_ok_def)
  from wait_gets_exit_code[OF this demo_order p th k1, of 4096] k1 show ?thesis by auto
qed

text \<open>Process 1 with a second thread that waits for a stream.\<close>

definition demo_two :: "(unit, u64) kernel" where
  "demo_two = (case sched_clone (demo_env\<lparr>pe_in := \<lambda>p a x. True\<rparr>) 16 17 demo_kernel of
     Inr (n, k) \<Rightarrow> (case wt_wait {WStream 0} (StreamCheck ()) 2 (k_wait k) of Inr w \<Rightarrow> k\<lparr>k_wait := w\<rparr> | Inl e \<Rightarrow> k)
   | Inl e \<Rightarrow> demo_kernel)"

lemma demo_two_clone: "map_sum id fst (sched_clone (demo_env\<lparr>pe_in := \<lambda>p a x. True\<rparr>) 16 17 demo_kernel) = Inr 2"
  by code_simp

lemma demo_two_ok:
  "kernel_ok demo_two \<and> k_current demo_two = Some 1 \<and> ws_waiting (k_wait demo_two) 2 = {WStream 0} \<and>
    map_option t_pid (k_threads demo_two 1) = Some 1 \<and> map_option t_pid (k_threads demo_two 2) = Some 1"
proof -
  let ?c = "sched_clone (demo_env\<lparr>pe_in := \<lambda>p a x. True\<rparr>) 16 17 demo_kernel"
  obtain k where k: "?c = Inr (2, k)" using demo_two_clone by (cases ?c) auto
  have ok: "kernel_ok k" using clone_kernel[OF demo_kernel_ok k] .
  have c: "k_wait k = ws_init \<and> k_current k = Some 1 \<and> map_option t_pid (k_threads k 1) = Some 1 \<and> map_option t_pid (k_threads k 2) = Some 1"
  proof -
    have e: "snd (projr ?c) = k" by (simp only: k sum.sel snd_conv)
    have "map_option t_pid (k_threads (snd (projr ?c)) 1) = Some 1" "map_option t_pid (k_threads (snd (projr ?c)) 2) = Some 1"
      "k_current (snd (projr ?c)) = Some 1" by code_simp+
    moreover have "k_wait k = k_wait demo_kernel" using k
      by (auto simp: sched_clone_def enterSys_def thread_new_def getFreshTid_def upd_thread_def upd_proc_def addT_def deref_def Let_def
          res_simps split: option.splits if_splits)
    moreover have "k_wait demo_kernel = ws_init" by (simp add: demo_kernel_def first_state_def sched_new_def)
    ultimately show ?thesis unfolding e by simp
  qed
  obtain w where w: "wt_wait {WStream 0} (StreamCheck ()) (2 :: u16) ws_init = Inr w" by (simp add: wt_wait_def ws_init_def)
  then have d: "demo_two = k\<lparr>k_wait := w\<rparr>" using c by (simp add: demo_two_def k)
  have "registered_ok (ws_init :: (waitable, u16, unit checker) wait_state)" by (simp add: registered_ok_def ws_init_def)
  from registered_wait[OF this w] have "waits_ok demo_two"
    using w c by (auto simp: waits_ok_def d wt_wait_def ws_init_def split: if_splits)
  moreover have "queue_ok demo_two" using ok by (simp add: d kernel_ok_def queue_ok_def)
  ultimately have "kernel_ok demo_two" using ok by (simp add: d kernel_ok_def core_ok_def)
  then show ?thesis using c w by (auto simp: d wt_wait_def ws_init_def)
qed

theorem exit_waiting_crashes_witness:
  "sched_exit demo_env 0 demo_two = Some (Inl Assertion)"
proof -
  obtain th uh where t: "k_threads demo_two 1 = Some th" "t_pid th = 1" "k_threads demo_two 2 = Some uh" "t_pid uh = 1"
    using demo_two_ok by auto
  from exit_waiting_crashes[OF _ demo_order _ t(1,3)] t(2,4) demo_two_ok show ?thesis by simp
qed

end
