(* ===== verification/FileDesc.thy ===== *)
theory FileDesc
  imports Prelude Streams "HOL-Library.Multiset"
begin

text \<open>
  File descriptors (\<open>src/src/Processes/FileDescriptor.cpp\<close>) and the vector a process keeps them in
  (\<open>std::vector\<close> of \<open>src/libc++/vector\<close>). Copies of a descriptor share a counter of owners,
  and the one that brings it to zero deletes the stream, directory or window. Streams and
  windows are pointers, natural numbers, into the rest of the kernel \<open>'w\<close>; directories are values
  of type \<open>'f\<close>. What deleting or opening them does is the record \<open>fd_ops\<close>.
\<close>

datatype FDtype = EMPTY | STREAM | DIRECTORY | GWINDOW | TWINDOW

text \<open>
  \<open>fd_str\<close> is the pointer to a \<open>unique_ptr\<close>: \<open>None\<close> is the null pointer, \<open>Some None\<close> an empty
  \<open>unique_ptr\<close>. The fields a constructor leaves uninitialised are \<open>None\<close>; no operation reads them
  before it has tested the type.
\<close>

record 'f fdesc =
  fd_owners :: "nat option"
  fd_str :: "nat option option"
  fd_dir :: "'f option"
  fd_win :: "nat option"
  fd_dopen :: "nat option"
  fd_type :: FDtype
  fd_mask :: u64

text \<open>The counters that exist, and the next address a counter is allocated at.\<close>

record 'w fd_heap =
  fh_cnt :: "nat \<Rightarrow> nat option"
  fh_next :: nat
  fh_world :: 'w

record ('f, 'w) fd_ops =
  o_mask :: "nat \<Rightarrow> 'w \<Rightarrow> u64"
  o_winStream :: "nat \<Rightarrow> 'w \<Rightarrow> nat \<times> 'w"
  o_delete :: "nat \<Rightarrow> 'w \<Rightarrow> 'w res"
  o_delWin :: "nat \<Rightarrow> 'w \<Rightarrow> 'w res"
  o_open :: "'f \<Rightarrow> 'w \<Rightarrow> nat \<times> 'w"
  o_close :: "'f \<Rightarrow> nat \<Rightarrow> 'w \<Rightarrow> 'w"

section \<open>Constructors\<close>

definition fd_empty :: "'f fdesc" where
  "fd_empty = \<lparr>fd_owners = None, fd_str = None, fd_dir = None, fd_win = None, fd_dopen = None, fd_type = EMPTY, fd_mask = - 1\<rparr>"

definition new_owners :: "'w fd_heap \<Rightarrow> nat \<times> 'w fd_heap" where
  "new_owners h = (fh_next h, h\<lparr>fh_cnt := (fh_cnt h)(fh_next h \<mapsto> 1), fh_next := fh_next h + 1\<rparr>)"

definition fd_stream :: "nat option \<Rightarrow> 'w fd_heap \<Rightarrow> 'f fdesc \<times> 'w fd_heap" where
  "fd_stream str h = (case new_owners h of (c, h) \<Rightarrow>
     (fd_empty\<lparr>fd_owners := Some c, fd_str := Some str, fd_type := STREAM\<rparr>, h))"

definition fd_directory :: "('f, 'w, 'z) fd_ops_scheme \<Rightarrow> 'f \<Rightarrow> 'w fd_heap \<Rightarrow> 'f fdesc \<times> 'w fd_heap" where
  "fd_directory E dir h = (case new_owners h of (c, h) \<Rightarrow> case o_open E dir (fh_world h) of (o', w) \<Rightarrow>
     (fd_empty\<lparr>fd_owners := Some c, fd_dir := Some dir, fd_dopen := Some o', fd_type := DIRECTORY\<rparr>, h\<lparr>fh_world := w\<rparr>))"

definition fd_gwindow :: "('f, 'w, 'z) fd_ops_scheme \<Rightarrow> nat \<Rightarrow> 'w fd_heap \<Rightarrow> 'f fdesc \<times> 'w fd_heap" where
  "fd_gwindow E win h = (case new_owners h of (c, h) \<Rightarrow> case o_winStream E win (fh_world h) of (s, w) \<Rightarrow>
     (fd_empty\<lparr>fd_owners := Some c, fd_str := Some (Some s), fd_win := Some win, fd_type := GWINDOW\<rparr>, h\<lparr>fh_world := w\<rparr>))"

text \<open>A text window is itself the stream: one object with one address.\<close>

definition fd_twindow :: "nat \<Rightarrow> 'w fd_heap \<Rightarrow> 'f fdesc \<times> 'w fd_heap" where
  "fd_twindow win h = (case new_owners h of (c, h) \<Rightarrow>
     (fd_empty\<lparr>fd_owners := Some c, fd_str := Some (Some win), fd_win := Some win, fd_type := TWINDOW\<rparr>, h))"

section \<open>Sharing\<close>

definition fd_copy :: "'f fdesc \<Rightarrow> 'w fd_heap \<Rightarrow> ('f fdesc \<times> 'w fd_heap) res" where
  "fd_copy d h =
    (let t = fd_type d;
         d' = \<lparr>fd_owners = fd_owners d, fd_str = fd_str d, fd_dir = (if t = DIRECTORY then fd_dir d else None),
               fd_win = (if t = GWINDOW \<or> t = TWINDOW then fd_win d else None),
               fd_dopen = (if t = DIRECTORY then fd_dopen d else None), fd_type = t, fd_mask = fd_mask d\<rparr> in
     case fd_owners d of
       None \<Rightarrow> Inr (d', h)
     | Some c \<Rightarrow> (case fh_cnt h c of
         None \<Rightarrow> Inl OutOfBounds
       | Some n \<Rightarrow> Inr (d', h\<lparr>fh_cnt := (fh_cnt h)(c \<mapsto> n + 1)\<rparr>)))"

definition fd_delStr :: "('f, 'w, 'z) fd_ops_scheme \<Rightarrow> 'f fdesc \<Rightarrow> 'w fd_heap \<Rightarrow> 'w fd_heap res" where
  "fd_delStr E d h =
    (case fd_str d of Some (Some s) \<Rightarrow> bnd (o_delete E s (fh_world h)) (\<lambda>w. Inr (h\<lparr>fh_world := w\<rparr>)) | _ \<Rightarrow> Inr h)"

definition fd_free :: "('f, 'w, 'z) fd_ops_scheme \<Rightarrow> 'f fdesc \<Rightarrow> 'w fd_heap \<Rightarrow> 'w fd_heap res" where
  "fd_free E d h =
    (case fd_owners d of
       None \<Rightarrow> Inl Assertion
     | Some c \<Rightarrow> assertk (fh_cnt h c = Some 0)
         (let h = h\<lparr>fh_cnt := (fh_cnt h)(c := None)\<rparr> in
          case fd_type d of
            EMPTY \<Rightarrow> Inr h
          | TWINDOW \<Rightarrow> fd_delStr E d h
          | STREAM \<Rightarrow> fd_delStr E d h
          | DIRECTORY \<Rightarrow> (case (fd_dir d, fd_dopen d) of
              (Some dir, Some o') \<Rightarrow> Inr (h\<lparr>fh_world := o_close E dir o' (fh_world h)\<rparr>)
            | _ \<Rightarrow> Inl NullAccess)
          | GWINDOW \<Rightarrow> bnd (fd_delStr E d h) (\<lambda>h. case fd_win d of
              None \<Rightarrow> Inr h
            | Some win \<Rightarrow> bnd (o_delWin E win (fh_world h)) (\<lambda>w. Inr (h\<lparr>fh_world := w\<rparr>)))))"

definition fd_drop :: "('f, 'w, 'z) fd_ops_scheme \<Rightarrow> 'f fdesc \<Rightarrow> 'w fd_heap \<Rightarrow> 'w fd_heap res" where
  "fd_drop E d h =
    (case fd_owners d of
       None \<Rightarrow> Inr h
     | Some c \<Rightarrow> (case fh_cnt h c of
         None \<Rightarrow> Inl OutOfBounds
       | Some n \<Rightarrow> let h = h\<lparr>fh_cnt := (fh_cnt h)(c \<mapsto> n - 1)\<rparr> in
           if n - 1 = 0 then fd_free E d h else Inr h))"

text \<open>\<open>operator=\<close>: what the target held is dropped before the source is looked at.\<close>

definition fd_assign :: "('f, 'w, 'z) fd_ops_scheme \<Rightarrow> 'f fdesc \<Rightarrow> 'f fdesc \<Rightarrow> 'w fd_heap \<Rightarrow> ('f fdesc \<times> 'w fd_heap) res" where
  "fd_assign E this fd h = bnd (fd_drop E this h) (fd_copy fd)"

section \<open>Access\<close>

definition fd_hasStream :: "'f fdesc \<Rightarrow> bool" where
  "fd_hasStream d \<longleftrightarrow> fd_type d = STREAM \<or> fd_type d = TWINDOW \<or> fd_type d = GWINDOW"

definition fd_isWin :: "'f fdesc \<Rightarrow> bool" where
  "fd_isWin d \<longleftrightarrow> fd_type d = GWINDOW \<or> fd_type d = TWINDOW"

definition fd_isDir :: "'f fdesc \<Rightarrow> bool" where
  "fd_isDir d \<longleftrightarrow> fd_type d = DIRECTORY"

definition fd_isEmpty :: "'f fdesc \<Rightarrow> bool" where
  "fd_isEmpty d \<longleftrightarrow> fd_type d = EMPTY"

text \<open>\<open>operator->\<close>: the stream, an object that is called.\<close>

definition fd_arrow :: "'f fdesc \<Rightarrow> nat res" where
  "fd_arrow d = (case fd_str d of None \<Rightarrow> Inl Assertion | Some None \<Rightarrow> Inl NullAccess | Some (Some s) \<Rightarrow> Inr s)"

definition fd_getMask :: "('f, 'w, 'z) fd_ops_scheme \<Rightarrow> 'f fdesc \<Rightarrow> 'w \<Rightarrow> u64 res" where
  "fd_getMask E d w =
    (case fd_str d of None \<Rightarrow> Inr 0 | Some None \<Rightarrow> Inl NullAccess | Some (Some s) \<Rightarrow> Inr (fd_mask d AND o_mask E s w))"

definition fd_check :: "('f, 'w, 'z) fd_ops_scheme \<Rightarrow> 'f fdesc \<Rightarrow> u8 \<Rightarrow> 'w \<Rightarrow> bool res" where
  "fd_check E d val w = bnd (fd_getMask E d w) (\<lambda>m. Inr (stream_check m val))"

definition fd_getWin :: "'f fdesc \<Rightarrow> nat option" where
  "fd_getWin d = (if fd_isWin d then fd_win d else None)"

definition fd_getDir :: "'f fdesc \<Rightarrow> 'f option" where
  "fd_getDir d = (if fd_type d = DIRECTORY then fd_dir d else None)"

definition fd_getDopen :: "'f fdesc \<Rightarrow> nat option" where
  "fd_getDopen d = (if fd_type d = DIRECTORY then fd_dopen d else None)"

section \<open>The vector of descriptors\<close>

text \<open>
  \<open>reserve\<close> copies the elements to the new storage (\<open>FileDescriptor\<close> declares a copy constructor,
  so \<open>move\<close> copies) and gives the old storage back without destroying what it holds.
\<close>

record 'f fd_vector =
  fv_data :: "'f fdesc list"
  fv_cap :: nat

definition fv_new :: "'f fd_vector" where "fv_new = \<lparr>fv_data = [], fv_cap = 0\<rparr>"

fun strategy_bits :: "nat \<Rightarrow> nat" where
  "strategy_bits n = (if n < 2 then 0 else Suc (strategy_bits (n div 2)))"

definition strategy :: "nat \<Rightarrow> nat" where
  "strategy s = 2 ^ (strategy_bits (s + 1) + 1)"

fun fd_copies :: "'f fdesc list \<Rightarrow> 'w fd_heap \<Rightarrow> ('f fdesc list \<times> 'w fd_heap) res" where
  "fd_copies [] h = Inr ([], h)"
| "fd_copies (d # ds) h = bnd (fd_copy d h) (\<lambda>(d', h). bnd (fd_copies ds h) (\<lambda>(ds', h). Inr (d' # ds', h)))"

fun fd_drops :: "('f, 'w, 'z) fd_ops_scheme \<Rightarrow> 'f fdesc list \<Rightarrow> 'w fd_heap \<Rightarrow> 'w fd_heap res" where
  "fd_drops E [] h = Inr h"
| "fd_drops E (d # ds) h = bnd (fd_drop E d h) (fd_drops E ds)"

definition fv_reserve :: "nat \<Rightarrow> 'f fd_vector \<Rightarrow> 'w fd_heap \<Rightarrow> ('f fd_vector \<times> 'w fd_heap) res" where
  "fv_reserve n v h =
    (if fv_data v \<noteq> [] \<and> n \<le> fv_cap v then Inr (v, h)
     else bnd (fd_copies (fv_data v) h) (\<lambda>(ds, h). Inr (\<lparr>fv_data = ds, fv_cap = strategy n\<rparr>, h)))"

definition fv_resize :: "('f, 'w, 'z) fd_ops_scheme \<Rightarrow> nat \<Rightarrow> 'f fd_vector \<Rightarrow> 'w fd_heap \<Rightarrow> ('f fd_vector \<times> 'w fd_heap) res" where
  "fv_resize E n v h =
    (let l = length (fv_data v) in
     if n = l then Inr (v, h)
     else if n < l then bnd (fd_drops E (drop n (fv_data v)) h) (\<lambda>h. Inr (v\<lparr>fv_data := take n (fv_data v)\<rparr>, h))
     else bnd (fv_reserve n v h) (\<lambda>(v, h). Inr (v\<lparr>fv_data := fv_data v @ replicate (n - l) fd_empty\<rparr>, h)))"

text \<open>The copy constructor and the destructor.\<close>

definition fv_copy :: "'f fd_vector \<Rightarrow> 'w fd_heap \<Rightarrow> ('f fd_vector \<times> 'w fd_heap) res" where
  "fv_copy v h = bnd (fd_copies (fv_data v) h) (\<lambda>(ds, h). Inr (\<lparr>fv_data = ds, fv_cap = strategy (length (fv_data v))\<rparr>, h))"

definition fv_destroy :: "('f, 'w, 'z) fd_ops_scheme \<Rightarrow> 'f fd_vector \<Rightarrow> 'w fd_heap \<Rightarrow> 'w fd_heap res" where
  "fv_destroy E v h = fd_drops E (fv_data v) h"

text \<open>\<open>v[i] = temporary\<close>: the copy, then the end of the temporary.\<close>

definition fv_put :: "('f, 'w, 'z) fd_ops_scheme \<Rightarrow> nat \<Rightarrow> 'f fdesc \<Rightarrow> 'f fd_vector \<Rightarrow> 'w fd_heap \<Rightarrow> ('f fd_vector \<times> 'w fd_heap) res" where
  "fv_put E i tmp v h =
    check (i < length (fv_data v)) OutOfBounds
      (bnd (fd_assign E (fv_data v ! i) tmp h) (\<lambda>(d, h).
       bnd (fd_drop E tmp h) (\<lambda>h. Inr (v\<lparr>fv_data := (fv_data v)[i := d]\<rparr>, h))))"

section \<open>Counting owners\<close>

text \<open>
  \<open>M\<close> is the multiset of the counters that descriptors refer to. The counters that exist are
  those of \<open>M\<close>, with at least their multiplicity; \<open>counts M\<close> says that they are exact.
\<close>

definition counts :: "nat multiset \<Rightarrow> 'w fd_heap \<Rightarrow> bool" where
  "counts M h \<longleftrightarrow> (\<forall>c. fh_cnt h c = (if c \<in># M then Some (count M c) else None)) \<and> (\<forall>c\<in>#M. c < fh_next h)"

definition owner_of :: "'f fdesc \<Rightarrow> nat multiset" where
  "owner_of d = (case fd_owners d of None \<Rightarrow> {#} | Some c \<Rightarrow> {#c#})"

definition owners_of :: "'f fdesc list \<Rightarrow> nat multiset" where
  "owners_of ds = sum_list (map owner_of ds)"

lemma owners_of_simps [simp]:
  "owners_of [] = {#}" "owners_of (d # ds) = owner_of d + owners_of ds" "owners_of (ds @ es) = owners_of ds + owners_of es"
  "owner_of fd_empty = {#}"
  by (simp_all add: owners_of_def owner_of_def fd_empty_def)

lemma owners_of_replicate [simp]: "owners_of (replicate n fd_empty) = {#}"
  by (induction n) simp_all

lemma counts_world [simp]: "counts M (h\<lparr>fh_world := w\<rparr>) = counts M h"
  by (simp add: counts_def)

lemma new_owners_counts:
  assumes "counts M h" "new_owners h = (c, h')"
  shows "counts (add_mset c M) h' \<and> fh_world h' = fh_world h \<and> c \<notin># M"
  using assms by (fastforce simp: counts_def new_owners_def not_in_iff)

lemma fd_copy_counts:
  assumes "counts M h" "owner_of d \<subseteq># M"
  shows "\<exists>d' h'. fd_copy d h = Inr (d', h') \<and> counts (M + owner_of d) h' \<and> owner_of d' = owner_of d \<and>
    fh_world h' = fh_world h \<and> fd_type d' = fd_type d \<and> fd_str d' = fd_str d"
  using assms by (auto simp: fd_copy_def owner_of_def counts_def Let_def split: option.splits)

lemma fd_drop_counts:
  assumes "counts M h" "owner_of d \<subseteq># M" "fd_drop E d h = Inr h'"
  shows "counts (M - owner_of d) h'"
proof (cases "fd_owners d")
  case None
  then show ?thesis using assms by (simp add: fd_drop_def owner_of_def)
next
  case (Some c)
  then have c: "c \<in># M" "fh_cnt h c = Some (count M c)" using assms by (auto simp: owner_of_def counts_def)
  show ?thesis
  proof (cases "count M c = 1")
    case True
    then have "fd_free E d (h\<lparr>fh_cnt := (fh_cnt h)(c \<mapsto> 0)\<rparr>) = Inr h'" using assms(3) Some c by (simp add: fd_drop_def)
    then have cn: "fh_cnt h' = (fh_cnt h)(c := None)" "fh_next h' = fh_next h"
      using Some by (auto simp: fd_free_def fd_delStr_def Let_def res_simps split: FDtype.splits option.splits prod.splits)
    have "c \<notin># M - {#c#}" using True by (simp add: not_in_iff)
    then show ?thesis using assms(1) Some cn unfolding counts_def owner_of_def
      by (auto simp: in_diff_count dest: in_diffD)
  next
    case False
    with c(1) have "1 < count M c" using not_in_iff[of c M] by fastforce
    moreover have "h' = h\<lparr>fh_cnt := (fh_cnt h)(c \<mapsto> count M c - 1)\<rparr>"
      using assms(3) Some c calculation by (simp add: fd_drop_def Let_def)
    ultimately show ?thesis using assms(1) Some unfolding counts_def owner_of_def
      by (auto simp: in_diff_count dest: in_diffD)
  qed
qed

text \<open>The fields of a descriptor agree with its type.\<close>

definition fd_wf :: "'f fdesc \<Rightarrow> bool" where
  "fd_wf d \<longleftrightarrow> (fd_owners d = None \<longleftrightarrow> fd_type d = EMPTY) \<and>
     (fd_hasStream d \<longrightarrow> fd_str d \<noteq> None) \<and> (fd_isWin d \<longrightarrow> fd_win d \<noteq> None \<and> (\<exists>s. fd_str d = Some (Some s))) \<and>
     (fd_isDir d \<longrightarrow> fd_dir d \<noteq> None \<and> fd_dopen d \<noteq> None)"

named_theorems fd_defs \<open>the constructors and the predicates on types\<close>

lemmas [fd_defs] = fd_empty_def fd_stream_def fd_directory_def fd_gwindow_def fd_twindow_def new_owners_def
  fd_hasStream_def fd_isWin_def fd_isDir_def fd_isEmpty_def

lemma fd_wf_empty [simp]: "fd_wf fd_empty"
  by (simp add: fd_wf_def fd_defs)

lemma fd_wf_constructors:
  "fd_wf (fst (fd_stream s h))" "fd_wf (fst (fd_directory E dir h))" "fd_wf (fst (fd_gwindow E win h))" "fd_wf (fst (fd_twindow win h))"
  by (simp_all add: fd_wf_def fd_defs split: prod.splits)

lemma fd_copy_fields:
  assumes "fd_copy d h = Inr (d', h')"
  shows "fd_owners d' = fd_owners d \<and> fd_str d' = fd_str d \<and> fd_type d' = fd_type d \<and> fd_mask d' = fd_mask d \<and>
    (fd_type d = DIRECTORY \<longrightarrow> fd_dir d' = fd_dir d \<and> fd_dopen d' = fd_dopen d) \<and>
    (fd_type d = GWINDOW \<or> fd_type d = TWINDOW \<longrightarrow> fd_win d' = fd_win d)"
proof (cases "fd_owners d")
  case None
  then show ?thesis using assms by (simp add: fd_copy_def Let_def) (elim conjE, hypsubst_thin, simp)
next
  case (Some c)
  then show ?thesis using assms
    by (cases "fh_cnt h c"; simp add: fd_copy_def Let_def) (elim conjE, hypsubst_thin, simp)
qed

lemma fd_wf_copy: "fd_copy d h = Inr (d', h') \<Longrightarrow> fd_wf d \<Longrightarrow> fd_wf d'"
  by (drule fd_copy_fields, cases "fd_type d") (simp_all add: fd_wf_def fd_hasStream_def fd_isWin_def fd_isDir_def)

lemma mset_split:
  assumes "(A :: 'a multiset) + B \<subseteq># M"
  shows "A \<subseteq># M" "B \<subseteq># M" "B \<subseteq># M - A"
proof -
  have c: "count A x + count B x \<le> count M x" for x using assms by (simp add: subseteq_mset_def)
  have "count A x \<le> count M x \<and> count B x \<le> count M x \<and> count B x \<le> count M x - count A x" for x
    using c[of x] by linarith
  then show "A \<subseteq># M" "B \<subseteq># M" "B \<subseteq># M - A" by (simp_all add: subseteq_mset_def)
qed

text \<open>A fault that comes from deleting an object.\<close>

definition del_fault :: "('f, 'w, 'z) fd_ops_scheme \<Rightarrow> fault \<Rightarrow> bool" where
  "del_fault E e \<longleftrightarrow> (\<exists>s w. o_delete E s w = Inl e \<or> o_delWin E s w = Inl e)"

text \<open>\<open>yields E P m\<close>: \<open>m\<close> returns with \<open>P\<close>, or the deletion of an object failed.\<close>

definition yields :: "('f, 'w, 'z) fd_ops_scheme \<Rightarrow> ('a \<Rightarrow> bool) \<Rightarrow> 'a res \<Rightarrow> bool" where
  "yields E P m \<longleftrightarrow> (case m of Inl e \<Rightarrow> del_fault E e | Inr x \<Rightarrow> P x)"

lemma yields_simps [simp]: "yields E P (Inr x) = P x" "yields E P (Inl e) = del_fault E e"
  by (simp_all add: yields_def)

lemma yields_bnd: "yields E P m \<Longrightarrow> (\<And>x. P x \<Longrightarrow> yields E Q (f x)) \<Longrightarrow> yields E Q (bnd m f)"
  by (cases m) auto

lemma yields_mono: "yields E P m \<Longrightarrow> (\<And>x. P x \<Longrightarrow> Q x) \<Longrightarrow> yields E Q m"
  by (cases m) auto

lemma fd_delStr_yields: "yields E (\<lambda>_. True) (fd_delStr E d h)"
proof (cases "fd_str d")
  case (Some p)
  then show ?thesis
  proof (cases p)
    case (Some s)
    then show ?thesis using \<open>fd_str d = Some p\<close>
      by (cases "o_delete E s (fh_world h)") (auto simp: fd_delStr_def del_fault_def)
  qed (simp add: fd_delStr_def)
qed (simp add: fd_delStr_def)

lemma fd_drop_yields:
  assumes "counts M h" "owner_of d \<subseteq># M" "fd_wf d"
  shows "yields E (counts (M - owner_of d)) (fd_drop E d h)"
proof -
  have "yields E (\<lambda>_. True) (fd_drop E d h)"
  proof (cases "fd_owners d")
    case (Some c)
    then have c: "fh_cnt h c = Some (count M c)" using assms(1,2) by (auto simp: owner_of_def counts_def)
    have win: "yields E (\<lambda>_. True) (case fd_win d of None \<Rightarrow> Inr h
        | Some win \<Rightarrow> bnd (o_delWin E win (fh_world h)) (\<lambda>w. Inr (h\<lparr>fh_world := w\<rparr>)))" for h
      by (cases "fd_win d"; simp; cases "o_delWin E (the (fd_win d)) (fh_world h)") (auto simp: del_fault_def)
    have "fd_type d \<noteq> EMPTY" using Some assms(3) by (auto simp: fd_wf_def)
    then show ?thesis using assms(3) Some c fd_delStr_yields[of E d] yields_bnd[OF fd_delStr_yields win]
      by (cases "fd_type d") (auto simp: fd_drop_def fd_free_def fd_wf_def fd_isDir_def Let_def)
  qed (simp add: fd_drop_def)
  then show ?thesis using fd_drop_counts[OF assms(1,2), of E] by (cases "fd_drop E d h") auto
qed

lemma fd_assign_yields:
  fixes E :: "('f, 'w, 'z) fd_ops_scheme" and h :: "'w fd_heap"
  assumes "counts M h" "owner_of this + owner_of d \<subseteq># M" "fd_wf this" "fd_wf d"
  shows "yields E (\<lambda>(d', h'). counts (M - owner_of this + owner_of d) h' \<and> owner_of d' = owner_of d \<and> fd_wf d') (fd_assign E this d h)"
proof -
  note own = mset_split(1)[OF assms(2)] and d = mset_split(3)[OF assms(2)]
  show ?thesis unfolding fd_assign_def
  proof (rule yields_bnd[OF fd_drop_yields[OF assms(1) own assms(3)]])
    fix h' :: "'w fd_heap" assume "counts (M - owner_of this) h'"
    from fd_copy_counts[OF this d] show "yields E (\<lambda>(d', h'). counts (M - owner_of this + owner_of d) h' \<and> owner_of d' = owner_of d \<and> fd_wf d') (fd_copy d h')"
      using fd_wf_copy[of d h'] assms(4) by fastforce
  qed
qed

lemma fd_copies_counts:
  assumes "counts M h" "owners_of ds \<subseteq># M" "\<forall>d\<in>set ds. fd_wf d"
  shows "\<exists>ds' h'. fd_copies ds h = Inr (ds', h') \<and> counts (M + owners_of ds) h' \<and> owners_of ds' = owners_of ds \<and>
    length ds' = length ds \<and> (\<forall>d\<in>set ds'. fd_wf d) \<and> fh_world h' = fh_world h"
  using assms
proof (induction ds arbitrary: h M)
  case Nil
  then show ?case by simp
next
  case (Cons d ds)
  have sub: "owner_of d \<subseteq># M" "owners_of ds \<subseteq># M"
    using mset_split[of "owner_of d" "owners_of ds" M] Cons.prems(2) by simp_all
  from fd_copy_counts[OF Cons.prems(1) sub(1)] obtain d' h1 where d': "fd_copy d h = Inr (d', h1)"
    "counts (M + owner_of d) h1" "owner_of d' = owner_of d" "fh_world h1 = fh_world h" by blast
  have le: "owners_of ds \<subseteq># M + owner_of d" using sub(2) by (simp add: subset_mset.add_increasing2)
  have wf: "\<forall>d\<in>set ds. fd_wf d" "fd_wf d" using Cons.prems(3) by simp_all
  from Cons.IH[OF d'(2) le wf(1)] obtain ds' h2 where
    "fd_copies ds h1 = Inr (ds', h2)" "counts (M + owner_of d + owners_of ds) h2" "owners_of ds' = owners_of ds"
    "length ds' = length ds" "\<forall>d\<in>set ds'. fd_wf d" "fh_world h2 = fh_world h1" by blast
  then show ?case using d' fd_wf_copy[OF d'(1) wf(2)] by (simp add: add.assoc)
qed

lemma fd_drops_yields:
  fixes E :: "('f, 'w, 'z) fd_ops_scheme" and h :: "'w fd_heap"
  assumes "counts M h" "owners_of ds \<subseteq># M" "\<forall>d\<in>set ds. fd_wf d"
  shows "yields E (counts (M - owners_of ds)) (fd_drops E ds h)"
  using assms
proof (induction ds arbitrary: h M)
  case Nil
  then show ?case by simp
next
  case (Cons d ds)
  have sub: "owner_of d \<subseteq># M" and rest: "owners_of ds \<subseteq># M - owner_of d"
    using mset_split[of "owner_of d" "owners_of ds" M] Cons.prems(2) by simp_all
  show ?case unfolding fd_drops.simps
  proof (rule yields_bnd[OF fd_drop_yields[OF Cons.prems(1) sub]])
    show "fd_wf d" using Cons.prems(3) by simp
    fix h' :: "'w fd_heap" assume "counts (M - owner_of d) h'"
    from Cons.IH[OF this rest] Cons.prems(3) show "yields E (counts (M - owners_of (d # ds))) (fd_drops E ds h')"
      by (simp add: diff_diff_add_mset)
  qed
qed

text \<open>\<open>fits v M\<close>: the descriptors of a vector are well formed and their counters are among \<open>M\<close>.\<close>

definition fits :: "'f fd_vector \<Rightarrow> nat multiset \<Rightarrow> bool" where
  "fits v M \<longleftrightarrow> owners_of (fv_data v) \<subseteq># M \<and> (\<forall>d\<in>set (fv_data v). fd_wf d)"

lemma owners_of_nth: "i < length ds \<Longrightarrow> owner_of (ds ! i) \<subseteq># owners_of ds"
proof (induction ds arbitrary: i)
  case (Cons d ds)
  then show ?case by (cases i) (simp_all add: subset_mset.add_increasing)
qed simp

lemma owners_of_update:
  "i < length ds \<Longrightarrow> owners_of (ds[i := d]) + owner_of (ds ! i) = owners_of ds + owner_of d"
  by (induction ds arbitrary: i) (auto simp: nth_Cons' ac_simps split: nat.split)

text \<open>Growing: the old elements keep their descriptors, and when the storage moves every counter
  of the vector goes up by one for a copy that is never destroyed.\<close>

lemma fv_grow_counts:
  fixes h :: "'w fd_heap" and v :: "'f fd_vector"
  assumes "counts M h" "fits v M" "length (fv_data v) < n"
  shows "\<exists>v' h' L. fv_resize E n v h = Inr (v', h') \<and> counts (M + L) h' \<and> fh_world h' = fh_world h \<and>
    (L = {#} \<or> L = owners_of (fv_data v)) \<and> (n \<le> fv_cap v \<longrightarrow> L = {#}) \<and>
    (fv_cap v < n \<longrightarrow> L = owners_of (fv_data v)) \<and>
    owners_of (fv_data v') = owners_of (fv_data v) \<and> fits v' M \<and> length (fv_data v') = n"
proof (cases "fv_data v \<noteq> [] \<and> n \<le> fv_cap v")
  case True
  then show ?thesis using assms
    by (intro exI[of _ "v\<lparr>fv_data := fv_data v @ replicate (n - length (fv_data v)) fd_empty\<rparr>"] exI[of _ h] exI[of _ "{#}"])
      (auto simp: fv_resize_def fv_reserve_def fits_def)
next
  case False
  from fd_copies_counts[OF assms(1), of "fv_data v"] assms(2) obtain ds h' where
    c: "fd_copies (fv_data v) h = Inr (ds, h')" "counts (M + owners_of (fv_data v)) h'" "owners_of ds = owners_of (fv_data v)"
    "length ds = length (fv_data v)" "\<forall>d\<in>set ds. fd_wf d" "fh_world h' = fh_world h" unfolding fits_def by blast
  then show ?thesis using False assms
    by (intro exI[of _ "\<lparr>fv_data = ds @ replicate (n - length ds) fd_empty, fv_cap = strategy n\<rparr>"] exI[of _ h']
        exI[of _ "owners_of (fv_data v)"])
      (auto simp: fv_resize_def fv_reserve_def fits_def)
qed

lemma fv_copy_counts:
  fixes h :: "'w fd_heap" and v :: "'f fd_vector"
  assumes "counts M h" "fits v M"
  shows "\<exists>v' h'. fv_copy v h = Inr (v', h') \<and> counts (M + owners_of (fv_data v)) h' \<and> fh_world h' = fh_world h \<and>
    owners_of (fv_data v') = owners_of (fv_data v) \<and> fits v' M \<and> length (fv_data v') = length (fv_data v)"
proof -
  from fd_copies_counts[OF assms(1), of "fv_data v"] assms(2) obtain ds h' where
    "fd_copies (fv_data v) h = Inr (ds, h')" "counts (M + owners_of (fv_data v)) h'" "owners_of ds = owners_of (fv_data v)"
    "length ds = length (fv_data v)" "\<forall>d\<in>set ds. fd_wf d" "fh_world h' = fh_world h" unfolding fits_def by blast
  then show ?thesis using assms(2) by (auto simp: fv_copy_def fits_def)
qed

lemma fv_destroy_yields:
  fixes E :: "('f, 'w, 'z) fd_ops_scheme" and h :: "'w fd_heap"
  assumes "counts M h" "fits v M"
  shows "yields E (counts (M - owners_of (fv_data v))) (fv_destroy E v h)"
  using fd_drops_yields[OF assms(1), of "fv_data v" E] assms(2) unfolding fits_def fv_destroy_def by blast

lemma fv_put_yields:
  fixes E :: "('f, 'w, 'z) fd_ops_scheme" and h :: "'w fd_heap"
  assumes "counts (M + owner_of tmp) h" "fits v M" "fd_wf tmp" "i < length (fv_data v)"
  shows "yields E (\<lambda>(v', h'). counts (M - owner_of (fv_data v ! i) + owner_of tmp) h' \<and> fits v' (M - owner_of (fv_data v ! i) + owner_of tmp) \<and>
      owners_of (fv_data v') + owner_of (fv_data v ! i) = owners_of (fv_data v) + owner_of tmp \<and> length (fv_data v') = length (fv_data v))
    (fv_put E i tmp v h)"
proof -
  let ?o = "fv_data v ! i" and ?t = "owner_of tmp"
  have sub: "owner_of ?o \<subseteq># M"
    using owners_of_nth[OF assms(4)] assms(2) unfolding fits_def by (meson subset_mset.order_trans)
  then have "owner_of ?o + ?t \<subseteq># M + ?t" by simp
  moreover have wo: "fd_wf ?o" using assms(2,4) unfolding fits_def by simp
  ultimately have a: "yields E (\<lambda>(d', h'). counts (M + ?t - owner_of ?o + ?t) h' \<and> owner_of d' = ?t \<and> fd_wf d') (fd_assign E ?o tmp h)"
    using fd_assign_yields[OF assms(1), of ?o tmp E] assms(3) by blast
  have eq: "M + ?t - owner_of ?o = M - owner_of ?o + ?t" using sub by (simp add: subset_mset.add_diff_assoc2)
  have *: "yields E (\<lambda>(v', h'). counts (M - owner_of ?o + ?t) h' \<and> fits v' (M - owner_of ?o + ?t) \<and>
      owners_of (fv_data v') + owner_of ?o = owners_of (fv_data v) + ?t \<and> length (fv_data v') = length (fv_data v))
    (bnd (fd_drop E tmp h') (\<lambda>h. Inr (v\<lparr>fv_data := (fv_data v)[i := d']\<rparr>, h)))"
    if "counts (M + ?t - owner_of ?o + ?t) h'" "owner_of d' = ?t" "fd_wf d'" for d' and h' :: "'w fd_heap"
  proof (rule yields_bnd[OF fd_drop_yields[OF that(1) _ assms(3)]])
    show "?t \<subseteq># M + ?t - owner_of ?o + ?t" by simp
    fix h2 :: "'w fd_heap" assume h2: "counts (M + ?t - owner_of ?o + ?t - ?t) h2"
    have up: "owners_of ((fv_data v)[i := d']) + owner_of ?o = owners_of (fv_data v) + ?t"
      using owners_of_update[OF assms(4), of d'] that(2) by simp
    have "owners_of ((fv_data v)[i := d']) + owner_of ?o \<subseteq># M - owner_of ?o + ?t + owner_of ?o"
    proof -
      have "M - owner_of ?o + ?t + owner_of ?o = M + ?t" using subset_mset.diff_add[OF sub] by (metis add.assoc add.commute)
      then show ?thesis unfolding up using assms(2) by (simp add: fits_def)
    qed
    then have "fits (v\<lparr>fv_data := (fv_data v)[i := d']\<rparr>) (M - owner_of ?o + ?t)"
      using assms(2) that(3) unfolding fits_def by (auto dest: set_update_subset_insert[THEN subsetD])
    then show "yields E (\<lambda>(v', h'). counts (M - owner_of ?o + ?t) h' \<and> fits v' (M - owner_of ?o + ?t) \<and>
      owners_of (fv_data v') + owner_of ?o = owners_of (fv_data v) + ?t \<and> length (fv_data v') = length (fv_data v))
      (Inr (v\<lparr>fv_data := (fv_data v)[i := d']\<rparr>, h2))"
      using h2 up eq by simp
  qed
  show ?thesis unfolding fv_put_def
    using assms(4) by (auto intro!: yields_bnd[OF a] *)
qed

end
