(* ===== verification/Syscalls.thy ===== *)
theory Syscalls
  imports FileDesc ProcLife VFS Windows RamFS
begin

text \<open>
  The system calls (\<open>src/src/User/Syscalls.cpp\<close>, \<open>SyscallUtils.cpp\<close>, \<open>Syscall.cpp\<close>). The state
  \<open>sys\<close> is what the processes of the scheduler own: a vector of file descriptors, a working
  directory and a user memory for every process, with the counters of the descriptors and the rest
  of the kernel \<open>'w\<close>. The virtual functions of streams, files and directories are the record
  \<open>sys_ops\<close>; the windows are the state \<open>gui\<close> inside \<open>'w\<close>. A user memory maps the addresses
  \<open>UserMemory::in\<close> accepts to their bytes. A handler returns \<open>None\<close> where the C code would loop
  forever (looking up a path, or a string without end).
\<close>

section \<open>State\<close>

type_synonym umem = "u64 \<Rightarrow> u8 option"

record ('f, 'w) sys =
  sy_heap :: "'w fd_heap"
  sy_fds :: "u16 \<Rightarrow> 'f fd_vector"
  sy_wd :: "u16 \<Rightarrow> 'f option"
  sy_mem :: "u16 \<Rightarrow> umem"
  sy_fault :: "fault option"

text \<open>\<open>o_read\<close> gives the result and the bytes put into the buffer; \<open>o_dread\<close> the 260 bytes of the
  entry, or nothing at the end; \<open>o_woken\<close> the streams whose \<open>free()\<close> was called; \<open>o_stat\<close> the device and the mode of a file; \<open>o_pad\<close> the bytes
  that follow an event of seven bytes in memory.\<close>

record ('f, 'w) sys_ops = "('f, 'w) fd_ops" +
  o_read :: "nat \<Rightarrow> u64 \<Rightarrow> 'w \<Rightarrow> (u64 \<times> bytes \<times> 'w) res"
  o_eof :: "nat \<Rightarrow> 'w \<Rightarrow> bool"
  o_write :: "nat \<Rightarrow> bytes \<Rightarrow> 'w \<Rightarrow> (u64 \<times> 'w) res"
  o_tell :: "nat \<Rightarrow> 'w \<Rightarrow> u64"
  o_end :: "nat \<Rightarrow> 'w \<Rightarrow> u64"
  o_seek :: "nat \<Rightarrow> u64 \<Rightarrow> seek_mod \<Rightarrow> 'w \<Rightarrow> u64 \<times> 'w"
  o_bytes :: "'f \<Rightarrow> 'w \<Rightarrow> nat \<times> 'w"
  o_char :: "'f \<Rightarrow> 'w \<Rightarrow> nat \<times> 'w"
  o_pipe :: "'w \<Rightarrow> nat \<times> 'w"
  o_pipeOut :: "nat \<Rightarrow> 'w \<Rightarrow> nat \<times> 'w"
  o_pipeIn :: "nat \<Rightarrow> 'w \<Rightarrow> nat \<times> 'w"
  o_root :: "'w \<Rightarrow> 'f"
  o_type :: "'f \<Rightarrow> 'w \<Rightarrow> FileType"
  o_get :: "'f \<Rightarrow> bytes \<Rightarrow> 'w \<Rightarrow> 'f option option"
  o_create :: "bytes \<Rightarrow> u16 \<Rightarrow> u16 \<Rightarrow> u16 \<Rightarrow> 'f \<Rightarrow> 'w \<Rightarrow> ('w \<times> 'f) res"
  o_addEntry :: "bytes \<Rightarrow> 'f \<Rightarrow> 'f \<Rightarrow> 'w \<Rightarrow> 'w res"
  o_removeEntry :: "bytes \<Rightarrow> 'f \<Rightarrow> 'w \<Rightarrow> 'w res"
  o_removeDirectory :: "bytes \<Rightarrow> 'f \<Rightarrow> 'w \<Rightarrow> 'w res"
  o_isEmpty :: "'f \<Rightarrow> 'w \<Rightarrow> bool"
  o_stat :: "'f \<Rightarrow> 'w \<Rightarrow> u32 \<times> u16"
  o_dread :: "'f \<Rightarrow> nat \<Rightarrow> 'w \<Rightarrow> (bytes option \<times> 'w) res"
  o_brk :: "u16 \<Rightarrow> u64 \<Rightarrow> umem \<times> 'w \<Rightarrow> u64 \<times> umem \<times> 'w"
  o_gui :: "'w \<Rightarrow> gui"
  o_put_gui :: "gui \<Rightarrow> 'w \<Rightarrow> 'w"
  o_fresh :: "'w \<Rightarrow> nat \<times> 'w"
  o_woken :: "'w \<Rightarrow> nat list \<times> 'w"
  o_pad :: bytes

definition EBADF :: u64 where "EBADF = 1"
definition EACCESS :: u64 where "EACCESS = 4"
definition EINVAL :: u64 where "EINVAL = 8"
definition ENOTDIR :: u64 where "ENOTDIR = 9"
definition EEXIST :: u64 where "EEXIST = 10"
definition EXDEV :: u64 where "EXDEV = 11"

definition O_RDONLY :: u64 where "O_RDONLY = 1"
definition O_WRONLY :: u64 where "O_WRONLY = 2"
definition O_CREAT :: u64 where "O_CREAT = 4"

text \<open>The world the streams and files live in.\<close>

definition world :: "('f, 'w) sys \<Rightarrow> 'w" where "world s = fh_world (sy_heap s)"

definition set_world :: "'w \<Rightarrow> ('f, 'w) sys \<Rightarrow> ('f, 'w) sys" where
  "set_world w s = s\<lparr>sy_heap := (sy_heap s)\<lparr>fh_world := w\<rparr>\<rparr>"

definition fds :: "u16 \<Rightarrow> ('f, 'w) sys \<Rightarrow> 'f fdesc list" where
  "fds pid s = fv_data (sy_fds s pid)"

section \<open>User memory\<close>

definition um_in :: "u16 \<Rightarrow> u64 \<Rightarrow> ('f, 'w) sys \<Rightarrow> bool" where
  "um_in pid a s \<longleftrightarrow> sy_mem s pid a \<noteq> None"

fun mem_get :: "umem \<Rightarrow> u64 \<Rightarrow> nat \<Rightarrow> bytes res" where
  "mem_get m a 0 = Inr []"
| "mem_get m a (Suc n) = (case m a of None \<Rightarrow> Inl NullAccess | Some b \<Rightarrow> bnd (mem_get m (a + 1) n) (\<lambda>bs. Inr (b # bs)))"

fun mem_put :: "u64 \<Rightarrow> bytes \<Rightarrow> umem \<Rightarrow> umem res" where
  "mem_put a [] m = Inr m"
| "mem_put a (b # bs) m = (if m a = None then Inl NullAccess else mem_put (a + 1) bs (m(a \<mapsto> b)))"

definition um_put :: "u16 \<Rightarrow> u64 \<Rightarrow> bytes \<Rightarrow> ('f, 'w) sys \<Rightarrow> ('f, 'w) sys res" where
  "um_put pid a bs s = bnd (mem_put a bs (sy_mem s pid)) (\<lambda>m. Inr (s\<lparr>sy_mem := (sy_mem s)(pid := m)\<rparr>))"

text \<open>The C string at an address.\<close>

partial_function (option) c_string :: "umem \<Rightarrow> u64 \<Rightarrow> string res option" where
  "c_string m a =
    (case m a of
       None \<Rightarrow> Some (Inl NullAccess)
     | Some b \<Rightarrow> if b = 0 then Some (Inr [])
         else Option.bind (c_string m (a + 1)) (\<lambda>r. Some (bnd r (\<lambda>cs. Inr (char_of (unat b) # cs)))))"

section \<open>Paths\<close>

text \<open>\<open>splitFileName\<close>: the loop downwards; the name is the C string behind the slash.\<close>

fun split_at_slash :: "string \<Rightarrow> nat \<Rightarrow> string \<times> string" where
  "split_at_slash s 0 = ([], s)"
| "split_at_slash s (Suc i) =
    (if s ! i = CHR 0x2F then (take i s, takeWhile (\<lambda>c. c \<noteq> CHR 0x00) (drop (i + 1) s)) else split_at_slash s i)"

definition splitFileName :: "string \<Rightarrow> string \<times> string" where
  "splitFileName s = split_at_slash s (length s)"

definition to_name :: "string \<Rightarrow> bytes" where
  "to_name s = map of_char s"

definition dir_resolve :: "('f, 'w, 'z) sys_ops_scheme \<Rightarrow> 'f \<Rightarrow> string \<Rightarrow> 'w \<Rightarrow> 'f option res option" where
  "dir_resolve E d path w =
    map_option Inr (VFS.resolvePath (\<lambda>d n. o_get E d n w) (\<lambda>d. o_type E d w = Directory) d path)"

definition sys_resolve :: "('f, 'w, 'z) sys_ops_scheme \<Rightarrow> 'f option \<Rightarrow> string \<Rightarrow> 'w \<Rightarrow> 'f option res option" where
  "sys_resolve E wd path w =
    (if path \<noteq> [] \<and> hd path = CHR 0x2F then dir_resolve E (o_root E w) (tl path) w
     else (case wd of None \<Rightarrow> Some (Inl NullAccess) | Some d \<Rightarrow> dir_resolve E d path w))"

definition sys_get :: "('f, 'w, 'z) sys_ops_scheme \<Rightarrow> 'f \<Rightarrow> string \<Rightarrow> 'w \<Rightarrow> 'f option res option" where
  "sys_get E d name w = map_option Inr (o_get E d (to_name name) w)"

definition file2Stream :: "('f, 'w, 'z) sys_ops_scheme \<Rightarrow> 'f \<Rightarrow> 'w \<Rightarrow> nat option \<times> 'w" where
  "file2Stream E f w =
    (case o_type E f w of
       Directory \<Rightarrow> (None, w)
     | RegularFile \<Rightarrow> map_prod Some id (o_bytes E f w)
     | BlockDevice \<Rightarrow> map_prod Some id (o_bytes E f w)
     | CharacterDevice \<Rightarrow> map_prod Some id (o_char E f w))"

section \<open>The table of descriptors\<close>

definition fds_resize :: "('f, 'w, 'z) sys_ops_scheme \<Rightarrow> u16 \<Rightarrow> nat \<Rightarrow> ('f, 'w) sys \<Rightarrow> ('f, 'w) sys res" where
  "fds_resize E pid n s =
    bnd (fv_resize E n (sy_fds s pid) (sy_heap s)) (\<lambda>(v, h). Inr (s\<lparr>sy_fds := (sy_fds s)(pid := v), sy_heap := h\<rparr>))"

definition fds_put :: "('f, 'w, 'z) sys_ops_scheme \<Rightarrow> u16 \<Rightarrow> nat \<Rightarrow> 'f fdesc \<Rightarrow> ('f, 'w) sys \<Rightarrow> ('f, 'w) sys res" where
  "fds_put E pid i tmp s =
    bnd (fv_put E i tmp (sy_fds s pid) (sy_heap s)) (\<lambda>(v, h). Inr (s\<lparr>sy_fds := (sy_fds s)(pid := v), sy_heap := h\<rparr>))"

definition getFreeFD :: "u16 \<Rightarrow> ('f, 'w) sys \<Rightarrow> nat" where
  "getFreeFD pid s = length (fds pid s)"

text \<open>\<open>if(_fds.size() <= fd) _fds.resize(fd + 1)\<close>.\<close>

definition fds_room :: "('f, 'w, 'z) sys_ops_scheme \<Rightarrow> u16 \<Rightarrow> nat \<Rightarrow> ('f, 'w) sys \<Rightarrow> ('f, 'w) sys res" where
  "fds_room E pid i s = (if length (fds pid s) \<le> i then fds_resize E pid (i + 1) s else Inr s)"

text \<open>\<open>_fds[i] = FileDescriptor(...)\<close>.\<close>

definition fds_set :: "('f, 'w, 'z) sys_ops_scheme \<Rightarrow> u16 \<Rightarrow> nat \<Rightarrow> ('w fd_heap \<Rightarrow> 'f fdesc \<times> 'w fd_heap) \<Rightarrow> ('f, 'w) sys \<Rightarrow> ('f, 'w) sys res" where
  "fds_set E pid i mk s = (case mk (sy_heap s) of (tmp, h) \<Rightarrow> fds_put E pid i tmp (s\<lparr>sy_heap := h\<rparr>))"

definition fds_mask :: "u16 \<Rightarrow> nat \<Rightarrow> u64 \<Rightarrow> ('f, 'w) sys \<Rightarrow> ('f, 'w) sys" where
  "fds_mask pid i m s =
    s\<lparr>sy_fds := (sy_fds s)(pid := (sy_fds s pid)\<lparr>fv_data := (fds pid s)[i := (fds pid s ! i)\<lparr>fd_mask := m\<rparr>]\<rparr>)\<rparr>"

text \<open>A descriptor of the process, or \<open>EBADF\<close>.\<close>

definition with_fd :: "u16 \<Rightarrow> u64 \<Rightarrow> ('f, 'w) sys \<Rightarrow> ('f fdesc \<Rightarrow> (u64 \<times> ('f, 'w) sys) res) \<Rightarrow> (u64 \<times> ('f, 'w) sys) res" where
  "with_fd pid fd s f = (if length (fds pid s) \<le> unat fd then Inr (- EBADF, s) else f (fds pid s ! unat fd))"

section \<open>Streams\<close>

text \<open>\<open>nbread\<close>: its parameter \<open>fd\<close> has 32 bits.\<close>

definition nbread :: "('f, 'w, 'z) sys_ops_scheme \<Rightarrow> u16 \<Rightarrow> u32 \<Rightarrow> u64 \<Rightarrow> u64 \<Rightarrow> ('f, 'w) sys \<Rightarrow> (u64 \<times> ('f, 'w) sys) res" where
  "nbread E pid fd buf cnt s =
    (if \<not> um_in pid buf s then Inr (- EFAULT, s)
     else if \<not> um_in pid (buf + cnt) s then Inr (- EFAULT, s)
     else with_fd pid (ucast fd) s (\<lambda>desc.
       if \<not> fd_hasStream desc then Inr (- EBADF, s)
       else bnd (fd_check E desc (ucast READABLE) (world s)) (\<lambda>ok.
         if \<not> ok then Inr (- EBADF, s)
         else bnd (fd_arrow desc) (\<lambda>p.
           bnd (o_read E p cnt (world s)) (\<lambda>(r, bs, w).
           bnd (um_put pid buf bs (set_world w s)) (\<lambda>s.
             if r = 0 then
               (if o_eof E p (world s) then Inr (0, s)
                else bnd (fd_check E desc (ucast WAITABLE) (world s)) (\<lambda>ok. assertk ok (Inr (- EBLOCK, s))))
             else Inr (r, s)))))))"

definition swrite :: "('f, 'w, 'z) sys_ops_scheme \<Rightarrow> u16 \<Rightarrow> u32 \<Rightarrow> u64 \<Rightarrow> u64 \<Rightarrow> ('f, 'w) sys \<Rightarrow> (u64 \<times> ('f, 'w) sys) res" where
  "swrite E pid fd buf cnt s =
    (if \<not> um_in pid buf s then Inr (- EFAULT, s)
     else if \<not> um_in pid (buf + cnt) s then Inr (- EFAULT, s)
     else with_fd pid (ucast fd) s (\<lambda>desc.
       if \<not> fd_hasStream desc then Inr (- EBADF, s)
       else bnd (fd_check E desc (ucast WRITABLE) (world s)) (\<lambda>ok.
         if \<not> ok then Inr (- EBADF, s)
         else bnd (fd_arrow desc) (\<lambda>p.
           bnd (mem_get (sy_mem s pid) buf (unat cnt)) (\<lambda>bs.
           bnd (o_write E p bs (world s)) (\<lambda>(r, w). Inr (r, set_world w s)))))))"

definition sysseek :: "('f, 'w, 'z) sys_ops_scheme \<Rightarrow> u16 \<Rightarrow> u64 \<Rightarrow> u64 \<Rightarrow> u64 \<Rightarrow> ('f, 'w) sys \<Rightarrow> (u64 \<times> ('f, 'w) sys) res" where
  "sysseek E pid fd offset mode s =
    with_fd pid fd s (\<lambda>desc.
      if \<not> fd_hasStream desc then Inr (- EBADF, s)
      else bnd (fd_check E desc (ucast SEEKABLE) (world s)) (\<lambda>ok.
        if \<not> ok then Inr (- EBADF, s)
        else bnd (fd_arrow desc) (\<lambda>p.
          let sz = o_end E p (world s); cur = o_tell E p (world s) in
          if 2 < mode then Inr (- EINVAL, s)
          else let origin = (if mode = 0 then 0 else if mode = 1 then cur else sz) + offset in
            if origin <s 0 then Inr (- EINVAL, s)
            else bnd (if sz <s origin then fd_check E desc (ucast APPENDABLE) (world s) else Inr True) (\<lambda>ok.
              if \<not> ok then Inr (- EINVAL, s)
              else Inr (origin, set_world (snd (o_seek E p origin BEG (world s))) s)))))"

definition sysclose :: "('f, 'w, 'z) sys_ops_scheme \<Rightarrow> u16 \<Rightarrow> u64 \<Rightarrow> ('f, 'w) sys \<Rightarrow> (u64 \<times> ('f, 'w) sys) res" where
  "sysclose E pid fd s =
    with_fd pid fd s (\<lambda>desc.
      if fd_isEmpty desc then Inr (- EBADF, s)
      else bnd (fds_set E pid (unat fd) (\<lambda>h. (fd_empty, h)) s) (\<lambda>s. Inr (0, s)))"

section \<open>Opening files\<close>

text \<open>The mode of a created file: readable and writable by everyone, a regular file.\<close>

definition open_file :: "('f, 'w, 'z) sys_ops_scheme \<Rightarrow> u16 \<Rightarrow> 'f \<Rightarrow> u64 \<Rightarrow> ('f, 'w) sys \<Rightarrow> (u64 \<times> ('f, 'w) sys) res" where
  "open_file E pid f flags s =
    (let newfd = getFreeFD pid s in
     bnd (fds_room E pid newfd s) (\<lambda>s.
     bnd (fds_set E pid newfd (\<lambda>h. case file2Stream E f (fh_world h) of (str, w) \<Rightarrow> fd_stream str (h\<lparr>fh_world := w\<rparr>)) s) (\<lambda>s.
     Inr (of_nat newfd, fds_mask pid newfd
       (SEEKABLE OR (if flags AND O_RDONLY \<noteq> 0 then READABLE OR WAITABLE else 0)
                 OR (if flags AND O_WRONLY \<noteq> 0 then WRITABLE OR APPENDABLE else 0)) s))))"

definition sysopen :: "('f, 'w, 'z) sys_ops_scheme \<Rightarrow> u16 \<Rightarrow> u64 \<Rightarrow> u64 \<Rightarrow> ('f, 'w) sys \<Rightarrow> (u64 \<times> ('f, 'w) sys) res option" where
  "sysopen E pid upath flags s =
    (if \<not> um_in pid upath s then Some (Inr (- EFAULT, s))
     else obnd (c_string (sy_mem s pid) upath) (\<lambda>path.
       obnd (sys_resolve E (sy_wd s pid) path (world s)) (\<lambda>f.
         case f of
           Some f \<Rightarrow> Some (open_file E pid f flags s)
         | None \<Rightarrow>
             if flags AND O_CREAT = 0 then Some (Inr (- EACCESS, s))
             else (case splitFileName path of (dir, name) \<Rightarrow>
               obnd (sys_resolve E (sy_wd s pid) dir (world s)) (\<lambda>f. case f of
                 None \<Rightarrow> Some (Inl NullAccess)
               | Some d \<Rightarrow>
                   if o_type E d (world s) \<noteq> Directory then Some (Inr (- EACCESS, s))
                   else obnd (Some (o_create E (to_name name) 0 0 0x81B6 d (world s))) (\<lambda>(w, _).
                     obnd (sys_get E d name w) (\<lambda>f. case f of
                       None \<Rightarrow> Some (Inl Assertion)
                     | Some f \<Rightarrow> Some (open_file E pid f flags (set_world w s)))))))))"

definition fd_pipeOut :: "('f, 'w, 'z) sys_ops_scheme \<Rightarrow> nat \<Rightarrow> 'w fd_heap \<Rightarrow> 'f fdesc \<times> 'w fd_heap" where
  "fd_pipeOut E ps h = (case o_pipeOut E ps (fh_world h) of (p, w) \<Rightarrow> fd_stream (Some p) (h\<lparr>fh_world := w\<rparr>))"

definition fd_pipeIn :: "('f, 'w, 'z) sys_ops_scheme \<Rightarrow> nat \<Rightarrow> 'w fd_heap \<Rightarrow> 'f fdesc \<times> 'w fd_heap" where
  "fd_pipeIn E ps h = (case o_pipeIn E ps (fh_world h) of (p, w) \<Rightarrow> fd_stream (Some p) (h\<lparr>fh_world := w\<rparr>))"

definition syspipe :: "('f, 'w, 'z) sys_ops_scheme \<Rightarrow> u16 \<Rightarrow> u64 \<Rightarrow> ('f, 'w) sys \<Rightarrow> (u64 \<times> ('f, 'w) sys) res" where
  "syspipe E pid fd2 s =
    (if \<not> um_in pid fd2 s then Inr (- EFAULT, s)
     else let res0 = getFreeFD pid s in
       bnd (um_put pid fd2 (le_bytes 4 res0) s) (\<lambda>s.
       bnd (fds_room E pid res0 s) (\<lambda>s.
       let res1 = getFreeFD pid s in
       bnd (um_put pid (fd2 + 4) (le_bytes 4 res1) s) (\<lambda>s.
       bnd (fds_room E pid res1 s) (\<lambda>s.
       case o_pipe E (world s) of (ps, w) \<Rightarrow>
       bnd (fds_set E pid res0 (fd_pipeOut E ps) (set_world w s)) (\<lambda>s.
       bnd (fds_set E pid res1 (fd_pipeIn E ps) s) (\<lambda>s.
       Inr (0, s))))))))"

definition sysdup :: "('f, 'w, 'z) sys_ops_scheme \<Rightarrow> u16 \<Rightarrow> u64 \<Rightarrow> ('f, 'w) sys \<Rightarrow> (u64 \<times> ('f, 'w) sys) res" where
  "sysdup E pid oldfd s =
    (let newfd = getFreeFD pid s in
     with_fd pid oldfd s (\<lambda>_.
       bnd (fds_room E pid newfd s) (\<lambda>s.
       bnd (fd_assign E (fds pid s ! newfd) (fds pid s ! unat oldfd) (sy_heap s)) (\<lambda>(d, h).
       Inr (of_nat newfd, s\<lparr>sy_fds := (sy_fds s)(pid := (sy_fds s pid)\<lparr>fv_data := (fds pid s)[newfd := d]\<rparr>), sy_heap := h\<rparr>)))))"

text \<open>\<open>newfd + 1\<close> wraps around for the largest number.\<close>

definition sysdup2 :: "('f, 'w, 'z) sys_ops_scheme \<Rightarrow> u16 \<Rightarrow> u64 \<Rightarrow> u64 \<Rightarrow> ('f, 'w) sys \<Rightarrow> (u64 \<times> ('f, 'w) sys) res" where
  "sysdup2 E pid oldfd newfd s =
    with_fd pid oldfd s (\<lambda>_.
      bnd (if length (fds pid s) \<le> unat newfd then fds_resize E pid (unat (newfd + 1)) s else Inr s) (\<lambda>s.
      check (unat newfd < length (fds pid s) \<and> unat oldfd < length (fds pid s)) OutOfBounds
        (bnd (fd_assign E (fds pid s ! unat newfd) (fds pid s ! unat oldfd) (sy_heap s)) (\<lambda>(d, h).
         Inr (newfd, s\<lparr>sy_fds := (sy_fds s)(pid := (sy_fds s pid)\<lparr>fv_data := (fds pid s)[unat newfd := d]\<rparr>), sy_heap := h\<rparr>)))))"

section \<open>Windows\<close>

definition with_gui :: "('f, 'w, 'z) sys_ops_scheme \<Rightarrow> ('f, 'w) sys \<Rightarrow> (gui \<Rightarrow> gui res) \<Rightarrow> ('f, 'w) sys res" where
  "with_gui E s f = bnd (f (o_gui E (world s))) (\<lambda>g. Inr (set_world (o_put_gui E g (world s)) s))"

definition scr_size :: "('f, 'w, 'z) sys_ops_scheme \<Rightarrow> ('f, 'w) sys \<Rightarrow> vec2u" where
  "scr_size E s = s_getSize (gu_screen (o_gui E (world s)))"

definition win_syscall :: "('f, 'w, 'z) sys_ops_scheme \<Rightarrow> u16 \<Rightarrow> wkind \<Rightarrow> (nat \<Rightarrow> 'w fd_heap \<Rightarrow> 'f fdesc \<times> 'w fd_heap) \<Rightarrow> u64 \<Rightarrow> ('f, 'w) sys \<Rightarrow> (u64 \<times> ('f, 'w) sys) res" where
  "win_syscall E pid k mk workspace s =
    (let fd = getFreeFD pid s in
     bnd (fds_room E pid fd s) (\<lambda>s.
     case o_fresh E (world s) of (p, w) \<Rightarrow>
     bnd (with_gui E (set_world w s) (\<lambda>g. Inr (win_create p k g))) (\<lambda>s.
     bnd (fds_set E pid fd (mk p) s) (\<lambda>s.
     bnd (with_gui E s (ws_addWin (unat workspace) p)) (\<lambda>s. Inr (of_nat fd, s))))))"

definition bad_rect :: "vec2u \<Rightarrow> vec2u \<Rightarrow> vec2u \<Rightarrow> bool" where
  "bad_rect sz off scr \<longleftrightarrow> vx scr < vx (v_add sz off) \<or> vy scr < vy (v_add sz off)"

definition sysopenwin :: "('f, 'w, 'z) sys_ops_scheme \<Rightarrow> u16 \<Rightarrow> u64 \<Rightarrow> u64 \<Rightarrow> u64 \<Rightarrow> ('f, 'w) sys \<Rightarrow> (u64 \<times> ('f, 'w) sys) res" where
  "sysopenwin E pid sz offset workspace s =
    (let vSize = v_of64 sz; vOffset = v_of64 offset in
     if bad_rect vSize vOffset (scr_size E s) then Inr (- EINVAL, s)
     else if of_nat totalNumber \<le> workspace then Inr (- EINVAL, s)
     else win_syscall E pid (GraphW (gw_new vOffset vSize)) (fd_gwindow E) workspace s)"

definition sysopentwin :: "('f, 'w, 'z) sys_ops_scheme \<Rightarrow> u16 \<Rightarrow> u64 \<Rightarrow> u64 \<Rightarrow> u64 \<Rightarrow> ('f, 'w) sys \<Rightarrow> (u64 \<times> ('f, 'w) sys) res" where
  "sysopentwin E pid sz offset workspace s =
    (let vSize = v_of64 sz; vOffset = v_of64 offset in
     if bad_rect vSize vOffset (scr_size E s) then Inr (- EINVAL, s)
     else if of_nat totalNumber \<le> workspace then Inr (- EINVAL, s)
     else win_syscall E pid (TextW (tw_new vOffset vSize)) fd_twindow workspace s)"

definition with_win :: "u16 \<Rightarrow> u64 \<Rightarrow> ('f, 'w) sys \<Rightarrow> (nat \<Rightarrow> (u64 \<times> ('f, 'w) sys) res) \<Rightarrow> (u64 \<times> ('f, 'w) sys) res" where
  "with_win pid fd s f = with_fd pid fd s (\<lambda>desc.
     if \<not> fd_isWin desc then Inr (- EBADF, s)
     else (case fd_getWin desc of None \<Rightarrow> Inl NullAccess | Some p \<Rightarrow> f p))"

definition sysresizewin :: "('f, 'w, 'z) sys_ops_scheme \<Rightarrow> u16 \<Rightarrow> u64 \<Rightarrow> u64 \<Rightarrow> u64 \<Rightarrow> ('f, 'w) sys \<Rightarrow> (u64 \<times> ('f, 'w) sys) res" where
  "sysresizewin E pid fd sz offset s =
    (let vSize = v_of64 sz; vOffset = v_of64 offset; br = v_add vSize vOffset; scr = scr_size E s in
     if vx scr \<le> vx br then Inr (- EINVAL, s)
     else if vy scr \<le> vy br then Inr (- EINVAL, s)
     else with_win pid fd s (\<lambda>p.
       bnd (with_gui E s (\<lambda>g. the_win p g (\<lambda>w. bnd (w_setSize vSize w) (\<lambda>w. Inr (put_win p (w_setOffset vOffset w) g))))) (\<lambda>s.
       Inr (0, s))))"

definition win_value :: "('f, 'w, 'z) sys_ops_scheme \<Rightarrow> u16 \<Rightarrow> u64 \<Rightarrow> (window \<Rightarrow> u64) \<Rightarrow> ('f, 'w) sys \<Rightarrow> (u64 \<times> ('f, 'w) sys) res" where
  "win_value E pid fd f s = with_win pid fd s (\<lambda>p. the_win p (o_gui E (world s)) (\<lambda>w. Inr (f w, s)))"

definition sysgetsize :: "('f, 'w, 'z) sys_ops_scheme \<Rightarrow> u16 \<Rightarrow> u64 \<Rightarrow> ('f, 'w) sys \<Rightarrow> (u64 \<times> ('f, 'w) sys) res" where
  "sysgetsize E pid fd s = win_value E pid fd (\<lambda>w. v_to64 (w_getSize w)) s"

definition sysgetoff :: "('f, 'w, 'z) sys_ops_scheme \<Rightarrow> u16 \<Rightarrow> u64 \<Rightarrow> ('f, 'w) sys \<Rightarrow> (u64 \<times> ('f, 'w) sys) res" where
  "sysgetoff E pid fd s = win_value E pid fd (\<lambda>w. v_to64 (w_getOffset w)) s"

definition sysgetws :: "('f, 'w, 'z) sys_ops_scheme \<Rightarrow> u16 \<Rightarrow> u64 \<Rightarrow> ('f, 'w) sys \<Rightarrow> (u64 \<times> ('f, 'w) sys) res" where
  "sysgetws E pid fd s = win_value E pid fd (\<lambda>w. ucast (w_ws w)) s"

text \<open>An event as it lies in memory: the type, then the packed structure of the union.\<close>

definition bits_byte :: "bool list \<Rightarrow> u8" where
  "bits_byte bs = foldr (\<lambda>b acc. (if b then 1 else 0) + 2 * acc) bs 0"

definition state_bytes :: "kbd_state \<Rightarrow> bytes" where
  "state_bytes s = [bits_byte [lShift s, rShift s, lCtrl s, rCtrl s, lAlt s, rAlt s, lWin s, rWin s], bits_byte [capsLock s, numLock s]]"

definition scan_bytes :: "escancode \<Rightarrow> bytes" where
  "scan_bytes c = [(sc_code c AND 127) + (if sc_release c then 128 else 0), bits_byte [sc_extended c, sc_valid c]]"

definition gtype_byte :: "gtype \<Rightarrow> u8" where
  "gtype_byte t = (case t of RESIZE \<Rightarrow> 0 | MOVE \<Rightarrow> 1 | FOCUS \<Rightarrow> 2 | WORKSPACE \<Rightarrow> 3)"

definition event_bytes :: "event \<Rightarrow> bytes" where
  "event_bytes e =
    (case e of
       EvKeyboard k \<Rightarrow> 0 # state_bytes (kc_state k) @ [kc_symbol k] @ scan_bytes (kc_scan k)
     | EvMouse m \<Rightarrow> 1 # le_bytes 2 (unat (me_x m)) @ le_bytes 2 (unat (me_y m)) @ [me_pressed m, me_changed m]
     | EvWindow g \<Rightarrow> 2 # le_bytes 2 (unat (ge_x g)) @ le_bytes 2 (unat (ge_y g)) @ [ge_value g, gtype_byte (ge_type g)]
     | EvInvalid \<Rightarrow> [3])"

text \<open>\<open>operator u64\<close> reads eight bytes; \<open>pad\<close> are the ones the event does not define.\<close>

definition event_u64 :: "bytes \<Rightarrow> event \<Rightarrow> u64" where
  "event_u64 pad e = of_nat (le_word 8 (event_bytes e @ pad))"

definition sysgetevt :: "('f, 'w, 'z) sys_ops_scheme \<Rightarrow> u16 \<Rightarrow> u64 \<Rightarrow> ('f, 'w) sys \<Rightarrow> (u64 \<times> ('f, 'w) sys) res" where
  "sysgetevt E pid fd s =
    with_fd pid fd s (\<lambda>desc.
      if fd_type desc \<noteq> GWINDOW then Inr (- EBADF, s)
      else (case fd_getWin desc of None \<Rightarrow> Inl NullAccess | Some p \<Rightarrow>
        the_win p (o_gui E (world s)) (\<lambda>w. case w_kind w of
            TextW t \<Rightarrow> Inl OutOfBounds
          | GraphW g \<Rightarrow> (case gw_getEvent g of (e, g) \<Rightarrow>
              Inr (event_u64 (o_pad E) e, set_world (o_put_gui E (put_win p (w\<lparr>w_kind := GraphW g\<rparr>) (o_gui E (world s))) (world s)) s)))))"

section \<open>Directories\<close>

text \<open>The file a user path names, and the directory that contains it with the last name.\<close>

definition user_path :: "u16 \<Rightarrow> u64 \<Rightarrow> ('f, 'w) sys \<Rightarrow> (string \<Rightarrow> (u64 \<times> ('f, 'w) sys) res option) \<Rightarrow> (u64 \<times> ('f, 'w) sys) res option" where
  "user_path pid p s f = (if \<not> um_in pid p s then Some (Inr (- EFAULT, s)) else obnd (c_string (sy_mem s pid) p) f)"

definition with_file :: "('f, 'w, 'z) sys_ops_scheme \<Rightarrow> u16 \<Rightarrow> string \<Rightarrow> ('f, 'w) sys \<Rightarrow> ('f \<Rightarrow> (u64 \<times> ('f, 'w) sys) res option) \<Rightarrow> (u64 \<times> ('f, 'w) sys) res option" where
  "with_file E pid path s f = obnd (sys_resolve E (sy_wd s pid) path (world s)) (\<lambda>r. case r of
     None \<Rightarrow> Some (Inr (- EACCESS, s)) | Some x \<Rightarrow> f x)"

definition with_dir :: "('f, 'w, 'z) sys_ops_scheme \<Rightarrow> u16 \<Rightarrow> string \<Rightarrow> u64 \<Rightarrow> ('f, 'w) sys \<Rightarrow> ('f \<Rightarrow> (u64 \<times> ('f, 'w) sys) res option) \<Rightarrow> (u64 \<times> ('f, 'w) sys) res option" where
  "with_dir E pid path err s f = with_file E pid path s (\<lambda>d. if o_type E d (world s) \<noteq> Directory then Some (Inr (- err, s)) else f d)"

definition sysopend :: "('f, 'w, 'z) sys_ops_scheme \<Rightarrow> u16 \<Rightarrow> u64 \<Rightarrow> ('f, 'w) sys \<Rightarrow> (u64 \<times> ('f, 'w) sys) res option" where
  "sysopend E pid p s =
    user_path pid p s (\<lambda>path. with_dir E pid path ENOTDIR s (\<lambda>d.
      let newfd = getFreeFD pid s in
      Some (bnd (fds_room E pid newfd s) (\<lambda>s. bnd (fds_set E pid newfd (fd_directory E d) s) (\<lambda>s. Inr (of_nat newfd, s))))))"

definition sysreadd :: "('f, 'w, 'z) sys_ops_scheme \<Rightarrow> u16 \<Rightarrow> u64 \<Rightarrow> u64 \<Rightarrow> ('f, 'w) sys \<Rightarrow> (u64 \<times> ('f, 'w) sys) res" where
  "sysreadd E pid fd thedirent s =
    (if \<not> um_in pid thedirent s then Inr (- EFAULT, s)
     else if \<not> um_in pid (thedirent + 260) s then Inr (- EFAULT, s)
     else with_fd pid fd s (\<lambda>filed.
       if \<not> fd_isDir filed then Inr (- EBADF, s)
       else (case (fd_getDir filed, fd_getDopen filed) of
           (Some d, Some o') \<Rightarrow>
             bnd (o_dread E d o' (world s)) (\<lambda>(r, w).
             bnd (um_put pid thedirent (case r of Some e \<Rightarrow> e | None \<Rightarrow> replicate 260 0) (set_world w s)) (\<lambda>s. Inr (0, s)))
         | _ \<Rightarrow> Inl NullAccess)))"

definition syschdir :: "('f, 'w, 'z) sys_ops_scheme \<Rightarrow> u16 \<Rightarrow> u64 \<Rightarrow> ('f, 'w) sys \<Rightarrow> (u64 \<times> ('f, 'w) sys) res option" where
  "syschdir E pid p s =
    user_path pid p s (\<lambda>path. with_dir E pid path ENOTDIR s (\<lambda>d.
      Some (Inr (0, s\<lparr>sy_wd := (sy_wd s)(pid := Some d)\<rparr>))))"

definition sysmkdir :: "('f, 'w, 'z) sys_ops_scheme \<Rightarrow> u16 \<Rightarrow> u64 \<Rightarrow> ('f, 'w) sys \<Rightarrow> (u64 \<times> ('f, 'w) sys) res option" where
  "sysmkdir E pid p s =
    user_path pid p s (\<lambda>path. case splitFileName path of (dir, name) \<Rightarrow>
      with_dir E pid dir EACCESS s (\<lambda>d.
        obnd (sys_get E d name (world s)) (\<lambda>t.
          if t \<noteq> None then Some (Inr (- EEXIST, s))
          else Some (bnd (o_create E (to_name name) 0 0 0x41FF d (world s)) (\<lambda>(w, _). Inr (0, set_world w s))))))"

definition sysrmdir :: "('f, 'w, 'z) sys_ops_scheme \<Rightarrow> u16 \<Rightarrow> u64 \<Rightarrow> ('f, 'w) sys \<Rightarrow> (u64 \<times> ('f, 'w) sys) res option" where
  "sysrmdir E pid p s =
    user_path pid p s (\<lambda>path. case splitFileName path of (dir, name) \<Rightarrow>
      with_dir E pid dir EACCESS s (\<lambda>d.
        obnd (sys_get E d name (world s)) (\<lambda>t. case t of
          None \<Rightarrow> Some (Inr (- EACCESS, s))
        | Some t \<Rightarrow>
            if o_type E t (world s) \<noteq> Directory then Some (Inr (- EACCESS, s))
            else if \<not> o_isEmpty E t (world s) then Some (Inr (- EEXIST, s))
            else Some (bnd (o_removeDirectory E (to_name name) d (world s)) (\<lambda>w. Inr (0, set_world w s))))))"

definition sysunlink :: "('f, 'w, 'z) sys_ops_scheme \<Rightarrow> u16 \<Rightarrow> u64 \<Rightarrow> ('f, 'w) sys \<Rightarrow> (u64 \<times> ('f, 'w) sys) res option" where
  "sysunlink E pid p s =
    user_path pid p s (\<lambda>path. case splitFileName path of (dir, name) \<Rightarrow>
      with_dir E pid dir EACCESS s (\<lambda>d.
        obnd (sys_get E d name (world s)) (\<lambda>t. case t of
          None \<Rightarrow> Some (Inr (- EACCESS, s))
        | Some t \<Rightarrow>
            if o_type E t (world s) \<noteq> RegularFile then Some (Inr (- EACCESS, s))
            else Some (bnd (o_removeEntry E (to_name name) d (world s)) (\<lambda>w. Inr (0, set_world w s))))))"

definition syslink :: "('f, 'w, 'z) sys_ops_scheme \<Rightarrow> u16 \<Rightarrow> u64 \<Rightarrow> u64 \<Rightarrow> ('f, 'w) sys \<Rightarrow> (u64 \<times> ('f, 'w) sys) res option" where
  "syslink E pid p1 p2 s =
    (if \<not> um_in pid p1 s \<or> \<not> um_in pid p2 s then Some (Inr (- EFAULT, s))
     else obnd (c_string (sy_mem s pid) p2) (\<lambda>path2. case splitFileName path2 of (dir, name) \<Rightarrow>
       with_dir E pid dir EACCESS s (\<lambda>d.
         obnd (sys_get E d name (world s)) (\<lambda>t.
           if t \<noteq> None then Some (Inr (- EEXIST, s))
           else obnd (c_string (sy_mem s pid) p1) (\<lambda>path1.
             with_file E pid path1 s (\<lambda>f.
               if o_type E f (world s) \<noteq> RegularFile then Some (Inr (- EACCESS, s))
               else if fst (o_stat E f (world s)) \<noteq> fst (o_stat E d (world s)) then Some (Inr (- EXDEV, s))
               else Some (bnd (o_addEntry E (to_name name) f d (world s)) (\<lambda>w. Inr (0, set_world w s)))))))))"

text \<open>A directory is removed before it is added again, so that \<open>..\<close> ends up right; a file the other
  way round, so that it never has no link. The old file is used without a test that it exists.\<close>

definition sysrename :: "('f, 'w, 'z) sys_ops_scheme \<Rightarrow> u16 \<Rightarrow> u64 \<Rightarrow> u64 \<Rightarrow> ('f, 'w) sys \<Rightarrow> (u64 \<times> ('f, 'w) sys) res option" where
  "sysrename E pid p1 p2 s =
    (if \<not> um_in pid p1 s \<or> \<not> um_in pid p2 s then Some (Inr (- EFAULT, s))
     else obnd (c_string (sy_mem s pid) p1) (\<lambda>path1. obnd (c_string (sy_mem s pid) p2) (\<lambda>path2.
       case splitFileName path1 of (dn1, name1) \<Rightarrow> case splitFileName path2 of (dn2, name2) \<Rightarrow>
       with_dir E pid dn1 EACCESS s (\<lambda>dir1. with_dir E pid dn2 EACCESS s (\<lambda>dir2.
         obnd (sys_get E dir2 name2 (world s)) (\<lambda>t.
           if t \<noteq> None then Some (Inr (- EEXIST, s))
           else obnd (sys_get E dir1 name1 (world s)) (\<lambda>f. case f of
               None \<Rightarrow> Some (Inl NullAccess)
             | Some f \<Rightarrow> (case o_stat E f (world s) of (dev1, mode) \<Rightarrow>
                 if dev1 \<noteq> fst (o_stat E dir2 (world s)) then Some (Inr (- EXDEV, s))
                 else Some (bnd
                   (if S_ISDIR mode
                    then bnd (o_removeEntry E (to_name name1) dir1 (world s)) (o_addEntry E (to_name name2) f dir2)
                    else bnd (o_addEntry E (to_name name2) f dir2 (world s)) (o_removeEntry E (to_name name1) dir1))
                   (\<lambda>w. Inr (0, set_world w s)))))))))))"

section \<open>Memory\<close>

definition sysbrk :: "('f, 'w, 'z) sys_ops_scheme \<Rightarrow> u16 \<Rightarrow> u64 \<Rightarrow> ('f, 'w) sys \<Rightarrow> (u64 \<times> ('f, 'w) sys) res" where
  "sysbrk E pid addr s =
    (if addr <s 0x200000 \<and> addr \<noteq> 0 then Inr (- EFAULT, s)
     else (case o_brk E pid addr (sy_mem s pid, world s) of (r, m, w) \<Rightarrow>
       let s = set_world w (s\<lparr>sy_mem := (sy_mem s)(pid := m)\<rparr>) in
       assertk (addr \<noteq> 0 \<longrightarrow> um_in pid (addr - 1) s) (Inr (r, s))))"

section \<open>What processes own\<close>

text \<open>Where the scheduler calls an operation that cannot report a fault, the fault is recorded.\<close>

definition absorb :: "('f, 'w) sys res \<Rightarrow> ('f, 'w) sys \<Rightarrow> ('f, 'w) sys" where
  "absorb m s = (case m of Inl e \<Rightarrow> s\<lparr>sy_fault := Some e\<rparr> | Inr s' \<Rightarrow> s')"

text \<open>
  The constructor behind \<open>fork\<close>: the vector of descriptors is passed by value and copied again. A
  lookup of \<open>.\<close> that never ends counts as a null access.
\<close>

definition sys_fork :: "('f, 'w, 'z) sys_ops_scheme \<Rightarrow> u16 \<Rightarrow> u16 \<Rightarrow> ('f, 'w) sys \<Rightarrow> ('f, 'w) sys res" where
  "sys_fork E pid other s =
    bnd (fv_copy (sy_fds s other) (sy_heap s)) (\<lambda>(tmp, h).
    bnd (fv_copy tmp h) (\<lambda>(v, h).
    bnd (fv_destroy E tmp h) (\<lambda>h.
    let s = s\<lparr>sy_heap := h, sy_fds := (sy_fds s)(pid := v), sy_mem := (sy_mem s)(pid := sy_mem s other)\<rparr> in
    (case sy_wd s other of
       None \<Rightarrow> Inl NullAccess
     | Some d \<Rightarrow> (case o_get E d dot (world s) of
         Some (Some f) \<Rightarrow> assertk (o_type E f (world s) = Directory) (Inr (s\<lparr>sy_wd := (sy_wd s)(pid := Some f)\<rparr>))
       | _ \<Rightarrow> Inl NullAccess)))))"

definition sys_clear :: "u16 \<Rightarrow> ('f, 'w) sys \<Rightarrow> ('f, 'w) sys" where
  "sys_clear pid s = s\<lparr>sy_mem := (sy_mem s)(pid := (\<lambda>_. None))\<rparr>"

definition sys_delete :: "('f, 'w, 'z) sys_ops_scheme \<Rightarrow> u16 \<Rightarrow> ('f, 'w) sys \<Rightarrow> ('f, 'w) sys res" where
  "sys_delete E pid s =
    bnd (fv_destroy E (sy_fds s pid) (sy_heap s)) (\<lambda>h.
      Inr (s\<lparr>sy_heap := h, sy_fds := (sy_fds s)(pid := fv_new), sy_wd := (sy_wd s)(pid := None)\<rparr>))"

definition sys_poke :: "u16 \<Rightarrow> u64 \<Rightarrow> u64 \<Rightarrow> ('f, 'w) sys \<Rightarrow> ('f, 'w) sys" where
  "sys_poke pid a v s = absorb (um_put pid a (le_bytes 8 (unat v)) s) s"

text \<open>The closure \<open>sysread\<close> waits with: process, descriptor, buffer and size.\<close>

type_synonym read_retry = "u16 \<times> u64 \<times> u64 \<times> u64"

definition sys_retry :: "('f, 'w, 'z) sys_ops_scheme \<Rightarrow> read_retry \<Rightarrow> ('f, 'w) sys \<Rightarrow> u64 \<times> ('f, 'w) sys" where
  "sys_retry E a s = (case a of (pid, fd, buf, cnt) \<Rightarrow>
     (case nbread E pid (ucast fd) buf cnt s of Inl e \<Rightarrow> (0, s\<lparr>sy_fault := Some e\<rparr>) | Inr r \<Rightarrow> r))"

definition sys_env :: "('f, 'w, 'z) sys_ops_scheme \<Rightarrow> (u16 set \<Rightarrow> u16 list) \<Rightarrow> cpu_context \<Rightarrow> (('f, 'w) sys \<Rightarrow> ('f, 'w) sys) \<Rightarrow>
    (read_retry, ('f, 'w) sys) proc_env" where
  "sys_env E order ctx kloop = \<lparr>pe_order = order, pe_ctx = ctx, pe_fork = sys_fork E, pe_clear = sys_clear,
     pe_delete = (\<lambda>pid s. absorb (sys_delete E pid s) s), pe_poke = sys_poke, pe_in = um_in,
     pe_check = (\<lambda>a _. sys_retry E a), pe_kloop = kloop\<rparr>"

section \<open>Handlers\<close>

type_synonym ('f, 'w) skernel = "(read_retry, ('f, 'w) sys) kernel"
type_synonym ('f, 'w) sresult = "(u64 \<times> outcome \<times> ('f, 'w) skernel) res option"

text \<open>\<open>Waitable::free\<close> of the streams that were signalled.\<close>

definition deliver :: "('f, 'w, 'z) sys_ops_scheme \<Rightarrow> ('f, 'w) skernel \<Rightarrow> ('f, 'w) skernel" where
  "deliver E k = (case o_woken E (world (k_env k)) of (ps, w) \<Rightarrow>
     k\<lparr>k_wait := fold (\<lambda>p. wb_free (WStream p)) ps (k_wait k), k_env := set_world w (k_env k)\<rparr>)"

text \<open>A handler that works on the process of the current thread and returns.\<close>

definition in_process :: "('f, 'w, 'z) sys_ops_scheme \<Rightarrow> (u16 \<Rightarrow> ('f, 'w) sys \<Rightarrow> (u64 \<times> ('f, 'w) sys) res option) \<Rightarrow> ('f, 'w) skernel \<Rightarrow> ('f, 'w) sresult" where
  "in_process E f k =
    obnd (Some (enterSys k)) (\<lambda>(tid, k).
    obnd (Some (deref (k_threads k tid))) (\<lambda>th.
    obnd (f (t_pid th) (k_env k)) (\<lambda>(r, s). Some (Inr (r, Returns, deliver E (k\<lparr>k_env := s\<rparr>))))))"

definition syswrite :: "('f, 'w, 'z) sys_ops_scheme \<Rightarrow> u64 \<Rightarrow> u64 \<Rightarrow> u64 \<Rightarrow> ('f, 'w) skernel \<Rightarrow> ('f, 'w) sresult" where
  "syswrite E fd buf cnt = in_process E (\<lambda>pid s. Some (swrite E pid (ucast fd) buf cnt s))"

text \<open>\<open>sysread\<close> indexes the vector with the 64 bit number when it has to wait.\<close>

definition sysread :: "('f, 'w, 'z) sys_ops_scheme \<Rightarrow> (read_retry, ('f, 'w) sys) proc_env \<Rightarrow> u64 \<Rightarrow> u64 \<Rightarrow> u64 \<Rightarrow> ('f, 'w) skernel \<Rightarrow> ('f, 'w) sresult" where
  "sysread E PE fd buf cnt k =
    obnd (Some (enterSys k)) (\<lambda>(tid, k).
    obnd (Some (deref (k_threads k tid))) (\<lambda>th.
    obnd (Some (nbread E (t_pid th) (ucast fd) buf cnt (k_env k))) (\<lambda>(r, s).
      let k = k\<lparr>k_env := s\<rparr> in
      if r \<noteq> - EBLOCK then Some (Inr (r, Returns, k))
      else obnd (Some (check (unat fd < length (fds (t_pid th) s)) OutOfBounds (fd_arrow (fds (t_pid th) s ! unat fd)))) (\<lambda>p.
        map_option (\<lambda>m. bnd m (\<lambda>(o', k). Inr (r, o', k)))
          (run_after PE (suspend PE (WStream p) (StreamCheck (t_pid th, fd, buf, cnt)) tid k))))))"

definition sysclone :: "(read_retry, ('f, 'w) sys) proc_env \<Rightarrow> u64 \<Rightarrow> u64 \<Rightarrow> ('f, 'w) skernel \<Rightarrow> ('f, 'w) sresult" where
  "sysclone PE rip rsp k = Some (bnd (sched_clone PE rip rsp k) (\<lambda>(r, k). Inr (ucast r, Returns, k)))"

definition sysfork :: "(read_retry, ('f, 'w) sys) proc_env \<Rightarrow> ('f, 'w) skernel \<Rightarrow> ('f, 'w) sresult" where
  "sysfork PE k = Some (bnd (sched_fork PE k) (\<lambda>(r, k). Inr (ucast r, Returns, k)))"

definition sysexit :: "(read_retry, ('f, 'w) sys) proc_env \<Rightarrow> u64 \<Rightarrow> ('f, 'w) skernel \<Rightarrow> ('f, 'w) sresult" where
  "sysexit PE rc k = obnd (sched_exit PE rc k) (\<lambda>(o', k). Some (Inr (0, o', k)))"

definition systexit :: "(read_retry, ('f, 'w) sys) proc_env \<Rightarrow> u64 \<Rightarrow> ('f, 'w) skernel \<Rightarrow> ('f, 'w) sresult" where
  "systexit PE rc k = obnd (sched_texit PE rc k) (\<lambda>(o', k). Some (Inr (0, o', k)))"

section \<open>exec\<close>

text \<open>The arguments: \<open>None\<close> when a pointer is not in user memory.\<close>

partial_function (option) exec_argv :: "umem \<Rightarrow> u64 \<Rightarrow> string list option res option" where
  "exec_argv m a =
    (case mem_get m a 8 of
       Inl e \<Rightarrow> Some (Inl e)
     | Inr bs \<Rightarrow> let p = of_nat (le_word 8 bs) in
         if p = 0 then Some (Inr (Some []))
         else if m p = None then Some (Inr None)
         else Option.bind (c_string m p) (\<lambda>r. case r of
             Inl e \<Rightarrow> Some (Inl e)
           | Inr s \<Rightarrow> Option.bind (exec_argv m (a + 8)) (\<lambda>r. Some (bnd r (\<lambda>x. Inr (map_option (\<lambda>ss. s # ss) x))))))"

text \<open>\<open>Thread::push\<close> on the stack of the new thread.\<close>

definition th_push :: "u16 \<Rightarrow> bytes \<Rightarrow> u64 \<times> ('f, 'w) sys \<Rightarrow> (u64 \<times> ('f, 'w) sys) res" where
  "th_push pid data = (\<lambda>(rsp, s).
    let rsp = rsp - of_nat (length data) in
    assertk (um_in pid rsp s) (bnd (um_put pid rsp data s) (\<lambda>s. Inr (rsp, s))))"

fun push_strings :: "u16 \<Rightarrow> string list \<Rightarrow> u64 \<times> ('f, 'w) sys \<Rightarrow> (u64 list \<times> u64 \<times> ('f, 'w) sys) res" where
  "push_strings pid [] st = Inr ([], st)"
| "push_strings pid (a # as) st =
    bnd (th_push pid (map of_char a @ [0]) st) (\<lambda>st. bnd (push_strings pid as st) (\<lambda>(ps, st'). Inr (fst st # ps, st')))"

definition push_args :: "u16 \<Rightarrow> string list \<Rightarrow> u64 \<times> ('f, 'w) sys \<Rightarrow> (u64 \<times> ('f, 'w) sys) res" where
  "push_args pid args st =
    bnd (push_strings pid args st) (\<lambda>(ps, st).
    bnd (th_push pid (le_bytes 8 0) st) (\<lambda>st.
    for_list (\<lambda>p. th_push pid (le_bytes 8 (unat p))) (rev ps) st))"

definition stackStart :: u64 where "stackStart = 0x8000000000"

text \<open>\<open>load\<close> is \<open>loadFromBytes\<close> up to the thread: it gives the entry point.\<close>

definition exec_start :: "(read_retry, ('f, 'w) sys) proc_env \<Rightarrow> (u16 \<Rightarrow> 'f \<Rightarrow> ('f, 'w) sys \<Rightarrow> (u64 \<times> ('f, 'w) sys) res) \<Rightarrow>
    u16 \<Rightarrow> 'f \<Rightarrow> string list \<Rightarrow> ('f, 'w) skernel \<Rightarrow> ('f, 'w) skernel res" where
  "exec_start PE load pid f args k =
    bnd (stopCurent k) (\<lambda>k.
    bnd (process_clear PE pid k) (\<lambda>k.
    bnd (load pid f (k_env k)) (\<lambda>(entry, s).
    bnd (thread_new PE pid entry pid (k\<lparr>k_env := s\<rparr>)) (\<lambda>k.
    bnd (push_args pid args (stackStart, k_env k)) (\<lambda>(rsp, s).
    Inr (upd_thread pid (\<lambda>t. t\<lparr>t_ctx := (t_ctx t)\<lparr>cx_rsp := rsp, cx_rdi := of_nat (length args), cx_rsi := rsp\<rparr>\<rparr>)
      (k\<lparr>k_env := s, k_active := Some pid\<rparr>)))))))"

definition sysexec :: "('f, 'w, 'z) sys_ops_scheme \<Rightarrow> (read_retry, ('f, 'w) sys) proc_env \<Rightarrow> (u16 \<Rightarrow> 'f \<Rightarrow> ('f, 'w) sys \<Rightarrow> (u64 \<times> ('f, 'w) sys) res) \<Rightarrow>
    u64 \<Rightarrow> u64 \<Rightarrow> ('f, 'w) skernel \<Rightarrow> ('f, 'w) sresult" where
  "sysexec E PE load upath argv k =
    obnd (Some (enterSys k)) (\<lambda>(tid, k).
    obnd (Some (deref (k_threads k tid))) (\<lambda>th.
    let pid = t_pid th; s = k_env k; ret = (\<lambda>e. Some (Inr (- e, Returns, k))) in
    if \<not> um_in pid upath s then ret EFAULT
    else obnd (c_string (sy_mem s pid) upath) (\<lambda>path.
      obnd (sys_resolve E (sy_wd s pid) path (world s)) (\<lambda>f. case f of
        None \<Rightarrow> ret EACCESS
      | Some f \<Rightarrow>
          if o_type E f (world s) \<noteq> RegularFile then ret EACCESS
          else if \<not> um_in pid argv s then ret EFAULT
          else obnd (exec_argv (sy_mem s pid) argv) (\<lambda>args. case args of
            None \<Rightarrow> ret EFAULT
          | Some args \<Rightarrow> map_option (\<lambda>m. bnd m (\<lambda>(o', k). Inr (0, o', k))) (run_after PE (exec_start PE load pid f args k)))))))"

section \<open>The table\<close>

type_synonym ('f, 'w) handler = "u64 \<Rightarrow> u64 \<Rightarrow> u64 \<Rightarrow> u64 \<Rightarrow> u64 \<Rightarrow> u64 \<Rightarrow> ('f, 'w) skernel \<Rightarrow> ('f, 'w) sresult"

definition syserror :: "('f, 'w) handler" where
  "syserror = (\<lambda>_ _ _ _ _ _ _. Some (Inl Bsod))"

definition systest :: "('f, 'w) handler" where
  "systest = (\<lambda>_ _ _ _ _ _ k. Some (Inr (0, Returns, k)))"

definition syscallInit :: "u64 \<Rightarrow> ('f, 'w) handler option" where
  "syscallInit = (\<lambda>_. None)(42 := Some systest)"

definition syscallFill :: "('f, 'w, 'z) sys_ops_scheme \<Rightarrow> (read_retry, ('f, 'w) sys) proc_env \<Rightarrow>
    (u16 \<Rightarrow> 'f \<Rightarrow> ('f, 'w) sys \<Rightarrow> (u64 \<times> ('f, 'w) sys) res) \<Rightarrow> (u64 \<Rightarrow> ('f, 'w) handler option) \<Rightarrow> u64 \<Rightarrow> ('f, 'w) handler option" where
  "syscallFill E PE load t = t
     (0 \<mapsto> (\<lambda>a b c _ _ _. sysread E PE a b c),
      1 \<mapsto> (\<lambda>a b c _ _ _. syswrite E a b c),
      2 \<mapsto> (\<lambda>a b _ _ _ _. in_process E (\<lambda>p. sysopen E p a b)),
      3 \<mapsto> (\<lambda>a _ _ _ _ _. in_process E (\<lambda>p s. Some (sysclose E p a s))),
      8 \<mapsto> (\<lambda>a b c _ _ _. in_process E (\<lambda>p s. Some (sysseek E p a b c s))),
      12 \<mapsto> (\<lambda>a _ _ _ _ _. in_process E (\<lambda>p s. Some (sysbrk E p a s))),
      22 \<mapsto> (\<lambda>a _ _ _ _ _. in_process E (\<lambda>p s. Some (syspipe E p a s))),
      24 \<mapsto> (\<lambda>a b c _ _ _. in_process E (\<lambda>p s. Some (sysopenwin E p a b c s))),
      25 \<mapsto> (\<lambda>a b c _ _ _. in_process E (\<lambda>p s. Some (sysopentwin E p a b c s))),
      26 \<mapsto> (\<lambda>a b c _ _ _. in_process E (\<lambda>p s. Some (sysresizewin E p a b c s))),
      27 \<mapsto> (\<lambda>a _ _ _ _ _. in_process E (\<lambda>p s. Some (sysgetsize E p a s))),
      28 \<mapsto> (\<lambda>a _ _ _ _ _. in_process E (\<lambda>p s. Some (sysgetoff E p a s))),
      29 \<mapsto> (\<lambda>a _ _ _ _ _. in_process E (\<lambda>p s. Some (sysgetws E p a s))),
      30 \<mapsto> (\<lambda>a _ _ _ _ _. in_process E (\<lambda>p s. Some (sysgetevt E p a s))),
      32 \<mapsto> (\<lambda>a _ _ _ _ _. in_process E (\<lambda>p s. Some (sysdup E p a s))),
      33 \<mapsto> (\<lambda>a b _ _ _ _. in_process E (\<lambda>p s. Some (sysdup2 E p a b s))),
      56 \<mapsto> (\<lambda>a b _ _ _ _. sysclone PE a b),
      57 \<mapsto> (\<lambda>_ _ _ _ _ _. sysfork PE),
      58 \<mapsto> (\<lambda>a _ _ _ _ _. sysexit PE a),
      59 \<mapsto> (\<lambda>a b _ _ _ _. sysexec E PE load a b),
      60 \<mapsto> (\<lambda>a _ _ _ _ _. systexit PE a),
      61 \<mapsto> (\<lambda>a b _ _ _ _. Processes.syswait PE a b),
      72 \<mapsto> (\<lambda>a _ _ _ _ _. in_process E (\<lambda>p. sysopend E p a)),
      73 \<mapsto> (\<lambda>a b _ _ _ _. in_process E (\<lambda>p s. Some (sysreadd E p a b s))),
      80 \<mapsto> (\<lambda>a _ _ _ _ _. in_process E (\<lambda>p. syschdir E p a)),
      82 \<mapsto> (\<lambda>a b _ _ _ _. in_process E (\<lambda>p. sysrename E p a b)),
      83 \<mapsto> (\<lambda>a _ _ _ _ _. in_process E (\<lambda>p. sysmkdir E p a)),
      84 \<mapsto> (\<lambda>a _ _ _ _ _. in_process E (\<lambda>p. sysrmdir E p a)),
      86 \<mapsto> (\<lambda>a b _ _ _ _. in_process E (\<lambda>p. syslink E p a b)),
      87 \<mapsto> (\<lambda>a _ _ _ _ _. in_process E (\<lambda>p. sysunlink E p a)))"

text \<open>\<open>syscallInt\<close>: the handler, or the one for errors; \<open>args\<close> are the six registers.\<close>

definition syscallInt :: "(read_retry, ('f, 'w) sys) proc_env \<Rightarrow> (u64 \<Rightarrow> ('f, 'w) handler option) \<Rightarrow> cpu_context \<Rightarrow>
    u64 \<Rightarrow> u64 \<Rightarrow> u64 \<Rightarrow> u64 \<Rightarrow> u64 \<Rightarrow> u64 \<Rightarrow> ('f, 'w) skernel \<Rightarrow> ('f, 'w) sresult" where
  "syscallInt PE handlers par a b c d e f k =
    (let hand = (if 255 < cx_rax par then syserror else case handlers (cx_rax par) of Some h \<Rightarrow> h | None \<Rightarrow> syserror) in
     obnd (Some (context_save par k)) (\<lambda>k.
     obnd (hand a b c d e f k) (\<lambda>(r, o', k).
       if o' \<noteq> Returns then Some (Inr (r, o', k))
       else obnd (sysleave PE r k) (\<lambda>(o', k). Some (Inr (r, o', k))))))"

section \<open>System calls keep the kernel consistent\<close>

lemma kernel_env: "kernel_ok k \<Longrightarrow> kernel_ok (k\<lparr>k_env := x\<rparr>)"
  by (simp add: kernel_ok_def queue_ok_def)

lemma kernel_free:
  assumes "kernel_ok k"
  shows "kernel_ok (k\<lparr>k_wait := wb_free (WStream s) (k_wait k)\<rparr>)"
proof -
  have "waits_ok (k\<lparr>k_wait := wb_free (WStream s) (k_wait k)\<rparr>)"
    using assms registered_free[of "k_wait k"] unfolding kernel_ok_def core_ok_def waits_ok_def by (auto simp: wb_free_def)
  then show ?thesis using assms by (simp add: kernel_ok_def core_ok_def queue_ok_def)
qed

lemma kernel_fold_free: "kernel_ok k \<Longrightarrow> kernel_ok (k\<lparr>k_wait := fold (\<lambda>p. wb_free (WStream p)) ps (k_wait k)\<rparr>)"
proof (induction ps arbitrary: k)
  case (Cons p ps)
  from Cons.IH[OF kernel_free[OF Cons.prems, of p]] show ?case by simp
qed simp

lemma deliver_kernel: "kernel_ok k \<Longrightarrow> kernel_ok (deliver E k)"
  using kernel_env[OF kernel_fold_free[of k]] by (simp add: deliver_def split: prod.splits)

lemma obnd_eq: "obnd m f = Some (Inr y) \<longleftrightarrow> (\<exists>x. m = Some (Inr x) \<and> f x = Some (Inr y))"
  by (auto simp: obnd_def split: option.splits sum.splits)

lemma in_process_kernel:
  assumes "kernel_ok k" "in_process E f k = Some (Inr (r, o', k'))"
  shows "kernel_ok k'"
proof -
  from assms(2) obtain tid k1 s where e: "enterSys k = Inr (tid, k1)" and k': "k' = deliver E (k1\<lparr>k_env := s\<rparr>)"
    by (auto simp: in_process_def obnd_eq)
  from enterSys_kernel[OF assms(1) e] have "kernel_ok k1" by blast
  then show ?thesis unfolding k' by (intro deliver_kernel kernel_env)
qed

lemma sysread_kernel:
  assumes "kernel_ok k" "order_ok PE" "sysread E PE fd buf cnt k = Some (Inr (r, o', k'))"
  shows "kernel_ok k'"
proof -
  from assms(3) obtain tid k1 th s where e: "enterSys k = Inr (tid, k1)" and th: "k_threads k1 tid = Some th"
    and d: "(k' = k1\<lparr>k_env := s\<rparr>) \<or> (\<exists>p c o''. run_after PE (suspend PE (WStream p) c tid (k1\<lparr>k_env := s\<rparr>)) = Some (Inr (o'', k')))"
    by (auto simp: sysread_def obnd_eq deref_def Let_def res_simps split: option.splits if_splits) blast
  from enterSys_kernel[OF assms(1) e] have k1: "kernel_ok (k1\<lparr>k_env := s\<rparr>)" "k_current (k1\<lparr>k_env := s\<rparr>) = Some tid"
    using kernel_env by auto
  from d show ?thesis
  proof
    assume "\<exists>p c o''. run_after PE (suspend PE (WStream p) c tid (k1\<lparr>k_env := s\<rparr>)) = Some (Inr (o'', k'))"
    then obtain p c o'' where ra: "run_after PE (suspend PE (WStream p) c tid (k1\<lparr>k_env := s\<rparr>)) = Some (Inr (o'', k'))" by blast
    show ?thesis
      by (rule run_after_kernel[OF assms(2) ra]) (use suspend_parked[OF k1, where w = "WStream p"] th in auto)
  qed (use k1 in simp)
qed

lemma exec_start_threads:
  assumes "exec_start PE load pid f args k = Inr k'"
  shows "\<exists>s entry k1 g s' a. exec_threads PE (\<lambda>_. Inr s) entry 0 pid k = Inr k1 \<and> (\<forall>t. t_pid (g t) = t_pid t \<and> t_gid (g t) = t_gid t) \<and>
    k' = upd_thread pid g (k1\<lparr>k_env := s', k_active := a\<rparr>)"
proof -
  from assms obtain k1 k2 entry s k3 rsp s' where k: "stopCurent k = Inr k1" "process_clear PE pid k1 = Inr k2"
    "thread_new PE pid entry pid (k2\<lparr>k_env := s\<rparr>) = Inr k3"
    "k' = upd_thread pid (\<lambda>t. t\<lparr>t_ctx := (t_ctx t)\<lparr>cx_rsp := rsp, cx_rdi := of_nat (length args), cx_rsi := rsp\<rparr>\<rparr>)
      (k3\<lparr>k_env := s', k_active := Some pid\<rparr>)"
    by (auto simp: exec_start_def res_simps)
  let ?k = "upd_thread pid (\<lambda>t. t\<lparr>t_ctx := (t_ctx t)\<lparr>cx_rsp := 0\<rparr>\<rparr>) k3"
  let ?g = "\<lambda>t. t\<lparr>t_ctx := (t_ctx t)\<lparr>cx_rsp := rsp, cx_rdi := of_nat (length args), cx_rsi := rsp\<rparr>\<rparr>"
  have "exec_threads PE (\<lambda>_. Inr s) entry 0 pid k = Inr ?k" using k by (simp add: exec_threads_def)
  moreover have "k' = upd_thread pid ?g (?k\<lparr>k_env := s', k_active := Some pid\<rparr>)"
    unfolding k(4) by (cases "k_threads k3 pid") (simp_all add: upd_thread_def)
  ultimately show ?thesis by (intro exI[of _ s] exI[of _ entry] exI[of _ ?k] exI[of _ ?g] exI[of _ s'] exI[of _ "Some pid"]) simp
qed

lemma parked_upd: "parked k \<Longrightarrow> (\<And>t. t_pid (g t) = t_pid t \<and> t_gid (g t) = t_gid t) \<Longrightarrow> parked (upd_thread i g (k\<lparr>k_env := x, k_active := a\<rparr>))"
  using core_ok_upd_thread[of "k\<lparr>k_env := x, k_active := a\<rparr>" g i] by (auto simp: parked_def upd_thread_def split: if_splits)

lemma sysexec_kernel:
  assumes "kernel_ok k" "order_ok PE" "sysexec E PE load upath argv k = Some (Inr (r, o', k'))"
  shows "kernel_ok k'"
proof -
  from assms(3) obtain tid k1 th where e: "enterSys k = Inr (tid, k1)" and th: "k_threads k1 tid = Some th"
    by (auto simp: sysexec_def obnd_eq deref_def split: option.splits)
  note k1 = enterSys_kernel[OF assms(1) e]
  have "k' = k1 \<or> (\<exists>f args o''. run_after PE (exec_start PE load (t_pid th) f args k1) = Some (Inr (o'', k')))"
    using assms(3) e th
    by (auto simp: sysexec_def obnd_eq deref_def Let_def res_simps split: option.splits if_splits)
  then show ?thesis
  proof
    assume "\<exists>f args o''. run_after PE (exec_start PE load (t_pid th) f args k1) = Some (Inr (o'', k'))"
    then obtain f args o'' where ra: "run_after PE (exec_start PE load (t_pid th) f args k1) = Some (Inr (o'', k'))" by blast
    show ?thesis
    proof (rule run_after_kernel[OF assms(2) ra])
      fix k2 assume "exec_start PE load (t_pid th) f args k1 = Inr k2"
      from exec_start_threads[OF this] obtain s entry k3 g s' a where
        "exec_threads PE (\<lambda>_. Inr s) entry 0 (t_pid th) k1 = Inr k3" "\<forall>t. t_pid (g t) = t_pid t \<and> t_gid (g t) = t_gid t"
        "k2 = upd_thread (t_pid th) g (k3\<lparr>k_env := s', k_active := a\<rparr>)" by blast
      with exec_parked[OF _ assms(2) _ th] k1 show "parked k2" using parked_upd[of k3 g] by blast
    qed
  qed (use k1 in simp)
qed

definition keeps :: "('f, 'w) handler \<Rightarrow> bool" where
  "keeps h \<longleftrightarrow> (\<forall>a b c d e f k r o' k'. kernel_ok k \<longrightarrow> h a b c d e f k = Some (Inr (r, o', k')) \<longrightarrow> kernel_ok k')"

definition all_keep :: "(u64 \<Rightarrow> ('f, 'w) handler option) \<Rightarrow> bool" where
  "all_keep t \<longleftrightarrow> (\<forall>n h. t n = Some h \<longrightarrow> keeps h)"

lemma all_keep_upd: "all_keep t \<Longrightarrow> keeps h \<Longrightarrow> all_keep (t(n \<mapsto> h))"
  by (simp add: all_keep_def)

lemma keeps_in_process: "keeps (\<lambda>a b c d e f. in_process E (g a b c))"
  unfolding keeps_def using in_process_kernel by blast

lemma keeps_other:
  assumes "order_ok PE"
  shows "keeps (\<lambda>a b c _ _ _. sysread E PE a b c)" "keeps (\<lambda>a b _ _ _ _. sysclone PE a b)" "keeps (\<lambda>_ _ _ _ _ _. sysfork PE)"
    "keeps (\<lambda>a _ _ _ _ _. sysexit PE a)" "keeps (\<lambda>a b _ _ _ _. sysexec E PE load a b)" "keeps (\<lambda>a _ _ _ _ _. systexit PE a)"
    "keeps (\<lambda>a b _ _ _ _. Processes.syswait PE a b)" "keeps syserror" "keeps systest"
  unfolding keeps_def
  using sysread_kernel sysexec_kernel syswait_kernel fork_kernel clone_kernel exit_kernel texit_kernel assms
  by (auto simp: sysclone_def sysfork_def sysexit_def systexit_def syserror_def systest_def obnd_eq res_simps) 

lemma table_keeps:
  assumes "order_ok PE"
  shows "all_keep (syscallFill E PE load syscallInit)"
  unfolding syscallFill_def syscallInit_def syswrite_def
  by (intro all_keep_upd keeps_other[OF assms] keeps_in_process) (simp add: all_keep_def)

lemma syscall_keeps:
  assumes "order_ok PE" "kernel_ok k" "k_current k \<noteq> None"
    and "syscallInt PE (syscallFill E PE load syscallInit) par a b c d e f k = Some (Inr (r, o', k'))"
  shows "kernel_ok k'"
proof -
  let ?h = "if 255 < cx_rax par then syserror else case syscallFill E PE load syscallInit (cx_rax par) of Some h \<Rightarrow> h | None \<Rightarrow> syserror"
  have h: "keeps ?h" using table_keeps[OF assms(1), of E load] keeps_other(8)[OF assms(1)]
    by (auto simp: all_keep_def split: option.splits)
  from assms(4) obtain k1 k2 o2 where k1: "context_save par k = Inr k1" and k2: "?h a b c d e f k1 = Some (Inr (r, o2, k2))"
    and k': "k' = k2 \<or> (\<exists>o3. sysleave PE r k2 = Some (Inr (o3, k')))"
    by (auto simp: syscallInt_def Let_def obnd_eq split: if_splits)
  have "kernel_ok k1" using k1 step_kernel[OF kernel_step.trap[OF assms(3)] assms(2,1)] by (auto simp: context_save_def res_simps)
  then have "kernel_ok k2" using h k2 unfolding keeps_def by blast
  then show ?thesis using k' sysleave_kernel[OF _ assms(1)] by blast
qed

end
