(* ===== verification/SysFds.thy ===== *)
theory SysFds
  imports Syscalls
begin

text \<open>
  Reference counting of file descriptors through the system calls: every counter that a descriptor
  of some process refers to exists and is at least the number of descriptors that refer to
  it, so no system call uses an object after it was deleted; the surplus comes from growing the
  vector of descriptors, and with it streams that are never deleted.
\<close>

definition tab_owners :: "(u16 \<Rightarrow> 'f fd_vector) \<Rightarrow> nat multiset" where
  "tab_owners f = (\<Sum>p\<in>UNIV. owners_of (fv_data (f p)))"

text \<open>\<open>sys_inv L s\<close>: the counters are those of the descriptors plus the surplus \<open>L\<close>.\<close>

definition sys_inv :: "nat multiset \<Rightarrow> ('f, 'w) sys \<Rightarrow> bool" where
  "sys_inv L s \<longleftrightarrow> counts (L + tab_owners (sy_fds s)) (sy_heap s) \<and> (\<forall>p. \<forall>d\<in>set (fds p s). fd_wf d)"

definition sys_ok :: "('f, 'w) sys \<Rightarrow> bool" where
  "sys_ok s \<longleftrightarrow> (\<exists>L. sys_inv L s)"

lemma tab_owners_upd:
  "tab_owners (f(p := v)) + owners_of (fv_data (f p)) = tab_owners f + owners_of (fv_data v)"
proof -
  have s: "tab_owners g = owners_of (fv_data (g p)) + (\<Sum>q\<in>UNIV - {p}. owners_of (fv_data (g q)))" for g :: "u16 \<Rightarrow> 'a fd_vector"
    unfolding tab_owners_def by (rule sum.remove) simp_all
  have "(\<Sum>q\<in>UNIV - {p}. owners_of (fv_data ((f(p := v)) q))) = (\<Sum>q\<in>UNIV - {p}. owners_of (fv_data (f q)))"
    by (rule sum.cong) simp_all
  then show ?thesis using s[of f] s[of "f(p := v)"] by (simp add: ac_simps)
qed

lemma tab_owners_sub: "owners_of (fv_data (f p)) \<subseteq># tab_owners f"
  unfolding tab_owners_def by (subst sum.remove[of UNIV p]) simp_all

lemma sys_fits: "sys_inv L s \<Longrightarrow> fits (sy_fds s p) (L + tab_owners (sy_fds s))"
  using tab_owners_sub[of "sy_fds s" p] by (auto simp: sys_inv_def fits_def fds_def intro: subset_mset.add_increasing)

lemma sys_inv_world [simp]:
  "sys_inv L (set_world w s) = sys_inv L s" "sys_inv L (s\<lparr>sy_mem := m\<rparr>) = sys_inv L s" "sys_inv L (s\<lparr>sy_wd := d\<rparr>) = sys_inv L s"
  by (simp_all add: sys_inv_def set_world_def fds_def)

lemma fds_simps [simp]:
  "fds p (set_world w s) = fds p s" "world (set_world w s) = w" "sy_fds (set_world w s) = sy_fds s" "sy_mem (set_world w s) = sy_mem s"
  "sy_wd (set_world w s) = sy_wd s"
  by (simp_all add: set_world_def fds_def world_def)

text \<open>Replacing the vector of one process.\<close>

lemma sys_inv_replace:
  assumes "sys_inv L s" "counts M h" "M + owners_of (fds p s) = L' + tab_owners (sy_fds s) + owners_of (fv_data v)" "\<forall>d\<in>set (fv_data v). fd_wf d"
  shows "sys_inv L' (s\<lparr>sy_fds := (sy_fds s)(p := v), sy_heap := h\<rparr>)"
proof -
  have "M + owners_of (fds p s) = L' + tab_owners ((sy_fds s)(p := v)) + owners_of (fds p s)"
    using tab_owners_upd[of "sy_fds s" p v] assms(3) by (simp add: fds_def add.assoc)
  then have "M = L' + tab_owners ((sy_fds s)(p := v))" by simp
  then show ?thesis using assms by (auto simp: sys_inv_def fds_def)
qed

text \<open>The surplus after growing: nothing, or the descriptors once more.\<close>

definition surplus :: "u16 \<Rightarrow> nat \<Rightarrow> ('f, 'w) sys \<Rightarrow> nat multiset" where
  "surplus p n s = (if length (fds p s) < n \<and> fv_cap (sy_fds s p) < n then owners_of (fds p s) else {#})"

lemma fds_room_inv:
  assumes "sys_inv L s"
  shows "\<exists>s'. fds_room E p i s = Inr s' \<and> sys_inv (L + surplus p (i + 1) s) s' \<and> world s' = world s \<and> sy_mem s' = sy_mem s \<and>
    sy_wd s' = sy_wd s \<and> i < length (fds p s') \<and> length (fds p s) \<le> length (fds p s') \<and> (\<forall>q. q \<noteq> p \<longrightarrow> fds q s' = fds q s)"
proof (cases "length (fds p s) \<le> i")
  case False
  then show ?thesis using assms by (auto simp: fds_room_def surplus_def)
next
  case True
  then have lt: "length (fv_data (sy_fds s p)) < i + 1" by (simp add: fds_def)
  have c: "counts (L + tab_owners (sy_fds s)) (sy_heap s)" using assms by (simp add: sys_inv_def)
  from fv_grow_counts[OF c sys_fits[OF assms] lt, of E] obtain v h X where
    v: "fv_resize E (i + 1) (sy_fds s p) (sy_heap s) = Inr (v, h)" "counts (L + tab_owners (sy_fds s) + X) h" "fh_world h = world s"
      "i + 1 \<le> fv_cap (sy_fds s p) \<longrightarrow> X = {#}" "fv_cap (sy_fds s p) < i + 1 \<longrightarrow> X = owners_of (fds p s)"
      "owners_of (fv_data v) = owners_of (fds p s)" "fits v (L + tab_owners (sy_fds s))" "length (fv_data v) = i + 1"
    unfolding fds_def world_def by blast
  have X: "X = surplus p (i + 1) s" using v(4,5) True by (auto simp: surplus_def)
  have "sys_inv (L + X) (s\<lparr>sy_fds := (sy_fds s)(p := v), sy_heap := h\<rparr>)"
    by (rule sys_inv_replace[OF assms v(2)]) (use v(6,7) in \<open>simp_all add: fits_def ac_simps\<close>)
  then show ?thesis using True v by (simp add: X fds_room_def fds_resize_def) (simp add: fds_def world_def)
qed

lemma fds_put_inv:
  fixes E :: "('f, 'w, 'z) sys_ops_scheme" and s :: "('f, 'w) sys"
  assumes "sys_inv L s" "counts (L + tab_owners (sy_fds s) + owner_of tmp) h" "fd_wf tmp" "i < length (fds p s)"
  shows "yields E (\<lambda>s'. sys_inv L s' \<and> length (fds p s') = length (fds p s)) (fds_put E p i tmp (s\<lparr>sy_heap := h\<rparr>))"
proof -
  have i: "i < length (fv_data (sy_fds s p))" using assms(4) by (simp add: fds_def)
  let ?o = "owner_of (fv_data (sy_fds s p) ! i)"
  have sub: "?o \<subseteq># L + tab_owners (sy_fds s)"
    using owners_of_nth[OF i] sys_fits[OF assms(1), of p] unfolding fits_def by (meson subset_mset.order_trans)
  have step: "sys_inv L (s\<lparr>sy_fds := (sy_fds s)(p := v), sy_heap := h'\<rparr>) \<and> length (fds p (s\<lparr>sy_fds := (sy_fds s)(p := v), sy_heap := h'\<rparr>)) = length (fds p s)"
    if h': "counts (L + tab_owners (sy_fds s) - ?o + owner_of tmp) h'" and f: "fits v (L + tab_owners (sy_fds s) - ?o + owner_of tmp)"
      and o: "owners_of (fv_data v) + ?o = owners_of (fv_data (sy_fds s p)) + owner_of tmp" and l: "length (fv_data v) = length (fv_data (sy_fds s p))"
    for v :: "'f fd_vector" and h' :: "'w fd_heap"
  proof -
    have "L + tab_owners (sy_fds s) - ?o + owner_of tmp + owners_of (fds p s) + ?o = (L + tab_owners (sy_fds s) - ?o + ?o) + (owners_of (fds p s) + owner_of tmp)"
      by (simp add: ac_simps)
    also have "\<dots> = L + tab_owners (sy_fds s) + owners_of (fv_data v) + ?o"
      unfolding subset_mset.diff_add[OF sub] using o by (simp add: fds_def ac_simps)
    finally have "sys_inv L (s\<lparr>sy_fds := (sy_fds s)(p := v), sy_heap := h'\<rparr>)"
      using sys_inv_replace[OF assms(1) h', of p L v] f by (simp add: fits_def)
    then show ?thesis using l by (simp add: sys_inv_def fds_def)
  qed
  show ?thesis unfolding fds_put_def
    by (auto intro!: yields_bnd[OF fv_put_yields[OF assms(2) sys_fits[OF assms(1)] assms(3) i]]) (use step in blast)+
qed

definition maker :: "('w fd_heap \<Rightarrow> 'f fdesc \<times> 'w fd_heap) \<Rightarrow> bool" where
  "maker mk \<longleftrightarrow> (\<forall>M h. counts M h \<longrightarrow> counts (M + owner_of (fst (mk h))) (snd (mk h)) \<and> fd_wf (fst (mk h)))"

lemma fd_stream_counts:
  assumes "counts M h"
  shows "counts (M + owner_of (fst (fd_stream str h))) (snd (fd_stream str h))"
proof -
  obtain c h' where n: "new_owners h = (c, h')" by fastforce
  show ?thesis using new_owners_counts[OF assms n] n by (simp add: fd_stream_def owner_of_def)
qed

lemma fd_stream_counts_world:
  "counts M h \<Longrightarrow> counts (M + owner_of (fst (fd_stream str (h\<lparr>fh_world := w\<rparr>)))) (snd (fd_stream str (h\<lparr>fh_world := w\<rparr>)))"
  using fd_stream_counts[of M "h\<lparr>fh_world := w\<rparr>"] by simp

lemma new_owners_counts_world:
  "counts M h \<Longrightarrow> counts (add_mset (fst (new_owners h)) M) ((snd (new_owners h))\<lparr>fh_world := w\<rparr>)"
  "counts M h \<Longrightarrow> counts (add_mset (fst (new_owners h)) M) (snd (new_owners h))"
  using new_owners_counts[of M h "fst (new_owners h)" "snd (new_owners h)"] by simp_all

lemma makerI:
  "(\<And>M h. counts M h \<Longrightarrow> counts (M + owner_of (fst (mk h))) (snd (mk h))) \<Longrightarrow> (\<And>h. fd_wf (fst (mk h))) \<Longrightarrow> maker mk"
  by (simp add: maker_def)

lemma maker_stream:
  "maker (\<lambda>h. case g (fh_world h) of (str, w) \<Rightarrow> fd_stream str (h\<lparr>fh_world := w\<rparr>))"
  "maker (fd_pipeOut E' ps)" "maker (fd_pipeIn E' ps)"
  unfolding split_beta fd_pipeOut_def fd_pipeIn_def by (rule makerI, erule fd_stream_counts_world, rule fd_wf_constructors(1))+

lemma maker_other: "maker (\<lambda>h. (fd_empty, h))" "maker (fd_directory E d)" "maker (fd_gwindow E win)" "maker (fd_twindow win)"
proof -
  show "maker (\<lambda>h. (fd_empty, h))" by (rule makerI) simp_all
  show "maker (fd_directory E d)"
    by (rule makerI[OF _ fd_wf_constructors(2)]) (simp add: fd_directory_def owner_of_def split_beta new_owners_counts_world)
  show "maker (fd_gwindow E win)"
    by (rule makerI[OF _ fd_wf_constructors(3)]) (simp add: fd_gwindow_def owner_of_def split_beta new_owners_counts_world)
  show "maker (fd_twindow win)"
    by (rule makerI[OF _ fd_wf_constructors(4)]) (simp add: fd_twindow_def owner_of_def split_beta new_owners_counts_world)
qed

lemmas makers = maker_stream maker_other

lemma fds_set_inv:
  fixes E :: "('f, 'w, 'z) sys_ops_scheme" and s :: "('f, 'w) sys"
  assumes "sys_inv L s" "maker mk" "i < length (fds p s)"
  shows "yields E (\<lambda>s'. sys_inv L s' \<and> length (fds p s') = length (fds p s)) (fds_set E p i mk s)"
proof -
  have "counts (L + tab_owners (sy_fds s)) (sy_heap s)" using assms(1) by (simp add: sys_inv_def)
  with assms(2) have "counts (L + tab_owners (sy_fds s) + owner_of (fst (mk (sy_heap s)))) (snd (mk (sy_heap s)))" "fd_wf (fst (mk (sy_heap s)))"
    unfolding maker_def by blast+
  from fds_put_inv[OF assms(1) this assms(3), of E] show ?thesis by (simp add: fds_set_def split_beta)
qed

lemma fd_wf_mask [simp]: "fd_wf (d\<lparr>fd_mask := m\<rparr>) = fd_wf d" "owner_of (d\<lparr>fd_mask := m\<rparr>) = owner_of d"
  by (simp_all add: fd_wf_def fd_hasStream_def fd_isWin_def fd_isDir_def owner_of_def)

lemma owners_of_mask: "i < length ds \<Longrightarrow> owners_of (ds[i := (ds ! i)\<lparr>fd_mask := m\<rparr>]) = owners_of ds"
  using owners_of_update[of i ds "(ds ! i)\<lparr>fd_mask := m\<rparr>"] by simp

lemma fds_mask_inv:
  assumes "sys_inv L s" "i < length (fds p s)"
  shows "sys_inv L (fds_mask p i m s)"
proof -
  let ?v = "(sy_fds s p)\<lparr>fv_data := (fds p s)[i := (fds p s ! i)\<lparr>fd_mask := m\<rparr>]\<rparr>"
  have wf: "\<forall>d\<in>set (fds p s). fd_wf d" using assms(1) by (simp add: sys_inv_def)
  then have "fd_wf (fds p s ! i)" using assms(2) by simp
  with wf have "\<forall>d\<in>set (fv_data ?v). fd_wf d" by (auto dest!: set_update_subset_insert[THEN subsetD])
  then have "sys_inv L (s\<lparr>sy_fds := (sy_fds s)(p := ?v), sy_heap := sy_heap s\<rparr>)"
    by (intro sys_inv_replace[OF assms(1), where M = "L + tab_owners (sy_fds s)"])
      (use assms owners_of_mask[of i "fds p s" m] in \<open>simp_all add: sys_inv_def\<close>)
  then show ?thesis by (simp add: fds_mask_def)
qed

text \<open>The number the new descriptor gets, and the surplus a full vector causes.\<close>

lemma open_file_inv:
  fixes E :: "('f, 'w, 'z) sys_ops_scheme" and s :: "('f, 'w) sys"
  assumes "sys_inv L s"
  shows "yields E (\<lambda>(r, s'). r = of_nat (length (fds p s)) \<and> sys_inv (L + surplus p (length (fds p s) + 1) s) s') (open_file E p f flags s)"
proof -
  let ?n = "length (fds p s)"
  from fds_room_inv[OF assms, of E p ?n] obtain s1 where s1: "fds_room E p ?n s = Inr s1" "sys_inv (L + surplus p (?n + 1) s) s1"
    "?n < length (fds p s1)" by blast
  show ?thesis unfolding open_file_def getFreeFD_def Let_def s1(1) bnd.simps
  proof (rule yields_bnd[OF fds_set_inv[OF s1(2) _ s1(3)]])
    fix s2 assume "sys_inv (L + surplus p (?n + 1) s) s2 \<and> length (fds p s2) = length (fds p s1)"
    then show "yields E (\<lambda>(r, s'). r = of_nat ?n \<and> sys_inv (L + surplus p (?n + 1) s) s')
      (Inr (of_nat ?n, fds_mask p ?n (SEEKABLE OR (if flags AND O_RDONLY \<noteq> 0 then READABLE OR WAITABLE else 0)
         OR (if flags AND O_WRONLY \<noteq> 0 then WRITABLE OR APPENDABLE else 0)) s2))"
      using fds_mask_inv[of "L + surplus p (?n + 1) s" s2 ?n p] s1(3) by simp
  qed (rule maker_stream(1))
qed

lemma sysclose_inv:
  fixes E :: "('f, 'w, 'z) sys_ops_scheme" and s :: "('f, 'w) sys"
  assumes "sys_inv L s"
  shows "yields E (\<lambda>(r, s'). sys_inv L s') (sysclose E p fd s)"
proof (cases "length (fds p s) \<le> unat fd \<or> fd_isEmpty (fds p s ! unat fd)")
  case True
  then show ?thesis using assms by (auto simp: sysclose_def with_fd_def)
next
  case False
  then have l: "unat fd < length (fds p s)" by simp
  show ?thesis using False
    by (auto simp: sysclose_def with_fd_def intro!: yields_bnd[OF fds_set_inv[OF assms maker_other(1) l, of E]])
qed

lemma fd_assign_Inr:
  fixes E :: "('f, 'w, 'z) fd_ops_scheme" and h :: "'w fd_heap"
  assumes "counts M h" "owner_of this \<subseteq># M" "fd_wf d" "fd_assign E this d h = Inr (d', h')"
  shows "counts (M - owner_of this + owner_of d) h' \<and> owner_of d' = owner_of d \<and> fd_wf d'"
proof -
  from assms(4) obtain h1 where h1: "fd_drop E this h = Inr h1" "fd_copy d h1 = Inr (d', h')" by (auto simp: fd_assign_def res_simps)
  from fd_drop_counts[OF assms(1,2) h1(1)] have c: "counts (M - owner_of this) h1" .
  have "owner_of d \<subseteq># M - owner_of this"
  proof (cases "fd_owners d")
    case (Some o')
    then have "fh_cnt h1 o' \<noteq> None" using h1(2) by (cases "fh_cnt h1 o'") (auto simp: fd_copy_def Let_def)
    then have "o' \<in># M - owner_of this" using c by (auto simp: counts_def split: if_splits)
    then show ?thesis using Some by (simp add: owner_of_def)
  qed (simp add: owner_of_def)
  from fd_copy_counts[OF c this] h1(2) fd_wf_copy[OF h1(2) assms(3)] show ?thesis by auto
qed

text \<open>Assigning one descriptor of a vector to another.\<close>

lemma fds_assign_inv:
  fixes E :: "('f, 'w, 'z) sys_ops_scheme" and s :: "('f, 'w) sys"
  assumes "sys_inv L s" "i < length (fds p s)" "j < length (fds p s)" "fd_assign E (fds p s ! i) (fds p s ! j) (sy_heap s) = Inr (d, h)"
  shows "sys_inv L (s\<lparr>sy_fds := (sy_fds s)(p := (sy_fds s p)\<lparr>fv_data := (fds p s)[i := d]\<rparr>), sy_heap := h\<rparr>)"
proof -
  let ?M = "L + tab_owners (sy_fds s)" and ?o = "owner_of (fds p s ! i)"
  have c: "counts ?M (sy_heap s)" and wf: "\<forall>d\<in>set (fds p s). fd_wf d" using assms(1) by (simp_all add: sys_inv_def)
  have sub: "?o \<subseteq># ?M" using owners_of_nth[of i "fds p s"] assms(2) sys_fits[OF assms(1), of p]
    unfolding fits_def fds_def by (meson subset_mset.order_trans)
  from fd_assign_Inr[OF c sub _ assms(4)] wf assms(3) have d: "counts (?M - ?o + owner_of (fds p s ! j)) h" "owner_of d = owner_of (fds p s ! j)" "fd_wf d"
    by simp_all
  have "?M - ?o + owner_of (fds p s ! j) + owners_of (fds p s) + ?o = ?M + owners_of ((fds p s)[i := d]) + ?o"
  proof -
    have "?M - ?o + owner_of (fds p s ! j) + owners_of (fds p s) + ?o = (?M - ?o + ?o) + (owners_of (fds p s) + owner_of d)"
      using d(2) by (simp add: ac_simps)
    also have "\<dots> = ?M + (owners_of ((fds p s)[i := d]) + ?o)"
      unfolding subset_mset.diff_add[OF sub] owners_of_update[OF assms(2), symmetric] ..
    finally show ?thesis by (simp add: ac_simps)
  qed
  then show ?thesis
    by (intro sys_inv_replace[OF assms(1) d(1)]) (use d(3) wf in \<open>auto dest!: set_update_subset_insert[THEN subsetD]\<close>)
qed

section \<open>Every system call keeps the counters\<close>

definition keeps_ok :: "('f, 'w) sys \<Rightarrow> ('f, 'w) sys \<Rightarrow> bool" where
  "keeps_ok s s' \<longleftrightarrow> (sys_ok s \<longrightarrow> sys_ok s')"

lemma keeps_okI: "(\<And>L. sys_inv L s \<Longrightarrow> sys_ok s') \<Longrightarrow> keeps_ok s s'"
  by (auto simp: keeps_ok_def sys_ok_def)

lemma keeps_ok_trans: "keeps_ok s t \<Longrightarrow> keeps_ok t u \<Longrightarrow> keeps_ok s u"
  by (simp add: keeps_ok_def)

lemma sys_ok_simps [simp]:
  "sys_ok (set_world w s) = sys_ok s" "sys_ok (s\<lparr>sy_mem := m\<rparr>) = sys_ok s" "sys_ok (s\<lparr>sy_wd := d\<rparr>) = sys_ok s"
  by (simp_all add: sys_ok_def)

lemma um_put_ok: "um_put p a bs s = Inr s' \<Longrightarrow> sys_ok s' = sys_ok s"
  by (auto simp: um_put_def res_simps)

lemma um_put_fds: "um_put p a bs s = Inr s' \<Longrightarrow> sy_fds s' = sy_fds s \<and> sy_heap s' = sy_heap s \<and> sy_wd s' = sy_wd s"
  by (auto simp: um_put_def res_simps)

lemma yields_Inr: "yields E P m \<Longrightarrow> m = Inr x \<Longrightarrow> P x"
  by simp

lemma room_keeps: "fds_room E p i s = Inr s' \<Longrightarrow> keeps_ok s s'"
  using fds_room_inv[of _ s E p i] by (fastforce intro!: keeps_okI simp: sys_ok_def)

lemma room_length: "sys_ok s \<Longrightarrow> fds_room E p i s = Inr s' \<Longrightarrow> i < length (fds p s')"
  using fds_room_inv[of _ s E p i] by (fastforce simp: sys_ok_def)

lemma set_keeps:
  fixes E :: "('f, 'w, 'z) sys_ops_scheme" and s :: "('f, 'w) sys"
  assumes "fds_set E p i mk s = Inr s'" "maker mk" "i < length (fds p s)"
  shows "keeps_ok s s'" "sys_ok s \<Longrightarrow> length (fds p s') = length (fds p s)"
proof -
  have *: "sys_inv L s \<Longrightarrow> sys_inv L s' \<and> length (fds p s') = length (fds p s)" for L
    using yields_Inr[OF fds_set_inv[OF _ assms(2,3), of _ E] assms(1)] .
  show "keeps_ok s s'" "sys_ok s \<Longrightarrow> length (fds p s') = length (fds p s)"
    unfolding keeps_ok_def sys_ok_def using * by blast+
qed

lemma close_keeps: "sysclose E p fd s = Inr (r, s') \<Longrightarrow> keeps_ok s s'"
  using yields_Inr[OF sysclose_inv[of _ s E p fd]] by (fastforce intro!: keeps_okI simp: sys_ok_def)

lemma file_keeps: "open_file E p f flags s = Inr (r, s') \<Longrightarrow> keeps_ok s s'"
  using yields_Inr[OF open_file_inv[of _ s E p f flags]] by (fastforce intro!: keeps_okI simp: sys_ok_def)

lemma open_keeps:
  assumes "sysopen E p a flags s = Some (Inr (r, s'))"
  shows "keeps_ok s s'"
proof -
  from assms have "s' = s \<or> (\<exists>f w. open_file E p f flags (set_world w s) = Inr (r, s')) \<or> (\<exists>f. open_file E p f flags s = Inr (r, s'))"
    by (auto simp: sysopen_def obnd_eq split: if_splits option.splits prod.splits) blast
  then show ?thesis using file_keeps[of E p _ flags] by (fastforce simp: keeps_ok_def)
qed

lemma assign_keeps:
  fixes E :: "('f, 'w, 'z) sys_ops_scheme" and s :: "('f, 'w) sys"
  assumes "fd_assign E (fds p s ! i) (fds p s ! j) (sy_heap s) = Inr (d, h)" "i < length (fds p s)" "j < length (fds p s)"
  shows "keeps_ok s (s\<lparr>sy_fds := (sy_fds s)(p := (sy_fds s p)\<lparr>fv_data := (fds p s)[i := d]\<rparr>), sy_heap := h\<rparr>)"
  unfolding keeps_ok_def sys_ok_def using fds_assign_inv[OF _ assms(2,3,1)] by blast

lemma dup_keeps:
  assumes "sysdup E p oldfd s = Inr (r, s')"
  shows "keeps_ok s s'"
proof (cases "s' = s")
  case False
  then obtain s1 d h where l: "unat oldfd < length (fds p s)" and s1: "fds_room E p (length (fds p s)) s = Inr s1"
    and a: "fd_assign E (fds p s1 ! length (fds p s)) (fds p s1 ! unat oldfd) (sy_heap s1) = Inr (d, h)"
    and s': "s' = s1\<lparr>sy_fds := (sy_fds s1)(p := (sy_fds s1 p)\<lparr>fv_data := (fds p s1)[length (fds p s) := d]\<rparr>), sy_heap := h\<rparr>"
    using assms False by (auto simp: sysdup_def with_fd_def getFreeFD_def Let_def res_simps split: if_splits)
  show ?thesis
  proof (rule keeps_okI)
    fix L assume "sys_inv L s"
    then have "sys_ok s" by (auto simp: sys_ok_def)
    then have "sys_ok s1" "length (fds p s) < length (fds p s1)" using room_keeps[OF s1] room_length[OF _ s1] by (simp_all add: keeps_ok_def)
    then show "sys_ok s'" using assign_keeps[OF a] l unfolding s' by (simp add: keeps_ok_def)
  qed
qed (simp add: keeps_ok_def)

lemma dup2_keeps:
  assumes "sysdup2 E p oldfd newfd s = Inr (r, s')"
  shows "keeps_ok s s'"
proof (cases "s' = s")
  case False
  let ?m = "if length (fds p s) \<le> unat newfd then fds_resize E p (unat (newfd + 1)) s else Inr s"
  obtain s1 d h where l: "unat oldfd < length (fds p s)" and s1: "?m = Inr s1"
    and i: "unat newfd < length (fds p s1)" "unat oldfd < length (fds p s1)"
    and a: "fd_assign E (fds p s1 ! unat newfd) (fds p s1 ! unat oldfd) (sy_heap s1) = Inr (d, h)"
    and s': "s' = s1\<lparr>sy_fds := (sy_fds s1)(p := (sy_fds s1 p)\<lparr>fv_data := (fds p s1)[unat newfd := d]\<rparr>), sy_heap := h\<rparr>"
    using assms False by (auto simp: sysdup2_def with_fd_def res_simps split: if_splits)
  have "fds_room E p (unat newfd) s = Inr s1"
  proof (cases "newfd = - 1")
    case True
    then show ?thesis using s1 i(1) l
      by (auto simp: fds_room_def fds_resize_def fv_resize_def Let_def res_simps fds_def split: if_splits)
  next
    case False
    then have "unat (newfd + 1) = unat newfd + 1" using unatSuc[of newfd] by (metis Suc_eq_plus1 add.commute add_eq_0_iff)
    then show ?thesis using s1 by (cases "length (fds p s) \<le> unat newfd") (simp_all add: fds_room_def)
  qed
  then show ?thesis using keeps_ok_trans[OF room_keeps assign_keeps[OF a i]] unfolding s' by blast
qed (simp add: keeps_ok_def)

lemma pipe_keeps:
  fixes E :: "('f, 'w, 'z) sys_ops_scheme" and s :: "('f, 'w) sys"
  assumes "syspipe E p a s = Inr (r, s')"
  shows "keeps_ok s s'"
proof (cases "s' = s")
  case False
  obtain s1 s2 s3 s4 s5 q where s: "um_put p a (le_bytes 4 (length (fds p s))) s = Inr s1" "fds_room E p (length (fds p s)) s1 = Inr s2"
    "um_put p (a + 4) (le_bytes 4 (length (fds p s2))) s2 = Inr s3" "fds_room E p (length (fds p s2)) s3 = Inr s4"
    "\<exists>w. fds_set E p (length (fds p s)) (fd_pipeOut E q) (set_world w s4) = Inr s5" "fds_set E p (length (fds p s2)) (fd_pipeIn E q) s5 = Inr s'"
    using assms False
    by (auto simp: syspipe_def Let_def getFreeFD_def res_simps split_beta split: if_splits) blast
  show ?thesis
  proof (rule keeps_okI)
    fix L assume "sys_inv L s"
    then have "sys_ok s" by (auto simp: sys_ok_def)
    then have "sys_ok s1" using um_put_ok[OF s(1)] by simp
    then have s2: "sys_ok s2" "length (fds p s) < length (fds p s2)" using room_keeps[OF s(2)] room_length[OF _ s(2)] by (simp_all add: keeps_ok_def)
    then have "sys_ok s3" using um_put_ok[OF s(3)] by simp
    then have s4: "sys_ok s4" "length (fds p s2) < length (fds p s4)" using room_keeps[OF s(4)] room_length[OF _ s(4)] by (simp_all add: keeps_ok_def)
    from s(5) obtain w where w: "fds_set E p (length (fds p s)) (fd_pipeOut E q) (set_world w s4) = Inr s5" by blast
    have "sys_ok s5" "length (fds p s5) = length (fds p s4)" using set_keeps[OF w maker_stream(2)] s4 s2(2) by (simp_all add: keeps_ok_def)
    then show "sys_ok s'" using set_keeps(1)[OF s(6) maker_stream(3)] s4(2) by (simp add: keeps_ok_def)
  qed
qed (simp add: keeps_ok_def)

lemma same_keeps: "sy_fds s' = sy_fds s \<Longrightarrow> fh_cnt (sy_heap s') = fh_cnt (sy_heap s) \<Longrightarrow> fh_next (sy_heap s') = fh_next (sy_heap s) \<Longrightarrow> keeps_ok s s'"
  by (simp add: keeps_ok_def sys_ok_def sys_inv_def counts_def fds_def)

definition untouched :: "('f, 'w) sys \<Rightarrow> ('f, 'w) sys \<Rightarrow> bool" where
  "untouched s s' \<longleftrightarrow> sy_fds s' = sy_fds s \<and> fh_cnt (sy_heap s') = fh_cnt (sy_heap s) \<and> fh_next (sy_heap s') = fh_next (sy_heap s)"

lemma untouched_simps [simp]: "untouched s s" "untouched s (set_world w s)" "untouched s (s\<lparr>sy_wd := d\<rparr>)"
  by (simp_all add: untouched_def set_world_def)

lemma untouched_put: "um_put p a bs s' = Inr s'' \<Longrightarrow> untouched s s' \<Longrightarrow> untouched s s''"
  using um_put_fds[of p a bs s' s''] by (simp add: untouched_def)

lemma untouched_mem: "untouched s s' \<Longrightarrow> untouched s (set_world w s')" "untouched s s' \<Longrightarrow> untouched s (s'\<lparr>sy_mem := m\<rparr>)"
  by (simp_all add: untouched_def set_world_def)

text \<open>\<open>leaves s m\<close>: if \<open>m\<close> returns, the descriptors are those of \<open>s\<close>. The rules follow the code.\<close>

definition leaves :: "('f, 'w) sys \<Rightarrow> (u64 \<times> ('f, 'w) sys) res \<Rightarrow> bool" where
  "leaves s m \<longleftrightarrow> (\<forall>r s'. m = Inr (r, s') \<longrightarrow> untouched s s')"

definition oleaves :: "('f, 'w) sys \<Rightarrow> (u64 \<times> ('f, 'w) sys) res option \<Rightarrow> bool" where
  "oleaves s m \<longleftrightarrow> (\<forall>r s'. m = Some (Inr (r, s')) \<longrightarrow> untouched s s')"

named_theorems leaves_rules \<open>rules for operations that leave the descriptors alone\<close>

lemma leaves_world [leaves_rules]:
  "leaves s (Inl e)" "untouched s s' \<Longrightarrow> leaves s (Inr (r, s'))" "(\<And>x. m' = Inr x \<Longrightarrow> leaves s (f x)) \<Longrightarrow> leaves s (bnd m' f)"
  "(\<And>a b. leaves s (g a b)) \<Longrightarrow> leaves s (case x of (a, b) \<Rightarrow> g a b)" "leaves s m \<Longrightarrow> leaves s n \<Longrightarrow> leaves s (if c then m else n)"
  "leaves s m \<Longrightarrow> leaves s (check c e m)" "leaves s m \<Longrightarrow> (\<And>y. leaves s (k y)) \<Longrightarrow> leaves s (case z of None \<Rightarrow> m | Some y \<Rightarrow> k y)"
  "(\<And>d. leaves s (h d)) \<Longrightarrow> leaves s (with_fd p fd s h)"
  by (auto simp: leaves_def check_def with_fd_def bnd_eq_Inr split: prod.splits option.splits if_splits)

lemma leaves_fds [leaves_rules]:
  "leaves s m \<Longrightarrow> oleaves s (Some m)" "(\<And>x. oleaves s (f x)) \<Longrightarrow> oleaves s (obnd om f)"
  "(\<And>a b. oleaves s (g a b)) \<Longrightarrow> oleaves s (case x of (a, b) \<Rightarrow> g a b)" "oleaves s o1 \<Longrightarrow> oleaves s o2 \<Longrightarrow> oleaves s (if c then o1 else o2)"
  "oleaves s o1 \<Longrightarrow> (\<And>y. oleaves s (k y)) \<Longrightarrow> oleaves s (case z of None \<Rightarrow> o1 | Some y \<Rightarrow> k y)"
  by (auto simp: leaves_def oleaves_def obnd_eq split: prod.splits option.splits if_splits)

lemma leaves_fault [leaves_rules]:
  "untouched s s" "untouched s s' \<Longrightarrow> untouched s (set_world w s')" "untouched s s' \<Longrightarrow> untouched s (s'\<lparr>sy_wd := d\<rparr>)"
  by (simp_all add: untouched_def set_world_def)

lemmas put_untouched = untouched_put[OF _ untouched_simps(2)]

lemma stream_leaves:
  "leaves s (nbread E p fd4 buf cnt s)" "leaves s (swrite E p fd4 buf cnt s)" "leaves s (sysseek E p fd off mode s)"
  "leaves s (sysreadd E p fd a s)"
proof -
  show "leaves s (nbread E p fd4 buf cnt s)" unfolding nbread_def by (intro leaves_rules) (erule put_untouched)+
  show "leaves s (swrite E p fd4 buf cnt s)" unfolding swrite_def by (intro leaves_rules)
  show "leaves s (sysseek E p fd off mode s)" unfolding sysseek_def Let_def by (intro leaves_rules)
  show "leaves s (sysreadd E p fd a s)" unfolding sysreadd_def by (intro leaves_rules) (erule put_untouched)+
qed

lemma path_leaves:
  "oleaves s (syschdir E p a s)" "oleaves s (sysmkdir E p a s)" "oleaves s (sysrmdir E p a s)" "oleaves s (sysunlink E p a s)"
  "oleaves s (syslink E p a b s)" "oleaves s (sysrename E p a b s)"
proof -
  note defs = user_path_def with_dir_def with_file_def
  show "oleaves s (syschdir E p a s)" unfolding syschdir_def defs by (intro leaves_rules)
  show "oleaves s (sysmkdir E p a s)" unfolding sysmkdir_def defs by (intro leaves_rules)
  show "oleaves s (sysrmdir E p a s)" unfolding sysrmdir_def defs by (intro leaves_rules)
  show "oleaves s (sysunlink E p a s)" unfolding sysunlink_def defs by (intro leaves_rules)
  show "oleaves s (syslink E p a b s)" unfolding syslink_def defs by (intro leaves_rules)
  show "oleaves s (sysrename E p a b s)" unfolding sysrename_def defs by (intro leaves_rules)
qed

lemma win_leaves:
  "leaves s (sysresizewin E p fd sz off s)" "leaves s (sysgetevt E p fd s)"
proof -
  have "with_gui E s g = Inr x \<Longrightarrow> untouched s x" for g x
    by (auto simp: with_gui_def res_simps)
  then show "leaves s (sysresizewin E p fd sz off s)"
    unfolding sysresizewin_def with_win_def Let_def by (intro leaves_rules)
  show "leaves s (sysgetevt E p fd s)"
    by (auto simp: leaves_def sysgetevt_def with_fd_def the_win_def split: if_splits option.splits wkind.splits prod.splits)
qed

lemma leavesD: "leaves s m \<Longrightarrow> m = Inr (r, s') \<Longrightarrow> untouched s s'" "oleaves s om \<Longrightarrow> om = Some (Inr (r, s')) \<Longrightarrow> untouched s s'"
  by (simp_all add: leaves_def oleaves_def)

lemmas leaves_step = stream_leaves[THEN leavesD(1)] win_leaves[THEN leavesD(1)] path_leaves[THEN leavesD(2)]

lemma keeps_ok_refl [simp]: "keeps_ok s s"
  by (simp add: keeps_ok_def)

lemma untouched_keeps: "untouched s s' \<Longrightarrow> keeps_ok s s'"
  by (simp add: untouched_def same_keeps)

lemma opend_keeps:
  assumes "sysopend E p a s = Some (Inr (r, s'))"
  shows "keeps_ok s s'"
proof (cases "s' = s")
  case False
  then obtain d s1 where s1: "fds_room E p (length (fds p s)) s = Inr s1" "fds_set E p (length (fds p s)) (fd_directory E d) s1 = Inr s'"
    using assms by (auto simp: sysopend_def user_path_def with_dir_def with_file_def obnd_eq getFreeFD_def Let_def res_simps split: if_splits option.splits)
  show ?thesis
  proof (rule keeps_okI)
    fix L assume "sys_inv L s"
    then have ok: "sys_ok s" by (auto simp: sys_ok_def)
    then show "sys_ok s'" using room_keeps[OF s1(1)] set_keeps(1)[OF s1(2) maker_other(2) room_length[OF ok s1(1)]] by (simp add: keeps_ok_def)
  qed
qed (simp add: keeps_ok_def)

lemma gui_ok_fds: "with_gui E s f = Inr s' \<Longrightarrow> untouched s s'"
  by (auto simp: with_gui_def res_simps)

lemma window_keeps:
  assumes "win_syscall E p k mk ws s = Inr (r, s')" "\<And>q. maker (mk q)"
  shows "keeps_ok s s'"
proof -
  from assms(1) obtain s1 q w s2 s3 where s: "fds_room E p (length (fds p s)) s = Inr s1"
    "with_gui E (set_world w s1) (\<lambda>g. Inr (win_create q k g)) = Inr s2" "fds_set E p (length (fds p s)) (mk q) s2 = Inr s3"
    "with_gui E s3 (ws_addWin (unat ws) q) = Inr s'"
    by (auto simp: win_syscall_def getFreeFD_def Let_def res_simps split_beta)
  have l2: "fds p s2 = fds p s1" using gui_ok_fds[OF s(2)] by (simp add: untouched_def fds_def set_world_def)
  show ?thesis
  proof (rule keeps_okI)
    fix L assume "sys_inv L s"
    then have ok: "sys_ok s" by (auto simp: sys_ok_def)
    then have s1: "sys_ok s1" "length (fds p s) < length (fds p s1)" using room_keeps[OF s(1)] room_length[OF ok s(1)] by (simp_all add: keeps_ok_def)
    then have "sys_ok s2" using untouched_keeps[OF gui_ok_fds[OF s(2)]] by (simp add: keeps_ok_def)
    then have "sys_ok s3" using set_keeps(1)[OF s(3) assms(2)] s1(2) l2 by (simp add: keeps_ok_def)
    then show "sys_ok s'" using untouched_keeps[OF gui_ok_fds[OF s(4)]] by (simp add: keeps_ok_def)
  qed
qed

lemma openwin_keeps: "sysopenwin E p sz off ws s = Inr (r, s') \<Longrightarrow> keeps_ok s s'"
  by (cases "win_syscall E p (GraphW (gw_new (v_of64 off) (v_of64 sz))) (fd_gwindow E) ws s = Inr (r, s')")
    (auto simp: sysopenwin_def Let_def split: if_splits intro: window_keeps[OF _ maker_other(3)])

lemma opentwin_keeps: "sysopentwin E p sz off ws s = Inr (r, s') \<Longrightarrow> keeps_ok s s'"
  by (cases "win_syscall E p (TextW (tw_new (v_of64 off) (v_of64 sz))) fd_twindow ws s = Inr (r, s')")
    (auto simp: sysopentwin_def Let_def split: if_splits intro: window_keeps[OF _ maker_other(4)])

lemma fork_keeps:
  fixes E :: "('f, 'w, 'z) sys_ops_scheme" and s :: "('f, 'w) sys"
  assumes "sys_fork E p other s = Inr s'" "fds p s = []"
  shows "keeps_ok s s'"
proof (rule keeps_okI)
  fix L assume inv: "sys_inv L s"
  from assms(1) obtain tmp h1 v h2 h3 d where c: "fv_copy (sy_fds s other) (sy_heap s) = Inr (tmp, h1)" "fv_copy tmp h1 = Inr (v, h2)"
    "fv_destroy E tmp h2 = Inr h3" and s': "\<exists>m. s' = s\<lparr>sy_heap := h3, sy_fds := (sy_fds s)(p := v), sy_mem := m, sy_wd := d\<rparr>"
    by (auto simp: sys_fork_def Let_def res_simps split: option.splits) blast
  let ?M = "L + tab_owners (sy_fds s)" and ?o = "owners_of (fds other s)"
  have cm: "counts ?M (sy_heap s)" using inv by (simp add: sys_inv_def)
  from fv_copy_counts[OF cm sys_fits[OF inv, of other]] c(1) have t: "counts (?M + ?o) h1" "owners_of (fv_data tmp) = ?o" "fits tmp ?M"
    by (auto simp: fds_def)
  then have f1: "fits tmp (?M + ?o)" by (auto simp: fits_def intro: subset_mset.add_increasing2)
  from fv_copy_counts[OF t(1) f1] c(2) t(2) have v: "counts (?M + ?o + ?o) h2" "owners_of (fv_data v) = ?o" "fits v (?M + ?o)" by auto
  have "fits tmp (?M + ?o + ?o)" using f1 by (auto simp: fits_def intro: subset_mset.add_increasing2)
  from yields_Inr[OF fv_destroy_yields[OF v(1) this, of E] c(3)] have "counts (?M + ?o) h3" using t(2) by simp
  then have "sys_inv L (s\<lparr>sy_fds := (sy_fds s)(p := v), sy_heap := h3\<rparr>)"
    by (intro sys_inv_replace[OF inv]) (use v assms(2) in \<open>simp_all add: fits_def ac_simps\<close>)
  then show "sys_ok s'" using s' by (auto simp: sys_ok_def sys_inv_def fds_def)
qed

lemma delete_keeps:
  fixes E :: "('f, 'w, 'z) sys_ops_scheme" and s :: "('f, 'w) sys"
  assumes "sys_delete E p s = Inr s'"
  shows "keeps_ok s s'"
proof (rule keeps_okI)
  fix L assume inv: "sys_inv L s"
  from assms obtain h where h: "fv_destroy E (sy_fds s p) (sy_heap s) = Inr h"
    and s': "s' = s\<lparr>sy_heap := h, sy_fds := (sy_fds s)(p := fv_new), sy_wd := (sy_wd s)(p := None)\<rparr>"
    by (auto simp: sys_delete_def res_simps)
  let ?M = "L + tab_owners (sy_fds s)"
  have cm: "counts ?M (sy_heap s)" using inv by (simp add: sys_inv_def)
  from yields_Inr[OF fv_destroy_yields[OF cm sys_fits[OF inv]] h] have c: "counts (?M - owners_of (fds p s)) h" by (simp add: fds_def)
  have "owners_of (fds p s) \<subseteq># ?M" using sys_fits[OF inv, of p] by (simp add: fits_def fds_def)
  then have "sys_inv L (s\<lparr>sy_fds := (sy_fds s)(p := fv_new), sy_heap := h\<rparr>)"
    by (intro sys_inv_replace[OF inv c]) (simp_all add: fv_new_def subset_mset.diff_add)
  then show "sys_ok s'" unfolding s' by (auto simp: sys_ok_def sys_inv_def fds_def)
qed

section \<open>Reachable tables\<close>

text \<open>The operations on what the processes own: the system calls, and creation and end of a process.\<close>

inductive sys_step :: "('f, 'w, 'z) sys_ops_scheme \<Rightarrow> ('f, 'w) sys \<Rightarrow> ('f, 'w) sys \<Rightarrow> bool" for E where
  do_read: "nbread E p fd4 buf cnt s = Inr (r, s') \<Longrightarrow> sys_step E s s'"
| do_write: "swrite E p fd4 buf cnt s = Inr (r, s') \<Longrightarrow> sys_step E s s'"
| do_open: "sysopen E p a flags s = Some (Inr (r, s')) \<Longrightarrow> sys_step E s s'"
| do_close: "sysclose E p fd s = Inr (r, s') \<Longrightarrow> sys_step E s s'"
| seek: "sysseek E p fd off mode s = Inr (r, s') \<Longrightarrow> sys_step E s s'"
| pipe: "syspipe E p a s = Inr (r, s') \<Longrightarrow> sys_step E s s'"
| dup: "sysdup E p fd s = Inr (r, s') \<Longrightarrow> sys_step E s s'"
| dup2: "sysdup2 E p fd fd' s = Inr (r, s') \<Longrightarrow> sys_step E s s'"
| openwin: "sysopenwin E p sz off ws s = Inr (r, s') \<Longrightarrow> sys_step E s s'"
| opentwin: "sysopentwin E p sz off ws s = Inr (r, s') \<Longrightarrow> sys_step E s s'"
| resizewin: "sysresizewin E p fd sz off s = Inr (r, s') \<Longrightarrow> sys_step E s s'"
| getevt: "sysgetevt E p fd s = Inr (r, s') \<Longrightarrow> sys_step E s s'"
| opend: "sysopend E p a s = Some (Inr (r, s')) \<Longrightarrow> sys_step E s s'"
| readd: "sysreadd E p fd a s = Inr (r, s') \<Longrightarrow> sys_step E s s'"
| chdir: "syschdir E p a s = Some (Inr (r, s')) \<Longrightarrow> sys_step E s s'"
| mkdir: "sysmkdir E p a s = Some (Inr (r, s')) \<Longrightarrow> sys_step E s s'"
| rmdir: "sysrmdir E p a s = Some (Inr (r, s')) \<Longrightarrow> sys_step E s s'"
| do_link: "syslink E p a b s = Some (Inr (r, s')) \<Longrightarrow> sys_step E s s'"
| unlink: "sysunlink E p a s = Some (Inr (r, s')) \<Longrightarrow> sys_step E s s'"
| rename: "sysrename E p a b s = Some (Inr (r, s')) \<Longrightarrow> sys_step E s s'"
| fork: "sys_fork E p q s = Inr s' \<Longrightarrow> fds p s = [] \<Longrightarrow> sys_step E s s'"
| delete: "sys_delete E p s = Inr s' \<Longrightarrow> sys_step E s s'"
| user_memory: "sys_step E s (s\<lparr>sy_mem := m\<rparr>)"
| elsewhere: "sys_step E s (set_world w s)"

inductive sys_reach :: "('f, 'w, 'z) sys_ops_scheme \<Rightarrow> ('f, 'w) sys \<Rightarrow> bool" for E where
  start: "sy_fds s = (\<lambda>_. fv_new) \<Longrightarrow> fh_cnt (sy_heap s) = (\<lambda>_. None) \<Longrightarrow> sys_reach E s"
| step: "sys_reach E s \<Longrightarrow> sys_step E s s' \<Longrightarrow> sys_reach E s'"

lemma step_keeps:
  assumes "sys_step E s s'"
  shows "keeps_ok s s'"
  using assms
  by cases (auto simp: keeps_ok_def[of s "s\<lparr>sy_mem := m\<rparr>" for m] keeps_ok_def[of s "set_world w s" for w]
    intro: untouched_keeps leaves_step open_keeps close_keeps pipe_keeps dup_keeps dup2_keeps openwin_keeps opentwin_keeps opend_keeps fork_keeps delete_keeps)

lemma reach_ok: "sys_reach E s \<Longrightarrow> sys_ok s"
proof (induction rule: sys_reach.induct)
  case (start s)
  then have "sys_inv {#} s" by (simp add: sys_inv_def counts_def tab_owners_def fv_new_def fds_def)
  then show ?case unfolding sys_ok_def by blast
next
  case (step s s')
  then show ?case using step_keeps[of E s s'] by (simp add: keeps_ok_def)
qed

section \<open>Sharing and closing\<close>

lemma drop_shared:
  assumes "counts M h" "fd_owners d = Some c" "2 \<le> count M c"
  shows "fd_drop E d h = Inr (h\<lparr>fh_cnt := (fh_cnt h)(c \<mapsto> count M c - 1)\<rparr>)"
proof -
  have "c \<in># M" using assms(3) by (metis not_in_iff not_numeral_le_zero)
  then have "fh_cnt h c = Some (count M c)" using assms(1) by (simp add: counts_def)
  then show ?thesis using assms(2,3) by (simp add: fd_drop_def Let_def)
qed

lemma empty_ops [simp]: "fd_copy fd_empty h = Inr (fd_empty, h)" "fd_drop E fd_empty h = Inr h"
  by (simp_all add: fd_copy_def fd_drop_def fd_empty_def Let_def)

text \<open>Closing a descriptor whose counter is above one deletes nothing.\<close>

lemma close_shared:
  assumes "sys_inv L s" "unat fd < length (fds p s)" "fd_owners (fds p s ! unat fd) = Some c" "2 \<le> count (L + tab_owners (sy_fds s)) c"
  shows "\<exists>s'. sysclose E p fd s = Inr (0, s') \<and> world s' = world s \<and> fds p s' = (fds p s)[unat fd := fd_empty] \<and>
    (\<exists>n>0. fh_cnt (sy_heap s') c = Some n)"
proof -
  have cn: "counts (L + tab_owners (sy_fds s)) (sy_heap s)" using assms(1) by (simp add: sys_inv_def)
  have "fd_wf (fds p s ! unat fd)" using assms(1,2) unfolding sys_inv_def by (meson nth_mem)
  then have "\<not> fd_isEmpty (fds p s ! unat fd)" using assms(3) by (auto simp: fd_wf_def fd_isEmpty_def)
  then show ?thesis using assms(2,4) drop_shared[OF cn assms(3,4), of E]
    by (simp add: sysclose_def with_fd_def fds_set_def fds_put_def fv_put_def fd_assign_def) (simp add: fds_def world_def)
qed

lemma count_two:
  assumes "i < length ds" "j < length ds" "i \<noteq> j" "fd_owners (ds ! i) = Some c" "fd_owners (ds ! j) = Some c"
  shows "2 \<le> count (owners_of ds) c"
  using assms
proof (induction ds arbitrary: i j)
  case (Cons d ds)
  have one: "1 \<le> count (owners_of ds) c" if "k < length ds" "fd_owners (ds ! k) = Some c" for k
    using owners_of_nth[OF that(1)] that(2) by (simp add: owner_of_def)
  show ?case
  proof (cases i)
    case 0
    then obtain k where "j = Suc k" using Cons.prems(3) by (cases j) auto
    then show ?thesis using Cons.prems 0 one[of k] by (simp add: owner_of_def)
  next
    case (Suc i')
    show ?thesis
    proof (cases j)
      case 0
      then show ?thesis using Cons.prems Suc one[of i'] by (simp add: owner_of_def)
    next
      case (Suc j')
      then have "2 \<le> count (owners_of ds) c" using Cons.prems \<open>i = Suc i'\<close> by (intro Cons.IH[of i' j']) simp_all
      then show ?thesis by simp
    qed
  qed
qed simp

lemma copies_owners: "fd_copies ds h = Inr (ds', h') \<Longrightarrow> map fd_owners ds' = map fd_owners ds"
  by (induction ds arbitrary: h ds' h') (auto simp: res_simps dest!: fd_copy_fields)

lemma room_owners:
  assumes "fds_room E p i s = Inr s'" "k < length (fds p s)"
  shows "fd_owners (fds p s' ! k) = fd_owners (fds p s ! k) \<and> k < length (fds p s')"
proof (cases "length (fds p s) \<le> i")
  case False
  then show ?thesis using assms by (simp add: fds_room_def)
next
  case True
  then obtain v h where v: "fv_reserve (i + 1) (sy_fds s p) (sy_heap s) = Inr (v, h)"
    "fds p s' = fv_data v @ replicate (i + 1 - length (fds p s)) fd_empty"
    using assms by (auto simp: fds_room_def fds_resize_def fv_resize_def res_simps fds_def Let_def split: if_splits)
  have "map fd_owners (fv_data v) = map fd_owners (fds p s)"
    using v(1) copies_owners by (auto simp: fv_reserve_def res_simps fds_def split: if_splits)
  then have "length (fv_data v) = length (fds p s)" "fd_owners (fv_data v ! k) = fd_owners (fds p s ! k)"
    using assms(2) by (metis length_map, metis nth_map length_map)
  then show ?thesis using v(2) assms(2) by (simp add: nth_append)
qed

lemma set_others:
  assumes "fds_set E p i mk s = Inr s'" "k \<noteq> i"
  shows "fds p s' ! k = fds p s ! k \<and> length (fds p s') = length (fds p s)"
  using assms by (auto simp: fds_set_def fds_put_def fv_put_def res_simps fds_def split: prod.splits)

lemma open_others:
  assumes "open_file E p f flags s = Inr (r, s')" "k < length (fds p s)"
  shows "fd_owners (fds p s' ! k) = fd_owners (fds p s ! k) \<and> k < length (fds p s')"
proof -
  let ?n = "length (fds p s)"
  let ?mk = "\<lambda>h. case file2Stream E f (fh_world h) of (str, w) \<Rightarrow> fd_stream str (h\<lparr>fh_world := w\<rparr>)"
  from assms(1) obtain s1 s2 m where s: "fds_room E p ?n s = Inr s1" "fds_set E p ?n ?mk s1 = Inr s2" "s' = fds_mask p ?n m s2"
    by (auto simp: open_file_def getFreeFD_def Let_def res_simps)
  show ?thesis using room_owners[OF s(1) assms(2)] set_others[OF s(2), of k] s(3) assms(2) by (simp add: fds_mask_def fds_def)
qed

lemma dup_shares_inv:
  fixes E :: "('f, 'w, 'z) sys_ops_scheme" and s :: "('f, 'w) sys"
  assumes "sys_ok s" "unat fd < length (fds p s)" "fd_owners (fds p s ! unat fd) = Some c" "sysdup E p fd s = Inr (r, s')"
  shows "r = of_nat (length (fds p s)) \<and> unat fd < length (fds p s') \<and> length (fds p s) < length (fds p s') \<and>
    fd_owners (fds p s' ! unat fd) = Some c \<and> fd_owners (fds p s' ! length (fds p s)) = Some c \<and> world s' = world s"
proof -
  let ?n = "length (fds p s)"
  from assms(2,4) obtain s1 d h where s1: "fds_room E p ?n s = Inr s1"
    and a: "fd_assign E (fds p s1 ! ?n) (fds p s1 ! unat fd) (sy_heap s1) = Inr (d, h)" and r: "r = of_nat ?n"
    and s': "s' = s1\<lparr>sy_fds := (sy_fds s1)(p := (sy_fds s1 p)\<lparr>fv_data := (fds p s1)[?n := d]\<rparr>), sy_heap := h\<rparr>"
    by (auto simp: sysdup_def with_fd_def getFreeFD_def Let_def res_simps)
  from assms(1) obtain L where inv: "sys_inv L s" by (auto simp: sys_ok_def)
  from fds_room_inv[OF inv, of E p ?n] s1 have l: "?n < length (fds p s1)" "world s1 = world s" by auto
  have o1: "fd_owners (fds p s1 ! unat fd) = Some c" using room_owners[OF s1 assms(2)] assms(3) by simp
  have "fds p s1 ! ?n = fd_empty"
    using s1 by (auto simp: fds_room_def fds_resize_def fv_resize_def fv_reserve_def res_simps fds_def Let_def nth_append
        dest!: copies_owners[THEN arg_cong[where f = length]] split: if_splits)
  then have "fd_copy (fds p s1 ! unat fd) (sy_heap s1) = Inr (d, h)" using a by (simp add: fd_assign_def)
  then have "fd_owners d = Some c" "fh_world h = fh_world (sy_heap s1)" using fd_copy_fields o1
    by (auto simp: fd_copy_def Let_def split: option.splits dest!: fd_copy_fields)
  then show ?thesis using l r o1 assms(2) unfolding s' by (simp add: fds_def world_def)
qed

end
