(* ===== verification/SysWorld.thy ===== *)
theory SysWorld
  imports SysFds
begin

text \<open>
  A kernel the system calls run on: the virtual file system over an in-memory file system, streams
  over files and windows, pipes, the streams of \<open>/dev/zero\<close> and \<open>/dev/null\<close>, and the windows. The
  operations that \<open>Syscalls\<close> leaves open are the models of those classes.
\<close>

section \<open>Objects\<close>

datatype kobj = KBytes nat u64 | KWin wptr u64 | KZero | KNull | KPipe pipe nat | KPipeOut nat | KPipeIn nat | KIter nat

record kworld =
  kw_ram :: ramfs
  kw_vfs :: "nat vfs"
  kw_objs :: "nat \<Rightarrow> kobj option"
  kw_next :: nat
  kw_gui :: gui
  kw_woken :: "nat list"

definition k_new :: "kobj \<Rightarrow> kworld \<Rightarrow> nat \<times> kworld" where
  "k_new ob w = (kw_next w, w\<lparr>kw_objs := (kw_objs w)(kw_next w \<mapsto> ob), kw_next := kw_next w + 1\<rparr>)"

definition k_set :: "nat \<Rightarrow> kobj \<Rightarrow> kworld \<Rightarrow> kworld" where
  "k_set p ob w = w\<lparr>kw_objs := (kw_objs w)(p \<mapsto> ob)\<rparr>"

definition k_del :: "nat \<Rightarrow> kworld \<Rightarrow> kworld" where
  "k_del p w = w\<lparr>kw_objs := (kw_objs w)(p := None)\<rparr>"

text \<open>The content of a regular file, and a file with new content.\<close>

definition k_content :: "nat \<Rightarrow> kworld \<Rightarrow> bytes res" where
  "k_content f w = (case rf_kind (fs_files (kw_ram w) ! f) of RamReg c \<Rightarrow> Inr c | _ \<Rightarrow> Inl NullAccess)"

definition k_store :: "nat \<Rightarrow> bytes \<Rightarrow> kworld \<Rightarrow> kworld" where
  "k_store f c w = w\<lparr>kw_ram := ram_upd f (\<lambda>r. r\<lparr>rf_kind := RamReg c\<rparr>) (kw_ram w)\<rparr>"

definition gwin_ops :: "gwin bytes_ops" where
  "gwin_ops = \<lparr>readaddr = (\<lambda>a n g. gw_readaddr a (unat n) g), writeaddr = gw_writeaddr, bsize = gw_getSize\<rparr>"

definition k_gwin :: "wptr \<Rightarrow> kworld \<Rightarrow> (window \<Rightarrow> gwin \<Rightarrow> 'a res) \<Rightarrow> 'a res" where
  "k_gwin p w f = the_win p (kw_gui w) (\<lambda>v. case w_kind v of GraphW g \<Rightarrow> f v g | TextW t \<Rightarrow> Inl OutOfBounds)"

definition k_twin :: "wptr \<Rightarrow> kworld \<Rightarrow> (window \<Rightarrow> textwin \<Rightarrow> 'a res) \<Rightarrow> 'a res" where
  "k_twin p w f = the_win p (kw_gui w) (\<lambda>v. case w_kind v of TextW t \<Rightarrow> f v t | GraphW g \<Rightarrow> Inl OutOfBounds)"

definition k_put_win :: "wptr \<Rightarrow> window \<Rightarrow> kworld \<Rightarrow> kworld" where
  "k_put_win p v w = w\<lparr>kw_gui := put_win p v (kw_gui w)\<rparr>"

section \<open>Streams\<close>

text \<open>An address without an object of its own is a text window.\<close>

definition k_mask :: "nat \<Rightarrow> kworld \<Rightarrow> u64" where
  "k_mask s w =
    (case kw_objs w s of
       Some (KBytes f a) \<Rightarrow> bst_mask | Some (KWin p a) \<Rightarrow> bst_mask | Some KZero \<Rightarrow> basic_mask | Some KNull \<Rightarrow> basic_mask
     | Some (KPipe pp o') \<Rightarrow> pipe_mask | Some (KPipeOut q) \<Rightarrow> pipe_out_mask | Some (KPipeIn q) \<Rightarrow> pipe_in_mask | Some (KIter i) \<Rightarrow> 0
     | None \<Rightarrow> READABLE OR WRITABLE OR APPENDABLE OR WAITABLE)"

definition k_pipe_read :: "nat \<Rightarrow> u64 \<Rightarrow> kworld \<Rightarrow> (u64 \<times> bytes \<times> kworld) res" where
  "k_pipe_read q cnt w =
    (case kw_objs w q of
       Some (KPipe pp o') \<Rightarrow> (case pipe_read cnt pp of (r, bs, pp) \<Rightarrow> Inr (r, bs, k_set q (KPipe pp o') w))
     | _ \<Rightarrow> Inl OutOfBounds)"

definition k_read :: "nat \<Rightarrow> u64 \<Rightarrow> kworld \<Rightarrow> (u64 \<times> bytes \<times> kworld) res" where
  "k_read s cnt w =
    (case kw_objs w s of
       Some (KBytes f a) \<Rightarrow> bnd (k_content f w) (\<lambda>c. bnd (bst_read ram_ops cnt \<lparr>bst_data = c, bst_addr = a\<rparr>) (\<lambda>(r, bs, st).
         Inr (r, bs, k_set s (KBytes f (bst_addr st)) w)))
     | Some (KWin p a) \<Rightarrow> k_gwin p w (\<lambda>v g. bnd (bst_read gwin_ops cnt \<lparr>bst_data = g, bst_addr = a\<rparr>) (\<lambda>(r, bs, st).
         Inr (r, bs, k_set s (KWin p (bst_addr st)) w)))
     | Some KZero \<Rightarrow> (case zero_read cnt of (r, bs) \<Rightarrow> Inr (r, bs, w))
     | Some KNull \<Rightarrow> (case null_read cnt of (r, bs) \<Rightarrow> Inr (r, bs, w))
     | Some (KPipeOut q) \<Rightarrow> k_pipe_read q cnt w
     | Some _ \<Rightarrow> Inl Assertion
     | None \<Rightarrow> k_twin s w (\<lambda>v t. case tw_read (unat cnt) t of (bs, t) \<Rightarrow>
         Inr (of_nat (length bs), bs, k_put_win s (v\<lparr>w_kind := TextW t\<rparr>) w)))"

text \<open>Only pipes and text windows override \<open>eof()\<close>; a text window never ends.\<close>

definition k_eof :: "nat \<Rightarrow> kworld \<Rightarrow> bool" where
  "k_eof s w =
    (case kw_objs w s of
       Some KZero \<Rightarrow> zero_eof | Some KNull \<Rightarrow> null_eof
     | Some (KPipeOut q) \<Rightarrow> (case kw_objs w q of Some (KPipe pp o') \<Rightarrow> pp_eof pp | _ \<Rightarrow> default_eof)
     | Some _ \<Rightarrow> default_eof
     | None \<Rightarrow> False)"

definition k_pipe_write :: "nat \<Rightarrow> bytes \<Rightarrow> kworld \<Rightarrow> (u64 \<times> kworld) res" where
  "k_pipe_write q buf w =
    (case kw_objs w q of
       Some (KPipe pp o') \<Rightarrow> (case pipe_write buf pp of (r, wake, pp) \<Rightarrow>
         Inr (r, (k_set q (KPipe pp o') w)\<lparr>kw_woken := (if wake then kw_woken w @ [o'] else kw_woken w)\<rparr>))
     | _ \<Rightarrow> Inl OutOfBounds)"

definition k_write :: "nat \<Rightarrow> bytes \<Rightarrow> kworld \<Rightarrow> (u64 \<times> kworld) res" where
  "k_write s buf w =
    (case kw_objs w s of
       Some (KBytes f a) \<Rightarrow> bnd (k_content f w) (\<lambda>c. bnd (bst_write ram_ops True buf \<lparr>bst_data = c, bst_addr = a\<rparr>) (\<lambda>(r, st).
         Inr (r, k_set s (KBytes f (bst_addr st)) (k_store f (bst_data st) w))))
     | Some (KWin p a) \<Rightarrow> k_gwin p w (\<lambda>v g. bnd (bst_write gwin_ops False buf \<lparr>bst_data = g, bst_addr = a\<rparr>) (\<lambda>(r, st).
         Inr (r, k_set s (KWin p (bst_addr st)) (k_put_win p (v\<lparr>w_kind := GraphW (bst_data st)\<rparr>) w))))
     | Some KZero \<Rightarrow> Inr (zero_write buf, w)
     | Some KNull \<Rightarrow> Inr (null_write buf, w)
     | Some (KPipeIn q) \<Rightarrow> k_pipe_write q buf w
     | Some _ \<Rightarrow> Inl Assertion
     | None \<Rightarrow> k_twin s w (\<lambda>v t. bnd (tw_write buf t) (\<lambda>(n, t). Inr (of_nat n, k_put_win s (v\<lparr>w_kind := TextW t\<rparr>) w))))"

definition k_tell :: "nat \<Rightarrow> kworld \<Rightarrow> u64" where
  "k_tell s w = (case kw_objs w s of Some (KBytes f a) \<Rightarrow> a | Some (KWin p a) \<Rightarrow> a | Some KZero \<Rightarrow> basic_tell | Some KNull \<Rightarrow> basic_tell | _ \<Rightarrow> default_tell)"

definition k_end :: "nat \<Rightarrow> kworld \<Rightarrow> u64" where
  "k_end s w =
    (case kw_objs w s of
       Some (KBytes f a) \<Rightarrow> (case k_content f w of Inr c \<Rightarrow> ram_getSize c | Inl e \<Rightarrow> 0)
     | Some (KWin p a) \<Rightarrow> (case k_gwin p w (\<lambda>v g. Inr (gw_getSize g)) of Inr n \<Rightarrow> n | Inl e \<Rightarrow> 0)
     | _ \<Rightarrow> default_end (k_mask s w))"

definition k_seek :: "nat \<Rightarrow> u64 \<Rightarrow> seek_mod \<Rightarrow> kworld \<Rightarrow> u64 \<times> kworld" where
  "k_seek s cnt m w =
    (case kw_objs w s of
       Some (KBytes f a) \<Rightarrow> (case k_content f w of
           Inl e \<Rightarrow> (- 1, w)
         | Inr c \<Rightarrow> (case bst_seek ram_ops cnt m \<lparr>bst_data = c, bst_addr = a\<rparr> of (r, st) \<Rightarrow> (r, k_set s (KBytes f (bst_addr st)) w)))
     | Some (KWin p a) \<Rightarrow> (case k_gwin p w (\<lambda>v g. Inr (bst_seek gwin_ops cnt m \<lparr>bst_data = g, bst_addr = a\<rparr>)) of
           Inl e \<Rightarrow> (- 1, w)
         | Inr (r, st) \<Rightarrow> (r, k_set s (KWin p (bst_addr st)) w))
     | Some KZero \<Rightarrow> (basic_seek cnt m, w) | Some KNull \<Rightarrow> (basic_seek cnt m, w)
     | _ \<Rightarrow> (default_seek cnt m, w))"

text \<open>Deleting a stream: a text window leaves its workspace, an end of a pipe gives up its share.\<close>

definition k_pipe_close :: "(pipe \<Rightarrow> pipe res) \<Rightarrow> nat \<Rightarrow> kworld \<Rightarrow> kworld res" where
  "k_pipe_close close q w =
    (case kw_objs w q of
       Some (KPipe pp o') \<Rightarrow> bnd (close pp) (\<lambda>pp. Inr (if pp_live pp then k_set q (KPipe pp o') w else k_del q w))
     | _ \<Rightarrow> Inl OutOfBounds)"

definition k_delWin :: "wptr \<Rightarrow> kworld \<Rightarrow> kworld res" where
  "k_delWin p w = bnd (win_delete p (kw_gui w)) (\<lambda>g. Inr (w\<lparr>kw_gui := g\<rparr>))"

definition k_delete :: "nat \<Rightarrow> kworld \<Rightarrow> kworld res" where
  "k_delete s w =
    (case kw_objs w s of
       Some (KPipeOut q) \<Rightarrow> bnd (k_pipe_close pipe_out_close q w) (\<lambda>w. Inr (k_del s w))
     | Some (KPipeIn q) \<Rightarrow> bnd (k_pipe_close pipe_in_close q w) (\<lambda>w. Inr (k_del s w))
     | Some ob \<Rightarrow> Inr (k_del s w)
     | None \<Rightarrow> k_delWin s w)"

section \<open>Files\<close>

definition k_file_ops :: "kworld \<Rightarrow> nat file_ops" where
  "k_file_ops w = \<lparr>fo_get = (\<lambda>f name. ram_get name f (kw_ram w)), fo_inode = (\<lambda>f. rf_ino (fs_files (kw_ram w) ! f)),
     fo_type = (\<lambda>f. case rf_kind (fs_files (kw_ram w) ! f) of
       RamReg c \<Rightarrow> RegularFile | RamDir es \<Rightarrow> Directory | RamBlk d \<Rightarrow> BlockDevice | RamChr d \<Rightarrow> CharacterDevice)\<rparr>"

definition k_type :: "nat vfile \<Rightarrow> kworld \<Rightarrow> FileType" where
  "k_type f w = vf_getType (k_file_ops w) f"

definition k_get :: "nat vfile \<Rightarrow> bytes \<Rightarrow> kworld \<Rightarrow> nat vfile option option" where
  "k_get d name w = vfs_get (k_file_ops w) (kw_vfs w) d name"

definition k_create :: "bytes \<Rightarrow> u16 \<Rightarrow> u16 \<Rightarrow> u16 \<Rightarrow> nat vfile \<Rightarrow> kworld \<Rightarrow> (kworld \<times> nat vfile) res" where
  "k_create name uid gid mode d w =
    bnd (vfs_createEntry ram_createEntry name uid gid mode d (kw_ram w)) (\<lambda>(r, f). Inr (w\<lparr>kw_ram := r\<rparr>, f))"

definition k_addEntry :: "bytes \<Rightarrow> nat vfile \<Rightarrow> nat vfile \<Rightarrow> kworld \<Rightarrow> kworld res" where
  "k_addEntry name f d w = Inr (w\<lparr>kw_ram := vfs_addEntry ram_addEntry name f d (kw_ram w)\<rparr>)"

definition k_removeEntry :: "bytes \<Rightarrow> nat vfile \<Rightarrow> kworld \<Rightarrow> kworld res" where
  "k_removeEntry name d w = bnd (ram_removeEntry name (vf_impl d) (kw_ram w)) (\<lambda>r. Inr (w\<lparr>kw_ram := r\<rparr>))"

definition k_isEmpty :: "nat vfile \<Rightarrow> kworld \<Rightarrow> bool" where
  "k_isEmpty d w = isEmpty (map fst (ram_entries (vf_impl d) (kw_ram w)))"

definition k_stat :: "nat vfile \<Rightarrow> kworld \<Rightarrow> u32 \<times> u16" where
  "k_stat f w = (vf_dev f, rf_mode (fs_files (kw_ram w) ! vf_impl f))"

text \<open>A structure \<open>dirent\<close>: the inode number and the name in 256 bytes.\<close>

definition dirent_bytes :: "bytes \<Rightarrow> u32 \<Rightarrow> bytes" where
  "dirent_bytes name ino = le_bytes 4 (unat ino) @ take 256 (name @ replicate 256 0)"

definition k_dread :: "nat vfile \<Rightarrow> nat \<Rightarrow> kworld \<Rightarrow> (bytes option \<times> kworld) res" where
  "k_dread d p w =
    (case kw_objs w p of
       Some (KIter it) \<Rightarrow> bnd (ram_read (vf_impl d) it (kw_ram w)) (\<lambda>(it, r).
         case r of
           None \<Rightarrow> Inr (None, k_set p (KIter it) w)
         | Some (name, ino) \<Rightarrow> (case vfs_read_ino (k_file_ops w) (kw_vfs w) d name ino of
             None \<Rightarrow> Inl NullAccess
           | Some m \<Rightarrow> bnd m (\<lambda>ino. Inr (Some (dirent_bytes name ino), k_set p (KIter it) w))))
     | _ \<Rightarrow> Inl OutOfBounds)"

text \<open>Block devices have no stream here; character devices 0 and 1 are \<open>zero\<close> and \<open>null\<close>.\<close>

definition k_char :: "nat vfile \<Rightarrow> kworld \<Rightarrow> nat \<times> kworld" where
  "k_char f w = (case rf_kind (fs_files (kw_ram w) ! vf_impl f) of RamChr 0 \<Rightarrow> k_new KZero w | _ \<Rightarrow> k_new KNull w)"

definition k_pipeOut :: "nat \<Rightarrow> kworld \<Rightarrow> nat \<times> kworld" where
  "k_pipeOut q w = (case k_new (KPipeOut q) w of (p, w) \<Rightarrow> (p, k_set q (KPipe pipe_new p) w))"

definition kernel_ops :: "(u16 \<Rightarrow> u64 \<Rightarrow> umem \<times> kworld \<Rightarrow> u64 \<times> umem \<times> kworld) \<Rightarrow> (nat vfile, kworld) sys_ops" where
  "kernel_ops brk =
    \<lparr>o_mask = k_mask, o_winStream = (\<lambda>p. k_new (KWin p 0)), o_delete = k_delete, o_delWin = k_delWin,
     o_open = (\<lambda>d. k_new (KIter 0)), o_close = (\<lambda>d. k_del),
     o_read = k_read, o_eof = k_eof, o_write = k_write, o_tell = k_tell, o_end = k_end, o_seek = k_seek,
     o_bytes = (\<lambda>f. k_new (KBytes (vf_impl f) 0)), o_char = k_char,
     o_pipe = (\<lambda>w. k_new (KPipe pipe_new (kw_next w)) w), o_pipeOut = k_pipeOut, o_pipeIn = (\<lambda>q. k_new (KPipeIn q)),
     o_root = (\<lambda>w. vfs_getRoot (kw_vfs w)), o_type = k_type, o_get = k_get, o_create = k_create, o_addEntry = k_addEntry,
     o_removeEntry = k_removeEntry, o_removeDirectory = k_removeEntry, o_isEmpty = k_isEmpty, o_stat = k_stat,
     o_dread = k_dread, o_brk = brk, o_gui = kw_gui, o_put_gui = (\<lambda>g w. w\<lparr>kw_gui := g\<rparr>),
     o_fresh = (\<lambda>w. (kw_next w, w\<lparr>kw_next := kw_next w + 1\<rparr>)),
     o_woken = (\<lambda>w. (kw_woken w, w\<lparr>kw_woken := []\<rparr>)), o_pad = [0]\<rparr>"

section \<open>User memory as an array\<close>

lemma offset_Suc:
  fixes x a :: u64
  assumes "x \<noteq> a"
  shows "unat (x - a) = Suc (unat (x - (a + 1)))"
proof -
  have "x - a = (x - (a + 1)) + 1" by simp
  moreover have "x - a \<noteq> 0" using assms by simp
  ultimately show ?thesis by (metis unatSuc add.commute)
qed

lemma mem_put_eq:
  fixes a :: u64
  assumes "length bs \<le> 2 ^ 64" "\<And>i. i < length bs \<Longrightarrow> m (a + of_nat i) \<noteq> None"
  shows "mem_put a bs m = Inr (\<lambda>x. if unat (x - a) < length bs then Some (bs ! unat (x - a)) else m x)"
  using assms
proof (induction bs arbitrary: a m)
  case (Cons b bs)
  have a: "m a \<noteq> None" using Cons.prems(2)[of 0] by simp
  have "mem_put (a + 1) bs (m(a \<mapsto> b)) = Inr (\<lambda>x. if unat (x - (a + 1)) < length bs then Some (bs ! unat (x - (a + 1))) else (m(a \<mapsto> b)) x)"
  proof (rule Cons.IH)
    show "length bs \<le> 2 ^ 64" using Cons.prems(1) by simp
    show "(m(a \<mapsto> b)) (a + 1 + of_nat i) \<noteq> None" if "i < length bs" for i
      using Cons.prems(2)[of "Suc i"] that by (simp add: add.assoc)
  qed
  moreover have "(if unat (x - (a + 1)) < length bs then Some (bs ! unat (x - (a + 1))) else (m(a \<mapsto> b)) x) =
      (if unat (x - a) < length (b # bs) then Some ((b # bs) ! unat (x - a)) else m x)" for x
  proof (cases "x = a")
    case True
    have "unat (a - (a + 1)) = 2 ^ 64 - 1" by (simp add: unsigned_minus_1_eq_mask mask_eq_exp_minus_1)
    moreover have "length bs < 2 ^ 64" using Cons.prems(1) by simp
    ultimately show ?thesis using True by simp
  next
    case False
    show ?thesis unfolding offset_Suc[OF False] using False by simp
  qed
  ultimately show ?case using a by simp
qed simp

lemma mem_get_eq:
  fixes a :: u64
  shows "(\<And>i. i < n \<Longrightarrow> m (a + of_nat i) = Some (f i)) \<Longrightarrow> mem_get m a n = Inr (map f [0..<n])"
proof (induction n arbitrary: a f)
  case (Suc n)
  have "m (a + 1 + of_nat i) = Some (f (Suc i))" if "i < n" for i using Suc.prems[of "Suc i"] that by (simp add: add.assoc)
  from Suc.IH[OF this] Suc.prems[of 0] show ?case by (simp add: upt_conv_Cons map_Suc_upt[symmetric] del: upt_Suc)
qed simp

lemma mem_put_get:
  fixes a :: u64
  assumes "length bs \<le> 2 ^ 64" "\<And>i. i < length bs \<Longrightarrow> m (a + of_nat i) \<noteq> None"
  shows "\<exists>m'. mem_put a bs m = Inr m' \<and> mem_get m' a (length bs) = Inr bs \<and> (\<forall>x. m' x = None \<longleftrightarrow> m x = None)"
proof -
  let ?m = "\<lambda>x. if unat (x - a) < length bs then Some (bs ! unat (x - a)) else m x"
  have u: "unat (of_nat i :: u64) = i" if "i < length bs" for i
    using that assms(1) unfolding unat_of_nat by simp
  have "mem_get ?m a (length bs) = Inr (map (\<lambda>i. bs ! i) [0..<length bs])"
    by (rule mem_get_eq) (use u in simp)
  moreover have "?m x = None \<longleftrightarrow> m x = None" for x
  proof (cases "unat (x - a) < length bs")
    case True
    have "a + of_nat (unat (x - a)) = x" by simp
    then show ?thesis using assms(2)[OF True] True by simp
  qed simp
  ultimately show ?thesis using mem_put_eq[of bs m a, OF assms] by (auto simp: map_nth)
qed

section \<open>A descriptor on a file\<close>

text \<open>\<open>on_file p n f a c s\<close>: descriptor \<open>n\<close> of process \<open>p\<close> is open for reading and writing on the regular
  file \<open>f\<close> with content \<open>c\<close>, at offset \<open>a\<close>.\<close>

definition on_file :: "u16 \<Rightarrow> nat \<Rightarrow> nat \<Rightarrow> u64 \<Rightarrow> bytes \<Rightarrow> (nat vfile, kworld) sys \<Rightarrow> bool" where
  "on_file p n f a c s \<longleftrightarrow> n < length (fds p s) \<and> n < 2 ^ 32 \<and> f < length (fs_files (kw_ram (world s))) \<and>
     rf_kind (fs_files (kw_ram (world s)) ! f) = RamReg c \<and> length c < 2 ^ 63 \<and>
     fd_type (fds p s ! n) = STREAM \<and> fd_mask (fds p s ! n) = 31 \<and>
     (\<exists>q. fd_str (fds p s ! n) = Some (Some q) \<and> kw_objs (world s) q = Some (KBytes f a))"

lemma fd_index: "n < 2 ^ 32 \<Longrightarrow> unat (ucast (of_nat n :: u32) :: u64) = n"
  by (simp add: unsigned_ucast_eq unsigned_of_nat take_bit_nat_eq_self)

lemma file_checks:
  assumes "on_file p n f a c s"
  shows "fd_check (kernel_ops brk) (fds p s ! n) v (world s) = Inr (stream_check 15 v)" "fd_hasStream (fds p s ! n)"
    "fd_isEmpty (fds p s ! n) = False"
  using assms by (auto simp: on_file_def fd_check_def fd_getMask_def kernel_ops_def k_mask_def bst_mask_def READABLE_def WRITABLE_def
      APPENDABLE_def SEEKABLE_def fd_hasStream_def fd_isEmpty_def)

definition user_range :: "u16 \<Rightarrow> u64 \<Rightarrow> nat \<Rightarrow> ('f, 'w) sys \<Rightarrow> bool" where
  "user_range p buf n s \<longleftrightarrow> (\<forall>i\<le>n. sy_mem s p (buf + of_nat i) \<noteq> None)"

lemma user_range_ends:
  assumes "user_range p buf (unat cnt) s"
  shows "um_in p buf s" "um_in p (buf + cnt) s"
proof -
  have "sy_mem s p (buf + of_nat i) \<noteq> None" if "i \<le> unat cnt" for i using assms that unfolding user_range_def by blast
  from this[of 0] this[of "unat cnt"] show "um_in p buf s" "um_in p (buf + cnt) s" by (simp_all add: um_in_def)
qed

lemma ops_simps [simp]:
  "o_read (kernel_ops brk) = k_read" "o_write (kernel_ops brk) = k_write" "o_seek (kernel_ops brk) = k_seek" "o_end (kernel_ops brk) = k_end"
  "o_tell (kernel_ops brk) = k_tell" "o_eof (kernel_ops brk) = k_eof" "o_get (kernel_ops brk) = k_get" "o_type (kernel_ops brk) = k_type"
  "o_create (kernel_ops brk) = k_create" "o_root (kernel_ops brk) = (\<lambda>w. vfs_getRoot (kw_vfs w))"
  "o_bytes (kernel_ops brk) = (\<lambda>f. k_new (KBytes (vf_impl f) 0))" "o_delete (kernel_ops brk) = k_delete"
  by (simp_all add: kernel_ops_def)

lemma content: "rf_kind (fs_files (kw_ram w) ! f) = RamReg c \<Longrightarrow> k_content f w = Inr c"
  by (simp add: k_content_def)

lemma unat_length64: "length bs < 2 ^ 64 \<Longrightarrow> unat (of_nat (length bs) :: u64) = length bs"
  by (simp add: unat_of_nat)

text \<open>What the file holds after \<open>bs\<close> was written at \<open>a\<close>: a gap is filled with zeros.\<close>

definition written :: "nat \<Rightarrow> bytes \<Rightarrow> bytes \<Rightarrow> bytes" where
  "written a bs c = (if a + length bs \<le> length c then overwrite a bs c else overwrite a bs (c @ replicate (a + length bs - length c) 0))"

lemma written_read: "take (length bs) (drop a (written a bs c)) = bs" "length (written a bs c) = max (length c) (a + length bs)"
proof -
  show "take (length bs) (drop a (written a bs c)) = bs"
  proof (cases "a + length bs \<le> length c")
    case False
    show ?thesis unfolding written_def if_not_P[OF False] by (rule overwrite_same) simp
  qed (simp add: written_def overwrite_same)
  show "length (written a bs c) = max (length c) (a + length bs)"
    by (cases "a + length bs \<le> length c") (simp_all add: written_def)
qed

lemma not_negative:
  fixes x :: u64
  assumes "unat x < 2 ^ 63"
  shows "\<not> x <s 0"
proof -
  have "int (unat x) < int (2 ^ 63)" using assms by (simp only: of_nat_less_iff)
  then have "uint x < 2 ^ 63" by simp
  moreover have "- (2 ^ 63) \<le> uint x" by (rule order_trans[of _ 0]) simp_all
  ultimately have "signed_take_bit 63 (uint x) = uint x" by (intro signed_take_bit_int_eq_self)
  then have "sint x = uint x" by (simp add: sint_uint)
  then show ?thesis by (simp add: word_sless_alt)
qed

lemma swrite_file:
  assumes "on_file p n f a c s" "user_range p buf (length bs) s" "mem_get (sy_mem s p) buf (length bs) = Inr bs" "bs \<noteq> []"
    and "unat a + length bs < 2 ^ 63"
  shows "\<exists>s'. swrite (kernel_ops brk) p (of_nat n) buf (of_nat (length bs)) s = Inr (of_nat (length bs), s') \<and>
    on_file p n f (a + of_nat (length bs)) (written (unat a) bs c) s' \<and> sy_mem s' = sy_mem s \<and>
    fs_nextInode (kw_ram (world s')) = fs_nextInode (kw_ram (world s))"
proof -
  from assms(1) obtain q where q: "fd_str (fds p s ! n) = Some (Some q)" "kw_objs (world s) q = Some (KBytes f a)" by (auto simp: on_file_def)
  note f = assms(1)[unfolded on_file_def]
  have l: "unat (of_nat (length bs) :: u64) = length bs" by (rule unat_length64) (use assms(5) in simp)
  have nz: "(of_nat (length bs) :: u64) \<noteq> 0" using l assms(4) by (metis length_0_conv unsigned_0)
  have ends: "um_in p buf s" "um_in p (buf + of_nat (length bs)) s" using user_range_ends[of p buf "of_nat (length bs)" s] assms(2) l by auto
  let ?w = "k_set q (KBytes f (a + of_nat (length bs))) (k_store f (written (unat a) bs c) (world s))"
  have "ram_writeaddr a bs c = Inr (written (unat a) bs c)"
    using ram_write[of a bs c] assms(5) f by (simp add: written_def)
  then have wr: "k_write q bs (world s) = Inr (of_nat (length bs), ?w)"
    using q f nz l by (simp add: k_write_def content bst_write_def ram_ops_def Let_def)
  have "swrite (kernel_ops brk) p (of_nat n) buf (of_nat (length bs)) s = Inr (of_nat (length bs), set_world ?w s)"
    using ends f q(1) wr assms(3) l fd_index[of n] file_checks[OF assms(1)]
    by (simp add: swrite_def with_fd_def fd_arrow_def stream_check_def WRITABLE_def)
  moreover have "on_file p n f (a + of_nat (length bs)) (written (unat a) bs c) (set_world ?w s)"
    using f q assms(5) by (auto simp: on_file_def k_set_def k_store_def ram_upd_def written_read(2))
  ultimately show ?thesis by (auto simp: k_set_def k_store_def ram_upd_def)
qed

lemma sysseek_file:
  assumes "on_file p n f a c s" "unat off \<le> length c"
  shows "\<exists>s'. sysseek (kernel_ops brk) p (of_nat n) off 0 s = Inr (off, s') \<and> on_file p n f off c s' \<and> sy_mem s' = sy_mem s"
proof -
  from assms(1) obtain q where q: "fd_str (fds p s ! n) = Some (Some q)" "kw_objs (world s) q = Some (KBytes f a)" by (auto simp: on_file_def)
  note f = assms(1)[unfolded on_file_def]
  have lc: "unat (of_nat (length c) :: u64) = length c" by (rule unat_length64) (use f in simp)
  have nn: "unat (of_nat n :: u64) = n" using f by (simp add: unat_of_nat)
  have s0: "\<not> off <s 0" by (rule not_negative) (use assms(2) f in simp)
  have e: "k_end q (world s) = of_nat (length c)" using q f by (simp add: k_end_def content ram_getSize_def)
  have "\<not> of_nat (length c) < off" using assms(2) lc by (simp add: word_less_nat_alt)
  then have sk: "k_seek q off BEG (world s) = (off, k_set q (KBytes f off) (world s))"
    using q f by (simp add: k_seek_def content bst_seek_def ram_ops_def ram_getSize_def Let_def)
  have "sysseek (kernel_ops brk) p (of_nat n) off 0 s = Inr (off, set_world (k_set q (KBytes f off) (world s)) s)"
    using f q(1) e sk s0 nn file_checks[OF assms(1)]
    by (simp add: sysseek_def with_fd_def fd_arrow_def stream_check_def SEEKABLE_def APPENDABLE_def Let_def split: if_splits)
  moreover have "on_file p n f off c (set_world (k_set q (KBytes f off) (world s)) s)"
    using f q by (auto simp: on_file_def k_set_def)
  ultimately show ?thesis by auto
qed

lemma nbread_file:
  assumes "on_file p n f a c s" "user_range p buf (length bs) s" "bs \<noteq> []" "length bs < 2 ^ 63"
    and "take (length bs) (drop (unat a) c) = bs" "unat a + length bs \<le> length c"
  shows "\<exists>s'. nbread (kernel_ops brk) p (of_nat n) buf (of_nat (length bs)) s = Inr (of_nat (length bs), s') \<and>
    on_file p n f (a + of_nat (length bs)) c s' \<and> mem_get (sy_mem s' p) buf (length bs) = Inr bs"
proof -
  from assms(1) obtain q where q: "fd_str (fds p s ! n) = Some (Some q)" "kw_objs (world s) q = Some (KBytes f a)" by (auto simp: on_file_def)
  note f = assms(1)[unfolded on_file_def]
  let ?n = "of_nat (length bs) :: u64"
  have l: "unat ?n = length bs" and lc: "unat (of_nat (length c) :: u64) = length c"
    by (rule unat_length64, use assms(4) f in simp)+
  have nz: "?n \<noteq> 0" using l assms(3) by (metis length_0_conv unsigned_0)
  have ends: "um_in p buf s" "um_in p (buf + ?n) s" using user_range_ends[of p buf ?n s] assms(2) l by auto
  have "unat (of_nat (length c) - a) = length c - unat a"
    using assms(6) lc by (simp add: unat_sub word_le_nat_alt)
  then have "?n \<le> of_nat (length c) - a" using assms(6) l by (simp add: word_le_nat_alt)
  then have "max 0 (min ?n (of_nat (length c) - a)) = ?n" by simp
  moreover have "ram_readaddr a ?n c = Inr bs"
    using ram_read[of c a ?n] f assms(5,6) l by simp
  ultimately have rd: "k_read q ?n (world s) = Inr (?n, bs, k_set q (KBytes f (a + ?n)) (world s))"
    using q f nz by (simp add: k_read_def content bst_read_def ram_ops_def ram_getSize_def Let_def)
  have "sy_mem s p (buf + of_nat i) \<noteq> None" if "i < length bs" for i using assms(2) that by (simp add: user_range_def)
  from mem_put_get[of bs "sy_mem s p" buf, OF _ this] assms(4) obtain m where
    m: "mem_put buf bs (sy_mem s p) = Inr m" "mem_get m buf (length bs) = Inr bs" by auto
  let ?s = "(set_world (k_set q (KBytes f (a + ?n)) (world s)) s)\<lparr>sy_mem := (sy_mem s)(p := m)\<rparr>"
  have "nbread (kernel_ops brk) p (of_nat n) buf ?n s = Inr (?n, ?s)"
    using ends f q(1) rd m(1) nz fd_index[of n] file_checks[OF assms(1)]
    by (simp add: nbread_def with_fd_def fd_arrow_def stream_check_def READABLE_def um_put_def)
  moreover have "on_file p n f (a + ?n) c ?s"
    using f q by (auto simp: on_file_def k_set_def fds_def set_world_def world_def)
  ultimately show ?thesis using m(2) by (auto simp: set_world_def)
qed

section \<open>An instance\<close>

text \<open>A root directory with the file \<open>a\<close>, one process whose memory starts with the path \<open>/a\<close>.\<close>

definition demo_ops :: "(nat vfile, kworld) sys_ops" where
  "demo_ops = kernel_ops (\<lambda>p a x. (0, x))"

definition demo_world :: "gui \<Rightarrow> kworld" where
  "demo_world g = \<lparr>kw_ram = \<lparr>fs_files =
       [\<lparr>rf_kind = RamDir [([0x2E], 0), ([0x2E, 0x2E], 0), ([0x61], 1)], rf_ino = 0, rf_mode = 0x41ED, rf_nlink = 2, rf_uid = 0, rf_gid = 0\<rparr>,
        \<lparr>rf_kind = RamReg [1, 2, 3], rf_ino = 1, rf_mode = 0x81B6, rf_nlink = 1, rf_uid = 0, rf_gid = 0\<rparr>],
       fs_root = 0, fs_nextInode = 2\<rparr>,
     kw_vfs = vfs_new 0, kw_objs = (\<lambda>_. None), kw_next = 0, kw_gui = g, kw_woken = []\<rparr>"

definition demo_mem :: umem where
  "demo_mem = (\<lambda>a. if a < 4096 then Some (if a = 0 then 0x2F else if a = 1 then 0x61 else 0) else None)"

definition demo_sys :: "gui \<Rightarrow> (nat vfile, kworld) sys" where
  "demo_sys g = \<lparr>sy_heap = \<lparr>fh_cnt = (\<lambda>_. None), fh_next = 0, fh_world = demo_world g\<rparr>, sy_fds = (\<lambda>_. fv_new),
     sy_wd = (\<lambda>_. Some \<lparr>vf_impl = 0, vf_dev = 0\<rparr>), sy_mem = (\<lambda>_. demo_mem), sy_fault = None\<rparr>"

definition demo_file :: "nat vfile" where "demo_file = \<lparr>vf_impl = 1, vf_dev = 0\<rparr>"

fun demo_opens :: "gui \<Rightarrow> nat \<Rightarrow> (nat vfile, kworld) sys res" where
  "demo_opens g 0 = Inr (demo_sys g)"
| "demo_opens g (Suc n) = bnd (demo_opens g n) (\<lambda>s. bnd (open_file demo_ops 1 demo_file 3 s) (\<lambda>(r, s). Inr s))"

lemma demo_start: "sys_reach E (demo_sys g)"
  by (rule sys_reach.start) (simp_all add: demo_sys_def)

lemma demo_opens_ok: "demo_opens g n = Inr s \<Longrightarrow> sys_ok s"
proof (induction n arbitrary: s)
  case 0
  then show ?case using reach_ok[OF demo_start[of demo_ops g]] by simp
next
  case (Suc n)
  then obtain s1 r where s1: "demo_opens g n = Inr s1" "open_file demo_ops 1 demo_file 3 s1 = Inr (r, s)"
    by (auto simp: res_simps)
  from Suc.IH[OF s1(1)] obtain L where "sys_inv L s1" by (auto simp: sys_ok_def)
  from open_file_inv[OF this, of demo_ops 1 demo_file 3] s1(2) show ?case by (auto simp: sys_ok_def)
qed

lemma demo_two:
  "case demo_opens g 2 of Inl e \<Rightarrow> False | Inr s \<Rightarrow> length (fds 1 s) = 2 \<and>
     fd_owners (fds 1 s ! 0) = Some 0 \<and> is_ok (sysdup demo_ops 1 0 s)"
  by code_simp

text \<open>Opening a file cannot fail, and a vector with room keeps its storage.\<close>

lemma room_last:
  assumes "fds_room E p (length (fds p s)) s = Inr s1"
  shows "fds p s1 ! length (fds p s) = fd_empty \<and> length (fds p s1) = length (fds p s) + 1 \<and>
    (fds p s \<noteq> [] \<and> length (fds p s) < fv_cap (sy_fds s p) \<longrightarrow> fv_cap (sy_fds s1 p) = fv_cap (sy_fds s p))"
  using assms
  by (auto simp: fds_room_def fds_resize_def fv_resize_def fv_reserve_def res_simps fds_def Let_def nth_append
      dest!: copies_owners[THEN arg_cong[where f = length]] split: if_splits)

lemma set_empty:
  assumes "i < length (fds p s)" "fds p s ! i = fd_empty"
  shows "\<exists>s'. fds_set E p i (\<lambda>h. case g (fh_world h) of (str, w) \<Rightarrow> fd_stream str (h\<lparr>fh_world := w\<rparr>)) s = Inr s' \<and>
    length (fds p s') = length (fds p s) \<and> fv_cap (sy_fds s' p) = fv_cap (sy_fds s p)"
  using assms
  by (auto simp: fds_set_def fds_put_def fv_put_def fd_assign_def fd_stream_def new_owners_def fd_copy_def fd_drop_def fds_def Let_def fd_empty_def
      split: prod.splits)

lemma open_total:
  assumes "sys_ok s"
  shows "\<exists>r s'. open_file E p f flags s = Inr (r, s') \<and> sys_ok s' \<and> length (fds p s') = length (fds p s) + 1 \<and>
    (fds p s \<noteq> [] \<and> length (fds p s) < fv_cap (sy_fds s p) \<longrightarrow> fv_cap (sy_fds s' p) = fv_cap (sy_fds s p))"
proof -
  from assms obtain L where inv: "sys_inv L s" by (auto simp: sys_ok_def)
  let ?n = "length (fds p s)"
  from fds_room_inv[OF inv, of E p ?n] obtain s1 where s1: "fds_room E p ?n s = Inr s1" by auto
  note l = room_last[OF s1]
  from set_empty[of ?n p s1 E "file2Stream E f"] l obtain s2 where
    s2: "fds_set E p ?n (\<lambda>h. case file2Stream E f (fh_world h) of (str, w) \<Rightarrow> fd_stream str (h\<lparr>fh_world := w\<rparr>)) s1 = Inr s2"
      "length (fds p s2) = length (fds p s1)" "fv_cap (sy_fds s2 p) = fv_cap (sy_fds s1 p)" by auto
  let ?m = "SEEKABLE OR (if flags AND O_RDONLY \<noteq> 0 then READABLE OR WAITABLE else 0) OR (if flags AND O_WRONLY \<noteq> 0 then WRITABLE OR APPENDABLE else 0)"
  have o': "open_file E p f flags s = Inr (of_nat ?n, fds_mask p ?n ?m s2)"
    using s1 s2(1) by (simp add: open_file_def getFreeFD_def Let_def)
  have "sys_ok (fds_mask p ?n ?m s2)" using open_file_inv[OF inv, of E p f flags] o' by (auto simp: sys_ok_def)
  then show ?thesis unfolding o' using s2 l by (auto simp: fds_mask_def fds_def)
qed

text \<open>Four files: the vector, of capacity four, is full.\<close>

lemma demo_one:
  "case demo_opens g 1 of Inl e \<Rightarrow> False | Inr s \<Rightarrow> length (fds 1 s) = 1 \<and> fv_cap (sy_fds s 1) = 4 \<and> fd_owners (fds 1 s ! 0) = Some 0 \<and>
     fd_type (fds 1 s ! 0) = STREAM \<and> fd_mask (fds 1 s ! 0) = 31 \<and> fd_str (fds 1 s ! 0) = Some (Some 0) \<and>
     kw_objs (world s) 0 = Some (KBytes 1 0) \<and> map rf_kind (fs_files (kw_ram (world s))) ! 1 = RamReg [1, 2, 3] \<and>
     length (fs_files (kw_ram (world s))) = 2 \<and> mem_get (sy_mem s 1) 0 3 = Inr [0x2F, 0x61, 0] \<and>
     (\<forall>i\<in>set [0..<4]. sy_mem s 1 (of_nat i) \<noteq> None \<and> sy_mem s 1 (32 + of_nat i) \<noteq> None)"
  by code_simp

lemma demo_more:
  assumes "demo_opens g n = Inr s" "0 < length (fds 1 s)" "length (fds 1 s) < fv_cap (sy_fds s 1)"
  shows "\<exists>s'. demo_opens g (Suc n) = Inr s' \<and> length (fds 1 s') = length (fds 1 s) + 1 \<and> fv_cap (sy_fds s' 1) = fv_cap (sy_fds s 1) \<and>
    fd_owners (fds 1 s' ! 0) = fd_owners (fds 1 s ! 0)"
proof -
  from open_total[OF demo_opens_ok[OF assms(1)], of demo_ops 1 demo_file 3] assms(2,3) obtain r s' where
    s': "open_file demo_ops 1 demo_file 3 s = Inr (r, s')" "length (fds 1 s') = length (fds 1 s) + 1" "fv_cap (sy_fds s' 1) = fv_cap (sy_fds s 1)" by auto
  then show ?thesis using assms(1) open_others[OF s'(1) assms(2)] by simp
qed

lemma demo_full:
  "\<exists>s. demo_opens g 4 = Inr s \<and> length (fds 1 s) = 4 \<and> fv_cap (sy_fds s 1) = 4 \<and> fd_owners (fds 1 s ! 0) = Some 0"
proof -
  from demo_one[of g] obtain s1 where 1: "demo_opens g 1 = Inr s1" "length (fds 1 s1) = 1" "fv_cap (sy_fds s1 1) = 4" "fd_owners (fds 1 s1 ! 0) = Some 0"
    by (auto split: sum.splits)
  from demo_more[OF 1(1)] 1 obtain s2 where 2: "demo_opens g (Suc 1) = Inr s2" "length (fds 1 s2) = 2" "fv_cap (sy_fds s2 1) = 4" "fd_owners (fds 1 s2 ! 0) = Some 0"
    by auto
  from demo_more[OF 2(1)] 2 obtain s3 where 3: "demo_opens g (Suc (Suc 1)) = Inr s3" "length (fds 1 s3) = 3" "fv_cap (sy_fds s3 1) = 4" "fd_owners (fds 1 s3 ! 0) = Some 0"
    by auto
  from demo_more[OF 3(1)] 3 show ?thesis by (auto simp: numeral_eq_Suc simp del: demo_opens.simps)
qed

text \<open>The empty path at 16 names the working directory.\<close>

lemma demo_opend:
  "\<exists>s. sysopend demo_ops 1 16 (demo_sys g) = Some (Inr (0, s)) \<and> length (fds 1 s) = 1 \<and> \<not> fd_isEmpty (fds 1 s ! 0)"
proof -
  have c: "c_string demo_mem 16 = Some (Inr [])" by (subst c_string.simps) (simp add: demo_mem_def)
  have p: "split ([] :: string) (CHR 0x2F) False = []" by code_simp
  have r: "sys_resolve demo_ops (sy_wd (demo_sys g) 1) [] (world (demo_sys g)) = Some (Inr (Some \<lparr>vf_impl = 0, vf_dev = 0\<rparr>))"
    by (simp add: sys_resolve_def dir_resolve_def VFS.resolvePath_def p demo_sys_def)
  have d: "o_type demo_ops \<lparr>vf_impl = 0, vf_dev = 0\<rparr> (world (demo_sys g)) = Directory"
    by (simp add: demo_ops_def k_type_def vf_getType_def k_file_ops_def demo_sys_def demo_world_def world_def)
  have u: "um_in 1 16 (demo_sys g)" and c': "c_string (sy_mem (demo_sys g) 1) 16 = Some (Inr [])"
    using c by (simp_all add: um_in_def demo_sys_def demo_mem_def)
  have o': "\<exists>s. bnd (fds_room demo_ops 1 0 (demo_sys g)) (fds_set demo_ops 1 0 (fd_directory demo_ops \<lparr>vf_impl = 0, vf_dev = 0\<rparr>)) = Inr s \<and>
      length (fds 1 s) = 1 \<and> \<not> fd_isEmpty (fds 1 s ! 0)"
    by (simp add: fds_room_def fds_resize_def fv_resize_def fv_reserve_def fds_set_def fds_put_def fv_put_def fd_assign_def fd_directory_def
        new_owners_def fd_copy_def fd_drop_def Let_def demo_sys_def fv_new_def fds_def fd_isEmpty_def fd_empty_def split_beta)
  then obtain s s1 where s: "fds_room demo_ops 1 0 (demo_sys g) = Inr s1"
    "fds_set demo_ops 1 0 (fd_directory demo_ops \<lparr>vf_impl = 0, vf_dev = 0\<rparr>) s1 = Inr s" "length (fds 1 s) = 1" "\<not> fd_isEmpty (fds 1 s ! 0)"
    by (auto simp: res_simps)
  have n: "length (fds 1 (demo_sys g)) = 0" by (simp add: demo_sys_def fds_def fv_new_def)
  have "sysopend demo_ops 1 16 (demo_sys g) = Some (Inr (0, s))"
    unfolding sysopend_def user_path_def with_dir_def with_file_def getFreeFD_def n Let_def using u c' r d s(1,2) by simp
  then show ?thesis using s(3,4) by blast
qed

section \<open>Properties\<close>

text \<open>C4. No descriptor is used after it was freed: in every state the system calls reach, a descriptor is well-formed
  (its fields fit its type), and unless it is empty it refers to a counter that exists and is at least the
  number of all descriptors, of all processes, that share it; and closing a descriptor again leaves such a state,
  or the deletion of its object failed.\<close>

theorem descriptors_counted:
  fixes E :: "('f, 'w, 'z) sys_ops_scheme" and s :: "('f, 'w) sys"
  assumes "sys_reach E s" "d \<in> set (fds p s)"
  shows "fd_wf d \<and> (fd_isEmpty d \<or>
      (\<exists>c n. fd_owners d = Some c \<and> fh_cnt (sy_heap s) c = Some n \<and> 0 < n \<and> count (tab_owners (sy_fds s)) c \<le> n)) \<and>
    yields E (\<lambda>(r, s'). sys_reach E s' \<and> sys_ok s') (sysclose E p fd s)"
proof -
  from reach_ok[OF assms(1)] obtain L where inv: "sys_inv L s" by (auto simp: sys_ok_def)
  then have wf: "fd_wf d" using assms(2) by (simp add: sys_inv_def)
  have "\<exists>c n. fd_owners d = Some c \<and> fh_cnt (sy_heap s) c = Some n \<and> 0 < n \<and> count (tab_owners (sy_fds s)) c \<le> n" if ne: "\<not> fd_isEmpty d"
  proof -
    from wf ne obtain c where c: "fd_owners d = Some c" by (auto simp: fd_wf_def fd_isEmpty_def)
    obtain i where i: "i < length (fds p s)" "fds p s ! i = d" using assms(2) by (auto simp: in_set_conv_nth)
    have "c \<in># owners_of (fds p s)" using owners_of_nth[OF i(1)] i(2) c by (simp add: owner_of_def)
    then have m: "c \<in># tab_owners (sy_fds s)" using tab_owners_sub[of "sy_fds s" p] by (auto simp: fds_def dest: mset_subset_eqD)
    then have "fh_cnt (sy_heap s) c = Some (count (L + tab_owners (sy_fds s)) c)" using inv by (auto simp: sys_inv_def counts_def)
    then show ?thesis using c m by simp
  qed
  moreover have "yields E (\<lambda>(r, s'). sys_reach E s' \<and> sys_ok s') (sysclose E p fd s)"
  proof (cases "sysclose E p fd s")
    case (Inr x)
    obtain r s' where x: "x = (r, s')" by (cases x)
    then have "sys_reach E s'" using sys_reach.step[OF assms(1) sys_step.do_close[of E p fd s r s']] Inr by simp
    then show ?thesis using Inr x reach_ok by auto
  qed (use sysclose_inv[OF inv, of E p fd] in simp)
  ultimately show ?thesis using wf by blast
qed

theorem descriptors_counted_witness:
  "\<exists>s. sysopend demo_ops 1 16 (demo_sys demo_gui) = Some (Inr (0, s)) \<and>
     (\<exists>c n. fd_owners (fds 1 s ! 0) = Some c \<and> fh_cnt (sy_heap s) c = Some n \<and> 0 < n)"
proof -
  from demo_opend[of demo_gui] obtain s where s: "sysopend demo_ops 1 16 (demo_sys demo_gui) = Some (Inr (0, s))" "length (fds 1 s) = 1"
    "\<not> fd_isEmpty (fds 1 s ! 0)" by blast
  have "sys_reach demo_ops s" by (rule sys_reach.step[OF demo_start sys_step.opend[OF s(1)]])
  from descriptors_counted[OF this, of "fds 1 s ! 0" 1 0] s show ?thesis by auto
qed

text \<open>C13. \<open>sysdup\<close> shares: it takes the first free number, and closing the old descriptor then deletes nothing,
  leaves every stream, file and window as it was and the new descriptor with a live counter.\<close>

theorem dup_shares:
  fixes E :: "('f, 'w, 'z) sys_ops_scheme" and s :: "('f, 'w) sys"
  assumes "sys_ok s" "unat fd < length (fds p s)" "fd_owners (fds p s ! unat fd) = Some c" "sysdup E p fd s = Inr (r, s1)"
  shows "r = of_nat (length (fds p s)) \<and> world s1 = world s \<and> (\<exists>s2. sysclose E p fd s1 = Inr (0, s2) \<and> world s2 = world s \<and>
    fd_isEmpty (fds p s2 ! unat fd) \<and> fd_owners (fds p s2 ! length (fds p s)) = Some c \<and> (\<exists>n>0. fh_cnt (sy_heap s2) c = Some n))"
proof -
  let ?n = "length (fds p s)"
  note d = dup_shares_inv[OF assms]
  have "keeps_ok s s1" by (rule dup_keeps[OF assms(4)])
  then obtain L where L: "sys_inv L s1" using assms(1) by (auto simp: keeps_ok_def sys_ok_def)
  have "2 \<le> count (owners_of (fds p s1)) c" by (rule count_two[of "unat fd" _ ?n]) (use d assms(2) in auto)
  moreover have "count (owners_of (fds p s1)) c \<le> count (tab_owners (sy_fds s1)) c"
    using tab_owners_sub[of "sy_fds s1" p] by (simp add: fds_def mset_subset_eq_count)
  ultimately have "2 \<le> count (L + tab_owners (sy_fds s1)) c" by simp
  from close_shared[OF L _ _ this, of fd p E] d assms(2) show ?thesis by (auto simp: fd_empty_def fd_isEmpty_def nth_list_update)
qed

theorem dup_shares_witness:
  "\<exists>s s1 s2. sysdup demo_ops 1 0 s = Inr (2, s1) \<and> sysclose demo_ops 1 0 s1 = Inr (0, s2) \<and> world s2 = world s \<and>
     (\<exists>n>0. fh_cnt (sy_heap s2) 0 = Some n)"
proof -
  from demo_two[of demo_gui] obtain s where s: "demo_opens demo_gui 2 = Inr s" "length (fds 1 s) = 2" "fd_owners (fds 1 s ! 0) = Some 0" "is_ok (sysdup demo_ops 1 0 s)"
    by (auto split: sum.splits)
  then obtain r s1 where d: "sysdup demo_ops 1 0 s = Inr (r, s1)" by (auto simp: is_ok_iff)
  from dup_shares[OF demo_opens_ok[OF s(1)] _ _ d] s d show ?thesis by auto
qed

text \<open>C12. A full vector leaks: opening a file when the vector of descriptors has to grow copies the descriptors
  without destroying the old ones, so that a descriptor opened before can be closed but its object is never deleted: the
  close changes nothing outside the table, and the counter stays above zero although it is the descriptor's last owner.\<close>

theorem growth_leaks:
  fixes E :: "('f, 'w, 'z) sys_ops_scheme" and s :: "('f, 'w) sys"
  assumes "sys_ok s" "fv_cap (sy_fds s p) \<le> length (fds p s)" "unat fd < length (fds p s)" "fd_owners (fds p s ! unat fd) = Some c"
    and "open_file E p f flags s = Inr (r, s1)"
  shows "\<exists>s2. sysclose E p fd s1 = Inr (0, s2) \<and> world s2 = world s1 \<and> fd_isEmpty (fds p s2 ! unat fd) \<and>
    (\<exists>n>count (tab_owners (sy_fds s2)) c. fh_cnt (sy_heap s2) c = Some n)"
proof -
  from assms(1) obtain L where inv: "sys_inv L s" by (auto simp: sys_ok_def)
  let ?L = "L + surplus p (length (fds p s) + 1) s"
  from open_file_inv[OF inv, of E p f flags] assms(5) have i1: "sys_inv ?L s1" by simp
  have sur: "1 \<le> count (surplus p (length (fds p s) + 1) s) c"
    using assms(2) owners_of_nth[OF assms(3)] assms(4) by (simp add: surplus_def owner_of_def)
  note o' = open_others[OF assms(5,3)]
  have "1 \<le> count (owners_of (fds p s1)) c" using owners_of_nth[of "unat fd" "fds p s1"] o' assms(4) by (simp add: owner_of_def)
  moreover have "count (owners_of (fds p s1)) c \<le> count (tab_owners (sy_fds s1)) c"
    using tab_owners_sub[of "sy_fds s1" p] by (simp add: fds_def mset_subset_eq_count)
  ultimately have two: "2 \<le> count (?L + tab_owners (sy_fds s1)) c" using sur unfolding count_union by linarith
  from close_shared[OF i1 _ _ two, of fd p E] o' assms(4) obtain s2 where
    s2: "sysclose E p fd s1 = Inr (0, s2)" "world s2 = world s1" "fds p s2 = (fds p s1)[unat fd := fd_empty]" "fh_cnt (sy_heap s2) c \<noteq> None" by auto
  from sysclose_inv[OF i1, of E p fd] s2(1) have "sys_inv ?L s2" by simp
  then have "fh_cnt (sy_heap s2) c = Some (count (?L + tab_owners (sy_fds s2)) c)"
    using s2(4) by (auto simp: sys_inv_def counts_def split: if_splits)
  then show ?thesis using s2 o' sur by (auto simp: fd_empty_def fd_isEmpty_def)
qed

theorem growth_leaks_witness:
  "\<exists>s r s1 s2. open_file demo_ops 1 demo_file 3 s = Inr (r, s1) \<and> sysclose demo_ops 1 0 s1 = Inr (0, s2) \<and> world s2 = world s1 \<and>
     (\<exists>n>0. fh_cnt (sy_heap s2) 0 = Some n)"
proof -
  from demo_full[of demo_gui] obtain s where s: "demo_opens demo_gui 4 = Inr s" "length (fds 1 s) = 4" "fv_cap (sy_fds s 1) = 4"
    "fd_owners (fds 1 s ! 0) = Some 0" by blast
  from open_total[OF demo_opens_ok[OF s(1)], of demo_ops 1 demo_file 3] obtain r s1 where o': "open_file demo_ops 1 demo_file 3 s = Inr (r, s1)" by blast
  from growth_leaks[OF demo_opens_ok[OF s(1)] _ _ _ o', of 0 0] s have
    "\<exists>s2. sysclose demo_ops 1 0 s1 = Inr (0, s2) \<and> world s2 = world s1 \<and> (\<exists>n>0. fh_cnt (sy_heap s2) 0 = Some n)"
    by (auto dest: le_less_trans[OF le0])
  then show ?thesis using o' by blast
qed

text \<open>C3. What is written is read back: writing bytes from user memory at the offset of a descriptor on a regular file, seeking back
  and reading into another buffer returns the length each time and leaves the same bytes in the other buffer, and the
  file holds them at that offset, a gap before them being filled with zeros.\<close>

theorem file_roundtrip:
  assumes "on_file p n f a c s" "mem_get (sy_mem s p) buf (length bs) = Inr bs" "bs \<noteq> []" "unat a + length bs < 2 ^ 63"
    and "user_range p buf (length bs) s" "user_range p buf' (length bs) s"
  shows "\<exists>s1 s2 s3. swrite (kernel_ops brk) p (of_nat n) buf (of_nat (length bs)) s = Inr (of_nat (length bs), s1) \<and>
    sysseek (kernel_ops brk) p (of_nat n) a 0 s1 = Inr (a, s2) \<and>
    nbread (kernel_ops brk) p (of_nat n) buf' (of_nat (length bs)) s2 = Inr (of_nat (length bs), s3) \<and>
    mem_get (sy_mem s3 p) buf' (length bs) = Inr bs \<and> on_file p n f (a + of_nat (length bs)) (written (unat a) bs c) s3"
proof -
  from swrite_file[OF assms(1,5,2,3,4), of brk] obtain s1 where
    s1: "swrite (kernel_ops brk) p (of_nat n) buf (of_nat (length bs)) s = Inr (of_nat (length bs), s1)"
      "on_file p n f (a + of_nat (length bs)) (written (unat a) bs c) s1" "sy_mem s1 = sy_mem s" by blast
  have l: "unat a + length bs \<le> length (written (unat a) bs c)" by (simp add: written_read(2))
  from sysseek_file[OF s1(2), of a brk] l obtain s2 where
    s2: "sysseek (kernel_ops brk) p (of_nat n) a 0 s1 = Inr (a, s2)" "on_file p n f a (written (unat a) bs c) s2" "sy_mem s2 = sy_mem s1" by auto
  have "user_range p buf' (length bs) s2" using assms(6) s1(3) s2(3) by (simp add: user_range_def)
  from nbread_file[OF s2(2) this assms(3) _ _ l, of brk] assms(4) obtain s3 where
    "nbread (kernel_ops brk) p (of_nat n) buf' (of_nat (length bs)) s2 = Inr (of_nat (length bs), s3)"
    "on_file p n f (a + of_nat (length bs)) (written (unat a) bs c) s3" "mem_get (sy_mem s3 p) buf' (length bs) = Inr bs"
    by (auto simp: written_read(1))
  then show ?thesis using s1(1) s2(1) by blast
qed

theorem file_roundtrip_witness:
  "\<exists>s s1 s2 s3. demo_opens demo_gui 1 = Inr s \<and> swrite demo_ops 1 0 0 3 s = Inr (3, s1) \<and> sysseek demo_ops 1 0 0 0 s1 = Inr (0, s2) \<and>
     nbread demo_ops 1 0 32 3 s2 = Inr (3, s3) \<and> mem_get (sy_mem s3 1) 32 3 = Inr [0x2F, 0x61, 0]"
proof -
  from demo_one[of demo_gui] obtain s where s: "demo_opens demo_gui 1 = Inr s" "length (fds 1 s) = 1"
    "fd_type (fds 1 s ! 0) = STREAM" "fd_mask (fds 1 s ! 0) = 31" "fd_str (fds 1 s ! 0) = Some (Some 0)"
    "kw_objs (world s) 0 = Some (KBytes 1 0)" "map rf_kind (fs_files (kw_ram (world s))) ! 1 = RamReg [1, 2, 3]"
    "length (fs_files (kw_ram (world s))) = 2" "mem_get (sy_mem s 1) 0 3 = Inr [0x2F, 0x61, 0]"
    and m: "\<forall>i\<in>set [0..<4]. sy_mem s 1 (of_nat i) \<noteq> None \<and> sy_mem s 1 (32 + of_nat i) \<noteq> None"
    by (auto split: sum.splits)
  have f: "on_file 1 0 1 0 [1, 2, 3] s" using s by (simp add: on_file_def)
  have r: "user_range 1 0 (length [0x2F, 0x61, 0 :: u8]) s" "user_range 1 32 (length [0x2F, 0x61, 0 :: u8]) s"
    unfolding user_range_def using m by auto
  have l: "length [0x2F, 0x61, 0 :: u8] = 3" by simp
  have "mem_get (sy_mem s 1) 0 (length [0x2F, 0x61, 0 :: u8]) = Inr [0x2F, 0x61, 0]" unfolding l by (rule s(9))
  note e = file_roundtrip[OF f this _ _ r, of "\<lambda>p a x. (0, x)", folded demo_ops_def, unfolded l of_nat_numeral]
  have "unat (0 :: u64) + 3 < 2 ^ 63" by simp
  from e[OF _ this] s(1) show ?thesis by auto
qed

text \<open>C2. Every system call, through the interrupt and the table of handlers, keeps the scheduler's and the processes'
  invariant, whatever the arguments are and whatever the streams and files below do.\<close>

theorem syscalls_keep_kernel:
  fixes E :: "('f, 'w, 'z) sys_ops_scheme"
  assumes "order_ok PE" "kernel_ok k" "k_current k \<noteq> None"
    and "syscallInt PE (syscallFill E PE load syscallInit) par a b c d e f k = Some (Inr (r, o', k'))"
  shows "kernel_ok k'"
  by (rule syscall_keeps[OF assms])

definition demo_call :: cpu_context where
  "demo_call = \<lparr>cx_rip = 4096, cx_rsp = 8192, cx_rax = 3, cx_rdi = 0, cx_rsi = 0, cx_rflags = 514, cx_rest = []\<rparr>"

definition demo_penv :: "(read_retry, (nat vfile, kworld) sys) proc_env" where
  "demo_penv = sys_env demo_ops sorted_list_of_set demo_call (\<lambda>x. x)"

definition demo_skernel :: "(nat vfile, kworld) skernel" where
  "demo_skernel = (first_state demo_penv 4096 demo_ids (demo_sys demo_gui))\<lparr>k_fifo := [], k_current := Some 1, k_remaining := 5, k_last := Some demo_call\<rparr>"

lemma demo_skernel_ok: "kernel_ok demo_skernel"
proof -
  have "core_ok (first_state demo_penv 4096 demo_ids (demo_sys demo_gui))" using demo_ids_ok[of demo_penv 4096 "demo_sys demo_gui"] by (simp add: kernel_ok_def)
  then have "core_ok demo_skernel"
    by (simp add: demo_skernel_def core_ok_def waits_ok_def first_state_def sched_new_def Waits.ws_init_def)
  then show ?thesis
    by (auto simp: kernel_ok_def queue_ok_def live_ok_def demo_skernel_def first_state_def sched_new_def split: if_splits)
qed

text \<open>Closing a number that is not open.\<close>

theorem syscalls_keep_kernel_witness:
  "\<exists>k. syscallInt demo_penv (syscallFill demo_ops demo_penv (\<lambda>p f s. Inl Assertion) syscallInit) demo_call 7 0 0 0 0 0 demo_skernel =
     Some (Inr (- EBADF, Returns, k)) \<and> kernel_ok k"
proof -
  let ?h = "syscallFill demo_ops demo_penv (\<lambda>p f s. Inl Assertion) syscallInit"
  have s: "context_save demo_call demo_skernel = Inr demo_skernel" by (simp add: context_save_def demo_skernel_def demo_call_def word_sless_alt)
  have h: "?h (cx_rax demo_call) = Some (\<lambda>a _ _ _ _ _. in_process demo_ops (\<lambda>p s. Some (sysclose demo_ops p a s)))" and "\<not> 255 < cx_rax demo_call"
    by (simp_all add: demo_call_def syscallFill_def)
  moreover obtain k1 th where e: "enterSys demo_skernel = Inr (1, k1)" "k_remaining k1 = 5" "k_env k1 = demo_sys demo_gui" "k_threads k1 1 = Some th" "t_pid th = 1"
    by (simp add: enterSys_def upd_thread_def demo_skernel_def deref_def first_state_def sched_new_def)
  have c: "sysclose demo_ops 1 7 (demo_sys demo_gui) = Inr (- EBADF, demo_sys demo_gui)"
    by (simp add: sysclose_def with_fd_def demo_sys_def fds_def fv_new_def)
  have "\<exists>k. in_process demo_ops (\<lambda>p s. Some (sysclose demo_ops p 7 s)) demo_skernel = Some (Inr (- EBADF, Returns, k)) \<and> k_remaining k = 5"
    unfolding in_process_def e(1) by (simp add: deref_def e c deliver_def split_beta)
  ultimately have "\<exists>k. syscallInt demo_penv ?h demo_call 7 0 0 0 0 0 demo_skernel = Some (Inr (- EBADF, Returns, k))"
    unfolding syscallInt_def Let_def s h by (auto simp: sysleave_def)
  then obtain k where k: "syscallInt demo_penv ?h demo_call 7 0 0 0 0 0 demo_skernel = Some (Inr (- EBADF, Returns, k))" ..
  have "order_ok demo_penv" by (simp add: order_ok_def demo_penv_def sys_env_def)
  from syscalls_keep_kernel[OF this demo_skernel_ok _ k] k show ?thesis by (auto simp: demo_skernel_def)
qed

section \<open>Paths\<close>

lemma split_at_none: "CHR 0x2F \<notin> set (take i s) \<Longrightarrow> i \<le> length s \<Longrightarrow> split_at_slash s i = ([], s)"
  by (induction i) (auto simp: take_Suc_conv_app_nth)

lemma split_at_some:
  assumes "CHR 0x2F \<notin> set name" "CHR 0x00 \<notin> set name"
  shows "k \<le> length name \<Longrightarrow> split_at_slash (dir @ CHR 0x2F # name) (length dir + 1 + k) = (dir, name)"
proof (induction k)
  case 0
  have "takeWhile (\<lambda>c. c \<noteq> CHR 0x00) name = name" using assms(2) by (auto simp: takeWhile_eq_all_conv)
  then show ?case by (simp add: nth_append)
next
  case (Suc k)
  then have "name ! k \<noteq> CHR 0x2F" using assms(1) by (metis Suc_le_eq nth_mem)
  then show ?case using Suc by (simp add: nth_append)
qed

lemma split_last: "CHR 0x2F \<notin> set name \<Longrightarrow> CHR 0x00 \<notin> set name \<Longrightarrow> splitFileName (dir @ CHR 0x2F # name) = (dir, name)"
  using split_at_some[of name "length name" dir] by (simp add: splitFileName_def)

lemma split_plain: "CHR 0x2F \<notin> set name \<Longrightarrow> splitFileName name = ([], name)"
  by (simp add: splitFileName_def split_at_none)

text \<open>C14. The parent of a path is what is before its last slash, and for a path directly under the root that is the
  empty path, which is resolved in the working directory: \<open>mkdir\<close>, \<open>rmdir\<close> and \<open>unlink\<close> of \<open>/x\<close> do exactly what they do for \<open>x\<close>.\<close>

theorem absolute_is_relative:
  fixes E :: "('f, 'w, 'z) sys_ops_scheme" and s :: "('f, 'w) sys"
  assumes "CHR 0x2F \<notin> set name" "CHR 0x00 \<notin> set name" "um_in p a s" "um_in p b s"
    and "c_string (sy_mem s p) a = Some (Inr (CHR 0x2F # name))" "c_string (sy_mem s p) b = Some (Inr name)"
  shows "splitFileName (dir @ CHR 0x2F # name) = (dir, name) \<and> sysmkdir E p a s = sysmkdir E p b s \<and> sysrmdir E p a s = sysrmdir E p b s \<and>
    sysunlink E p a s = sysunlink E p b s"
proof -
  have "splitFileName (CHR 0x2F # name) = splitFileName name"
    using split_last[OF assms(1,2), of "[]"] split_plain[OF assms(1)] by simp
  then show ?thesis using split_last[OF assms(1,2), of dir] assms(3-6)
    by (simp add: sysmkdir_def sysrmdir_def sysunlink_def user_path_def)
qed

lemma demo_strings: "c_string demo_mem 0 = Some (Inr ''/a'') \<and> c_string demo_mem 1 = Some (Inr ''a'')"
proof -
  have m: "demo_mem 0 = Some 0x2F" "demo_mem 1 = Some 0x61" "demo_mem 2 = Some 0" by (simp_all add: demo_mem_def)
  have 2: "c_string demo_mem 2 = Some (Inr [])" by (subst c_string.simps) (simp add: m)
  have 1: "c_string demo_mem 1 = Some (Inr ''a'')" by (subst c_string.simps) (simp add: m 2 char_of_def bit_0)
  show ?thesis using 1 by (subst c_string.simps) (simp add: m 1 char_of_def bit_0)
qed

theorem absolute_is_relative_witness:
  "splitFileName ''b/c/a'' = (''b/c'', ''a'') \<and> sysmkdir demo_ops 1 0 (demo_sys demo_gui) = sysmkdir demo_ops 1 1 (demo_sys demo_gui)"
proof -
  have m: "sy_mem (demo_sys demo_gui) 1 = demo_mem" by (simp add: demo_sys_def)
  have i: "um_in 1 0 (demo_sys demo_gui)" "um_in 1 1 (demo_sys demo_gui)" by (simp_all add: um_in_def m demo_mem_def)
  from absolute_is_relative[OF _ _ i, of "''a''" "''b/c''" demo_ops] demo_strings show ?thesis by (simp add: m)
qed

end
