(* ===== verification/Spec2Isabelle.thy ===== *)
theory Spec2Isabelle
  imports Windows Disk UserMem Util Deque Malloc Ext2Dir RamFS VFS Streams ProcLife SysWorld
begin

text \<open>
  A verification library for the kernel of Super OS.
\<close>

end
